(* ===== verification/FF_Prelude.thy ===== *)
theory FF_Prelude
  imports Main "HOL-Library.Word"
begin

unbundle bit_operations_syntax

text \<open>
  Vocabulary shared by the component theories: the C integer types of the library as words
  (an LP64 little-endian target: \<open>uint\<close> has 32 bits, \<open>size_t\<close> 64), the C shifts whose
  count must be below the width, C's integer comparison results, and generic lemmas on
  lists and words. Pointers into a buffer are offsets (\<open>nat\<close>) into the list of its bytes.
\<close>

type_synonym u8 = "8 word"
type_synonym u16 = "16 word"
type_synonym u32 = "32 word"
type_synonym u64 = "64 word"
type_synonym bytes = "u8 list"

named_theorems ff_defs \<open>definitions unfolded by the component proofs\<close>
named_theorems ff_word \<open>facts that move word arithmetic to the natural numbers\<close>

section \<open>C shifts\<close>

text \<open>A shift by the width or more is undefined behaviour in C: \<open>None\<close>.\<close>

definition c_shl :: "'a::len word \<Rightarrow> nat \<Rightarrow> 'a word option" where
  "c_shl x k = (if k < LENGTH('a) then Some (push_bit k x) else None)"

definition c_shr :: "'a::len word \<Rightarrow> nat \<Rightarrow> 'a word option" where
  "c_shr x k = (if k < LENGTH('a) then Some (drop_bit k x) else None)"

text \<open>The one-bit mask of the platform layer (\<open>FF_BIT32\<close>, \<open>FF_BIT64\<close>).\<close>

definition ff_bit :: "nat \<Rightarrow> 'a::len word" where
  "ff_bit b = push_bit b 1"

lemma bit_ff_bit [simp]: "bit (ff_bit b :: 'a::len word) n \<longleftrightarrow> n = b \<and> n < LENGTH('a)"
  by (auto simp: ff_bit_def bit_simps)

lemma and_ff_bit_eq_0 [simp]:
  "(w AND ff_bit b = 0) \<longleftrightarrow> \<not> (b < LENGTH('a) \<and> bit w b)" for w :: "'a::len word"
proof
  assume "w AND ff_bit b = 0"
  then have "\<not> bit (w AND ff_bit b) b" by simp
  then show "\<not> (b < LENGTH('a) \<and> bit w b)" by (auto simp: bit_simps)
next
  assume "\<not> (b < LENGTH('a) \<and> bit w b)"
  then show "w AND ff_bit b = 0" by (intro bit_word_eqI) (auto simp: bit_simps)
qed

section \<open>Words and natural numbers\<close>

lemma unat_add_small [ff_word]:
  "unat (a :: 'a::len word) + unat b < 2 ^ LENGTH('a) \<Longrightarrow> unat (a + b) = unat a + unat b"
  by (simp add: unat_word_ariths)

lemma unat_of_nat_small [ff_word]:
  "n < 2 ^ LENGTH('a) \<Longrightarrow> unat (of_nat n :: 'a::len word) = n"
  by (simp add: unat_of_nat)

lemma unat_ucast_up [simp]:
  "LENGTH('a) \<le> LENGTH('b) \<Longrightarrow> unat (ucast (x :: 'a::len word) :: 'b::len word) = unat x"
proof -
  assume "LENGTH('a) \<le> LENGTH('b)"
  then have "(2::nat) ^ LENGTH('a) \<le> 2 ^ LENGTH('b)" by simp
  with unsigned_less [of x, where ?'a = nat] have "unat x < 2 ^ LENGTH('b)" by linarith
  then show ?thesis by (simp add: unsigned_ucast_eq take_bit_nat_eq_self)
qed

lemma word_unat_iff: "x = y \<longleftrightarrow> unat x = unat y" for x y :: "'a::len word"
  by (simp add: word_eq_iff_unsigned)

lemma unat_u8_lt [simp]: "unat (b :: u8) < 256"
  using unsigned_less [of b] by simp

section \<open>Memory blocks\<close>

text \<open>
  \<open>memcpy(dst + off, src, len)\<close> on a buffer. A copy beyond the end of \<open>dst\<close> gives a longer
  list, so that a buffer whose length is its capacity after the copy was not overrun.
\<close>

definition put_at :: "'a list \<Rightarrow> nat \<Rightarrow> 'a list \<Rightarrow> 'a list" where
  "put_at dst off src = take off dst @ src @ drop (off + length src) dst"

lemma length_put_at [simp]:
  "off + length src \<le> length dst \<Longrightarrow> length (put_at dst off src) = length dst"
  by (simp add: put_at_def)

lemma put_at_Nil [simp]: "put_at dst off [] = dst"
  by (simp add: put_at_def)

lemma put_at_overrun: "src \<noteq> [] \<Longrightarrow> length dst < off + length src \<Longrightarrow> length dst < length (put_at dst off src)"
  by (cases "off \<le> length dst") (auto simp: put_at_def)

lemma nth_put_at:
  "off + length src \<le> length dst \<Longrightarrow> i < length dst \<Longrightarrow>
    put_at dst off src ! i = (if off \<le> i \<and> i < off + length src then src ! (i - off) else dst ! i)"
  by (auto simp: put_at_def nth_append)

section \<open>Three-way comparison\<close>

text \<open>\<open>ffint_cmp\<close> of \<open>number.h\<close>, a macro over any integer type.\<close>

definition ffint_cmp :: "'a::linorder \<Rightarrow> 'a \<Rightarrow> int" where
  "ffint_cmp a b = (if a = b then 0 else if a < b then -1 else 1)"

lemma ffint_cmp_simps [simp]:
  "ffint_cmp a b = 0 \<longleftrightarrow> a = b" "ffint_cmp a b \<le> 0 \<longleftrightarrow> a \<le> b" "ffint_cmp a b < 0 \<longleftrightarrow> a < b"
  by (auto simp: ffint_cmp_def)

end
