(* ===== verification/FF_Bits.thy ===== *)
theory FF_Bits
  imports FF_Prelude
begin

unbundle bit_operations_syntax

text \<open>
  \<open>FF/bitops.h\<close>: test, set and reset of single bits in 32-bit and 64-bit words and in a bit
  array, bit fields read and written at an offset from the most significant bit.
  The pointer argument of the C functions is the word itself, returned updated with the old
  value of the bit.
\<close>

section \<open>Single bits\<close>

definition ffbit_test32 :: "u32 \<Rightarrow> nat \<Rightarrow> bool" where
  "ffbit_test32 p b = (p AND ff_bit b \<noteq> 0)"

definition ffbit_set32 :: "u32 \<Rightarrow> nat \<Rightarrow> u32 \<times> bool" where
  "ffbit_set32 p b = (if p AND ff_bit b = 0 then (p OR ff_bit b, False) else (p, True))"

definition ffbit_reset32 :: "u32 \<Rightarrow> nat \<Rightarrow> u32 \<times> bool" where
  "ffbit_reset32 p b = (if p AND ff_bit b \<noteq> 0 then (p AND NOT (ff_bit b), True) else (p, False))"

definition ffbit_test64 :: "u64 \<Rightarrow> nat \<Rightarrow> bool" where
  "ffbit_test64 p b = (p AND ff_bit b \<noteq> 0)"

definition ffbit_set64 :: "u64 \<Rightarrow> nat \<Rightarrow> u64 \<times> bool" where
  "ffbit_set64 p b = (if p AND ff_bit b = 0 then (p OR ff_bit b, False) else (p, True))"

definition ffbit_reset64 :: "u64 \<Rightarrow> nat \<Rightarrow> u64 \<times> bool" where
  "ffbit_reset64 p b = (if p AND ff_bit b \<noteq> 0 then (p AND NOT (ff_bit b), True) else (p, False))"

text \<open>The contract that the 32-bit and the 64-bit operations share.\<close>

locale bit_cell =
  fixes tst :: "'w \<Rightarrow> nat \<Rightarrow> bool"
    and st :: "'w \<Rightarrow> nat \<Rightarrow> 'w \<times> bool"
    and rst :: "'w \<Rightarrow> nat \<Rightarrow> 'w \<times> bool"
    and width :: nat
  assumes set_old: "b < width \<Longrightarrow> snd (st w b) = tst w b"
    and reset_old: "b < width \<Longrightarrow> snd (rst w b) = tst w b"
    and test_set: "b < width \<Longrightarrow> c < width \<Longrightarrow> tst (fst (st w b)) c = (c = b \<or> tst w c)"
    and test_reset: "b < width \<Longrightarrow> c < width \<Longrightarrow> tst (fst (rst w b)) c = (c \<noteq> b \<and> tst w c)"
    and ext: "(\<And>b. b < width \<Longrightarrow> tst v b = tst w b) \<Longrightarrow> v = w"
begin

lemma reset_after_set: "b < width \<Longrightarrow> \<not> tst w b \<Longrightarrow> fst (rst (fst (st w b)) b) = w"
  by (rule ext) (auto simp: test_set test_reset)

lemma set_after_reset: "b < width \<Longrightarrow> tst w b \<Longrightarrow> fst (st (fst (rst w b)) b) = w"
  by (rule ext) (auto simp: test_set test_reset)

lemma set_idem: "b < width \<Longrightarrow> st (fst (st w b)) b = (fst (st w b), True)"
  by (rule prod_eqI) (auto intro!: ext simp: test_set set_old)

lemma set_commute:
  "b < width \<Longrightarrow> c < width \<Longrightarrow> fst (st (fst (st w b)) c) = fst (st (fst (st w c)) b)"
  by (rule ext) (auto simp: test_set)

lemma set_all:
  "\<forall>b \<in> set bs. b < width \<Longrightarrow> c < width \<Longrightarrow>
    tst (fold (\<lambda>b w. fst (st w b)) bs w) c = (c \<in> set bs \<or> tst w c)"
  by (induction bs arbitrary: w) (auto simp: test_set)

end

lemmas bit_cell_defs =
  ffbit_test32_def ffbit_set32_def ffbit_reset32_def
  ffbit_test64_def ffbit_set64_def ffbit_reset64_def

interpretation bits32: bit_cell ffbit_test32 ffbit_set32 ffbit_reset32 32
  by unfold_locales (auto simp: bit_cell_defs bit_simps intro: bit_word_eqI)

interpretation bits64: bit_cell ffbit_test64 ffbit_set64 ffbit_reset64 64
  by unfold_locales (auto simp: bit_cell_defs bit_simps intro: bit_word_eqI)

section \<open>Bit arrays\<close>

text \<open>An array of \<open>uint\<close>; reading past its end is \<open>None\<close>.\<close>

definition ffbit_testarr :: "u32 list \<Rightarrow> nat \<Rightarrow> bool option" where
  "ffbit_testarr ar b =
     (if b div 32 < length ar then Some (ffbit_test32 (ar ! (b div 32)) (b mod 32)) else None)"

definition ffbit_setarr :: "u32 list \<Rightarrow> nat \<Rightarrow> (u32 list \<times> bool) option" where
  "ffbit_setarr ar b =
     (if b div 32 < length ar
      then (let (w, old) = ffbit_set32 (ar ! (b div 32)) (b mod 32) in Some (ar[b div 32 := w], old))
      else None)"

text \<open>The bit numbered from the most significant bit of each byte.\<close>

definition ffbit_ntest :: "bytes \<Rightarrow> nat \<Rightarrow> bool option" where
  "ffbit_ntest d b =
     (if b div 8 < length d
      then Some (((ucast (d ! (b div 8)) :: u32) AND ff_bit (7 - b mod 8)) \<noteq> 0) else None)"

lemma ffbit_ntest_bit:
  "b div 8 < length d \<Longrightarrow> ffbit_ntest d b = Some (bit (d ! (b div 8)) (7 - b mod 8))"
proof -
  have "7 - b mod 8 < (8::nat)" by arith
  then show "b div 8 < length d \<Longrightarrow> ?thesis" by (simp add: ffbit_ntest_def bit_simps)
qed

lemma ffbit_setarr_test:
  assumes "b < 32 * length ar" and "c < 32 * length ar" and "ffbit_setarr ar b = Some (ar', old)"
  shows "ffbit_testarr ar b = Some old"
    and "ffbit_testarr ar' c = (if c = b then Some True else ffbit_testarr ar c)"
proof -
  have bl: "b div 32 < length ar" "c div 32 < length ar" using assms(1,2) by auto
  have r: "old = snd (ffbit_set32 (ar ! (b div 32)) (b mod 32))"
    "ar' = ar[b div 32 := fst (ffbit_set32 (ar ! (b div 32)) (b mod 32))]"
    using assms(3) bl by (auto simp: ffbit_setarr_def split: prod.splits)
  show "ffbit_testarr ar b = Some old"
    using bl r by (simp add: ffbit_testarr_def bits32.set_old)
  show "ffbit_testarr ar' c = (if c = b then Some True else ffbit_testarr ar c)"
  proof (cases "c div 32 = b div 32")
    case True
    have "c mod 32 = b mod 32 \<longleftrightarrow> c = b" using True by (metis div_mult_mod_eq)
    with True bl r show ?thesis by (auto simp: ffbit_testarr_def bits32.test_set)
  next
    case False
    with bl r show ?thesis by (auto simp: ffbit_testarr_def)
  qed
qed

section \<open>Bit fields\<close>

text \<open>
  \<open>ffbit_max(n)\<close> is computed in 64 bits; the shift count \<open>sizeof(val)*8 - off - n\<close> in
  \<open>size_t\<close>. The results keep the undefined shifts as \<open>None\<close>.
\<close>

definition ffbit_max :: "u32 \<Rightarrow> u64 option" where
  "ffbit_max n = map_option (\<lambda>x. x - 1) (c_shl (1 :: u64) (unat n))"

definition ffbit_read32 :: "u32 \<Rightarrow> u32 \<Rightarrow> u32 \<Rightarrow> u32 option" where
  "ffbit_read32 val off n =
     (case c_shr val (unat (32 - ucast off - ucast n :: u64)) of None \<Rightarrow> None
      | Some v \<Rightarrow> map_option (\<lambda>m. ucast (ucast v AND m)) (ffbit_max n))"

definition ffbit_read64 :: "u64 \<Rightarrow> u32 \<Rightarrow> u32 \<Rightarrow> u64 option" where
  "ffbit_read64 val off n =
     (case c_shr val (unat (64 - ucast off - ucast n :: u64)) of None \<Rightarrow> None
      | Some v \<Rightarrow> map_option (\<lambda>m. v AND m) (ffbit_max n))"

definition ffbit_write32 :: "u32 \<Rightarrow> u32 \<Rightarrow> u32 \<Rightarrow> u32 option" where
  "ffbit_write32 val off n =
     (case ffbit_max n of None \<Rightarrow> None
      | Some m \<Rightarrow> map_option ucast (c_shl (ucast val AND m) (unat (32 - ucast off - ucast n :: u64))))"

definition ffbit_write64 :: "u64 \<Rightarrow> u32 \<Rightarrow> u32 \<Rightarrow> u64 option" where
  "ffbit_write64 val off n =
     (case ffbit_max n of None \<Rightarrow> None
      | Some m \<Rightarrow> c_shl (val AND m) (unat (64 - ucast off - ucast n :: u64)))"

lemma ffbit_max_mask: "ffbit_max n = (if unat n < 64 then Some (mask (unat n)) else None)"
  by (simp add: ffbit_max_def c_shl_def mask_eq_exp_minus_1 push_bit_of_1)

lemma field_shift:
  assumes "unat off + unat n \<le> w" and "w < 2 ^ 32"
  shows "unat (of_nat w - ucast (off :: u32) - ucast (n :: u32) :: u64) = w - unat off - unat n"
proof -
  have "of_nat w - ucast off - ucast n = (of_nat (w - unat off - unat n) :: u64)"
    using assms by (simp add: of_nat_diff)
  then show ?thesis using assms(2) by (simp add: unat_of_nat)
qed

lemmas field_shift32 = field_shift [where w = 32, simplified]
lemmas field_shift64 = field_shift [where w = 64, simplified]

lemma ffbit_read32_eq:
  assumes "unat off + unat n \<le> 32" and "1 \<le> unat n"
  shows "ffbit_read32 val off n = Some (drop_bit (32 - unat off - unat n) val AND mask (unat n))"
proof -
  have "ucast (ucast v AND mask (unat n) :: u64) = v AND mask (unat n)" for v :: u32
    using assms by (intro bit_word_eqI) (auto simp: bit_simps)
  then show ?thesis using assms
    by (simp add: ffbit_read32_def ffbit_max_mask c_shr_def field_shift32)
qed

lemma ffbit_write32_eq:
  assumes "unat off + unat n \<le> 32" and "1 \<le> unat n"
  shows "ffbit_write32 val off n = Some (push_bit (32 - unat off - unat n) (val AND mask (unat n)))"
proof -
  have "ucast (push_bit k (ucast v AND mask (unat n) :: u64)) = push_bit k (v AND mask (unat n))"
    for v :: u32 and k
    using assms by (intro bit_word_eqI) (auto simp: bit_simps)
  then show ?thesis using assms
    by (simp add: ffbit_write32_def ffbit_max_mask c_shl_def field_shift32)
qed

lemma ffbit_read64_eq:
  assumes "unat off + unat n \<le> 64" and "1 \<le> unat n" and "unat n < 64"
  shows "ffbit_read64 val off n = Some (drop_bit (64 - unat off - unat n) val AND mask (unat n))"
  using assms by (simp add: ffbit_read64_def ffbit_max_mask c_shr_def field_shift64)

lemma ffbit_write64_eq:
  assumes "unat off + unat n \<le> 64" and "1 \<le> unat n" and "unat n < 64"
  shows "ffbit_write64 val off n = Some (push_bit (64 - unat off - unat n) (val AND mask (unat n)))"
  using assms by (simp add: ffbit_write64_def ffbit_max_mask c_shl_def field_shift64)

lemma drop_push_mask:
  "k + n \<le> LENGTH('a) \<Longrightarrow> drop_bit k (push_bit k (v AND mask n)) AND mask n = v AND mask n"
  for v :: "'a::len word"
  by (intro bit_word_eqI) (auto simp: bit_simps)

section \<open>Bit scans and the number of bits set\<close>

text \<open>
  The scans of \<open>bitops-vc.h\<close>. \<open>BitScanForward\<close> gives the index of the least significant 1 bit,
  \<open>BitScanReverse\<close> of the most significant one; neither finds a bit in 0.
\<close>

definition bit_scan_forward :: "'a::len word \<Rightarrow> nat option" where
  "bit_scan_forward i = List.find (bit i) [0..<LENGTH('a)]"

definition bit_scan_reverse :: "'a::len word \<Rightarrow> nat option" where
  "bit_scan_reverse i = List.find (bit i) (rev [0..<LENGTH('a)])"

definition ffbit_ffs32 :: "u32 \<Rightarrow> nat" where
  "ffbit_ffs32 i = (case bit_scan_forward i of None \<Rightarrow> 0 | Some idx \<Rightarrow> idx + 1)"

definition ffbit_ffs64 :: "u64 \<Rightarrow> nat" where
  "ffbit_ffs64 i = (case bit_scan_forward i of None \<Rightarrow> 0 | Some idx \<Rightarrow> idx + 1)"

definition ffbit_find32 :: "u32 \<Rightarrow> nat" where
  "ffbit_find32 i = (case bit_scan_reverse i of None \<Rightarrow> 0 | Some idx \<Rightarrow> 32 - idx)"

lemma find_None: "List.find P xs = None \<longleftrightarrow> (\<forall>x \<in> set xs. \<not> P x)"
  by (auto simp: find_None_iff)

lemma bit_scan_forward_None: "bit_scan_forward i = None \<longleftrightarrow> i = 0"
proof -
  have "(\<forall>k < LENGTH('a). \<not> bit i k) \<longleftrightarrow> i = 0" for i :: "'a word"
    by (metis bit_imp_le_length bit_0_eq bot_apply bot_bool_def bit_word_eqI)
  moreover have "bit_scan_forward i = None \<longleftrightarrow> (\<forall>k < LENGTH('a). \<not> bit i k)"
    by (auto simp: bit_scan_forward_def find_None)
  ultimately show ?thesis by simp
qed

lemma bit_scan_forward_Some: "bit_scan_forward i = Some k \<Longrightarrow> bit i k"
  by (auto simp: bit_scan_forward_def find_Some_iff)

text \<open>The number of 1 bits of a word, by its definition.\<close>

definition popcnt :: "'a::len word \<Rightarrow> nat" where
  "popcnt w = card {k. bit w k}"

lemma finite_bits [simp]: "finite {k. bit (w :: 'a::len word) k}"
  by (rule finite_subset [of _ "{..<LENGTH('a)}"]) (auto dest: bit_imp_le_length)

lemma popcnt_0 [simp]: "popcnt (0 :: 'a::len word) = 0"
  by (simp add: popcnt_def)

lemma popcnt_clear:
  assumes "bit (w :: 'a::len word) k"
  shows "popcnt w = Suc (popcnt (w AND NOT (ff_bit k)))"
proof -
  have "{j. bit (w AND NOT (ff_bit k)) j} = {j. bit w j} - {k}"
    using bit_imp_le_length [of w] by (auto simp: bit_simps)
  moreover have "card {j. bit w j} = Suc (card ({j. bit w j} - {k}))"
    using assms by (intro card.remove) auto
  ultimately show ?thesis by (simp add: popcnt_def)
qed

text \<open>The inner loops of \<open>ffbit_count\<close>: find the lowest bit, clear it, count it.\<close>

function count_bits64 :: "u64 \<Rightarrow> nat \<Rightarrow> nat" where
  "count_bits64 n r = (if ffbit_ffs64 n = 0 then r
     else count_bits64 (fst (ffbit_reset64 n (ffbit_ffs64 n - 1))) (r + 1))"
  by pat_completeness auto

function count_bits32 :: "u32 \<Rightarrow> nat \<Rightarrow> nat" where
  "count_bits32 n r = (if ffbit_ffs32 n = 0 then r
     else count_bits32 (fst (ffbit_reset32 n (ffbit_ffs32 n - 1))) (r + 1))"
  by pat_completeness auto

lemma reset_popcnt64: "ffbit_ffs64 n \<noteq> 0 \<Longrightarrow>
    popcnt n = Suc (popcnt (fst (ffbit_reset64 n (ffbit_ffs64 n - 1))))"
  by (auto simp: ffbit_ffs64_def ffbit_reset64_def split: option.splits
      dest!: bit_scan_forward_Some dest: bit_imp_le_length simp: popcnt_clear)

lemma reset_popcnt32: "ffbit_ffs32 n \<noteq> 0 \<Longrightarrow>
    popcnt n = Suc (popcnt (fst (ffbit_reset32 n (ffbit_ffs32 n - 1))))"
  by (auto simp: ffbit_ffs32_def ffbit_reset32_def split: option.splits
      dest!: bit_scan_forward_Some dest: bit_imp_le_length simp: popcnt_clear)

termination count_bits64
  by (relation "measure (popcnt \<circ> fst)") (auto simp: reset_popcnt64)

termination count_bits32
  by (relation "measure (popcnt \<circ> fst)") (auto simp: reset_popcnt32)

declare count_bits64.simps [simp del] count_bits32.simps [simp del]

text \<open>A little-endian \<open>size_t\<close> read from eight bytes.\<close>

fun le_word :: "bytes \<Rightarrow> u64" where
  "le_word [] = 0"
| "le_word (b # bs) = ucast b OR push_bit 8 (le_word bs)"

text \<open>
  \<open>ffbit_count\<close>: whole words while \<open>k + sizeof(void*) < len\<close>, then the rest byte by byte.
\<close>

function ffbit_count :: "bytes \<Rightarrow> nat \<Rightarrow> nat" where
  "ffbit_count d r =
     (if 8 < length d then ffbit_count (drop 8 d) (count_bits64 (le_word (take 8 d)) r)
      else fold (\<lambda>b r. count_bits32 (ucast b) r) d r)"
  by pat_completeness auto
termination
  by (relation "measure (length \<circ> fst)") auto

declare ffbit_count.simps [simp del]

lemma count_bits64_popcnt: "count_bits64 n r = r + popcnt n"
proof (induction n r rule: count_bits64.induct)
  case (1 n r)
  show ?case
  proof (cases "ffbit_ffs64 n = 0")
    case True
    then have "n = 0"
      by (auto simp: ffbit_ffs64_def bit_scan_forward_None split: option.splits)
    with True show ?thesis by (subst count_bits64.simps) simp
  next
    case False
    with 1 show ?thesis by (subst count_bits64.simps) (simp add: reset_popcnt64)
  qed
qed

lemma count_bits32_popcnt: "count_bits32 n r = r + popcnt n"
proof (induction n r rule: count_bits32.induct)
  case (1 n r)
  show ?case
  proof (cases "ffbit_ffs32 n = 0")
    case True
    then have "n = 0"
      by (auto simp: ffbit_ffs32_def bit_scan_forward_None split: option.splits)
    with True show ?thesis by (subst count_bits32.simps) simp
  next
    case False
    with 1 show ?thesis by (subst count_bits32.simps) (simp add: reset_popcnt32)
  qed
qed

lemma popcnt_ucast: "LENGTH('a) \<le> LENGTH('b) \<Longrightarrow>
    popcnt (ucast (w :: 'a::len word) :: 'b::len word) = popcnt w"
  unfolding popcnt_def
  by (rule arg_cong [where f = card]) (auto simp: bit_simps dest: order.strict_trans2 [OF bit_imp_le_length])

lemma bit_le_word: "length bs \<le> 8 \<Longrightarrow> bit (le_word bs) k \<Longrightarrow> k < 8 * length bs"
proof (induction bs arbitrary: k)
  case Nil
  then show ?case by simp
next
  case (Cons b bs)
  then have "bit b k \<or> (8 \<le> k \<and> bit (le_word bs) (k - 8))" by (auto simp: bit_simps)
  then show ?case
  proof
    assume "bit b k" then show ?thesis by (auto dest: bit_imp_le_length)
  next
    assume "8 \<le> k \<and> bit (le_word bs) (k - 8)"
    with Cons.IH [of "k - 8"] Cons.prems(1) show ?thesis by auto
  qed
qed

lemma popcnt_le_word: "length bs \<le> 8 \<Longrightarrow> popcnt (le_word bs) = sum_list (map popcnt bs)"
proof (induction bs)
  case Nil
  then show ?case by simp
next
  case (Cons b bs)
  have lt: "k < 8 * length bs" if "bit (le_word bs) k" for k
    using bit_le_word [of bs k] Cons.prems that by simp
  have "{k. bit (le_word (b # bs)) k} = {k. bit b k} \<union> (\<lambda>k. k + 8) ` {k. bit (le_word bs) k}"
    using lt Cons.prems
    by (auto simp: bit_simps image_iff dest: bit_imp_le_length intro!: exI [of _ "_ - 8"])
      (fastforce dest: lt bit_imp_le_length)+
  moreover have "{k. bit b k} \<inter> (\<lambda>k. k + 8) ` {k. bit (le_word bs) k} = {}"
    by (auto dest!: bit_imp_le_length)
  ultimately show ?case
    using Cons by (simp add: popcnt_def card_Un_disjoint card_image)
qed

lemma fold_count32: "fold (\<lambda>b r. count_bits32 (ucast b) r) d r = r + sum_list (map popcnt d)"
  for d :: bytes
  by (induction d arbitrary: r) (simp_all add: count_bits32_popcnt popcnt_ucast)

lemma ffbit_count_acc: "ffbit_count d r = r + sum_list (map popcnt d)"
proof (induction d r rule: ffbit_count.induct)
  case (1 d r)
  show ?case
  proof (cases "8 < length d")
    case True
    have "sum_list (map popcnt d) = sum_list (map popcnt (take 8 d @ drop 8 d))"
      by simp
    also have "\<dots> = popcnt (le_word (take 8 d)) + sum_list (map popcnt (drop 8 d))"
      using True by (simp only: map_append sum_list.append) (simp add: popcnt_le_word)
    finally show ?thesis
      using True 1 by (subst ffbit_count.simps) (simp add: count_bits64_popcnt)
  next
    case False
    then show ?thesis by (subst ffbit_count.simps) (simp add: fold_count32)
  qed
qed

section \<open>Properties\<close>

text \<open>
  A field written at an offset is read back: for a field inside the 32-bit word,
  ffbit_read32 after ffbit_write32 gives the low bits of the value, and neither shift is undefined.
\<close>

theorem bitfield_roundtrip:
  assumes "unat off + unat n \<le> 32" and "1 \<le> unat n"
  shows "\<exists>w. ffbit_write32 v off n = Some w \<and> ffbit_read32 w off n = Some (v AND mask (unat n))"
  using drop_push_mask [of "32 - unat off - unat n" "unat n" v] assms
  by (simp only: ffbit_write32_eq [OF assms] ffbit_read32_eq [OF assms]) auto

theorem bitfield_roundtrip_witness:
  "\<exists>w. ffbit_write32 0xABC 4 8 = Some w \<and> ffbit_read32 w 4 8 = Some (0xABC AND mask 8)"
  using bitfield_roundtrip [of 4 8 "0xABC"] by simp

text \<open>
  ffbit_count returns the number of 1 bits of the whole buffer, whatever its length: the
  word-at-a-time loop and the byte loop together count every bit exactly once.
\<close>

theorem ffbit_count_popcount:
  "ffbit_count d 0 = (\<Sum>b\<leftarrow>d. card {k. bit b k})"
  by (simp add: ffbit_count_acc popcnt_def [abs_def])

text \<open>
  Bits of an array are independent: setting bit b of an in-range array returns the old
  value of b, makes b set, and leaves every other bit of the array as it was.
\<close>

theorem ffbit_setarr_frame:
  assumes "b < 32 * length ar" and "c < 32 * length ar"
  shows "\<exists>ar' old. ffbit_setarr ar b = Some (ar', old) \<and> ffbit_testarr ar b = Some old
    \<and> ffbit_testarr ar' c = (if c = b then Some True else ffbit_testarr ar c)"
proof -
  have "b div 32 < length ar" using assms(1) by auto
  then obtain ar' old where r: "ffbit_setarr ar b = Some (ar', old)"
    by (cases "ffbit_set32 (ar ! (b div 32)) (b mod 32)") (simp add: ffbit_setarr_def)
  with ffbit_setarr_test [OF assms r] show ?thesis by blast
qed

theorem ffbit_setarr_frame_witness:
  "\<exists>ar' old. ffbit_setarr [0, 7] 40 = Some (ar', old) \<and> ffbit_testarr [0, 7] 40 = Some old
    \<and> ffbit_testarr ar' 33 = (if 33 = (40::nat) then Some True else ffbit_testarr [0, 7] 33)"
  by (rule ffbit_setarr_frame) simp_all

end
