(* ===== verification/FF_Number.thy ===== *)
theory FF_Number
  imports FF_Prelude "HOL-Library.Multiset"
begin

unbundle bit_operations_syntax

text \<open>
  \<open>FF/number.h\<close> and the search part of \<open>FF/ffnumber.c\<close>: wrap-around increments on a power-of-two
  capacity, 24-bit integers in both byte orders, saturation (\<open>ffint_lim*\<close>), linear and binary
  search in integer arrays. A result of \<open>-1\<close> is the integer \<open>-1\<close>, as in C.
\<close>

section \<open>Cyclic arithmetic\<close>

definition ffint_increset2 :: "u64 \<Rightarrow> u64 \<Rightarrow> u64" where
  "ffint_increset2 n cap = (n + 1) AND (cap - 1)"

definition ffint_add_reset2 :: "u64 \<Rightarrow> u64 \<Rightarrow> u64 \<Rightarrow> u64" where
  "ffint_add_reset2 n a cap = (n + a) AND (cap - 1)"

text \<open>On a power of two, the mask is the remainder.\<close>

lemma unat_lt2p_64: "unat (x :: u64) < 2 ^ 64"
  using unsigned_less [of x] by simp

lemma unat_mask_pow2:
  assumes "unat (cap :: u64) = 2 ^ k"
  shows "unat (x AND (cap - 1)) = unat x mod 2 ^ k"
proof -
  have "(2::nat) ^ k < 2 ^ 64" using assms unat_lt2p_64 [of cap] by metis
  then have k: "k < 64" by (rule power_less_imp_less_exp [rotated]) simp
  have "of_nat (unat cap) = cap" by simp
  then have "cap = 2 ^ k" by (simp add: assms)
  then have "cap - 1 = mask k" by (simp add: mask_eq_exp_minus_1)
  then have "x AND (cap - 1) = take_bit k x" by (simp add: take_bit_eq_mask)
  then have "unat (x AND (cap - 1)) = take_bit k (unat x)"
    by (simp only: unsigned_take_bit_eq)
  then show ?thesis by (simp add: take_bit_eq_mod)
qed

lemma mod_once: "(x :: nat) < 2 * c \<Longrightarrow> x mod c = (if x < c then x else x - c)"
  by (simp add: le_mod_geq)

lemma sub_mod:
  assumes "unat (x :: u64) < c" and "unat (y :: u64) \<le> c" and "c = 2 ^ k" and "k \<le> 64"
  shows "unat (x - y) mod c = (if unat y \<le> unat x then unat x - unat y else unat x + c - unat y)"
proof -
  have "unat (x - y) = (unat x + 2 ^ 64 - unat y) mod 2 ^ 64"
    using unat_lt2p_64 [of y] unat_lt2p_64 [of x]
    by (subst mod_once) (auto simp: unat_sub_if_size size_word.rep_eq)
  also have "\<dots> mod c = (unat x + 2 ^ 64 - unat y) mod c"
    by (rule mod_mod_cancel) (unfold assms(3), rule le_imp_power_dvd [OF assms(4)])
  also have "\<dots> = (unat x + c - unat y) mod c"
  proof -
    obtain q where q: "(2::nat) ^ 64 = c * q"
      using le_imp_power_dvd [OF assms(4), of "2::nat"] unfolding assms(3) by (rule dvdE)
    then have "0 < q" by (cases q) simp_all
    have "unat x + 2 ^ 64 - unat y = unat x + c - unat y + c * (q - 1)"
      unfolding q using \<open>0 < q\<close> assms(1,2) by (cases q) (auto simp: algebra_simps)
    then show ?thesis by simp
  qed
  also have "\<dots> = (if unat y \<le> unat x then unat x - unat y else unat x + c - unat y)"
    using assms(1,2) by (subst mod_once) auto
  finally show ?thesis .
qed

section \<open>24-bit integers\<close>

text \<open>\<open>ffint_ltoh24\<close> and \<open>ffint_ntoh24\<close> read three bytes; the result is a 32-bit value.\<close>

fun ffint_ltoh24 :: "u8 \<times> u8 \<times> u8 \<Rightarrow> u32" where
  "ffint_ltoh24 (b0, b1, b2) = (push_bit 16 (ucast b2) OR push_bit 8 (ucast b1)) OR ucast b0"

definition ffint_ltoh24s :: "u8 \<times> u8 \<times> u8 \<Rightarrow> u32" where
  "ffint_ltoh24s b =
     (let n = ffint_ltoh24 b in if n AND 0x00800000 \<noteq> 0 then n OR 0xff000000 else n)"

definition ffint_htol24 :: "u32 \<Rightarrow> u8 \<times> u8 \<times> u8" where
  "ffint_htol24 n = (ucast n, ucast (drop_bit 8 n), ucast (drop_bit 16 n))"

definition ffint_hton24 :: "u32 \<Rightarrow> u8 \<times> u8 \<times> u8" where
  "ffint_hton24 n = (ucast (drop_bit 16 n), ucast (drop_bit 8 n), ucast n)"

fun ffint_ntoh24 :: "u8 \<times> u8 \<times> u8 \<Rightarrow> u32" where
  "ffint_ntoh24 (b0, b1, b2) = (push_bit 16 (ucast b0) OR push_bit 8 (ucast b1)) OR ucast b2"

text \<open>The contract of a fixed-size codec on a range of 32-bit values.\<close>

locale int_codec =
  fixes enc :: "u32 \<Rightarrow> 'b" and dec :: "'b \<Rightarrow> u32" and ok :: "u32 \<Rightarrow> bool"
  assumes dec_enc: "ok n \<Longrightarrow> dec (enc n) = n"
    and enc_dec: "enc (dec b) = b"
    and ok_dec: "ok (dec b)"
begin

lemma inj: "ok m \<Longrightarrow> ok n \<Longrightarrow> enc m = enc n \<longleftrightarrow> m = n"
  by (metis dec_enc)

lemma list_roundtrip: "\<forall>n \<in> set ns. ok n \<Longrightarrow> map dec (map enc ns) = ns"
  by (induction ns) (auto simp: dec_enc)

lemma range_dec: "range dec = {n. ok n}"
  by (auto intro: ok_dec dec_enc [symmetric] range_eqI)

end

definition is_u24 :: "u32 \<Rightarrow> bool" where
  "is_u24 n \<longleftrightarrow> drop_bit 24 n = 0"

definition is_s24 :: "u32 \<Rightarrow> bool" where
  "is_s24 n \<longleftrightarrow> (\<forall>k \<in> {24..<32}. bit n k = bit n 23)"

lemma is_u24_bits: "is_u24 n \<longleftrightarrow> (\<forall>k. 24 \<le> k \<longrightarrow> \<not> bit n k)"
  unfolding is_u24_def
proof
  assume h: "drop_bit 24 n = 0"
  show "\<forall>k. 24 \<le> k \<longrightarrow> \<not> bit n k"
  proof (intro allI impI)
    fix k :: nat assume "24 \<le> k"
    then have "bit (drop_bit 24 n) (k - 24) = bit n k" by (simp add: bit_simps)
    with h show "\<not> bit n k" by simp
  qed
qed (auto intro!: bit_word_eqI simp: bit_simps)

lemma bit_u8_lt: "bit (b :: u8) k \<Longrightarrow> k < 8"
  by (auto dest: bit_imp_le_length)

lemma bit_u8_ge [simp]: "8 \<le> n \<Longrightarrow> \<not> bit (b :: u8) n"
  using bit_u8_lt [of b n] by auto

lemma bit_ltoh24:
  "bit (ffint_ltoh24 (c, b, a)) k =
    (if k < 8 then bit c k else if k < 16 then bit b (k - 8)
     else if k < 24 then bit a (k - 16) else False)"
proof -
  consider "k < 8" | "8 \<le> k" "k < 16" | "16 \<le> k" "k < 24" | "24 \<le> k" by linarith
  then show ?thesis
    by cases (auto simp: bit_simps dest: bit_u8_lt)
qed

lemma ntoh24_ltoh24: "ffint_ntoh24 (b0, b1, b2) = ffint_ltoh24 (b2, b1, b0)"
  by simp

declare ffint_ltoh24.simps [simp del] ffint_ntoh24.simps [simp del]

lemma le24_dec_enc: "is_u24 n \<Longrightarrow> ffint_ltoh24 (ffint_htol24 n) = n"
  unfolding is_u24_bits ffint_htol24_def
  by (rule bit_word_eqI) (auto simp: bit_ltoh24, auto simp: bit_simps not_less)

lemma le24_enc_dec: "ffint_htol24 (ffint_ltoh24 (c, b, a)) = (c, b, a)"
  unfolding ffint_htol24_def prod.inject
  by (intro conjI; rule bit_word_eqI; simp add: bit_unsigned_iff bit_drop_bit_eq bit_ltoh24)

lemma le24_ok: "is_u24 (ffint_ltoh24 (c, b, a))"
  by (simp add: is_u24_bits bit_ltoh24)

lemma hton24_htol24: "ffint_hton24 n = (case ffint_htol24 n of (c, b, a) \<Rightarrow> (a, b, c))"
  by (simp add: ffint_hton24_def ffint_htol24_def)

interpretation le24: int_codec ffint_htol24 ffint_ltoh24 is_u24
  by unfold_locales (auto simp: le24_dec_enc le24_enc_dec le24_ok split_paired_all)

interpretation be24: int_codec ffint_hton24 ffint_ntoh24 is_u24
proof unfold_locales
  fix n assume "is_u24 n"
  then show "ffint_ntoh24 (ffint_hton24 n) = n"
    using le24_dec_enc [of n]
    by (cases "ffint_htol24 n") (simp add: hton24_htol24 ntoh24_ltoh24)
qed (auto simp: hton24_htol24 ntoh24_ltoh24 le24_enc_dec le24_ok split_paired_all)

text \<open>The signed variant: the value of the three bytes as a two's complement number.\<close>

lemma ffint_ltoh24s_bits:
  "bit (ffint_ltoh24s b) k = (k < 32 \<and> bit (ffint_ltoh24 b) (if k < 24 then k else 23))"
proof -
  have 23: "(n AND 0x00800000 \<noteq> 0) = bit n 23" for n :: u32
  proof -
    have "(0x00800000 :: u32) = ff_bit 23" by (simp add: ff_bit_def)
    then show ?thesis by (simp only: and_ff_bit_eq_0) simp
  qed
  have hi: "bit (0xff000000 :: u32) k = (24 \<le> k \<and> k < 32)"
  proof -
    have "(0xff000000 :: u32) = push_bit 24 (mask 8)" by (simp add: mask_eq_exp_minus_1)
    then show ?thesis by (simp only: bit_push_bit_iff bit_mask_iff) auto
  qed
  show ?thesis
    by (cases b) (auto simp: ffint_ltoh24s_def Let_def 23 hi bit_ltoh24 bit_or_iff not_less
        simp del: bit_numeral_word_iff)
qed

section \<open>Saturation\<close>

definition ffint_lim8 :: "int \<Rightarrow> int" where
  "ffint_lim8 i = (if i < -0x80 then -0x80 else if i > 0x7f then 0x7f else i)"

definition ffint_lim16 :: "int \<Rightarrow> int" where
  "ffint_lim16 i = (if i < -0x8000 then -0x8000 else if i > 0x7fff then 0x7fff else i)"

definition ffint_lim24 :: "int \<Rightarrow> int" where
  "ffint_lim24 i = (if i < -0x800000 then -0x800000 else if i > 0x7fffff then 0x7fffff else i)"

definition ffint_lim32 :: "int \<Rightarrow> int" where
  "ffint_lim32 i = (if i < -0x80000000 then -0x80000000 else if i > 0x7fffffff then 0x7fffffff else i)"

locale saturation =
  fixes lim :: "int \<Rightarrow> int" and w :: nat
  assumes lim_eq: "lim i = max (- (2 ^ (w - 1))) (min (2 ^ (w - 1) - 1) i)"
begin

lemma one_le_pow: "(1 :: int) \<le> 2 ^ (w - 1)"
  by simp

lemma in_range: "- (2 ^ (w - 1)) \<le> lim i \<and> lim i \<le> 2 ^ (w - 1) - 1"
  using one_le_pow unfolding lim_eq max_def min_def by presburger

lemma idem: "lim (lim i) = lim i"
  using one_le_pow unfolding lim_eq max_def min_def by presburger

lemma mono: "i \<le> j \<Longrightarrow> lim i \<le> lim j"
  by (simp add: lim_eq)

end

interpretation lim8: saturation ffint_lim8 8
  by unfold_locales (auto simp: ffint_lim8_def)
interpretation lim16: saturation ffint_lim16 16
  by unfold_locales (auto simp: ffint_lim16_def)
interpretation lim24: saturation ffint_lim24 24
  by unfold_locales (auto simp: ffint_lim24_def)
interpretation lim32: saturation ffint_lim32 32
  by unfold_locales (auto simp: ffint_lim32_def)

section \<open>Search\<close>

fun find_loop :: "('a \<Rightarrow> bool) \<Rightarrow> 'a list \<Rightarrow> nat \<Rightarrow> int" where
  "find_loop P [] i = -1"
| "find_loop P (x # xs) i = (if P x then int i else find_loop P xs (Suc i))"

definition ffint_find1 :: "u8 list \<Rightarrow> u32 \<Rightarrow> int" where
  "ffint_find1 arr search = find_loop (\<lambda>x. search = ucast x) arr 0"

definition ffint_find2 :: "u16 list \<Rightarrow> u32 \<Rightarrow> int" where
  "ffint_find2 arr search = find_loop (\<lambda>x. search = ucast x) arr 0"

definition ffint_find4 :: "u32 list \<Rightarrow> u32 \<Rightarrow> int" where
  "ffint_find4 arr search = find_loop (\<lambda>x. search = x) arr 0"

text \<open>
  The loop of the binary searches over \<open>[start, n)\<close>; \<open>cmp x\<close> compares the searched key with an
  element: negative goes left, positive goes right. The \<open>Suc start \<le> n\<close> form of the C guard
  \<open>start != n\<close> is equivalent while \<open>start \<le> n\<close>, which every iteration keeps.
\<close>

function binfind_loop :: "('a \<Rightarrow> int) \<Rightarrow> 'a list \<Rightarrow> nat \<Rightarrow> nat \<Rightarrow> int" where
  "binfind_loop cmp arr start n =
     (if start < n then
        let i = start + (n - start) div 2; r = cmp (arr ! i) in
        if r = 0 then int i
        else if r < 0 then binfind_loop cmp arr start i
        else binfind_loop cmp arr (i + 1) n
      else -1)"
  by pat_completeness auto
termination
  by (relation "measure (\<lambda>(cmp, arr, start, n). n - start)") (auto simp: Let_def)

declare binfind_loop.simps [simp del]

definition ffint_binfind1 :: "u8 list \<Rightarrow> u32 \<Rightarrow> int" where
  "ffint_binfind1 arr search = binfind_loop (\<lambda>x. ffint_cmp search (ucast x)) arr 0 (length arr)"

definition ffint_binfind4 :: "u32 list \<Rightarrow> u32 \<Rightarrow> int" where
  "ffint_binfind4 arr search = binfind_loop (\<lambda>x. ffint_cmp search x) arr 0 (length arr)"

text \<open>The contract of a search: the index of a match, or -1 exactly when there is none.\<close>

definition search_ok :: "('a \<Rightarrow> bool) \<Rightarrow> 'a list \<Rightarrow> int \<Rightarrow> bool" where
  "search_ok P arr r \<longleftrightarrow>
     (if \<exists>x \<in> set arr. P x then 0 \<le> r \<and> nat r < length arr \<and> P (arr ! nat r) else r = -1)"

locale index_search =
  fixes search :: "'a list \<Rightarrow> 'k \<Rightarrow> int"
    and matches :: "'k \<Rightarrow> 'a \<Rightarrow> bool"
    and pre :: "'a list \<Rightarrow> bool"
  assumes search_ok: "pre arr \<Longrightarrow> search_ok (matches k) arr (search arr k)"
begin

lemma found: "pre arr \<Longrightarrow> search arr k \<noteq> -1 \<longleftrightarrow> (\<exists>x \<in> set arr. matches k x)"
  using search_ok [of arr k] by (auto simp: search_ok_def split: if_splits)

lemma index: "pre arr \<Longrightarrow> search arr k \<noteq> -1 \<Longrightarrow>
    nat (search arr k) < length arr \<and> matches k (arr ! nat (search arr k))"
  using search_ok [of arr k] by (auto simp: search_ok_def split: if_splits)

lemma in_bounds: "pre arr \<Longrightarrow> -1 \<le> search arr k \<and> search arr k < int (length arr)"
  using search_ok [of arr k] by (auto simp: search_ok_def split: if_splits)

end

lemma find_loop_cases:
  "(find_loop P arr i = -1 \<and> (\<forall>x \<in> set arr. \<not> P x)) \<or>
   (\<exists>j < length arr. find_loop P arr i = int (i + j) \<and> P (arr ! j))"
proof (induction arr arbitrary: i)
  case Nil
  then show ?case by simp
next
  case (Cons x xs)
  show ?case
  proof (cases "P x")
    case True
    then show ?thesis by (intro disjI2 exI [of _ 0]) simp
  next
    case False
    from Cons.IH [of "Suc i"] show ?thesis
    proof
      assume "find_loop P xs (Suc i) = -1 \<and> (\<forall>x \<in> set xs. \<not> P x)"
      with False show ?thesis by simp
    next
      assume "\<exists>j < length xs. find_loop P xs (Suc i) = int (Suc i + j) \<and> P (xs ! j)"
      then obtain j where "j < length xs" "find_loop P xs (Suc i) = int (Suc i + j)" "P (xs ! j)"
        by blast
      with False show ?thesis by (intro disjI2 exI [of _ "Suc j"]) simp
    qed
  qed
qed

lemma find_loop_ok: "search_ok P arr (find_loop P arr 0)"
  using find_loop_cases [of P arr 0] by (auto simp: search_ok_def)

text \<open>The array is ordered as seen from the key: left part smaller, right part greater.\<close>

definition ordered_for :: "('a \<Rightarrow> int) \<Rightarrow> 'a list \<Rightarrow> bool" where
  "ordered_for cmp = sorted_wrt (\<lambda>x y. (cmp x < 0 \<longrightarrow> cmp y < 0) \<and> (0 < cmp y \<longrightarrow> 0 < cmp x))"

lemma ordered_for_nth:
  assumes "ordered_for cmp arr" and "i < j" and "j < length arr"
  shows "cmp (arr ! i) < 0 \<Longrightarrow> cmp (arr ! j) < 0" and "0 < cmp (arr ! j) \<Longrightarrow> 0 < cmp (arr ! i)"
  using assms by (auto simp: ordered_for_def sorted_wrt_iff_nth_less)

lemma binfind_loop_range:
  assumes "n \<le> length arr" and "ordered_for cmp arr"
  shows "if \<exists>j. start \<le> j \<and> j < n \<and> cmp (arr ! j) = 0
    then \<exists>j. start \<le> j \<and> j < n \<and> cmp (arr ! j) = 0 \<and> binfind_loop cmp arr start n = int j
    else binfind_loop cmp arr start n = -1"
  using assms
proof (induction cmp arr start n rule: binfind_loop.induct [case_names step])
  case (step cmp arr start n)
  show ?case
  proof (cases "start < n")
    case False
    then show ?thesis by (subst (1 2) binfind_loop.simps) auto
  next
    case True
    define i where "i = start + (n - start) div 2"
    have i: "start \<le> i" "i < n" using True by (auto simp: i_def)
    note unfold = binfind_loop.simps [of cmp arr start n] Let_def i_def [symmetric]
    consider "cmp (arr ! i) = 0" | "cmp (arr ! i) < 0" | "0 < cmp (arr ! i)" by linarith
    then show ?thesis
    proof cases
      case 1
      with True i show ?thesis by (auto simp: unfold intro!: exI [of _ i])
    next
      case 2
      have "j < i" if "j < n" "cmp (arr ! j) = 0" for j
      proof (rule ccontr)
        assume "\<not> j < i"
        with 2 that have "i < j" by (cases "i = j") auto
        from ordered_for_nth(1) [OF step.prems(2) this _ 2] that step.prems show False by simp
      qed
      moreover have "binfind_loop cmp arr start n = binfind_loop cmp arr start i"
        using True 2 by (simp add: unfold)
      ultimately show ?thesis
        using step.IH(1) [OF True i_def refl] 2 step.prems i by (fastforce split: if_splits)
    next
      case 3
      have "i < j" if "start \<le> j" "j < n" "cmp (arr ! j) = 0" for j
        using ordered_for_nth(2) [OF step.prems(2), of j i] 3 that step.prems i
        by (cases i j rule: linorder_cases) auto
      moreover have "binfind_loop cmp arr start n = binfind_loop cmp arr (i + 1) n"
        using True 3 by (simp add: unfold)
      ultimately show ?thesis
        using step.IH(2) [OF True i_def refl] 3 step.prems i by (fastforce split: if_splits)
    qed
  qed
qed

lemma binfind_loop_ok:
  assumes "ordered_for cmp arr"
  shows "search_ok (\<lambda>x. cmp x = 0) arr (binfind_loop cmp arr 0 (length arr))"
proof -
  have "(\<exists>x \<in> set arr. cmp x = 0) \<longleftrightarrow> (\<exists>j. 0 \<le> j \<and> j < length arr \<and> cmp (arr ! j) = 0)"
    by (metis in_set_conv_nth le0)
  with binfind_loop_range [OF le_refl assms, of 0] show ?thesis
    unfolding search_ok_def by (auto split: if_splits)
qed

lemma ordered_for_sorted:
  "sorted (map f arr) \<Longrightarrow> ordered_for (\<lambda>x. ffint_cmp k (f x)) arr"
  unfolding ordered_for_def sorted_map
  by (rule sorted_wrt_mono_rel [rotated], assumption) (auto simp: ffint_cmp_def split: if_splits)

interpretation find1: index_search ffint_find1 "\<lambda>k x. k = ucast x" "\<lambda>_. True"
  by unfold_locales (simp add: ffint_find1_def find_loop_ok)
interpretation find2: index_search ffint_find2 "\<lambda>k x. k = ucast x" "\<lambda>_. True"
  by unfold_locales (simp add: ffint_find2_def find_loop_ok)
interpretation find4: index_search ffint_find4 "\<lambda>k x. k = x" "\<lambda>_. True"
  by unfold_locales (simp add: ffint_find4_def find_loop_ok)

interpretation binfind1: index_search ffint_binfind1 "\<lambda>k x. k = ucast x" sorted
proof unfold_locales
  fix arr :: "u8 list" and k
  assume s: "sorted arr"
  have "mono (ucast :: u8 \<Rightarrow> u32)"
    by (rule monoI) (simp add: word_le_nat_alt)
  with s have "sorted (map (ucast :: u8 \<Rightarrow> u32) arr)" by (induction arr) (auto dest: monoD)
  from binfind_loop_ok [OF ordered_for_sorted [OF this, of k]]
  show "search_ok (\<lambda>x. k = ucast x) arr (ffint_binfind1 arr k)"
    by (simp add: ffint_binfind1_def)
qed

interpretation binfind4: index_search ffint_binfind4 "\<lambda>k x. k = x" sorted
proof unfold_locales
  fix arr :: "u32 list" and k
  assume "sorted arr"
  then have "sorted (map (\<lambda>x. x) arr)" by simp
  from binfind_loop_ok [OF ordered_for_sorted [OF this, of k]]
  show "search_ok (\<lambda>x. k = x) arr (ffint_binfind4 arr k)"
    by (simp add: ffint_binfind4_def)
qed

section \<open>Properties\<close>

text \<open>
  Binary search is correct on a sorted array: ffint_binfind4 returns -1 exactly when the
  number is absent, and otherwise an in-range index of an element equal to it; so it agrees
  with the linear search ffint_find4 on membership.
\<close>

theorem ffint_binfind4_correct:
  assumes "sorted arr"
  shows "search_ok (\<lambda>x. k = x) arr (ffint_binfind4 arr k)
    \<and> (ffint_binfind4 arr k = -1 \<longleftrightarrow> ffint_find4 arr k = -1)"
  using binfind4.search_ok [OF assms, of k] binfind4.found [OF assms, of k] find4.found [of arr k]
  by blast

theorem ffint_binfind4_correct_witness:
  "search_ok (\<lambda>x. 7 = x) [2 :: u32, 7, 9] (ffint_binfind4 [2, 7, 9] 7)
    \<and> (ffint_binfind4 [2, 7, 9] 7 = -1 \<longleftrightarrow> ffint_find4 [2, 7, 9] 7 = -1)"
  by (rule ffint_binfind4_correct) simp

text \<open>
  24-bit integers round-trip in both byte orders: every value below 2^24 is recovered from
  its little-endian and from its big-endian bytes, every three bytes are recovered from the
  integer they encode, and the big-endian bytes are the little-endian ones reversed.
\<close>

theorem int24_roundtrip:
  "ffint_htol24 (ffint_ltoh24 b) = b \<and> ffint_hton24 (ffint_ntoh24 b) = b
    \<and> ffint_hton24 n = (case ffint_htol24 n of (x, y, z) \<Rightarrow> (z, y, x))
    \<and> (is_u24 n \<longrightarrow> ffint_ltoh24 (ffint_htol24 n) = n \<and> ffint_ntoh24 (ffint_hton24 n) = n)"
  using le24.enc_dec be24.enc_dec le24.dec_enc be24.dec_enc hton24_htol24 by blast

theorem int24_roundtrip_witness:
  "ffint_ltoh24 (ffint_htol24 0xABCDEF) = 0xABCDEF \<and> ffint_ntoh24 (ffint_hton24 0xABCDEF) = 0xABCDEF"
proof -
  have "is_u24 0xABCDEF" by (simp add: is_u24_def)
  with int24_roundtrip [of "(1, 2, 3)" "0xABCDEF"] show ?thesis by blast
qed

end
