(* ===== verification/FF_Sort.thy ===== *)
theory FF_Sort
  imports FF_Number "HOL-Library.Sublist"
begin

text \<open>
  The sort of \<open>FF/ffnumber.c\<close>: \<open>ffsort\<close>, a merge sort that hands blocks of at most one cache
  line to an insertion sort. The array is the list of its elements, \<open>sz\<close> the size of an element,
  \<open>cmp\<close> the user's comparison (\<open>ffsortcmp\<close>) and \<open>cacheline\<close> the platform constant
  \<open>FFCPU_CACHELINE\<close>. \<open>alloc_ok\<close> says whether the allocation of the temporary buffer succeeds.
\<close>

type_synonym 'a sortcmp = "'a \<Rightarrow> 'a \<Rightarrow> int"

section \<open>Insertion sort\<close>

text \<open>
  The inner loop moves elements greater than \<open>t\<close> to the right; its argument is \<open>j + 1\<close> of the
  C variable \<open>j\<close>, so that the loop ends at 0 (\<open>j = -1\<close>). It returns the array and \<open>j + 1\<close>.
\<close>

fun ins_shift :: "'a sortcmp \<Rightarrow> 'a \<Rightarrow> nat \<Rightarrow> 'a list \<Rightarrow> 'a list \<times> nat" where
  "ins_shift cmp t 0 d = (d, 0)"
| "ins_shift cmp t (Suc j) d =
     (if cmp (d ! j) t \<le> 0 then (d, Suc j) else ins_shift cmp t j (d[Suc j := d ! j]))"

definition ins_put :: "'a sortcmp \<Rightarrow> 'a \<Rightarrow> nat \<Rightarrow> 'a list \<Rightarrow> 'a list" where
  "ins_put cmp t i d = (let (d', j1) = ins_shift cmp t i d in d'[j1 := t])"

text \<open>
  Elements of 4 and 8 bytes take element \<open>i\<close> into the temporary; the general case copies from
  the start of the array (\<open>ffmemcpy(T.i1, D.i1, sd->sz)\<close>), for every \<open>i\<close>.
\<close>

definition insertion_sort :: "nat \<Rightarrow> 'a sortcmp \<Rightarrow> 'a list \<Rightarrow> 'a list" where
  "insertion_sort sz cmp d =
     (if sz = 4 \<or> sz = 8
      then fold (\<lambda>i d. ins_put cmp (d ! i) i d) [0..<length d] d
      else fold (\<lambda>i d. ins_put cmp (d ! 0) i d) [0..<length d] d)"

section \<open>Merge sort\<close>

text \<open>The merging loop: the temporary buffer and what is left of both halves.\<close>

fun merge_loop :: "'a sortcmp \<Rightarrow> 'a list \<Rightarrow> 'a list \<Rightarrow> 'a list \<Rightarrow> 'a list \<times> 'a list \<times> 'a list" where
  "merge_loop cmp (l # ls) (r # rs) t =
     (if cmp l r \<le> 0 then merge_loop cmp ls (r # rs) (t @ [l])
      else merge_loop cmp (l # ls) rs (t @ [r]))"
| "merge_loop cmp ls rs t = (t, ls, rs)"

function merge_sort :: "nat \<Rightarrow> nat \<Rightarrow> 'a sortcmp \<Rightarrow> 'a list \<Rightarrow> 'a list" where
  "merge_sort cacheline sz cmp d =
     (let n = length d in
      if n \<le> 1 then d
      else if n * sz \<le> cacheline then insertion_sort sz cmp d
      else
        let nL = n div 2;
            L = merge_sort cacheline sz cmp (take nL d);
            R = merge_sort cacheline sz cmp (drop nL d);
            (t, ls, rs) = merge_loop cmp L R [];
            tmp = t @ ls
        in take (n - length rs) tmp @ drop (n - length rs) (L @ R))"
  by pat_completeness auto
termination
  by (relation "measure (\<lambda>(c, sz, cmp, d). length d)") auto

declare merge_sort.simps [simp del]

definition MAXSTACKTMP :: nat where "MAXSTACKTMP = 4096"

definition ffsort :: "nat \<Rightarrow> bool \<Rightarrow> 'a list \<Rightarrow> nat \<Rightarrow> 'a sortcmp \<Rightarrow> 'a list" where
  "ffsort cacheline alloc_ok d sz cmp =
     (if length d * sz > MAXSTACKTMP \<and> \<not> alloc_ok then d else merge_sort cacheline sz cmp d)"

text \<open>\<open>ffint_sort\<close> compares the elements as signed integers.\<close>

definition ffint_sortfunc :: "u32 sortcmp" where
  "ffint_sortfunc a b = ffint_cmp (sint a) (sint b)"

definition ffint_sort :: "nat \<Rightarrow> bool \<Rightarrow> u32 list \<Rightarrow> u32 list" where
  "ffint_sort cacheline alloc_ok arr = ffsort cacheline alloc_ok arr 4 ffint_sortfunc"

section \<open>What a comparison must satisfy\<close>

locale sort_order =
  fixes cmp :: "'a sortcmp"
  assumes cmp_antisym: "cmp a b < 0 \<longleftrightarrow> 0 < cmp b a"
    and cmp_trans: "cmp a b \<le> 0 \<Longrightarrow> cmp b c \<le> 0 \<Longrightarrow> cmp a c \<le> 0"
begin

lemma cmp_refl: "cmp a a = 0"
  using cmp_antisym [of a a] by linarith

lemma cmp_flip: "0 < cmp a b \<Longrightarrow> cmp b a \<le> 0"
  using cmp_antisym [of b a] by linarith

lemma cmp_eq_sym: "cmp a b = 0 \<longleftrightarrow> cmp b a = 0"
  using cmp_antisym [of a b] cmp_antisym [of b a] by linarith

lemma cmp_eq_trans: "cmp k x = 0 \<Longrightarrow> cmp k y = 0 \<Longrightarrow> cmp x y = 0"
  using cmp_trans [of x k y] cmp_trans [of y k x] cmp_eq_sym [of k x] cmp_eq_sym [of k y]
    cmp_antisym [of x y] by linarith

abbreviation ord :: "'a list \<Rightarrow> bool" where
  "ord \<equiv> sorted_wrt (\<lambda>x y. cmp x y \<le> 0)"

abbreviation same :: "'a \<Rightarrow> 'a list \<Rightarrow> 'a list" where
  "same k \<equiv> filter (\<lambda>x. cmp k x = 0)"

text \<open>A stable sort of \<open>d\<close>.\<close>

abbreviation sorts :: "'a list \<Rightarrow> 'a list \<Rightarrow> bool" where
  "sorts d d' \<equiv> mset d' = mset d \<and> ord d' \<and> (\<forall>k. same k d' = same k d)"

fun ins_rev :: "'a \<Rightarrow> 'a list \<Rightarrow> 'a list" where
  "ins_rev t [] = [t]"
| "ins_rev t (x # xs) = (if cmp x t \<le> 0 then t # x # xs else x # ins_rev t xs)"

lemma ins_put_eq: "ins_put cmp t (length xs) (xs @ y # zs) = rev (ins_rev t (rev xs)) @ zs"
proof (induction xs arbitrary: y zs rule: rev_induct)
  case Nil
  then show ?case by (simp add: ins_put_def)
next
  case (snoc x xs)
  show ?case
  proof (cases "cmp x t \<le> 0")
    case True
    have "(xs @ x # y # zs)[Suc (length xs) := t] = xs @ x # t # zs"
      by (simp add: list_update_append)
    with True show ?thesis by (simp add: ins_put_def nth_append)
  next
    case False
    have "(xs @ [x] @ y # zs)[Suc (length xs) := x] = xs @ x # x # zs"
      by (simp add: list_update_append)
    then have "ins_put cmp t (length (xs @ [x])) ((xs @ [x]) @ y # zs)
        = ins_put cmp t (length xs) (xs @ x # x # zs)"
      using False by (simp add: ins_put_def nth_append)
    with False snoc.IH [of x "x # zs"] show ?thesis by simp
  qed
qed

lemma mset_ins_rev: "mset (ins_rev t xs) = add_mset t (mset xs)"
  by (induction xs) auto

lemma ord_ins_rev: "ord (rev xs) \<Longrightarrow> ord (rev (ins_rev t xs))"
proof (induction xs)
  case (Cons x xs)
  have "set (ins_rev t xs) = insert t (set xs)"
    using mset_ins_rev [of t xs] by (metis set_mset_add_mset_insert set_mset_mset)
  with Cons show ?case
    by (auto simp: sorted_wrt_append intro: cmp_trans cmp_flip)
qed simp

lemma same_ins_rev: "same k (ins_rev t xs) = same k (t # xs)"
proof (induction xs)
  case (Cons x xs)
  then show ?case using cmp_eq_trans [of k x t] by auto
qed simp

lemma insertion_sort_step:
  assumes "sz = 4 \<or> sz = 8" and "i \<le> length d"
  shows "\<exists>p. fold (\<lambda>i d. ins_put cmp (d ! i) i d) [0..<i] d = p @ drop i d \<and> sorts (take i d) p"
  using assms(2)
proof (induction i)
  case 0
  then show ?case by simp
next
  case (Suc i)
  then obtain p where p: "fold (\<lambda>i d. ins_put cmp (d ! i) i d) [0..<i] d = p @ drop i d"
    "sorts (take i d) p" by auto
  have i: "i < length d" using Suc.prems by simp
  have lp: "length p = i" using p(2) i
    by (metis length_take mset_eq_length min.absorb2 less_imp_le)
  have d: "drop i d = d ! i # drop (Suc i) d" "take (Suc i) d = take i d @ [d ! i]"
    using i by (simp_all add: Cons_nth_drop_Suc take_Suc_conv_app_nth)
  let ?q = "rev (ins_rev (d ! i) (rev p))"
  have "fold (\<lambda>i d. ins_put cmp (d ! i) i d) [0..<Suc i] d = ?q @ drop (Suc i) d"
    using p(1) lp ins_put_eq [of "d ! i" p "d ! i" "drop (Suc i) d"]
    by (simp add: d(1) nth_append)
  moreover have "mset ?q = mset (take (Suc i) d)" "ord ?q"
    using p(2) ord_ins_rev [of "rev p" "d ! i"] by (simp_all add: d(2) mset_ins_rev)
  moreover have "same k ?q = same k (take (Suc i) d)" for k
    using p(2) same_ins_rev [of k "d ! i" "rev p"] by (simp add: d(2) flip: rev_filter)
  ultimately show ?case by blast
qed

lemma insertion_sort_sorts: "sz = 4 \<or> sz = 8 \<Longrightarrow> sorts d (insertion_sort sz cmp d)"
  using insertion_sort_step [of sz "length d" d] by (auto simp: insertion_sort_def)

lemma same_before:
  assumes "ord (l # ls)" and "0 < cmp l r" and "cmp k r = 0"
  shows "same k (l # ls) = []"
proof (rule ccontr)
  assume "same k (l # ls) \<noteq> []"
  then obtain x where x: "x \<in> set (l # ls)" "cmp k x = 0"
    unfolding filter_empty_conv by blast
  have "cmp l x \<le> 0" using x(1) assms(1) by (auto simp: cmp_refl)
  moreover have "cmp x r \<le> 0" using cmp_eq_trans [OF x(2) assms(3)] by simp
  ultimately have "cmp l r \<le> 0" by (rule cmp_trans)
  with assms(2) show False by simp
qed

lemma merge_loop_spec:
  assumes "merge_loop cmp ls rs t = (t', ls', rs')" and "ord ls" and "ord rs"
  shows "\<exists>m. t' = t @ m \<and> (ls' = [] \<or> rs' = []) \<and> suffix rs' rs \<and> sorts (ls @ rs) (m @ ls' @ rs')"
  using assms
proof (induction c \<equiv> cmp ls rs t rule: merge_loop.induct [case_names step nil_l nil_r])
  case (step l ls r rs t)
  show ?case
  proof (cases "cmp l r \<le> 0")
    case True
    with step obtain m where m: "t' = (t @ [l]) @ m" "ls' = [] \<or> rs' = []" "suffix rs' (r # rs)"
      "sorts (ls @ r # rs) (m @ ls' @ rs')" by auto
    have "\<forall>y \<in> set (ls @ r # rs). cmp l y \<le> 0"
      using step(4,5) True cmp_trans [OF True] by auto
    moreover have "set (m @ ls' @ rs') = set (ls @ r # rs)" using m(4) by (metis set_mset_mset)
    ultimately have "ord (l # m @ ls' @ rs')" using m(4) by simp
    with m show ?thesis by (intro exI [of _ "l # m"]) simp
  next
    case False
    with step obtain m where m: "t' = (t @ [r]) @ m" "ls' = [] \<or> rs' = []" "suffix rs' rs"
      "sorts ((l # ls) @ rs) (m @ ls' @ rs')" by auto
    have rl: "cmp r l \<le> 0" using False cmp_flip [of l r] by simp
    have "\<forall>y \<in> set ((l # ls) @ rs). cmp r y \<le> 0"
      using step(4,5) rl cmp_trans [OF rl] by auto
    moreover have "set (m @ ls' @ rs') = set ((l # ls) @ rs)" using m(4) by (metis set_mset_mset)
    ultimately have "ord (r # m @ ls' @ rs')" using m(4) by simp
    moreover have "same k (r # m @ ls' @ rs') = same k ((l # ls) @ r # rs)" for k
      using m(4) same_before [OF step(4), of r k] False by auto
    ultimately show ?thesis using m
      by (intro exI [of _ "r # m"]) (auto intro: suffix_ConsI)
  qed
next
  case (nil_l rs t)
  then show ?case by auto
next
  case (nil_r ls t)
  then show ?case by auto
qed

lemma merge_sort_sorts:
  assumes "sz = 4 \<or> sz = 8 \<or> cacheline < 2 * sz"
  shows "sorts d (merge_sort cacheline sz cmp d)"
  using assms
proof (induction cacheline sz c \<equiv> cmp d rule: merge_sort.induct)
  case (1 cacheline sz d)
  let ?n = "length d"
  show ?case
  proof (cases "?n \<le> 1 \<or> ?n * sz \<le> cacheline")
    case True
    show ?thesis
    proof (cases "?n \<le> 1")
      case True
      then have "d = [] \<or> (\<exists>x. d = [x])" by (cases d) auto
      with True show ?thesis by (subst (1 2 3) merge_sort.simps) auto
    next
      case False
      with True have c: "?n * sz \<le> cacheline" by simp
      have "2 * sz \<le> ?n * sz" using False by (intro mult_le_mono1) simp
      with c 1(3) have "sz = 4 \<or> sz = 8" by linarith
      from insertion_sort_sorts [OF this] show ?thesis
        using False c by (subst (1 2 3) merge_sort.simps) simp
    qed
  next
    case False
    let ?nL = "?n div 2"
    define L R where "L = merge_sort cacheline sz cmp (take ?nL d)"
      and "R = merge_sort cacheline sz cmp (drop ?nL d)"
    obtain t ls rs where m: "merge_loop cmp L R [] = (t, ls, rs)" by (metis prod_cases3)
    have L: "sorts (take ?nL d) L" and R: "sorts (drop ?nL d) R"
      unfolding L_def R_def using 1(1,2) [OF refl] 1(3) False by auto
    from merge_loop_spec [OF m] L R
    have spec: "suffix rs R" "sorts (L @ R) (t @ ls @ rs)" by auto
    have "mset (L @ R) = mset d" using L R by (metis append_take_drop_id mset_append)
    then have len: "length (t @ ls @ rs) = ?n" "length (L @ R) = ?n"
      using spec(2) by (metis size_mset)+
    have "merge_sort cacheline sz cmp d
        = take (?n - length rs) (t @ ls) @ drop (?n - length rs) (L @ R)"
      using False m by (subst merge_sort.simps) (simp add: L_def R_def Let_def)
    also have "take (?n - length rs) (t @ ls) = t @ ls" using len by simp
    also have "drop (?n - length rs) (L @ R) = rs"
      using spec(1) len(2) by (auto simp: suffix_def)
    finally have ms: "merge_sort cacheline sz cmp d = t @ ls @ rs" by simp
    have "same k (t @ ls @ rs) = same k d" for k
      using spec(2) L R by (metis append_take_drop_id filter_append)
    with ms spec(2) \<open>mset (L @ R) = mset d\<close> show ?thesis by simp
  qed
qed

lemma ffsort_sorts:
  assumes "sz = 4 \<or> sz = 8 \<or> cacheline < 2 * sz" and "alloc_ok \<or> length d * sz \<le> MAXSTACKTMP"
  shows "sorts d (ffsort cacheline alloc_ok d sz cmp)"
  using merge_sort_sorts [OF assms(1)] assms(2) by (auto simp: ffsort_def not_less)

end

interpretation int_order: sort_order ffint_sortfunc
  by unfold_locales (auto simp: ffint_sortfunc_def ffint_cmp_def split: if_splits)

section \<open>The general branch of the insertion sort\<close>

lemma ins_put_copies:
  assumes "\<forall>x. cmp x x = 0" and "i < length d" and "take i d = replicate i x" and "d ! 0 = x"
  shows "take (Suc i) (ins_put cmp (d ! 0) i d) = replicate (Suc i) x
    \<and> length (ins_put cmp (d ! 0) i d) = length d"
proof (cases i)
  case 0
  then show ?thesis using assms by (auto simp: ins_put_def take_Suc_conv_app_nth)
next
  case (Suc j)
  have "d ! j = x" using assms(2,3) Suc by (metis lessI nth_replicate nth_take)
  then have "ins_put cmp (d ! 0) i d = d[i := x]"
    using assms(1,4) Suc by (simp add: ins_put_def)
  moreover have "take (Suc i) (d[i := x]) = take i d @ [x]"
    using assms(2) by (simp add: take_Suc_conv_app_nth)
  ultimately show ?thesis using assms(3) by (simp add: replicate_append_same)
qed

lemma insertion_sort_general:
  assumes "\<forall>x. cmp x x = 0" and "sz \<noteq> 4" and "sz \<noteq> 8"
  shows "insertion_sort sz cmp d = replicate (length d) (d ! 0)"
proof -
  define F where "F = fold (\<lambda>i d. ins_put cmp (d ! 0) i d)"
  have "i \<le> length d \<Longrightarrow> length (F [0..<i] d) = length d \<and> take i (F [0..<i] d) = replicate i (d ! 0)
      \<and> (d \<noteq> [] \<longrightarrow> F [0..<i] d ! 0 = d ! 0)" for i
  proof (induction i)
    case (Suc i)
    let ?e = "F [0..<i] d"
    have h: "length ?e = length d" "take i ?e = replicate i (d ! 0)" "?e ! 0 = d ! 0" "i < length ?e"
      using Suc by auto
    have step: "F [0..<Suc i] d = ins_put cmp (?e ! 0) i ?e" by (simp add: F_def)
    from ins_put_copies [where cmp = cmp, OF assms(1) h(4,2,3)] have
      t: "take (Suc i) (F [0..<Suc i] d) = replicate (Suc i) (d ! 0)" and
      l: "length (F [0..<Suc i] d) = length d" unfolding step h(1) by blast+
    from t have "F [0..<Suc i] d ! 0 = d ! 0" by (metis nth_Cons_0 nth_take replicate_Suc zero_less_Suc)
    with t l show ?case by simp
  qed (simp add: F_def)
  from this [OF le_refl] have "F [0..<length d] d = replicate (length d) (d ! 0)"
    by (metis order_refl take_all)
  then show ?thesis using assms(2,3) by (simp add: insertion_sort_def F_def)
qed

section \<open>Properties\<close>

text \<open>
  C7: ffsort sorts: for every comparison that is antisymmetric and transitive, and elements of
  4 or 8 bytes (or so large that no block goes to the insertion sort), the result is a
  permutation of the input, in order, with equal elements kept in their input order, whenever the
  temporary buffer can be had.
\<close>

theorem ffsort_correct:
  assumes "\<And>a b. cmp a b < 0 \<longleftrightarrow> 0 < cmp b a"
    and "\<And>a b c. cmp a b \<le> 0 \<Longrightarrow> cmp b c \<le> 0 \<Longrightarrow> cmp a c \<le> 0"
    and "sz = 4 \<or> sz = 8 \<or> cacheline < 2 * sz"
    and "alloc_ok \<or> length d * sz \<le> MAXSTACKTMP"
  shows "mset (ffsort cacheline alloc_ok d sz cmp) = mset d
    \<and> sorted_wrt (\<lambda>x y. cmp x y \<le> 0) (ffsort cacheline alloc_ok d sz cmp)
    \<and> (\<forall>k. filter (\<lambda>x. cmp k x = 0) (ffsort cacheline alloc_ok d sz cmp)
        = filter (\<lambda>x. cmp k x = 0) d)"
proof -
  have "sort_order cmp" using assms(1,2) by unfold_locales blast+
  from sort_order.ffsort_sorts [OF this assms(3,4)] show ?thesis .
qed

theorem ffsort_correct_witness:
  "mset (ffsort 64 False [3, 1, 2] 4 ffint_sortfunc) = mset [3, 1, 2]
    \<and> sorted_wrt (\<lambda>x y. ffint_sortfunc x y \<le> 0) (ffsort 64 False [3, 1, 2] 4 ffint_sortfunc)
    \<and> (\<forall>k. filter (\<lambda>x. ffint_sortfunc k x = 0) (ffsort 64 False [3, 1, 2] 4 ffint_sortfunc)
        = filter (\<lambda>x. ffint_sortfunc k x = 0) [3, 1, 2])"
  by (rule ffsort_correct)
    (auto intro: int_order.cmp_trans simp: int_order.cmp_antisym [symmetric] MAXSTACKTMP_def)

text \<open>
  For element sizes other than 4 and 8 the insertion sort destroys the data: ffsort of
  a block that fits in one cache line gives as many copies of its first element as it has elements.
\<close>

theorem ffsort_small_elements:
  assumes "\<forall>x. cmp x x = 0" and "sz \<noteq> 4" and "sz \<noteq> 8" and "length d * sz \<le> cacheline"
    and "alloc_ok"
  shows "ffsort cacheline alloc_ok d sz cmp = replicate (length d) (d ! 0)"
proof (cases "length d \<le> 1")
  case True
  then have "d = [] \<or> (\<exists>x. d = [x])" by (cases d) auto
  with assms(5) show ?thesis by (auto simp: ffsort_def merge_sort.simps)
next
  case False
  with assms insertion_sort_general [where cmp = cmp and d = d, OF assms(1-3)] show ?thesis
    by (simp add: ffsort_def merge_sort.simps [of cacheline sz cmp d])
qed

theorem ffsort_small_elements_witness:
  "ffsort 64 True [2, 1, 3 :: int] 2 ffint_cmp = [2, 2, 2]"
  using ffsort_small_elements [of ffint_cmp 2 "[2, 1, 3 :: int]" 64 True]
  by (simp add: numeral_3_eq_3)

text \<open>
  ffint_sort orders the array by the signed value of its elements, stably, so on values
  below 2^31 the result is sorted as unsigned numbers too and ffint_binfind4 finds in it exactly
  the elements of the input; above 2^31 it is not: the largest unsigned value comes first and
  the binary search misses it.
\<close>

theorem ffint_sort_binfind:
  assumes "alloc_ok \<or> length arr * 4 \<le> MAXSTACKTMP" and "\<forall>x \<in> set arr. x < 0x80000000"
  shows "sorted (ffint_sort cacheline alloc_ok arr)
    \<and> (ffint_binfind4 (ffint_sort cacheline alloc_ok arr) k \<noteq> -1 \<longleftrightarrow> k \<in> set arr)
    \<and> ffint_binfind4 (ffint_sort 64 True [1, 0xFFFFFFFF, 2]) 0xFFFFFFFF = -1"
proof (intro conjI)
  let ?s = "ffint_sort cacheline alloc_ok arr"
  have sort: "int_order.sorts arr ?s"
    unfolding ffint_sort_def by (rule int_order.ffsort_sorts) (use assms(1) in auto)
  then have set: "set ?s = set arr" by (metis set_mset_mset)
  have small: "sint x = int (unat x)" if "x < 0x80000000" for x :: u32
  proof -
    have "uint x < 2 ^ 31" using that by (simp add: word_less_def)
    moreover have "- (2 ^ 31) \<le> uint x" by (rule order_trans [of _ 0]) simp_all
    ultimately have "signed_take_bit 31 (uint x) = uint x"
      unfolding signed_take_bit_int_eq_self_iff by blast
    then show ?thesis by (simp add: sint_uint)
  qed
  have "sorted_wrt (\<lambda>x y. ffint_sortfunc x y \<le> 0) ?s" using sort by blast
  then show sorted: "sorted ?s"
    by (rule sorted_wrt_mono_rel [rotated])
      (use set assms(2) in \<open>auto simp: ffint_sortfunc_def small word_le_def\<close>)
  show "ffint_binfind4 ?s k \<noteq> -1 \<longleftrightarrow> k \<in> set arr"
    using binfind4.found [OF sorted, of k] set by blast
  show "ffint_binfind4 (ffint_sort 64 True [1, 0xFFFFFFFF, 2]) 0xFFFFFFFF = -1"
    by code_simp
qed

theorem ffint_sort_binfind_witness:
  "sorted (ffint_sort 64 True [5, 3]) \<and> (ffint_binfind4 (ffint_sort 64 True [5, 3]) 3 \<noteq> -1 \<longleftrightarrow> 3 \<in> set [5 :: u32, 3])
    \<and> ffint_binfind4 (ffint_sort 64 True [1, 0xFFFFFFFF, 2]) 0xFFFFFFFF = -1"
  by (rule ffint_sort_binfind) simp_all

end
