(* ===== verification/FF_Ring.thy ===== *)
theory FF_Ring
  imports FF_Number
begin

unbundle bit_operations_syntax

text \<open>
  The byte ring buffer \<open>ffringbuf\<close> of \<open>FF/ring.h\<close> and \<open>FF/ffring.c\<close>. Indices are \<open>size_t\<close>
  words with the wrap-around of the code; the capacity is a power of two. One slot stays
  free, so at most \<open>cap - 1\<close> bytes are stored. The lock field and the \<open>ffringbuf_lock_*\<close>
  wrappers (lock, call, unlock) are left out.
\<close>

section \<open>State and operations\<close>

record ffringbuf =
  data :: bytes
  cap :: u64
  rpos :: u64
  wpos :: u64

definition ffringbuf_init :: "bytes \<Rightarrow> u64 \<Rightarrow> ffringbuf" where
  "ffringbuf_init p c = \<lparr>data = p, cap = c, rpos = 0, wpos = 0\<rparr>"

definition ffringbuf_reset :: "ffringbuf \<Rightarrow> ffringbuf" where
  "ffringbuf_reset b = b\<lparr>rpos := 0, wpos := 0\<rparr>"

definition ffringbuf_full :: "ffringbuf \<Rightarrow> bool" where
  "ffringbuf_full b = ((wpos b + 1) AND (cap b - 1) = rpos b)"

definition ffringbuf_empty :: "ffringbuf \<Rightarrow> bool" where
  "ffringbuf_empty b = (rpos b = wpos b)"

definition ffringbuf_canread :: "ffringbuf \<Rightarrow> u64" where
  "ffringbuf_canread b = (wpos b - rpos b) AND (cap b - 1)"

definition ffringbuf_canread_seq :: "ffringbuf \<Rightarrow> u64" where
  "ffringbuf_canread_seq b = (if wpos b \<ge> rpos b then wpos b - rpos b else cap b - rpos b)"

definition ffringbuf_canwrite :: "ffringbuf \<Rightarrow> u64" where
  "ffringbuf_canwrite b = (rpos b - wpos b - 1) AND (cap b - 1)"

definition ffringbuf_canwrite_seq :: "ffringbuf \<Rightarrow> u64" where
  "ffringbuf_canwrite_seq b =
     (if rpos b > wpos b then rpos b - wpos b - 1
      else if rpos b = 0 then cap b - wpos b - 1 else cap b - wpos b)"

definition ffringbuf_write_seq :: "ffringbuf \<Rightarrow> bytes \<Rightarrow> ffringbuf \<times> nat" where
  "ffringbuf_write_seq b src =
     (let n = min (unat (ffringbuf_canwrite_seq b)) (length src)
      in (b\<lparr>data := put_at (data b) (unat (wpos b)) (take n src),
            wpos := ffint_add_reset2 (wpos b) (of_nat n) (cap b)\<rparr>, n))"

definition ffringbuf_write :: "ffringbuf \<Rightarrow> bytes \<Rightarrow> ffringbuf \<times> nat" where
  "ffringbuf_write b src =
     (let (b1, n) = ffringbuf_write_seq b src in
      if n \<noteq> length src
      then (let (b2, m) = ffringbuf_write_seq b1 (drop n src) in (b2, n + m))
      else (b1, n))"

definition ffringbuf_overwrite :: "ffringbuf \<Rightarrow> bytes \<Rightarrow> ffringbuf" where
  "ffringbuf_overwrite b src0 =
     (let c = unat (cap b);
          src = (if length src0 \<ge> c then drop (length src0 - (c - 1)) src0 else src0);
          len = (if length src0 \<ge> c then c - 1 else length src0);
          n = min (unat (cap b - wpos b)) len;
          d1 = put_at (data b) (unat (wpos b)) (take n src);
          d2 = (if len \<noteq> n then put_at d1 0 (drop n src) else d1);
          ow = max (sint (of_nat len - ffringbuf_canwrite b)) 0
      in b\<lparr>data := d2,
           wpos := ffint_add_reset2 (wpos b) (of_nat len) (cap b),
           rpos := ffint_add_reset2 (rpos b) (of_int ow) (cap b)\<rparr>)"

definition ffringbuf_readptr :: "ffringbuf \<Rightarrow> nat \<Rightarrow> ffringbuf \<times> bytes" where
  "ffringbuf_readptr b len =
     (let n = min len (unat (ffringbuf_canread_seq b))
      in (b\<lparr>rpos := ffint_add_reset2 (rpos b) (of_nat n) (cap b)\<rparr>,
          take n (drop (unat (rpos b)) (data b))))"

definition ffringbuf_read_seq :: "ffringbuf \<Rightarrow> nat \<Rightarrow> ffringbuf \<times> bytes" where
  "ffringbuf_read_seq b len = ffringbuf_readptr b len"

text \<open>The bytes returned are those copied to \<open>dst\<close>; their number is the return value.\<close>

definition ffringbuf_read :: "ffringbuf \<Rightarrow> nat \<Rightarrow> ffringbuf \<times> bytes" where
  "ffringbuf_read b len =
     (let (b1, d) = ffringbuf_read_seq b len in
      if length d \<noteq> len
      then (let (b2, e) = ffringbuf_read_seq b1 (len - length d) in (b2, d @ e))
      else (b1, d))"

section \<open>Invariant and contents\<close>

definition rb_ok :: "ffringbuf \<Rightarrow> bool" where
  "rb_ok b \<longleftrightarrow> (\<exists>k < 63. unat (cap b) = 2 ^ k) \<and> length (data b) = unat (cap b)
     \<and> rpos b < cap b \<and> wpos b < cap b"

abbreviation csz :: "ffringbuf \<Rightarrow> nat" where "csz b \<equiv> unat (cap b)"
abbreviation rix :: "ffringbuf \<Rightarrow> nat" where "rix b \<equiv> unat (rpos b)"
abbreviation wix :: "ffringbuf \<Rightarrow> nat" where "wix b \<equiv> unat (wpos b)"

definition rb_len :: "ffringbuf \<Rightarrow> nat" where
  "rb_len b = (if rix b \<le> wix b then wix b - rix b else wix b + csz b - rix b)"

definition rb_at :: "ffringbuf \<Rightarrow> nat \<Rightarrow> u8" where
  "rb_at b i = data b ! (if rix b + i < csz b then rix b + i else rix b + i - csz b)"

text \<open>The bytes stored, oldest first.\<close>

definition rb_abs :: "ffringbuf \<Rightarrow> bytes" where
  "rb_abs b = map (rb_at b) [0..<rb_len b]"

lemma length_rb_abs [simp]: "length (rb_abs b) = rb_len b"
  by (simp add: rb_abs_def)

lemma rb_okD:
  assumes "rb_ok b"
  shows "rix b < csz b" "wix b < csz b" "length (data b) = csz b" "rb_len b < csz b"
    "csz b < 2 ^ 63" "0 < csz b" "\<exists>k. csz b = 2 ^ k"
proof -
  from assms obtain k where k: "k < 63" "csz b = 2 ^ k" by (auto simp: rb_ok_def)
  have "(2::nat) ^ k < 2 ^ 63" using k(1) by (rule power_strict_increasing) simp
  with k show "csz b < 2 ^ 63" "0 < csz b" "\<exists>k. csz b = 2 ^ k" by auto
  from assms show r: "rix b < csz b" "wix b < csz b" "length (data b) = csz b"
    by (auto simp: rb_ok_def word_less_nat_alt)
  then show "rb_len b < csz b" by (auto simp: rb_len_def)
qed

lemma and_cap: "rb_ok b \<Longrightarrow> unat (x AND (cap b - 1)) = unat x mod csz b"
  using unat_mask_pow2 by (auto simp: rb_ok_def)

lemma add_reset_ix:
  assumes "rb_ok b" and "unat i < csz b" and "n \<le> csz b"
  shows "unat (ffint_add_reset2 i (of_nat n) (cap b))
    = (if unat i + n < csz b then unat i + n else unat i + n - csz b)"
proof -
  note rb_okD [OF assms(1)]
  then have "unat (i + of_nat n) = unat i + n"
    using assms(2,3) by (simp add: unat_word_ariths unat_of_nat)
  then show ?thesis
    using assms by (simp add: ffint_add_reset2_def and_cap mod_once)
qed

section \<open>Counters\<close>

lemma canread_len:
  assumes "rb_ok b"
  shows "unat (ffringbuf_canread b) = rb_len b"
proof -
  obtain k where k: "k < 63" "csz b = 2 ^ k" using assms by (auto simp: rb_ok_def)
  show ?thesis
    using rb_okD [OF assms] sub_mod [of "wpos b" "csz b" "rpos b" k] k
    by (simp add: ffringbuf_canread_def and_cap [OF assms] rb_len_def)
qed

lemma canwrite_room:
  assumes "rb_ok b"
  shows "unat (ffringbuf_canwrite b) = csz b - 1 - rb_len b"
proof -
  obtain k where k: "k < 63" "csz b = 2 ^ k" using assms by (auto simp: rb_ok_def)
  note ok = rb_okD [OF assms]
  have w1: "unat (wpos b + 1) = wix b + 1"
    using ok by (simp add: unat_word_ariths)
  have "rpos b - wpos b - 1 = rpos b - (wpos b + 1)" by simp
  then have "unat (ffringbuf_canwrite b) = unat (rpos b - (wpos b + 1)) mod csz b"
    unfolding ffringbuf_canwrite_def and_cap [OF assms] by (simp only:)
  also have "\<dots> = (if wix b + 1 \<le> rix b then rix b - (wix b + 1) else rix b + csz b - (wix b + 1))"
    using sub_mod [of "rpos b" "csz b" "wpos b + 1" k] ok(1,2) k by (simp add: w1)
  also have "\<dots> = csz b - 1 - rb_len b"
    using ok(1,2) by (auto simp: rb_len_def)
  finally show ?thesis .
qed

lemma canread_seq_len:
  "rb_ok b \<Longrightarrow> unat (ffringbuf_canread_seq b)
    = (if rix b \<le> wix b then wix b - rix b else csz b - rix b)"
  by (auto simp: ffringbuf_canread_seq_def word_le_nat_alt unat_sub rb_ok_def word_less_nat_alt
      simp del: unat_eq_0)

lemma canwrite_seq_room:
  assumes "rb_ok b"
  shows "unat (ffringbuf_canwrite_seq b)
    = (if wix b < rix b then rix b - wix b - 1
       else if rix b = 0 then csz b - wix b - 1 else csz b - wix b)"
proof -
  have pred: "unat (x - y - 1) = unat x - unat y - 1" if "y < x" for x y :: u64
  proof -
    have xy: "unat y < unat x" using that by (simp add: word_less_nat_alt)
    have "x - y - 1 = x - (y + 1)" by simp
    moreover have "unat (y + 1) = unat y + 1"
      using xy unat_lt2p_64 [of x] by (simp add: unat_word_ariths)
    ultimately show ?thesis using xy by (simp add: unat_sub word_le_nat_alt)
  qed
  have z: "rpos b = 0 \<longleftrightarrow> rix b = 0" by (simp add: unat_eq_0)
  have wc: "wpos b < cap b" using assms by (simp add: rb_ok_def)
  then have "unat (cap b - wpos b) = csz b - wix b" by (simp add: unat_sub)
  with wc show ?thesis
    unfolding ffringbuf_canwrite_seq_def by (simp add: pred z word_less_nat_alt)
qed

lemma full_iff:
  assumes "rb_ok b"
  shows "ffringbuf_full b \<longleftrightarrow> rb_len b = csz b - 1"
proof -
  note ok = rb_okD [OF assms]
  have "unat ((wpos b + 1) AND (cap b - 1))
      = (if wix b + 1 < csz b then wix b + 1 else wix b + 1 - csz b)"
    using add_reset_ix [OF assms ok(2), of 1] ok(6) by (simp add: ffint_add_reset2_def)
  with ok(1,2) show ?thesis
    unfolding ffringbuf_full_def word_unat_iff rb_len_def by (auto split: if_splits)
qed

lemma empty_iff:
  assumes "rb_ok b"
  shows "ffringbuf_empty b \<longleftrightarrow> rb_abs b = []"
proof -
  have "rb_abs b = [] \<longleftrightarrow> rb_len b = 0" by (simp flip: length_0_conv)
  with rb_okD(1,2) [OF assms] show ?thesis
    unfolding ffringbuf_empty_def word_unat_iff by (auto simp: rb_len_def)
qed

section \<open>One contiguous block\<close>

lemma write_block:
  assumes ok: "rb_ok b" and room: "length src + rb_len b < csz b" and fit: "wix b + length src \<le> csz b"
    and b': "b' = b\<lparr>data := put_at (data b) (wix b) src,
      wpos := ffint_add_reset2 (wpos b) (of_nat (length src)) (cap b)\<rparr>"
  shows "rb_ok b' \<and> rb_abs b' = rb_abs b @ src"
proof -
  note k = rb_okD [OF ok]
  let ?n = "length src"
  have w': "wix b' = (if wix b + ?n < csz b then wix b + ?n else 0)"
    using add_reset_ix [OF ok k(2), of ?n] room fit by (simp add: b')
  have same: "cap b' = cap b" "rpos b' = rpos b" by (simp_all add: b')
  have ok': "rb_ok b'"
    using ok w' k(6) fit k(3) by (auto simp: rb_ok_def word_less_nat_alt b' split: if_splits)
  have len: "rb_len b' = rb_len b + ?n"
    using room fit k(1,2) unfolding rb_len_def same w' by (auto split: if_splits)
  have "rb_abs b' = rb_abs b @ src"
  proof (rule nth_equalityI)
    fix i assume i: "i < length (rb_abs b')"
    define p where "p = (if rix b + i < csz b then rix b + i else rix b + i - csz b)"
    have p: "p < length (data b)" "wix b + ?n \<le> length (data b)"
      using i len room k fit by (auto simp: p_def)
    have "rb_abs b' ! i = put_at (data b) (wix b) src ! p"
      using i by (simp add: rb_abs_def rb_at_def b' p_def)
    also have "\<dots> = (rb_abs b @ src) ! i"
    proof (cases "i < rb_len b")
      case True
      then have "\<not> (wix b \<le> p \<and> p < wix b + ?n)"
        using room fit k(1,2) by (auto simp: rb_len_def p_def split: if_splits)
      then have "put_at (data b) (wix b) src ! p = data b ! p"
        unfolding nth_put_at [OF p(2,1)] by (rule if_not_P)
      with True show ?thesis
        by (simp add: nth_append rb_abs_def rb_at_def p_def)
    next
      case False
      then have "wix b \<le> p \<and> p < wix b + ?n \<and> p - wix b = i - rb_len b"
        using room fit k(1,2) i len by (auto simp: rb_len_def p_def split: if_splits)
      with False show ?thesis
        unfolding nth_put_at [OF p(2,1)] by (simp add: nth_append)
    qed
    finally show "rb_abs b' ! i = (rb_abs b @ src) ! i" .
  qed (simp add: len)
  with ok' show ?thesis by simp
qed

lemma read_block:
  assumes ok: "rb_ok b" and n: "n \<le> unat (ffringbuf_canread_seq b)"
    and b': "b' = b\<lparr>rpos := ffint_add_reset2 (rpos b) (of_nat n) (cap b)\<rparr>"
  shows "rb_ok b' \<and> rb_abs b' = drop n (rb_abs b) \<and> take n (drop (rix b) (data b)) = take n (rb_abs b)"
proof -
  note k = rb_okD [OF ok]
  have n': "n \<le> rb_len b" "rix b + n \<le> csz b"
    using n k(1,2) unfolding canread_seq_len [OF ok] by (auto simp: rb_len_def split: if_splits)
  have r': "rix b' = (if rix b + n < csz b then rix b + n else 0)"
    using add_reset_ix [OF ok k(1), of n] n' k(4) by (simp add: b')
  have same: "cap b' = cap b" "wpos b' = wpos b" "data b' = data b" by (simp_all add: b')
  have ok': "rb_ok b'"
    using ok r' k(6) n' by (auto simp: rb_ok_def word_less_nat_alt same split: if_splits)
  have len: "rb_len b' = rb_len b - n"
    using n k(1,2) n' unfolding canread_seq_len [OF ok] rb_len_def same r' by (auto split: if_splits)
  have "rb_abs b' = drop n (rb_abs b)"
  proof (rule nth_equalityI)
    fix i assume "i < length (rb_abs b')"
    then have i: "n + i < rb_len b" "i < rb_len b'" using len by simp_all
    have "rb_at b' i = rb_at b (n + i)"
      using k(1,4) i n' unfolding rb_at_def same r' by (auto simp: add_ac split: if_splits)
    with i show "rb_abs b' ! i = drop n (rb_abs b) ! i" by (simp add: rb_abs_def)
  qed (simp add: len)
  moreover have "take n (drop (rix b) (data b)) = take n (rb_abs b)"
  proof (rule nth_equalityI)
    fix i assume i: "i < length (take n (drop (rix b) (data b)))"
    then have "i < rb_len b" "rix b + i < csz b" using n' k(3) by auto
    with i k(3) show "take n (drop (rix b) (data b)) ! i = take n (rb_abs b) ! i"
      by (simp add: rb_abs_def rb_at_def)
  qed (use n' k(3) in simp)
  ultimately show ?thesis using ok' by simp
qed

section \<open>The operations on the contents\<close>

lemma write_seq_spec:
  assumes "rb_ok b" and "ffringbuf_write_seq b src = (b', n)"
  shows "n = min (unat (ffringbuf_canwrite_seq b)) (length src)"
    and "rb_ok b'" and "rb_abs b' = rb_abs b @ take n src" and "cap b' = cap b"
proof -
  note k = rb_okD [OF assms(1)]
  show n: "n = min (unat (ffringbuf_canwrite_seq b)) (length src)"
    using assms(2) by (simp add: ffringbuf_write_seq_def Let_def)
  have b': "b' = b\<lparr>data := put_at (data b) (wix b) (take n src),
      wpos := ffint_add_reset2 (wpos b) (of_nat n) (cap b)\<rparr>"
    using assms(2) by (simp add: ffringbuf_write_seq_def Let_def n)
  then show "cap b' = cap b" by simp
  have l: "length (take n src) = n" using n by simp
  have "n + rb_len b < csz b" "wix b + n \<le> csz b"
    using n k(1,2) unfolding canwrite_seq_room [OF assms(1)] by (auto simp: rb_len_def split: if_splits)
  from write_block [of b "take n src" b', OF assms(1)] this b' l
  show "rb_ok b'" "rb_abs b' = rb_abs b @ take n src" by auto
qed

lemma write_seq_again:
  assumes "rb_ok b" and "ffringbuf_write_seq b src = (b', n)" and "n \<noteq> length src"
  shows "n + unat (ffringbuf_canwrite_seq b') = csz b - 1 - rb_len b"
proof -
  note k = rb_okD [OF assms(1)]
  note sp = write_seq_spec [OF assms(1,2)]
  have n: "n = unat (ffringbuf_canwrite_seq b)" using sp(1) assms(3) by auto
  have r: "rpos b' = rpos b"
    using assms(2) by (auto simp: ffringbuf_write_seq_def Let_def)
  have w: "wpos b' = ffint_add_reset2 (wpos b) (of_nat n) (cap b)"
    using assms(2) by (auto simp: ffringbuf_write_seq_def Let_def)
  have "n \<le> csz b" using n k(1,2) unfolding canwrite_seq_room [OF assms(1)] by (auto split: if_splits)
  with add_reset_ix [OF assms(1) k(2)] w
  have w': "wix b' = (if wix b + n < csz b then wix b + n else wix b + n - csz b)" by simp
  show ?thesis
    using n k(1,2) unfolding canwrite_seq_room [OF assms(1)] canwrite_seq_room [OF sp(2)] sp(4) r w'
    by (auto simp: rb_len_def split: if_splits)
qed

lemma write_spec:
  assumes "rb_ok b" and "ffringbuf_write b src = (b', n)"
  shows "n = min (csz b - 1 - rb_len b) (length src)"
    and "rb_ok b'" and "rb_abs b' = rb_abs b @ take n src" and "cap b' = cap b"
proof -
  obtain b1 n1 where s1: "ffringbuf_write_seq b src = (b1, n1)" by fastforce
  note sp1 = write_seq_spec [OF assms(1) s1]
  have "n = min (csz b - 1 - rb_len b) (length src) \<and> rb_ok b' \<and> rb_abs b' = rb_abs b @ take n src
    \<and> cap b' = cap b"
  proof (cases "n1 = length src")
    case True
    have "rb_len b1 = rb_len b + n1" using arg_cong [OF sp1(3), of length] True by simp
    with rb_okD(4) [OF sp1(2)] sp1(4) have "n1 \<le> csz b - 1 - rb_len b" by simp
    moreover have "b' = b1" "n = n1" using True s1 assms(2) by (auto simp: ffringbuf_write_def)
    ultimately show ?thesis using sp1(2-4) True by auto
  next
    case False
    obtain b2 n2 where s2: "ffringbuf_write_seq b1 (drop n1 src) = (b2, n2)" by fastforce
    note sp2 = write_seq_spec [OF sp1(2) s2]
    have r: "b' = b2" "n = n1 + n2" using assms(2) s1 s2 False by (auto simp: ffringbuf_write_def)
    have "n1 < length src" using sp1(1) False by simp
    then have "n = min (csz b - 1 - rb_len b) (length src)"
      using write_seq_again [OF assms(1) s1 False] unfolding r(2) sp2(1) by (auto simp: min_def)
    moreover have "rb_abs b' = rb_abs b @ take n src"
      unfolding r sp2(3) sp1(3) by (simp add: take_add)
    moreover have "rb_ok b'" "cap b' = cap b" unfolding r(1) sp2(4) sp1(4) by (rule sp2(2), rule refl)
    ultimately show ?thesis by blast
  qed
  then show "n = min (csz b - 1 - rb_len b) (length src)" "rb_ok b'" "rb_abs b' = rb_abs b @ take n src"
    "cap b' = cap b" by blast+
qed

lemma readptr_spec:
  assumes "rb_ok b" and "ffringbuf_readptr b len = (b', d)"
  shows "rb_ok b'" and "rb_abs b = d @ rb_abs b'" and "cap b' = cap b"
    and "length d = min len (unat (ffringbuf_canread_seq b))"
proof -
  let ?n = "min len (unat (ffringbuf_canread_seq b))"
  have b': "b' = b\<lparr>rpos := ffint_add_reset2 (rpos b) (of_nat ?n) (cap b)\<rparr>"
    and d: "d = take ?n (drop (rix b) (data b))"
    using assms(2) by (auto simp: ffringbuf_readptr_def Let_def)
  from read_block [OF assms(1) _ b'] have r: "rb_ok b'" "rb_abs b' = drop ?n (rb_abs b)"
    "d = take ?n (rb_abs b)" unfolding d by auto
  show "rb_ok b'" by (rule r(1))
  show "rb_abs b = d @ rb_abs b'" unfolding r(2,3) by simp
  show "cap b' = cap b" by (simp add: b')
  have "?n \<le> rb_len b"
    using rb_okD(1,2) [OF assms(1)] unfolding canread_seq_len [OF assms(1)] by (auto simp: rb_len_def)
  then show "length d = ?n" unfolding r(3) by simp
qed

lemma readptr_again:
  assumes "rb_ok b" and "ffringbuf_readptr b len = (b', d)" and "length d \<noteq> len"
  shows "rb_len b' = unat (ffringbuf_canread_seq b')"
proof -
  note k = rb_okD [OF assms(1)] and sp = readptr_spec [OF assms(1,2)]
  have n: "length d = unat (ffringbuf_canread_seq b)" using sp(4) assms(3) by auto
  have w: "wpos b' = wpos b" and r: "rpos b' = ffint_add_reset2 (rpos b) (of_nat (length d)) (cap b)"
    using assms(2) sp(4) by (auto simp: ffringbuf_readptr_def Let_def)
  have le: "length d \<le> csz b"
    using n k(1,2) unfolding canread_seq_len [OF assms(1)] by (auto split: if_splits)
  show ?thesis
    using k(1,2) n add_reset_ix [OF assms(1) k(1) le]
    unfolding canread_seq_len [OF sp(1)] canread_seq_len [OF assms(1)] rb_len_def sp(3) w r
    by (auto split: if_splits)
qed

lemma read_spec:
  assumes "rb_ok b" and "ffringbuf_read b len = (b', d)"
  shows "rb_ok b'" and "rb_abs b = d @ rb_abs b'" and "cap b' = cap b"
    and "length d = min len (rb_len b)"
proof -
  obtain b1 d1 where s1: "ffringbuf_readptr b len = (b1, d1)" by fastforce
  note sp1 = readptr_spec [OF assms(1) s1]
  have l1: "rb_len b = length d1 + rb_len b1" using arg_cong [OF sp1(2), of length] by simp
  have "rb_ok b' \<and> rb_abs b = d @ rb_abs b' \<and> cap b' = cap b \<and> length d = min len (rb_len b)"
  proof (cases "length d1 = len")
    case True
    then have "b' = b1" "d = d1"
      using s1 assms(2) by (auto simp: ffringbuf_read_def ffringbuf_read_seq_def)
    with sp1(1-3) True l1 show ?thesis by simp
  next
    case False
    obtain b2 d2 where s2: "ffringbuf_readptr b1 (len - length d1) = (b2, d2)" by fastforce
    note sp2 = readptr_spec [OF sp1(1) s2]
    have r: "b' = b2" "d = d1 @ d2"
      using assms(2) s1 s2 False by (auto simp: ffringbuf_read_def ffringbuf_read_seq_def)
    have "length d1 \<le> len" using sp1(4) by simp
    then have "length d = min len (rb_len b)"
      using sp2(4) l1 unfolding r readptr_again [OF assms(1) s1 False, symmetric] by simp
    moreover have "rb_abs b = d @ rb_abs b'" unfolding r sp1(2) sp2(2) by simp
    moreover have "rb_ok b'" "cap b' = cap b" unfolding r(1) sp2(3) sp1(3) by (rule sp2(1), rule refl)
    ultimately show ?thesis by blast
  qed
  then show "rb_ok b'" "rb_abs b = d @ rb_abs b'" "cap b' = cap b" "length d = min len (rb_len b)"
    by blast+
qed

section \<open>Overwriting\<close>

lemma wrap_put:
  assumes "length d = c" and "w < c" and "length src < c" and "s < c"
    and "n = min (c - w) (length src)"
    and "d' = (if length src \<noteq> n then put_at (put_at d w (take n src)) 0 (drop n src)
      else put_at d w (take n src))"
  shows "d' ! s = (let q = if w \<le> s then s - w else s + c - w in if q < length src then src ! q else d ! s)"
    and "length d' = c"
proof -
  have fit: "w + length (take n src) \<le> length d" "length (drop n src) \<le> length d"
    using assms(1-5) by auto
  show "length d' = c" using fit assms(1,6) by simp
  have e1: "put_at d w (take n src) ! s = (if w \<le> s \<and> s < w + n then src ! (s - w) else d ! s)"
  proof -
    have "take n src ! (s - w) = src ! (s - w)" if "w \<le> s" "s < w + n"
      by (rule nth_take) (use that in linarith)
    moreover have ln: "length (take n src) = n" using assms(5) by simp
    moreover have "s < length d" using assms(1,4) by simp
    ultimately show ?thesis unfolding nth_put_at [OF fit(1) \<open>s < length d\<close>] ln
      by presburger
  qed
  have e2: "put_at x 0 (drop n src) ! s = (if s < length src - n then src ! (n + s) else x ! s)"
    if "length x = c" for x
    using that fit(2) assms(1,4) by (subst nth_put_at) auto
  have l: "length (put_at d w (take n src)) = c" using fit(1) assms(1) by simp
  show "d' ! s = (let q = if w \<le> s then s - w else s + c - w in if q < length src then src ! q else d ! s)"
  proof (cases "length src = n")
    case True
    then have d': "d' ! s = (if w \<le> s \<and> s < w + n then src ! (s - w) else d ! s)"
      unfolding assms(6) e1 [symmetric] by simp
    have "n \<le> c - w" using assms(5) by simp
    then show ?thesis
      using assms(2-4) unfolding d' True Let_def by (cases "w \<le> s") auto
  next
    case False
    then have n: "n = c - w" "n < length src" using assms(5) by auto
    have d': "d' ! s = (if s < length src - n then src ! (n + s)
        else if w \<le> s \<and> s < w + n then src ! (s - w) else d ! s)"
      unfolding assms(6) e1 [symmetric] e2 [OF l, symmetric] using False by simp
    show ?thesis
    proof (cases "w \<le> s")
      case True
      then have "\<not> s < length src - n" "s < w + n" "s - w < length src" using n assms(2-4) by linarith+
      with True show ?thesis unfolding d' Let_def by simp
    next
      case False
      then have "s + c - w = n + s" "s < length src - n \<longleftrightarrow> n + s < length src"
        using n assms(2-4) by linarith+
      with False show ?thesis unfolding d' Let_def by simp
    qed
  qed
qed

lemma ring_len_over:
  fixes r w c l :: nat
  assumes "r < c" "w < c" "l < c"
    and L: "L = (if r \<le> w then w - r else w + c - r)"
    and ow: "ow = L + l - (c - 1)"
    and w': "w' = (if w + l < c then w + l else w + l - c)"
    and r': "r' = (if r + ow < c then r + ow else r + ow - c)"
  shows "(if r' \<le> w' then w' - r' else w' + c - r') = L + l - ow"
proof (cases "L + l \<le> c - 1")
  case True
  then have "ow = 0" using ow by simp
  then have "r' = r" using r' assms(1) by simp
  then show ?thesis using True assms(1-3) unfolding L w' \<open>ow = 0\<close>
    by (cases "r \<le> w"; cases "w + l < c"; simp; linarith)
next
  case False
  then have o: "ow = L + l + 1 - c" using ow assms(1) by linarith
  show ?thesis
  proof (cases "r \<le> w")
    case True
    then have "r + ow = w + l + 1 - c" using o False unfolding L by simp
    then show ?thesis using True False assms(1-3) o unfolding w' r' L 
      by (cases "w + l < c"; cases "w + l + 1 < c + c"; simp)
  next
    case f: False
    then have "r + ow = w + l + 1" using o False assms(1,2) unfolding L by simp
    then show ?thesis using f False assms(1-3) o unfolding w' r' L 
      by (cases "w + l < c"; cases "w + l + 1 < c"; simp)
  qed
qed
lemma ring_slot_over:
  fixes r w c l i :: nat
  assumes "r < c" "w < c" "l < c"
    and L: "L = (if r \<le> w then w - r else w + c - r)"
    and ow: "ow = L + l - (c - 1)"
    and r': "r' = (if r + ow < c then r + ow else r + ow - c)"
    and i: "i < L + l - ow"
    and p: "p = (if r' + i < c then r' + i else r' + i - c)"
  shows "(if w \<le> p then p - w else p + c - w) = (if L \<le> ow + i then ow + i - L else ow + i + c - L)"
    and "p < c" and "ow + i < L \<Longrightarrow> p = (if r + (ow + i) < c then r + (ow + i) else r + (ow + i) - c)"
proof -
  have b: "i < c" "L < c" "ow \<le> L" "r' < c" using i assms(1-3) unfolding ow L r' by (auto split: if_splits)
  show pc: "p < c" using b unfolding p by (cases "r' + i < c"; simp; linarith)
  show "ow + i < L \<Longrightarrow> p = (if r + (ow + i) < c then r + (ow + i) else r + (ow + i) - c)"
    using b assms(1) unfolding p r' by (cases "r + ow < c"; simp; linarith)
  have wL: "r + L = w \<or> r + L = w + c"
    using assms(1,2) unfolding L by (cases "r \<le> w") auto
  have pj: "r + (ow + i) = p \<or> r + (ow + i) = p + c \<or> r + (ow + i) = p + c + c"
    unfolding p r' by (cases "r + ow < c"; simp; linarith)
  have j: "ow + i < L + c" "L < c + (ow + i)" using b i assms(1-3) unfolding ow by linarith+
  show "(if w \<le> p then p - w else p + c - w) = (if L \<le> ow + i then ow + i - L else ow + i + c - L)"
  proof (cases "L \<le> ow + i")
    case True
    with wL pj j pc assms(2) have "w + (ow + i - L) = p \<or> w + (ow + i - L) = p + c" by linarith
    with True j pc assms(2) show ?thesis by (cases "w \<le> p") auto
  next
    case False
    with wL pj j pc assms(2) have "w + (ow + i + c - L) = p \<or> w + (ow + i + c - L) = p + c" by linarith
    with False j pc assms(2) show ?thesis by (cases "w \<le> p") auto
  qed
qed

lemma sint_diff_nat:
  assumes "x < 2 ^ 63" and "y < 2 ^ 63"
  shows "sint (of_nat x - of_nat y :: u64) = int x - int y"
proof -
  have "(of_nat x - of_nat y :: u64) = of_int (int x - int y)" by simp
  moreover have "signed_take_bit 63 (int x - int y) = int x - int y"
    unfolding signed_take_bit_int_eq_self_iff using assms by simp
  ultimately show ?thesis by (simp only: signed_of_int) simp
qed

lemma overwrite_short:
  assumes ok: "rb_ok b" and len: "length src < csz b"
    and b': "b' = ffringbuf_overwrite b src"
  shows "rb_ok b' \<and> cap b' = cap b
    \<and> rb_abs b' = drop (rb_len b + length src - (csz b - 1)) (rb_abs b @ src)"
proof -
  note k = rb_okD [OF ok]
  let ?l = "length src" and ?c = "csz b"
  define ow where "ow = rb_len b + ?l - (?c - 1)"
  define n where "n = min (?c - wix b) ?l"
  have "ffringbuf_canwrite b = of_nat (?c - 1 - rb_len b)"
    unfolding canwrite_room [OF ok, symmetric] by simp
  then have sl: "sint (of_nat ?l - ffringbuf_canwrite b :: u64) = int ?l - int (?c - 1 - rb_len b)"
    using k(4,5) len by (simp add: sint_diff_nat del: of_nat_diff)
  have owi: "max (sint (of_nat ?l - ffringbuf_canwrite b :: u64)) 0 = int ow"
  proof -
    have "max (int a - int (c - 1 - l)) 0 = int (l + a - (c - 1))" if "l < c" for a c l :: nat
      using that by (auto simp: max_def)
    then show ?thesis unfolding sl ow_def using k(4) by blast
  qed
  have cw: "unat (cap b - wpos b) = ?c - wix b"
  proof -
    have "wpos b \<le> cap b" using ok by (auto simp: rb_ok_def)
    then show ?thesis by (rule unat_sub)
  qed
  have cap': "cap b' = cap b" unfolding b' ffringbuf_overwrite_def Let_def by simp
  have dt: "data b' = (if ?l \<noteq> n then put_at (put_at (data b) (wix b) (take n src)) 0 (drop n src)
      else put_at (data b) (wix b) (take n src))"
    using len unfolding b' ffringbuf_overwrite_def Let_def cw by (simp add: n_def)
  have wp: "wpos b' = ffint_add_reset2 (wpos b) (of_nat ?l) (cap b)"
    using len unfolding b' ffringbuf_overwrite_def Let_def by simp
  have rp: "rpos b' = ffint_add_reset2 (rpos b) (of_nat ow) (cap b)"
    using len unfolding b' ffringbuf_overwrite_def Let_def by (simp add: owi)
  have owc: "ow \<le> rb_len b" "ow \<le> ?c" using k(4) len by (auto simp: ow_def)
  have w': "wix b' = (if wix b + ?l < ?c then wix b + ?l else wix b + ?l - ?c)"
    unfolding wp using add_reset_ix [OF ok k(2)] len by simp
  have r': "rix b' = (if rix b + ow < ?c then rix b + ow else rix b + ow - ?c)"
    unfolding rp using add_reset_ix [OF ok k(1)] owc by simp
  note wr = wrap_put [OF k(3,2) len _ n_def dt]
  have ok': "rb_ok b'"
  proof -
    have "wix b' < ?c" unfolding w' using k(2) len by (simp split: if_split) linarith
    moreover have "rix b' < ?c" unfolding r' using k(1) owc by (simp split: if_split) linarith
    moreover have "length (data b') = ?c" by (rule wr(2) [OF k(6)])
    ultimately show ?thesis using ok unfolding rb_ok_def word_less_nat_alt cap' by blast
  qed
  have len': "rb_len b' = rb_len b + ?l - ow"
    unfolding rb_len_def [of b'] cap' using ring_len_over [OF k(1,2) len rb_len_def ow_def w' r'] .
  have "rb_abs b' = drop ow (rb_abs b @ src)"
  proof (rule nth_equalityI)
    fix i assume i: "i < length (rb_abs b')"
    define p where "p = (if rix b' + i < ?c then rix b' + i else rix b' + i - ?c)"
    have il: "i < rb_len b + ?l - ow" using i len' by simp
    note q = ring_slot_over [OF k(1,2) len rb_len_def ow_def r' il p_def]
    have "rb_abs b' ! i = data b' ! p"
      using i by (simp add: rb_abs_def rb_at_def cap' p_def)
    also have "\<dots> = (rb_abs b @ src) ! (ow + i)"
    proof (cases "rb_len b \<le> ow + i")
      case True
      moreover have "ow + i - rb_len b < ?l" using True il len by linarith
      ultimately show ?thesis unfolding wr(1) [OF q(2)] Let_def q(1) by (simp add: nth_append)
    next
      case False
      then have "\<not> ow + i + ?c - rb_len b < ?l" unfolding ow_def using len by linarith
      with False q(3) show ?thesis
        unfolding wr(1) [OF q(2)] Let_def q(1)
        by (simp add: nth_append rb_abs_def rb_at_def)
    qed
    finally show "rb_abs b' ! i = drop ow (rb_abs b @ src) ! i"
      by (subst nth_drop) (use owc in simp_all)
  qed (use len' owc in simp)
  with ok' cap' show ?thesis by (simp add: ow_def)
qed

lemma overwrite_long:
  assumes "rb_ok b" and "csz b \<le> length src"
  shows "ffringbuf_overwrite b src = ffringbuf_overwrite b (drop (length src - (csz b - 1)) src)"
proof -
  have "length (drop (length src - (csz b - 1)) src) = csz b - 1" "\<not> csz b \<le> csz b - 1"
    using assms(2) rb_okD(6) [OF assms(1)] by auto
  with assms(2) show ?thesis by (simp add: ffringbuf_overwrite_def Let_def)
qed

lemma overwrite_spec:
  assumes "rb_ok b"
  shows "rb_ok (ffringbuf_overwrite b src)" and "cap (ffringbuf_overwrite b src) = cap b"
    and "rb_abs (ffringbuf_overwrite b src) = drop (rb_len b + length src - (csz b - 1)) (rb_abs b @ src)"
proof -
  have "rb_ok (ffringbuf_overwrite b src) \<and> cap (ffringbuf_overwrite b src) = cap b
    \<and> rb_abs (ffringbuf_overwrite b src) = drop (rb_len b + length src - (csz b - 1)) (rb_abs b @ src)"
  proof (cases "length src < csz b")
    case True
    from overwrite_short [OF assms True refl] show ?thesis .
  next
    case False
    let ?s = "drop (length src - (csz b - 1)) src"
    have l: "length ?s = csz b - 1" using False by simp
    then have "length ?s < csz b" using rb_okD(6) [OF assms] by simp
    from overwrite_short [OF assms this refl] l False show ?thesis
      unfolding overwrite_long [OF assms leI [OF False]]
      by (simp add: Nat.le_imp_diff_is_add)
  qed
  then show "rb_ok (ffringbuf_overwrite b src)" "cap (ffringbuf_overwrite b src) = cap b"
    "rb_abs (ffringbuf_overwrite b src) = drop (rb_len b + length src - (csz b - 1)) (rb_abs b @ src)"
    by blast+
qed

lemma init_spec:
  assumes "length p = unat c" and "k < 63" and "unat c = 2 ^ k"
  shows "rb_ok (ffringbuf_init p c)" and "rb_abs (ffringbuf_init p c) = []"
proof -
  have "0 < unat c" using assms(3) by simp
  then have "0 < c" by (simp add: word_less_nat_alt)
  then show "rb_ok (ffringbuf_init p c)" "rb_abs (ffringbuf_init p c) = []"
    using assms by (auto simp: rb_ok_def ffringbuf_init_def rb_abs_def rb_len_def)
qed

lemma reset_spec:
  assumes "rb_ok b"
  shows "rb_ok (ffringbuf_reset b)" and "rb_abs (ffringbuf_reset b) = []"
  using assms rb_okD(6) [OF assms]
  by (auto simp: rb_ok_def ffringbuf_reset_def rb_abs_def rb_len_def word_less_nat_alt)

section \<open>The FIFO contract\<close>

datatype fifo_op = Write bytes | Read nat

text \<open>A run of calls: the final state, the bytes accepted and the bytes handed out.\<close>

fun fifo_run :: "('s \<Rightarrow> bytes \<Rightarrow> 's \<times> nat) \<Rightarrow> ('s \<Rightarrow> nat \<Rightarrow> 's \<times> bytes) \<Rightarrow> fifo_op list \<Rightarrow> 's \<Rightarrow>
    's \<times> bytes \<times> bytes" where
  "fifo_run wr rd [] b = (b, [], [])"
| "fifo_run wr rd (Write src # ops) b =
     (let (b1, n) = wr b src; (b2, i, out) = fifo_run wr rd ops b1 in (b2, take n src @ i, out))"
| "fifo_run wr rd (Read len # ops) b =
     (let (b1, d) = rd b len; (b2, i, out) = fifo_run wr rd ops b1 in (b2, i, d @ out))"

locale byte_fifo =
  fixes wr :: "'s \<Rightarrow> bytes \<Rightarrow> 's \<times> nat" and rd :: "'s \<Rightarrow> nat \<Rightarrow> 's \<times> bytes"
    and ok :: "'s \<Rightarrow> bool" and contents :: "'s \<Rightarrow> bytes" and capacity :: "'s \<Rightarrow> nat"
  assumes wr_law: "ok b \<Longrightarrow> wr b src = (b', n) \<Longrightarrow>
      n = min (capacity b - length (contents b)) (length src) \<and> ok b'
      \<and> contents b' = contents b @ take n src \<and> capacity b' = capacity b"
    and rd_law: "ok b \<Longrightarrow> rd b len = (b', d) \<Longrightarrow>
      contents b = d @ contents b' \<and> ok b' \<and> length d = min len (length (contents b))
      \<and> capacity b' = capacity b"
    and ok_bound: "ok b \<Longrightarrow> length (contents b) \<le> capacity b"
begin

lemma run_fifo:
  "ok b \<Longrightarrow> fifo_run wr rd ops b = (b', i, out) \<Longrightarrow>
    contents b @ i = out @ contents b' \<and> ok b' \<and> capacity b' = capacity b"
proof (induction ops arbitrary: b i out)
  case Nil
  then show ?case by simp
next
  case (Cons op ops)
  show ?case
  proof (cases op)
    case (Write src)
    obtain b1 n where w: "wr b src = (b1, n)" by fastforce
    obtain i1 where r: "fifo_run wr rd ops b1 = (b', i1, out)" "i = take n src @ i1"
      using Cons.prems(2) w Write by (auto split: prod.splits)
    from Cons.IH [OF _ r(1)] wr_law [OF Cons.prems(1) w] r(2) show ?thesis by auto
  next
    case (Read len)
    obtain b1 d where w: "rd b len = (b1, d)" by fastforce
    obtain o1 where r: "fifo_run wr rd ops b1 = (b', i, o1)" "out = d @ o1"
      using Cons.prems(2) w Read by (auto split: prod.splits)
    from Cons.IH [OF _ r(1)] rd_law [OF Cons.prems(1) w] r(2) show ?thesis by auto
  qed
qed

lemma run_bound: "ok b \<Longrightarrow> fifo_run wr rd ops b = (b', i, out) \<Longrightarrow> length (contents b') \<le> capacity b"
  using run_fifo ok_bound by metis

end

interpretation rb: byte_fifo ffringbuf_write ffringbuf_read rb_ok rb_abs "\<lambda>b. csz b - 1"
proof unfold_locales
  fix b b' src n
  assume "rb_ok b" "ffringbuf_write b src = (b', n)"
  from write_spec [OF this] show "n = min (csz b - 1 - length (rb_abs b)) (length src) \<and> rb_ok b'
    \<and> rb_abs b' = rb_abs b @ take n src \<and> csz b' - 1 = csz b - 1" by simp
next
  fix b b' len d
  assume "rb_ok b" "ffringbuf_read b len = (b', d)"
  from read_spec [OF this] show "rb_abs b = d @ rb_abs b' \<and> rb_ok b'
    \<and> length d = min len (length (rb_abs b)) \<and> csz b' - 1 = csz b - 1"
    unfolding length_rb_abs by metis
next
  fix b
  assume "rb_ok b"
  from rb_okD(4) [OF this] show "length (rb_abs b) \<le> csz b - 1" by simp
qed

section \<open>Properties\<close>

text \<open>
  C1: The ring buffer is a FIFO: after any sequence of ffringbuf_write and ffringbuf_read calls
  on a freshly initialised buffer whose capacity is a power of two, the bytes accepted are the
  bytes handed out followed by the bytes still stored, in order, and at most cap - 1 are stored.
\<close>

theorem ffringbuf_fifo:
  assumes "length p = unat c" and "k < 63" and "unat c = 2 ^ k"
    and "fifo_run ffringbuf_write ffringbuf_read ops (ffringbuf_init p c) = (b', i, out)"
  shows "i = out @ rb_abs b' \<and> rb_ok b' \<and> length (rb_abs b') \<le> unat c - 1"
proof -
  have "csz (ffringbuf_init p c) = unat c" by (simp add: ffringbuf_init_def)
  with rb.run_fifo [OF init_spec(1) [OF assms(1-3)] assms(4)]
    rb.run_bound [OF init_spec(1) [OF assms(1-3)] assms(4)] init_spec(2) [OF assms(1-3)]
  show ?thesis by simp
qed

theorem ffringbuf_fifo_witness:
  "let r = fifo_run ffringbuf_write ffringbuf_read [Write [1, 2], Read 1, Write [3, 4, 5], Read 2]
      (ffringbuf_init [0, 0, 0, 0] 4)
   in fst (snd r) = snd (snd r) @ rb_abs (fst r) \<and> rb_ok (fst r) \<and> length (rb_abs (fst r)) \<le> unat (4 :: u64) - 1"
proof -
  obtain b' i out where r: "fifo_run ffringbuf_write ffringbuf_read
      [Write [1, 2], Read 1, Write [3, 4, 5], Read 2] (ffringbuf_init [0, 0, 0, 0] 4) = (b', i, out)"
    by (metis prod_cases3)
  have "i = out @ rb_abs b' \<and> rb_ok b' \<and> length (rb_abs b') \<le> unat (4 :: u64) - 1"
    by (rule ffringbuf_fifo [OF _ _ _ r, of 2]) simp_all
  then show ?thesis unfolding r Let_def by simp
qed

text \<open>
  ffringbuf_write accepts exactly as many bytes as ffringbuf_canwrite reported, at
  most all, and appends them to the contents; ffringbuf_read returns the oldest bytes, as
  many as ffringbuf_canread reported, at most len, and removes them. Both keep the buffer
  well-formed (so no byte outside the data array is touched).
\<close>

theorem ffringbuf_write_read_refine:
  assumes "rb_ok b"
  shows "(case ffringbuf_write b src of (b', n) \<Rightarrow>
      n = min (unat (ffringbuf_canwrite b)) (length src) \<and> rb_ok b' \<and> rb_abs b' = rb_abs b @ take n src)
    \<and> (case ffringbuf_read b len of (b', d) \<Rightarrow>
      length d = min len (unat (ffringbuf_canread b)) \<and> rb_ok b' \<and> rb_abs b = d @ rb_abs b')"
  using rb.wr_law [OF assms] rb.rd_law [OF assms] by (auto simp: canwrite_room [OF assms] canread_len [OF assms])

theorem ffringbuf_write_read_refine_witness:
  "case ffringbuf_write (ffringbuf_init [0, 0] 2) [7, 8] of (b', n) \<Rightarrow>
    n = 1 \<and> rb_ok b' \<and> rb_abs b' = [7]"
proof -
  have "rb_ok (ffringbuf_init [0, 0] 2)" by (rule init_spec(1) [of _ _ 1]) simp_all
  from ffringbuf_write_read_refine [OF this, of "[7, 8]" 0]
  have "case ffringbuf_write (ffringbuf_init [0, 0] 2) [7, 8] of (b', n) \<Rightarrow>
      n = min (unat (ffringbuf_canwrite (ffringbuf_init [0, 0] 2))) (length [7, 8 :: u8]) \<and> rb_ok b'
      \<and> rb_abs b' = rb_abs (ffringbuf_init [0, 0] 2) @ take n [7, 8]" by (rule conjunct1)
  moreover have e: "unat (ffringbuf_canwrite (ffringbuf_init [0, 0] 2)) = 1" "rb_abs (ffringbuf_init [0, 0] 2) = []"
    by code_simp+
  ultimately show ?thesis unfolding e by auto
qed

text \<open>
  ffringbuf_overwrite never fails: afterwards the buffer holds the last cap - 1 bytes of
  what it held followed by the new data (all of it, when it fits), and stays well-formed, also
  for data longer than the buffer.
\<close>

theorem ffringbuf_overwrite_latest:
  assumes "rb_ok b"
  shows "rb_ok (ffringbuf_overwrite b src)
    \<and> rb_abs (ffringbuf_overwrite b src)
      = drop (length (rb_abs b @ src) - (unat (cap b) - 1)) (rb_abs b @ src)"
  using overwrite_spec [OF assms, of src] by simp

theorem ffringbuf_overwrite_latest_witness:
  "rb_abs (ffringbuf_overwrite (ffringbuf_init [0, 0, 0, 0] 4) [1, 2, 3, 4, 5]) = [3, 4, 5]"
proof -
  have "rb_ok (ffringbuf_init [0, 0, 0, 0] 4)" by (rule init_spec(1) [of _ _ 2]) simp_all
  moreover have "rb_abs (ffringbuf_init [0, 0, 0, 0] 4) = []" "unat (cap (ffringbuf_init [0, 0, 0, 0] 4)) = 4"
    by code_simp+
  ultimately show ?thesis using ffringbuf_overwrite_latest [of "ffringbuf_init [0, 0, 0, 0] 4" "[1, 2, 3, 4, 5]"]
    by simp
qed

end
