(* ===== verification/FF_RingMT.thy ===== *)
theory FF_RingMT
  imports FF_Number
begin

text \<open>
  The lock-free ring of pointers \<open>ffring\<close> of \<open>FF/ring.h\<close> and \<open>FF/ffring.c\<close>, with any number of
  writer and reader threads. A thread is a program counter with its local variables; one step
  is one access to the shared fields, and the steps of the threads interleave in any order
  (the fences of the code give the order of the stores that this assumes). \<open>sent\<close> and \<open>got\<close>
  record the values published and the values read; the code does not see them.
\<close>

section \<open>State and steps\<close>

type_synonym ptr = nat

record ffring =
  slots :: "ptr list"
  rcap :: u64
  whead :: u64
  wtail :: u64
  rhead :: u64

text \<open>
  \<open>alloc_ok\<close> is the success of the allocation, \<open>junk\<close> what the new memory holds; the caller gives a zeroed structure
  (\<open>ffring_zero\<close>), whose indexes the function leaves alone.
\<close>

definition ffring_create :: "bool \<Rightarrow> ffring \<Rightarrow> u64 \<Rightarrow> ptr \<Rightarrow> int \<times> ffring" where
  "ffring_create alloc_ok r sz junk =
     (if \<not> alloc_ok then (-1, r\<lparr>slots := []\<rparr>)
      else (0, r\<lparr>slots := replicate (unat sz) junk, rcap := sz\<rparr>))"

definition ffring_zero :: ffring where
  "ffring_zero = \<lparr>slots = [], rcap = 0, whead = 0, wtail = 0, rhead = 0\<rparr>"

definition ffring_unread :: "ffring \<Rightarrow> u64" where
  "ffring_unread R = (wtail R - rhead R) AND (rcap R - 1)"

definition ffring_full :: "ffring \<Rightarrow> bool" where
  "ffring_full R = (ffint_increset2 (wtail R) (rcap R) = rhead R)"

definition ffring_empty :: "ffring \<Rightarrow> bool" where
  "ffring_empty R = (rhead R = wtail R)"

text \<open>
  A writer between calls (with its last result), before reading \<open>whead\<close>, before reading \<open>r\<close>, before the
  compare-and-set, before storing the element, in the loop that waits for earlier writers, and
  before setting \<open>wtail\<close>. The flag is the argument \<open>single\<close>.
\<close>

datatype wpc =
    WDone int
  | WHead bool ptr
  | WRead bool ptr u64 u64
  | WCas ptr u64 u64
  | WStore bool ptr u64 u64
  | WWait ptr u64 u64
  | WPub ptr u64

fun ffring_write_step :: "ffring \<Rightarrow> wpc \<Rightarrow> ffring \<times> wpc" where
  "ffring_write_step R (WDone v) = (R, WDone v)"
| "ffring_write_step R (WHead single p) =
     (R, WRead single p (whead R) (ffint_increset2 (whead R) (rcap R)))"
| "ffring_write_step R (WRead single p old new) =
     (if new = rhead R then (R, WDone (-1))
      else if single then (R, WStore single p old new)
      else (R, WCas p old new))"
| "ffring_write_step R (WCas p old new) =
     (if whead R = old then (R\<lparr>whead := new\<rparr>, WStore False p old new) else (R, WHead False p))"
| "ffring_write_step R (WStore single p old new) =
     (R\<lparr>slots := (slots R)[unat old := p]\<rparr>, if single then WPub p new else WWait p old new)"
| "ffring_write_step R (WWait p old new) =
     (R, if wtail R = old then WPub p new else WWait p old new)"
| "ffring_write_step R (WPub p new) = (R\<lparr>wtail := new\<rparr>, WDone 0)"

datatype rpc =
    RDone "ptr option"
  | RHead
  | RTail u64
  | RFetch u64
  | RCas u64 ptr

fun ffring_read_step :: "ffring \<Rightarrow> rpc \<Rightarrow> ffring \<times> rpc" where
  "ffring_read_step R (RDone v) = (R, RDone v)"
| "ffring_read_step R RHead = (R, RTail (rhead R))"
| "ffring_read_step R (RTail rr) =
     (R, if rr = wtail R then RDone None else RFetch rr)"
| "ffring_read_step R (RFetch rr) = (R, RCas rr (slots R ! unat rr))"
| "ffring_read_step R (RCas rr rc) =
     (if rhead R = rr then (R\<lparr>rhead := ffint_increset2 rr (rcap R)\<rparr>, RDone (Some rc))
      else (R, RHead))"

record ringsys =
  ring :: ffring
  writers :: "nat \<Rightarrow> wpc"
  readers :: "nat \<Rightarrow> rpc"
  sent :: "ptr list"
  got :: "ptr list"

datatype event = CallW nat bool ptr | StepW nat | CallR nat | StepR nat

fun exec_event :: "event \<Rightarrow> ringsys \<Rightarrow> ringsys" where
  "exec_event (CallW t single p) s =
     (case writers s t of WDone _ \<Rightarrow> s\<lparr>writers := (writers s)(t := WHead single p)\<rparr> | _ \<Rightarrow> s)"
| "exec_event (StepW t) s =
     (let (R, pc) = ffring_write_step (ring s) (writers s t) in
      s\<lparr>ring := R, writers := (writers s)(t := pc),
        sent := (case writers s t of WPub p _ \<Rightarrow> sent s @ [p] | _ \<Rightarrow> sent s)\<rparr>)"
| "exec_event (CallR t) s =
     (case readers s t of RDone _ \<Rightarrow> s\<lparr>readers := (readers s)(t := RHead)\<rparr> | _ \<Rightarrow> s)"
| "exec_event (StepR t) s =
     (let (R, pc) = ffring_read_step (ring s) (readers s t) in
      s\<lparr>ring := R, readers := (readers s)(t := pc),
        got := (case (readers s t, pc) of (RCas _ _, RDone (Some v)) \<Rightarrow> got s @ [v] | _ \<Rightarrow> got s)\<rparr>)"

definition sys_init :: "u64 \<Rightarrow> ptr \<Rightarrow> ringsys" where
  "sys_init sz junk = \<lparr>ring = snd (ffring_create True ffring_zero sz junk), writers = (\<lambda>_. WDone 0),
     readers = (\<lambda>_. RDone None), sent = [], got = []\<rparr>"

inductive reach :: "(event \<Rightarrow> bool) \<Rightarrow> ringsys \<Rightarrow> ringsys \<Rightarrow> bool" for may :: "event \<Rightarrow> bool" and s0 :: ringsys where
  reach_init: "reach may s0 s0"
| reach_step: "reach may s0 s \<Longrightarrow> may e \<Longrightarrow> reach may s0 (exec_event e s)"

inductive_cases reachE: "reach may s0 s"

lemma reach_run: "reach may s0 s \<Longrightarrow> list_all may es \<Longrightarrow> reach may s0 (fold exec_event es s)"
  by (induction es arbitrary: s) (auto intro: reach_step)

text \<open>One writer (thread 0, through \<open>ffring_write\<close>) and one reader (thread 0).\<close>

fun spsc :: "event \<Rightarrow> bool" where
  "spsc (CallW t single p) = (t = 0 \<and> \<not> single)"
| "spsc (StepW t) = (t = 0)"
| "spsc (CallR t) = (t = 0)"
| "spsc (StepR t) = (t = 0)"

section \<open>The invariant of one writer and one reader\<close>

text \<open>\<open>n\<close> and \<open>m\<close> are the numbers of elements sent and received so far.\<close>

definition slot_of :: "nat \<Rightarrow> nat \<Rightarrow> u64" where
  "slot_of c n = of_nat (n mod c)"

fun writer_ok :: "nat \<Rightarrow> ffring \<Rightarrow> nat \<Rightarrow> nat \<Rightarrow> wpc \<Rightarrow> bool" where
  "writer_ok c R n m (WDone v) \<longleftrightarrow> whead R = slot_of c n"
| "writer_ok c R n m (WHead single p) \<longleftrightarrow> \<not> single \<and> whead R = slot_of c n"
| "writer_ok c R n m (WRead single p old new) \<longleftrightarrow>
     \<not> single \<and> whead R = slot_of c n \<and> old = slot_of c n \<and> new = slot_of c (Suc n)"
| "writer_ok c R n m (WCas p old new) \<longleftrightarrow>
     n - m < c - 1 \<and> whead R = slot_of c n \<and> old = slot_of c n \<and> new = slot_of c (Suc n)"
| "writer_ok c R n m (WStore single p old new) \<longleftrightarrow>
     \<not> single \<and> n - m < c - 1 \<and> whead R = slot_of c (Suc n) \<and> old = slot_of c n \<and> new = slot_of c (Suc n)"
| "writer_ok c R n m (WWait p old new) \<longleftrightarrow>
     n - m < c - 1 \<and> whead R = slot_of c (Suc n) \<and> old = slot_of c n \<and> new = slot_of c (Suc n)
     \<and> slots R ! (n mod c) = p"
| "writer_ok c R n m (WPub p new) \<longleftrightarrow>
     n - m < c - 1 \<and> whead R = slot_of c (Suc n) \<and> new = slot_of c (Suc n) \<and> slots R ! (n mod c) = p"

fun reader_ok :: "nat \<Rightarrow> ptr list \<Rightarrow> nat \<Rightarrow> rpc \<Rightarrow> bool" where
  "reader_ok c S m (RDone v) \<longleftrightarrow> True"
| "reader_ok c S m RHead \<longleftrightarrow> True"
| "reader_ok c S m (RTail rr) \<longleftrightarrow> rr = slot_of c m"
| "reader_ok c S m (RFetch rr) \<longleftrightarrow> rr = slot_of c m \<and> m < length S"
| "reader_ok c S m (RCas rr rc) \<longleftrightarrow> rr = slot_of c m \<and> m < length S \<and> rc = S ! m"

definition ring_ok :: "nat \<Rightarrow> ffring \<Rightarrow> ptr list \<Rightarrow> nat \<Rightarrow> bool" where
  "ring_ok c R S m \<longleftrightarrow> (\<exists>k < 63. c = 2 ^ k) \<and> unat (rcap R) = c \<and> length (slots R) = c
     \<and> m \<le> length S \<and> length S - m < c
     \<and> wtail R = slot_of c (length S) \<and> rhead R = slot_of c m
     \<and> (\<forall>i. m \<le> i \<and> i < length S \<longrightarrow> slots R ! (i mod c) = S ! i)"

definition spsc_inv :: "nat \<Rightarrow> ringsys \<Rightarrow> bool" where
  "spsc_inv c s \<longleftrightarrow> got s = take (length (got s)) (sent s)
     \<and> ring_ok c (ring s) (sent s) (length (got s))
     \<and> writer_ok c (ring s) (length (sent s)) (length (got s)) (writers s 0)
     \<and> reader_ok c (sent s) (length (got s)) (readers s 0)"

lemma ring_okD:
  assumes "ring_ok c R S m"
  shows "0 < c" "c < 2 ^ 64" "unat (slot_of c n) = n mod c"
proof -
  from assms obtain k where k: "k < 63" "c = 2 ^ k" by (auto simp: ring_ok_def)
  have "(2::nat) ^ k < 2 ^ 64" by (rule power_strict_increasing) (use k in simp_all)
  with k show c: "0 < c" "c < 2 ^ 64" by simp_all
  have "n mod c < 2 ^ 64" using c by (meson mod_less_divisor order_less_trans)
  then show "unat (slot_of c n) = n mod c" by (simp add: slot_of_def unat_of_nat)
qed

lemma slot_eq:
  assumes "ring_ok c R S m"
  shows "slot_of c i = slot_of c j \<longleftrightarrow> i mod c = j mod c"
  unfolding word_unat_iff ring_okD(3) [OF assms] ..

lemma mod_eq_near: "i \<le> j \<Longrightarrow> j - i < c \<Longrightarrow> i mod c = j mod c \<longleftrightarrow> i = j" for i j c :: nat
  by (metis dvd_imp_le leD le_add_diff_inverse mod_eq_dvd_iff_nat zero_less_diff diff_is_0_eq' le_neq_implies_less)

lemma increset2_slot:
  assumes "ring_ok c R S m"
  shows "ffint_increset2 (slot_of c n) (rcap R) = slot_of c (Suc n)"
proof -
  from assms obtain k where k: "k < 63" "unat (rcap R) = 2 ^ k" "c = 2 ^ k" by (auto simp: ring_ok_def)
  have b: "n mod c + 1 < 2 ^ 64"
  proof -
    have "n mod c < c" using ring_okD(1) [OF assms] by simp
    also have "c \<le> 2 ^ 63" unfolding k(3) by (rule power_increasing) (use k(1) in simp_all)
    finally show ?thesis by simp
  qed
  have "unat (ffint_increset2 (slot_of c n) (rcap R)) = unat (slot_of c n + 1) mod c"
    unfolding ffint_increset2_def k(3) by (rule unat_mask_pow2 [OF k(2)])
  also have "unat (slot_of c n + 1) = n mod c + 1"
    using b ring_okD(3) [OF assms, of n] by (simp add: unat_word_ariths)
  also have "(n mod c + 1) mod c = Suc n mod c" by (simp add: mod_Suc_eq)
  finally show ?thesis unfolding word_unat_iff ring_okD(3) [OF assms] .
qed


lemma whead_free:
  assumes ro: "ring_ok c R S m" and w: "writer_ok c R (length S) m pc" and i: "m \<le> i" "i < length S"
  shows "unat (whead R) \<noteq> i mod c"
proof -
  have "whead R = slot_of c (length S) \<or> length S - m < c - 1 \<and> whead R = slot_of c (Suc (length S))"
    using w by (cases pc) auto
  then obtain n where n: "whead R = slot_of c n" "length S \<le> n" "n - m < c"
    using ro by (auto simp: ring_ok_def)
  have "n - i < c" "i \<noteq> n" using n i by auto
  then have "i mod c \<noteq> n mod c" using mod_eq_near [of i n c] n(2) i(2) by auto
  then show ?thesis by (simp add: n(1) ring_okD(3) [OF ro])
qed

lemma full_slot:
  assumes "ring_ok c R S m"
  shows "slot_of c (Suc (length S)) = rhead R \<longleftrightarrow> length S - m = c - 1"
proof -
  from assms have r: "rhead R = slot_of c m" "m \<le> length S" "length S - m < c" by (auto simp: ring_ok_def)
  have "Suc (length S) mod c = m mod c \<longleftrightarrow> length S - m = c - 1"
  proof (cases "Suc (length S) - m = c")
    case True
    then have "Suc (length S) = m + c" using r(2) by simp
    then show ?thesis using True r by simp
  next
    case False
    then have "Suc (length S) - m < c" using r(3) by simp
    from mod_eq_near [OF _ this] r(2) False r(3) show ?thesis by auto
  qed
  then show ?thesis unfolding r(1) slot_eq [OF assms] .
qed

lemma empty_slot:
  assumes "ring_ok c R S m"
  shows "slot_of c m = wtail R \<longleftrightarrow> m = length S"
proof -
  from assms have r: "wtail R = slot_of c (length S)" "m \<le> length S" "length S - m < c"
    by (auto simp: ring_ok_def)
  from mod_eq_near [OF r(2,3)] show ?thesis unfolding r(1) slot_eq [OF assms] .
qed

lemma ring_ok_whead [simp]: "ring_ok c (R\<lparr>whead := x\<rparr>) S m = ring_ok c R S m"
  by (simp add: ring_ok_def)

lemma writer_ok_rhead [simp]: "writer_ok c (R\<lparr>rhead := x\<rparr>) n m pc = writer_ok c R n m pc"
  by (cases pc) auto

lemma writer_ok_later: "writer_ok c R n m pc \<Longrightarrow> writer_ok c R n (Suc m) pc"
  by (cases pc) auto

lemma reader_ok_later: "reader_ok c S m pc \<Longrightarrow> reader_ok c (S @ [p]) m pc"
  by (cases pc) (auto simp: nth_append)

lemma ring_ok_store:
  assumes "ring_ok c R S m" and "length S - m < c - 1"
  shows "ring_ok c (R\<lparr>slots := (slots R)[length S mod c := p]\<rparr>) S m"
proof -
  from assms have r: "m \<le> length S" "\<And>i. m \<le> i \<Longrightarrow> i < length S \<Longrightarrow> slots R ! (i mod c) = S ! i"
    by (auto simp: ring_ok_def)
  have "(slots R)[length S mod c := p] ! (i mod c) = S ! i" if "m \<le> i" "i < length S" for i
  proof -
    have "length S - i < c" using that assms(2) by linarith
    with mod_eq_near [of i "length S" c] that have "length S mod c \<noteq> i mod c" by simp
    with r(2) [OF that] show ?thesis by simp
  qed
  with assms show ?thesis by (simp add: ring_ok_def)
qed

lemma ring_ok_publish:
  assumes "ring_ok c R S m" and "length S - m < c - 1" and "slots R ! (length S mod c) = p"
  shows "ring_ok c (R\<lparr>wtail := slot_of c (Suc (length S))\<rparr>) (S @ [p]) m"
  using assms by (auto simp: ring_ok_def nth_append less_Suc_eq)

lemma ring_ok_take:
  assumes "ring_ok c R S m" and "m < length S"
  shows "ring_ok c (R\<lparr>rhead := ffint_increset2 (slot_of c m) (rcap R)\<rparr>) S (Suc m)"
  using assms unfolding increset2_slot [OF assms(1)] by (auto simp: ring_ok_def)

text \<open>The program counters determine the steps.\<close>

lemma spsc_write_step:
  assumes inv: "spsc_inv c s"
  shows "spsc_inv c (exec_event (StepW 0) s)"
proof -
  let ?R = "ring s" and ?S = "sent s" and ?m = "length (got s)"
  from inv have ro: "ring_ok c ?R ?S ?m" and w: "writer_ok c ?R (length ?S) ?m (writers s 0)"
    and rd: "reader_ok c ?S ?m (readers s 0)" and g: "got s = take ?m ?S"
    by (auto simp: spsc_inv_def)
  note lt = ring_okD(3) [OF ro]
  show ?thesis
  proof (cases "writers s 0")
    case (WDone v)
    with inv show ?thesis by (simp add: spsc_inv_def)
  next
    case (WHead single p)
    with ro w rd g show ?thesis
      by (simp add: spsc_inv_def increset2_slot [OF ro])
  next
    case (WRead single p old new)
    with w full_slot [OF ro] have "new = rhead ?R \<longleftrightarrow> length ?S - ?m = c - 1" by simp
    moreover have "length ?S - ?m < c" using ro by (simp add: ring_ok_def)
    ultimately show ?thesis using WRead ro w rd g by (auto simp: spsc_inv_def)
  next
    case (WCas p old new)
    with ro w rd g show ?thesis by (simp add: spsc_inv_def)
  next
    case (WStore single p old new)
    have "length (slots ?R) = c" using ro by (simp add: ring_ok_def)
    with WStore ro w rd g ring_ok_store [OF ro, of p] ring_okD(1) [OF ro] show ?thesis
      by (simp add: spsc_inv_def lt)
  next
    case (WWait p old new)
    have "wtail ?R = slot_of c (length ?S)" using ro by (simp add: ring_ok_def)
    with WWait ro w rd g show ?thesis by (simp add: spsc_inv_def)
  next
    case (WPub p new)
    have "got s = take ?m (?S @ [p])" using g ro by (simp add: ring_ok_def)
    with WPub w ring_ok_publish [OF ro, of p] reader_ok_later [OF rd] show ?thesis
      by (simp add: spsc_inv_def)
  qed
qed

lemma spsc_read_step:
  assumes inv: "spsc_inv c s"
  shows "spsc_inv c (exec_event (StepR 0) s)"
proof -
  let ?R = "ring s" and ?S = "sent s" and ?m = "length (got s)"
  from inv have ro: "ring_ok c ?R ?S ?m" and w: "writer_ok c ?R (length ?S) ?m (writers s 0)"
    and rd: "reader_ok c ?S ?m (readers s 0)" and g: "got s = take ?m ?S"
    by (auto simp: spsc_inv_def)
  have m: "rhead ?R = slot_of c ?m" "?m \<le> length ?S" using ro by (auto simp: ring_ok_def)
  show ?thesis
  proof (cases "readers s 0")
    case (RDone v)
    with inv show ?thesis by (simp add: spsc_inv_def)
  next
    case RHead
    with inv m show ?thesis by (simp add: spsc_inv_def)
  next
    case (RTail rr)
    with rd empty_slot [OF ro] m inv show ?thesis by (auto simp: spsc_inv_def)
  next
    case (RFetch rr)
    with rd have rr: "rr = slot_of c ?m" "?m < length ?S" by simp_all
    moreover have "slots ?R ! (?m mod c) = ?S ! ?m" using ro rr by (simp add: ring_ok_def)
    ultimately show ?thesis using RFetch inv by (simp add: spsc_inv_def ring_okD(3) [OF ro])
  next
    case (RCas rr rc)
    with rd have rr: "rr = slot_of c ?m" "?m < length ?S" "rc = ?S ! ?m" by simp_all
    have "got s @ [rc] = take (Suc ?m) ?S" using g rr by (simp add: take_Suc_conv_app_nth)
    with RCas rr m ring_ok_take [OF ro rr(2)] writer_ok_later [OF w] show ?thesis
      by (simp add: spsc_inv_def)
  qed
qed

lemma spsc_step:
  assumes "spsc_inv c s" and "spsc e"
  shows "spsc_inv c (exec_event e s)"
proof (cases e)
  case (CallW t single p)
  with assms show ?thesis by (auto simp: spsc_inv_def split: wpc.splits)
next
  case (StepW t)
  with assms spsc_write_step [OF assms(1)] show ?thesis by simp
next
  case (CallR t)
  with assms show ?thesis by (auto simp: spsc_inv_def split: rpc.splits)
next
  case (StepR t)
  with assms spsc_read_step [OF assms(1)] show ?thesis by simp
qed

lemma spsc_init:
  assumes "k < 63" and "unat sz = 2 ^ k"
  shows "spsc_inv (2 ^ k) (sys_init sz junk)"
  using assms by (auto simp: spsc_inv_def sys_init_def ring_ok_def ffring_create_def ffring_zero_def slot_of_def)

lemma spsc_reach:
  assumes "reach spsc (sys_init sz junk) s" and "k < 63" and "unat sz = 2 ^ k"
  shows "spsc_inv (2 ^ k) s"
  using assms(1) by induction (auto intro: spsc_init [OF assms(2,3)] spsc_step)

lemma unread_count:
  assumes "ring_ok c R S m"
  shows "unat (ffring_unread R) = length S - m"
proof -
  note k = ring_okD [OF assms]
  from assms obtain e where e: "unat (rcap R) = 2 ^ e" "c = 2 ^ e" "e < 63" by (auto simp: ring_ok_def)
  from assms have m: "m \<le> length S" "length S - m < c" "wtail R = slot_of c (length S)" "rhead R = slot_of c m"
    by (auto simp: ring_ok_def)
  let ?x = "length S mod c" and ?y = "m mod c"
  have u: "unat (wtail R) = ?x" "unat (rhead R) = ?y" unfolding m(3,4) by (rule k(3))+
  have "unat (ffring_unread R) = unat (wtail R - rhead R) mod 2 ^ e"
    unfolding ffring_unread_def by (rule unat_mask_pow2 [OF e(1)])
  also have "\<dots> = (if ?y \<le> ?x then ?x - ?y else ?x + c - ?y)"
    using sub_mod [of "wtail R" c "rhead R" e] u k(1) e(2,3) by simp
  also have "\<dots> = length S - m"
  proof -
    define dd where "dd = length S - m"
    have "(?y + dd) mod c = (m + dd) mod c" by (rule mod_add_left_eq)
    then have "?x = (?y + dd) mod c" using m(1) by (simp add: dd_def)
    also have "\<dots> = (if ?y + dd < c then ?y + dd else ?y + dd - c)"
      by (rule mod_once) (use k(1) m(2) in \<open>simp add: dd_def add_strict_mono mult_2\<close>)
    finally have x: "?x = (if ?y + dd < c then ?y + dd else ?y + dd - c)" .
    have "?y < c" "dd < c" using k(1) m(2) by (simp_all add: dd_def)
    with x show ?thesis unfolding dd_def [symmetric] by (cases "?y + dd < c") auto
  qed
  finally show ?thesis .
qed

lemma spsc_write_run:
  fixes p :: ptr
  assumes inv: "spsc_inv c s" and idle: "writers s 0 = WDone v"
  defines "s' \<equiv> fold exec_event (CallW 0 False p # replicate 6 (StepW 0)) s"
  shows "if ffring_full (ring s)
    then writers s' 0 = WDone (-1) \<and> sent s' = sent s
    else writers s' 0 = WDone 0 \<and> sent s' = sent s @ [p]"
proof -
  let ?R = "ring s" and ?S = "sent s" and ?m = "length (got s)"
  from inv have ro: "ring_ok c ?R ?S ?m" and w: "whead ?R = slot_of c (length ?S)"
    using idle by (auto simp: spsc_inv_def)
  have t: "wtail ?R = slot_of c (length ?S)" using ro by (simp add: ring_ok_def)
  show ?thesis
    unfolding s'_def ffring_full_def t increset2_slot [OF ro] using idle w t
    by (simp add: numeral_eq_Suc increset2_slot [OF ro])
qed

definition overfill :: "event list" where
  "overfill = CallW 1 False 9 # replicate 2 (StepW 1)
     @ CallW 0 False 1 # replicate 6 (StepW 0)
     @ CallR 0 # replicate 4 (StepR 0)
     @ concat (map (\<lambda>p. CallW 0 False p # replicate 6 (StepW 0)) [2, 3, 4])
     @ replicate 4 (StepW 1)"

section \<open>Properties\<close>

text \<open>
  C5: With one producer (ffring_write) and one consumer, in every interleaving of their steps the
  values read are a prefix of the values written, in order and without loss or
  duplication, and at most size - 1 elements are in the ring.
\<close>

theorem ffring_spsc_fifo:
  assumes "reach spsc (sys_init sz junk) s" and "k < 63" and "unat sz = 2 ^ k"
  shows "\<exists>rest. sent s = got s @ rest \<and> length rest \<le> unat sz - 1"
proof -
  from spsc_reach [OF assms] have g: "got s = take (length (got s)) (sent s)"
    "length (sent s) - length (got s) < 2 ^ k"
    by (auto simp: spsc_inv_def ring_ok_def)
  then have "sent s = got s @ drop (length (got s)) (sent s)" by (metis append_take_drop_id)
  with g(2) assms(3) show ?thesis by (intro exI [of _ "drop (length (got s)) (sent s)"]) simp
qed

theorem ffring_spsc_fifo_witness:
  "\<exists>rest. sent (fold exec_event [CallW 0 False 7, StepW 0] (sys_init 4 0))
      = got (fold exec_event [CallW 0 False 7, StepW 0] (sys_init 4 0)) @ rest \<and> length rest \<le> unat (4 :: u64) - 1"
proof (rule ffring_spsc_fifo [where k = 2])
  show "reach spsc (sys_init 4 0) (fold exec_event [CallW 0 False 7, StepW 0] (sys_init 4 0))"
    by (rule reach_run [OF reach_init]) simp
qed simp_all

text \<open>
  C8: With one producer and one consumer, in every reachable state ffring_unread is the number of
  elements written and not yet read, ffring_full holds exactly when that is size - 1, ffring_empty
  exactly when it is 0, every unread element stands in the slot of its number modulo the size, and the
  producer's index whead never points at the slot of an unread element.
\<close>

theorem ffring_counters:
  assumes "reach spsc (sys_init sz junk) s" and "k < 63" and "unat sz = 2 ^ k"
  shows "unat (ffring_unread (ring s)) = length (sent s) - length (got s)
    \<and> (ffring_full (ring s) \<longleftrightarrow> length (sent s) - length (got s) = unat sz - 1)
    \<and> (ffring_empty (ring s) \<longleftrightarrow> sent s = got s)
    \<and> (\<forall>i. length (got s) \<le> i \<and> i < length (sent s) \<longrightarrow>
        slots (ring s) ! (i mod unat sz) = sent s ! i \<and> unat (whead (ring s)) \<noteq> i mod unat sz)"
proof -
  from spsc_reach [OF assms] have ro: "ring_ok (2 ^ k) (ring s) (sent s) (length (got s))"
    and w: "writer_ok (2 ^ k) (ring s) (length (sent s)) (length (got s)) (writers s 0)"
    and g: "got s = take (length (got s)) (sent s)" by (auto simp: spsc_inv_def)
  then have "length (got s) = length (sent s) \<longleftrightarrow> sent s = got s" by (metis take_all order_refl)
  moreover have "wtail (ring s) = slot_of (2 ^ k) (length (sent s))" "rhead (ring s) = slot_of (2 ^ k) (length (got s))"
    using ro by (auto simp: ring_ok_def)
  ultimately show ?thesis
    using unread_count [OF ro] full_slot [OF ro] empty_slot [OF ro] whead_free [OF ro w] ro assms(3)
    by (auto simp: ffring_full_def ffring_empty_def increset2_slot [OF ro] ring_ok_def)
qed

theorem ffring_counters_witness:
  "unat (ffring_unread (ring (fold exec_event (CallW 0 False 7 # replicate 6 (StepW 0)) (sys_init 4 0)))) = 1
    \<and> slots (ring (fold exec_event (CallW 0 False 7 # replicate 6 (StepW 0)) (sys_init 4 0))) ! 0 = 7
    \<and> whead (ring (fold exec_event (CallW 0 False 7 # replicate 6 (StepW 0)) (sys_init 4 0))) \<noteq> 0"
proof -
  let ?s = "fold exec_event (CallW 0 False 7 # replicate 6 (StepW 0)) (sys_init 4 0)"
  have r: "reach spsc (sys_init 4 0) ?s" by (rule reach_run [OF reach_init]) (simp add: list_all_iff)
  have "sent ?s = [7] \<and> got ?s = []" by code_simp
  with ffring_counters [OF r, of 2] show ?thesis by (auto simp: unat_eq_0 dest: spec [of _ 0])
qed

text \<open>
  C9: A single producer never gets stuck: called in any reachable state, ffring_write returns
  within 6 of its own steps, without any step of the reader; it returns -1 and writes nothing when
  the ring is full, and otherwise returns 0 with the element appended.
\<close>

theorem ffring_write_returns:
  assumes "reach spsc (sys_init sz junk) s" and "k < 63" and "unat sz = 2 ^ k"
    and "writers s 0 = WDone v"
  shows "let s' = fold exec_event (CallW 0 False p # replicate 6 (StepW 0)) s in
    if ffring_full (ring s) then writers s' 0 = WDone (-1) \<and> sent s' = sent s
    else writers s' 0 = WDone 0 \<and> sent s' = sent s @ [p]"
  unfolding Let_def by (rule spsc_write_run [OF spsc_reach [OF assms(1-3)] assms(4)])

theorem ffring_write_returns_witness:
  "let s' = fold exec_event (CallW 0 False 9 # replicate 6 (StepW 0)) (sys_init 4 0) in
    if ffring_full (ring (sys_init 4 0)) then writers s' 0 = WDone (-1) \<and> sent s' = sent (sys_init 4 0)
    else writers s' 0 = WDone 0 \<and> sent s' = sent (sys_init 4 0) @ [9]"
  by (rule ffring_write_returns [OF reach_init, of 2]) (simp_all add: sys_init_def)

text \<open>
  With two producers the compare-and-set on whead does not protect the test for a full
  ring: a producer that is held up between them while the other writes a whole round overfills the
  ring. There is an interleaving of two producers and one consumer after which all calls have
  returned, the writers reported success for five values, one was read, and the ring is empty.
\<close>

theorem ffring_two_writers_lose:
  "\<exists>es. (let s = fold exec_event es (sys_init 4 0) in
      writers s 0 = WDone 0 \<and> writers s 1 = WDone 0 \<and> readers s 0 = RDone (Some 1)
      \<and> sent s = [1, 2, 3, 4, 9] \<and> got s = [1] \<and> ffring_empty (ring s))"
  by (rule exI [of _ overfill]) (code_simp)

text \<open>
  ffring_write_excl never advances whead, so a second call writes to the same slot: two calls on
  a fresh ring both return success, and the ring then holds only the second element.
\<close>

theorem ffring_write_excl_overwrites:
  "let s = fold exec_event (CallW 0 True p # replicate 5 (StepW 0) @ CallW 0 True q # replicate 5 (StepW 0))
        (sys_init 4 junk) in
    writers s 0 = WDone 0 \<and> sent s = [p, q] \<and> ffring_unread (ring s) = 1
    \<and> slots (ring s) = [q, junk, junk, junk]"
proof -
  have r: "replicate 5 (StepW 0) = [StepW 0, StepW 0, StepW 0, StepW 0, StepW 0]"
    "replicate 4 junk = [junk, junk, junk, junk]"
    by (simp_all add: numeral_eq_Suc)
  have "unat (4 :: u64) = 4" by simp
  with r(2) show ?thesis unfolding r(1)
    by (simp add: sys_init_def ffring_create_def ffring_zero_def ffint_increset2_def ffring_unread_def Let_def)
qed

end
