(* ===== verification/FF_Hashtab.thy ===== *)
theory FF_Hashtab
  imports FF_Number "HOL-Library.Multiset"
begin

text \<open>
  The open-addressing hash table of \<open>FF/hashtab.h\<close> and \<open>FF/ffhashtab.c\<close>: one array of slots
  (\<open>_FFHST_SLOT_ITEMS\<close> is 1), linear probing. The key comparison \<open>ht->cmpkey\<close> is an argument.
  A loop that may not end is a partial function: \<open>None\<close> means that it never returns. The
  rounding to a power of two and the allocation belong to the platform layer: \<open>align\<close> and \<open>mem\<close>
  are arguments of \<open>ffhst_init\<close>. The debug statistics (\<open>FFHST_DEBUG\<close>) and printing are left out.
\<close>

section \<open>State and operations\<close>

record hst_item =
  keyhash :: u32
  flags :: u32
  ival :: nat

record ffhstab =
  hlen :: u64
  nslots :: u64
  slot_mask :: u64
  hslots :: "hst_item list"

definition no_item :: hst_item where
  "no_item = \<lparr>keyhash = 0, flags = 0, ival = 0\<rparr>"

definition HST_HIWAT :: u64 where "HST_HIWAT = 75"

definition hst_slot :: "ffhstab \<Rightarrow> u32 \<Rightarrow> u64" where
  "hst_slot ht hash = ucast hash AND slot_mask ht"

definition hst_slot_empty :: "ffhstab \<Rightarrow> u64 \<Rightarrow> bool" where
  "hst_slot_empty ht slot = (flags (hslots ht ! unat slot) = 0)"

definition hst_slot_collnext :: "ffhstab \<Rightarrow> u64 \<Rightarrow> u64" where
  "hst_slot_collnext ht slot = (slot + 1) AND slot_mask ht"

definition ffhst_init :: "(u64 \<Rightarrow> u64) \<Rightarrow> bool \<Rightarrow> u64 \<Rightarrow> ffhstab option" where
  "ffhst_init align mem items =
     (let n = items + 1;
          ns1 = align n;
          ns = (if ns1 * HST_HIWAT div 100 < n then align (ns1 + 1) else ns1)
      in if mem then Some \<lparr>hlen = 0, nslots = ns, slot_mask = ns - 1, hslots = replicate (unat ns) no_item\<rparr>
         else None)"

definition ffhst_free :: "ffhstab \<Rightarrow> ffhstab" where
  "ffhst_free ht = ht\<lparr>hslots := [], hlen := 0, nslots := 0\<rparr>"

text \<open>The loop of \<open>ffhst_ins\<close> that looks for a free slot: the slot and the probe count \<open>r\<close>.\<close>

partial_function (option) hst_ins_loop :: "ffhstab \<Rightarrow> u64 \<Rightarrow> u32 \<Rightarrow> (u64 \<times> u32) option" where
  "hst_ins_loop ht slot r =
     (if hst_slot_empty ht slot then Some (slot, r)
      else hst_ins_loop ht (hst_slot_collnext ht slot) (r + 1))"

definition ffhst_ins :: "ffhstab \<Rightarrow> u32 \<Rightarrow> nat \<Rightarrow> (ffhstab \<times> int) option" where
  "ffhst_ins ht hash v =
     (if hlen ht + 1 > nslots ht then Some (ht, -1)
      else case hst_ins_loop ht (hst_slot ht hash) 1 of None \<Rightarrow> None
        | Some (slot, r) \<Rightarrow>
            Some (ht\<lparr>hslots := (hslots ht)[unat slot := \<lparr>keyhash = hash, flags = 1, ival = v\<rparr>],
                     hlen := hlen ht + 1\<rparr>, sint r))"

partial_function (option) hst_find_loop ::
    "(nat \<Rightarrow> int) \<Rightarrow> ffhstab \<Rightarrow> u32 \<Rightarrow> u64 \<Rightarrow> hst_item option option" where
  "hst_find_loop cmp ht hash slot =
     (if hst_slot_empty ht slot then Some None
      else let it = hslots ht ! unat slot in
        if keyhash it = hash \<and> cmp (ival it) = 0 then Some (Some it)
        else hst_find_loop cmp ht hash (hst_slot_collnext ht slot))"

text \<open>\<open>cmpkey val key param\<close>; the result is the element found.\<close>

definition ffhst_find_el ::
    "(nat \<Rightarrow> 'k \<Rightarrow> 'p \<Rightarrow> int) \<Rightarrow> ffhstab \<Rightarrow> u32 \<Rightarrow> 'k \<Rightarrow> 'p \<Rightarrow> hst_item option option" where
  "ffhst_find_el cmpkey ht hash key param =
     hst_find_loop (\<lambda>v. cmpkey v key param) ht hash (hst_slot ht hash)"

definition ffhst_value :: "hst_item \<Rightarrow> nat" where
  "ffhst_value it = ival it"

text \<open>
  The outer \<open>None\<close> is a search that does not return, the inner one the null pointer. Values stand for pointers other than null, which the code could
  not tell from the answer that there is none.
\<close>

definition ffhst_find ::
    "(nat \<Rightarrow> 'k \<Rightarrow> 'p \<Rightarrow> int) \<Rightarrow> ffhstab \<Rightarrow> u32 \<Rightarrow> 'k \<Rightarrow> 'p \<Rightarrow> nat option option" where
  "ffhst_find cmpkey ht hash key param =
     map_option (map_option ffhst_value) (ffhst_find_el cmpkey ht hash key param)"

text \<open>The user's function gets its state and a value, and stops the walk with a non-zero result.\<close>

fun hst_walk_loop :: "(nat \<Rightarrow> 's \<Rightarrow> 's \<times> int) \<Rightarrow> hst_item list \<Rightarrow> 's \<Rightarrow> 's \<times> int" where
  "hst_walk_loop func [] s = (s, 0)"
| "hst_walk_loop func (it # its) s =
     (if flags it = 0 then hst_walk_loop func its s
      else let (s', r) = func (ival it) s in
        if r \<noteq> 0 then (s', r) else hst_walk_loop func its s')"

definition ffhst_walk :: "ffhstab \<Rightarrow> (nat \<Rightarrow> 's \<Rightarrow> 's \<times> int) \<Rightarrow> 's \<Rightarrow> 's \<times> int" where
  "ffhst_walk ht func s = hst_walk_loop func (take (unat (nslots ht)) (hslots ht)) s"

section \<open>Invariant and contents\<close>

abbreviation nsl :: "ffhstab \<Rightarrow> nat" where "nsl ht \<equiv> length (hslots ht)"

definition busy :: "ffhstab \<Rightarrow> nat \<Rightarrow> bool" where
  "busy ht s = (flags (hslots ht ! s) \<noteq> 0)"

definition home :: "ffhstab \<Rightarrow> u32 \<Rightarrow> nat" where
  "home ht hash = unat hash mod nsl ht"

text \<open>The slot visited after \<open>i\<close> collisions.\<close>

definition probe :: "ffhstab \<Rightarrow> nat \<Rightarrow> nat \<Rightarrow> nat" where
  "probe ht h i = (h + i) mod nsl ht"

definition hst_abs :: "ffhstab \<Rightarrow> (u32 \<times> nat) multiset" where
  "hst_abs ht = mset (map (\<lambda>it. (keyhash it, ival it)) (filter (\<lambda>it. flags it \<noteq> 0) (hslots ht)))"

text \<open>
  The number of slots is a power of two, \<open>len\<close> counts the busy ones, and between the home slot
  of an element and its place every slot is busy.
\<close>

definition hst_ok :: "ffhstab \<Rightarrow> bool" where
  "hst_ok ht \<longleftrightarrow> (\<exists>k < 63. unat (nslots ht) = 2 ^ k) \<and> slot_mask ht = nslots ht - 1
     \<and> nsl ht = unat (nslots ht) \<and> unat (hlen ht) = size (hst_abs ht)
     \<and> (\<forall>i < nsl ht. \<forall>hash. busy ht (probe ht (home ht hash) i)
          \<and> keyhash (hslots ht ! probe ht (home ht hash) i) = hash
          \<longrightarrow> (\<forall>j < i. busy ht (probe ht (home ht hash) j)))"

lemma hst_okD:
  assumes "hst_ok ht"
  shows "0 < nsl ht" "nsl ht < 2 ^ 63" "unat (hlen ht) \<le> nsl ht" "unat (nslots ht) = nsl ht"
proof -
  from assms obtain k where k: "k < 63" "nsl ht = 2 ^ k" by (auto simp: hst_ok_def)
  have "(2::nat) ^ k < 2 ^ 63" using k(1) by (rule power_strict_increasing) simp
  with k show "0 < nsl ht" "nsl ht < 2 ^ 63" by simp_all
  have "size (hst_abs ht) \<le> nsl ht"
    unfolding hst_abs_def size_mset length_map by (rule length_filter_le)
  then show "unat (hlen ht) \<le> nsl ht" using assms by (simp add: hst_ok_def)
  show "unat (nslots ht) = nsl ht" using assms by (simp add: hst_ok_def)
qed

lemma hst_room: "hst_ok ht \<Longrightarrow> hlen ht < nslots ht \<longleftrightarrow> size (hst_abs ht) < unat (nslots ht)"
  unfolding hst_ok_def word_less_nat_alt by metis

lemma unat_mask_slot:
  assumes "hst_ok ht"
  shows "unat (x AND slot_mask ht) = unat x mod nsl ht"
  using assms unat_mask_pow2 [of "nslots ht" _ x] by (auto simp: hst_ok_def)

lemma unat_hst_slot: "hst_ok ht \<Longrightarrow> unat (hst_slot ht hash) = probe ht (home ht hash) 0"
  by (simp add: hst_slot_def unat_mask_slot home_def probe_def)

lemma unat_collnext:
  assumes "hst_ok ht" and "unat slot = probe ht h i"
  shows "unat (hst_slot_collnext ht slot) = probe ht h (Suc i)"
proof -
  have "probe ht h i < nsl ht" using hst_okD(1) [OF assms(1)] by (simp add: probe_def)
  with hst_okD(2) [OF assms(1)] have "unat (slot + 1) = probe ht h i + 1"
    using assms(2) by (simp add: unat_word_ariths)
  then have "unat (hst_slot_collnext ht slot) = (probe ht h i + 1) mod nsl ht"
    by (simp add: hst_slot_collnext_def unat_mask_slot [OF assms(1)])
  also have "\<dots> = probe ht h (Suc i)" by (simp add: probe_def mod_Suc_eq)
  finally show ?thesis .
qed

lemma probe_covers: "s < nsl ht \<Longrightarrow> \<exists>i < nsl ht. probe ht h i = s"
proof -
  assume s: "s < nsl ht"
  have h: "h mod nsl ht < nsl ht" by (rule mod_less_divisor) (use s in linarith)
  let ?h = "h mod nsl ht"
  define i where "i = (if ?h \<le> s then s - ?h else s + nsl ht - ?h)"
  have "i < nsl ht" using s h by (auto simp: i_def)
  moreover have "probe ht h i = (?h + i) mod nsl ht" by (simp add: probe_def mod_add_left_eq)
  moreover have "(?h + i) mod nsl ht = s" using s h by (auto simp: i_def)
  ultimately show ?thesis by blast
qed

lemma probe_lt: "hst_ok ht \<Longrightarrow> probe ht h i < nsl ht"
  using hst_okD(1) by (simp add: probe_def)

lemma some_empty:
  assumes "hst_ok ht" and "hlen ht < nslots ht"
  shows "\<exists>s < nsl ht. \<not> busy ht s"
proof (rule ccontr)
  assume "\<not> ?thesis"
  then have "\<forall>it \<in> set (hslots ht). flags it \<noteq> 0" by (auto simp: busy_def in_set_conv_nth)
  then have "size (hst_abs ht) = nsl ht" by (simp add: hst_abs_def filter_True)
  with assms show False by (simp add: hst_ok_def word_less_nat_alt)
qed

text \<open>The first probe that meets a condition.\<close>

lemma first_probe:
  assumes "s < nsl ht" and "P s"
  shows "\<exists>i < nsl ht. P (probe ht h i) \<and> (\<forall>j < i. \<not> P (probe ht h j))"
proof -
  obtain m where m: "m < nsl ht" "probe ht h m = s" using probe_covers [OF assms(1)] by blast
  with assms(2) have m: "m < nsl ht" "P (probe ht h m)" by simp_all
  let ?i = "LEAST i. P (probe ht h i)"
  have "P (probe ht h ?i)" using m(2) by (rule LeastI)
  moreover have "?i \<le> m" using m(2) by (rule Least_le)
  moreover have "\<not> P (probe ht h j)" if "j < ?i" for j using that by (rule not_less_Least)
  moreover have "?i < nsl ht" using \<open>?i \<le> m\<close> m(1) by (rule le_less_trans)
  ultimately show ?thesis by blast
qed

section \<open>Insertion\<close>

lemma ins_loop_probe:
  assumes "hst_ok ht"
  shows "unat slot = probe ht h j \<Longrightarrow> \<not> busy ht (probe ht h (j + d)) \<Longrightarrow> \<forall>i < d. busy ht (probe ht h (j + i)) \<Longrightarrow>
    \<exists>slot'. unat slot' = probe ht h (j + d) \<and> hst_ins_loop ht slot r = Some (slot', r + of_nat d)"
proof (induction d arbitrary: slot j r)
  case 0
  then show ?case by (subst hst_ins_loop.simps) (auto simp: hst_slot_empty_def busy_def)
next
  case (Suc d)
  have "busy ht (probe ht h j)" using Suc.prems(3) by (metis add_0_right zero_less_Suc)
  then have "hst_ins_loop ht slot r = hst_ins_loop ht (hst_slot_collnext ht slot) (r + 1)"
    using Suc.prems(1) by (subst hst_ins_loop.simps) (simp add: hst_slot_empty_def busy_def)
  moreover have "\<forall>i < d. busy ht (probe ht h (Suc j + i))" using Suc.prems(3) by auto
  ultimately show ?case
    using Suc.IH [OF unat_collnext [OF assms Suc.prems(1)], of "r + 1"] Suc.prems(2)
    by (simp add: add.assoc)
qed

lemma hst_abs_insert:
  assumes "s < nsl ht" and "\<not> busy ht s"
  shows "hst_abs (ht\<lparr>hslots := (hslots ht)[s := \<lparr>keyhash = hash, flags = 1, ival = v\<rparr>], hlen := l\<rparr>)
    = add_mset (hash, v) (hst_abs ht)"
proof -
  let ?it = "\<lparr>keyhash = hash, flags = 1, ival = v\<rparr>"
  have e: "hslots ht = take s (hslots ht) @ hslots ht ! s # drop (Suc s) (hslots ht)"
    using assms(1) by (rule id_take_nth_drop)
  have u: "(hslots ht)[s := ?it] = take s (hslots ht) @ ?it # drop (Suc s) (hslots ht)"
    using assms(1) by (rule upd_conv_take_nth_drop)
  have f: "flags (hslots ht ! s) = 0" using assms(2) by (simp add: busy_def)
  show ?thesis
    unfolding hst_abs_def by (simp add: u) (subst (3) e, simp add: f)
qed

lemma probe_inj:
  assumes "hst_ok ht"
  shows "inj_on (probe ht h) {..<nsl ht}"
proof (rule eq_card_imp_inj_on)
  have "probe ht h ` {..<nsl ht} = {..<nsl ht}"
    using probe_covers [of _ ht h] probe_lt [OF assms, of h] by fastforce
  then show "card (probe ht h ` {..<nsl ht}) = card {..<nsl ht}" by simp
qed simp

text \<open>A run of busy slots is not longer than the number of items.\<close>

lemma busy_run:
  assumes ok: "hst_ok ht" and i: "i \<le> nsl ht" "\<And>j. j < i \<Longrightarrow> busy ht (probe ht h j)"
  shows "i \<le> unat (hlen ht)"
proof -
  have "inj_on (probe ht h) {..<i}" using probe_inj [OF ok] i(1) by (auto intro: inj_on_subset)
  then have "i = card (probe ht h ` {..<i})" by (simp add: card_image)
  also have "\<dots> \<le> card {s. s < nsl ht \<and> flags (hslots ht ! s) \<noteq> 0}"
    using i(2) probe_lt [OF ok] by (intro card_mono) (auto simp: busy_def)
  also have "\<dots> = length (filter (\<lambda>it. flags it \<noteq> 0) (hslots ht))"
    by (simp add: length_filter_conv_card)
  also have "\<dots> = size (hst_abs ht)" by (simp only: hst_abs_def size_mset length_map)
  also have "\<dots> = unat (hlen ht)" using ok by (simp add: hst_ok_def)
  finally show ?thesis .
qed

lemma ffhst_ins_steps:
  assumes ok: "hst_ok ht" and room: "hlen ht < nslots ht"
  shows "\<exists>ht' i. ffhst_ins ht hash v = Some (ht', sint (1 + of_nat i :: u32)) \<and> i \<le> unat (hlen ht) \<and> hst_ok ht'
    \<and> hst_abs ht' = add_mset (hash, v) (hst_abs ht) \<and> nslots ht' = nslots ht \<and> hlen ht' = hlen ht + 1"
proof -
  let ?h = "home ht hash"
  obtain i where i: "i < nsl ht" "\<not> busy ht (probe ht ?h i)" "\<And>j. j < i \<Longrightarrow> busy ht (probe ht ?h j)"
    using some_empty [OF ok room] first_probe [of _ ht "\<lambda>s. \<not> busy ht s" ?h] by metis
  obtain slot where slot: "unat slot = probe ht ?h i"
    "hst_ins_loop ht (hst_slot ht hash) 1 = Some (slot, 1 + of_nat i)"
    using ins_loop_probe [OF ok unat_hst_slot [OF ok, of hash], where d = i and r = 1] i by auto
  let ?s = "probe ht ?h i"
  define ht' where "ht' = ht\<lparr>hslots := (hslots ht)[?s := \<lparr>keyhash = hash, flags = 1, ival = v\<rparr>],
    hlen := hlen ht + 1\<rparr>"
  have fits: "unat (hlen ht + 1) = unat (hlen ht) + 1"
    using hst_okD(2,3) [OF ok] by (simp add: unat_word_ariths)
  have g: "\<not> hlen ht + 1 > nslots ht"
    using room fits by (simp add: word_less_nat_alt not_less)
  have abs: "hst_abs ht' = add_mset (hash, v) (hst_abs ht)"
    unfolding ht'_def by (rule hst_abs_insert [OF probe_lt [OF ok] i(2)])
  have same: "nsl ht' = nsl ht" "nslots ht' = nslots ht" "slot_mask ht' = slot_mask ht"
    "probe ht' = probe ht" "home ht' = home ht"
    by (auto simp: ht'_def probe_def home_def fun_eq_iff)
  have b: "busy ht' t \<longleftrightarrow> t = ?s \<or> busy ht t" for t
    using probe_lt [OF ok] by (simp add: ht'_def busy_def nth_list_update)
  have kh: "keyhash (hslots ht' ! t) = (if t = ?s then hash else keyhash (hslots ht ! t))" for t
    using probe_lt [OF ok] by (simp add: ht'_def nth_list_update)
  have "busy ht' (probe ht (home ht y) j)"
    if x: "m < nsl ht" "busy ht' (probe ht (home ht y) m)"
      "keyhash (hslots ht' ! probe ht (home ht y) m) = y" "j < m" for m y j
  proof (cases "probe ht (home ht y) m = ?s")
    case True
    then have y: "y = hash" using x(3) kh by simp
    have "m = i"
    proof -
      have "probe ht ?h m = ?s" using True y by simp
      with probe_inj [OF ok, of ?h] show ?thesis using x(1) i(1) by (auto dest: inj_onD)
    qed
    with x(4) y i(3) b show ?thesis by simp
  next
    case False
    then have "busy ht (probe ht (home ht y) m)" "keyhash (hslots ht ! probe ht (home ht y) m) = y"
      using x(2,3) b kh by simp_all
    then have "busy ht (probe ht (home ht y) j)" using ok x(1,4) by (simp add: hst_ok_def)
    then show ?thesis using b by simp
  qed
  then have "hst_ok ht'"
    using ok abs fits unfolding hst_ok_def same by (auto simp: ht'_def)
  moreover have "ffhst_ins ht hash v = Some (ht', sint (1 + of_nat i :: u32))"
    using g slot unfolding ffhst_ins_def ht'_def by simp
  moreover have "i \<le> unat (hlen ht)" using i by (intro busy_run [OF ok]) auto
  ultimately show ?thesis using abs by (intro exI [of _ ht'] exI [of _ i]) (auto simp: ht'_def)
qed

lemma ffhst_ins_ok:
  assumes "hst_ok ht" and "hlen ht < nslots ht"
  shows "\<exists>ht' r. ffhst_ins ht hash v = Some (ht', r) \<and> hst_ok ht'
    \<and> hst_abs ht' = add_mset (hash, v) (hst_abs ht) \<and> nslots ht' = nslots ht \<and> hlen ht' = hlen ht + 1"
  using ffhst_ins_steps [OF assms, of hash v] by blast

lemma ffhst_ins_count:
  assumes "hst_ok ht" and "hlen ht < nslots ht" and "unat (hlen ht) < 2 ^ 30"
  shows "\<exists>ht' r. ffhst_ins ht hash v = Some (ht', r) \<and> 0 < r \<and> hst_ok ht'
    \<and> hst_abs ht' = add_mset (hash, v) (hst_abs ht) \<and> nslots ht' = nslots ht \<and> unat (hlen ht') = unat (hlen ht) + 1"
proof -
  from ffhst_ins_steps [OF assms(1,2), of hash v] obtain ht' i where
    ht': "ffhst_ins ht hash v = Some (ht', sint (1 + of_nat i :: u32))" "i \<le> unat (hlen ht)" "hst_ok ht'"
    "hst_abs ht' = add_mset (hash, v) (hst_abs ht)" "nslots ht' = nslots ht" "hlen ht' = hlen ht + 1" by blast
  have "sint (1 + of_nat i :: u32) = sint (of_nat (Suc i) :: u32)" by simp
  also have "\<dots> = signed_take_bit 31 (int (Suc i))" by (simp only: signed_of_nat) simp
  also have "\<dots> = int (Suc i)" using ht'(2) assms(3) by (intro signed_take_bit_int_eq_self) simp_all
  finally have "0 < sint (1 + of_nat i :: u32)" by simp
  moreover have "unat (hlen ht + 1) = unat (hlen ht) + 1" using assms(3) by (simp add: unat_word_ariths)
  ultimately show ?thesis using ht' by auto
qed

section \<open>Search\<close>

text \<open>An element that the search accepts.\<close>

definition hits :: "(nat \<Rightarrow> int) \<Rightarrow> u32 \<Rightarrow> hst_item \<Rightarrow> bool" where
  "hits cmp hash it \<longleftrightarrow> flags it \<noteq> 0 \<and> keyhash it = hash \<and> cmp (ival it) = 0"

lemma find_loop_probe:
  assumes "hst_ok ht"
  shows "unat slot = probe ht h j \<Longrightarrow>
    \<forall>i < d. busy ht (probe ht h (j + i)) \<and> \<not> hits cmp hash (hslots ht ! probe ht h (j + i)) \<Longrightarrow>
    \<exists>slot'. unat slot' = probe ht h (j + d) \<and> hst_find_loop cmp ht hash slot = hst_find_loop cmp ht hash slot'"
proof (induction d arbitrary: slot j)
  case 0
  then show ?case by auto
next
  case (Suc d)
  have "busy ht (probe ht h j)" "\<not> hits cmp hash (hslots ht ! probe ht h j)"
    using Suc.prems(2) by (metis add_0_right zero_less_Suc)+
  then have "hst_find_loop cmp ht hash slot = hst_find_loop cmp ht hash (hst_slot_collnext ht slot)"
    using Suc.prems(1)
    by (subst hst_find_loop.simps) (auto simp: hst_slot_empty_def busy_def hits_def Let_def)
  moreover have "\<forall>i < d. busy ht (probe ht h (Suc j + i)) \<and> \<not> hits cmp hash (hslots ht ! probe ht h (Suc j + i))"
    using Suc.prems(2) by auto
  ultimately show ?case
    using Suc.IH [OF unat_collnext [OF assms Suc.prems(1)]] by simp
qed

lemma find_el_spec:
  assumes ok: "hst_ok ht" and room: "\<exists>s < nsl ht. \<not> busy ht s \<or> hits (\<lambda>v. cmpkey v key param) hash (hslots ht ! s)"
  shows "\<exists>res. ffhst_find_el cmpkey ht hash key param = Some res
    \<and> (case res of Some it \<Rightarrow> it \<in> set (hslots ht) \<and> hits (\<lambda>v. cmpkey v key param) hash it
       | None \<Rightarrow> \<forall>it \<in> set (hslots ht). \<not> hits (\<lambda>v. cmpkey v key param) hash it)"
proof -
  let ?cmp = "\<lambda>v. cmpkey v key param"
  let ?h = "home ht hash" and ?stop = "\<lambda>s. \<not> busy ht s \<or> hits ?cmp hash (hslots ht ! s)"
  from room obtain s where s: "s < nsl ht" "?stop s" by blast
  obtain i where i: "i < nsl ht" "?stop (probe ht ?h i)" "\<And>j. j < i \<Longrightarrow> \<not> ?stop (probe ht ?h j)"
    using first_probe [of s ht ?stop ?h, OF s] by blast
  obtain slot where slot: "unat slot = probe ht ?h i"
    "ffhst_find_el cmpkey ht hash key param = hst_find_loop ?cmp ht hash slot"
    using find_loop_probe [OF ok unat_hst_slot [OF ok, of hash], where d = i and cmp = ?cmp and hash = hash] i(3)
    by (auto simp: ffhst_find_el_def)
  let ?it = "hslots ht ! probe ht ?h i"
  have mem: "?it \<in> set (hslots ht)" using probe_lt [OF ok] by simp
  show ?thesis
  proof (cases "busy ht (probe ht ?h i)")
    case True
    then have hit: "hits ?cmp hash ?it" using i(2) by blast
    have "ffhst_find_el cmpkey ht hash key param = Some (Some ?it)"
      unfolding slot(2) hst_find_loop.simps [of ?cmp ht hash slot] using True hit slot(1)
      by (simp add: hst_slot_empty_def busy_def hits_def Let_def)
    with mem hit show ?thesis by simp
  next
    case False
    then have "ffhst_find_el cmpkey ht hash key param = Some None"
      unfolding slot(2) hst_find_loop.simps [of ?cmp ht hash slot] using slot(1)
      by (simp add: hst_slot_empty_def busy_def)
    moreover have "\<not> hits ?cmp hash it" if it: "it \<in> set (hslots ht)" for it
    proof
      assume hit: "hits ?cmp hash it"
      obtain t where t: "t < nsl ht" "it = hslots ht ! t" using it by (auto simp: in_set_conv_nth)
      obtain m where m: "m < nsl ht" "probe ht ?h m = t" using probe_covers [OF t(1)] by blast
      have bt: "busy ht t" "keyhash (hslots ht ! t) = hash" using hit t(2) by (simp_all add: busy_def hits_def)
      show False
      proof (cases "m < i")
        case True
        from i(3) [OF this] m(2) t(2) hit show False by simp
      next
        case False
        with \<open>\<not> busy ht (probe ht ?h i)\<close> m(2) bt(1) have "i < m" by (cases "i = m") auto
        with ok m bt have "busy ht (probe ht ?h i)" by (auto simp: hst_ok_def)
        with \<open>\<not> busy ht (probe ht ?h i)\<close> show False by contradiction
      qed
    qed
    ultimately show ?thesis by simp
  qed
qed

lemma hits_abs:
  "(\<exists>it \<in> set (hslots ht). hits cmp hash it) \<longleftrightarrow> (\<exists>v. (hash, v) \<in># hst_abs ht \<and> cmp v = 0)"
  by (force simp: hits_def hst_abs_def)

lemma hits_in_abs: "it \<in> set (hslots ht) \<Longrightarrow> hits cmp hash it \<Longrightarrow> (hash, ival it) \<in># hst_abs ht \<and> cmp (ival it) = 0"
  by (force simp: hits_def hst_abs_def)

lemma ffhst_find_ok:
  assumes "hst_ok ht" and "hlen ht < nslots ht"
  shows "\<exists>res. ffhst_find cmpkey ht hash key param = Some res
    \<and> (case res of Some v \<Rightarrow> (hash, v) \<in># hst_abs ht \<and> cmpkey v key param = 0
       | None \<Rightarrow> \<forall>v. (hash, v) \<in># hst_abs ht \<longrightarrow> cmpkey v key param \<noteq> 0)"
proof -
  have "\<exists>s < nsl ht. \<not> busy ht s \<or> hits (\<lambda>v. cmpkey v key param) hash (hslots ht ! s)"
    using some_empty [OF assms] by blast
  from find_el_spec [where cmpkey = cmpkey and key = key and param = param, OF assms(1) this] obtain res where res: "ffhst_find_el cmpkey ht hash key param = Some res"
    "case res of Some it \<Rightarrow> it \<in> set (hslots ht) \<and> hits (\<lambda>v. cmpkey v key param) hash it
       | None \<Rightarrow> \<forall>it \<in> set (hslots ht). \<not> hits (\<lambda>v. cmpkey v key param) hash it"
    by blast
  show ?thesis
  proof (cases res)
    case None
    with res hits_abs [of ht "\<lambda>v. cmpkey v key param" hash] show ?thesis
      by (auto simp: ffhst_find_def)
  next
    case (Some it)
    with res hits_in_abs [of it ht "\<lambda>v. cmpkey v key param" hash] show ?thesis
      by (auto simp: ffhst_find_def ffhst_value_def)
  qed
qed

lemma find_full_diverges:
  "hst_find_loop cmp ht hash slot = Some res \<Longrightarrow>
    hst_ok ht \<longrightarrow> (\<forall>it \<in> set (hslots ht). flags it \<noteq> 0 \<and> \<not> hits cmp hash it) \<longrightarrow> \<not> unat slot < nsl ht"
proof (erule hst_find_loop.raw_induct [rotated], intro impI notI)
  fix loop cmp ht hash slot and res :: "hst_item option"
  assume IH: "\<And>cmp ht hash slot res. loop cmp ht hash slot = Some res \<Longrightarrow>
      hst_ok ht \<longrightarrow> (\<forall>it \<in> set (hslots ht). flags it \<noteq> 0 \<and> \<not> hits cmp hash it) \<longrightarrow> \<not> unat slot < nsl ht"
    and body: "(if hst_slot_empty ht slot then Some None
      else let it = hslots ht ! unat slot in
        if keyhash it = hash \<and> cmp (ival it) = 0 then Some (Some it)
        else loop cmp ht hash (hst_slot_collnext ht slot)) = Some res"
    and ok: "hst_ok ht" and full: "\<forall>it \<in> set (hslots ht). flags it \<noteq> 0 \<and> \<not> hits cmp hash it"
    and s: "unat slot < nsl ht"
  have "flags (hslots ht ! unat slot) \<noteq> 0 \<and> \<not> hits cmp hash (hslots ht ! unat slot)"
    using full nth_mem [OF s] by blast
  with body have "loop cmp ht hash (hst_slot_collnext ht slot) = Some res"
    by (auto simp: hst_slot_empty_def hits_def Let_def split: if_splits)
  from IH [OF this] ok full have "\<not> unat (hst_slot_collnext ht slot) < nsl ht" by blast
  moreover have "unat (hst_slot_collnext ht slot) < nsl ht"
    using hst_okD(1) [OF ok] by (simp add: hst_slot_collnext_def unat_mask_slot [OF ok])
  ultimately show False by contradiction
qed

section \<open>Walk\<close>

lemma walk_loop_all:
  assumes "\<And>v s. snd (func v s) = 0"
  shows "hst_walk_loop func its s
    = (fold (\<lambda>it s. fst (func (ival it) s)) (filter (\<lambda>it. flags it \<noteq> 0) its) s, 0)"
proof (induction its arbitrary: s)
  case (Cons it its)
  obtain s' where "func (ival it) s = (s', 0)" using assms [of "ival it" s] by (metis prod.collapse)
  with Cons show ?case by simp
qed simp

section \<open>The contract of the table\<close>

text \<open>What a client relies on: a bag of (hash, value) pairs with a keyed search.\<close>

locale hash_bag =
  fixes ins :: "'t \<Rightarrow> u32 \<Rightarrow> nat \<Rightarrow> ('t \<times> int) option"
    and find :: "(nat \<Rightarrow> 'k \<Rightarrow> 'p \<Rightarrow> int) \<Rightarrow> 't \<Rightarrow> u32 \<Rightarrow> 'k \<Rightarrow> 'p \<Rightarrow> nat option option"
    and ok :: "'t \<Rightarrow> bool" and bag :: "'t \<Rightarrow> (u32 \<times> nat) multiset" and room :: "'t \<Rightarrow> nat"
  assumes ins_law: "ok t \<Longrightarrow> size (bag t) < room t \<Longrightarrow>
      \<exists>t' r. ins t h v = Some (t', r) \<and> ok t' \<and> bag t' = add_mset (h, v) (bag t) \<and> room t' = room t"
    and find_law: "ok t \<Longrightarrow> size (bag t) < room t \<Longrightarrow>
      \<exists>res. find cmp t h k p = Some res \<and> (case res of Some v \<Rightarrow> (h, v) \<in># bag t \<and> cmp v k p = 0
        | None \<Rightarrow> \<forall>v. (h, v) \<in># bag t \<longrightarrow> cmp v k p \<noteq> 0)"
begin

fun ins_all :: "'t \<Rightarrow> (u32 \<times> nat) list \<Rightarrow> 't option" where
  "ins_all t [] = Some t"
| "ins_all t ((h, v) # xs) = (case ins t h v of None \<Rightarrow> None | Some (t', r) \<Rightarrow> ins_all t' xs)"

lemma ins_all_bag:
  "ok t \<Longrightarrow> size (bag t) + length xs < room t \<Longrightarrow>
    \<exists>t'. ins_all t xs = Some t' \<and> ok t' \<and> bag t' = bag t + mset xs \<and> room t' = room t"
proof (induction xs arbitrary: t)
  case (Cons x xs)
  obtain h v where x: "x = (h, v)" by fastforce
  from ins_law [OF Cons.prems(1)] Cons.prems(2) obtain t1 r where t1: "ins t h v = Some (t1, r)"
    "ok t1" "bag t1 = add_mset (h, v) (bag t)" "room t1 = room t" by force
  from Cons.IH [OF t1(2)] Cons.prems(2) t1 show ?case by (auto simp: x)
qed simp

text \<open>A key whose comparison singles out one value among the inserted ones is found.\<close>

lemma find_after_ins:
  assumes "ok t" and "bag t = {#}" and "length xs < room t" and "(h, v) \<in> set xs"
    and "\<And>w. cmp w k p = 0 \<longleftrightarrow> w = v"
  shows "\<exists>t'. ins_all t xs = Some t' \<and> find cmp t' h k p = Some (Some v)"
proof -
  from ins_all_bag [OF assms(1), of xs] assms(2,3) obtain t' where t': "ins_all t xs = Some t'" "ok t'"
    "bag t' = mset xs" "room t' = room t" by auto
  from find_law [OF t'(2), of cmp h k p] t' assms(3) obtain res where res: "find cmp t' h k p = Some res"
    "case res of Some v \<Rightarrow> (h, v) \<in># bag t' \<and> cmp v k p = 0 | None \<Rightarrow> \<forall>v. (h, v) \<in># bag t' \<longrightarrow> cmp v k p \<noteq> 0"
    by auto
  then have "res = Some v" using assms(4,5) t'(3) by (cases res) auto
  with res t' show ?thesis by simp
qed

end

interpretation hst: hash_bag ffhst_ins ffhst_find hst_ok hst_abs "\<lambda>ht. unat (nslots ht)"
proof unfold_locales
  fix t :: ffhstab and h v
  assume "hst_ok t" "size (hst_abs t) < unat (nslots t)"
  then have "hst_ok t" "hlen t < nslots t" using hst_room [of t] by blast+
  from ffhst_ins_ok [OF this, of h v] show "\<exists>t' r. ffhst_ins t h v = Some (t', r) \<and> hst_ok t'
    \<and> hst_abs t' = add_mset (h, v) (hst_abs t) \<and> unat (nslots t') = unat (nslots t)" by auto
next
  fix t :: ffhstab and cmp :: "nat \<Rightarrow> 'a \<Rightarrow> 'b \<Rightarrow> int" and h k p
  assume "hst_ok t" "size (hst_abs t) < unat (nslots t)"
  then have "hst_ok t" "hlen t < nslots t" using hst_room [of t] by blast+
  from ffhst_find_ok [OF this] show "\<exists>res. ffhst_find cmp t h k p = Some res
    \<and> (case res of Some v \<Rightarrow> (h, v) \<in># hst_abs t \<and> cmp v k p = 0
      | None \<Rightarrow> \<forall>v. (h, v) \<in># hst_abs t \<longrightarrow> cmp v k p \<noteq> 0)" .
qed

section \<open>Initialisation\<close>

text \<open>What the code relies on of the platform's \<open>ff_align_power2\<close>, for sizes up to a bound.\<close>

definition rounds_up :: "(u64 \<Rightarrow> u64) \<Rightarrow> bool" where
  "rounds_up align \<longleftrightarrow> (\<forall>n. 0 < n \<and> unat n \<le> 2 ^ 56 \<longrightarrow>
     (\<exists>k \<le> 56. unat (align n) = 2 ^ k \<and> unat n \<le> 2 ^ k))"

lemma empty_table_ok:
  assumes "unat ns = 2 ^ k" and "k < 63"
  shows "hst_ok \<lparr>hlen = 0, nslots = ns, slot_mask = ns - 1, hslots = replicate (unat ns) no_item\<rparr>"
    and "hst_abs \<lparr>hlen = 0, nslots = ns, slot_mask = ns - 1, hslots = replicate (unat ns) no_item\<rparr> = {#}"
proof -
  let ?t = "\<lparr>hlen = 0, nslots = ns, slot_mask = ns - 1, hslots = replicate (unat ns) no_item\<rparr>"
  show abs: "hst_abs ?t = {#}" by (simp add: hst_abs_def no_item_def filter_replicate)
  have "0 < nsl ?t" by (simp add: assms(1))
  then have "\<not> busy ?t (probe ?t h i)" for h i by (simp add: busy_def probe_def no_item_def)
  with assms abs show "hst_ok ?t" unfolding hst_ok_def by auto
qed

lemma ffhst_init_ok:
  assumes "rounds_up align" and "unat items < 2 ^ 55"
  shows "\<exists>ht. ffhst_init align True items = Some ht \<and> hst_ok ht \<and> hst_abs ht = {#}
    \<and> unat items < unat (nslots ht)"
proof -
  let ?n = "items + 1"
  have n: "unat ?n = unat items + 1" using assms(2) by (simp add: unat_word_ariths)
  then have "0 < ?n" "unat ?n \<le> 2 ^ 56" using assms(2) by (simp_all add: word_less_nat_alt)
  with assms(1) obtain k where k: "k \<le> 56" "unat (align ?n) = 2 ^ k" "unat ?n \<le> 2 ^ k"
    unfolding rounds_up_def by blast
  define ns where "ns = (if align ?n * HST_HIWAT div 100 < ?n then align (align ?n + 1) else align ?n)"
  have "\<exists>e \<le> 56. unat ns = 2 ^ e \<and> unat ?n \<le> 2 ^ e"
  proof (cases "align ?n * HST_HIWAT div 100 < ?n")
    case False
    then show ?thesis using k by (auto simp: ns_def)
  next
    case True
    have p: "(2::nat) ^ k \<le> 2 ^ 56" using k(1) by (intro power_increasing) simp_all
    have small: "unat (align ?n) < 2 ^ 56"
    proof (rule ccontr)
      assume "\<not> unat (align ?n) < 2 ^ 56"
      then have e: "unat (align ?n) = 2 ^ 56" using k(2) p by simp
      have "unat (align ?n * HST_HIWAT) = 2 ^ 56 * 75"
        by (simp add: e unat_word_ariths HST_HIWAT_def)
      then have "unat (align ?n * HST_HIWAT div 100) = 2 ^ 56 * 75 div 100"
        by (simp add: unat_div)
      with True n assms(2) show False by (simp add: word_less_nat_alt)
    qed
    have a: "unat (align ?n + 1) = unat (align ?n) + 1" using small by (simp add: unat_word_ariths)
    then have "0 < align ?n + 1" "unat (align ?n + 1) \<le> 2 ^ 56" using small by (simp_all add: word_less_nat_alt)
    with assms(1) obtain e where "e \<le> 56" "unat (align (align ?n + 1)) = 2 ^ e" "unat (align ?n + 1) \<le> 2 ^ e"
      unfolding rounds_up_def by blast
    with True a k show ?thesis by (auto simp: ns_def)
  qed
  then obtain e where e: "e \<le> 56" "unat ns = 2 ^ e" "unat ?n \<le> 2 ^ e" by blast
  have "ffhst_init align True items
      = Some \<lparr>hlen = 0, nslots = ns, slot_mask = ns - 1, hslots = replicate (unat ns) no_item\<rparr>"
    by (simp add: ffhst_init_def ns_def Let_def)
  with empty_table_ok [OF e(2)] e n show ?thesis by auto
qed

section \<open>A small table\<close>

text \<open>The rounding of the platform, for the tables of the examples.\<close>

fun align_from :: "nat \<Rightarrow> u64 \<Rightarrow> u64 \<Rightarrow> u64" where
  "align_from 0 p n = p"
| "align_from (Suc f) p n = (if n \<le> p then p else align_from f (2 * p) n)"

lemma align_from_pow:
  "unat p = 2 ^ e \<Longrightarrow> e + f = 56 \<Longrightarrow> unat n \<le> 2 ^ 56 \<Longrightarrow>
    \<exists>k \<le> 56. unat (align_from f p n) = 2 ^ k \<and> unat n \<le> 2 ^ k"
proof (induction f arbitrary: p e)
  case 0
  then show ?case by auto
next
  case (Suc f)
  show ?case
  proof (cases "n \<le> p")
    case True
    with Suc.prems show ?thesis by (intro exI [of _ e]) (auto simp: word_le_nat_alt)
  next
    case False
    have "(2::nat) ^ Suc e < 2 ^ 64" by (rule power_strict_increasing) (use Suc.prems(2) in simp_all)
    then have "unat (2 * p) = 2 ^ Suc e" using Suc.prems(1) by (simp add: unat_word_ariths)
    from Suc.IH [OF this] Suc.prems(2,3) False show ?thesis by simp
  qed
qed

lemma rounds_up_example: "rounds_up (align_from 56 1)"
  unfolding rounds_up_def using align_from_pow [of 1 0 56] by simp

definition ex_table :: "u64 \<Rightarrow> ffhstab" where
  "ex_table ns = \<lparr>hlen = 0, nslots = ns, slot_mask = ns - 1, hslots = replicate (unat ns) no_item\<rparr>"

lemmas ex_table_ok = empty_table_ok [folded ex_table_def]

lemma ex_table_hlen [simp]: "hlen (ex_table ns) = 0" "nslots (ex_table ns) = ns"
  by (simp_all add: ex_table_def)

section \<open>Properties\<close>

text \<open>
  C3: ffhst_ins into a well-formed table with a free slot returns, keeps the table well-formed and
  adds exactly the pair (hash, value) to its contents; into a full table it returns -1 and changes
  nothing.
\<close>

theorem ffhst_ins_correct:
  assumes "hst_ok ht"
  shows "if hlen ht < nslots ht
    then \<exists>ht' r. ffhst_ins ht hash v = Some (ht', r) \<and> hst_ok ht' \<and> hst_abs ht' = add_mset (hash, v) (hst_abs ht)
      \<and> nslots ht' = nslots ht \<and> hlen ht' = hlen ht + 1
    else ffhst_ins ht hash v = Some (ht, -1)"
proof (cases "hlen ht < nslots ht")
  case True
  with ffhst_ins_ok [OF assms True] show ?thesis by metis
next
  case False
  then have e: "hlen ht = nslots ht"
    using hst_okD(3,4) [OF assms] by (simp add: word_less_nat_alt word_unat_iff)
  have "unat (nslots ht) < 2 ^ 63" using hst_okD(2,4) [OF assms] by simp
  then have "unat (nslots ht + 1) = unat (nslots ht) + 1" by (simp add: unat_word_ariths)
  then have "nslots ht + 1 > nslots ht" by (simp add: word_less_nat_alt)
  with False show ?thesis by (simp add: ffhst_ins_def e)
qed

theorem ffhst_ins_correct_witness:
  "\<exists>ht' r. ffhst_ins (ex_table 2) 5 7 = Some (ht', r) \<and> hst_abs ht' = {#(5, 7)#} \<and> hlen ht' = 1"
proof -
  have u: "unat (2 :: u64) = 2 ^ 1" by simp
  have "hlen (ex_table 2) < nslots (ex_table 2)" by simp
  then show ?thesis
    using ffhst_ins_correct [OF ex_table_ok(1) [OF u], of 5 7] ex_table_ok(2) [OF u] by auto
qed

text \<open>
  C13: ffhst_find in a well-formed table with a free slot returns; it returns a value stored under the
  hash for which the comparison is 0 if there is one, and NULL exactly if there is none.
\<close>

theorem ffhst_find_correct:
  assumes "hst_ok ht" and "hlen ht < nslots ht"
  shows "\<exists>res. ffhst_find cmpkey ht hash key param = Some res
    \<and> (case res of Some v \<Rightarrow> (hash, v) \<in># hst_abs ht \<and> cmpkey v key param = 0
       | None \<Rightarrow> \<forall>v. (hash, v) \<in># hst_abs ht \<longrightarrow> cmpkey v key param \<noteq> 0)"
  by (rule ffhst_find_ok [OF assms])

theorem ffhst_find_correct_witness:
  "\<exists>res. ffhst_find (\<lambda>v k p. int v - k) (ex_table 2) 5 7 () = Some res
    \<and> (case res of Some v \<Rightarrow> (5, v) \<in># hst_abs (ex_table 2) \<and> int v - 7 = 0
       | None \<Rightarrow> \<forall>v. (5, v) \<in># hst_abs (ex_table 2) \<longrightarrow> int v - 7 \<noteq> 0)"
proof -
  have u: "unat (2 :: u64) = 2 ^ 1" by simp
  show ?thesis by (rule ffhst_find_correct [OF ex_table_ok(1) [OF u]]) simp_all
qed

text \<open>
  A table made by ffhst_init for a number of items takes that many insertions, whatever their
  hashes, and then finds each of them: for any list of at most items pairs, all ffhst_ins succeed and
  ffhst_find returns the value that the comparison singles out, provided ff_align_power2 rounds up to
  a power of two.
\<close>

theorem ffhst_init_holds_items:
  assumes "rounds_up align" and "unat items < 2 ^ 55" and "length xs \<le> unat items" and "(h, v) \<in> set xs"
    and "\<And>w. cmpkey w key param = 0 \<longleftrightarrow> w = v"
  shows "\<exists>ht ht'. ffhst_init align True items = Some ht \<and> hst.ins_all ht xs = Some ht'
    \<and> ffhst_find cmpkey ht' h key param = Some (Some v)"
proof -
  from ffhst_init_ok [OF assms(1,2)] obtain ht where ht: "ffhst_init align True items = Some ht"
    "hst_ok ht" "hst_abs ht = {#}" "unat items < unat (nslots ht)" by blast
  have "length xs < unat (nslots ht)" using assms(3) ht(4) by linarith
  from hst.find_after_ins [where cmp = cmpkey, OF ht(2,3) this assms(4,5)] ht(1) show ?thesis by blast
qed

theorem ffhst_init_holds_items_witness:
  "\<exists>ht ht'. ffhst_init (align_from 56 1) True 3 = Some ht \<and> hst.ins_all ht [(1, 10), (1, 11), (5, 12)] = Some ht'
    \<and> ffhst_find (\<lambda>v k p. int v - k) ht' 1 11 () = Some (Some 11)"
  by (rule ffhst_init_holds_items [OF rounds_up_example]) auto

text \<open>
  In a full table, which ffhst_ins allows, ffhst_find for a key that is not stored never returns:
  the probing loop has no bound.
\<close>

theorem ffhst_find_full_diverges:
  assumes "hst_ok ht" and "hlen ht = nslots ht"
    and "\<forall>v. (hash, v) \<in># hst_abs ht \<longrightarrow> cmpkey v key param \<noteq> 0"
  shows "ffhst_find cmpkey ht hash key param = None"
proof (rule ccontr)
  assume "ffhst_find cmpkey ht hash key param \<noteq> None"
  then obtain res where r: "hst_find_loop (\<lambda>v. cmpkey v key param) ht hash (hst_slot ht hash) = Some res"
    by (auto simp: ffhst_find_def ffhst_find_el_def)
  have "length (filter (\<lambda>it. flags it \<noteq> 0) (hslots ht)) = nsl ht"
    using assms(1,2) by (simp add: hst_ok_def hst_abs_def flip: size_mset)
  then have "\<forall>it \<in> set (hslots ht). flags it \<noteq> 0"
    using length_filter_less [of _ "hslots ht" "\<lambda>it. flags it \<noteq> 0"] by fastforce
  moreover have "\<forall>it \<in> set (hslots ht). \<not> hits (\<lambda>v. cmpkey v key param) hash it"
    using assms(3) hits_abs [of ht "\<lambda>v. cmpkey v key param" hash] by blast
  ultimately have "\<not> unat (hst_slot ht hash) < nsl ht"
    using find_full_diverges [OF r] assms(1) by blast
  then show False using probe_lt [OF assms(1)] unat_hst_slot [OF assms(1)] by simp
qed

theorem ffhst_find_full_diverges_witness:
  "\<exists>ht. hst_ok ht \<and> hlen ht = 1 \<and> ffhst_find (\<lambda>v k p. int v - k) ht 5 9 () = None"
proof -
  have u: "unat (1 :: u64) = 2 ^ 0" by simp
  have "hlen (ex_table 1) < nslots (ex_table 1)" by simp
  from ffhst_ins_ok [OF ex_table_ok(1) [OF u] this, of 5 7] obtain ht where
    ht: "hst_ok ht" "hst_abs ht = {#(5, 7)#}" "nslots ht = 1" "hlen ht = 1"
    using ex_table_ok(2) [OF u] by auto
  have "ffhst_find (\<lambda>v k p. int v - k) ht 5 9 () = None"
    by (rule ffhst_find_full_diverges [OF ht(1)]) (simp_all add: ht)
  with ht show ?thesis by blast
qed

text \<open>
  ffhst_walk with a function that never stops it calls the function once for every stored value
  and for nothing else, and returns 0.
\<close>

theorem ffhst_walk_all:
  assumes "hst_ok ht" and "\<And>v s. snd (func v s) = 0"
  shows "\<exists>vs. mset vs = image_mset snd (hst_abs ht) \<and> ffhst_walk ht func s = (fold (\<lambda>v s. fst (func v s)) vs s, 0)"
proof -
  let ?b = "filter (\<lambda>it. flags it \<noteq> 0) (hslots ht)"
  have "ffhst_walk ht func s = (fold (\<lambda>it s. fst (func (ival it) s)) ?b s, 0)"
    using walk_loop_all [where func = func, OF assms(2)] hst_okD(4) [OF assms(1)] by (simp add: ffhst_walk_def)
  also have "fold (\<lambda>it s. fst (func (ival it) s)) ?b s = fold (\<lambda>v s. fst (func v s)) (map ival ?b) s"
    by (simp add: fold_map comp_def)
  finally show ?thesis
    by (intro exI [of _ "map ival ?b"]) (simp add: hst_abs_def image_mset.compositionality comp_def)
qed

theorem ffhst_walk_all_witness:
  "\<exists>vs. mset vs = image_mset snd (hst_abs (ex_table 2))
    \<and> ffhst_walk (ex_table 2) (\<lambda>v s. (s + v, 0)) 0 = (fold (\<lambda>v s. fst ((s + v, 0 :: int))) vs 0, 0)"
proof -
  have u: "unat (2 :: u64) = 2 ^ 1" by simp
  show ?thesis by (rule ffhst_walk_all [OF ex_table_ok(1) [OF u], where func = "\<lambda>v s. (s + v, 0)"]) simp_all
qed

end
