(* ===== verification/FF_Chain.thy ===== *)
theory FF_Chain
  imports FF_Prelude
begin

unbundle bit_operations_syntax

text \<open>
  The intrusive lists of \<open>FF/chain.h\<close>, \<open>FF/list.h\<close> and \<open>FF/fflist.c\<close> on an explicit store: the items'
  \<open>next\<close> and \<open>prev\<close> fields are maps from addresses, 0 is \<open>NULL\<close>. A list head is the address of its
  sentinel, whose two fields are the list's \<open>first\<close> and \<open>last\<close>.
\<close>

section \<open>Store and operations\<close>

type_synonym addr = nat

record heap =
  nxt :: "addr \<Rightarrow> addr"
  prv :: "addr \<Rightarrow> addr"

definition ffchain_init :: "addr \<Rightarrow> heap \<Rightarrow> heap" where
  "ffchain_init s h = h\<lparr>nxt := (nxt h)(s := s), prv := (prv h)(s := s)\<rparr>"

definition ffchain_empty :: "addr \<Rightarrow> heap \<Rightarrow> bool" where
  "ffchain_empty s h = (nxt h s = s)"

definition ffchain_link2 :: "addr \<Rightarrow> addr \<Rightarrow> heap \<Rightarrow> heap" where
  "ffchain_link2 l r h = h\<lparr>nxt := (nxt h)(l := r), prv := (prv h)(r := l)\<rparr>"

definition ffchain_append :: "addr \<Rightarrow> addr \<Rightarrow> heap \<Rightarrow> heap" where
  "ffchain_append item after h =
     (let h1 = ffchain_link2 item (nxt h after) h in ffchain_link2 after item h1)"

definition ffchain_prepend :: "addr \<Rightarrow> addr \<Rightarrow> heap \<Rightarrow> heap" where
  "ffchain_prepend item before h =
     (let h1 = ffchain_link2 (prv h before) item h in ffchain_link2 item before h1)"

definition ffchain_unlink :: "addr \<Rightarrow> heap \<Rightarrow> heap" where
  "ffchain_unlink item h =
     (let h1 = ffchain_link2 (prv h item) (nxt h item) h
      in h1\<lparr>nxt := (nxt h1)(item := 0), prv := (prv h1)(item := 0)\<rparr>)"

definition ffchain_split :: "addr \<Rightarrow> addr \<Rightarrow> heap \<Rightarrow> heap" where
  "ffchain_split it s h =
     (let h1 = h\<lparr>prv := (prv h)(nxt h it := s)\<rparr> in h1\<lparr>nxt := (nxt h1)(it := s)\<rparr>)"

definition ffchain_add :: "addr \<Rightarrow> addr \<Rightarrow> heap \<Rightarrow> heap" where
  "ffchain_add s item h = ffchain_append item (prv h s) h"

definition ffchain_addfront :: "addr \<Rightarrow> addr \<Rightarrow> heap \<Rightarrow> heap" where
  "ffchain_addfront s item h = ffchain_prepend item (nxt h s) h"

text \<open>The items met by \<open>FFCHAIN_WALK\<close> from an item up to the sentinel; \<open>None\<close> if it never ends.\<close>

partial_function (option) chain_walk :: "heap \<Rightarrow> addr \<Rightarrow> addr \<Rightarrow> addr list option" where
  "chain_walk h s it =
     (if it = s then Some []
      else Option.bind (chain_walk h s (nxt h it)) (\<lambda>its. Some (it # its)))"

definition FFCHAIN_WALK :: "heap \<Rightarrow> addr \<Rightarrow> addr list option" where
  "FFCHAIN_WALK h s = chain_walk h s (nxt h s)"

text \<open>\<open>fflist\<close>: the sentinel's address and the length, next to the store.\<close>

record fflist =
  head :: addr
  len :: nat

definition fflist_init :: "addr \<Rightarrow> heap \<Rightarrow> fflist \<times> heap" where
  "fflist_init s h = (\<lparr>head = s, len = 0\<rparr>, h\<lparr>nxt := (nxt h)(s := s), prv := (prv h)(s := s)\<rparr>)"

definition fflist_empty :: "fflist \<Rightarrow> heap \<Rightarrow> bool" where
  "fflist_empty l h = (nxt h (head l) = head l)"

definition fflist_exists :: "heap \<Rightarrow> addr \<Rightarrow> bool" where
  "fflist_exists h it = (nxt h it \<noteq> 0)"

definition fflist_ins :: "addr \<Rightarrow> fflist \<times> heap \<Rightarrow> fflist \<times> heap" where
  "fflist_ins it = (\<lambda>(l, h). (l\<lparr>len := len l + 1\<rparr>, ffchain_append it (prv h (head l)) h))"

definition fflist_prepend :: "addr \<Rightarrow> fflist \<times> heap \<Rightarrow> fflist \<times> heap" where
  "fflist_prepend it = (\<lambda>(l, h). (l\<lparr>len := len l + 1\<rparr>, ffchain_prepend it (nxt h (head l)) h))"

definition fflist_rm :: "addr \<Rightarrow> fflist \<times> heap \<Rightarrow> fflist \<times> heap" where
  "fflist_rm it = (\<lambda>(l, h). (l\<lparr>len := len l - 1\<rparr>, ffchain_unlink it h))"

definition fflist_movetofront :: "addr \<Rightarrow> fflist \<times> heap \<Rightarrow> fflist \<times> heap" where
  "fflist_movetofront it lh = fflist_prepend it (fflist_rm it lh)"

definition fflist_moveback :: "addr \<Rightarrow> fflist \<times> heap \<Rightarrow> fflist \<times> heap" where
  "fflist_moveback it lh = fflist_ins it (fflist_rm it lh)"

text \<open>\<open>fflist1\<close>: a stack linked through \<open>next\<close>; the list is the address of its first item.\<close>

definition fflist1_push :: "addr \<Rightarrow> addr \<times> heap \<Rightarrow> addr \<times> heap" where
  "fflist1_push it = (\<lambda>(f, h). (it, h\<lparr>nxt := (nxt h)(it := f)\<rparr>))"

definition fflist1_pop :: "addr \<times> heap \<Rightarrow> (addr \<times> heap) \<times> addr" where
  "fflist1_pop = (\<lambda>(f, h). if f = 0 then ((f, h), 0) else ((nxt h f, h), f))"

text \<open>The cursor commands and results (\<open>enum FFLIST_CUR\<close>).\<close>

definition CUR_SAME :: u32 where "CUR_SAME = 0"
definition CUR_NEXT :: u32 where "CUR_NEXT = 1"
definition CUR_PREV :: u32 where "CUR_PREV = 2"
definition CUR_RM :: u32 where "CUR_RM = 0x10"
definition CUR_RMPREV :: u32 where "CUR_RMPREV = 0x20"
definition CUR_RMNEXT :: u32 where "CUR_RMNEXT = 0x40"
definition CUR_RMFIRST :: u32 where "CUR_RMFIRST = 0x80"
definition CUR_BOUNCE :: u32 where "CUR_BOUNCE = 0x100"
definition CUR_SAMEIFBOUNCE :: u32 where "CUR_SAMEIFBOUNCE = 0x200"
definition CUR_NONEXT :: u32 where "CUR_NONEXT = 3"
definition CUR_NOPREV :: u32 where "CUR_NOPREV = 4"

lemmas cur_defs = CUR_SAME_def CUR_NEXT_def CUR_PREV_def CUR_RM_def CUR_RMPREV_def CUR_RMNEXT_def
  CUR_RMFIRST_def CUR_BOUNCE_def CUR_SAMEIFBOUNCE_def CUR_NONEXT_def CUR_NOPREV_def

abbreviation has :: "u32 \<Rightarrow> u32 \<Rightarrow> bool" where
  "has cmd f \<equiv> cmd AND f \<noteq> 0"

text \<open>Returns the store, the cursor and the result.\<close>

definition fflist_curshift :: "addr \<Rightarrow> u32 \<Rightarrow> addr \<Rightarrow> heap \<Rightarrow> heap \<times> addr \<times> u32" where
  "fflist_curshift c cmd s h0 =
     (let h1 = (if has cmd CUR_RMPREV then h0\<lparr>prv := (prv h0)(c := s)\<rparr> else h0);
          h = (if has cmd CUR_RMNEXT then h1\<lparr>nxt := (nxt h1)(c := s)\<rparr> else h1);
          (cur, r) =
            (if has cmd CUR_NEXT then
               if nxt h c \<noteq> s then (nxt h c, CUR_NEXT)
               else if cmd AND (CUR_BOUNCE OR CUR_SAMEIFBOUNCE) = (CUR_BOUNCE OR CUR_SAMEIFBOUNCE) then (c, CUR_SAME)
               else if has cmd CUR_BOUNCE \<and> prv h c \<noteq> s then (prv h c, CUR_PREV)
               else (c, CUR_NONEXT)
             else if has cmd CUR_PREV then
               if prv h c \<noteq> s then (prv h c, CUR_PREV) else (c, CUR_NOPREV)
             else (c, CUR_SAME));
          h' = (if has cmd CUR_RM \<or> (has cmd CUR_RMFIRST \<and> prv h c = s) then ffchain_unlink c h else h)
      in (h', cur, r))"

section \<open>Chains as lists\<close>

text \<open>\<open>a\<close>, the items \<open>xs\<close> and \<open>b\<close> are linked in both directions.\<close>

fun seg :: "heap \<Rightarrow> addr \<Rightarrow> addr list \<Rightarrow> addr \<Rightarrow> bool" where
  "seg h a [] b \<longleftrightarrow> nxt h a = b \<and> prv h b = a"
| "seg h a (x # xs) b \<longleftrightarrow> nxt h a = x \<and> prv h x = a \<and> seg h x xs b"

definition chain :: "heap \<Rightarrow> addr \<Rightarrow> addr list \<Rightarrow> bool" where
  "chain h s xs \<longleftrightarrow> seg h s xs s \<and> distinct (s # xs) \<and> 0 \<notin> set (s # xs)"

lemma seg_append: "seg h a (xs @ x # ys) b \<longleftrightarrow> seg h a xs x \<and> seg h x ys b"
  by (induction xs arbitrary: a) auto

lemma seg_frame:
  "(\<forall>y \<in> set (a # xs). nxt h' y = nxt h y) \<Longrightarrow> (\<forall>y \<in> set (xs @ [b]). prv h' y = prv h y) \<Longrightarrow>
    seg h' a xs b = seg h a xs b"
  by (induction xs arbitrary: a) auto

lemma seg_last: "seg h a xs b \<Longrightarrow> prv h b = last (a # xs)"
  by (induction xs arbitrary: a) auto

lemma seg_first: "seg h a xs b \<Longrightarrow> nxt h a = hd (xs @ [b])"
  by (cases xs) auto

text \<open>Both neighbours of a place are known, and a link there changes only this place.\<close>

lemma chain_split:
  assumes "chain h s (xs @ ys)"
  shows "seg h s xs (hd (ys @ [s]))" "seg h (last (s # xs)) ys s"
    "nxt h (last (s # xs)) = hd (ys @ [s])" "prv h (hd (ys @ [s])) = last (s # xs)"
proof -
  have seg: "seg h s (xs @ ys) s" using assms by (simp add: chain_def)
  show *: "seg h s xs (hd (ys @ [s]))"
    using seg by (cases ys) (simp_all add: seg_append)
  show **: "seg h (last (s # xs)) ys s"
  proof (cases xs rule: rev_cases)
    case Nil
    with seg show ?thesis by simp
  next
    case (snoc zs z)
    with seg have "seg h s (zs @ z # ys) s" by simp
    then have "seg h z ys s" unfolding seg_append by blast
    with snoc show ?thesis by simp
  qed
  show "prv h (hd (ys @ [s])) = last (s # xs)" by (rule seg_last [OF *])
  show "nxt h (last (s # xs)) = hd (ys @ [s])" by (rule seg_first [OF **])
qed

lemma chain_insert:
  assumes c: "chain h s (xs @ ys)" and new: "item \<notin> set (s # xs @ ys)" "item \<noteq> 0"
    and h': "h' = ffchain_link2 (last (s # xs)) item (ffchain_link2 item (hd (ys @ [s])) h)"
  shows "chain h' s (xs @ item # ys)"
proof -
  define a where "a = last (s # xs)"
  define b where "b = hd (ys @ [s])"
  note sp = chain_split [OF c, folded a_def b_def]
  have d: "distinct (s # xs @ ys)" using c by (simp add: chain_def)
  have a: "a \<in> set (s # xs)" unfolding a_def by (rule last_in_set) simp
  have b: "b \<in> set (ys @ [s])" unfolding b_def by (rule hd_in_set) simp
  have ne: "a \<noteq> item" "b \<noteq> item" using a b new(1) by auto
  have nx: "nxt h' = (nxt h)(item := b, a := item)" and pv: "prv h' = (prv h)(b := item, item := a)"
    by (simp_all add: h' ffchain_link2_def a_def b_def)
  have "seg h' s xs item"
  proof (cases xs rule: rev_cases)
    case Nil
    then have "a = s" by (simp add: a_def)
    with Nil ne show ?thesis by (simp add: nx pv)
  next
    case (snoc zs z)
    have az: "a = z" using snoc by (simp add: a_def)
    have s1: "seg h s zs z" using sp(1) unfolding snoc seg_append by simp
    have "seg h' s zs z = seg h s zs z"
    proof (rule seg_frame)
      show "\<forall>y \<in> set (s # zs). nxt h' y = nxt h y"
        using d new(1) unfolding nx az by (auto simp: snoc)
      show "\<forall>y \<in> set (zs @ [z]). prv h' y = prv h y"
        using d new(1) b unfolding pv by (auto simp: snoc)
    qed
    moreover have "seg h' z [] item" using ne by (simp add: nx pv az)
    ultimately show ?thesis using s1 unfolding snoc by (simp add: seg_append)
  qed
  moreover have "seg h' item ys s"
  proof (cases ys)
    case Nil
    then have "b = s" by (simp add: b_def)
    with Nil ne show ?thesis by (simp add: nx pv)
  next
    case (Cons y zs)
    have by': "b = y" using Cons by (simp add: b_def)
    have s2: "seg h y zs s" using sp(2) unfolding Cons by simp
    have "seg h' y zs s = seg h y zs s"
    proof (rule seg_frame)
      show "\<forall>x \<in> set (y # zs). nxt h' x = nxt h x"
        using d new(1) a unfolding nx by (auto simp: Cons)
      show "\<forall>x \<in> set (zs @ [s]). prv h' x = prv h x"
        using d new(1) unfolding pv by' by (auto simp: Cons)
    qed
    with s2 ne show ?thesis unfolding Cons by (simp add: nx pv by')
  qed
  ultimately have "seg h' s (xs @ item # ys) s" by (simp add: seg_append)
  with c new show ?thesis by (auto simp: chain_def)
qed

lemma chain_remove:
  assumes c: "chain h s (xs @ item # ys)"
  shows "chain (ffchain_unlink item h) s (xs @ ys)"
    and "nxt (ffchain_unlink item h) item = 0" and "prv (ffchain_unlink item h) item = 0"
proof -
  let ?h = "ffchain_unlink item h"
  define a where "a = last (s # xs)"
  define b where "b = hd (ys @ [s])"
  have seg: "seg h s xs item" "seg h item ys s"
    using c unfolding chain_def seg_append by blast+
  have d: "distinct (s # xs @ item # ys)" using c by (simp add: chain_def)
  have a: "a \<in> set (s # xs)" unfolding a_def by (rule last_in_set) simp
  have b: "b \<in> set (ys @ [s])" unfolding b_def by (rule hd_in_set) simp
  have ne: "a \<noteq> item" "b \<noteq> item" using a b d by auto
  have at: "prv h item = a" "nxt h item = b" unfolding a_def b_def by (rule seg_last [OF seg(1)], rule seg_first [OF seg(2)])
  have nx: "nxt ?h = (nxt h)(a := b, item := 0)" and pv: "prv ?h = (prv h)(b := a, item := 0)"
    by (simp_all add: ffchain_unlink_def ffchain_link2_def at)
  show "nxt ?h item = 0" "prv ?h item = 0" by (simp_all add: nx pv)
  have left: "seg ?h s xs b"
  proof (cases xs rule: rev_cases)
    case Nil
    then have "a = s" by (simp add: a_def)
    with Nil ne show ?thesis by (simp add: nx pv)
  next
    case (snoc zs z)
    have az: "a = z" using snoc by (simp add: a_def)
    have s1: "seg h s zs z" using seg(1) unfolding snoc by (simp add: seg_append)
    have "seg ?h s zs z = seg h s zs z"
    proof (rule seg_frame)
      show "\<forall>y \<in> set (s # zs). nxt ?h y = nxt h y" using d unfolding nx az by (auto simp: snoc)
      show "\<forall>y \<in> set (zs @ [z]). prv ?h y = prv h y" using d b unfolding pv by (auto simp: snoc)
    qed
    with s1 ne have "seg ?h s zs z" "seg ?h z [] b" by (simp_all add: nx pv az)
    then show ?thesis unfolding snoc by (simp add: seg_append)
  qed
  have "seg ?h s (xs @ ys) s"
  proof (cases ys)
    case Nil
    with left show ?thesis by (simp add: b_def)
  next
    case (Cons y zs)
    have by': "b = y" using Cons by (simp add: b_def)
    have s2: "seg h y zs s" using seg(2) unfolding Cons by simp
    have "seg ?h y zs s = seg h y zs s"
    proof (rule seg_frame)
      show "\<forall>x \<in> set (y # zs). nxt ?h x = nxt h x" using d a unfolding nx by (auto simp: Cons)
      show "\<forall>x \<in> set (zs @ [s]). prv ?h x = prv h x" using d unfolding pv by' by (auto simp: Cons)
    qed
    with s2 left show ?thesis unfolding Cons by (simp add: seg_append by')
  qed
  with c show "chain ?h s (xs @ ys)" by (auto simp: chain_def)
qed

lemma chain_append:
  assumes "chain h s (xs @ ys)" and "item \<notin> set (s # xs @ ys)" and "item \<noteq> 0"
  shows "chain (ffchain_append item (last (s # xs)) h) s (xs @ item # ys)"
  by (rule chain_insert [OF assms]) (simp only: ffchain_append_def Let_def chain_split [OF assms(1)])

lemma chain_prepend:
  assumes "chain h s (xs @ ys)" and "item \<notin> set (s # xs @ ys)" and "item \<noteq> 0"
  shows "chain (ffchain_prepend item (hd (ys @ [s])) h) s (xs @ item # ys)"
proof (rule chain_insert [OF assms])
  have "hd (ys @ [s]) \<in> set (ys @ [s])" "last (s # xs) \<in> set (s # xs)" by (rule hd_in_set, simp, rule last_in_set, simp)
  then have "hd (ys @ [s]) \<noteq> item" "last (s # xs) \<noteq> item" using assms(2) by auto
  then show "ffchain_prepend item (hd (ys @ [s])) h
      = ffchain_link2 (last (s # xs)) item (ffchain_link2 item (hd (ys @ [s])) h)"
    unfolding ffchain_prepend_def Let_def chain_split [OF assms(1)] ffchain_link2_def
    by (simp add: fun_upd_twist)
qed

lemma chain_init: "s \<noteq> 0 \<Longrightarrow> chain (ffchain_init s h) s []"
  by (simp add: chain_def ffchain_init_def)

lemma chain_empty: "chain h s xs \<Longrightarrow> ffchain_empty s h \<longleftrightarrow> xs = []"
  by (cases xs) (auto simp: chain_def ffchain_empty_def)

lemma chain_add:
  "chain h s xs \<Longrightarrow> item \<notin> set (s # xs) \<Longrightarrow> item \<noteq> 0 \<Longrightarrow> chain (ffchain_add s item h) s (xs @ [item])"
  using chain_append [of h s xs "[]" item] chain_split(4) [of h s xs "[]"]
  by (simp add: ffchain_add_def del: last.simps)

lemma chain_addfront:
  "chain h s xs \<Longrightarrow> item \<notin> set (s # xs) \<Longrightarrow> item \<noteq> 0 \<Longrightarrow> chain (ffchain_addfront s item h) s (item # xs)"
  using chain_prepend [of h s "[]" xs item] chain_split(3) [of h s "[]" xs]
  by (simp add: ffchain_addfront_def)

lemma walk_seg:
  "seg h a xs s \<Longrightarrow> s \<notin> set xs \<Longrightarrow> chain_walk h s (nxt h a) = Some xs"
  by (induction xs arbitrary: a) (subst chain_walk.simps, simp)+

lemma walk_chain: "chain h s xs \<Longrightarrow> FFCHAIN_WALK h s = Some xs"
  using walk_seg by (auto simp: chain_def FFCHAIN_WALK_def)

section \<open>The list contract\<close>

text \<open>A list on the store: the items in order, and \<open>len\<close> counts them.\<close>

definition list_ok :: "fflist \<times> heap \<Rightarrow> addr list \<Rightarrow> bool" where
  "list_ok lh xs \<longleftrightarrow> chain (snd lh) (head (fst lh)) xs \<and> len (fst lh) = length xs"

abbreviation fresh :: "fflist \<times> heap \<Rightarrow> addr list \<Rightarrow> addr \<Rightarrow> bool" where
  "fresh lh xs it \<equiv> it \<noteq> 0 \<and> it \<noteq> head (fst lh) \<and> it \<notin> set xs"

lemma fflist_head [simp]:
  "head (fst (fflist_ins it lh)) = head (fst lh)" "head (fst (fflist_prepend it lh)) = head (fst lh)"
  "head (fst (fflist_rm it lh)) = head (fst lh)"
  by (simp_all add: fflist_ins_def fflist_prepend_def fflist_rm_def split: prod.splits)

locale intrusive_list =
  fixes push_back push_front remove :: "addr \<Rightarrow> 'l \<Rightarrow> 'l"
    and rep :: "'l \<Rightarrow> addr list \<Rightarrow> bool" and new :: "'l \<Rightarrow> addr list \<Rightarrow> addr \<Rightarrow> bool"
  assumes back_law: "rep l xs \<Longrightarrow> new l xs it \<Longrightarrow> rep (push_back it l) (xs @ [it])"
    and front_law: "rep l xs \<Longrightarrow> new l xs it \<Longrightarrow> rep (push_front it l) (it # xs)"
    and remove_law: "rep l (xs @ it # ys) \<Longrightarrow> rep (remove it l) (xs @ ys) \<and> new (remove it l) (xs @ ys) it"
begin

lemma move_to_front: "rep l (xs @ it # ys) \<Longrightarrow> rep (push_front it (remove it l)) (it # xs @ ys)"
  using remove_law front_law by blast

lemma move_to_back: "rep l (xs @ it # ys) \<Longrightarrow> rep (push_back it (remove it l)) (xs @ ys @ [it])"
  using remove_law [of l xs it ys] back_law [of "remove it l" "xs @ ys" it] by simp

lemma remove_back: "rep l xs \<Longrightarrow> new l xs it \<Longrightarrow> rep (remove it (push_back it l)) xs"
  using back_law [of l xs it] remove_law [of "push_back it l" xs it "[]"] by simp

lemma remove_front: "rep l xs \<Longrightarrow> new l xs it \<Longrightarrow> rep (remove it (push_front it l)) xs"
  using front_law [of l xs it] remove_law [of "push_front it l" "[]" it xs] by simp

end

interpretation fl: intrusive_list fflist_ins fflist_prepend fflist_rm list_ok fresh
proof unfold_locales
  fix l xs it
  assume "list_ok l xs" "fresh l xs it"
  then show "list_ok (fflist_ins it l) (xs @ [it])"
    using chain_add [of "snd l" "head (fst l)" xs it]
    by (cases l) (simp add: list_ok_def fflist_ins_def ffchain_add_def)
next
  fix l xs it
  assume "list_ok l xs" "fresh l xs it"
  then show "list_ok (fflist_prepend it l) (it # xs)"
    using chain_addfront [of "snd l" "head (fst l)" xs it]
    by (cases l) (simp add: list_ok_def fflist_prepend_def ffchain_addfront_def)
next
  fix l xs it ys
  assume a: "list_ok l (xs @ it # ys)"
  then have c: "chain (snd l) (head (fst l)) (xs @ it # ys)" by (simp add: list_ok_def)
  have "fresh (fflist_rm it l) (xs @ ys) it" using c by (auto simp: chain_def)
  then show "list_ok (fflist_rm it l) (xs @ ys) \<and> fresh (fflist_rm it l) (xs @ ys) it"
    using chain_remove(1) [OF c] a by (cases l) (simp add: list_ok_def fflist_rm_def)
qed

section \<open>The cursor\<close>

lemma chain_nth_next:
  assumes "chain h s xs" and "i < length xs"
  shows "nxt h (xs ! i) = (if Suc i < length xs then xs ! Suc i else s)"
    and "prv h (xs ! i) = (if i = 0 then s else xs ! (i - 1))"
proof -
  have e: "xs = take i xs @ xs ! i # drop (Suc i) xs" using assms(2) by (rule id_take_nth_drop)
  then have s: "seg h s (take i xs) (xs ! i)" "seg h (xs ! i) (drop (Suc i) xs) s"
    using assms(1) unfolding chain_def by (metis seg_append)+
  show "nxt h (xs ! i) = (if Suc i < length xs then xs ! Suc i else s)"
    using seg_first [OF s(2)] by (auto simp: hd_append hd_drop_conv_nth)
  show "prv h (xs ! i) = (if i = 0 then s else xs ! (i - 1))"
    using seg_last [OF s(1)] assms(2) by (cases i) (auto simp: take_Suc_conv_app_nth)
qed

lemma chain_nth_ne: "chain h s xs \<Longrightarrow> i < length xs \<Longrightarrow> xs ! i \<noteq> s"
  by (auto simp: chain_def)

lemma cursor_moves:
  assumes "chain h s (xs @ c # ys)"
  shows "fflist_curshift c CUR_NEXT s h = (if ys = [] then (h, c, CUR_NONEXT) else (h, hd ys, CUR_NEXT))"
    and "fflist_curshift c (CUR_NEXT OR CUR_BOUNCE) s h
      = (if ys \<noteq> [] then (h, hd ys, CUR_NEXT) else if xs = [] then (h, c, CUR_NONEXT) else (h, last xs, CUR_PREV))"
    and "fflist_curshift c (CUR_NEXT OR CUR_BOUNCE OR CUR_SAMEIFBOUNCE) s h
      = (if ys = [] then (h, c, CUR_SAME) else (h, hd ys, CUR_NEXT))"
    and "fflist_curshift c CUR_PREV s h = (if xs = [] then (h, c, CUR_NOPREV) else (h, last xs, CUR_PREV))"
    and "(case fflist_curshift c (CUR_NEXT OR CUR_RM) s h of (h', cur, r) \<Rightarrow>
      chain h' s (xs @ ys) \<and> cur = (if ys = [] then c else hd ys) \<and> r = (if ys = [] then CUR_NONEXT else CUR_NEXT))"
proof -
  have seg: "seg h s xs c" "seg h c ys s" using assms unfolding chain_def seg_append by blast+
  have d: "s \<notin> set (xs @ c # ys)" using assms by (auto simp: chain_def)
  have n: "nxt h c = (if ys = [] then s else hd ys)" "prv h c = (if xs = [] then s else last xs)"
    using seg_first [OF seg(2)] seg_last [OF seg(1)] by auto
  have ne: "ys \<noteq> [] \<Longrightarrow> hd ys \<noteq> s" "xs \<noteq> [] \<Longrightarrow> last xs \<noteq> s" using d by auto
  show "fflist_curshift c CUR_NEXT s h = (if ys = [] then (h, c, CUR_NONEXT) else (h, hd ys, CUR_NEXT))"
    "fflist_curshift c (CUR_NEXT OR CUR_BOUNCE) s h
      = (if ys \<noteq> [] then (h, hd ys, CUR_NEXT) else if xs = [] then (h, c, CUR_NONEXT) else (h, last xs, CUR_PREV))"
    "fflist_curshift c (CUR_NEXT OR CUR_BOUNCE OR CUR_SAMEIFBOUNCE) s h
      = (if ys = [] then (h, c, CUR_SAME) else (h, hd ys, CUR_NEXT))"
    "fflist_curshift c CUR_PREV s h = (if xs = [] then (h, c, CUR_NOPREV) else (h, last xs, CUR_PREV))"
    using ne by (simp_all add: fflist_curshift_def Let_def n cur_defs)
  show "(case fflist_curshift c (CUR_NEXT OR CUR_RM) s h of (h', cur, r) \<Rightarrow>
      chain h' s (xs @ ys) \<and> cur = (if ys = [] then c else hd ys) \<and> r = (if ys = [] then CUR_NONEXT else CUR_NEXT))"
    using ne chain_remove(1) [OF assms] by (simp add: fflist_curshift_def Let_def n cur_defs)
qed

section \<open>The stack\<close>

fun stack :: "heap \<Rightarrow> addr \<Rightarrow> addr list \<Rightarrow> bool" where
  "stack h f [] \<longleftrightarrow> f = 0"
| "stack h f (x # xs) \<longleftrightarrow> f = x \<and> x \<noteq> 0 \<and> x \<notin> set xs \<and> stack h (nxt h x) xs"

lemma stack_frame: "x \<notin> set xs \<Longrightarrow> stack (h\<lparr>nxt := (nxt h)(x := y)\<rparr>) f xs = stack h f xs"
  by (induction xs arbitrary: f) auto

lemma stack_push:
  "stack h f xs \<Longrightarrow> it \<noteq> 0 \<Longrightarrow> it \<notin> set xs \<Longrightarrow>
    stack (snd (fflist1_push it (f, h))) (fst (fflist1_push it (f, h))) (it # xs)"
  by (simp add: fflist1_push_def stack_frame)

lemma stack_pop:
  "stack h f (x # xs) \<Longrightarrow> fflist1_pop (f, h) = ((nxt h x, h), x) \<and> stack h (nxt h x) xs"
  "stack h f [] \<Longrightarrow> fflist1_pop (f, h) = ((0, h), 0)"
  by (simp_all add: fflist1_pop_def)

section \<open>Properties\<close>

text \<open>
  C12: The list operations implement a sequence: fflist_ins appends, fflist_prepend puts in front,
  fflist_rm takes the item out wherever it stands, fflist_movetofront and fflist_moveback move it; all
  keep the links and the length right, and a removed item is marked as in no list.
\<close>

theorem fflist_refines_list:
  assumes "list_ok lh (xs @ it # ys)" and "fresh lh (xs @ it # ys) n"
  shows "list_ok (fflist_ins n lh) (xs @ it # ys @ [n]) \<and> list_ok (fflist_prepend n lh) (n # xs @ it # ys)
    \<and> list_ok (fflist_rm it lh) (xs @ ys) \<and> \<not> fflist_exists (snd (fflist_rm it lh)) it
    \<and> list_ok (fflist_movetofront it lh) (it # xs @ ys) \<and> list_ok (fflist_moveback it lh) (xs @ ys @ [it])"
proof -
  have c: "chain (snd lh) (head (fst lh)) (xs @ it # ys)" using assms(1) by (simp add: list_ok_def)
  have "\<not> fflist_exists (snd (fflist_rm it lh)) it"
    using chain_remove(2) [OF c] by (cases lh) (simp add: fflist_exists_def fflist_rm_def)
  then show ?thesis
    using fl.back_law [OF assms] fl.front_law [OF assms] fl.remove_law [OF assms(1)]
      fl.move_to_front [OF assms(1)] fl.move_to_back [OF assms(1)]
    by (simp add: fflist_movetofront_def fflist_moveback_def)
qed

definition ex_list :: "fflist \<times> heap" where
  "ex_list = fflist_ins 2 (fflist_ins 1 (fflist_init 9 \<lparr>nxt = (\<lambda>_. 0), prv = (\<lambda>_. 0)\<rparr>))"

lemma ex_list_ok: "list_ok ex_list ([] @ 1 # [2])" "head (fst ex_list) = 9"
proof -
  show "head (fst ex_list) = 9" by (simp add: ex_list_def fflist_init_def)
  have "list_ok (fflist_init 9 \<lparr>nxt = (\<lambda>_. 0), prv = (\<lambda>_. 0)\<rparr>) []"
    by (simp add: list_ok_def fflist_init_def chain_def)
  from fl.back_law [OF this, of 1] have "list_ok (fflist_ins 1 (fflist_init 9 \<lparr>nxt = (\<lambda>_. 0), prv = (\<lambda>_. 0)\<rparr>)) [1]"
    by (simp add: fflist_init_def)
  from fl.back_law [OF this, of 2] show "list_ok ex_list ([] @ 1 # [2])"
    by (simp add: fflist_init_def ex_list_def)
qed

theorem fflist_refines_list_witness:
  "list_ok (fflist_moveback 1 ex_list) [2, 1] \<and> list_ok (fflist_prepend 3 ex_list) [3, 1, 2]"
  using fflist_refines_list [OF ex_list_ok(1), of 3] ex_list_ok(2) by simp

text \<open>
  C16: Walking a chain from its sentinel (FFCHAIN_WALK) ends and meets its items in order; and appending
  an item to it makes the walk end with that item.
\<close>

theorem chain_walk_items:
  assumes "chain h s xs"
  shows "FFCHAIN_WALK h s = Some xs
    \<and> (item \<noteq> 0 \<and> item \<notin> set (s # xs) \<longrightarrow> FFCHAIN_WALK (ffchain_add s item h) s = Some (xs @ [item]))"
  using walk_chain [OF assms] walk_chain [OF chain_add [OF assms]] by blast

theorem chain_walk_items_witness:
  "FFCHAIN_WALK (ffchain_add 9 5 (ffchain_init 9 \<lparr>nxt = (\<lambda>_. 0), prv = (\<lambda>_. 0)\<rparr>)) 9 = Some [5]"
  using chain_walk_items [OF chain_init, of 9 _ 5] by simp

text \<open>
  The cursor moves as its commands say: on item i of a list, CUR_NEXT goes to item i+1, or at the end
  returns CUR_NONEXT and stays, goes back one with CUR_BOUNCE if it can, or stays with CUR_SAME when
  CUR_SAMEIFBOUNCE is given too; CUR_PREV goes to item i-1 or returns CUR_NOPREV; adding CUR_RM also
  takes item i out of the list.
\<close>

theorem fflist_curshift_moves:
  assumes "chain h s (xs @ c # ys)"
  shows "fflist_curshift c CUR_NEXT s h = (if ys = [] then (h, c, CUR_NONEXT) else (h, hd ys, CUR_NEXT))
    \<and> fflist_curshift c (CUR_NEXT OR CUR_BOUNCE) s h
      = (if ys \<noteq> [] then (h, hd ys, CUR_NEXT) else if xs = [] then (h, c, CUR_NONEXT) else (h, last xs, CUR_PREV))
    \<and> fflist_curshift c (CUR_NEXT OR CUR_BOUNCE OR CUR_SAMEIFBOUNCE) s h
      = (if ys = [] then (h, c, CUR_SAME) else (h, hd ys, CUR_NEXT))
    \<and> fflist_curshift c CUR_PREV s h = (if xs = [] then (h, c, CUR_NOPREV) else (h, last xs, CUR_PREV))
    \<and> (case fflist_curshift c (CUR_NEXT OR CUR_RM) s h of (h', cur, r) \<Rightarrow>
      chain h' s (xs @ ys) \<and> cur = (if ys = [] then c else hd ys) \<and> r = (if ys = [] then CUR_NONEXT else CUR_NEXT))"
  by (intro conjI cursor_moves [OF assms])

theorem fflist_curshift_moves_witness:
  "fflist_curshift 1 CUR_NEXT 9 (snd ex_list) = (snd ex_list, 2, CUR_NEXT)"
proof -
  have "chain (snd ex_list) 9 ([] @ 1 # [2])" using ex_list_ok by (simp add: list_ok_def)
  from fflist_curshift_moves [OF this] show ?thesis by simp
qed

end
