(* ===== verification/FF_Array.thy ===== *)
theory FF_Array
  imports FF_Number
begin

unbundle bit_operations_syntax

text \<open>
  The growable array \<open>ffarr\<close> of \<open>FF/array.h\<close> and \<open>FF/ffarray.c\<close>, on bytes. \<open>mem\<close> is the memory
  that starts at \<open>ptr\<close>: the whole allocated block when \<open>cap\<close> is not 0, the rest of the
  foreign region when \<open>cap\<close> is 0 (a pointing buffer). \<open>NULL\<close> is the empty list. Counts are natural numbers:
  products with the element size are taken not to exceed \<open>size_t\<close>. \<open>ffmem_realloc\<close> belongs to
  the platform layer: it is the argument \<open>ra\<close>, from the old block and the size in bytes to
  the new block, \<open>None\<close> for \<open>NULL\<close>.
\<close>

section \<open>State and operations\<close>

record ffarr =
  mem :: bytes
  alen :: nat
  acap :: nat

type_synonym realloc = "bytes \<Rightarrow> nat \<Rightarrow> bytes option"

definition ffarr_null :: ffarr where
  "ffarr_null = \<lparr>mem = [], alen = 0, acap = 0\<rparr>"

definition ffarr_set :: "bytes \<Rightarrow> nat \<Rightarrow> ffarr \<Rightarrow> ffarr" where
  "ffarr_set d n ar = ar\<lparr>mem := d, alen := n\<rparr>"

definition ffarr_shift :: "nat \<Rightarrow> ffarr \<Rightarrow> ffarr" where
  "ffarr_shift by' ar = ar\<lparr>mem := drop by' (mem ar), alen := alen ar - by'\<rparr>"

definition ffarr_acq :: "ffarr \<Rightarrow> ffarr \<times> ffarr" where
  "ffarr_acq src = (src, src\<lparr>acap := 0\<rparr>)"

definition ffarr_unused :: "ffarr \<Rightarrow> nat" where
  "ffarr_unused ar = acap ar - alen ar"

definition ffarr_isfull :: "ffarr \<Rightarrow> bool" where
  "ffarr_isfull ar = (alen ar = acap ar)"

text \<open>The flag is false where the code returns \<open>NULL\<close>.\<close>

definition ffarr_realloc :: "realloc \<Rightarrow> nat \<Rightarrow> ffarr \<Rightarrow> nat \<Rightarrow> ffarr \<times> bool" where
  "ffarr_realloc ra elsz ar newlen0 =
     (let newlen = (if newlen0 = 0 then 1 else newlen0) in
      if acap ar \<noteq> 0 \<and> acap ar \<ge> newlen then (ar, True)
      else
        let (ar1, d) =
              (if acap ar \<noteq> 0 then if alen ar = 0 then (ffarr_null, []) else (ar, mem ar)
               else (ar, []))
        in case ra d (newlen * elsz) of
             None \<Rightarrow> (ar1, False)
           | Some d1 \<Rightarrow>
               let d2 = (if acap ar1 = 0 \<and> alen ar1 \<noteq> 0
                         then put_at d1 0 (take (min (alen ar1) newlen) (mem ar1)) else d1)
               in (\<lparr>mem = d2, alen = min (alen ar1) newlen, acap = newlen\<rparr>, True))"

definition ffarr_alloc :: "realloc \<Rightarrow> nat \<Rightarrow> nat \<Rightarrow> ffarr \<times> bool" where
  "ffarr_alloc ra elsz n = ffarr_realloc ra elsz ffarr_null n"

definition ffarr_allocz :: "realloc \<Rightarrow> nat \<Rightarrow> nat \<Rightarrow> ffarr \<times> bool" where
  "ffarr_allocz ra elsz n =
     (let (ar, ok) = ffarr_alloc ra elsz n in
      if ok then (ar\<lparr>mem := put_at (mem ar) 0 (replicate (n * elsz) 0)\<rparr>, True) else (ar, False))"

definition FFARR_GROWQUARTER :: u64 where "FFARR_GROWQUARTER = 0x80000000"

definition ffarr_grow :: "realloc \<Rightarrow> nat \<Rightarrow> ffarr \<Rightarrow> nat \<Rightarrow> u64 \<Rightarrow> ffarr \<times> bool" where
  "ffarr_grow ra elsz ar by' lowat0 =
     (let newcap = alen ar + by' in
      if acap ar \<ge> newcap then (ar, True)
      else
        let lowat = (if lowat0 AND FFARR_GROWQUARTER \<noteq> 0
              then max (unat (lowat0 AND 0x7FFFFFFF)) (newcap div 4) else unat lowat0)
        in ffarr_realloc ra elsz ar (alen ar + max lowat by'))"

definition ffarr_free :: "ffarr \<Rightarrow> ffarr" where
  "ffarr_free ar = \<lparr>mem = [], alen = 0, acap = 0\<rparr>"

text \<open>The result of a push is the index of the new element's first byte.\<close>

definition ffarr_push :: "realloc \<Rightarrow> nat \<Rightarrow> ffarr \<Rightarrow> ffarr \<times> nat option" where
  "ffarr_push ra elsz ar =
     (let (ar1, ok) = (if acap ar < alen ar + 1 then ffarr_realloc ra elsz ar (alen ar + 1) else (ar, True)) in
      if \<not> ok then (ar1, None)
      else (ar1\<lparr>alen := alen ar1 + 1\<rparr>, Some (alen ar1 * elsz)))"

definition ffarr_pushgrow :: "realloc \<Rightarrow> nat \<Rightarrow> ffarr \<Rightarrow> u64 \<Rightarrow> ffarr \<times> nat option" where
  "ffarr_pushgrow ra elsz ar lowat =
     (let (ar1, ok) = ffarr_grow ra elsz ar 1 lowat in
      if \<not> ok then (ar1, None)
      else (ar1\<lparr>alen := alen ar1 + 1\<rparr>, Some (alen ar1 * elsz)))"

text \<open>\<open>src\<close> holds \<open>num\<close> elements.\<close>

definition ffarr_append :: "realloc \<Rightarrow> nat \<Rightarrow> ffarr \<Rightarrow> bytes \<Rightarrow> nat \<Rightarrow> ffarr \<times> bool" where
  "ffarr_append ra elsz ar src num =
     (let (ar1, ok) = (if acap ar < alen ar + num then ffarr_realloc ra elsz ar (alen ar + num) else (ar, True)) in
      if \<not> ok then (ar1, False)
      else (ar1\<lparr>mem := put_at (mem ar1) (alen ar1 * elsz) (take (num * elsz) src), alen := alen ar1 + num\<rparr>, True))"

definition ffarr_copy :: "realloc \<Rightarrow> nat \<Rightarrow> ffarr \<Rightarrow> bytes \<Rightarrow> nat \<Rightarrow> ffarr \<times> bool" where
  "ffarr_copy ra elsz ar src num = ffarr_append ra elsz (ar\<lparr>alen := 0\<rparr>) src num"

definition ffarr_copyself :: "realloc \<Rightarrow> nat \<Rightarrow> ffarr \<Rightarrow> ffarr" where
  "ffarr_copyself ra elsz ar =
     (if acap ar = 0 \<and> alen ar \<noteq> 0 then fst (ffarr_realloc ra elsz ar (alen ar)) else ar)"

text \<open>\<open>memmove\<close> within the block: the source is read before it is written.\<close>

definition move_in :: "bytes \<Rightarrow> nat \<Rightarrow> nat \<Rightarrow> nat \<Rightarrow> bytes" where
  "move_in m dst src n = put_at m dst (take n (drop src m))"

definition ffarr_rm :: "ffarr \<Rightarrow> nat \<Rightarrow> nat \<Rightarrow> nat \<Rightarrow> ffarr" where
  "ffarr_rm ar off n elsz =
     (if off + n = alen ar then ar\<lparr>alen := alen ar - n\<rparr>
      else if acap ar = 0 then
        if off \<noteq> 0 then ar
        else ar\<lparr>mem := drop (n * elsz) (mem ar), alen := alen ar - n\<rparr>
      else ar\<lparr>mem := move_in (mem ar) (off * elsz) ((off + n) * elsz) ((alen ar - off - n) * elsz),
              alen := alen ar - n\<rparr>)"

definition ffarr_rmleft :: "ffarr \<Rightarrow> nat \<Rightarrow> nat \<Rightarrow> ffarr" where
  "ffarr_rmleft ar n elsz = ffarr_rm ar 0 n elsz"

text \<open>\<open>el\<close> is the index of the element that the pointer names.\<close>

definition ffarr_rmswap :: "ffarr \<Rightarrow> nat \<Rightarrow> nat \<Rightarrow> ffarr" where
  "ffarr_rmswap ar el elsz =
     (let len = alen ar - 1 in
      ar\<lparr>mem := (if el \<noteq> len then move_in (mem ar) (el * elsz) (len * elsz) elsz else mem ar), alen := len\<rparr>)"

definition ffarr_shiftr :: "ffarr \<Rightarrow> nat \<Rightarrow> nat \<Rightarrow> nat \<Rightarrow> ffarr" where
  "ffarr_shiftr ar i n elsz =
     ar\<lparr>mem := move_in (mem ar) ((i + n) * elsz) (i * elsz) (alen ar * elsz - i * elsz)\<rparr>"

definition ffarr_rmshift_i :: "ffarr \<Rightarrow> nat \<Rightarrow> nat \<Rightarrow> nat \<Rightarrow> ffarr" where
  "ffarr_rmshift_i ar i n elsz =
     ar\<lparr>mem := move_in (mem ar) (i * elsz) ((i + n) * elsz) (alen ar * elsz - (i + n) * elsz), alen := alen ar - n\<rparr>"

definition ffarr_crop :: "ffarr \<Rightarrow> nat \<Rightarrow> nat \<Rightarrow> nat \<Rightarrow> ffarr" where
  "ffarr_crop ar off n elsz =
     (let m = (if off \<noteq> 0 then
                 if acap ar \<noteq> 0 then move_in (mem ar) 0 (off * elsz) (n * elsz)
                 else drop (off + elsz) (mem ar)
               else mem ar)
      in ar\<lparr>mem := m, alen := n\<rparr>)"

section \<open>Contents\<close>

definition arr_ok :: "nat \<Rightarrow> ffarr \<Rightarrow> bool" where
  "arr_ok elsz ar \<longleftrightarrow> 0 < elsz \<and> alen ar * elsz \<le> length (mem ar)
     \<and> (acap ar \<noteq> 0 \<longrightarrow> length (mem ar) = acap ar * elsz \<and> alen ar \<le> acap ar)"

definition view :: "nat \<Rightarrow> ffarr \<Rightarrow> bytes" where
  "view elsz ar = take (alen ar * elsz) (mem ar)"

text \<open>What the code relies on of \<open>ffmem_realloc\<close>: the size asked for, and the old contents kept.\<close>

definition realloc_ok :: "realloc \<Rightarrow> bool" where
  "realloc_ok ra \<longleftrightarrow> (\<forall>d n d'. ra d n = Some d' \<longrightarrow> length d' = n \<and> take (min (length d) n) d' = take n d)"

lemma length_view: "arr_ok elsz ar \<Longrightarrow> length (view elsz ar) = alen ar * elsz"
  by (simp add: arr_ok_def view_def)

lemma null_ok [simp]: "0 < elsz \<Longrightarrow> arr_ok elsz ffarr_null" "view elsz ffarr_null = []"
  by (simp_all add: arr_ok_def view_def ffarr_null_def)

lemma alloc_cap: "arr_ok elsz ar \<Longrightarrow> alen ar \<noteq> 0 \<Longrightarrow> acap ar \<noteq> 0 \<Longrightarrow> alen ar \<le> acap ar"
  by (simp add: arr_ok_def)

text \<open>A pointing buffer of elements of one byte, or an allocated buffer, keeps its contents.\<close>

lemma realloc_spec:
  assumes ra: "realloc_ok ra" and ok: "arr_ok elsz ar" and kind: "acap ar \<noteq> 0 \<or> alen ar = 0 \<or> elsz = 1"
    and r: "ffarr_realloc ra elsz ar newlen = (ar', True)"
  shows "arr_ok elsz ar'" and "newlen \<le> acap ar'" and "acap ar' \<noteq> 0"
    and "alen ar \<le> newlen \<Longrightarrow> view elsz ar' = view elsz ar \<and> alen ar' = alen ar"
proof -
  define n where "n = (if newlen = 0 then 1 else newlen)"
  have n: "0 < n" "newlen \<le> n" by (auto simp: n_def)
  have el: "0 < elsz" using ok by (simp add: arr_ok_def)
  have "arr_ok elsz ar' \<and> newlen \<le> acap ar' \<and> acap ar' \<noteq> 0
    \<and> (alen ar \<le> newlen \<longrightarrow> view elsz ar' = view elsz ar \<and> alen ar' = alen ar)"
  proof (cases "acap ar \<noteq> 0 \<and> acap ar \<ge> n")
    case True
    then have "ar' = ar" using r by (simp add: ffarr_realloc_def n_def Let_def split: if_splits)
    with True ok n show ?thesis by simp
  next
    case grow: False
    show ?thesis
    proof (cases "acap ar \<noteq> 0 \<and> alen ar \<noteq> 0")
      case True
      then obtain d where d: "ra (mem ar) (n * elsz) = Some d" "ar' = \<lparr>mem = d, alen = min (alen ar) n, acap = n\<rparr>"
        using r grow by (auto simp: ffarr_realloc_def n_def [symmetric] Let_def split: option.splits if_splits)
      have d': "length d = n * elsz" "take (min (length (mem ar)) (n * elsz)) d = take (n * elsz) (mem ar)"
        using ra d(1) unfolding realloc_ok_def by blast+
      have "alen ar \<le> acap ar" "length (mem ar) = acap ar * elsz" using True ok by (auto simp: arr_ok_def)
      moreover have "acap ar < n" using grow True by simp
      ultimately have k: "alen ar \<le> n" "alen ar * elsz \<le> length (mem ar)" "length (mem ar) \<le> n * elsz" by simp_all
      then have m: "min (length (mem ar)) (n * elsz) = length (mem ar)" by simp
      have "take (alen ar * elsz) d = take (alen ar * elsz) (take (length (mem ar)) d)"
        using k(2) by (simp add: min_absorb1)
      also have "\<dots> = take (alen ar * elsz) (mem ar)"
        using d'(2) k(2,3) unfolding m by simp
      finally have v: "take (alen ar * elsz) d = take (alen ar * elsz) (mem ar)" .
      with d(2) d'(1) k n el show ?thesis by (auto simp: arr_ok_def view_def min_absorb1)
    next
      case False
      show ?thesis
      proof (cases "acap ar \<noteq> 0")
        case True
        with False have "alen ar = 0" by simp
        with True obtain d where d: "ra [] (n * elsz) = Some d" "ar' = \<lparr>mem = d, alen = 0, acap = n\<rparr>"
          using r grow
          by (auto simp: ffarr_realloc_def n_def [symmetric] Let_def ffarr_null_def split: option.splits if_splits)
        have "length d = n * elsz" using ra d(1) unfolding realloc_ok_def by blast
        with d(2) n el \<open>alen ar = 0\<close> show ?thesis by (simp add: arr_ok_def view_def)
      next
        case c: False
        then obtain d where d: "ra [] (n * elsz) = Some d"
          "ar' = \<lparr>mem = (if alen ar \<noteq> 0 then put_at d 0 (take (min (alen ar) n) (mem ar)) else d),
            alen = min (alen ar) n, acap = n\<rparr>"
          using r by (auto simp: ffarr_realloc_def n_def [symmetric] Let_def split: option.splits if_splits)
        have l: "length d = n * elsz" using ra d(1) unfolding realloc_ok_def by blast
        show ?thesis
        proof (cases "alen ar = 0")
          case True
          with d l n el show ?thesis by (simp add: arr_ok_def view_def)
        next
          case False
          with c kind have e1: "elsz = 1" by simp
          have "alen ar \<le> length (mem ar)" using ok e1 by (simp add: arr_ok_def)
          with False d l n e1 show ?thesis
            by (auto simp: arr_ok_def view_def put_at_def min_def)
        qed
      qed
    qed
  qed
  then show "arr_ok elsz ar'" "newlen \<le> acap ar'" "acap ar' \<noteq> 0"
    "alen ar \<le> newlen \<Longrightarrow> view elsz ar' = view elsz ar \<and> alen ar' = alen ar" by blast+
qed

lemma realloc_fail:
  assumes "arr_ok elsz ar" and "ffarr_realloc ra elsz ar newlen = (ar', False)"
  shows "arr_ok elsz ar' \<and> view elsz ar' = view elsz ar"
proof -
  have "ar' = (if acap ar \<noteq> 0 \<and> alen ar = 0 then ffarr_null else ar)"
    using assms(2) by (auto simp: ffarr_realloc_def Let_def split: option.splits if_splits)
  with assms(1) show ?thesis by (auto simp: arr_ok_def view_def ffarr_null_def)
qed

lemma grow_spec:
  assumes "realloc_ok ra" and "arr_ok elsz ar" and "acap ar \<noteq> 0 \<or> alen ar = 0 \<or> elsz = 1"
    and "ffarr_grow ra elsz ar n lowat = (ar', True)"
  shows "arr_ok elsz ar' \<and> view elsz ar' = view elsz ar \<and> alen ar' = alen ar \<and> n \<le> ffarr_unused ar'"
proof (cases "acap ar \<ge> alen ar + n")
  case True
  with assms(2,4) show ?thesis by (simp add: ffarr_grow_def ffarr_unused_def)
next
  case False
  with assms(4) obtain m where m: "ffarr_realloc ra elsz ar (alen ar + max m n) = (ar', True)"
    unfolding ffarr_grow_def Let_def by (auto split: if_splits)
  note sp = realloc_spec [OF assms(1-3) m]
  have "alen ar \<le> alen ar + max m n" by simp
  from sp(4) [OF this] sp(1,2) show ?thesis by (simp add: ffarr_unused_def)
qed

lemma append_spec:
  assumes "realloc_ok ra" and "arr_ok elsz ar" and "acap ar \<noteq> 0 \<or> alen ar = 0 \<or> elsz = 1"
    and "length src = num * elsz" and "ffarr_append ra elsz ar src num = (ar', True)"
  shows "arr_ok elsz ar' \<and> view elsz ar' = view elsz ar @ src \<and> alen ar' = alen ar + num
    \<and> (num \<noteq> 0 \<longrightarrow> acap ar' \<noteq> 0)"
proof -
  obtain ar1 where a1: "(if acap ar < alen ar + num then ffarr_realloc ra elsz ar (alen ar + num) else (ar, True)) = (ar1, True)"
    using assms(5) by (auto simp: ffarr_append_def split: prod.splits if_splits)
  have ar': "ar' = ar1\<lparr>mem := put_at (mem ar1) (alen ar1 * elsz) src, alen := alen ar1 + num\<rparr>"
    using assms(4,5) unfolding ffarr_append_def Let_def a1 by simp
  have k: "arr_ok elsz ar1 \<and> view elsz ar1 = view elsz ar \<and> alen ar1 = alen ar \<and> alen ar + num \<le> acap ar1"
  proof (cases "acap ar < alen ar + num")
    case True
    with a1 have r: "ffarr_realloc ra elsz ar (alen ar + num) = (ar1, True)" by simp
    note sp = realloc_spec [OF assms(1-3) r]
    have "alen ar \<le> alen ar + num" by simp
    from sp(4) [OF this] sp(1,2) show ?thesis by blast
  next
    case False
    with a1 assms(2) show ?thesis by simp
  qed
  have fit: "alen ar1 * elsz + length src \<le> length (mem ar1)"
  proof (cases "acap ar1 = 0")
    case True
    with k assms(4) show ?thesis by (simp add: arr_ok_def)
  next
    case False
    with k have "length (mem ar1) = acap ar1 * elsz" by (simp add: arr_ok_def)
    moreover have "(alen ar1 + num) * elsz \<le> acap ar1 * elsz" using k by (intro mult_le_mono1) simp
    ultimately show ?thesis using assms(4) by (simp add: add_mult_distrib)
  qed
  have v: "take ((alen ar1 + num) * elsz) (put_at (mem ar1) (alen ar1 * elsz) src) = view elsz ar1 @ src"
    using fit assms(4) by (simp add: put_at_def view_def add_mult_distrib)
  have lp: "length (put_at (mem ar1) (alen ar1 * elsz) src) = length (mem ar1)"
    using fit by (rule length_put_at)
  have "arr_ok elsz ar'"
    using k fit lp assms(4) unfolding ar' by (auto simp: arr_ok_def add_mult_distrib)
  moreover have "view elsz ar' = view elsz ar1 @ src" using v unfolding ar' view_def by simp
  then have "view elsz ar' = view elsz ar @ src" using k by metis
  moreover have "num \<noteq> 0 \<longrightarrow> acap ar' \<noteq> 0" "alen ar' = alen ar + num" using k unfolding ar' by auto
  ultimately show ?thesis by blast
qed

lemma view_move:
  assumes "dst + n \<le> length m" and "src + n \<le> length m"
  shows "take (dst + n) (move_in m dst src n) = take dst m @ take n (drop src m)"
    and "length (move_in m dst src n) = length m"
  using assms by (simp_all add: move_in_def put_at_def)

lemma rm_spec:
  assumes ok: "arr_ok elsz ar" and r: "off + n \<le> alen ar"
    and kind: "acap ar \<noteq> 0 \<or> off = 0 \<or> off + n = alen ar"
  shows "arr_ok elsz (ffarr_rm ar off n elsz) \<and> alen (ffarr_rm ar off n elsz) = alen ar - n
    \<and> view elsz (ffarr_rm ar off n elsz) = take (off * elsz) (view elsz ar) @ drop ((off + n) * elsz) (view elsz ar)"
proof (cases "off + n = alen ar")
  case True
  have l: "off * elsz \<le> alen ar * elsz" using r by (intro mult_le_mono1) simp
  have d: "alen ar - n = off" using True by simp
  have "alen ar * elsz \<le> length (mem ar)" using ok by (simp add: arr_ok_def)
  with l have "off * elsz \<le> length (mem ar)" by (rule order_trans)
  then show ?thesis using ok l True d
    by (auto simp: ffarr_rm_def arr_ok_def view_def min_absorb1)
next
  case mid: False
  show ?thesis
  proof (cases "acap ar = 0")
    case True
    then have "off = 0" using kind mid by simp
    moreover have "n * elsz \<le> alen ar * elsz" using r by (intro mult_le_mono1) simp
    moreover have "(alen ar - n) * elsz \<le> length (mem ar) - n * elsz"
      using ok by (auto simp: arr_ok_def diff_mult_distrib intro: diff_le_mono)
    ultimately show ?thesis using ok mid True
      by (auto simp: ffarr_rm_def arr_ok_def view_def diff_mult_distrib drop_take)
  next
    case False
    let ?k = "(alen ar - off - n) * elsz"
    have e: "off * elsz + ?k = (alen ar - n) * elsz" "(off + n) * elsz + ?k = alen ar * elsz"
      using r by (simp_all add: add_mult_distrib [symmetric])
    have la: "alen ar * elsz \<le> length (mem ar)" using ok by (simp add: arr_ok_def)
    have l: "off * elsz + ?k \<le> length (mem ar)" "(off + n) * elsz + ?k \<le> length (mem ar)"
    proof -
      have "(alen ar - n) * elsz \<le> alen ar * elsz" by (intro mult_le_mono1) simp
      then show "off * elsz + ?k \<le> length (mem ar)" unfolding e using la by (rule order_trans)
      show "(off + n) * elsz + ?k \<le> length (mem ar)" unfolding e by (rule la)
    qed
    have rm: "ffarr_rm ar off n elsz = ar\<lparr>mem := move_in (mem ar) (off * elsz) ((off + n) * elsz) ?k,
        alen := alen ar - n\<rparr>"
      using mid False by (simp add: ffarr_rm_def)
    have o: "off * elsz \<le> alen ar * elsz" using r by (intro mult_le_mono1) simp
    have "view elsz (ffarr_rm ar off n elsz) = take (off * elsz) (mem ar) @ take ?k (drop ((off + n) * elsz) (mem ar))"
      unfolding rm view_def using view_move(1) [OF l] unfolding e by simp
    also have "\<dots> = take (off * elsz) (view elsz ar) @ drop ((off + n) * elsz) (view elsz ar)"
      using o by (simp add: view_def drop_take e(2) [symmetric])
    finally have v: "view elsz (ffarr_rm ar off n elsz)
      = take (off * elsz) (view elsz ar) @ drop ((off + n) * elsz) (view elsz ar)" .
    have "arr_ok elsz (ffarr_rm ar off n elsz)"
      unfolding rm using ok view_move(2) [OF l] l(1) [unfolded e] by (auto simp: arr_ok_def)
    with v rm show ?thesis by simp
  qed
qed

lemma crop_spec:
  assumes ok: "arr_ok elsz ar" and r: "off + n \<le> alen ar" and kind: "acap ar \<noteq> 0 \<or> off = 0"
  shows "arr_ok elsz (ffarr_crop ar off n elsz) \<and> alen (ffarr_crop ar off n elsz) = n
    \<and> view elsz (ffarr_crop ar off n elsz) = take (n * elsz) (drop (off * elsz) (view elsz ar))"
proof -
  have la: "alen ar * elsz \<le> length (mem ar)" using ok by (simp add: arr_ok_def)
  have "(off + n) * elsz \<le> alen ar * elsz" using r by (intro mult_le_mono1) simp
  then have le: "off * elsz + n * elsz \<le> alen ar * elsz" by (simp add: add_mult_distrib)
  show ?thesis
  proof (cases "off = 0")
    case True
    have "n * elsz \<le> length (mem ar)" using le la by linarith
    with True ok r le show ?thesis by (auto simp: ffarr_crop_def arr_ok_def view_def min_absorb1)
  next
    case False
    with kind have c: "acap ar \<noteq> 0" by simp
    have l: "0 + n * elsz \<le> length (mem ar)" "off * elsz + n * elsz \<le> length (mem ar)" using le la by simp_all
    have cr: "ffarr_crop ar off n elsz = ar\<lparr>mem := move_in (mem ar) 0 (off * elsz) (n * elsz), alen := n\<rparr>"
      using False c by (simp add: ffarr_crop_def)
    have "view elsz (ffarr_crop ar off n elsz) = take (n * elsz) (drop (off * elsz) (mem ar))"
      unfolding cr view_def using view_move(1) [OF l] by simp
    also have "\<dots> = take (n * elsz) (drop (off * elsz) (view elsz ar))"
      using le by (simp add: view_def drop_take)
    finally have v: "view elsz (ffarr_crop ar off n elsz) = take (n * elsz) (drop (off * elsz) (view elsz ar))" .
    have "arr_ok elsz (ffarr_crop ar off n elsz)"
      unfolding cr using ok view_move(2) [OF l] l(1) r by (auto simp: arr_ok_def)
    with v cr show ?thesis by simp
  qed
qed

section \<open>Gathering and buffered output\<close>

text \<open>
  \<open>adj\<close> says whether the array points to the bytes just before \<open>d\<close>. The result is the number of
  bytes taken from \<open>d\<close>, or -1.
\<close>

definition ffarr_gather :: "realloc \<Rightarrow> bool \<Rightarrow> ffarr \<Rightarrow> bytes \<Rightarrow> nat \<Rightarrow> ffarr \<times> int" where
  "ffarr_gather ra adj ar d until =
     (if alen ar \<ge> until then (ar, 0)
      else if alen ar = 0 \<and> length d \<ge> until then (ffarr_set d until (ffarr_free ar), int until)
      else if acap ar = 0 \<and> adj \<and> alen ar + length d \<ge> until
        then (ar\<lparr>alen := until\<rparr>, int (until - alen ar))
      else
        let (ar1, ok) = (if acap ar < until then ffarr_realloc ra 1 ar until else (ar, True)) in
        if \<not> ok then (ar1, -1)
        else let n = min (length d) (until - alen ar1); (ar2, _) = ffarr_append ra 1 ar1 d n
          in (ar2, int n))"

definition ffarr_append_until :: "realloc \<Rightarrow> bool \<Rightarrow> ffarr \<Rightarrow> bytes \<Rightarrow> nat \<Rightarrow> ffarr \<times> int" where
  "ffarr_append_until ra adj ar d until =
     (let (ar', r) = ffarr_gather ra adj ar d until in
      if r > 0 \<and> alen ar' < until then (ar', 0) else (ar', r))"

text \<open>The third component is \<open>out\<close>, when it is set.\<close>

definition ffarr_gather2 :: "realloc \<Rightarrow> ffarr \<Rightarrow> bytes \<Rightarrow> nat \<Rightarrow> ffarr \<times> int \<times> bytes option" where
  "ffarr_gather2 ra ar d until =
     (if alen ar = 0 \<and> length d \<ge> until then (ar, int until, Some (take until d))
      else if alen ar \<ge> until then (ar, 0, Some (take until (mem ar)))
      else
        let (ar1, ok) = (if acap ar < until then ffarr_realloc ra 1 ar until else (ar, True)) in
        if \<not> ok then (ar1, -1, None)
        else let n = min (length d) (until - alen ar1); (ar2, _) = ffarr_append ra 1 ar1 d n
          in (ar2, int n, Some (take (alen ar2) (mem ar2))))"

text \<open>The block that is ready (\<open>dst\<close>) and the number of bytes processed.\<close>

definition ffbuf_add :: "ffarr \<Rightarrow> bytes \<Rightarrow> ffarr \<times> bytes \<times> nat" where
  "ffbuf_add buf src =
     (let len = length src in
      if alen buf = 0 \<and> len > acap buf then
        let sz = len - len mod acap buf in (buf, take sz src, sz)
      else
        let sz = min len (ffarr_unused buf);
            buf1 = buf\<lparr>mem := put_at (mem buf) (alen buf) (take sz src), alen := alen buf + sz\<rparr>
        in if acap buf1 \<noteq> alen buf1 then (buf1, [], sz)
           else (buf1\<lparr>alen := 0\<rparr>, take (alen buf1) (mem buf1), sz))"

text \<open>
  Cutting data that begins at the absolute offset \<open>start\<close> to the range of \<open>size\<close> bytes at \<open>off\<close>: how
  far \<open>data->ptr\<close> moves, the new \<open>data->len\<close> and the result.
\<close>

definition ffstr_crop_abs :: "u64 \<Rightarrow> u64 \<Rightarrow> u64 \<Rightarrow> u64 \<Rightarrow> u64 \<times> u64 \<times> u64" where
  "ffstr_crop_abs dlen start off sz =
     (let end' = start + dlen;
          l = min (max start off) end';
          r = min (off + sz) end'
      in (l - start, r - l, r - start))"

lemma gather_core:
  assumes ra: "realloc_ok ra" and ok: "arr_ok 1 ar" and lt: "alen ar < until"
    and a1: "(if acap ar < until then ffarr_realloc ra 1 ar until else (ar, True)) = (ar1, True)"
    and n: "n = min (length d) (until - alen ar1)" and a2: "ffarr_append ra 1 ar1 d n = (ar2, r)"
  shows "arr_ok 1 ar2 \<and> view 1 ar2 = view 1 ar @ take n d \<and> alen ar2 = alen ar + n
    \<and> n = min (length d) (until - alen ar)"
proof -
  have k: "arr_ok 1 ar1 \<and> view 1 ar1 = view 1 ar \<and> alen ar1 = alen ar \<and> until \<le> acap ar1 \<and> acap ar1 \<noteq> 0"
  proof (cases "acap ar < until")
    case True
    with a1 have "ffarr_realloc ra 1 ar until = (ar1, True)" by simp
    from realloc_spec [OF ra ok _ this] lt show ?thesis by auto
  next
    case False
    with a1 ok lt show ?thesis by auto
  qed
  have nn: "n = min (length d) (until - alen ar)" using n k by simp
  then have "alen ar1 + n \<le> until" using k lt by simp
  then have cap: "\<not> acap ar1 < alen ar1 + n" using k by linarith
  have "ffarr_append ra 1 ar1 d n = ffarr_append ra 1 ar1 (take n d) n"
    by (simp add: ffarr_append_def cap)
  then have "ffarr_append ra 1 ar1 (take n d) n = (ar2, True)"
    using a2 cap by (simp add: ffarr_append_def)
  moreover have "length (take n d) = n * 1" using nn by simp
  ultimately show ?thesis using append_spec [OF ra, of 1 ar1 "take n d" n ar2] k nn by auto
qed

lemma gather_spec:
  assumes ra: "realloc_ok ra" and ok: "arr_ok 1 ar"
    and adj: "adj \<Longrightarrow> take (length d) (drop (alen ar) (mem ar)) = d"
    and r: "ffarr_gather ra adj ar d until = (ar', int n)"
  shows "arr_ok 1 ar' \<and> view 1 ar' = view 1 ar @ take n d \<and> n = min (length d) (until - alen ar)"
proof -
  consider (full) "alen ar \<ge> until" | (direct) "alen ar < until" "alen ar = 0" "length d \<ge> until"
    | (adj) "alen ar < until" "\<not> (alen ar = 0 \<and> length d \<ge> until)" "acap ar = 0" "adj" "alen ar + length d \<ge> until"
    | (copy) "alen ar < until" "\<not> (alen ar = 0 \<and> length d \<ge> until)"
        "\<not> (acap ar = 0 \<and> adj \<and> alen ar + length d \<ge> until)"
    by linarith
  then show ?thesis
  proof cases
    case full
    with r ok show ?thesis by (simp add: ffarr_gather_def)
  next
    case direct
    with r ok show ?thesis
      by (auto simp: ffarr_gather_def ffarr_set_def ffarr_free_def arr_ok_def view_def)
  next
    case adj
    from adj r have e: "ar' = ar\<lparr>alen := until\<rparr>" "n = until - alen ar" by (auto simp: ffarr_gather_def)
    have d: "take (length d) (drop (alen ar) (mem ar)) = d" by (rule assms(3)) (rule adj(4))
    have ld: "length d \<le> length (mem ar) - alen ar" by (subst d [symmetric]) simp
    have "take n d = take n (drop (alen ar) (mem ar))"
      using adj(5) e(2) by (subst d [symmetric]) (simp add: min_absorb1)
    moreover have "take until (mem ar) = take (alen ar) (mem ar) @ take n (drop (alen ar) (mem ar))"
      unfolding e(2) using adj(1) by (simp flip: take_add)
    moreover have "alen ar \<le> length (mem ar)" using ok by (simp add: arr_ok_def)
    then have "until \<le> length (mem ar)" using ld adj(5) by linarith
    ultimately show ?thesis using e adj ok by (auto simp: arr_ok_def view_def)
  next
    case copy
    obtain ar1 b where a1: "(if acap ar < until then ffarr_realloc ra 1 ar until else (ar, True)) = (ar1, b)"
      by (metis prod.collapse)
    obtain ar2 b2 where a2: "ffarr_append ra 1 ar1 d (min (length d) (until - alen ar1)) = (ar2, b2)"
      by (metis prod.collapse)
    have g: "ffarr_gather ra adj ar d until
        = (if \<not> b then (ar1, -1) else (ar2, int (min (length d) (until - alen ar1))))"
      using copy a2 unfolding ffarr_gather_def Let_def a1 by auto
    with r have b: "b" "ar' = ar2" "n = min (length d) (until - alen ar1)" by (auto split: if_splits)
    have a1': "(if acap ar < until then ffarr_realloc ra 1 ar until else (ar, True)) = (ar1, True)"
      unfolding a1 using b(1) by simp
    from gather_core [OF ra ok copy(1) a1' b(3) a2 [folded b(3)]] b show ?thesis by auto
  qed
qed

lemma ffbuf_add_spec:
  assumes ok: "arr_ok 1 buf" and room: "alen buf < acap buf"
    and r: "ffbuf_add buf src = (buf', dst, n)"
  shows "arr_ok 1 buf' \<and> acap buf' = acap buf \<and> alen buf' < acap buf' \<and> n \<le> length src
    \<and> (src \<noteq> [] \<longrightarrow> 0 < n) \<and> dst @ view 1 buf' = view 1 buf @ take n src \<and> acap buf dvd length dst"
proof (cases "alen buf = 0 \<and> length src > acap buf")
  case True
  then have e: "buf' = buf" "dst = take n src" "n = length src - length src mod acap buf"
    using r by (auto simp: ffbuf_add_def Let_def)
  have "acap buf \<le> n"
  proof -
    have "n = acap buf * (length src div acap buf)" unfolding e(3) by (simp add: minus_mod_eq_mult_div)
    moreover have "0 < length src div acap buf" using True room by (simp add: div_greater_zero_iff)
    ultimately show ?thesis by (cases "length src div acap buf") simp_all
  qed
  moreover have "length dst = acap buf * (length src div acap buf)"
    unfolding e(2,3) by (simp add: minus_mod_eq_mult_div)
  ultimately show ?thesis using ok room True e by (auto simp: view_def)
next
  case False
  define sz where "sz = min (length src) (acap buf - alen buf)"
  define m where "m = put_at (mem buf) (alen buf) (take sz src)"
  have lm: "length (mem buf) = acap buf" using ok room by (auto simp: arr_ok_def)
  have fit: "alen buf + length (take sz src) \<le> length (mem buf)" using lm room by (simp add: sz_def)
  have lm': "length m = acap buf" unfolding m_def using length_put_at [OF fit] lm by simp
  have v: "take (alen buf + sz) m = view 1 buf @ take sz src"
    using fit by (simp add: m_def put_at_def view_def sz_def)
  have ba: "ffbuf_add buf src = (if acap buf \<noteq> alen buf + sz then (buf\<lparr>mem := m, alen := alen buf + sz\<rparr>, [], sz)
      else (buf\<lparr>mem := m, alen := 0\<rparr>, take (alen buf + sz) m, sz))"
    unfolding ffbuf_add_def Let_def if_not_P [OF False] sz_def m_def ffarr_unused_def by simp
  have szp: "src \<noteq> [] \<longrightarrow> 0 < sz" "alen buf + sz \<le> acap buf" "sz \<le> length src"
    using room by (auto simp: sz_def)
  show ?thesis
  proof (cases "acap buf = alen buf + sz")
    case True
    then have e: "buf' = buf\<lparr>mem := m, alen := 0\<rparr>" "dst = take (alen buf + sz) m" "n = sz" using r ba by auto
    have "length dst = acap buf" unfolding e(2) using True lm' by simp
    with e v szp room lm' show ?thesis by (auto simp: arr_ok_def view_def)
  next
    case f: False
    then have e: "buf' = buf\<lparr>mem := m, alen := alen buf + sz\<rparr>" "dst = []" "n = sz" using r ba by auto
    have "arr_ok 1 buf'" using lm' szp unfolding e by (simp add: arr_ok_def)
    moreover have "view 1 buf' = view 1 buf @ take sz src" using v unfolding e by (simp add: view_def)
    ultimately show ?thesis using e szp f by auto
  qed
qed

text \<open>The loop of a client: pass the rest of the input until it is processed, and collect the blocks.\<close>

function ffbuf_feed :: "ffarr \<Rightarrow> bytes \<Rightarrow> ffarr \<times> bytes list" where
  "ffbuf_feed buf src =
     (let (buf1, dst, n) = ffbuf_add buf src;
          out = (if dst = [] then [] else [dst])
      in if n = 0 \<or> length src \<le> n then (buf1, out)
         else let (buf2, out2) = ffbuf_feed buf1 (drop n src) in (buf2, out @ out2))"
  by pat_completeness auto
termination
  by (relation "measure (\<lambda>(buf, src). length src)") auto

declare ffbuf_feed.simps [simp del]

lemma ffbuf_feed_spec:
  assumes "arr_ok 1 buf" and "alen buf < acap buf" and "ffbuf_feed buf src = (buf', out)"
  shows "arr_ok 1 buf' \<and> acap buf' = acap buf \<and> alen buf' < acap buf'
    \<and> concat out @ view 1 buf' = view 1 buf @ src \<and> (\<forall>b \<in> set out. acap buf dvd length b)"
  using assms
proof (induction buf src arbitrary: out rule: ffbuf_feed.induct)
  case (1 buf src)
  obtain buf1 dst n where a: "ffbuf_add buf src = (buf1, dst, n)" by (metis prod_cases3)
  note sp = ffbuf_add_spec [OF 1(2,3) a]
  show ?case
  proof (cases "n = 0 \<or> length src \<le> n")
    case True
    with 1(4) a have "buf' = buf1" "out = (if dst = [] then [] else [dst])"
      by (auto simp: ffbuf_feed.simps [of buf src] Let_def)
    moreover have "take n src = src" using True sp by (cases src) auto
    ultimately show ?thesis using sp by auto
  next
    case False
    obtain out2 where o: "ffbuf_feed buf1 (drop n src) = (buf', out2)"
      "out = (if dst = [] then [] else [dst]) @ out2"
      using 1(4) a False by (auto simp: ffbuf_feed.simps [of buf src] Let_def split: prod.splits)
    from 1(1) [OF a [symmetric] refl refl refl False _ _ o(1)] sp have
      k: "arr_ok 1 buf' \<and> acap buf' = acap buf1 \<and> alen buf' < acap buf'
        \<and> concat out2 @ view 1 buf' = view 1 buf1 @ drop n src \<and> (\<forall>b \<in> set out2. acap buf1 dvd length b)"
      by auto
    have "concat out @ view 1 buf' = dst @ concat out2 @ view 1 buf'" unfolding o(2) by simp
    also have "\<dots> = (dst @ view 1 buf1) @ drop n src" using k by simp
    also have "\<dots> = view 1 buf @ src" using sp by simp
    finally show ?thesis using k sp o(2) by auto
  qed
qed

section \<open>The contract of a byte vector\<close>

locale byte_vector =
  fixes append :: "'v \<Rightarrow> bytes \<Rightarrow> 'v \<times> bool" and rm :: "'v \<Rightarrow> nat \<Rightarrow> nat \<Rightarrow> 'v"
    and ok :: "'v \<Rightarrow> bool" and bytes_of :: "'v \<Rightarrow> bytes"
  assumes append_law: "ok v \<Longrightarrow> append v src = (v', True) \<Longrightarrow> ok v' \<and> bytes_of v' = bytes_of v @ src"
    and rm_law: "ok v \<Longrightarrow> off + n \<le> length (bytes_of v) \<Longrightarrow>
      ok (rm v off n) \<and> bytes_of (rm v off n) = take off (bytes_of v) @ drop (off + n) (bytes_of v)"
begin

text \<open>As a queue: what is appended at the end comes out at the front.\<close>

lemma append_then_consume:
  assumes "ok v" and "append v src = (v', True)"
  shows "ok (rm v' 0 (length (bytes_of v))) \<and> bytes_of (rm v' 0 (length (bytes_of v))) = src"
proof -
  note a = append_law [OF assms]
  then have "0 + length (bytes_of v) \<le> length (bytes_of v')" by simp
  from rm_law [OF _ this] a show ?thesis by simp
qed

text \<open>Removing what was appended gives the old contents.\<close>

lemma append_then_truncate:
  assumes "ok v" and "append v src = (v', True)"
  shows "bytes_of (rm v' (length (bytes_of v)) (length src)) = bytes_of v"
proof -
  note a = append_law [OF assms]
  then have "length (bytes_of v) + length src \<le> length (bytes_of v')" by simp
  from rm_law [OF _ this] a show ?thesis by simp
qed

end

lemma crop_arith:
  fixes s d k z l r :: nat
  assumes "s \<le> k + z" and "l = min (max s k) (s + d)" and "r = min (k + z) (s + d)"
  shows "l - s = min (k - s) d" and "(l - s) + (r - l) = max (l - s) (min (k + z - s) d)"
    and "r - s = (l - s) + (r - l)"
  using assms by linarith+

text \<open>An allocator of the examples: fresh bytes are 0xAA, and it never fails.\<close>

definition ex_realloc :: realloc where
  "ex_realloc d n = Some (take n d @ replicate (n - length d) 0xAA)"

lemma ex_realloc_ok: "realloc_ok ex_realloc"
  by (auto simp: realloc_ok_def ex_realloc_def min_def)

text \<open>Allocated arrays of bytes, for every allocator that behaves.\<close>

definition own :: "ffarr \<Rightarrow> bool" where
  "own ar \<longleftrightarrow> arr_ok 1 ar \<and> acap ar \<noteq> 0"

lemma own_append:
  assumes "realloc_ok ra" and "own v" and "ffarr_append ra 1 v src (length src) = (v', True)"
  shows "own v' \<and> view 1 v' = view 1 v @ src"
proof -
  have a: "arr_ok 1 v' \<and> view 1 v' = view 1 v @ src \<and> alen v' = alen v + length src
    \<and> (length src \<noteq> 0 \<longrightarrow> acap v' \<noteq> 0)"
    by (rule append_spec [OF assms(1) _ _ _ assms(3)]) (use assms(2) in \<open>auto simp: own_def\<close>)
  moreover have "acap v' \<noteq> 0" if "length src = 0"
  proof -
    have "\<not> acap v < alen v + length src" using assms(2) that by (auto simp: own_def arr_ok_def)
    with assms(2,3) show ?thesis by (auto simp: ffarr_append_def own_def)
  qed
  ultimately show ?thesis by (auto simp: own_def)
qed

lemma own_rm:
  assumes "own v" and "off + n \<le> length (view 1 v)"
  shows "own (ffarr_rm v off n 1) \<and> view 1 (ffarr_rm v off n 1) = take off (view 1 v) @ drop (off + n) (view 1 v)"
proof -
  have l: "length (view 1 v) = alen v" using length_view [of 1 v] assms(1) by (simp add: own_def)
  have "acap (ffarr_rm v off n 1) = acap v" by (simp add: ffarr_rm_def)
  with rm_spec [of 1 v off n] assms l show ?thesis by (auto simp: own_def)
qed

interpretation vec: byte_vector "\<lambda>v src. ffarr_append ex_realloc 1 v src (length src)"
  "\<lambda>v off n. ffarr_rm v off n 1" own "view 1"
  using own_append [OF ex_realloc_ok] own_rm by unfold_locales auto

section \<open>Properties\<close>

text \<open>
  C14: ffarr keeps its contents: appending n elements gives the old bytes followed by the new ones,
  removing a range cuts exactly that range out, and cropping keeps exactly the range, for every
  element size, on an allocated array, provided realloc keeps the old contents.
\<close>

theorem ffarr_ops_refine:
  assumes "realloc_ok ra" and "arr_ok elsz ar" and "acap ar \<noteq> 0" and "off + n \<le> alen ar"
    and "length src = num * elsz" and "ffarr_append ra elsz ar src num = (ar', True)"
  shows "view elsz ar' = view elsz ar @ src \<and> arr_ok elsz ar'
    \<and> view elsz (ffarr_rm ar off n elsz) = take (off * elsz) (view elsz ar) @ drop ((off + n) * elsz) (view elsz ar)
    \<and> arr_ok elsz (ffarr_rm ar off n elsz)
    \<and> view elsz (ffarr_crop ar off n elsz) = take (n * elsz) (drop (off * elsz) (view elsz ar))
    \<and> arr_ok elsz (ffarr_crop ar off n elsz)"
  using append_spec [OF assms(1,2) disjI1 [OF assms(3)] assms(5,6)]
    rm_spec [OF assms(2,4) disjI1 [OF assms(3)]] crop_spec [OF assms(2,4) disjI1 [OF assms(3)]] by blast

theorem ffarr_ops_refine_witness:
  "view 2 (ffarr_rm \<lparr>mem = [1, 2, 3, 4, 5, 6], alen = 3, acap = 3\<rparr> 1 1 2) = [1, 2, 5, 6]"
proof -
  have "ffarr_append ex_realloc 2 \<lparr>mem = [1, 2, 3, 4, 5, 6], alen = 3, acap = 3\<rparr> [] 0
      = (\<lparr>mem = [1, 2, 3, 4, 5, 6], alen = 3, acap = 3\<rparr>, True)"
    by (simp add: ffarr_append_def)
  from ffarr_ops_refine [OF ex_realloc_ok _ _ _ _ this, of 1 1] show ?thesis
    by (simp add: arr_ok_def view_def)
qed

text \<open>
  ffarr_grow reserves what it promises: on success at least the requested number of elements is
  unused and the contents are unchanged; a failed reallocation leaves the contents readable.
\<close>

theorem ffarr_grow_reserves:
  assumes "realloc_ok ra" and "arr_ok elsz ar" and "acap ar \<noteq> 0 \<or> elsz = 1"
    and "ffarr_grow ra elsz ar n lowat = (ar', ok)"
  shows "arr_ok elsz ar' \<and> view elsz ar' = view elsz ar \<and> (ok \<longrightarrow> n \<le> ffarr_unused ar' \<and> alen ar' = alen ar)"
proof (cases ok)
  case True
  with assms(4) have "ffarr_grow ra elsz ar n lowat = (ar', True)" by simp
  from grow_spec [OF assms(1,2) _ this] assms(3) show ?thesis by auto
next
  case False
  with assms(4) obtain m where "ffarr_realloc ra elsz ar m = (ar', False)"
    unfolding ffarr_grow_def Let_def by (auto split: if_splits)
  from realloc_fail [OF assms(2) this] False show ?thesis by simp
qed

theorem ffarr_grow_reserves_witness:
  "case ffarr_grow ex_realloc 1 \<lparr>mem = [1, 2], alen = 2, acap = 0\<rparr> 3 0 of (ar', ok) \<Rightarrow>
    view 1 ar' = [1, 2] \<and> (ok \<longrightarrow> 3 \<le> ffarr_unused ar')"
proof -
  obtain ar' ok where g: "ffarr_grow ex_realloc 1 \<lparr>mem = [1, 2], alen = 2, acap = 0\<rparr> 3 0 = (ar', ok)"
    by fastforce
  from ffarr_grow_reserves [OF ex_realloc_ok _ _ g] have
    "view 1 ar' = view 1 \<lparr>mem = [1, 2], alen = 2, acap = 0\<rparr> \<and> (ok \<longrightarrow> 3 \<le> ffarr_unused ar')"
    by (simp add: arr_ok_def)
  then show ?thesis unfolding g by (simp add: view_def)
qed

text \<open>
  On a pointing buffer of elements larger than a byte two operations lose data: reallocation copies
  as many bytes as there are elements, and cropping moves the pointer by off + size instead of off
  times size.
\<close>

theorem ffarr_pointing_loses:
  "fst (ffarr_realloc ex_realloc 4 \<lparr>mem = [1, 2, 3, 4, 5, 6, 7, 8], alen = 2, acap = 0\<rparr> 2)
      = \<lparr>mem = [1, 2, 0xAA, 0xAA, 0xAA, 0xAA, 0xAA, 0xAA], alen = 2, acap = 2\<rparr>
    \<and> view 2 (ffarr_crop \<lparr>mem = [1, 2, 3, 4, 5, 6, 7, 8], alen = 4, acap = 0\<rparr> 3 1 2) = [6, 7]"
  by code_simp

text \<open>
  ffarr_gather collects a contiguous prefix: it takes min(len, until - ar.len) bytes of the input
  and the array then holds its old bytes followed by these, whichever of its four ways it uses (the
  data already there, pointing at the input, extending a pointing buffer, copying).
\<close>

theorem ffarr_gather_correct:
  assumes "realloc_ok ra" and "arr_ok 1 ar"
    and "adj \<longrightarrow> take (length d) (drop (alen ar) (mem ar)) = d"
    and "ffarr_gather ra adj ar d until = (ar', int n)"
  shows "arr_ok 1 ar' \<and> view 1 ar' = view 1 ar @ take n d \<and> n = min (length d) (until - alen ar)"
  using gather_spec [OF assms(1,2) _ assms(4)] assms(3) by blast

theorem ffarr_gather_correct_witness:
  "case ffarr_gather ex_realloc False \<lparr>mem = [1, 2], alen = 2, acap = 2\<rparr> [3, 4, 5] 4 of (ar', r) \<Rightarrow>
    view 1 ar' = [1, 2, 3, 4] \<and> r = 2"
proof -
  obtain ar' where g: "ffarr_gather ex_realloc False \<lparr>mem = [1, 2], alen = 2, acap = 2\<rparr> [3, 4, 5] 4 = (ar', int 2)"
    by (simp add: ffarr_gather_def ffarr_realloc_def ex_realloc_def ffarr_append_def Let_def)
  from ffarr_gather_correct [OF ex_realloc_ok _ _ g] show ?thesis
    unfolding g by (simp add: arr_ok_def view_def)
qed

text \<open>
  Buffered output loses and reorders nothing: feeding any data through ffbuf_add emits blocks whose
  lengths are multiples of the buffer's capacity, and the emitted blocks followed by what is left in the
  buffer are exactly what was in the buffer followed by the data.
\<close>

theorem ffbuf_feed_lossless:
  assumes "arr_ok 1 buf" and "alen buf < acap buf" and "ffbuf_feed buf src = (buf', out)"
  shows "concat out @ view 1 buf' = view 1 buf @ src \<and> alen buf' < acap buf
    \<and> (\<forall>b \<in> set out. acap buf dvd length b)"
  using ffbuf_feed_spec [OF assms] by simp

theorem ffbuf_feed_lossless_witness:
  "case ffbuf_feed \<lparr>mem = [0, 0], alen = 0, acap = 2\<rparr> [1, 2, 3, 4, 5] of (buf', out) \<Rightarrow>
    concat out @ view 1 buf' = [1, 2, 3, 4, 5]"
proof -
  obtain buf' out where f: "ffbuf_feed \<lparr>mem = [0, 0], alen = 0, acap = 2\<rparr> [1, 2, 3, 4, 5] = (buf', out)"
    by fastforce
  from ffbuf_feed_lossless [OF _ _ f] show ?thesis unfolding f by (simp add: arr_ok_def view_def)
qed

text \<open>
  ffstr_crop_abs keeps exactly the part of the data inside the absolute range, when no 64-bit sum
  wraps and the range does not end before the data begins; a range that ends before the data gives a
  length of almost 2^64.
\<close>

theorem ffstr_crop_abs_correct:
  assumes "unat start + unat dlen < 2 ^ 64" and "unat off + unat sz < 2 ^ 64"
    and "ffstr_crop_abs dlen start off sz = (skip, newlen, ret)"
  shows "if start \<le> off + sz
    then unat skip = min (unat off - unat start) (unat dlen)
      \<and> unat skip + unat newlen = max (unat skip) (min (unat off + unat sz - unat start) (unat dlen))
      \<and> unat ret = unat skip + unat newlen
    else unat newlen = 2 ^ 64 - (unat start - (unat off + unat sz))"
proof -
  have u: "unat (start + dlen) = unat start + unat dlen" "unat (off + sz) = unat off + unat sz"
    using assms(1,2) by (simp_all add: unat_word_ariths)
  define e l r where "e = start + dlen" and "l = min (max start off) e" and "r = min (off + sz) e"
  have res: "skip = l - start" "newlen = r - l" "ret = r - start"
    using assms(3) by (simp_all add: ffstr_crop_abs_def Let_def e_def l_def r_def)
  have ue: "unat e = unat start + unat dlen" by (simp add: e_def u)
  have ul: "unat l = min (max (unat start) (unat off)) (unat e)"
    by (auto simp: l_def min_def max_def word_le_nat_alt)
  have ur: "unat r = min (unat off + unat sz) (unat e)"
    by (auto simp: r_def min_def word_le_nat_alt u)
  have sl: "start \<le> l" using ul ue by (simp add: word_le_nat_alt)
  then have s: "unat skip = unat l - unat start" unfolding res by (rule unat_sub)
  show ?thesis
  proof (cases "start \<le> off + sz")
    case True
    then have t: "unat start \<le> unat off + unat sz" by (simp add: word_le_nat_alt u)
    have lr: "l \<le> r" unfolding word_le_nat_alt ul ur ue using t by simp
    have sr: "start \<le> r" using sl lr by (rule order_trans)
    have nr: "unat newlen = unat r - unat l" "unat ret = unat r - unat start"
      unfolding res by (rule unat_sub [OF lr], rule unat_sub [OF sr])
    show ?thesis
      unfolding if_P [OF True] s nr by (intro conjI crop_arith [OF t ul [unfolded ue] ur [unfolded ue]])
  next
    case False
    then have f: "unat off + unat sz < unat start" by (simp add: word_le_nat_alt u not_le)
    then have ll: "unat l = unat start" "unat r = unat off + unat sz" unfolding ul ur ue by simp_all
    have "unat newlen = unat r + 2 ^ 64 - unat l"
      unfolding res unat_sub_if_size using f ll by (simp add: word_size)
    then have "unat newlen = 2 ^ 64 - (unat start - (unat off + unat sz))"
      using f ll unat_lt2p_64 [of start] by linarith
    then show ?thesis using False by simp
  qed
qed

theorem ffstr_crop_abs_correct_witness:
  "case ffstr_crop_abs 10 100 103 4 of (skip, newlen, ret) \<Rightarrow> unat skip = 3 \<and> unat newlen = 4 \<and> unat ret = 7"
proof -
  obtain skip newlen ret where c: "ffstr_crop_abs 10 100 103 4 = (skip, newlen, ret)" by (metis prod_cases3)
  from ffstr_crop_abs_correct [OF _ _ c] show ?thesis unfolding c by auto
qed

end
