(* ===== verification/FF_Gather.thy ===== *)
theory FF_Gather
  imports FF_Array
begin

text \<open>
  Finding contiguous data that is spread over several input buffers: \<open>ffbuf_gather\<close>,
  \<open>ffbuf_contig\<close> and \<open>ffbuf_contig_store\<close> of \<open>FF/ffarray.c\<close>. The caller looks for a window of \<open>ctglen\<close>
  bytes with a property \<open>P\<close>; the loop of the callers (as in \<open>ffmp3.c\<close>, \<open>ffogg.c\<close>) is part of the model.
\<close>

section \<open>The gather state machine\<close>

datatype gstate = I_INPUT | I_INPUTDATA | I_CHK | I_CHK_COPIED

record bufgather =
  gstate :: gstate
  buflen :: nat
  gdata :: bytes
  ctglen :: nat
  goff :: nat

text \<open>The fields \<open>buflen\<close> and \<open>off\<close> are of 32 bits.\<close>

definition to_uint :: "nat \<Rightarrow> nat" where
  "to_uint n = unat (word_of_nat n :: u32)"

lemma to_uint_id: "n < 2 ^ 32 \<Longrightarrow> to_uint n = n"
  by (simp add: to_uint_def unat_of_nat)

datatype ffbuf_r = FFBUF_ERR | FFBUF_MORE | FFBUF_READY | FFBUF_DONE

text \<open>The states \<open>I_INPUTDATA\<close>, also reached by falling through from \<open>I_INPUT\<close>.\<close>

definition gather_inputdata :: "ffarr \<Rightarrow> bufgather \<Rightarrow> ffarr \<times> bufgather \<times> ffbuf_r" where
  "gather_inputdata buf d =
     (let buf1 = ffarr_free buf in
      if gdata d = [] then (buf1, d, FFBUF_MORE)
      else (ffarr_set (gdata d) (length (gdata d)) buf1, d\<lparr>gstate := I_CHK\<rparr>, FFBUF_READY))"

text \<open>
  When \<open>buflen > ctglen\<close> the unsigned difference is close to \<open>2^64\<close> and the comparison with it
  is false.
\<close>

definition ffbuf_gather :: "realloc \<Rightarrow> ffarr \<Rightarrow> bufgather \<Rightarrow> ffarr \<times> bufgather \<times> ffbuf_r" where
  "ffbuf_gather ra buf d =
     (case gstate d of
        I_INPUT \<Rightarrow>
          if alen buf \<noteq> 0 then
            let d1 = d\<lparr>buflen := to_uint (alen buf)\<rparr>;
                (buf1, ok) = ffarr_append ra 1 buf (gdata d) (min (length (gdata d)) (ctglen d - 1))
            in if \<not> ok then (buf1, d1, FFBUF_ERR) else (buf1, d1\<lparr>gstate := I_CHK_COPIED\<rparr>, FFBUF_READY)
          else gather_inputdata buf d
      | I_INPUTDATA \<Rightarrow> gather_inputdata buf d
      | I_CHK \<Rightarrow>
          if goff d = 0 then
            let n = to_uint (min (length (gdata d)) (ctglen d - 1));
                (buf1, ok) = ffarr_copy ra 1 buf (drop (length (gdata d) - n) (gdata d)) n
            in (buf1, d, if ok then FFBUF_MORE else FFBUF_ERR)
          else
            let off = goff d - 1;
                buf1 = (if off \<noteq> 0 then ffarr_rmleft buf off 1 else buf)
            in (buf1\<lparr>alen := ctglen d\<rparr>, d\<lparr>goff := off, gdata := drop (off + ctglen d) (gdata d)\<rparr>, FFBUF_DONE)
      | I_CHK_COPIED \<Rightarrow>
          if goff d = 0 then
            if buflen d \<le> ctglen d \<and> length (gdata d) > ctglen d - buflen d
            then gather_inputdata buf (d\<lparr>gstate := I_INPUTDATA\<rparr>)
            else (buf, d, FFBUF_MORE)
          else
            let off = goff d - 1 in
            (ffarr_crop buf off (ctglen d) 1,
             d\<lparr>goff := off, gdata := drop (off + ctglen d - buflen d) (gdata d)\<rparr>, FFBUF_DONE))"

text \<open>The first window with the property.\<close>

definition find_win :: "(bytes \<Rightarrow> bool) \<Rightarrow> nat \<Rightarrow> bytes \<Rightarrow> nat option" where
  "find_win P n bs = List.find (\<lambda>i. P (take n (drop i bs))) [0..<Suc (length bs) - n]"

text \<open>The loop of a caller on one input buffer; the fuel bounds the calls.\<close>

fun gather_loop :: "(bytes \<Rightarrow> bool) \<Rightarrow> realloc \<Rightarrow> nat \<Rightarrow> ffarr \<Rightarrow> bufgather \<Rightarrow> (ffarr \<times> bufgather \<times> ffbuf_r) option" where
  "gather_loop P ra 0 buf d = None"
| "gather_loop P ra (Suc f) buf d =
     (case ffbuf_gather ra buf d of (buf1, d1, r) \<Rightarrow>
        if r = FFBUF_READY then
          gather_loop P ra f buf1
            (case find_win P (ctglen d1) (view 1 buf1) of None \<Rightarrow> d1 | Some i \<Rightarrow> d1\<lparr>goff := to_uint (Suc i)\<rparr>)
        else Some (buf1, d1, r))"

definition gather_input :: "(bytes \<Rightarrow> bool) \<Rightarrow> realloc \<Rightarrow> ffarr \<Rightarrow> bytes \<Rightarrow> nat \<Rightarrow> (ffarr \<times> bufgather \<times> ffbuf_r) option" where
  "gather_input P ra buf input n =
     gather_loop P ra 4 buf \<lparr>gstate = I_INPUT, buflen = 0, gdata = input, ctglen = n, goff = 0\<rparr>"

text \<open>
  A stream of input buffers: the window found, the rest of the buffer where it was found and the buffers behind it; the end of the
  stream; an error; or a caller's loop that has used up its fuel.
\<close>

datatype gather_res = G_Found bytes bytes "bytes list" | G_End | G_Error | G_Fuel

fun gather_stream :: "(bytes \<Rightarrow> bool) \<Rightarrow> realloc \<Rightarrow> nat \<Rightarrow> ffarr \<Rightarrow> bytes list \<Rightarrow> gather_res" where
  "gather_stream P ra n buf [] = G_End"
| "gather_stream P ra n buf (c # cs) =
     (case gather_input P ra buf c n of
        None \<Rightarrow> G_Fuel
      | Some (buf1, d, r) \<Rightarrow>
          (case r of
             FFBUF_MORE \<Rightarrow> gather_stream P ra n buf1 cs
           | FFBUF_DONE \<Rightarrow> G_Found (view 1 buf1) (gdata d) cs
           | _ \<Rightarrow> G_Error))"

section \<open>Windows\<close>

lemma find_upt:
  "List.find Q [0..<m] = Some i \<longleftrightarrow> i < m \<and> Q i \<and> (\<forall>j < i. \<not> Q j)"
  "List.find Q [0..<m] = None \<longleftrightarrow> (\<forall>j < m. \<not> Q j)"
proof -
  show "List.find Q [0..<m] = None \<longleftrightarrow> (\<forall>j < m. \<not> Q j)" by (auto simp: find_None_iff)
  show "List.find Q [0..<m] = Some i \<longleftrightarrow> i < m \<and> Q i \<and> (\<forall>j < i. \<not> Q j)"
    by (auto simp: find_Some_iff)
qed

lemma find_win_Some:
  "find_win P n bs = Some i \<longleftrightarrow>
    i + n \<le> length bs \<and> P (take n (drop i bs)) \<and> (\<forall>j < i. \<not> P (take n (drop j bs)))"
  by (auto simp: find_win_def find_upt)

lemma find_win_None:
  "find_win P n bs = None \<longleftrightarrow> (\<forall>j. j + n \<le> length bs \<longrightarrow> \<not> P (take n (drop j bs)))"
  by (auto simp: find_win_def find_upt)

text \<open>A window in a prefix, and a window after the first bytes.\<close>

lemma win_prefix: "j + n \<le> length a \<Longrightarrow> take n (drop j (a @ b)) = take n (drop j a)"
  by simp

lemma find_win_prefix: "find_win P n a = Some i \<Longrightarrow> find_win P n (a @ b) = Some i"
  by (auto simp: find_win_Some win_prefix)

lemma win_suffix: "length a \<le> j \<Longrightarrow> drop j (a @ b) = drop (j - length a) b"
  by simp

lemma find_win_split:
  assumes "0 < n" and none: "find_win P n (a @ take (n - 1) b) = None"
  shows "find_win P n (a @ b) = map_option (\<lambda>i. length a + i) (find_win P n b)"
proof -
  have early: "\<not> P (take n (drop j (a @ b)))" if "j < length a" "j + n \<le> length (a @ b)" for j
  proof -
    have "a @ b = (a @ take (n - 1) b) @ drop (n - 1) b" by simp
    moreover have "j + n \<le> length (a @ take (n - 1) b)" using that assms(1) by auto
    ultimately have "take n (drop j (a @ b)) = take n (drop j (a @ take (n - 1) b))"
      using win_prefix by metis
    moreover have "\<not> P (take n (drop j (a @ take (n - 1) b)))"
      using none \<open>j + n \<le> length (a @ take (n - 1) b)\<close> unfolding find_win_None by blast
    ultimately show ?thesis by simp
  qed
  show ?thesis
  proof (cases "find_win P n b")
    case None
    have "\<not> P (take n (drop j (a @ b)))" if "j + n \<le> length (a @ b)" for j
    proof (cases "j < length a")
      case True
      with early that show ?thesis by blast
    next
      case False
      then have "drop j (a @ b) = drop (j - length a) b" "j - length a + n \<le> length b"
        using that by auto
      with None show ?thesis unfolding find_win_None by simp
    qed
    then have "find_win P n (a @ b) = None" unfolding find_win_None by blast
    with None show ?thesis by simp
  next
    case (Some i)
    then have i: "i + n \<le> length b" "P (take n (drop i b))" "\<And>j. j < i \<Longrightarrow> \<not> P (take n (drop j b))"
      unfolding find_win_Some by blast+
    have "\<not> P (take n (drop j (a @ b)))" if "j < length a + i" for j
    proof (cases "j < length a")
      case True
      with early i(1) that show ?thesis by simp
    next
      case False
      with i(3) [of "j - length a"] that show ?thesis by simp
    qed
    with i(1,2) have "find_win P n (a @ b) = Some (length a + i)" unfolding find_win_Some by simp
    with Some show ?thesis by simp
  qed
qed

section \<open>One input buffer\<close>

definition realloc_total :: "realloc \<Rightarrow> bool" where
  "realloc_total ra \<longleftrightarrow> realloc_ok ra \<and> (\<forall>d n. ra d n \<noteq> None)"

lemma append_total:
  assumes "realloc_total ra" and "arr_ok 1 ar" and "num \<le> length src"
  shows "\<exists>ar'. ffarr_append ra 1 ar src num = (ar', True) \<and> arr_ok 1 ar' \<and> view 1 ar' = view 1 ar @ take num src
    \<and> alen ar' = alen ar + num \<and> (num \<noteq> 0 \<longrightarrow> acap ar' \<noteq> 0)"
proof -
  have e: "ffarr_append ra 1 ar src num = ffarr_append ra 1 ar (take num src) num"
    unfolding ffarr_append_def mult_1_right take_take min.idem ..
  define g where "g d n = the (ra d n)" for d n
  have rg: "ra d n = Some (g d n)" for d n using assms(1) by (auto simp: realloc_total_def g_def)
  have "snd (ffarr_realloc ra 1 ar m)" for m
    by (simp add: ffarr_realloc_def Let_def rg)
  then have "snd (ffarr_append ra 1 ar (take num src) num)"
    unfolding ffarr_append_def by (auto split: prod.splits if_splits) (metis snd_conv)+
  then obtain ar' where a: "ffarr_append ra 1 ar (take num src) num = (ar', True)"
    by (metis prod.collapse)
  have "realloc_ok ra" using assms(1) by (simp add: realloc_total_def)
  from append_spec [OF this assms(2) _ _ a] assms(3) a e show ?thesis by auto
qed

lemma loop_ready:
  "ffbuf_gather ra buf d = (b1, d1, FFBUF_READY) \<Longrightarrow> gather_loop P ra (Suc f) buf d
    = gather_loop P ra f b1 (case find_win P (ctglen d1) (view 1 b1) of None \<Rightarrow> d1 | Some i \<Rightarrow> d1\<lparr>goff := to_uint (Suc i)\<rparr>)"
  by simp

lemma loop_end:
  "ffbuf_gather ra buf d = (b1, d1, r) \<Longrightarrow> r \<noteq> FFBUF_READY \<Longrightarrow> gather_loop P ra (Suc f) buf d = Some (b1, d1, r)"
  by simp

abbreviation chk_state :: "bytes \<Rightarrow> nat \<Rightarrow> bufgather \<Rightarrow> bool" where
  "chk_state D n d \<equiv> gstate d = I_CHK \<and> gdata d = D \<and> ctglen d = n \<and> goff d = 0"

text \<open>After \<open>I_INPUTDATA\<close> the array points to the input.\<close>

lemma loop_chk:
  assumes ra: "realloc_total ra" and n: "0 < n" "n \<le> length D" and D32: "length D < 2 ^ 31"
    and buf: "mem buf = D" "alen buf = length D" "acap buf = 0" and d: "chk_state D n d"
  shows "\<exists>buf' d' r. gather_loop P ra (Suc f) buf
      (case find_win P n (view 1 buf) of None \<Rightarrow> d | Some i \<Rightarrow> d\<lparr>goff := to_uint (Suc i)\<rparr>) = Some (buf', d', r)
    \<and> arr_ok 1 buf'
    \<and> (case find_win P n D of
         None \<Rightarrow> r = FFBUF_MORE \<and> view 1 buf' = drop (length D - (n - 1)) D
       | Some i \<Rightarrow> r = FFBUF_DONE \<and> view 1 buf' = take n (drop i D) \<and> gdata d' = drop (i + n) D)"
proof -
  have ok: "arr_ok 1 buf" and v: "view 1 buf = D" using buf by (simp_all add: arr_ok_def view_def)
  show ?thesis
  proof (cases "find_win P n D")
    case None
    have "n - 1 \<le> length (drop (length D - (n - 1)) D)" using n by simp
    moreover have "arr_ok 1 (buf\<lparr>alen := 0\<rparr>)" using ok by (simp add: arr_ok_def)
    ultimately obtain ar' where a: "ffarr_append ra 1 (buf\<lparr>alen := 0\<rparr>) (drop (length D - (n - 1)) D) (n - 1) = (ar', True)"
      "arr_ok 1 ar'" "view 1 ar' = view 1 (buf\<lparr>alen := 0\<rparr>) @ take (n - 1) (drop (length D - (n - 1)) D)"
      using append_total [OF ra] by metis
    have m: "min (length D) (n - Suc 0) = n - Suc 0" "to_uint (n - Suc 0) = n - Suc 0" using n D32 by (simp_all add: to_uint_id)
    have "gather_loop P ra (Suc f) buf d = Some (ar', d, FFBUF_MORE)"
      using a(1) d by (simp add: ffbuf_gather_def ffarr_copy_def Let_def m)
    moreover have "view 1 ar' = drop (length D - (n - 1)) D" using a(3) n by (simp add: view_def)
    ultimately show ?thesis using None a(2) v by auto
  next
    case (Some i)
    then have i: "i + n \<le> length D" unfolding find_win_Some by blast
    then have i32: "to_uint (Suc i) = Suc i" using n D32 by (intro to_uint_id) simp
    define b where "b = (if i \<noteq> 0 then ffarr_rmleft buf i 1 else buf)"
    have "mem b = drop i D \<and> acap b = 0"
      using i n buf by (auto simp: b_def ffarr_rmleft_def ffarr_rm_def)
    then have "arr_ok 1 (b\<lparr>alen := n\<rparr>)" "view 1 (b\<lparr>alen := n\<rparr>) = take n (drop i D)"
      using i by (auto simp: arr_ok_def view_def)
    moreover have "gather_loop P ra (Suc f) buf (d\<lparr>goff := to_uint (Suc i)\<rparr>)
        = Some (b\<lparr>alen := n\<rparr>, d\<lparr>goff := i, gdata := drop (i + n) D\<rparr>, FFBUF_DONE)"
      using d i32 by (simp add: ffbuf_gather_def Let_def b_def)
    ultimately show ?thesis using Some v by auto
  qed
qed

lemma gather_round:
  assumes ra: "realloc_total ra" and n: "0 < n" "n \<le> length D" and D32: "length D < 2 ^ 31"
    and ok: "arr_ok 1 buf" and len: "alen buf = 0 \<or> alen buf = n - 1"
  shows "\<exists>buf' d' r. gather_input P ra buf D n = Some (buf', d', r) \<and> arr_ok 1 buf'
    \<and> (case find_win P n (view 1 buf @ D) of
         None \<Rightarrow> r = FFBUF_MORE \<and> view 1 buf' = drop (length D - (n - 1)) D \<and> alen buf' = n - 1
       | Some i \<Rightarrow> r = FFBUF_DONE \<and> view 1 buf' = take n (drop i (view 1 buf @ D))
           \<and> gdata d' = drop (i + n) (view 1 buf @ D))"
proof -
  define d0 where "d0 = \<lparr>gstate = I_INPUT, buflen = 0, gdata = D, ctglen = n, goff = 0\<rparr>"
  define pb where "pb = \<lparr>mem = D, alen = length D, acap = 0\<rparr>"
  have D: "D \<noteq> []" using n by auto
  have four: "(4 :: nat) = Suc (Suc 2)" and two: "Suc 2 = Suc (Suc 1)" by simp_all
  have pv: "view 1 pb = D" by (simp add: pb_def view_def)
  have inp: "gather_inputdata b d = (pb, d\<lparr>gstate := I_CHK\<rparr>, FFBUF_READY)" if "gdata d = D" for b d
    using D that by (simp add: gather_inputdata_def Let_def ffarr_set_def ffarr_free_def pb_def)
  have more: "alen b = n - 1" if "arr_ok 1 b" "view 1 b = drop (length D - (n - 1)) D" for b
    using length_view [OF that(1)] that(2) n by simp
  show ?thesis
  proof (cases "alen buf = 0")
    case True
    then have v: "view 1 buf = []" by (simp add: view_def)
    have "gather_input P ra buf D n = gather_loop P ra (Suc 2) pb
        (case find_win P n (view 1 pb) of None \<Rightarrow> d0\<lparr>gstate := I_CHK\<rparr> | Some i \<Rightarrow> d0\<lparr>gstate := I_CHK\<rparr>\<lparr>goff := to_uint (Suc i)\<rparr>)"
      unfolding gather_input_def d0_def [symmetric] four
    proof (subst loop_ready)
      show "ffbuf_gather ra buf d0 = (pb, d0\<lparr>gstate := I_CHK\<rparr>, FFBUF_READY)"
        using True by (simp add: ffbuf_gather_def inp d0_def)
    qed (simp add: d0_def)
    with loop_chk [OF ra n D32, where buf = pb and f = 2 and d = "d0\<lparr>gstate := I_CHK\<rparr>" and P = P] more v show ?thesis
      by (auto simp: pb_def d0_def split: option.splits)
  next
    case False
    with len have len': "alen buf = n - 1" "n - 1 \<noteq> 0" by auto
    have lv: "length (view 1 buf) = n - 1" using length_view [OF ok] len' by simp
    have b32: "to_uint (n - 1) = n - 1" using n D32 by (intro to_uint_id) simp
    have "n - 1 \<le> length D" using n by simp
    from append_total [OF ra ok this] obtain b1 where b1: "ffarr_append ra 1 buf D (n - 1) = (b1, True)"
      "arr_ok 1 b1" "view 1 b1 = view 1 buf @ take (n - 1) D" "alen b1 = alen buf + (n - 1)" "acap b1 \<noteq> 0"
      using len'(2) by auto
    define d1 where "d1 = d0\<lparr>buflen := n - 1, gstate := I_CHK_COPIED\<rparr>"
    have m: "min (length D) (n - Suc 0) = n - 1" using n by simp
    have g: "gather_input P ra buf D n = gather_loop P ra (Suc 2) b1
        (case find_win P n (view 1 b1) of None \<Rightarrow> d1 | Some i \<Rightarrow> d1\<lparr>goff := to_uint (Suc i)\<rparr>)"
      unfolding gather_input_def d0_def [symmetric] four
    proof (subst loop_ready)
      show "ffbuf_gather ra buf d0 = (b1, d1, FFBUF_READY)"
        using len' b1(1) b32 by (simp add: ffbuf_gather_def d0_def d1_def m Let_def)
    qed (simp add: d1_def d0_def)
    show ?thesis
    proof (cases "find_win P n (view 1 b1)")
      case None
      have "gather_input P ra buf D n = gather_loop P ra (Suc 1) pb
        (case find_win P n (view 1 pb) of None \<Rightarrow> d1\<lparr>gstate := I_CHK\<rparr> | Some i \<Rightarrow> d1\<lparr>gstate := I_CHK\<rparr>\<lparr>goff := to_uint (Suc i)\<rparr>)"
        unfolding g None option.case two
      proof (subst loop_ready)
        show "ffbuf_gather ra b1 d1 = (pb, d1\<lparr>gstate := I_CHK\<rparr>, FFBUF_READY)"
          using n len'(2) by (simp add: ffbuf_gather_def inp d1_def d0_def)
      qed (simp add: d1_def d0_def)
      moreover have "find_win P n (view 1 buf @ D) = map_option (\<lambda>i. length (view 1 buf) + i) (find_win P n D)"
        using find_win_split [OF n(1)] None b1(3) by simp
      ultimately show ?thesis
        using loop_chk [OF ra n D32, where buf = pb and f = 1 and d = "d1\<lparr>gstate := I_CHK\<rparr>" and P = P] more
        by (auto simp: pb_def d0_def d1_def split: option.splits)
    next
      case (Some i)
      then have i: "i + n \<le> length (view 1 b1)" unfolding find_win_Some by blast
      have whole: "find_win P n (view 1 buf @ D) = Some i"
      proof -
        have "view 1 buf @ D = view 1 b1 @ drop (n - 1) D" unfolding b1(3) by simp
        with find_win_prefix [OF Some] show ?thesis by simp
      qed
      have "length (view 1 b1) \<le> 2 * length D" using n lv unfolding b1(3) by simp
      then have i32: "to_uint (Suc i) = Suc i" using i n D32 by (intro to_uint_id) simp
      have "i + n \<le> alen b1" using i length_view [OF b1(2)] by simp
      from crop_spec [OF b1(2) this] b1(5) have
        c: "arr_ok 1 (ffarr_crop b1 i n 1)" "view 1 (ffarr_crop b1 i n 1) = take n (drop i (view 1 b1))" by simp_all
      have "take n (drop i (view 1 b1)) = take n (drop i (view 1 buf @ D))"
      proof -
        have "view 1 buf @ D = view 1 b1 @ drop (n - 1) D" unfolding b1(3) by simp
        with i show ?thesis by simp
      qed
      moreover have "drop (i + n) (view 1 buf @ D) = drop (i + n - (n - 1)) D"
        using lv n by simp
      moreover have "gather_input P ra buf D n = Some (ffarr_crop b1 i n 1,
          d1\<lparr>goff := i, gdata := drop (i + n - (n - 1)) D\<rparr>, FFBUF_DONE)"
        unfolding g Some option.case
        by (rule loop_end) (use i32 in \<open>simp_all add: ffbuf_gather_def d1_def d0_def Let_def\<close>)
      ultimately show ?thesis using whole c by simp
    qed
  qed
qed

lemma gather_stream_spec:
  assumes ra: "realloc_total ra" and n: "0 < n"
  shows "\<forall>c \<in> set cs. n \<le> length c \<and> length c < 2 ^ 31 \<Longrightarrow> arr_ok 1 buf \<Longrightarrow> alen buf = 0 \<or> alen buf = n - 1 \<Longrightarrow>
    find_win P n (view 1 buf) = None \<Longrightarrow>
    (case find_win P n (view 1 buf @ concat cs) of
       None \<Rightarrow> gather_stream P ra n buf cs = G_End
     | Some i \<Rightarrow> \<exists>rest left. gather_stream P ra n buf cs = G_Found (take n (drop i (view 1 buf @ concat cs))) rest left
         \<and> rest @ concat left = drop (i + n) (view 1 buf @ concat cs))"
proof (induction cs arbitrary: buf)
  case Nil
  then show ?case by simp
next
  case (Cons c cs)
  let ?B = "view 1 buf"
  have c: "n \<le> length c" "length c < 2 ^ 31" using Cons.prems(1) by auto
  from gather_round [OF ra n c Cons.prems(2,3), of P] obtain buf' d' r where
    g: "gather_input P ra buf c n = Some (buf', d', r)" "arr_ok 1 buf'"
    "case find_win P n (?B @ c) of
         None \<Rightarrow> r = FFBUF_MORE \<and> view 1 buf' = drop (length c - (n - 1)) c \<and> alen buf' = n - 1
       | Some i \<Rightarrow> r = FFBUF_DONE \<and> view 1 buf' = take n (drop i (?B @ c)) \<and> gdata d' = drop (i + n) (?B @ c)"
    by blast
  show ?case
  proof (cases "find_win P n (?B @ c)")
    case (Some i)
    then have i: "i + n \<le> length (?B @ c)" unfolding find_win_Some by blast
    have "find_win P n (?B @ concat (c # cs)) = Some i"
      using find_win_prefix [OF Some, of "concat cs"] by simp
    moreover have "take n (drop i (?B @ concat (c # cs))) = take n (drop i (?B @ c))"
      using win_prefix [OF i, of "concat cs"] by simp
    moreover have "drop (i + n) (?B @ concat (c # cs)) = drop (i + n) (?B @ c) @ concat cs"
    proof -
      have "?B @ concat (c # cs) = (?B @ c) @ concat cs" by simp
      then show ?thesis using i by (simp only: drop_append) simp
    qed
    moreover have "gather_stream P ra n buf (c # cs) = G_Found (take n (drop i (?B @ c))) (drop (i + n) (?B @ c)) cs"
      using g(1,3) Some by simp
    ultimately show ?thesis by auto
  next
    case None
    let ?B' = "drop (length c - (n - 1)) c" and ?X = "?B @ take (length c - (n - 1)) c"
    have g': "r = FFBUF_MORE" "view 1 buf' = ?B'" "alen buf' = n - 1" using g(3) None by simp_all
    have S: "?B @ concat (c # cs) = ?X @ (?B' @ concat cs)" by simp
    have lb: "length ?B' = n - 1" using c(1) n by simp
    have "\<not> j + n \<le> length ?B'" for j using n unfolding lb by linarith
    then have b': "find_win P n (view 1 buf') = None" unfolding g'(2) find_win_None by blast
    have "take (n - 1) (?B' @ concat cs) = ?B'" using lb by simp
    moreover have "?X @ ?B' = ?B @ c" by simp
    ultimately have "?X @ take (n - 1) (?B' @ concat cs) = ?B @ c" by (simp only:)
    with None have "find_win P n (?X @ take (n - 1) (?B' @ concat cs)) = None" by simp
    from find_win_split [OF n this] have
      w: "find_win P n (?B @ concat (c # cs)) = map_option (\<lambda>i. length ?X + i) (find_win P n (view 1 buf' @ concat cs))"
      unfolding S g'(2) .
    have st: "gather_stream P ra n buf (c # cs) = gather_stream P ra n buf' cs"
      using g(1) g'(1) by simp
    from Cons.IH [OF _ g(2) disjI2 [OF g'(3)] b'] Cons.prems(1) have
      ih: "case find_win P n (view 1 buf' @ concat cs) of
         None \<Rightarrow> gather_stream P ra n buf' cs = G_End
       | Some i \<Rightarrow> \<exists>rest left. gather_stream P ra n buf' cs = G_Found (take n (drop i (view 1 buf' @ concat cs))) rest left
           \<and> rest @ concat left = drop (i + n) (view 1 buf' @ concat cs)" by simp
    show ?thesis
    proof (cases "find_win P n (view 1 buf' @ concat cs)")
      case None
      with ih w st show ?thesis by simp
    next
      case (Some i)
      have "drop (length ?X + i) (?X @ Y) = drop i Y" "drop (length ?X + i + n) (?X @ Y) = drop (i + n) Y" for Y
        by (simp_all add: add.assoc)
      with Some ih w st show ?thesis unfolding S g'(2) by simp
    qed
  qed
qed

section \<open>ffbuf\_contig\<close>

text \<open>The array, the result (bytes processed or -1) and \<open>s\<close>.\<close>

definition ffbuf_contig :: "realloc \<Rightarrow> ffarr \<Rightarrow> bytes \<Rightarrow> nat \<Rightarrow> ffarr \<times> int \<times> bytes" where
  "ffbuf_contig ra buf inp n =
     (if alen buf \<noteq> 0 then
        if alen buf \<ge> n then (buf, 0, view 1 buf)
        else
          let k = min (n - 1) (length inp);
              (buf1, ok) = ffarr_append ra 1 buf inp k
          in if \<not> ok then (buf1, -1, [])
             else if alen buf1 < n then (buf1, 0, [])
             else (buf1, int k, view 1 buf1)
      else if length inp < n then (buf, 0, [])
      else (buf, 0, inp))"

definition ffbuf_contig_store :: "realloc \<Rightarrow> ffarr \<Rightarrow> bytes \<Rightarrow> nat \<Rightarrow> ffarr \<times> int" where
  "ffbuf_contig_store ra buf inp n =
     (if alen buf \<noteq> 0 then
        let k = min (n - 1) (alen buf) in
        if k \<le> length inp \<and> take k inp = drop (alen buf - k) (view 1 buf) then (buf\<lparr>alen := 0\<rparr>, 0)
        else (ffarr_rmleft buf (alen buf - k) 1, 0)
      else
        let k = min (n - 1) (length inp);
            (buf1, ok) = ffarr_append ra 1 buf (drop (length inp - k) inp) k
        in if \<not> ok then (buf1, -1) else (buf1, int (length inp)))"

text \<open>The loop of the callers (as in \<open>ffaac-adts.c\<close>): the window found, or the array for the next input.\<close>

fun contig_input :: "(bytes \<Rightarrow> bool) \<Rightarrow> realloc \<Rightarrow> nat \<Rightarrow> ffarr \<Rightarrow> bytes \<Rightarrow> nat \<Rightarrow> (ffarr + bytes) option" where
  "contig_input P ra 0 buf inp n = None"
| "contig_input P ra (Suc f) buf inp n =
     (case ffbuf_contig ra buf inp n of (buf1, r, s) \<Rightarrow>
      let inp1 = drop (nat r) inp in
      case (if length s \<ge> n then find_win P n s else None) of
        Some i \<Rightarrow> Some (Inr (take n (drop i s)))
      | None \<Rightarrow>
          (case ffbuf_contig_store ra buf1 inp1 n of (buf2, r2) \<Rightarrow>
           let inp2 = drop (nat r2) inp1 in
           if inp2 = [] then Some (Inl buf2) else contig_input P ra f buf2 inp2 n))"

fun contig_stream :: "(bytes \<Rightarrow> bool) \<Rightarrow> realloc \<Rightarrow> nat \<Rightarrow> ffarr \<Rightarrow> bytes list \<Rightarrow> bytes option" where
  "contig_stream P ra n buf [] = None"
| "contig_stream P ra n buf (c # cs) =
     (case contig_input P ra 20 buf c n of
        Some (Inl buf1) \<Rightarrow> contig_stream P ra n buf1 cs
      | Some (Inr w) \<Rightarrow> Some w
      | None \<Rightarrow> None)"

section \<open>Properties\<close>

text \<open>
  C15: ffbuf_gather finds data that is split between input buffers: when every buffer has at least ctglen
  and less than 2^31 bytes and no allocation fails, the callers' loop ends on every buffer; it finds a window exactly when the
  concatenated stream has one and otherwise comes to the end of the input without an error; the window is the first one, and what is unread
  of its buffer, with the buffers behind, is exactly the stream behind the window.
\<close>

theorem gather_finds_first:
  assumes "realloc_total ra" and "0 < n" and "\<forall>c \<in> set cs. n \<le> length c \<and> length c < 2 ^ 31"
  shows "case find_win P n (concat cs) of
       None \<Rightarrow> gather_stream P ra n ffarr_null cs = G_End
     | Some i \<Rightarrow> \<exists>rest left. gather_stream P ra n ffarr_null cs = G_Found (take n (drop i (concat cs))) rest left
         \<and> rest @ concat left = drop (i + n) (concat cs)"
proof -
  have v: "view 1 ffarr_null = []" "arr_ok 1 ffarr_null" "alen ffarr_null = 0"
    by (simp_all add: ffarr_null_def view_def arr_ok_def)
  have "find_win P n (view 1 ffarr_null) = None" unfolding v(1) using assms(2) by (simp add: find_win_None)
  with gather_stream_spec [OF assms(1,2,3) v(2), of P] v(3) show ?thesis
    unfolding v(1) append_Nil by blast
qed

lemma ex_realloc_total: "realloc_total ex_realloc"
  using ex_realloc_ok by (simp add: realloc_total_def ex_realloc_def)

theorem gather_finds_first_witness:
  "\<exists>rest left. gather_stream (\<lambda>w. w = [2, 3]) ex_realloc 2 ffarr_null [[1, 2], [3, 4], [5, 6]] = G_Found [2, 3] rest left
    \<and> rest @ concat left = [4, 5, 6]"
proof -
  have "find_win (\<lambda>w. w = [2, 3 :: u8]) 2 (concat [[1, 2], [3, 4], [5, 6]]) = Some 1" by code_simp
  with gather_finds_first [OF ex_realloc_total, of 2 "[[1, 2], [3, 4], [5, 6]]" "\<lambda>w. w = [2, 3]"] show ?thesis by auto
qed

text \<open>
  With input buffers shorter than that, ffbuf_gather loses data: it keeps only the tail of the last
  buffer, so a window that spans three buffers is never found.
\<close>

theorem gather_misses_three_buffers:
  "gather_stream (\<lambda>w. w = [3, 4, 5, 6]) ex_realloc 4 ffarr_null [[1, 2, 3], [4, 5], [6, 7, 8, 9]] = G_End
    \<and> find_win (\<lambda>w. w = [3, 4, 5, 6 :: u8]) 4 (concat [[1, 2, 3], [4, 5], [6, 7, 8, 9]]) = Some 2"
  by code_simp

text \<open>
  ffbuf_contig and ffbuf_contig_store do not keep the stream: one-byte inputs are appended again
  and again, so that a window is found that the stream does not have; and when the input happens to
  start with the bytes at the end of the buffer, the buffer is dropped and a window is missed.
\<close>

theorem contig_not_the_stream:
  "contig_stream (\<lambda>w. w = [1, 2, 2, 2]) ex_realloc 4 ffarr_null [[1], [2]] = Some [1, 2, 2, 2]
    \<and> contig_stream (\<lambda>w. w = [2, 3, 1, 2]) ex_realloc 4 ffarr_null [[9, 9, 9, 9], [1, 2, 3, 1, 2, 3]] = None
    \<and> find_win (\<lambda>w. w = [2, 3, 1, 2 :: u8]) 4 (concat [[9, 9, 9, 9], [1, 2, 3, 1, 2, 3]]) = Some 5"
  by code_simp

end
