(* ===== verification/FF_Str.thy ===== *)
theory FF_Str
  imports FF_Number FF_Bits "HOL-Library.List_Lexorder" "HOL-Library.Sublist"
begin

unbundle bit_operations_syntax

text \<open>
  Strings (\<open>string.h\<close>, \<open>ffstring.c\<close>): character classes, comparison, search, splitting, case
  conversion, replacement and wildcards. A string is the list of its bytes, a zero-terminated
  string the list of the bytes before the terminator; a returned pointer is its offset.
  \<open>char\<close> is signed: a byte compared as \<open>char\<close> is read with \<open>sint\<close>, as \<open>byte\<close> with \<open>uint\<close>.
\<close>

section \<open>Character classes\<close>

definition ffchar_lower :: "int \<Rightarrow> int" where
  "ffchar_lower ch = ch OR 0x20"

definition ffchar_upper :: "int \<Rightarrow> int" where
  "ffchar_upper ch = ch AND NOT 0x20"

definition ffchar_tonum :: "int \<Rightarrow> int" where
  "ffchar_tonum ch = ch - 48"

definition ffchar_isdigit :: "int \<Rightarrow> bool" where
  "ffchar_isdigit ch \<longleftrightarrow> 48 \<le> ch \<and> ch \<le> 57"

definition ffchar_isup :: "int \<Rightarrow> bool" where
  "ffchar_isup ch \<longleftrightarrow> 65 \<le> ch \<and> ch \<le> 90"

definition ffchar_islow :: "int \<Rightarrow> bool" where
  "ffchar_islow ch \<longleftrightarrow> 97 \<le> ch \<and> ch \<le> 122"

definition ffchar_ishex :: "int \<Rightarrow> bool" where
  "ffchar_ishex ch \<longleftrightarrow>
     (let b = take_bit 32 (ffchar_lower ch) in ffchar_isdigit ch \<or> (97 \<le> b \<and> b \<le> 102))"

definition ffchar_isletter :: "int \<Rightarrow> bool" where
  "ffchar_isletter ch = ffchar_islow (ffchar_lower ch)"

definition ffchar_iswhitespace :: "int \<Rightarrow> bool" where
  "ffchar_iswhitespace ch \<longleftrightarrow> ch = 32 \<or> ch = 9 \<or> ch = 10 \<or> ch = 13"

definition ffchar_tohex :: "int \<Rightarrow> int" where
  "ffchar_tohex ch =
     (if ffchar_isdigit ch then ch - 48
      else let b = take_bit 32 (ffchar_lower ch - 97 + 10) in
        if b \<le> 0x0f then b else -1)"

definition ffcharmask_name :: "u32 list" where
  "ffcharmask_name = [0, 0x03ff0000, 0x87fffffe, 0x07fffffe, 0, 0, 0, 0]"

definition ffcharmask_nowhite :: "u32 list" where
  "ffcharmask_nowhite = [0, 0xfffffffe, 0xffffffff, 0x7fffffff, 0, 0, 0, 0]"

definition ffcharmask_printable :: "u32 list" where
  "ffcharmask_printable = [0, 0xffffffff, 0xffffffff, 0x7fffffff,
     0xffffffff, 0xffffffff, 0xffffffff, 0xffffffff]"

definition ffcharmask_printable_tabcrlf :: "u32 list" where
  "ffcharmask_printable_tabcrlf = [0x00002600, 0xffffffff, 0xffffffff, 0x7fffffff,
     0xffffffff, 0xffffffff, 0xffffffff, 0xffffffff]"

definition ffcharmask_nobslash_esc :: "u32 list" where
  "ffcharmask_nobslash_esc = [0xffffc07f, 0xffffffff, 0xefffffff, 0xffffffff,
     0xffffffff, 0xffffffff, 0xffffffff, 0xffffffff]"

definition esc_nprint :: "u32 list" where
  "esc_nprint = [0x00002600, 0xffffffff, 0xefffffff, 0x7fffffff,
     0xffffffff, 0xffffffff, 0xffffffff, 0xffffffff]"

text \<open>A byte of a mask of 256 bits.\<close>

definition mask_has :: "u32 list \<Rightarrow> u8 \<Rightarrow> bool" where
  "mask_has m b = (ffbit_testarr m (unat b) = Some True)"

definition ffchar_isname :: "u8 \<Rightarrow> bool" where
  "ffchar_isname ch = mask_has ffcharmask_name ch"

definition ffchar_isansiwhite :: "u8 \<Rightarrow> bool" where
  "ffchar_isansiwhite ch = (\<not> mask_has ffcharmask_nowhite ch)"

lemma or_32: "ch OR 32 = (if bit ch 5 then ch else ch + 32)" for ch :: int
proof -
  have "ch OR 2 ^ 5 = set_bit 5 ch" by (simp add: set_bit_eq_or)
  also have "\<dots> = ch + of_bool (\<not> bit ch 5) * 2 ^ 5" by (simp only: set_bit_eq)
  also have "\<dots> = (if bit ch 5 then ch else ch + 32)" by simp
  finally show ?thesis by simp
qed

lemma lower_cases:
  obtains k where "64 * k \<le> ch" "ch < 64 * k + 32" "ffchar_lower ch = ch + 32"
  | k where "64 * k + 32 \<le> ch" "ch < 64 * k + 64" "ffchar_lower ch = ch"
proof -
  define q where "q = ch div 32"
  have q: "32 * q \<le> ch" "ch < 32 * q + 32" unfolding q_def by presburger+
  have b: "bit ch 5 \<longleftrightarrow> odd q" by (simp add: bit_iff_odd q_def)
  show ?thesis
  proof (cases "odd q")
    case True
    then obtain k where "q = 2 * k + 1" by (rule oddE)
    with q b True that(2) [of k] show ?thesis by (simp add: ffchar_lower_def or_32)
  next
    case False
    then obtain k where "q = 2 * k" by (auto elim: evenE)
    with q b False that(1) [of k] show ?thesis by (simp add: ffchar_lower_def or_32)
  qed
qed

lemma ffchar_lower_up [simp]: "ffchar_isup ch \<Longrightarrow> ffchar_lower ch = ch + 32"
  unfolding ffchar_isup_def by (cases ch rule: lower_cases) presburger+

lemma char_enum: "list_all P [-128..255] \<Longrightarrow> -128 \<le> ch \<Longrightarrow> ch \<le> 255 \<Longrightarrow> P ch"
  unfolding list_all_iff set_upto by (metis atLeastAtMost_iff)

lemma ffchar_isletter_iff:
  assumes "-128 \<le> ch" and "ch \<le> 255"
  shows "ffchar_isletter ch \<longleftrightarrow> ffchar_isup ch \<or> ffchar_islow ch"
proof -
  have "list_all (\<lambda>ch. ffchar_isletter ch = (ffchar_isup ch \<or> ffchar_islow ch)) [-128..255]"
    by code_simp
  from char_enum [OF this assms] show ?thesis .
qed

text \<open>
  The hexadecimal digits, and the two other characters that \<open>ffchar_tohex\<close> accepts: the ones
  before \<open>A\<close> and \<open>a\<close>, both with the value 9.
\<close>

lemma ffchar_tohex_hex:
  assumes "-128 \<le> ch" and "ch < 128"
  shows "ffchar_tohex ch =
    (if 48 \<le> ch \<and> ch \<le> 57 then ch - 48
     else if 65 \<le> ch \<and> ch \<le> 70 then ch - 55
     else if 97 \<le> ch \<and> ch \<le> 102 then ch - 87
     else if ch = 64 \<or> ch = 96 then 9 else -1)"
proof -
  have "list_all (\<lambda>ch. ffchar_tohex ch =
    (if 48 \<le> ch \<and> ch \<le> 57 then ch - 48
     else if 65 \<le> ch \<and> ch \<le> 70 then ch - 55
     else if 97 \<le> ch \<and> ch \<le> 102 then ch - 87
     else if ch = 64 \<or> ch = 96 then 9 else -1)) [-128..255]"
    by code_simp
  from char_enum [OF this, of ch] assms show ?thesis by simp
qed

lemma ffchar_tohex_range: "ffchar_tohex ch = -1 \<or> (0 \<le> ffchar_tohex ch \<and> ffchar_tohex ch < 16)"
  by (auto simp: ffchar_tohex_def ffchar_isdigit_def Let_def)

section \<open>Comparison\<close>

text \<open>The conversion \<open>if (ffchar_isup(ch)) ch = ffchar_lower(ch)\<close> of the comparisons.\<close>

definition icase :: "int \<Rightarrow> int" where
  "icase ch = (if ffchar_isup ch then ffchar_lower ch else ch)"

text \<open>Both buffers must hold \<open>len\<close> bytes; reading past one of them is \<open>None\<close>.\<close>

fun ffs_icmp :: "bytes \<Rightarrow> bytes \<Rightarrow> nat \<Rightarrow> int option" where
  "ffs_icmp s1 s2 0 = Some 0"
| "ffs_icmp (a # s1) (b # s2) (Suc len) =
     (let ch1 = uint a; ch2 = uint b in
      if ch1 \<noteq> ch2 then
        (let ch1 = icase ch1; ch2 = icase ch2 in
         if ch1 \<noteq> ch2 then Some (if ch1 < ch2 then -1 else 1) else ffs_icmp s1 s2 len)
      else ffs_icmp s1 s2 len)"
| "ffs_icmp _ _ (Suc len) = None"

text \<open>\<open>memcmp\<close>; C leaves the magnitude of a non-zero result open, 1 stands for it.\<close>

fun ffs_cmp :: "bytes \<Rightarrow> bytes \<Rightarrow> nat \<Rightarrow> int option" where
  "ffs_cmp s1 s2 0 = Some 0"
| "ffs_cmp (a # s1) (b # s2) (Suc len) =
     (if a = b then ffs_cmp s1 s2 len else Some (if a < b then -1 else 1))"
| "ffs_cmp _ _ (Suc len) = None"

text \<open>\<open>return len1 - len2\<close> converts the difference of two \<open>size_t\<close> to \<open>int\<close>.\<close>

definition sint32 :: "int \<Rightarrow> int" where
  "sint32 i = signed_take_bit 31 i"

definition ffs_cmp4 :: "bytes \<Rightarrow> bytes \<Rightarrow> int option" where
  "ffs_cmp4 s1 s2 = map_option
     (\<lambda>r. if r = 0 then sint32 (int (length s1) - int (length s2)) else r)
     (ffs_cmp s1 s2 (min (length s1) (length s2)))"

definition ffs_icmp4 :: "bytes \<Rightarrow> bytes \<Rightarrow> int option" where
  "ffs_icmp4 s1 s2 = map_option
     (\<lambda>r. if r = 0 then sint32 (int (length s1) - int (length s2)) else r)
     (ffs_icmp s1 s2 (min (length s1) (length s2)))"

text \<open>\<open>int c1 = s1[i]\<close>: here the bytes are signed.\<close>

fun cmpn_loop :: "bytes \<Rightarrow> bytes \<Rightarrow> nat \<Rightarrow> int \<Rightarrow> int option" where
  "cmpn_loop s1 s2 0 i = Some 0"
| "cmpn_loop (a # s1) (b # s2) (Suc len) i =
     (let c1 = sint a; c2 = sint b in
      if c1 \<noteq> c2 then Some (if c1 < c2 then - i - 1 else i + 1)
      else cmpn_loop s1 s2 len (i + 1))"
| "cmpn_loop _ _ (Suc len) i = None"

definition ffs_cmpn :: "bytes \<Rightarrow> bytes \<Rightarrow> nat \<Rightarrow> int option" where
  "ffs_cmpn s1 s2 len = cmpn_loop s1 s2 len 0"

text \<open>
  A buffer against a zero-terminated string: reading the end of the list \<open>sz2\<close> gives the
  terminator. \<open>cv\<close> is the conversion of two different bytes.
\<close>

fun cmpz_loop :: "(int \<Rightarrow> int) \<Rightarrow> bytes \<Rightarrow> bytes \<Rightarrow> int \<Rightarrow> int" where
  "cmpz_loop cv [] [] i = 0"
| "cmpz_loop cv [] (c # sz2) i = (if c \<noteq> 0 then - i - 1 else 0)"
| "cmpz_loop cv (a # s1) [] i = i + 1"
| "cmpz_loop cv (a # s1) (b # sz2) i =
     (let ch1 = uint a; ch2 = uint b in
      if ch2 = 0 then i + 1
      else if ch1 \<noteq> ch2 then
        (let ch1 = cv ch1; ch2 = cv ch2 in
         if ch1 \<noteq> ch2 then (if ch1 < ch2 then - i - 1 else i + 1)
         else cmpz_loop cv s1 sz2 (i + 1))
      else cmpz_loop cv s1 sz2 (i + 1))"

definition ffs_cmpz :: "bytes \<Rightarrow> bytes \<Rightarrow> int" where
  "ffs_cmpz s1 sz2 = cmpz_loop (\<lambda>ch. ch) s1 sz2 0"

definition ffs_icmpz :: "bytes \<Rightarrow> bytes \<Rightarrow> int" where
  "ffs_icmpz s1 sz2 = cmpz_loop icase s1 sz2 0"

definition ffs_match :: "bytes \<Rightarrow> bytes \<Rightarrow> bool" where
  "ffs_match s starts_with =
     (length starts_with \<le> length s \<and> ffs_cmp s starts_with (length starts_with) = Some 0)"

definition ffs_imatch :: "bytes \<Rightarrow> bytes \<Rightarrow> bool" where
  "ffs_imatch s starts_with =
     (length starts_with \<le> length s \<and> ffs_icmp s starts_with (length starts_with) = Some 0)"

definition ffsz_match :: "bytes \<Rightarrow> bytes \<Rightarrow> bool" where
  "ffsz_match sz starts_with =
     (let r = ffs_cmpz starts_with sz in r = 0 \<or> (r < 0 \<and> - r - 1 = int (length starts_with)))"

definition ffsz_imatch :: "bytes \<Rightarrow> bytes \<Rightarrow> bool" where
  "ffsz_imatch sz starts_with =
     (let r = ffs_icmpz starts_with sz in r = 0 \<or> (r < 0 \<and> - r - 1 = int (length starts_with)))"

section \<open>Comparison: the order it decides\<close>

definition fold_case :: "u8 \<Rightarrow> u8" where
  "fold_case b = (if ffchar_isup (uint b) then b + 32 else b)"

lemma uint_fold_case: "uint (fold_case b) = icase (uint b)"
proof (cases "ffchar_isup (uint b)")
  case True
  then have "uint (b + 32) = uint b + 32"
    by (simp add: ffchar_isup_def uint_word_ariths)
  with True show ?thesis by (simp add: fold_case_def icase_def)
next
  case False
  then show ?thesis by (simp add: fold_case_def icase_def)
qed

lemma icase_eq [simp]: "icase (uint a) = icase (uint b) \<longleftrightarrow> fold_case a = fold_case b"
  by (simp add: uint_fold_case [symmetric] word_uint_eq_iff)

lemma icase_less [simp]: "icase (uint a) < icase (uint b) \<longleftrightarrow> fold_case a < fold_case b"
  by (simp add: uint_fold_case [symmetric] word_less_def)

text \<open>The result of a comparison that reports the mismatch position, for a key of the bytes.\<close>

definition mismatch :: "(u8 \<Rightarrow> u8) \<Rightarrow> bytes \<Rightarrow> bytes \<Rightarrow> int" where
  "mismatch key s z = ffint_cmp (map key s) (map key z)
     * (int (length (longest_common_prefix (map key s) (map key z))) + 1)"

lemma list_less_simps [simp]:
  "\<not> (xs < ([] :: 'a::linorder list))" "[] < y # ys"
  "(x # xs < y # ys) = (x < y \<or> x = y \<and> xs < (ys :: 'a list))"
  by simp_all

lemma mismatch_Nil [simp]: "mismatch key [] [] = 0"
  "mismatch key [] (b # z) = -1" "mismatch key (a # s) [] = 1"
  by (simp_all add: mismatch_def ffint_cmp_def)

lemma cmpz_loop_mismatch:
  assumes "\<And>a b :: u8. cv (uint a) = cv (uint b) \<longleftrightarrow> key a = key b"
    and "\<And>a b :: u8. cv (uint a) < cv (uint b) \<longleftrightarrow> key a < key b"
    and "0 \<notin> set z" and "0 \<le> i"
  shows "cmpz_loop cv s z i = (let m = mismatch key s z in if m = 0 then 0 else m + sgn m * i)"
  using assms
proof (induction cv s z i rule: cmpz_loop.induct [case_names e0 e1 e2 step])
  case (step cv a s1 b sz2 i)
  have nz: "uint b \<noteq> 0" using step.prems(3) by (auto simp: word_uint_eq_iff)
  show ?case
  proof (cases "key a = key b")
    case True
    then have eq: "cv (uint a) = cv (uint b)" using step.prems(1) by simp
    have "cmpz_loop cv (a # s1) (b # sz2) i = cmpz_loop cv s1 sz2 (i + 1)"
      using nz eq by (simp add: Let_def)
    also have "\<dots> = (let m = mismatch key s1 sz2 in if m = 0 then 0 else m + sgn m * (i + 1))"
      using step nz eq by (cases "uint a = uint b") (simp_all add: Let_def)
    also have "\<dots> = (let m = mismatch key (a # s1) (b # sz2) in if m = 0 then 0 else m + sgn m * i)"
      using True by (auto simp: mismatch_def ffint_cmp_def Let_def)
    finally show ?thesis .
  next
    case False
    then have "uint a \<noteq> uint b" by (metis word_uint_eq_iff)
    with False nz step.prems(1,2) show ?thesis
      by (auto simp: Let_def mismatch_def ffint_cmp_def)
  qed
qed (auto simp: Let_def)

lemma ffs_cmpz_mismatch: "0 \<notin> set z \<Longrightarrow> ffs_cmpz s z = mismatch id s z"
  unfolding ffs_cmpz_def
  by (subst cmpz_loop_mismatch [where key = id])
     (auto simp: Let_def word_uint_eq_iff word_less_def)

lemma ffs_icmpz_mismatch: "0 \<notin> set z \<Longrightarrow> ffs_icmpz s z = mismatch fold_case s z"
  unfolding ffs_icmpz_def
  by (subst cmpz_loop_mismatch [where key = fold_case]) (auto simp: Let_def)

lemma mismatch_cmp [simp]:
  "mismatch key s z = 0 \<longleftrightarrow> map key s = map key z"
  "mismatch key s z < 0 \<longleftrightarrow> map key s < map key z"
  "0 < mismatch key s z \<longleftrightarrow> map key z < map key s"
  by (auto simp: mismatch_def ffint_cmp_def mult_less_0_iff zero_less_mult_iff)

lemma ffs_icmp_order:
  "n \<le> length s1 \<Longrightarrow> n \<le> length s2 \<Longrightarrow>
    ffs_icmp s1 s2 n = Some (ffint_cmp (map fold_case (take n s1)) (map fold_case (take n s2)))"
proof (induction s1 s2 n rule: ffs_icmp.induct [case_names z step e1 e2])
  case (step a s1 b s2 n)
  show ?case
  proof (cases "fold_case a = fold_case b")
    case True
    then have "ffs_icmp (a # s1) (b # s2) (Suc n) = ffs_icmp s1 s2 n" by (simp add: Let_def)
    with step True show ?thesis
      by (cases "uint a = uint b") (simp_all add: Let_def ffint_cmp_def)
  next
    case False
    then have "uint a \<noteq> uint b" by (metis word_uint_eq_iff)
    with False show ?thesis by (simp add: Let_def ffint_cmp_def)
  qed
qed simp_all

lemma ffs_cmp_order:
  "n \<le> length s1 \<Longrightarrow> n \<le> length s2 \<Longrightarrow> ffs_cmp s1 s2 n = Some (ffint_cmp (take n s1) (take n s2))"
  by (induction s1 s2 n rule: ffs_cmp.induct) (auto simp: ffint_cmp_def)

lemma ffs_match_prefix: "ffs_match s p \<longleftrightarrow> prefix p s"
  unfolding ffs_match_def
  by (auto simp: ffs_cmp_order prefix_def intro: exI [of _ "drop (length p) s"]) (metis append_take_drop_id)

text \<open>A comparison of a buffer with a zero-terminated string by the keys of their bytes.\<close>

locale key_compare =
  fixes cmp :: "bytes \<Rightarrow> bytes \<Rightarrow> int" and key :: "u8 \<Rightarrow> u8"
  assumes cmp_mismatch: "0 \<notin> set z \<Longrightarrow> cmp s z = mismatch key s z"
begin

lemma cmp_bound: "0 \<notin> set z \<Longrightarrow> \<bar>cmp s z\<bar> \<le> int (length s) + 1"
proof -
  have "length (longest_common_prefix (map key s) (map key z)) \<le> length s"
    by (metis length_map longest_common_prefix_prefix1 prefix_length_le)
  then show "0 \<notin> set z \<Longrightarrow> \<bar>cmp s z\<bar> \<le> int (length s) + 1"
    by (auto simp: cmp_mismatch mismatch_def ffint_cmp_def)
qed

text \<open>The string starts with the buffer exactly when the mismatch is at the end of the buffer.\<close>

lemma match_iff:
  assumes "0 \<notin> set z"
  shows "(let r = cmp s z in r = 0 \<or> (r < 0 \<and> - r - 1 = int (length s))) \<longleftrightarrow> prefix (map key s) (map key z)"
proof -
  let ?S = "map key s" and ?Z = "map key z"
  let ?p = "longest_common_prefix ?S ?Z"
  have p: "prefix ?p ?S" "prefix ?p ?Z"
    by (rule longest_common_prefix_prefix1, rule longest_common_prefix_prefix2)
  have full: "length ?p = length ?S \<longleftrightarrow> prefix ?S ?Z"
  proof
    assume "length ?p = length ?S"
    with p(1) have "?p = ?S" by (metis prefix_length_prefix prefix_order.eq_iff order_refl)
    with p(2) show "prefix ?S ?Z" by simp
  next
    assume "prefix ?S ?Z"
    then have "prefix ?S ?p" by (intro longest_common_prefix_max_prefix) auto
    with p(1) show "length ?p = length ?S" by (metis prefix_order.antisym)
  qed
  have less: "?S < ?Z" if "prefix ?S ?Z" "?S \<noteq> ?Z"
    using that by (auto simp: prefix_def list_less_def lexord_append_rightI neq_Nil_conv)
  show ?thesis
    unfolding Let_def cmp_mismatch [OF assms] using full less
    by (auto simp: mismatch_def ffint_cmp_def split: if_splits)
qed

lemma binsearch:
  assumes "sorted (map (map key) arr)" and "\<forall>z \<in> set arr. 0 \<notin> set z" and "length s < 2 ^ 31 - 1"
  shows "search_ok (\<lambda>z. map key z = map key s) arr
    (binfind_loop (\<lambda>z. sint32 (cmp s z)) arr 0 (length arr))"
proof -
  have small: "sint32 (cmp s z) = mismatch key s z" if "z \<in> set arr" for z
  proof -
    have "\<bar>cmp s z\<bar> \<le> int (length s) + 1" using assms(2) that by (auto intro: cmp_bound)
    moreover have "int (length s) < 2147483647" using assms(3) by simp
    ultimately have "- (2 ^ 31) \<le> cmp s z" "cmp s z < 2 ^ 31" by simp_all
    then have "sint32 (cmp s z) = cmp s z" unfolding sint32_def by (rule signed_take_bit_int_eq_self)
    with assms(2) that show ?thesis by (simp add: cmp_mismatch)
  qed
  have "(sint32 (cmp s (arr ! i)) < 0 \<longrightarrow> sint32 (cmp s (arr ! j)) < 0)
    \<and> (0 < sint32 (cmp s (arr ! j)) \<longrightarrow> 0 < sint32 (cmp s (arr ! i)))" if "i < j" "j < length arr" for i j
  proof -
    have "map key (arr ! i) \<le> map key (arr ! j)"
      using assms(1) that by (auto simp: sorted_iff_nth_mono)
    moreover have "arr ! i \<in> set arr" "arr ! j \<in> set arr" using that by auto
    ultimately show ?thesis by (auto simp: small)
  qed
  then have "ordered_for (\<lambda>z. sint32 (cmp s z)) arr"
    by (simp add: ordered_for_def sorted_wrt_iff_nth_less)
  from binfind_loop_ok [OF this] have "search_ok (\<lambda>z. sint32 (cmp s z) = 0) arr
    (binfind_loop (\<lambda>z. sint32 (cmp s z)) arr 0 (length arr))" .
  moreover have "\<And>z. z \<in> set arr \<Longrightarrow> sint32 (cmp s z) = 0 \<longleftrightarrow> map key z = map key s"
    by (auto simp: small)
  ultimately show ?thesis unfolding search_ok_def by (auto split: if_splits)
qed

end

interpretation cmpz: key_compare ffs_cmpz id
  by unfold_locales (rule ffs_cmpz_mismatch)
interpretation icmpz: key_compare ffs_icmpz fold_case
  by unfold_locales (rule ffs_icmpz_mismatch)

section \<open>Search in arrays of strings\<close>

text \<open>\<open>ffstr_eqz\<close>: equal length and equal bytes, decided by \<open>ffs_cmpz\<close>.\<close>

definition ffstr_eqz :: "bytes \<Rightarrow> bytes \<Rightarrow> bool" where
  "ffstr_eqz s sz = (ffs_cmpz s sz = 0)"

definition ffs_findarrz :: "bytes list \<Rightarrow> bytes \<Rightarrow> int" where
  "ffs_findarrz ar search = find_loop (\<lambda>z. ffstr_eqz search z) ar 0"

definition ffs_ifindarrz :: "bytes list \<Rightarrow> bytes \<Rightarrow> int" where
  "ffs_ifindarrz ar search = find_loop (\<lambda>z. ffs_icmpz search z = 0) ar 0"

definition ffszarr_findsorted :: "bytes list \<Rightarrow> bytes \<Rightarrow> int" where
  "ffszarr_findsorted ar search = binfind_loop (\<lambda>z. sint32 (ffs_cmpz search z)) ar 0 (length ar)"

definition ffszarr_ifindsorted :: "bytes list \<Rightarrow> bytes \<Rightarrow> int" where
  "ffszarr_ifindsorted ar search = binfind_loop (\<lambda>z. sint32 (ffs_icmpz search z)) ar 0 (length ar)"

text \<open>The value of the entry \<open>KEY=VALUE\<close>: its string and the offset in it.\<close>

fun ffszarr_findkeyz :: "bytes list \<Rightarrow> bytes \<Rightarrow> (nat \<times> nat) option" where
  "ffszarr_findkeyz [] key = None"
| "ffszarr_findkeyz (z # ar) key =
     (if ffsz_match z key \<and> length key < length z \<and> z ! length key = 61
      then Some (0, length key + 1)
      else map_option (\<lambda>(i, off). (Suc i, off)) (ffszarr_findkeyz ar key))"

text \<open>
  An array of \<open>n\<close> fields of \<open>m\<close> chars each, \<open>fields\<close> the list of the fields; a shorter string
  is padded with a zero.
\<close>

definition charr_cmp :: "nat \<Rightarrow> bytes \<Rightarrow> bytes \<Rightarrow> int" where
  "charr_cmp m search f =
     (let r = the (ffs_cmp search f (length search)) in
      if r = 0 \<and> length search \<noteq> m \<and> f ! length search \<noteq> 0 then -1 else r)"

definition ffcharr_findsorted :: "bytes list \<Rightarrow> nat \<Rightarrow> bytes \<Rightarrow> int" where
  "ffcharr_findsorted fields m search =
     (if m < length search then -1
      else binfind_loop (charr_cmp m search) fields 0 (length fields))"

section \<open>Search\<close>

fun ffmemchr :: "bytes \<Rightarrow> u32 \<Rightarrow> nat option" where
  "ffmemchr [] b = None"
| "ffmemchr (c # d) b = (if b = ucast c then Some 0 else map_option Suc (ffmemchr d b))"

text \<open>\<open>memchr\<close>, which converts the searched \<open>int\<close> to a byte.\<close>

fun ffs_findc :: "bytes \<Rightarrow> u8 \<Rightarrow> nat option" where
  "ffs_findc [] ch = None"
| "ffs_findc (c # s) ch = (if c = ch then Some 0 else map_option Suc (ffs_findc s ch))"

definition ffs_find :: "bytes \<Rightarrow> u8 \<Rightarrow> nat" where
  "ffs_find s ch = (case ffs_findc s ch of Some pos \<Rightarrow> pos | None \<Rightarrow> length s)"

lemma ffs_findc_Some: "ffs_findc s ch = Some i \<Longrightarrow> i < length s"
  by (induction s arbitrary: i) (auto split: if_splits)

function ffs_nfindc :: "bytes \<Rightarrow> u8 \<Rightarrow> nat" where
  "ffs_nfindc s ch =
     (if s = [] then 0
      else case ffs_findc s ch of None \<Rightarrow> 0 | Some i \<Rightarrow> Suc (ffs_nfindc (drop (Suc i) s) ch))"
  by pat_completeness auto
termination by (relation "measure (length \<circ> fst)") auto

declare ffs_nfindc.simps [simp del]

text \<open>A backward loop: the last position below \<open>n\<close> whose byte satisfies \<open>P\<close>.\<close>

fun rscan :: "(u8 \<Rightarrow> bool) \<Rightarrow> bytes \<Rightarrow> nat \<Rightarrow> nat option" where
  "rscan P s 0 = None"
| "rscan P s (Suc n) = (if P (s ! n) then Some n else rscan P s n)"

definition ffs_rfind :: "bytes \<Rightarrow> u8 \<Rightarrow> nat" where
  "ffs_rfind s ch = (case rscan (\<lambda>c. c = ch) s (length s) of Some i \<Rightarrow> i | None \<Rightarrow> length s)"

definition ffs_findeol :: "bytes \<Rightarrow> nat" where
  "ffs_findeol s =
     (let p = ffs_find s 10 in if p \<noteq> 0 \<and> s ! (p - 1) = 13 then p - 1 else p)"

text \<open>
  The loop of the substring searches: \<open>n\<close> positions are tried; \<open>P\<close> tests the byte there and
  \<open>Q\<close> the text behind it.
\<close>

fun finds_loop :: "(u8 \<Rightarrow> bool) \<Rightarrow> (bytes \<Rightarrow> bool) \<Rightarrow> bytes \<Rightarrow> nat \<Rightarrow> nat option" where
  "finds_loop P Q s 0 = None"
| "finds_loop P Q [] (Suc n) = None"
| "finds_loop P Q (c # s) (Suc n) =
     (if P c \<and> Q s then Some 0 else map_option Suc (finds_loop P Q s n))"

definition ffs_finds :: "bytes \<Rightarrow> bytes \<Rightarrow> nat" where
  "ffs_finds s search =
     (case search of [] \<Rightarrow> 0
      | sch0 # search \<Rightarrow>
        if length s < Suc (length search) then length s
        else case finds_loop (\<lambda>c. sch0 = c) (\<lambda>t. ffs_cmp t search (length search) = Some 0)
            s (length s - length search) of
          Some i \<Rightarrow> i | None \<Rightarrow> length s)"

definition ffs_ifinds :: "bytes \<Rightarrow> bytes \<Rightarrow> nat" where
  "ffs_ifinds s search =
     (case search of [] \<Rightarrow> 0
      | sch0 # search \<Rightarrow>
        if length s < Suc (length search) then length s
        else case finds_loop (\<lambda>c. ffchar_lower (uint sch0) = ffchar_lower (uint c))
            (\<lambda>t. ffs_icmp t search (length search) = Some 0)
            s (length s - length search) of
          Some i \<Rightarrow> i | None \<Rightarrow> length s)"

fun ffs_findof :: "bytes \<Rightarrow> bytes \<Rightarrow> nat" where
  "ffs_findof [] anyof = 0"
| "ffs_findof (c # s) anyof = (if ffs_findc anyof c \<noteq> None then 0 else Suc (ffs_findof s anyof))"

definition ffs_rfindof :: "bytes \<Rightarrow> bytes \<Rightarrow> nat" where
  "ffs_rfindof s anyof =
     (case rscan (\<lambda>c. ffs_rfind anyof c \<noteq> length anyof) s (length s) of
        Some i \<Rightarrow> i | None \<Rightarrow> length s)"

fun ffs_skip :: "bytes \<Rightarrow> int \<Rightarrow> nat" where
  "ffs_skip [] ch = 0"
| "ffs_skip (c # s) ch = (if sint c = ch then Suc (ffs_skip s ch) else 0)"

fun ffs_skipof :: "bytes \<Rightarrow> bytes \<Rightarrow> nat" where
  "ffs_skipof [] anyof = 0"
| "ffs_skipof (c # s) anyof = (if ffs_findc anyof c \<noteq> None then Suc (ffs_skipof s anyof) else 0)"

text \<open>The end of the string is moved left while the byte before it satisfies \<open>P\<close>.\<close>

fun rskip :: "(u8 \<Rightarrow> bool) \<Rightarrow> bytes \<Rightarrow> nat \<Rightarrow> nat" where
  "rskip P s 0 = 0"
| "rskip P s (Suc n) = (if P (s ! n) then rskip P s n else Suc n)"

definition ffs_rskip :: "bytes \<Rightarrow> int \<Rightarrow> nat" where
  "ffs_rskip s ch = rskip (\<lambda>c. sint c = ch) s (length s)"

definition ffs_rskipof :: "bytes \<Rightarrow> bytes \<Rightarrow> nat" where
  "ffs_rskipof s anyof = rskip (\<lambda>c. ffs_findc anyof c \<noteq> None) s (length s)"

fun ffs_skip_mask :: "bytes \<Rightarrow> u32 list \<Rightarrow> nat" where
  "ffs_skip_mask [] m = 0"
| "ffs_skip_mask (c # s) m = (if \<not> mask_has m c then 0 else Suc (ffs_skip_mask s m))"

definition ffstr_find :: "bytes \<Rightarrow> bytes \<Rightarrow> int" where
  "ffstr_find s search = (let r = ffs_finds s search in if r = length s then -1 else int r)"

definition ffstr_ifind :: "bytes \<Rightarrow> bytes \<Rightarrow> int" where
  "ffstr_ifind s search = (let r = ffs_ifinds s search in if r = length s then -1 else int r)"

section \<open>Search: contracts\<close>

text \<open>A scan from the left that stops at the first byte of a class.\<close>

locale left_scan =
  fixes scan :: "bytes \<Rightarrow> 'k \<Rightarrow> nat" and stop :: "'k \<Rightarrow> u8 \<Rightarrow> bool"
  assumes scan_takeWhile: "scan s k = length (takeWhile (\<lambda>c. \<not> stop k c) s)"
begin

lemma bound: "scan s k \<le> length s"
  by (simp add: scan_takeWhile length_takeWhile_le)

lemma before: "i < scan s k \<Longrightarrow> \<not> stop k (s ! i)"
  by (metis nth_mem scan_takeWhile set_takeWhileD takeWhile_nth)

lemma at: "scan s k < length s \<Longrightarrow> stop k (s ! scan s k)"
  by (metis nth_length_takeWhile scan_takeWhile)

lemma take_scan: "take (scan s k) s = takeWhile (\<lambda>c. \<not> stop k c) s"
  by (simp add: scan_takeWhile takeWhile_eq_take [symmetric])

lemma drop_scan: "drop (scan s k) s = dropWhile (\<lambda>c. \<not> stop k c) s"
  by (simp add: scan_takeWhile dropWhile_eq_drop [symmetric])

lemma rescan: "scan (drop (scan s k) s) k = 0"
proof -
  have "takeWhile P (dropWhile P t) = []" for P and t :: bytes by (induction t) auto
  then show ?thesis unfolding drop_scan by (simp add: scan_takeWhile)
qed

lemma none: "scan s k = length s \<longleftrightarrow> (\<forall>c \<in> set s. \<not> stop k c)"
  by (metis order_refl scan_takeWhile takeWhile_eq_all_conv take_all takeWhile_eq_take)

end

text \<open>A scan from the right.\<close>

locale right_scan =
  fixes scan :: "bytes \<Rightarrow> 'k \<Rightarrow> nat" and skipped :: "'k \<Rightarrow> u8 \<Rightarrow> bool"
  assumes scan_dropWhile: "take (scan s k) s = rev (dropWhile (skipped k) (rev s))"
    and scan_le: "scan s k \<le> length s"
begin

lemma last_kept: "scan s k \<noteq> 0 \<Longrightarrow> \<not> skipped k (s ! (scan s k - 1))"
proof -
  assume "scan s k \<noteq> 0"
  then have ne: "take (scan s k) s \<noteq> []" using scan_le [of s k] by auto
  then have "last (take (scan s k) s) = s ! (scan s k - 1)"
    using scan_le [of s k] by (simp add: last_conv_nth [OF ne] min_absorb2)
  with ne show ?thesis
    unfolding scan_dropWhile by (metis hd_dropWhile last_rev rev_is_Nil_conv)
qed

lemma rest_skipped: "c \<in> set (drop (scan s k) s) \<Longrightarrow> skipped k c"
proof -
  have "rev s = takeWhile (skipped k) (rev s) @ dropWhile (skipped k) (rev s)" by simp
  then have "s = rev (dropWhile (skipped k) (rev s)) @ rev (takeWhile (skipped k) (rev s))"
    by (metis rev_append rev_rev_ident)
  then have "drop (scan s k) s = rev (takeWhile (skipped k) (rev s))"
    by (metis append_take_drop_id append_same_eq same_append_eq scan_dropWhile)
  then show "c \<in> set (drop (scan s k) s) \<Longrightarrow> skipped k c"
    by (auto dest: set_takeWhileD)
qed

end

lemma ffs_findc_None: "ffs_findc s ch = None \<longleftrightarrow> ch \<notin> set s"
  by (induction s) auto

lemma ffs_find_simps [simp]:
  "ffs_find [] ch = 0" "ffs_find (c # s) ch = (if c = ch then 0 else Suc (ffs_find s ch))"
  by (auto simp: ffs_find_def split: option.splits)

interpretation find_scan: left_scan ffs_find "\<lambda>ch c. c = ch"
proof unfold_locales
  show "ffs_find s ch = length (takeWhile (\<lambda>c. \<not> c = ch) s)" for s ch
    by (induction s) auto
qed

interpretation findof_scan: left_scan ffs_findof "\<lambda>anyof c. c \<in> set anyof"
proof unfold_locales
  show "ffs_findof s anyof = length (takeWhile (\<lambda>c. \<not> c \<in> set anyof) s)" for s anyof
    by (induction s) (auto simp: ffs_findc_None)
qed

interpretation skip_scan: left_scan ffs_skip "\<lambda>ch c. sint c \<noteq> ch"
proof unfold_locales
  show "ffs_skip s ch = length (takeWhile (\<lambda>c. \<not> sint c \<noteq> ch) s)" for s ch
    by (induction s) auto
qed

interpretation skipof_scan: left_scan ffs_skipof "\<lambda>anyof c. c \<notin> set anyof"
proof unfold_locales
  show "ffs_skipof s anyof = length (takeWhile (\<lambda>c. \<not> c \<notin> set anyof) s)" for s anyof
    by (induction s) (auto simp: ffs_findc_None [symmetric])
qed

interpretation skip_mask_scan: left_scan ffs_skip_mask "\<lambda>m c. \<not> mask_has m c"
proof unfold_locales
  show "ffs_skip_mask s m = length (takeWhile (\<lambda>c. \<not> \<not> mask_has m c) s)" for s m
    by (induction s) auto
qed

lemma rskip_le: "rskip P s n \<le> n"
  by (induction n) auto

lemma rskip_take: "n \<le> length s \<Longrightarrow> take (rskip P s n) s = rev (dropWhile P (rev (take n s)))"
  by (induction n) (auto simp: take_Suc_conv_app_nth)

interpretation rskip_scan: right_scan ffs_rskip "\<lambda>ch c. sint c = ch"
  by unfold_locales (use rskip_take [of "length s" s for s] rskip_le in \<open>simp_all add: ffs_rskip_def\<close>)

interpretation rskipof_scan: right_scan ffs_rskipof "\<lambda>anyof c. c \<in> set anyof"
proof unfold_locales
  have "(\<lambda>c. ffs_findc anyof c \<noteq> None) = (\<lambda>c. c \<in> set anyof)" for anyof
    by (simp add: ffs_findc_None del: not_None_eq)
  then show "take (ffs_rskipof s anyof) s = rev (dropWhile (\<lambda>c. c \<in> set anyof) (rev s))" for s anyof
    by (simp add: ffs_rskipof_def rskip_take)
qed (simp add: ffs_rskipof_def rskip_le)

lemma finds_loop_None:
  "finds_loop P Q s n = None \<longleftrightarrow> (\<forall>i < n. i < length s \<longrightarrow> \<not> (P (s ! i) \<and> Q (drop (Suc i) s)))"
proof (induction P Q s n rule: finds_loop.induct [case_names z nil step])
  case (step P Q c s n)
  then show ?case by (auto simp: All_less_Suc2)
qed simp_all

lemma finds_loop_Some:
  "finds_loop P Q s n = Some i \<longleftrightarrow>
     i < n \<and> i < length s \<and> P (s ! i) \<and> Q (drop (Suc i) s)
     \<and> (\<forall>j < i. \<not> (P (s ! j) \<and> Q (drop (Suc j) s)))"
proof (induction P Q s n arbitrary: i rule: finds_loop.induct [case_names z nil step])
  case (step P Q c s n)
  show ?case
  proof (cases i)
    case 0
    with step show ?thesis by auto
  next
    case (Suc k)
    with step [of k] show ?thesis by (auto simp: All_less_Suc2)
  qed
qed simp_all

text \<open>The text at position \<open>i\<close> is the searched string, up to the key of the bytes.\<close>

definition occurs_at :: "(u8 \<Rightarrow> u8) \<Rightarrow> bytes \<Rightarrow> bytes \<Rightarrow> nat \<Rightarrow> bool" where
  "occurs_at key s search i \<longleftrightarrow> i + length search \<le> length s
     \<and> map key (take (length search) (drop i s)) = map key search"

lemma occurs_at_Cons:
  "i < length s - length search \<Longrightarrow>
    occurs_at key s (c # search) i \<longleftrightarrow>
      key (s ! i) = key c \<and> map key (take (length search) (drop (Suc i) s)) = map key search"
proof -
  assume "i < length s - length search"
  then have "drop i s = s ! i # drop (Suc i) s" and "Suc (i + length search) \<le> length s"
    by (simp_all add: Cons_nth_drop_Suc [symmetric])
  then show ?thesis by (auto simp: occurs_at_def)
qed

lemma finds_loop_first:
  fixes search :: bytes
  assumes "length search < length s"
    and P: "\<And>i. i < length s \<Longrightarrow> P (s ! i) \<longleftrightarrow> key (s ! i) = key c"
    and Q: "\<And>t. length search \<le> length t \<Longrightarrow> Q t \<longleftrightarrow> map key (take (length search) t) = map key search"
  shows "(case finds_loop P Q s (length s - length search) of Some i \<Rightarrow> i | None \<Rightarrow> length s) =
    (if \<exists>i. occurs_at key s (c # search) i then LEAST i. occurs_at key s (c # search) i else length s)"
proof -
  let ?n = "length s - length search"
  have occ: "P (s ! i) \<and> Q (drop (Suc i) s) \<longleftrightarrow> occurs_at key s (c # search) i" if "i < ?n" for i
  proof -
    from that have "i < length s" "length search \<le> length (drop (Suc i) s)" by auto
    with P [of i] Q [of "drop (Suc i) s"] occurs_at_Cons [OF that, of key c] show ?thesis by blast
  qed
  have lim: "i < ?n" if "occurs_at key s (c # search) i" for i
    using that by (auto simp: occurs_at_def)
  show ?thesis
  proof (cases "finds_loop P Q s ?n")
    case None
    then have "\<not> occurs_at key s (c # search) i" for i
      using occ lim [of i] by (auto simp: finds_loop_None)
    with None show ?thesis by simp
  next
    case (Some k)
    then have k: "k < ?n" "occurs_at key s (c # search) k"
      using occ by (auto simp: finds_loop_Some)
    have "\<forall>j < k. \<not> occurs_at key s (c # search) j"
      using Some k(1) occ less_trans [OF _ k(1)] by (simp add: finds_loop_Some)
    note k = k this
    have "(LEAST i. occurs_at key s (c # search) i) = k"
      using k by (intro Least_equality) (auto simp: not_less [symmetric])
    with Some k show ?thesis by auto
  qed
qed

lemma ffs_finds_first:
  "ffs_finds s search = (if \<exists>i. occurs_at id s search i then LEAST i. occurs_at id s search i else length s)"
proof (cases search)
  case Nil
  then have "occurs_at id s search 0" by (simp add: occurs_at_def)
  then show ?thesis using Nil by (auto simp: ffs_finds_def intro: Least_equality [symmetric])
next
  case (Cons c t)
  show ?thesis
  proof (cases "length s < Suc (length t)")
    case True
    with Cons show ?thesis by (auto simp: ffs_finds_def occurs_at_def)
  next
    case False
    then have "length t < length s" by simp
    from finds_loop_first [OF this, where key = id and c = c and P = "\<lambda>x. c = x"
        and Q = "\<lambda>u. ffs_cmp u t (length t) = Some 0"]
    have "(case finds_loop (\<lambda>x. c = x) (\<lambda>u. ffs_cmp u t (length t) = Some 0) s (length s - length t)
        of Some i \<Rightarrow> i | None \<Rightarrow> length s) =
      (if \<exists>i. occurs_at id s (c # t) i then LEAST i. occurs_at id s (c # t) i else length s)"
      by (metis (no_types, lifting) ffs_cmp_order ffint_cmp_simps(1) id_apply list.map_id order_refl
          option.inject take_all)
    with False Cons show ?thesis by (simp add: ffs_finds_def)
  qed
qed

lemma lower_letter_eq:
  assumes "ffchar_isletter (uint c)"
  shows "ffchar_lower (uint c) = ffchar_lower (uint x) \<longleftrightarrow> fold_case x = fold_case c"
proof -
  have r: "0 \<le> uint c" "uint c < 256" "0 \<le> uint x" "uint x < 256"
    using uint_lt2p [of c] uint_lt2p [of x] by simp_all
  have l: "ffchar_isup (uint c) \<or> ffchar_islow (uint c)"
    using assms r by (simp add: ffchar_isletter_iff)
  have low: "ffchar_lower (uint y) = icase (uint y)" if "ffchar_islow (uint y) \<or> ffchar_isup (uint y)" for y :: u8
  proof (cases "ffchar_isup (uint y)")
    case True
    then show ?thesis by (simp add: icase_def)
  next
    case False
    with that have "97 \<le> uint y" "uint y \<le> 122" by (simp_all add: ffchar_islow_def)
    then have "ffchar_lower (uint y) = uint y" by (cases "uint y" rule: lower_cases) presburger+
    with False show ?thesis by (simp add: icase_def)
  qed
  show ?thesis
  proof (cases "ffchar_isletter (uint x)")
    case True
    then have "ffchar_islow (uint x) \<or> ffchar_isup (uint x)" using r by (auto simp: ffchar_isletter_iff)
    from low [OF this] low [of c] l show ?thesis by (simp only: icase_eq disj_commute) auto
  next
    case False
    then have "\<not> ffchar_isup (uint x)" "\<not> ffchar_islow (uint x)" using r by (simp_all add: ffchar_isletter_iff)
    moreover from False assms have "ffchar_lower (uint c) \<noteq> ffchar_lower (uint x)"
      by (auto simp: ffchar_isletter_def)
    moreover have "icase (uint x) \<noteq> icase (uint c)"
      using calculation(1,2) l by (auto simp: icase_def ffchar_islow_def ffchar_isup_def)
    then have "fold_case x \<noteq> fold_case c" by (simp only: icase_eq not_False_eq_True)
    ultimately show ?thesis by simp
  qed
qed

lemma ffs_ifinds_first:
  assumes "search = [] \<or> ffchar_isletter (uint (hd search))"
  shows "ffs_ifinds s search =
    (if \<exists>i. occurs_at fold_case s search i then LEAST i. occurs_at fold_case s search i else length s)"
proof (cases search)
  case Nil
  then have "occurs_at fold_case s search 0" by (simp add: occurs_at_def)
  then show ?thesis using Nil by (auto simp: ffs_ifinds_def intro: Least_equality [symmetric])
next
  case (Cons c t)
  show ?thesis
  proof (cases "length s < Suc (length t)")
    case True
    with Cons show ?thesis by (auto simp: ffs_ifinds_def occurs_at_def)
  next
    case False
    then have "length t < length s" by simp
    from finds_loop_first [OF this, where key = fold_case and c = c
        and P = "\<lambda>x. ffchar_lower (uint c) = ffchar_lower (uint x)"
        and Q = "\<lambda>u. ffs_icmp u t (length t) = Some 0"] False Cons assms
    have "(case finds_loop (\<lambda>x. ffchar_lower (uint c) = ffchar_lower (uint x))
        (\<lambda>u. ffs_icmp u t (length t) = Some 0) s (length s - length t)
        of Some i \<Rightarrow> i | None \<Rightarrow> length s) =
      (if \<exists>i. occurs_at fold_case s (c # t) i then LEAST i. occurs_at fold_case s (c # t) i else length s)"
      by (simp add: ffs_icmp_order lower_letter_eq)
    with False Cons show ?thesis by (simp add: ffs_ifinds_def)
  qed
qed

section \<open>Sorted arrays of strings\<close>

lemma map_fold_id: "map id = (\<lambda>z. z)"
  by (simp add: fun_eq_iff)

lemma ordered_for_cong:
  "(\<And>x. x \<in> set arr \<Longrightarrow> cmp x = cmp' x) \<Longrightarrow> ordered_for cmp' arr \<Longrightarrow> ordered_for cmp arr"
  unfolding ordered_for_def by (erule sorted_wrt_mono_rel [rotated]) simp

lemma charr_cmp_order:
  "length search \<le> m \<Longrightarrow> length f = m \<Longrightarrow> 0 \<notin> set search \<Longrightarrow>
    charr_cmp m search f = ffint_cmp search (takeWhile (\<lambda>c. c \<noteq> 0) f)"
proof (induction search arbitrary: f m)
  case Nil
  then show ?case by (cases f) (auto simp: charr_cmp_def ffint_cmp_def)
next
  case (Cons a s)
  then obtain b g k where fg: "f = b # g" "m = Suc k" "length g = k" by (cases f) auto
  show ?case
  proof (cases "a = b")
    case True
    have "charr_cmp m (a # s) f = charr_cmp k s g" using True fg by (simp add: charr_cmp_def)
    also have "\<dots> = ffint_cmp s (takeWhile (\<lambda>c. c \<noteq> 0) g)"
      using Cons.prems fg by (intro Cons.IH) auto
    also have "\<dots> = ffint_cmp (a # s) (takeWhile (\<lambda>c. c \<noteq> 0) f)"
      using True fg Cons.prems by (auto simp: ffint_cmp_def)
    finally show ?thesis .
  next
    case False
    moreover have "0 < a" if "b = 0" using that False word_neq_0_conv by auto
    ultimately show ?thesis using fg by (auto simp: charr_cmp_def ffint_cmp_def)
  qed
qed

lemma ffcharr_findsorted_ok:
  assumes "sorted (map (takeWhile (\<lambda>c. c \<noteq> 0)) fields)" and "\<forall>f \<in> set fields. length f = m"
    and "0 \<notin> set search"
  shows "search_ok (\<lambda>f. takeWhile (\<lambda>c. c \<noteq> 0) f = search) fields (ffcharr_findsorted fields m search)"
proof (cases "m < length search")
  case True
  then have "takeWhile (\<lambda>c. c \<noteq> 0) f \<noteq> search" if "f \<in> set fields" for f
    using assms(2) that length_takeWhile_le [of "\<lambda>c. c \<noteq> 0" f] by fastforce
  with True show ?thesis by (auto simp: search_ok_def ffcharr_findsorted_def)
next
  case False
  define sv where "sv f = takeWhile (\<lambda>c. c \<noteq> 0) f" for f :: bytes
  have c: "charr_cmp m search f = ffint_cmp search (sv f)" if "f \<in> set fields" for f
    using that False assms charr_cmp_order [of search m f] by (auto simp: sv_def)
  have "ordered_for (\<lambda>f. ffint_cmp search (sv f)) fields"
    by (rule ordered_for_sorted) (use assms(1) in \<open>simp add: sv_def\<close>)
  then have "ordered_for (charr_cmp m search) fields"
    by (rule ordered_for_cong [rotated]) (rule c)
  from binfind_loop_ok [OF this] have "search_ok (\<lambda>f. charr_cmp m search f = 0) fields
    (ffcharr_findsorted fields m search)"
    using False by (simp add: ffcharr_findsorted_def)
  then show ?thesis
    unfolding search_ok_def sv_def [symmetric] using c by (auto split: if_splits)
qed

section \<open>Properties\<close>

text \<open>
  C38: ffs_finds returns the first position where the searched string occurs, and the length of
  the text when it does not occur; ffs_ifinds does the same up to letter case when the searched
  string starts with a letter, the empty string being found at once in both.
\<close>

theorem ffs_finds_correct:
  "ffs_finds s search = (if \<exists>i. occurs_at id s search i then LEAST i. occurs_at id s search i else length s)
    \<and> (search = [] \<or> ffchar_isletter (uint (hd search)) \<longrightarrow>
        ffs_ifinds s search =
          (if \<exists>i. occurs_at fold_case s search i then LEAST i. occurs_at fold_case s search i else length s))"
  using ffs_finds_first ffs_ifinds_first by blast

theorem ffs_finds_correct_witness:
  "ffs_ifinds [120, 97, 98] [65, 66] =
    (if \<exists>i. occurs_at fold_case [120, 97, 98] [65, 66] i
     then LEAST i. occurs_at fold_case [120, 97, 98] [65, 66] i else length [120, 97, 98 :: u8])"
proof (rule conjunct2 [OF ffs_finds_correct, THEN mp])
  have "ffchar_isletter (uint (65 :: u8))" by code_simp
  then show "[65, 66] = [] \<or> ffchar_isletter (uint (hd [65, 66 :: u8]))" by simp
qed

text \<open>
  The case-insensitive search lowers its first byte with the letter bit whatever it is, so a
  text that starts with a bracket is found for a searched string that starts with a brace: the
  two differ in more than letter case and do not compare equal with ffs_icmp.
\<close>

theorem ffs_ifinds_false_match:
  "ffs_ifinds (91 # t) (123 # t) = 0 \<and> \<not> occurs_at fold_case (91 # t) (123 # t) 0
    \<and> ffs_icmp (91 # t) (123 # t) (Suc (length t)) = Some (-1)"
proof -
  have f: "fold_case 91 = 91" "fold_case 123 = 123" by code_simp+
  have "ffchar_lower (uint (123 :: u8)) = ffchar_lower (uint (91 :: u8))" by code_simp
  moreover have "(-1 :: u8) = 255" by simp
  ultimately have "ffs_ifinds (91 # t) (123 # t) = 0"
    by (simp add: ffs_ifinds_def ffs_icmp_order)
  moreover have "ffs_icmp (91 # t) (123 # t) (Suc (length t)) = Some (-1)"
    by (subst ffs_icmp_order) (simp_all add: f ffint_cmp_def)
  ultimately show ?thesis by (simp add: occurs_at_def f)
qed

text \<open>
  A buffer against a zero-terminated string: ffs_cmpz is 0 exactly for equal strings, its
  sign is the lexicographic order of the bytes, and its magnitude is one more than the length of
  their common beginning; ffs_icmpz is the same after lower-casing, and ffsz_match decides
  whether the string starts with the buffer.
\<close>

theorem ffs_cmpz_order:
  assumes "0 \<notin> set z"
  shows "ffs_cmpz s z = ffint_cmp s z * (int (length (longest_common_prefix s z)) + 1)
    \<and> ffs_icmpz s z = ffs_cmpz (map fold_case s) (map fold_case z)
    \<and> ffsz_match z s = prefix s z
    \<and> ffsz_imatch z s = prefix (map fold_case s) (map fold_case z)"
proof -
  have "b \<noteq> 0 \<Longrightarrow> fold_case b \<noteq> 0" for b
  proof -
    assume "b \<noteq> 0"
    then have "uint b \<noteq> 0" by (simp add: word_uint_eq_iff)
    then have "icase (uint b) \<noteq> 0" by (auto simp: icase_def ffchar_isup_def)
    then show "fold_case b \<noteq> 0" by (metis uint_0_eq uint_fold_case)
  qed
  then have "0 \<notin> set (map fold_case z)" using assms by (metis (no_types, lifting) imageE list.set_map)
  from ffs_cmpz_mismatch [OF this] show ?thesis
    using ffs_cmpz_mismatch [OF assms, of s] ffs_icmpz_mismatch [OF assms, of s]
      cmpz.match_iff [OF assms, of s] icmpz.match_iff [OF assms, of s]
    by (simp add: mismatch_def ffsz_match_def ffsz_imatch_def)
qed

theorem ffs_cmpz_order_witness:
  "ffs_cmpz [1, 2, 3] [1, 2, 4] = ffint_cmp [1, 2, 3 :: u8] [1, 2, 4] * (int (length (longest_common_prefix [1, 2, 3 :: u8] [1, 2, 4])) + 1)"
  using ffs_cmpz_order [of "[1, 2, 4]" "[1, 2, 3]"] by simp

text \<open>
  The binary searches over sorted arrays of strings find a string exactly when it is in the
  array, by its bytes (ffszarr_findsorted), by its lower-cased bytes (ffszarr_ifindsorted), and
  in a block of fixed-size zero-padded fields (ffcharr_findsorted).
\<close>

theorem findsorted_correct:
  assumes "length s < 2 ^ 31 - 1" and "\<forall>z \<in> set arr. 0 \<notin> set z"
    and "0 \<notin> set s" and "\<forall>f \<in> set fields. length f = m"
  shows "(sorted arr \<longrightarrow> search_ok (\<lambda>z. z = s) arr (ffszarr_findsorted arr s))
    \<and> (sorted (map (map fold_case) arr) \<longrightarrow>
        search_ok (\<lambda>z. map fold_case z = map fold_case s) arr (ffszarr_ifindsorted arr s))
    \<and> (sorted (map (takeWhile (\<lambda>c. c \<noteq> 0)) fields) \<longrightarrow>
        search_ok (\<lambda>f. takeWhile (\<lambda>c. c \<noteq> 0) f = s) fields (ffcharr_findsorted fields m s))"
  using cmpz.binsearch [of arr s] icmpz.binsearch [of arr s] ffcharr_findsorted_ok [of fields m s] assms
  by (simp add: ffszarr_findsorted_def ffszarr_ifindsorted_def map_fold_id)

theorem findsorted_correct_witness:
  "search_ok (\<lambda>z. z = [98 :: u8]) [[97], [97, 98], [98]] (ffszarr_findsorted [[97], [97, 98], [98]] [98])"
  using findsorted_correct [of "[98]" "[[97], [97, 98], [98]]" "[]" 0] by simp

end
