(* ===== verification/FF_Crc.thy ===== *)
theory FF_Crc
  imports FF_Str
begin

text \<open>
  The CRC-32 checksum of \<open>crc.h\<close> and the table of \<open>ffcrc.c\<close>, against the division by the
  generator polynomial bit by bit.
\<close>

section \<open>The model\<close>

definition crc32_table256 :: "u32 list" where
  "crc32_table256 = [
      0x00000000, 0x77073096, 0xee0e612c, 0x990951ba, 0x076dc419, 0x706af48f, 0xe963a535, 0x9e6495a3,
      0x0edb8832, 0x79dcb8a4, 0xe0d5e91e, 0x97d2d988, 0x09b64c2b, 0x7eb17cbd, 0xe7b82d07, 0x90bf1d91,
      0x1db71064, 0x6ab020f2, 0xf3b97148, 0x84be41de, 0x1adad47d, 0x6ddde4eb, 0xf4d4b551, 0x83d385c7,
      0x136c9856, 0x646ba8c0, 0xfd62f97a, 0x8a65c9ec, 0x14015c4f, 0x63066cd9, 0xfa0f3d63, 0x8d080df5,
      0x3b6e20c8, 0x4c69105e, 0xd56041e4, 0xa2677172, 0x3c03e4d1, 0x4b04d447, 0xd20d85fd, 0xa50ab56b,
      0x35b5a8fa, 0x42b2986c, 0xdbbbc9d6, 0xacbcf940, 0x32d86ce3, 0x45df5c75, 0xdcd60dcf, 0xabd13d59,
      0x26d930ac, 0x51de003a, 0xc8d75180, 0xbfd06116, 0x21b4f4b5, 0x56b3c423, 0xcfba9599, 0xb8bda50f,
      0x2802b89e, 0x5f058808, 0xc60cd9b2, 0xb10be924, 0x2f6f7c87, 0x58684c11, 0xc1611dab, 0xb6662d3d,
      0x76dc4190, 0x01db7106, 0x98d220bc, 0xefd5102a, 0x71b18589, 0x06b6b51f, 0x9fbfe4a5, 0xe8b8d433,
      0x7807c9a2, 0x0f00f934, 0x9609a88e, 0xe10e9818, 0x7f6a0dbb, 0x086d3d2d, 0x91646c97, 0xe6635c01,
      0x6b6b51f4, 0x1c6c6162, 0x856530d8, 0xf262004e, 0x6c0695ed, 0x1b01a57b, 0x8208f4c1, 0xf50fc457,
      0x65b0d9c6, 0x12b7e950, 0x8bbeb8ea, 0xfcb9887c, 0x62dd1ddf, 0x15da2d49, 0x8cd37cf3, 0xfbd44c65,
      0x4db26158, 0x3ab551ce, 0xa3bc0074, 0xd4bb30e2, 0x4adfa541, 0x3dd895d7, 0xa4d1c46d, 0xd3d6f4fb,
      0x4369e96a, 0x346ed9fc, 0xad678846, 0xda60b8d0, 0x44042d73, 0x33031de5, 0xaa0a4c5f, 0xdd0d7cc9,
      0x5005713c, 0x270241aa, 0xbe0b1010, 0xc90c2086, 0x5768b525, 0x206f85b3, 0xb966d409, 0xce61e49f,
      0x5edef90e, 0x29d9c998, 0xb0d09822, 0xc7d7a8b4, 0x59b33d17, 0x2eb40d81, 0xb7bd5c3b, 0xc0ba6cad,
      0xedb88320, 0x9abfb3b6, 0x03b6e20c, 0x74b1d29a, 0xead54739, 0x9dd277af, 0x04db2615, 0x73dc1683,
      0xe3630b12, 0x94643b84, 0x0d6d6a3e, 0x7a6a5aa8, 0xe40ecf0b, 0x9309ff9d, 0x0a00ae27, 0x7d079eb1,
      0xf00f9344, 0x8708a3d2, 0x1e01f268, 0x6906c2fe, 0xf762575d, 0x806567cb, 0x196c3671, 0x6e6b06e7,
      0xfed41b76, 0x89d32be0, 0x10da7a5a, 0x67dd4acc, 0xf9b9df6f, 0x8ebeeff9, 0x17b7be43, 0x60b08ed5,
      0xd6d6a3e8, 0xa1d1937e, 0x38d8c2c4, 0x4fdff252, 0xd1bb67f1, 0xa6bc5767, 0x3fb506dd, 0x48b2364b,
      0xd80d2bda, 0xaf0a1b4c, 0x36034af6, 0x41047a60, 0xdf60efc3, 0xa867df55, 0x316e8eef, 0x4669be79,
      0xcb61b38c, 0xbc66831a, 0x256fd2a0, 0x5268e236, 0xcc0c7795, 0xbb0b4703, 0x220216b9, 0x5505262f,
      0xc5ba3bbe, 0xb2bd0b28, 0x2bb45a92, 0x5cb36a04, 0xc2d7ffa7, 0xb5d0cf31, 0x2cd99e8b, 0x5bdeae1d,
      0x9b64c2b0, 0xec63f226, 0x756aa39c, 0x026d930a, 0x9c0906a9, 0xeb0e363f, 0x72076785, 0x05005713,
      0x95bf4a82, 0xe2b87a14, 0x7bb12bae, 0x0cb61b38, 0x92d28e9b, 0xe5d5be0d, 0x7cdcefb7, 0x0bdbdf21,
      0x86d3d2d4, 0xf1d4e242, 0x68ddb3f8, 0x1fda836e, 0x81be16cd, 0xf6b9265b, 0x6fb077e1, 0x18b74777,
      0x88085ae6, 0xff0f6a70, 0x66063bca, 0x11010b5c, 0x8f659eff, 0xf862ae69, 0x616bffd3, 0x166ccf45,
      0xa00ae278, 0xd70dd2ee, 0x4e048354, 0x3903b3c2, 0xa7672661, 0xd06016f7, 0x4969474d, 0x3e6e77db,
      0xaed16a4a, 0xd9d65adc, 0x40df0b66, 0x37d83bf0, 0xa9bcae53, 0xdebb9ec5, 0x47b2cf7f, 0x30b5ffe9,
      0xbdbdf21c, 0xcabac28a, 0x53b39330, 0x24b4a3a6, 0xbad03605, 0xcdd70693, 0x54de5729, 0x23d967bf,
      0xb3667a2e, 0xc4614ab8, 0x5d681b02, 0x2a6f2b94, 0xb40bbe37, 0xc30c8ea1, 0x5a05df1b, 0x2d02ef8d]"

definition ffcrc32_start :: u32 where
  "ffcrc32_start = 0xffffffff"

text \<open>A byte argument is passed as \<open>uint\<close>.\<close>

definition ffcrc32_update :: "u32 \<Rightarrow> u32 \<Rightarrow> u32" where
  "ffcrc32_update crc b = crc32_table256 ! unat ((crc XOR b) AND 0xff) XOR drop_bit 8 crc"

definition ffcrc32_iupdate :: "u32 \<Rightarrow> u32 \<Rightarrow> u32" where
  "ffcrc32_iupdate crc b =
     ffcrc32_update crc (if ffchar_isup (uint b) then word_of_int (ffchar_lower (uint b)) else b)"

fun ffcrc32_updatestr :: "u32 \<Rightarrow> bytes \<Rightarrow> u32" where
  "ffcrc32_updatestr crc [] = crc"
| "ffcrc32_updatestr crc (c # p) = ffcrc32_updatestr (ffcrc32_update crc (ucast c)) p"

definition ffcrc32_finish :: "u32 \<Rightarrow> u32" where
  "ffcrc32_finish crc = crc XOR 0xffffffff"

definition ffcrc32_get :: "bytes \<Rightarrow> u32" where
  "ffcrc32_get p = ffcrc32_finish (foldl (\<lambda>crc c. ffcrc32_update crc (ucast c)) ffcrc32_start p)"

definition ffcrc32_iget :: "bytes \<Rightarrow> u32" where
  "ffcrc32_iget p = ffcrc32_finish (foldl (\<lambda>crc c. ffcrc32_iupdate crc (ucast c)) ffcrc32_start p)"

text \<open>A null-terminated string is read up to its first null byte.\<close>

fun crc_getz_loop :: "(u32 \<Rightarrow> u32 \<Rightarrow> u32) \<Rightarrow> u32 \<Rightarrow> bytes \<Rightarrow> u32" where
  "crc_getz_loop upd crc [] = crc"
| "crc_getz_loop upd crc (c # sz) = (if c = 0 then crc else crc_getz_loop upd (upd crc (ucast c)) sz)"

definition ffcrc32_getz :: "bytes \<Rightarrow> bool \<Rightarrow> u32" where
  "ffcrc32_getz sz case_insens =
     ffcrc32_finish (crc_getz_loop (if case_insens then ffcrc32_iupdate else ffcrc32_update) ffcrc32_start sz)"

section \<open>Division by the polynomial\<close>

text \<open>One bit of the division, least significant bit first.\<close>

definition poly_bit :: "u32 \<Rightarrow> u32" where
  "poly_bit crc = drop_bit 1 crc XOR (if bit crc 0 then 0xedb88320 else 0)"

text \<open>The checksum without a table: every byte is added to the low bits, then eight bits are divided out.\<close>

definition crc32_bytewise :: "u32 \<Rightarrow> u8 \<Rightarrow> u32" where
  "crc32_bytewise crc c = (poly_bit ^^ 8) (crc XOR ucast c)"

definition crc32_spec :: "bytes \<Rightarrow> u32" where
  "crc32_spec p = foldl crc32_bytewise 0xffffffff p XOR 0xffffffff"

lemma poly_bit_xor: "poly_bit (a XOR b) = poly_bit a XOR poly_bit b"
  by (rule bit_word_eqI) (auto simp: poly_bit_def bit_simps)

lemma poly_bits_xor: "(poly_bit ^^ n) (a XOR b) = (poly_bit ^^ n) a XOR (poly_bit ^^ n) b"
  by (induction n) (simp_all add: poly_bit_xor)

text \<open>The table is built by doubling: the upper half of a part is the lower half plus the entry of its index bit.\<close>

definition doubled :: "u32 list \<Rightarrow> u32 \<Rightarrow> u32 list" where
  "doubled t c = t @ map (\<lambda>x. x XOR c) t"

lemma table_doubled:
  "crc32_table256 = foldl doubled [0]
     [0x77073096, 0xee0e612c, 0x076dc419, 0x0edb8832, 0x1db71064, 0x3b6e20c8, 0x76dc4190, 0xedb88320]"
  by (simp add: doubled_def crc32_table256_def)

lemma poly_bit_steps:
  "poly_bit 128 = 64" "poly_bit 64 = 32" "poly_bit 32 = 16" "poly_bit 16 = 8" "poly_bit 8 = 4" "poly_bit 4 = 2"
  "poly_bit 2 = 1" "poly_bit 1 = 0xedb88320" "poly_bit 0xedb88320 = 0x76dc4190" "poly_bit 0x76dc4190 =
  0x3b6e20c8" "poly_bit 0x3b6e20c8 = 0x1db71064" "poly_bit 0x1db71064 = 0x0edb8832" "poly_bit 0x0edb8832 =
  0x076dc419" "poly_bit 0x076dc419 = 0xee0e612c" "poly_bit 0xee0e612c = 0x77073096"
  by (simp_all add: poly_bit_def)

lemma poly8: "(poly_bit ^^ 8) x = poly_bit (poly_bit (poly_bit (poly_bit (poly_bit (poly_bit (poly_bit (poly_bit x)))))))"
  by (simp add: eval_nat_numeral)

lemma poly_powers:
  "map (poly_bit ^^ 8) [1, 2, 4, 8, 16, 32, 64, 128] =
     [0x77073096, 0xee0e612c, 0x076dc419, 0x0edb8832, 0x1db71064, 0x3b6e20c8, 0x76dc4190, 0xedb88320]"
  by (simp add: poly8 poly_bit_steps)

lemma doubled_linear:
  assumes "length t = 2 ^ k" "\<forall>i<2 ^ k. t ! i = (poly_bit ^^ 8) (word_of_nat i)" "k < 32" "c = (poly_bit ^^ 8) (2 ^ k)"
  shows "length (doubled t c) = 2 ^ Suc k \<and> (\<forall>i<2 ^ Suc k. doubled t c ! i = (poly_bit ^^ 8) (word_of_nat i))"
proof (intro conjI allI impI)
  fix i :: nat assume i: "i < 2 ^ Suc k"
  show "doubled t c ! i = (poly_bit ^^ 8) (word_of_nat i)"
  proof (cases "i < 2 ^ k")
    case False
    define j where "j = i - 2 ^ k"
    have j: "i = j + 2 ^ k" "j < 2 ^ k" using i False by (simp_all add: j_def)
    have "(word_of_nat i :: u32) = word_of_nat j XOR 2 ^ k"
    proof -
      have "(word_of_nat j :: u32) AND 2 ^ k = 0"
      proof (rule bit_word_eqI)
        have "\<not> bit j k" using j(2) by (simp add: bit_iff_odd)
        then show "bit ((word_of_nat j :: u32) AND 2 ^ k) n = bit (0 :: u32) n" for n by (auto simp: bit_simps)
      qed
      then have "(word_of_nat j :: u32) XOR 2 ^ k = word_of_nat j + 2 ^ k" by (simp add: disjunctive_add_eq_xor)
      then show ?thesis by (simp add: j(1))
    qed
    then show ?thesis using j assms by (simp add: doubled_def nth_append poly_bits_xor)
  qed (use assms in \<open>simp add: doubled_def nth_append\<close>)
qed (use assms in \<open>simp add: doubled_def\<close>)

lemma table_nth: "i < 256 \<Longrightarrow> crc32_table256 ! i = (poly_bit ^^ 8) (word_of_nat i)"
proof -
  let ?ok = "\<lambda>t k. length t = 2 ^ k \<and> (\<forall>i<2 ^ k. t ! i = (poly_bit ^^ 8) (word_of_nat i))"
  have c: "(poly_bit ^^ 8) 1 = 0x77073096" "(poly_bit ^^ 8) 2 = 0xee0e612c" "(poly_bit ^^ 8) 4 = 0x076dc419"
    "(poly_bit ^^ 8) 8 = 0x0edb8832" "(poly_bit ^^ 8) 16 = 0x1db71064" "(poly_bit ^^ 8) 32 = 0x3b6e20c8"
    "(poly_bit ^^ 8) 64 = 0x76dc4190" "(poly_bit ^^ 8) 128 = 0xedb88320"
    using poly_powers by simp_all
  have step: "?ok t k \<Longrightarrow> k < 32 \<Longrightarrow> c = (poly_bit ^^ 8) (2 ^ k) \<Longrightarrow> ?ok (doubled t c) (Suc k)" for t c k
    using doubled_linear [of t k c] by blast
  have "?ok [0] 0" by (simp add: poly8 poly_bit_def)
  then have "?ok (doubled [0] 0x77073096) 1" using step [of "[0]" 0] c by simp
  note r = this [THEN step, THEN step, THEN step, THEN step, THEN step, THEN step, THEN step]
  have "?ok crc32_table256 8" unfolding table_doubled foldl.simps
    using r [of "0xee0e612c" "0x076dc419" "0x0edb8832" "0x1db71064" "0x3b6e20c8" "0x76dc4190" "0xedb88320"] c
    by (simp add: eval_nat_numeral)
  then show "i < 256 \<Longrightarrow> ?thesis" by simp
qed

lemma poly_bits_low_zero: "take_bit n x = 0 \<Longrightarrow> (poly_bit ^^ n) x = drop_bit n x" for x :: u32
proof (induction n arbitrary: x)
  case (Suc n)
  have b: "\<not> bit x k" if "k < Suc n" for k
    using arg_cong [OF Suc.prems, of "\<lambda>w. bit w k"] that by (simp add: bit_simps)
  then have "poly_bit x = drop_bit 1 x" by (simp add: poly_bit_def)
  moreover have "take_bit n (drop_bit 1 x) = 0" by (rule bit_word_eqI) (use b in \<open>auto simp: bit_simps\<close>)
  ultimately show ?case using Suc.IH [of "drop_bit 1 x"] by (simp add: funpow_swap1 drop_bit_drop_bit)
qed simp

lemma update_bytewise: "ffcrc32_update crc (ucast c) = crc32_bytewise crc c"
proof -
  define x where "x = crc XOR (ucast c :: u32)"
  have x: "x = (x AND 0xff) XOR (x AND NOT 0xff)" by (rule bit_word_eqI) (auto simp: bit_simps)
  have "unat (x AND 0xff) < 256" 
    using word_and_le1 [of x "0xff"] by (simp add: word_le_nat_alt)
  then have low: "crc32_table256 ! unat (x AND 0xff) = (poly_bit ^^ 8) (x AND 0xff)"
    using table_nth [of "unat (x AND 0xff)"] by simp
  have ff: "(0xff :: u32) = mask 8" by (simp add: mask_eq_exp_minus_1)
  have "take_bit 8 (x AND NOT 0xff) = 0" by (rule bit_word_eqI) (auto simp: bit_simps ff)
  then have high: "(poly_bit ^^ 8) (x AND NOT 0xff) = drop_bit 8 x"
  proof -
    assume "take_bit 8 (x AND NOT 0xff) = 0"
    then have "(poly_bit ^^ 8) (x AND NOT 0xff) = drop_bit 8 (x AND NOT 0xff)" by (rule poly_bits_low_zero)
    also have "\<dots> = drop_bit 8 x" by (rule bit_word_eqI) (auto simp: bit_simps ff dest: bit_imp_le_length)
    finally show ?thesis .
  qed
  have d: "drop_bit 8 x = drop_bit 8 crc" unfolding x_def by (rule bit_word_eqI) (auto simp: bit_simps)
  have "crc32_bytewise crc c = (poly_bit ^^ 8) ((x AND 0xff) XOR (x AND NOT 0xff))"
    by (simp only: crc32_bytewise_def x_def [symmetric] x [symmetric])
  also have "\<dots> = crc32_table256 ! unat (x AND 0xff) XOR drop_bit 8 crc"
    by (simp only: poly_bits_xor low high d)
  finally show ?thesis by (simp add: ffcrc32_update_def x_def)
qed

section \<open>Detection of changed bytes\<close>

lemma xor_cancel: "a XOR c = b XOR c \<longleftrightarrow> a = b" "c XOR a = c XOR b \<longleftrightarrow> a = b" for a :: u32
proof -
  show "a XOR c = b XOR c \<longleftrightarrow> a = b"
  proof
    assume "a XOR c = b XOR c"
    then have "(a XOR c) XOR c = (b XOR c) XOR c" by (rule arg_cong)
    then show "a = b" by (simp only: xor.assoc xor_self_eq xor.right_neutral)
  qed simp
  then show "c XOR a = c XOR b \<longleftrightarrow> a = b" by (simp only: xor.commute)
qed

lemma poly_bit_inj: "poly_bit a = poly_bit b \<longleftrightarrow> a = b"
proof
  assume eq: "poly_bit a = poly_bit b"
  have top: "bit (poly_bit x) 31 \<longleftrightarrow> bit x 0" for x
    by (auto simp: poly_bit_def bit_simps dest: bit_imp_le_length)
  then have b0: "bit a 0 = bit b 0" using eq by metis
  then have d: "drop_bit 1 a = drop_bit 1 b" using eq by (auto simp: poly_bit_def xor_cancel split: if_splits)
  show "a = b"
  proof (rule bit_word_eqI)
    fix n
    show "bit a n = bit b n" using b0 arg_cong [OF d, of "\<lambda>w. bit w (n - 1)"] by (cases n) (simp_all add: bit_simps)
  qed
qed simp

lemma poly_bits_inj: "(poly_bit ^^ n) a = (poly_bit ^^ n) b \<longleftrightarrow> a = b"
  by (induction n) (simp_all add: poly_bit_inj)

text \<open>Up to four bytes as one word, the first byte lowest.\<close>

fun burst_word :: "bytes \<Rightarrow> u32" where
  "burst_word [] = 0"
| "burst_word (d # ds) = ucast d XOR push_bit 8 (burst_word ds)"

lemma burst_word_low: "length ds \<le> 4 \<Longrightarrow> bit (burst_word ds) k \<Longrightarrow> k < 8 * length ds"
proof (induction ds arbitrary: k)
  case (Cons d ds)
  show ?case
  proof (cases "k < 8")
    case False
    then have "bit (burst_word ds) (k - 8)" using Cons.prems(2) by (auto simp: bit_simps dest: bit_imp_le_length)
    then have "k - 8 < 8 * length ds" using Cons by simp
    then show ?thesis by simp
  qed simp
qed simp

lemma foldl_burst: "length ds \<le> 4 \<Longrightarrow> foldl crc32_bytewise crc ds = (poly_bit ^^ (8 * length ds)) (crc XOR burst_word ds)"
proof (induction ds arbitrary: crc)
  case (Cons d ds)
  define w where "w = burst_word ds"
  have w: "bit w k \<Longrightarrow> k < 24" for k using burst_word_low [of ds k] Cons.prems by (simp add: w_def)
  have "take_bit 8 (push_bit 8 w) = 0" by (rule bit_word_eqI) (auto simp: bit_simps)
  then have "(poly_bit ^^ 8) (push_bit 8 w) = drop_bit 8 (push_bit 8 w)" by (rule poly_bits_low_zero)
  also have "\<dots> = w" by (rule bit_word_eqI) (use w in \<open>auto simp: bit_simps\<close>)
  finally have p: "(poly_bit ^^ 8) (push_bit 8 w) = w" .
  have "foldl crc32_bytewise crc (d # ds) = (poly_bit ^^ (8 * length ds)) ((poly_bit ^^ 8) (crc XOR ucast d) XOR w)"
    using Cons.IH [of "crc32_bytewise crc d"] Cons.prems by (simp add: w_def) (simp only: crc32_bytewise_def)
  also have "\<dots> = (poly_bit ^^ (8 * length ds)) ((poly_bit ^^ 8) (crc XOR ucast d XOR push_bit 8 w))"
    by (simp only: poly_bits_xor p xor.assoc)
  also have "\<dots> = (poly_bit ^^ (8 * length ds + 8)) (crc XOR burst_word (d # ds))"
    by (simp only: funpow_add o_apply w_def burst_word.simps xor.assoc)
  finally have "foldl crc32_bytewise crc (d # ds) = (poly_bit ^^ (8 * length ds + 8)) (crc XOR burst_word (d # ds))" .
  moreover have "8 * length (d # ds) = 8 * length ds + 8" by simp
  ultimately show ?case by (simp only:)
qed simp

lemma burst_word_inj: "length ds = length ds' \<Longrightarrow> length ds \<le> 4 \<Longrightarrow> burst_word ds = burst_word ds' \<Longrightarrow> ds = ds'"
proof (induction ds ds' rule: list_induct2)
  case (Cons d ds d' ds')
  have b: "bit (burst_word (d # ds)) k = bit (burst_word (d' # ds')) k" for k using Cons.prems(2) by simp
  have "d = d'"
  proof (rule bit_word_eqI)
    fix n assume "n < LENGTH(8)"
    then show "bit d n = bit d' n" using b [of n] by (simp add: bit_simps)
  qed
  moreover have "burst_word ds = burst_word ds'"
  proof (rule bit_word_eqI)
    fix n assume "n < LENGTH(32)"
    show "bit (burst_word ds) n = bit (burst_word ds') n"
    proof (cases "n < 24")
      case True
      then show ?thesis using b [of "n + 8"] by (simp add: bit_simps)
    next
      case False
      then show ?thesis using burst_word_low [of ds n] burst_word_low [of ds' n] Cons.prems(1) Cons.hyps by auto
    qed
  qed
  ultimately show ?case using Cons.IH Cons.prems(1) by (simp del: burst_word.simps)
qed simp

lemma bytewise_inj: "crc32_bytewise a c = crc32_bytewise b c \<longleftrightarrow> a = b"
  by (simp add: crc32_bytewise_def poly_bits_inj xor_cancel)

lemma foldl_bytewise_inj: "foldl crc32_bytewise a p = foldl crc32_bytewise b p \<longleftrightarrow> a = b"
  by (induction p arbitrary: a b) (simp_all add: bytewise_inj)

lemma get_spec: "ffcrc32_get p = crc32_spec p"
  by (simp add: ffcrc32_get_def crc32_spec_def ffcrc32_finish_def ffcrc32_start_def update_bytewise)

lemma updatestr_append: "ffcrc32_updatestr crc (p @ q) = ffcrc32_updatestr (ffcrc32_updatestr crc p) q"
  by (induction p arbitrary: crc) simp_all

lemma updatestr_bytewise: "ffcrc32_updatestr crc p = foldl crc32_bytewise crc p"
  by (induction p arbitrary: crc) (simp_all add: update_bytewise)

text \<open>
  C33: The table-driven checksum is the remainder of the bit-by-bit division by the generator polynomial,
  and a message may be fed in parts.
\<close>

theorem ffcrc32_table_correct:
  "ffcrc32_get (p @ q) = crc32_spec (p @ q)
   \<and> ffcrc32_get (p @ q) = ffcrc32_finish (ffcrc32_updatestr (ffcrc32_updatestr ffcrc32_start p) q)"
  by (simp only: get_spec) (simp add: updatestr_bytewise crc32_spec_def ffcrc32_finish_def ffcrc32_start_def)

text \<open>
  C34: Two messages that differ only within four consecutive bytes have different checksums.\<close>

theorem ffcrc32_detects_burst:
  assumes "length ds = length ds'" "length ds \<le> 4" "ds \<noteq> ds'"
  shows "ffcrc32_get (xs @ ds @ ys) \<noteq> ffcrc32_get (xs @ ds' @ ys)"
proof
  define s where "s = foldl crc32_bytewise 0xffffffff xs"
  assume "ffcrc32_get (xs @ ds @ ys) = ffcrc32_get (xs @ ds' @ ys)"
  then have "foldl crc32_bytewise s ds = foldl crc32_bytewise s ds'"
    by (simp add: get_spec crc32_spec_def s_def xor_cancel foldl_bytewise_inj)
  then have "s XOR burst_word ds = s XOR burst_word ds'"
    using assms(1,2) by (simp add: foldl_burst poly_bits_inj)
  then have "burst_word ds = burst_word ds'" by (simp add: xor_cancel)
  with burst_word_inj assms show False by blast
qed

lemma ffcrc32_detects_burst_witness: "ffcrc32_get ([1, 2] @ [3, 4, 5, 6] @ [7]) \<noteq> ffcrc32_get ([1, 2] @ [3, 4, 5, 5] @ [7])"
  by (rule ffcrc32_detects_burst) simp_all

end
