(* ===== verification/FF_StrEdit.thy ===== *)
theory FF_StrEdit
  imports FF_Str
begin

unbundle bit_operations_syntax

text \<open>
  Strings (\<open>ffstring.c\<close>, \<open>string.h\<close>): copying, masking with a key, splitting, case conversion,
  replacement, escaping, hexadecimal text and wildcards. A destination buffer is the list of
  its bytes, of the length of its capacity; an operation returns the buffer it leaves.
\<close>

section \<open>Copying\<close>

text \<open>The destination is the rest of the buffer from the write position; the number of the bytes
  written is the distance of the returned tail.\<close>

definition ffs_copyc :: "bytes \<Rightarrow> u8 \<Rightarrow> bytes \<times> nat" where
  "ffs_copyc dst ch = (case dst of [] \<Rightarrow> ([], 0) | _ # d \<Rightarrow> (ch # d, 1))"

fun ffs_copyz :: "bytes \<Rightarrow> bytes \<Rightarrow> bytes \<times> nat" where
  "ffs_copyz (d # dst) (c # sz) =
     (if c \<noteq> 0 then (let (r, n) = ffs_copyz dst sz in (c # r, Suc n)) else (d # dst, 0))"
| "ffs_copyz dst sz = (dst, 0)"

definition ffs_copy :: "bytes \<Rightarrow> bytes \<Rightarrow> bytes \<times> nat" where
  "ffs_copy dst s = (let len = min (length dst) (length s) in (put_at dst 0 (take len s), len))"

definition ffs_append :: "bytes \<Rightarrow> nat \<Rightarrow> bytes \<Rightarrow> bytes \<times> nat" where
  "ffs_append dst off src =
     (let n = min (length src) (length dst - off) in (put_at dst off (take n src), n))"

definition ffsz_copy :: "bytes \<Rightarrow> bytes \<Rightarrow> bytes \<times> nat" where
  "ffsz_copy dst src =
     (if length dst \<noteq> 0 then
        (let (d, n) = ffs_copy (take (length dst - 1) dst) src;
             dst = d @ drop (length dst - 1) dst
         in (dst[n := 0], n))
      else (dst, 0))"

definition ffs_fill :: "bytes \<Rightarrow> u8 \<Rightarrow> nat \<Rightarrow> bytes \<times> nat" where
  "ffs_fill s ch len =
     (let len = min len (length s) in (put_at s 0 (replicate len ch), len))"

section \<open>Masking with a key\<close>

text \<open>The remainder by \<open>nkey\<close> is undefined for an empty key.\<close>

definition ffmem_xor :: "bytes \<Rightarrow> bytes \<Rightarrow> bytes option" where
  "ffmem_xor src key =
     (if src \<noteq> [] \<and> key = [] then None
      else Some (map (\<lambda>i. src ! i XOR key ! (i mod length key)) [0..<length src]))"

text \<open>A \<open>uint\<close> in memory, lowest byte first.\<close>

definition bytes4 :: "u32 \<Rightarrow> bytes" where
  "bytes4 w = [ucast w, ucast (drop_bit 8 w), ucast (drop_bit 16 w), ucast (drop_bit 24 w)]"

definition le4 :: "u8 \<Rightarrow> u8 \<Rightarrow> u8 \<Rightarrow> u8 \<Rightarrow> u32" where
  "le4 a b c d = ucast a OR push_bit 8 (ucast b) OR push_bit 16 (ucast c) OR push_bit 24 (ucast d)"

fun xor4_loop :: "bytes \<Rightarrow> u32 \<Rightarrow> bytes" where
  "xor4_loop (a # b # c # d # src) key = bytes4 (le4 a b c d XOR key) @ xor4_loop src key"
| "xor4_loop src key = map2 (XOR) src (take (length src) (bytes4 key))"

definition ffmem_xor4 :: "bytes \<Rightarrow> u32 \<Rightarrow> bytes" where
  "ffmem_xor4 src key = xor4_loop src key"

lemma bytes4_xor: "bytes4 (le4 a b c d XOR k) = map2 (XOR) [a, b, c, d] (bytes4 k)"
  by (auto simp: bytes4_def le4_def bit_simps intro!: bit_word_eqI)

lemma xor_keystream:
  "key \<noteq> [] \<Longrightarrow> ffmem_xor src key = Some (map2 (XOR) src (map (\<lambda>i. key ! (i mod length key)) [0..<length src]))"
  by (auto simp: ffmem_xor_def intro: nth_equalityI)

lemma map_upt_add4: "map g [0..<n + 4] = [g 0, g 1, g 2, g 3] @ map (\<lambda>i. g (i + 4)) [0..<n]"
  by (simp add: map_upt_Suc eval_nat_numeral del: upt_Suc)

lemma bytes4_nth:
  "bytes4 k ! 0 = ucast k" "bytes4 k ! Suc 0 = ucast (drop_bit 8 k)"
  "bytes4 k ! 2 = ucast (drop_bit 16 k)" "bytes4 k ! 3 = ucast (drop_bit 24 k)"
  by (simp_all add: bytes4_def)

lemma map2_append:
  "length xs = length us \<Longrightarrow> map2 f (xs @ ys) (us @ vs) = map2 f xs us @ map2 f ys vs"
  by simp

lemma xor4_loop_keystream:
  "xor4_loop src k = map2 (XOR) src (map (\<lambda>i. bytes4 k ! (i mod 4)) [0..<length src])"
proof (induction src k rule: xor4_loop.induct)
  case (1 a b c d src key)
  define g where "g i = bytes4 key ! (i mod 4)" for i
  have g: "[g 0, g 1, g 2, g 3] = bytes4 key" "(\<lambda>i. g (i + 4)) = g"
    by (simp add: g_def bytes4_nth, simp add: bytes4_def) (simp add: g_def fun_eq_iff)
  have len: "length (a # b # c # d # src) = length src + 4" by simp
  have "map g [0..<length (a # b # c # d # src)] = bytes4 key @ map g [0..<length src]"
    unfolding len map_upt_add4 g ..
  moreover have "length (bytes4 key) = length [a, b, c, d]" by (simp add: bytes4_def)
  then have "map2 (XOR) ([a, b, c, d] @ src) (bytes4 key @ map g [0..<length src])
      = map2 (XOR) [a, b, c, d] (bytes4 key) @ map2 (XOR) src (map g [0..<length src])"
    by (intro map2_append) simp
  ultimately show ?case
    using 1 unfolding g_def [symmetric] by (simp only: xor4_loop.simps bytes4_xor append_Cons append_Nil)
qed (simp_all add: bytes4_def)

lemma ffmem_xor4_eq: "ffmem_xor src (bytes4 key) = Some (ffmem_xor4 src key)"
  by (subst xor_keystream) (simp_all add: ffmem_xor4_def xor4_loop_keystream bytes4_def)

lemma ffmem_xor_twice: "ffmem_xor src key = Some d \<Longrightarrow> ffmem_xor d key = Some src"
  by (auto simp: ffmem_xor_def split: if_splits intro!: nth_equalityI simp: xor.assoc)

section \<open>Splitting\<close>

text \<open>\<open>at\<close> is \<open>NULL\<close> or an offset up to the length; the result holds both halves and \<open>at\<close>.\<close>

definition ffs_split2 :: "bytes \<Rightarrow> nat option \<Rightarrow> bytes \<times> bytes \<times> nat option" where
  "ffs_split2 s at =
     (case at of None \<Rightarrow> (s, [], None)
      | Some a \<Rightarrow> if a = length s then (s, [], None) else (take a s, drop (a + 1) s, Some a))"

definition ffs_split2by :: "bytes \<Rightarrow> u8 \<Rightarrow> bytes \<times> bytes \<times> nat option" where
  "ffs_split2by s spl = ffs_split2 s (Some (ffs_find s spl))"

definition ffs_rsplit2by :: "bytes \<Rightarrow> u8 \<Rightarrow> bytes \<times> bytes \<times> nat option" where
  "ffs_rsplit2by s spl = ffs_split2 s (Some (ffs_rfind s spl))"

section \<open>Case conversion\<close>

text \<open>
  The destination may be the source itself (\<open>inplace\<close>): then a byte that needs no change is not
  written. The loop runs over the shorter of both.
\<close>

fun ffs_lower :: "bool \<Rightarrow> bytes \<Rightarrow> bytes \<Rightarrow> bytes \<times> nat" where
  "ffs_lower inplace (d # dst) (c # src) =
     (let (r, i) = ffs_lower inplace dst src; ch = uint c in
      ((if ffchar_isup ch then word_of_int (ffchar_lower ch)
        else if \<not> inplace then word_of_int ch else d) # r, Suc i))"
| "ffs_lower inplace dst src = (dst, 0)"

fun ffs_upper :: "bool \<Rightarrow> bytes \<Rightarrow> bytes \<Rightarrow> bytes \<times> nat" where
  "ffs_upper inplace (d # dst) (c # src) =
     (let (r, i) = ffs_upper inplace dst src; ch = uint c in
      ((if ffchar_islow ch then word_of_int (ffchar_upper ch)
        else if \<not> inplace then word_of_int ch else d) # r, Suc i))"
| "ffs_upper inplace dst src = (dst, 0)"

datatype title_st = i_cap | i_norm

fun title_loop :: "bool \<Rightarrow> title_st \<Rightarrow> bytes \<Rightarrow> bytes \<Rightarrow> bytes \<times> nat" where
  "title_loop inplace st (d # dst) (c # src) =
     (let ch = uint c;
          keep = (if \<not> inplace then word_of_int ch else d);
          (st, d) = (case st of
              i_cap \<Rightarrow>
                if ch \<noteq> 32 then
                  (i_norm, if ffchar_islow ch then word_of_int (ffchar_upper ch) else keep)
                else (i_cap, keep)
            | i_norm \<Rightarrow>
                if ch = 32 then (i_cap, keep)
                else if ffchar_isup ch then (i_norm, word_of_int (ffchar_lower ch))
                else (i_norm, keep));
          (r, i) = title_loop inplace st dst src
      in (d # r, Suc i))"
| "title_loop inplace st dst src = (dst, 0)"

definition ffs_titlecase :: "bool \<Rightarrow> bytes \<Rightarrow> bytes \<Rightarrow> bytes \<times> nat" where
  "ffs_titlecase inplace dst src = title_loop inplace i_cap dst src"

section \<open>Replacement\<close>

text \<open>Result: the buffer, the number of replacements and the number of bytes written.\<close>

fun ffs_replacechar :: "bytes \<Rightarrow> bytes \<Rightarrow> int \<Rightarrow> int \<Rightarrow> bytes \<times> nat \<times> nat" where
  "ffs_replacechar (c # src) (d # dst) search repl =
     (let (r, n, k) = ffs_replacechar src dst search repl in
      if sint c = search then (word_of_int repl # r, Suc n, Suc k) else (c # r, n, Suc k))"
| "ffs_replacechar src dst search repl = (dst, 0, 0)"

text \<open>Result: the destination string and the position after the replacement.\<close>

definition ffstr_replace :: "bytes \<Rightarrow> bytes \<Rightarrow> bytes \<Rightarrow> bool \<Rightarrow> bool \<Rightarrow> bytes \<times> int" where
  "ffstr_replace src search repl icasef notail =
     (let r = (if icasef then ffstr_ifind src search else ffstr_find src search) in
      if r < 0 then ([], 0)
      else let p = take (nat r) src @ repl;
               p = (if \<not> notail then p @ drop (nat r + length search) src else p)
           in (p, r + int (length repl)))"

section \<open>Hexadecimal text and escaping\<close>

definition ffhex :: bytes where
  "ffhex = [48, 49, 50, 51, 52, 53, 54, 55, 56, 57, 97, 98, 99, 100, 101, 102]"

definition ffHEX :: bytes where
  "ffHEX = [48, 49, 50, 51, 52, 53, 54, 55, 56, 57, 65, 66, 67, 68, 69, 70]"

definition ffs_hexbyte :: "u8 \<Rightarrow> bytes \<Rightarrow> bytes" where
  "ffs_hexbyte b hex = [hex ! unat (drop_bit 4 b), hex ! unat (b AND 0x0f)]"

text \<open>\<open>cap\<close> is \<open>None\<close> for a null destination: the size that is needed.\<close>

definition ffs_hexstr :: "nat option \<Rightarrow> bytes \<Rightarrow> bool \<Rightarrow> bytes \<times> nat" where
  "ffs_hexstr cap src hexup =
     (case cap of None \<Rightarrow> ([], length src * 2)
      | Some cap \<Rightarrow>
        if cap < length src * 2 then ([], 0)
        else let d = concat (map (\<lambda>b. ffs_hexbyte b (if hexup then ffHEX else ffhex)) src)
             in (d, length d))"

fun hex_loop :: "bytes \<Rightarrow> bytes option" where
  "hex_loop [] = Some []"
| "hex_loop [_] = None"
| "hex_loop (c # c2 # s) =
     (let b = ffchar_tohex (sint c); b2 = ffchar_tohex (sint c2) in
      if b < 0 \<or> b2 < 0 then None
      else map_option (\<lambda>r. word_of_int ((push_bit 4 b) OR b2) # r) (hex_loop s))"

definition ffs_hex_to_bytes :: "nat option \<Rightarrow> bytes \<Rightarrow> bytes \<times> int" where
  "ffs_hex_to_bytes cap s =
     (case cap of None \<Rightarrow> ([], int (length s div 2))
      | Some cap \<Rightarrow>
        if cap < length s div 2 \<or> length s mod 2 \<noteq> 0 then ([], -1)
        else case hex_loop s of None \<Rightarrow> ([], -1) | Some d \<Rightarrow> (d, int (length d)))"

text \<open>
  \<open>room\<close> is \<open>end - dst\<close>. A byte outside the mask becomes \<open>\\xXX\<close>. The result is the text
  written (zero-filled where an escape did not fit) and the bytes consumed before a failure.
\<close>

fun escape_loop :: "u32 list \<Rightarrow> bytes \<Rightarrow> nat \<Rightarrow> nat \<Rightarrow> bytes \<times> nat option" where
  "escape_loop m [] room i = ([], None)"
| "escape_loop m (c # s) room i =
     (if mask_has m c then
        (if room = 0 then ([], Some i)
         else let (d, r) = escape_loop m s (room - 1) (i + 1) in (c # d, r))
      else if room < 4 then (replicate (min 4 room) 0, Some i)
      else let (d, r) = escape_loop m s (room - 4) (i + 1)
           in ([92, 120] @ ffs_hexbyte c ffHEX @ d, r))"

definition ffs_escape_mask :: "nat option \<Rightarrow> bytes \<Rightarrow> u32 list \<Rightarrow> bytes \<times> int" where
  "ffs_escape_mask cap s m =
     (case cap of
        None \<Rightarrow> ([], int (length s + sum_list (map (\<lambda>c. if \<not> mask_has m c then 4 - 1 else 0) s)))
      | Some cap \<Rightarrow>
        (case escape_loop m s cap 0 of
           (d, None) \<Rightarrow> (d, int (length d))
         | (d, Some i) \<Rightarrow> (d, - int i)))"

definition ffs_escape :: "nat option \<Rightarrow> bytes \<Rightarrow> bytes \<times> int" where
  "ffs_escape cap s = ffs_escape_mask cap s esc_nprint"

section \<open>Wildcards\<close>

text \<open>
  The state of the loop: the rest of the pattern, the offset in the text, and after an asterisk
  the pattern behind it (\<open>None\<close> is \<open>astk == endpatt\<close>) with the offset to restart from. The
  result is 0 for a match and 1 otherwise; \<open>None\<close> would be a loop that does not end.
\<close>

definition wc_char :: "bool \<Rightarrow> u8 \<Rightarrow> int" where
  "wc_char ic c = (if ic then icase (sint c) else sint c)"

partial_function (option) wc_loop ::
  "bool \<Rightarrow> bytes \<Rightarrow> bytes \<Rightarrow> nat \<Rightarrow> bytes option \<Rightarrow> nat \<Rightarrow> int option" where
  "wc_loop ic str pattern s astk astk_s =
     (case pattern of
        [] \<Rightarrow> Some (if s = length str then 0 else 1)
      | c # pat \<Rightarrow>
        if c = 42 then
          (if pat = [] then Some 0
           else wc_loop ic str pat s (Some pat) (s + 1))
        else if s = length str then Some 1
        else if c = 63 then wc_loop ic str pat (s + 1) astk astk_s
        else if wc_char ic c = wc_char ic (str ! s) then wc_loop ic str pat (s + 1) astk astk_s
        else (case astk of
            None \<Rightarrow> Some 1
          | Some q \<Rightarrow> wc_loop ic str q astk_s astk (astk_s + 1)))"

definition ffs_wildcard :: "bytes \<Rightarrow> bytes \<Rightarrow> bool \<Rightarrow> int option" where
  "ffs_wildcard pattern s ic = wc_loop ic s pattern 0 None 0"

text \<open>What a pattern matches.\<close>

fun wmatch :: "bool \<Rightarrow> bytes \<Rightarrow> bytes \<Rightarrow> bool" where
  "wmatch ic [] s = (s = [])"
| "wmatch ic (c # p) s =
     (if c = 42 then (\<exists>j \<le> length s. wmatch ic p (drop j s))
      else s \<noteq> [] \<and> (c = 63 \<or> wc_char ic c = wc_char ic (hd s)) \<and> wmatch ic p (tl s))"

lemma wmatch_star_mono: "wmatch ic (42 # p) (drop k s) \<Longrightarrow> wmatch ic (42 # p) s"
proof -
  assume "wmatch ic (42 # p) (drop k s)"
  then obtain j where j: "j \<le> length (drop k s)" "wmatch ic p (drop (j + k) s)" by auto
  show ?thesis
  proof (cases "j + k \<le> length s")
    case True
    with j show ?thesis by auto
  next
    case False
    with j have "wmatch ic p (drop (length s) s)" by simp
    then show ?thesis by auto
  qed
qed

lemma wmatch_lits:
  "42 \<notin> set l \<Longrightarrow> wmatch ic (l @ p) s \<Longrightarrow> length l \<le> length s \<and> wmatch ic p (drop (length l) s)"
proof (induction l arbitrary: s)
  case (Cons a l)
  then show ?case by (cases s) auto
qed simp

text \<open>The relation of the state to the whole match: what the loop keeps.\<close>

definition wc_inv :: "bool \<Rightarrow> bytes \<Rightarrow> bytes \<Rightarrow> bytes \<Rightarrow> nat \<Rightarrow> bytes option \<Rightarrow> nat \<Rightarrow> bool" where
  "wc_inv ic P S p s astk as \<longleftrightarrow> s \<le> length S \<and> suffix p P
     \<and> (wmatch ic p (drop s S) \<longrightarrow> wmatch ic P S)
     \<and> (case astk of
          None \<Rightarrow> (wmatch ic P S \<longrightarrow> wmatch ic p (drop s S)) \<and> (42 \<in> set P \<longrightarrow> 42 \<in> set p)
        | Some q \<Rightarrow> 42 \<in> set P \<and> (\<exists>l. q = l @ p \<and> 42 \<notin> set l \<and> s + 1 = as + length l)
            \<and> suffix q P
            \<and> (\<forall>j \<le> length S. as \<le> j \<longrightarrow> wmatch ic q (drop j S) \<longrightarrow> wmatch ic P S)
            \<and> (wmatch ic P S \<longrightarrow> wmatch ic p (drop s S)
                \<or> (\<exists>j \<le> length S. as \<le> j \<and> wmatch ic q (drop j S)))
            \<and> (last P = 42 \<longrightarrow> p \<noteq> []))"

definition wc_rel :: "bytes \<Rightarrow> bytes \<Rightarrow> ((bytes \<times> bytes option \<times> nat) \<times> (bytes \<times> bytes option \<times> nat)) set" where
  "wc_rel P S = inv_image (less_than <*lex*> less_than <*lex*> less_than)
     (\<lambda>(p, astk, as). (case astk of None \<Rightarrow> length P + 1 | Some q \<Rightarrow> length q, length S + 1 - as, length p))"

lemma wf_wc_rel: "wf (wc_rel P S)"
  unfolding wc_rel_def by (intro wf_inv_image wf_lex_prod wf_less_than)

lemma wc_inv_star:
  assumes "wc_inv ic P S (42 # pat) s astk as" and "pat \<noteq> []"
  shows "wc_inv ic P S pat s (Some pat) (s + 1)"
proof -
  have s: "s \<le> length S" and suf: "suffix pat P"
    using assms(1) by (auto simp: wc_inv_def suffix_ConsD)
  have star: "42 \<in> set P"
    using assms(1) by (auto simp: wc_inv_def dest: set_mono_suffix)
  have split: "wmatch ic (42 # pat) (drop s S) \<longleftrightarrow> (\<exists>j \<le> length S. s \<le> j \<and> wmatch ic pat (drop j S))"
  proof
    assume "wmatch ic (42 # pat) (drop s S)"
    then obtain j where "j \<le> length S - s" "wmatch ic pat (drop (j + s) S)" by auto
    with s show "\<exists>j \<le> length S. s \<le> j \<and> wmatch ic pat (drop j S)"
      by (intro exI [of _ "j + s"]) auto
  next
    assume "\<exists>j \<le> length S. s \<le> j \<and> wmatch ic pat (drop j S)"
    then obtain j where "j \<le> length S" "s \<le> j" "wmatch ic pat (drop j S)" by auto
    then show "wmatch ic (42 # pat) (drop s S)" by (auto intro!: exI [of _ "j - s"])
  qed
  have fwd: "wmatch ic (42 # pat) (drop s S) \<longrightarrow> wmatch ic P S"
    using assms(1) by (auto simp: wc_inv_def)
  have bwd: "wmatch ic P S \<longrightarrow> wmatch ic (42 # pat) (drop s S)"
  proof (cases astk)
    case None
    with assms(1) show ?thesis by (simp add: wc_inv_def)
  next
    case (Some q)
    with assms(1) obtain l where l: "q = l @ 42 # pat" "42 \<notin> set l" "s + 1 = as + length l"
      by (auto simp: wc_inv_def)
    have "wmatch ic (42 # pat) (drop s S)" if "j \<le> length S" "as \<le> j" "wmatch ic q (drop j S)" for j
    proof -
      from wmatch_lits [OF l(2) that(3) [unfolded l(1)]]
      have "wmatch ic (42 # pat) (drop (length l + j) S)" by (simp add: add.commute)
      also have "drop (length l + j) S = drop (length l + j - s) (drop s S)"
        using l(3) that(2) by simp
      finally show ?thesis by (rule wmatch_star_mono)
    qed
    with assms(1) Some show ?thesis by (auto simp: wc_inv_def)
  qed
  show ?thesis
    unfolding wc_inv_def option.case
  proof (intro conjI)
    show "\<forall>j \<le> length S. s + 1 \<le> j \<longrightarrow> wmatch ic pat (drop j S) \<longrightarrow> wmatch ic P S"
    proof (intro allI impI)
      fix j assume "j \<le> length S" "s + 1 \<le> j" "wmatch ic pat (drop j S)"
      moreover from this have "s \<le> j" by simp
      ultimately show "wmatch ic P S" using split fwd by blast
    qed
    show "wmatch ic P S \<longrightarrow> wmatch ic pat (drop s S)
        \<or> (\<exists>j \<le> length S. s + 1 \<le> j \<and> wmatch ic pat (drop j S))"
      using split bwd by (metis Suc_eq_plus1 not_less_eq_eq le_antisym)
    show "wmatch ic pat (drop s S) \<longrightarrow> wmatch ic P S" using split fwd s by blast
  qed (use s suf star assms(2) in \<open>auto intro: exI [of _ "[]"]\<close>)
qed


lemma wmatch_step:
  assumes "s < length S" and "c \<noteq> 42"
  shows "wmatch ic (c # p) (drop s S) \<longleftrightarrow>
    (c = 63 \<or> wc_char ic c = wc_char ic (S ! s)) \<and> wmatch ic p (drop (s + 1) S)"
  using assms by (simp add: hd_drop_conv_nth tl_drop drop_Suc)

lemma wc_inv_step:
  assumes "wc_inv ic P S (c # pat) s astk as" and "s < length S" and "c \<noteq> 42"
    and "c = 63 \<or> wc_char ic c = wc_char ic (S ! s)"
  shows "wc_inv ic P S pat (s + 1) astk as"
proof -
  have w: "wmatch ic (c # pat) (drop s S) \<longleftrightarrow> wmatch ic pat (drop (s + 1) S)"
    using wmatch_step [OF assms(2,3)] assms(4) by simp
  have suf: "suffix pat P" and suf': "suffix (c # pat) P"
    using assms(1) by (auto simp: wc_inv_def suffix_ConsD)
  have last: "last P = 42 \<longrightarrow> pat \<noteq> []"
    using suf' assms(3) by (auto simp: suffix_def)
  show ?thesis
  proof (cases astk)
    case None
    have "42 \<in> set P \<longrightarrow> 42 \<in> set pat"
      using assms(1,3) None by (auto simp: wc_inv_def)
    with None show ?thesis
      using assms(1,2) suf unfolding wc_inv_def None option.case w [symmetric]
      by (intro conjI) (simp_all del: wmatch.simps)
  next
    case (Some q)
    with assms(1) obtain l where l: "q = l @ c # pat" "42 \<notin> set l" "s + 1 = as + length l"
      by (auto simp: wc_inv_def)
    then have "\<exists>l. q = l @ pat \<and> 42 \<notin> set l \<and> s + 1 + 1 = as + length l"
      using assms(3) by (intro exI [of _ "l @ [c]"]) simp
    then show ?thesis
      using assms(1,2) suf last unfolding wc_inv_def Some option.case w [symmetric]
      by (intro conjI) (simp_all del: wmatch.simps)
  qed
qed

lemma wc_inv_back:
  assumes "wc_inv ic P S (c # pat) s (Some q) as" and "s < length S" and "c \<noteq> 42" and "c \<noteq> 63"
    and "wc_char ic c \<noteq> wc_char ic (S ! s)"
  shows "wc_inv ic P S q as (Some q) (as + 1)" and "as \<le> length S"
proof -
  have nw: "\<not> wmatch ic (c # pat) (drop s S)"
    using wmatch_step [OF assms(2,3)] assms(4,5) by simp
  obtain l where l: "q = l @ c # pat" "s + 1 = as + length l"
    using assms(1) by (auto simp: wc_inv_def)
  then show as: "as \<le> length S" using assms(2) by simp
  have "wmatch ic P S \<longrightarrow> (\<exists>j \<le> length S. as \<le> j \<and> wmatch ic q (drop j S))"
    using assms(1) nw by (simp add: wc_inv_def)
  moreover have "(\<exists>j \<le> length S. as \<le> j \<and> wmatch ic q (drop j S)) \<longrightarrow>
      wmatch ic q (drop as S) \<or> (\<exists>j \<le> length S. as + 1 \<le> j \<and> wmatch ic q (drop j S))"
    by (metis Suc_eq_plus1 le_antisym not_less_eq_eq)
  ultimately show "wc_inv ic P S q as (Some q) (as + 1)"
    using assms(1) as l(1) unfolding wc_inv_def option.case
    by (intro conjI) (auto intro: exI [of _ "[]"])
qed

lemma wc_loop_correct:
  assumes "wc_inv ic P S p s astk as"
  shows "\<exists>r. wc_loop ic S p s astk as = Some r \<and> (r = 0 \<or> r = 1)
    \<and> (r = 0 \<longrightarrow> wmatch ic P S)
    \<and> (42 \<notin> set P \<or> last P = 42 \<longrightarrow> wmatch ic P S \<longrightarrow> r = 0)"
  using assms
proof (induction "(p, astk, as)" arbitrary: p s astk as rule: wf_induct_rule [OF wf_wc_rel [of P S]])
  case (1 p astk as s)
  note IH = 1(1) and inv = 1(2)
  note unf = wc_loop.simps [of ic S p s astk as]
  show ?case
  proof (cases p)
    case Nil
    with inv have n: "s = length S \<longrightarrow> wmatch ic P S" by (auto simp: wc_inv_def)
    have "wmatch ic P S \<longrightarrow> s = length S" if "42 \<notin> set P \<or> last P = 42"
      using inv that Nil by (cases astk) (auto simp: wc_inv_def)
    with n Nil unf show ?thesis by auto
  next
    case (Cons c pat)
    consider (star) "c = 42" | (short) "c \<noteq> 42" "s = length S"
      | (step) "c \<noteq> 42" "s < length S" "c = 63 \<or> wc_char ic c = wc_char ic (S ! s)"
      | (mis) "c \<noteq> 42" "s < length S" "c \<noteq> 63" "wc_char ic c \<noteq> wc_char ic (S ! s)"
      using inv by (force simp: wc_inv_def)
    then show ?thesis
    proof cases
      case star
      show ?thesis
      proof (cases "pat = []")
        case True
        have "wmatch ic [] (drop (length S - s) (drop s S))" by simp
        then have "wmatch ic p (drop s S)" using Cons star True by auto
        with inv have "wmatch ic P S" by (simp add: wc_inv_def)
        with Cons star True unf show ?thesis by simp
      next
        case False
        have "wc_inv ic P S (42 # pat) s astk as" using inv Cons star by simp
        then have "wc_inv ic P S pat s (Some pat) (s + 1)" using False by (rule wc_inv_star)
        moreover have "length pat < length P + 1" and "\<And>q. astk = Some q \<Longrightarrow> length pat < length q"
          using inv Cons by (auto simp: wc_inv_def suffix_def)
        then have "((pat, Some pat, s + 1), (p, astk, as)) \<in> wc_rel P S"
          by (cases astk) (auto simp: wc_rel_def)
        ultimately show ?thesis using IH False Cons star unf by simp
      qed
    next
      case short
      have "\<not> wmatch ic P S"
      proof (cases astk)
        case None
        with inv short Cons show ?thesis by (auto simp: wc_inv_def)
      next
        case (Some q)
        with inv Cons obtain l where l: "q = l @ c # pat" "42 \<notin> set l" "s + 1 = as + length l"
          by (auto simp: wc_inv_def)
        have "\<not> wmatch ic q (drop j S)" if "as \<le> j" "j \<le> length S" for j
          using wmatch_lits [of "l @ [c]" ic pat "drop j S"] l short that by auto
        moreover have "\<not> wmatch ic p (drop s S)" using short Cons by simp
        ultimately show ?thesis using inv Some unfolding wc_inv_def by auto
      qed
      with short Cons unf show ?thesis by simp
    next
      case step
      from wc_inv_step [OF inv [unfolded Cons] step(2,1,3)] have "wc_inv ic P S pat (s + 1) astk as" .
      moreover have "((pat, astk, as), (p, astk, as)) \<in> wc_rel P S"
        using Cons by (simp add: wc_rel_def)
      ultimately show ?thesis using IH Cons step unf by auto
    next
      case mis
      show ?thesis
      proof (cases astk)
        case None
        have "\<not> wmatch ic p (drop s S)"
          using wmatch_step [OF mis(2,1), of ic pat] mis Cons by (simp del: wmatch.simps)
        with inv None have "\<not> wmatch ic P S" by (simp add: wc_inv_def del: wmatch.simps)
        with None mis Cons unf show ?thesis by simp
      next
        case (Some q)
        note bk = wc_inv_back [OF inv [unfolded Some Cons] mis(2,1,3,4)]
        have "((q, Some q, as + 1), (p, astk, as)) \<in> wc_rel P S"
          using bk(2) Some by (simp add: wc_rel_def Suc_diff_le)
        from IH [OF this bk(1)] show ?thesis using Some mis Cons unf by simp
      qed
    qed
  qed
qed

lemma ffs_wildcard_spec:
  "\<exists>r. ffs_wildcard P S ic = Some r \<and> (r = 0 \<or> r = 1) \<and> (r = 0 \<longrightarrow> wmatch ic P S)
    \<and> (42 \<notin> set P \<or> last P = 42 \<longrightarrow> wmatch ic P S \<longrightarrow> r = 0)"
  unfolding ffs_wildcard_def by (rule wc_loop_correct) (simp add: wc_inv_def)

section \<open>Case conversion: meaning\<close>

definition upper_case :: "u8 \<Rightarrow> u8" where
  "upper_case b = (if ffchar_islow (uint b) then b - 32 else b)"

lemma lower_word [simp]: "ffchar_isup (uint c) \<Longrightarrow> word_of_int (ffchar_lower (uint c)) = fold_case c"
  by (simp add: fold_case_def)

lemma upper_word [simp]: "ffchar_islow (uint c) \<Longrightarrow> word_of_int (ffchar_upper (uint c)) = upper_case c"
proof -
  assume low: "ffchar_islow (uint c)"
  have "list_all (\<lambda>ch. ffchar_islow ch \<longrightarrow> ffchar_upper ch = ch - 32) [-128..255]" by code_simp
  from char_enum [OF this, of "uint c"] low have "ffchar_upper (uint c) = uint c - 32"
    by (simp add: ffchar_islow_def)
  with low show ?thesis by (simp add: upper_case_def)
qed

lemma ffs_lower_map:
  "inplace \<longrightarrow> dst = src \<Longrightarrow>
    ffs_lower inplace dst src =
      (map fold_case (take (length dst) src) @ drop (length src) dst, min (length dst) (length src))"
  by (induction inplace dst src rule: ffs_lower.induct) (auto simp: Let_def fold_case_def)

lemma ffs_upper_map:
  "inplace \<longrightarrow> dst = src \<Longrightarrow>
    ffs_upper inplace dst src =
      (map upper_case (take (length dst) src) @ drop (length src) dst, min (length dst) (length src))"
  by (induction inplace dst src rule: ffs_upper.induct) (auto simp: Let_def upper_case_def)

text \<open>Every word of the text starts with a capital and goes on in lower case.\<close>

fun titled :: "bool \<Rightarrow> bytes \<Rightarrow> bytes" where
  "titled new [] = []"
| "titled new (c # s) = (if new then upper_case c else fold_case c) # titled (c = 32) s"

lemma space_case: "fold_case 32 = 32" "upper_case 32 = 32" "\<not> ffchar_islow 32" "\<not> ffchar_isup 32"
  by code_simp+

lemma title_loop_titled:
  "inplace \<longrightarrow> dst = src \<Longrightarrow>
    title_loop inplace st dst src =
      (titled (st = i_cap) (take (length dst) src) @ drop (length src) dst, min (length dst) (length src))"
proof (induction inplace st dst src rule: title_loop.induct [case_names step e1 e2])
  case (step inplace st d dst c src)
  have sp: "uint c = 32 \<longleftrightarrow> c = 32" by (auto simp: word_uint_eq_iff)
  show ?case
    using step by (cases st) (auto simp: sp Let_def fold_case_def upper_case_def space_case)
qed auto

section \<open>Hexadecimal text and escaping: meaning\<close>

lemma hex_digit_back:
  assumes "i < 16"
  shows "ffchar_tohex (sint (ffhex ! i)) = int i" and "ffchar_tohex (sint (ffHEX ! i)) = int i"
proof -
  have "list_all (\<lambda>i. ffchar_tohex (sint (ffhex ! i)) = int i \<and> ffchar_tohex (sint (ffHEX ! i)) = int i) [0..<16]"
    by code_simp
  with assms show "ffchar_tohex (sint (ffhex ! i)) = int i" "ffchar_tohex (sint (ffHEX ! i)) = int i"
    by (auto simp: list_all_iff)
qed

lemma nibble_lt: "unat (drop_bit 4 (b :: u8)) < 16" "unat (b AND 15) < 16"
proof -
  show "unat (drop_bit 4 (b :: u8)) < 16"
    by (simp add: drop_bit_eq_div unat_div less_mult_imp_div_less)
  have "b AND 15 \<le> 15" by (rule word_and_le1)
  then show "unat (b AND 15) < 16" by (simp add: word_le_nat_alt)
qed

lemma nibbles: "of_int (push_bit 4 (int (unat (drop_bit 4 b))) OR int (unat (b AND 15))) = (b :: u8)"
proof -
  have m: "(15 :: u8) = mask 4" by (simp add: mask_eq_exp_minus_1)
  have "push_bit 4 (drop_bit 4 b) OR (b AND 15) = b"
    unfolding m by (rule bit_word_eqI) (auto simp: bit_simps)
  then show ?thesis
    by (simp add: of_int_or_eq flip: push_bit_of_int)
qed

lemma hex_loop_hexbyte:
  "hex = ffhex \<or> hex = ffHEX \<Longrightarrow> hex_loop (ffs_hexbyte b hex @ s) = map_option ((#) b) (hex_loop s)"
  using nibble_lt [of b] nibbles [of b] by (auto simp: ffs_hexbyte_def Let_def hex_digit_back)

lemma hex_roundtrip:
  "hex = ffhex \<or> hex = ffHEX \<Longrightarrow> hex_loop (concat (map (\<lambda>b. ffs_hexbyte b hex) src)) = Some src"
  by (induction src) (auto simp: hex_loop_hexbyte)

lemma length_hexbyte [simp]: "length (ffs_hexbyte b hex) = 2"
  by (simp add: ffs_hexbyte_def)

lemma length_hexbytes: "length (concat (map (\<lambda>b. ffs_hexbyte b hex) src)) = length src * 2"
  by (induction src) auto

text \<open>Undoing the escapes \<open>\\xXX\<close>: the reader of the escaped text.\<close>

fun unescape :: "bytes \<Rightarrow> bytes option" where
  "unescape [] = Some []"
| "unescape (c # s) =
     (if c = 92 then
        (case s of
           x # h # l # s \<Rightarrow>
             (case hex_loop [h, l] of Some [b] \<Rightarrow> map_option ((#) b) (unescape s) | _ \<Rightarrow> None)
         | _ \<Rightarrow> None)
      else map_option ((#) c) (unescape s))"

text \<open>What one byte becomes.\<close>

definition escaped :: "u32 list \<Rightarrow> u8 \<Rightarrow> bytes" where
  "escaped m c = (if mask_has m c then [c] else [92, 120] @ ffs_hexbyte c ffHEX)"

lemma escaped_simps [simp]:
  "mask_has m c \<Longrightarrow> escaped m c = [c]"
  "\<not> mask_has m c \<Longrightarrow> escaped m c = 92 # 120 # ffs_hexbyte c ffHEX"
  by (simp_all add: escaped_def)

lemma length_escaped [simp]: "length (escaped m c) = (if mask_has m c then 1 else 4)"
  by (simp add: ffs_hexbyte_def)

lemma escape_loop_all:
  "length (concat (map (escaped m) s)) \<le> room \<Longrightarrow>
    escape_loop m s room i = (concat (map (escaped m) s), None)"
  by (induction m s room i rule: escape_loop.induct) (auto split: if_splits)

lemma escape_loop_room: "length (fst (escape_loop m s room i)) \<le> room"
  by (induction m s room i rule: escape_loop.induct) (auto split: prod.splits)

lemma escape_loop_short:
  "room < length (concat (map (escaped m) s)) \<Longrightarrow>
    \<exists>k < length s. snd (escape_loop m s room i) = Some (i + k)"
proof (induction m s room i rule: escape_loop.induct [case_names nil step])
  case (step m c s room i)
  consider "mask_has m c" "room = 0" | "\<not> mask_has m c" "room < 4"
    | (a) "mask_has m c" "room \<noteq> 0" | (b) "\<not> mask_has m c" "\<not> room < 4" by blast
  then show ?case
  proof cases
    case a
    then have "room - 1 < length (concat (map (escaped m) s))" using step.prems by auto
    from step.IH(1) [OF a this]
    obtain k where "k < length s" "snd (escape_loop m s (room - 1) (i + 1)) = Some (i + 1 + k)" by auto
    with a show ?thesis by (auto split: prod.splits intro: exI [of _ "Suc k"])
  next
    case b
    then have "room - 4 < length (concat (map (escaped m) s))" using step.prems by auto
    from step.IH(2) [OF b this]
    obtain k where "k < length s" "snd (escape_loop m s (room - 4) (i + 1)) = Some (i + 1 + k)" by auto
    with b show ?thesis by (auto split: prod.splits intro: exI [of _ "Suc k"])
  qed auto
qed simp

lemma escape_needed:
  "length s + sum_list (map (\<lambda>c. if \<not> mask_has m c then 4 - 1 else 0) s) = length (concat (map (escaped m) s))"
  by (induction s) auto

lemma unescape_escaped:
  "\<not> mask_has m 92 \<Longrightarrow> unescape (concat (map (escaped m) s)) = Some s"
proof (induction s)
  case (Cons c s)
  have hex: "hex_loop (ffs_hexbyte c ffHEX) = Some [c]"
    using hex_loop_hexbyte [of ffHEX c "[]"] by simp
  show ?case
  proof (cases "mask_has m c")
    case True
    with Cons have "c \<noteq> 92" by auto
    with True Cons show ?thesis by (simp add: escaped_def)
  next
    case False
    with Cons hex show ?thesis by (simp add: escaped_def ffs_hexbyte_def)
  qed
qed simp

lemma esc_nprint_backslash: "\<not> mask_has esc_nprint 92"
  by code_simp

section \<open>Properties\<close>

text \<open>
  C39: Wildcard matching always ends; a match it reports is a match of the pattern, and for
  patterns without an asterisk or with one at the end it reports every match.
\<close>

theorem ffs_wildcard_correct:
  "\<exists>r. ffs_wildcard P S ic = Some r \<and> r \<in> {0, 1} \<and> (r = 0 \<longrightarrow> wmatch ic P S)
    \<and> (42 \<notin> set P \<or> last P = 42 \<longrightarrow> (r = 0 \<longleftrightarrow> wmatch ic P S))"
  using ffs_wildcard_spec [of P S ic] by auto

theorem ffs_wildcard_correct_witness:
  "\<exists>r. ffs_wildcard [97, 63, 42] [97, 98, 99] False = Some r \<and> (r = 0 \<longleftrightarrow> wmatch False [97, 63, 42] [97, 98, 99])"
  using ffs_wildcard_correct [of "[97, 63, 42]" "[97, 98, 99]" False] by auto

text \<open>
  A pattern that goes on after an asterisk can miss a match: when the pattern is used up
  before the text, ffs_wildcard does not go back to the asterisk, so the pattern *a does not
  match the text aa.
\<close>

theorem ffs_wildcard_misses:
  "wmatch ic [42, 97] [97, 97] \<and> ffs_wildcard [42, 97] [97, 97] ic = Some 1"
  by (auto simp: ffs_wildcard_def wc_loop.simps intro: exI [of _ "Suc 0"])

text \<open>
  XOR with a key is its own inverse, and the variant that works on four bytes at a time
  gives the same bytes as the general one with the four bytes of its key.
\<close>

theorem ffmem_xor_involution:
  "ffmem_xor src (bytes4 key) = Some (ffmem_xor4 src key)
    \<and> ffmem_xor4 (ffmem_xor4 src key) key = src
    \<and> (ffmem_xor src k = Some d \<longrightarrow> ffmem_xor d k = Some src)"
proof -
  have "ffmem_xor (ffmem_xor4 src key) (bytes4 key) = Some src"
    by (rule ffmem_xor_twice) (rule ffmem_xor4_eq)
  then have "ffmem_xor4 (ffmem_xor4 src key) key = src" by (simp add: ffmem_xor4_eq)
  then show ?thesis using ffmem_xor4_eq ffmem_xor_twice by blast
qed

theorem ffmem_xor_involution_witness:
  "ffmem_xor [4, 5, 6] [5, 7] = Some [1, 2, 3]"
proof -
  have "ffmem_xor [1, 2, 3] [5, 7] = Some [4, 5, 6]" by code_simp
  with ffmem_xor_involution [of "[1, 2, 3]" 0 "[5, 7]" "[4, 5, 6]"] show ?thesis by blast
qed

text \<open>
  Escaping with the size that the call without a buffer reports writes exactly that many
  bytes, from which undoing the escapes gives the text back; with less room it fails, having
  kept within the buffer. A byte string is recovered from its hexadecimal text.
\<close>

theorem ffs_escape_roundtrip:
  "\<exists>d. int (length d) = snd (ffs_escape None s) \<and> unescape d = Some s
    \<and> (\<forall>cap. length (fst (ffs_escape (Some cap) s)) \<le> cap
        \<and> (length d \<le> cap \<longrightarrow> ffs_escape (Some cap) s = (d, int (length d)))
        \<and> (cap < length d \<longrightarrow> snd (ffs_escape (Some cap) s) \<le> 0))
    \<and> (\<forall>cap up. 2 * length s \<le> cap \<longrightarrow>
        fst (ffs_hex_to_bytes (Some cap) (fst (ffs_hexstr (Some cap) s up))) = s)"
proof (rule exI [of _ "concat (map (escaped esc_nprint) s)"], intro conjI allI impI)
  let ?d = "concat (map (escaped esc_nprint) s)"
  show "int (length ?d) = snd (ffs_escape None s)"
    unfolding ffs_escape_def ffs_escape_mask_def option.case snd_conv escape_needed ..
  show "unescape ?d = Some s" by (rule unescape_escaped [OF esc_nprint_backslash])
  fix cap
  show "length (fst (ffs_escape (Some cap) s)) \<le> cap"
    using escape_loop_room [of esc_nprint s cap 0]
    by (auto simp: ffs_escape_def ffs_escape_mask_def split: prod.splits option.splits)
  show "length ?d \<le> cap \<Longrightarrow> ffs_escape (Some cap) s = (?d, int (length ?d))"
    unfolding ffs_escape_def ffs_escape_mask_def by (simp only: option.case escape_loop_all prod.case)
  show "cap < length ?d \<Longrightarrow> snd (ffs_escape (Some cap) s) \<le> 0"
    using escape_loop_short [of cap esc_nprint s 0]
    by (auto simp: ffs_escape_def ffs_escape_mask_def split: prod.splits)
  fix up
  assume "2 * length s \<le> cap"
  then show "fst (ffs_hex_to_bytes (Some cap) (fst (ffs_hexstr (Some cap) s up))) = s"
    using hex_roundtrip [of ffhex s] hex_roundtrip [of ffHEX s]
    by (simp add: ffs_hexstr_def ffs_hex_to_bytes_def length_hexbytes)
qed

theorem ffs_escape_roundtrip_witness:
  "\<exists>d. unescape d = Some [10, 92, 7] \<and> ffs_escape (Some 20) [10, 92, 7] = (d, int (length d))"
proof -
  have "snd (ffs_escape None [10, 92, 7]) = 9" by code_simp
  with ffs_escape_roundtrip [of "[10, 92, 7]"] show ?thesis by auto
qed

text \<open>
  Case conversion writes as many bytes as fit, the same into another buffer as in place, and
  leaves the rest of the destination; lower and upper map each byte, titlecase capitalises the
  first letter of each word and lowers the others.
\<close>

theorem case_conversion:
  assumes "inplace \<longrightarrow> dst = src"
  shows "ffs_lower inplace dst src =
      (map fold_case (take (length dst) src) @ drop (length src) dst, min (length dst) (length src))
    \<and> ffs_upper inplace dst src =
      (map upper_case (take (length dst) src) @ drop (length src) dst, min (length dst) (length src))
    \<and> ffs_titlecase inplace dst src =
      (titled True (take (length dst) src) @ drop (length src) dst, min (length dst) (length src))"
  using assms by (simp add: ffs_lower_map ffs_upper_map ffs_titlecase_def title_loop_titled)

theorem case_conversion_witness:
  "ffs_titlecase True [97, 66, 32, 99] [97, 66, 32, 99] = (titled True [97, 66, 32, 99], 4)"
  using case_conversion [of True "[97, 66, 32, 99]" "[97, 66, 32, 99]"] by simp

end
