(* ===== verification/FF_Path.thy ===== *)
theory FF_Path
  imports FF_StrEdit
begin

text \<open>
  File paths: \<open>path.h\<close> and \<open>ffpath.c\<close>. A path is the list of its bytes, \<open>/\<close> is 47, \<open>\\<close> 92. The functions
  without a flag are those of a UNIX build.
\<close>

unbundle bit_operations_syntax

section \<open>Normalisation\<close>

definition FFPATH_MERGESLASH :: u32 where "FFPATH_MERGESLASH = 1"

definition FFPATH_MERGEDOTS1 :: u32 where "FFPATH_MERGEDOTS1 = 2"

definition FFPATH_MERGEDOTS :: u32 where "FFPATH_MERGEDOTS = FFPATH_MERGEDOTS1 OR FFPATH_MERGESLASH"

definition FFPATH_STRICT1 :: u32 where "FFPATH_STRICT1 = 4"

definition FFPATH_STRICT_BOUNDS :: u32 where "FFPATH_STRICT_BOUNDS = FFPATH_STRICT1 OR FFPATH_MERGESLASH"

definition FFPATH_WINDOWS :: u32 where "FFPATH_WINDOWS = 0x10"

definition FFPATH_NOWINDOWS :: u32 where "FFPATH_NOWINDOWS = 8"

definition FFPATH_FORCESLASH :: u32 where "FFPATH_FORCESLASH = 0x20"

definition FFPATH_FORCEBKSLASH :: u32 where "FFPATH_FORCEBKSLASH = 0x40"

definition FFPATH_TOREL :: u32 where "FFPATH_TOREL = 0x100"

definition has_flag :: "u32 \<Rightarrow> u32 \<Rightarrow> bool" where
  "has_flag flags f \<longleftrightarrow> flags AND f \<noteq> 0"

text \<open>What the code keeps between two components: the bytes written, the level and whether the root is still to come.\<close>

record norm_st =
  ns_out :: bytes
  ns_lev :: int
  ns_root :: bool

text \<open>A component is left out (the rest of the loop body is skipped), written, or ends the function with 0.\<close>

datatype norm_act = NormSkip norm_st | NormWrite norm_st | NormFail

definition prev_dir :: "u32 \<Rightarrow> bytes \<Rightarrow> bytes" where
  "prev_dir flags out =
     (let dst = butlast out;
          prev_slash = (if has_flag flags FFPATH_WINDOWS then ffs_rfindof dst [47, 92] else ffs_rfind dst 47)
      in if prev_slash = length dst then [] else take (prev_slash + 1) dst)"

definition name_bad :: "u32 \<Rightarrow> bytes \<Rightarrow> bool" where
  "name_bad flags name =
     (if has_flag flags FFPATH_WINDOWS then ffs_findof name [42, 63, 58, 34, 0] \<noteq> length name
      else ffs_find name 0 \<noteq> length name)"

text \<open>\<open>first\<close>: the component starts at the start of the path.\<close>

definition norm_comp :: "u32 \<Rightarrow> bool \<Rightarrow> bool \<Rightarrow> bytes \<Rightarrow> norm_st \<Rightarrow> norm_act" where
  "norm_comp flags absp first name st =
     (if has_flag flags FFPATH_MERGESLASH \<and> name = [] \<and> \<not> first then NormSkip st
      else if name = [46] then
        (if has_flag flags FFPATH_MERGEDOTS1 then NormSkip st else NormWrite st)
      else if name = [46, 46] then
        let st = st\<lparr>ns_lev := ns_lev st - 1\<rparr> in
        if has_flag flags FFPATH_STRICT1 \<and> ns_lev st < 0 then NormFail
        else if has_flag flags FFPATH_TOREL then NormSkip (st\<lparr>ns_out := []\<rparr>)
        else if has_flag flags FFPATH_MERGEDOTS1 then
          (if ns_lev st < 0 then
             (if absp then NormSkip (st\<lparr>ns_lev := 0\<rparr>) else NormWrite st)
           else NormSkip (st\<lparr>ns_out := prev_dir flags (ns_out st)\<rparr>))
        else NormWrite st
      else if ns_root st then
        (if has_flag flags FFPATH_TOREL then NormSkip (st\<lparr>ns_root := False\<rparr>) else NormWrite (st\<lparr>ns_root := False\<rparr>))
      else if name_bad flags name then NormFail
      else NormWrite (st\<lparr>ns_lev := ns_lev st + 1\<rparr>))"

definition find_sep :: "u32 \<Rightarrow> bytes \<Rightarrow> nat" where
  "find_sep flags p = (if has_flag flags FFPATH_WINDOWS then ffs_findof p [47, 92] else ffs_find p 47)"

text \<open>Writes the component and the separator after it, if it has one; \<open>None\<close> when the buffer is too small.\<close>

definition norm_write :: "nat \<Rightarrow> u32 \<Rightarrow> bytes \<Rightarrow> u8 option \<Rightarrow> bytes \<Rightarrow> bytes option" where
  "norm_write dstcap flags name slash dst =
     (if length dst + length name + (if slash = None then 0 else 1) > dstcap then None
      else Some (dst @ name @
        (case slash of None \<Rightarrow> []
         | Some c \<Rightarrow> [if has_flag flags FFPATH_FORCESLASH then 47
                      else if has_flag flags FFPATH_FORCEBKSLASH then 92 else c])))"

function norm_loop :: "nat \<Rightarrow> u32 \<Rightarrow> bool \<Rightarrow> bool \<Rightarrow> bytes \<Rightarrow> norm_st \<Rightarrow> bytes option" where
  "norm_loop dstcap flags absp first p st =
     (if p = [] then Some (ns_out st)
      else
        let n = find_sep flags p; name = take n p;
            slash = (if n < length p then Some (p ! n) else None) in
        case norm_comp flags absp first name st of
          NormFail \<Rightarrow> None
        | NormSkip st \<Rightarrow> norm_loop dstcap flags absp False (drop (n + 1) p) st
        | NormWrite st \<Rightarrow>
            (case norm_write dstcap flags name slash (ns_out st) of
               None \<Rightarrow> None
             | Some out \<Rightarrow> norm_loop dstcap flags absp False (drop (n + 1) p) (st\<lparr>ns_out := out\<rparr>)))"
  by pat_completeness auto
termination by (relation "measure (\<lambda>(dstcap, flags, absp, first, p, st). length p)") auto

declare norm_loop.simps [simp del]

text \<open>
  The bytes written to the destination; none when the function returns 0. The destination has room for a byte: the dot that stands for
  an empty result is written without a look at \<open>dstcap\<close>.
\<close>

definition ffpath_norm :: "nat \<Rightarrow> bytes \<Rightarrow> u32 \<Rightarrow> bytes" where
  "ffpath_norm dstcap path flags =
     (let flags = (if flags = 0 then FFPATH_MERGESLASH OR FFPATH_MERGEDOTS else flags);
          len = length path;
          absp = (path \<noteq> [] \<and>
            (path ! 0 = 47 \<or>
             has_flag flags FFPATH_WINDOWS \<and>
               (2 \<le> len \<and> path ! 1 = 58 \<and> ffchar_isletter (sint (path ! 0)) \<or> path ! 0 = 92)))
      in case norm_loop dstcap flags absp True path \<lparr>ns_out = [], ns_lev = 0, ns_root = absp\<rparr> of
           None \<Rightarrow> []
         | Some out \<Rightarrow> if out = [] \<and> len \<noteq> 0 then [46] else out)"

section \<open>File names\<close>

definition ffpath_charmask_filename :: "u32 list" where
  "ffpath_charmask_filename =
     [0, 0x2bff7bfb, 0xefffffff, 0x6fffffff, 0xffffffff, 0xffffffff, 0xffffffff, 0xffffffff]"

text \<open>The destination has room for \<open>dstcap\<close> bytes.\<close>

definition ffpath_makefn :: "nat \<Rightarrow> bytes \<Rightarrow> u8 \<Rightarrow> bytes" where
  "ffpath_makefn dstcap src repl_with =
     map (\<lambda>c. if \<not> mask_has ffpath_charmask_filename c then repl_with else c)
       (take dstcap (take (ffs_rskip src 32) src))"

text \<open>\<open>is_slash\<close> is \<open>ffpath_slash\<close> of the platform layer.\<close>

definition ffpath_makefn_full :: "(u8 \<Rightarrow> bool) \<Rightarrow> nat \<Rightarrow> bytes \<Rightarrow> u32 \<Rightarrow> bytes" where
  "ffpath_makefn_full is_slash dstcap src flags =
     map (\<lambda>c. if \<not> mask_has ffpath_charmask_filename c then (if is_slash c then c else ucast flags) else c)
       (take dstcap src)"

function ffpath_nslash :: "bytes \<Rightarrow> nat" where
  "ffpath_nslash path =
     (let n = ffs_find path 47 in
      if n = length path then 0 else 1 + ffpath_nslash (drop (n + 1) path))"
  by pat_completeness auto
termination
proof (relation "measure length")
  fix path :: bytes and n assume "n = ffs_find path 47" "n \<noteq> length path"
  then have "path \<noteq> []" by (auto simp: ffs_find_def)
  then show "(drop (n + 1) path, path) \<in> measure length" by simp
qed simp

declare ffpath_nslash.simps [simp del]

definition FFPATH_FN_ANY :: u32 where "FFPATH_FN_ANY = 0"

definition FFPATH_FN_UNIX :: u32 where "FFPATH_FN_UNIX = 1"

definition FFPATH_FN_WIN :: u32 where "FFPATH_FN_WIN = 2"

definition ffpath_isvalidfn :: "bytes \<Rightarrow> u32 \<Rightarrow> bool" where
  "ffpath_isvalidfn fn flags =
     (let flags = (if flags = FFPATH_FN_ANY then FFPATH_FN_UNIX else flags) in
      if has_flag flags FFPATH_FN_WIN \<and> \<not> list_all (mask_has ffpath_charmask_filename) fn then False
      else if has_flag flags FFPATH_FN_UNIX then ffs_findof fn [47, 0] = length fn
      else True)"

section \<open>Splitting\<close>

text \<open>The directory, the name and the offset of the slash (\<open>None\<close> for \<open>NULL\<close>).\<close>

definition ffpath_split2 :: "bytes \<Rightarrow> bytes \<times> bytes \<times> nat option" where
  "ffpath_split2 fn =
     (let slash = ffs_rfind fn 47 in
      if slash = length fn then ([], fn, None) else ffs_split2 fn (Some slash))"

definition ffpath_splitname :: "bytes \<Rightarrow> bytes \<times> bytes \<times> nat option" where
  "ffpath_splitname fullname =
     (let dot = ffs_rfind fullname 46 in
      if dot = 0 then (fullname, [], Some dot) else ffs_split2 fullname (Some dot))"

definition ffpath_split3 :: "bytes \<Rightarrow> bytes \<times> bytes \<times> bytes \<times> nat option" where
  "ffpath_split3 fullname =
     (let (path, nm, slash) = ffpath_split2 fullname; (name, ext, _) = ffpath_splitname nm
      in (path, name, ext, slash))"

text \<open>The next part and what is left of the path.\<close>

definition ffpath_next :: "bytes \<Rightarrow> bytes \<times> bytes" where
  "ffpath_next path =
     (let sl = ffs_findof path [47, 92]; (r, path, _) = ffs_split2 path (Some sl) in (r, path))"

section \<open>Comparison\<close>

definition FFPATH_CASE_DEF :: u32 where "FFPATH_CASE_DEF = 0"

definition FFPATH_CASE_SENS :: u32 where "FFPATH_CASE_SENS = 1"

definition FFPATH_CASE_ISENS :: u32 where "FFPATH_CASE_ISENS = 2"

definition low :: "u8 \<Rightarrow> int" where
  "low c = (if ffchar_isup (uint c) then ffchar_lower (uint c) else uint c)"

text \<open>The loop over the bytes both paths have; the value after it is the difference of the lengths as an \<open>int\<close>.\<close>

fun path_cmp_loop :: "u32 \<Rightarrow> bytes \<Rightarrow> bytes \<Rightarrow> int \<Rightarrow> int" where
  "path_cmp_loop flags (l # p1) (r # p2) d =
     (if l = r then path_cmp_loop flags p1 p2 d
      else if l = 47 then -1
      else if r = 47 then 1
      else if has_flag flags FFPATH_CASE_ISENS \<and> low l = low r then path_cmp_loop flags p1 p2 d
      else if has_flag flags FFPATH_CASE_SENS \<and> low l = low r then (if uint r < uint l then -1 else 1)
      else if low l < low r then -1 else 1)"
| "path_cmp_loop flags _ _ d = d"

text \<open>The common length is kept in 32 bits.\<close>

definition ffpath_cmp :: "bytes \<Rightarrow> bytes \<Rightarrow> u32 \<Rightarrow> int" where
  "ffpath_cmp p1 p2 flags =
     (let flags = (if flags = FFPATH_CASE_DEF then FFPATH_CASE_SENS else flags);
          n = unat (word_of_nat (min (length p1) (length p2)) :: u32)
      in path_cmp_loop flags (take n p1) (take n p2) (sint32 (int (length p1) - int (length p2))))"

text \<open>\<open>None\<close> for the return value -1.\<close>

definition ffpath_parent :: "bytes \<Rightarrow> bytes \<Rightarrow> bytes option" where
  "ffpath_parent p1 p2 =
     (let n = min (length p1) (length p2) in
      case ffs_cmpn p1 p2 n of
        None \<Rightarrow> None
      | Some i \<Rightarrow>
          if i = 0 then Some (take n p1)
          else
            let i = nat \<bar>i\<bar> - 1; sl = ffs_rfind (take i p1) 47 in
            if sl = i then None else Some (take sl p1))"

section \<open>Normalisation of absolute paths\<close>

lemma ffs_find_split:
  assumes "c \<notin> set name" shows "ffs_find (name @ c # rest) c = length name" "ffs_find name c = length name"
proof -
  have "ffs_findc (name @ c # rest) c = Some (length name)" using assms by (induction name) auto
  moreover have "ffs_findc name c = None" using assms by (simp add: ffs_findc_None)
  ultimately show "ffs_find (name @ c # rest) c = length name" "ffs_find name c = length name" by (simp_all add: ffs_find_def)
qed

lemma rscan_last: "Q c \<Longrightarrow> \<forall>b\<in>set ys. \<not> Q b \<Longrightarrow> rscan Q (xs @ c # ys) (length xs + Suc (length ys)) = Some (length xs)"
proof (induction ys rule: rev_induct)
  case (snoc y ys)
  have "(xs @ c # ys @ [y]) ! Suc (length xs + length ys) = y" by (simp add: nth_append)
  moreover have "rscan Q (xs @ c # ys @ [y]) n = rscan Q (xs @ c # ys) n" if "n \<le> length xs + Suc (length ys)" for n
    using that by (induction n) (auto simp: nth_append nth_Cons')
  moreover define m where "m = length xs + Suc (length ys)"
  moreover have "rscan Q (xs @ c # ys @ [y]) (Suc m)
      = (if Q ((xs @ c # ys @ [y]) ! m) then Some m else rscan Q (xs @ c # ys @ [y]) m)" by (rule rscan.simps(2))
  ultimately have "rscan Q (xs @ c # ys @ [y]) (Suc m) = rscan Q (xs @ c # ys) m"
    using snoc.prems(2) by (simp del: rscan.simps)
  then show ?case using snoc by (simp add: m_def del: rscan.simps)
qed simp

lemma rscan_bound: "rscan Q s n = Some k \<Longrightarrow> k < n"
  by (induction n) (auto split: if_splits)

lemma rscan_none: "\<forall>b\<in>set s. \<not> Q b \<Longrightarrow> n \<le> length s \<Longrightarrow> rscan Q s n = None"
  by (induction n) auto

lemma ffs_rfind_split:
  assumes "c \<notin> set name" shows "ffs_rfind (dir @ c # name) c = length dir" "ffs_rfind name c = length name"
proof -
  have "\<forall>b\<in>set name. b \<noteq> c" using assms by auto
  then show "ffs_rfind (dir @ c # name) c = length dir" "ffs_rfind name c = length name"
    using rscan_last [of "\<lambda>b. b = c" c name dir] rscan_none [of name "\<lambda>b. b = c" "length name"]
    by (simp_all add: ffs_rfind_def)
qed

text \<open>The components of a path, and what each does to the components before it.\<close>

fun components :: "bytes \<Rightarrow> bytes list" where
  "components [] = [[]]"
| "components (c # p) = (if c = 47 then [] # components p else (c # hd (components p)) # tl (components p))"

definition resolve :: "bytes list \<Rightarrow> bytes \<Rightarrow> bytes list" where
  "resolve stk c = (if c = [] \<or> c = [46] then stk else if c = [46, 46] then butlast stk else stk @ [c])"

definition path_of :: "bytes list \<Rightarrow> bytes" where
  "path_of stk = 47 # concat (map (\<lambda>c. c @ [47]) stk)"

text \<open>The absolute path of the components after the root; a trailing slash is kept.\<close>

definition abs_norm :: "bytes list \<Rightarrow> bytes list \<Rightarrow> bytes" where
  "abs_norm stk cs =
     (let out = path_of (foldl resolve stk cs)
      in if last cs \<in> {[], [46], [46, 46]} then out else butlast out)"

lemma components_ne [simp]: "components p \<noteq> []"
  by (cases p) auto

lemma components_split:
  "47 \<notin> set name \<Longrightarrow> components (name @ 47 # rest) = name # components rest"
  "47 \<notin> set name \<Longrightarrow> components name = [name]"
  by (induction name) auto

lemma components_no_slash: "c \<in> set (components p) \<Longrightarrow> 47 \<notin> set c"
proof (induction p arbitrary: c)
  case (Cons x p)
  then show ?case by (cases "components p") (auto split: if_splits)
qed simp

lemma path_of_snoc: "path_of (stk @ [c]) = path_of stk @ c @ [47]"
  by (simp add: path_of_def)

lemma prev_dir_path_of:
  assumes "47 \<notin> set c" "c \<noteq> []" shows "prev_dir 3 (path_of (stk @ [c])) = path_of stk"
proof -
  obtain pre where pre: "path_of stk = pre @ [47]"
    by (cases stk rule: rev_exhaust) (auto simp: path_of_def)
  then have "butlast (path_of (stk @ [c])) = pre @ 47 # c" by (simp add: path_of_snoc butlast_append)
  then show ?thesis using ffs_rfind_split(1) [OF assms(1), of pre] assms(2) pre
    by (simp add: prev_dir_def has_flag_def FFPATH_WINDOWS_def)
qed

lemma flags3 [simp]:
  "has_flag 3 FFPATH_MERGESLASH" "has_flag 3 FFPATH_MERGEDOTS1" "\<not> has_flag 3 FFPATH_STRICT1" "\<not> has_flag 3 FFPATH_WINDOWS"
  "\<not> has_flag 3 FFPATH_TOREL" "\<not> has_flag 3 FFPATH_FORCESLASH" "\<not> has_flag 3 FFPATH_FORCEBKSLASH"
  by (simp_all add: has_flag_def FFPATH_MERGESLASH_def FFPATH_MERGEDOTS1_def FFPATH_STRICT1_def FFPATH_WINDOWS_def
      FFPATH_TOREL_def FFPATH_FORCESLASH_def FFPATH_FORCEBKSLASH_def)

definition clean :: "bytes list \<Rightarrow> bool" where
  "clean stk \<longleftrightarrow> (\<forall>c\<in>set stk. c \<noteq> [] \<and> c \<noteq> [46] \<and> c \<noteq> [46, 46] \<and> 47 \<notin> set c)"

lemma clean_no_dots:
  assumes "clean stk"
  shows "[46] \<notin> set stk" "[46, 46] \<notin> set stk" "[46] \<notin> set (stk @ [[]])" "[46, 46] \<notin> set (stk @ [[]])"
  using assms unfolding clean_def by auto

lemma norm_act_abs:
  assumes "clean stk" "0 \<notin> set name"
  shows "norm_comp 3 True False name \<lparr>ns_out = path_of stk, ns_lev = int (length stk), ns_root = False\<rparr> =
    (if name \<in> {[], [46], [46, 46]}
     then NormSkip \<lparr>ns_out = path_of (resolve stk name), ns_lev = int (length (resolve stk name)), ns_root = False\<rparr>
     else NormWrite \<lparr>ns_out = path_of stk, ns_lev = int (length (resolve stk name)), ns_root = False\<rparr>)"
proof (cases "name = [46, 46]")
  case True
  show ?thesis
  proof (cases stk rule: rev_exhaust)
    case (snoc st c)
    then have "prev_dir 3 (path_of stk) = path_of st" using assms(1) by (simp add: clean_def prev_dir_path_of)
    then show ?thesis using True snoc by (simp add: norm_comp_def resolve_def)
  qed (use True in \<open>simp add: norm_comp_def resolve_def\<close>)
next
  case False
  then show ?thesis using assms(2) ffs_find_split(2) [of 0 name]
    by (auto simp: norm_comp_def resolve_def name_bad_def)
qed

lemma resolve_clean: "clean stk \<Longrightarrow> 47 \<notin> set c \<Longrightarrow> clean (resolve stk c)"
  by (auto simp: clean_def resolve_def dest: in_set_butlastD)

lemma length_resolve: "length (path_of (resolve stk c)) \<le> length (path_of stk) + length c + 1"
  by (cases stk rule: rev_exhaust) (auto simp: resolve_def path_of_def)

lemma norm_loop_abs:
  assumes "clean stk" "0 \<notin> set p" "length (path_of stk) + length p \<le> dstcap"
  shows "norm_loop dstcap 3 True False p \<lparr>ns_out = path_of stk, ns_lev = int (length stk), ns_root = False\<rparr>
    = Some (abs_norm stk (components p))"
  using assms
proof (induction "length p" arbitrary: p stk rule: less_induct)
  case less
  show ?case
  proof (cases "47 \<in> set p")
    case False
    let ?st = "\<lparr>ns_out = path_of stk, ns_lev = int (length stk), ns_root = False\<rparr>"
    have n: "find_sep 3 p = length p" using ffs_find_split(2) [OF False] by (simp add: find_sep_def)
    show ?thesis
    proof (cases "p = []")
      case True
      then show ?thesis by (simp add: norm_loop.simps abs_norm_def resolve_def)
    next
      case ne: False
      then show ?thesis using less.prems n norm_act_abs [OF less.prems(1,2)] False
        by (subst norm_loop.simps)
          (auto simp: norm_loop.simps [of _ _ _ _ "[]"] abs_norm_def components_split(2) norm_write_def path_of_snoc resolve_def butlast_append)
    qed
  next
    case True
    then obtain name rest where p: "p = name @ 47 # rest" "47 \<notin> set name" by (meson split_list_first)
    have n: "find_sep 3 p = length name" using ffs_find_split(1) [OF p(2)] p(1) by (simp add: find_sep_def)
    have nm: "0 \<notin> set name" "0 \<notin> set rest" using less.prems(2) p(1) by auto
    have lst: "abs_norm (resolve stk name) (components rest) = abs_norm stk (components p)"
      using p by (simp add: abs_norm_def components_split(1))
    have cl: "clean (resolve stk name)" using resolve_clean less.prems(1) p(2) by blast
    have len: "length (path_of (resolve stk name)) + length rest \<le> dstcap"
      using length_resolve [of stk name] less.prems(3) p(1) by simp
    have ih: "norm_loop dstcap 3 True False rest
        \<lparr>ns_out = path_of (resolve stk name), ns_lev = int (length (resolve stk name)), ns_root = False\<rparr>
      = Some (abs_norm stk (components p))"
      using less.hyps [of rest "resolve stk name"] cl nm len p(1) lst by simp
    show ?thesis
    proof (cases "name \<in> {[], [46], [46, 46]}")
      case True
      then show ?thesis using n norm_act_abs [OF less.prems(1) nm(1)] ih p(1) by (subst norm_loop.simps) auto
    next
      case False
      then have r: "path_of (resolve stk name) = path_of stk @ name @ [47]" by (simp add: resolve_def path_of_snoc)
      have "norm_write dstcap 3 name (Some 47) (path_of stk) = Some (path_of (resolve stk name))"
        using len r less.prems(3) by (simp add: norm_write_def)
      then show ?thesis using n norm_act_abs [OF less.prems(1) nm(1)] ih p(1) False by (subst norm_loop.simps) auto
    qed
  qed
qed

subsection \<open>Normalising twice\<close>

lemma foldl_resolve_clean: "clean stk \<Longrightarrow> \<forall>c\<in>set cs. 47 \<notin> set c \<Longrightarrow> clean (foldl resolve stk cs)"
  by (induction cs arbitrary: stk) (auto simp: resolve_clean)

lemma foldl_resolve_id: "clean cs \<Longrightarrow> foldl resolve stk cs = stk @ cs"
proof (induction cs arbitrary: stk)
  case (Cons c cs)
  then have "resolve stk c = stk @ [c]" "clean cs" by (auto simp: clean_def resolve_def)
  with Cons.IH show ?case by simp
qed simp

lemma components_flat: "clean stk \<Longrightarrow> components (concat (map (\<lambda>c. c @ [47]) stk)) = stk @ [[]]"
  by (induction stk) (auto simp: clean_def components_split)

lemma abs_norm_tail:
  "\<exists>q. abs_norm [] cs = 47 # q \<and> components q = (if last cs \<in> {[], [46], [46, 46]}
     then foldl resolve [] cs @ [[]] else foldl resolve [] cs) \<and> length q \<le> length (concat (map (\<lambda>c. c @ [47]) (foldl resolve [] cs)))"
  if cs: "cs \<noteq> []" "\<forall>c\<in>set cs. 47 \<notin> set c"
proof -
  define stk where "stk = foldl resolve [] cs"
  have cl: "clean stk" unfolding stk_def by (rule foldl_resolve_clean) (use cs in \<open>auto simp: clean_def\<close>)
  show ?thesis
  proof (cases "last cs \<in> {[], [46], [46, 46]}")
    case True
    then show ?thesis using components_flat [OF cl] by (simp add: abs_norm_def path_of_def stk_def)
  next
    case False
    have "cs = butlast cs @ [last cs]" using cs(1) by simp
    then have s: "stk = foldl resolve [] (butlast cs) @ [last cs]"
      using False unfolding stk_def by (metis (no_types, lifting) foldl_append foldl_Cons foldl_Nil resolve_def insertCI)
    define st where "st = foldl resolve [] (butlast cs)"
    have "clean st" using cl s by (auto simp: clean_def st_def)
    then have "components (concat (map (\<lambda>c. c @ [47]) st) @ last cs) = st @ [last cs]"
    proof (induction st)
      case Nil
      then show ?case using cs by (simp add: components_split)
    next
      case (Cons c st)
      then show ?case by (simp add: clean_def components_split)
    qed
    then show ?thesis using False s by (simp add: abs_norm_def path_of_def stk_def [symmetric] st_def [symmetric] butlast_append)
  qed
qed

lemma norm_loop_root:
  assumes "0 \<notin> set p" "length p < dstcap"
  shows "norm_loop dstcap 3 True True (47 # p) \<lparr>ns_out = [], ns_lev = 0, ns_root = True\<rparr> = Some (abs_norm [] (components p))"
proof -
  have n: "find_sep 3 (47 # p) = 0" by (simp add: find_sep_def ffs_find_def)
  have a: "norm_comp 3 True True [] \<lparr>ns_out = [], ns_lev = 0, ns_root = True\<rparr> = NormWrite \<lparr>ns_out = [], ns_lev = 0, ns_root = False\<rparr>"
    by (simp add: norm_comp_def)
  have "norm_loop dstcap 3 True True (47 # p) \<lparr>ns_out = [], ns_lev = 0, ns_root = True\<rparr>
      = norm_loop dstcap 3 True False p \<lparr>ns_out = path_of [], ns_lev = int (length ([] :: bytes list)), ns_root = False\<rparr>"
    using assms(2) by (subst norm_loop.simps) (simp add: n a norm_write_def path_of_def)
  also have "\<dots> = Some (abs_norm [] (components p))"
    by (rule norm_loop_abs) (use assms in \<open>auto simp: clean_def path_of_def\<close>)
  finally show ?thesis .
qed

lemma ffpath_norm_abs:
  assumes "0 \<notin> set p" "length p < dstcap"
  shows "ffpath_norm dstcap (47 # p) 0 = abs_norm [] (components p)"
proof -
  have "FFPATH_MERGESLASH OR FFPATH_MERGEDOTS = 3"
    by (simp add: FFPATH_MERGESLASH_def FFPATH_MERGEDOTS_def FFPATH_MERGEDOTS1_def)
  moreover have "abs_norm [] (components p) \<noteq> []"
    using abs_norm_tail [of "components p"] components_no_slash by fastforce
  ultimately show ?thesis using norm_loop_root [OF assms] by (simp add: ffpath_norm_def)
qed

subsection \<open>Bounds\<close>

lemma prev_dir_shorter: "length (prev_dir flags out) \<le> length out \<and> set (prev_dir flags out) \<subseteq> set out"
  by (auto simp: prev_dir_def Let_def dest: in_set_takeD in_set_butlastD split: if_splits)

lemma norm_act_out:
  "norm_comp flags absp first name st = NormSkip st' \<Longrightarrow> length (ns_out st') \<le> length (ns_out st) \<and> set (ns_out st') \<subseteq> set (ns_out st)"
  "norm_comp flags absp first name st = NormWrite st' \<Longrightarrow> ns_out st' = ns_out st"
  using prev_dir_shorter [of flags "ns_out st"]
  by (auto simp: norm_comp_def Let_def split: if_splits)

lemma norm_loop_bounds:
  "norm_loop dstcap flags absp first p st = Some out \<Longrightarrow>
     length out \<le> length (ns_out st) + length p \<and> (length (ns_out st) \<le> dstcap \<longrightarrow> length out \<le> dstcap)
     \<and> (flags AND 0x60 = 0 \<longrightarrow> set out \<subseteq> set (ns_out st) \<union> set p)"
proof (induction dstcap flags absp first p st rule: norm_loop.induct)
  case (1 dstcap flags absp first p st)
  show ?case
  proof (cases "p = []")
    case True
    then show ?thesis using "1.prems" by (simp add: norm_loop.simps)
  next
    case False
    define n where "n = find_sep flags p"
    define slash where "slash = (if n < length p then Some (p ! n) else None)"
    have sub: "set (drop (n + 1) p) \<subseteq> set p" "set (take n p) \<subseteq> set p" by (auto dest: in_set_takeD in_set_dropD)
    have f: "\<not> has_flag flags FFPATH_FORCESLASH \<and> \<not> has_flag flags FFPATH_FORCEBKSLASH" if "flags AND 0x60 = 0"
    proof -
      have "flags AND 0x20 = (flags AND 0x60) AND 0x20" "flags AND 0x40 = (flags AND 0x60) AND 0x40"
        by (simp_all add: and.assoc)
      with that show ?thesis by (simp add: has_flag_def FFPATH_FORCESLASH_def FFPATH_FORCEBKSLASH_def)
    qed
    have step: "norm_loop dstcap flags absp first p st =
       (case norm_comp flags absp first (take n p) st of
          NormFail \<Rightarrow> None
        | NormSkip st \<Rightarrow> norm_loop dstcap flags absp False (drop (n + 1) p) st
        | NormWrite st \<Rightarrow>
            (case norm_write dstcap flags (take n p) slash (ns_out st) of
               None \<Rightarrow> None
             | Some out \<Rightarrow> norm_loop dstcap flags absp False (drop (n + 1) p) (st\<lparr>ns_out := out\<rparr>)))"
      by (subst norm_loop.simps) (simp only: False if_False Let_def n_def slash_def)
    show ?thesis
    proof (cases "norm_comp flags absp first (take n p) st")
      case (NormSkip st')
      have "norm_loop dstcap flags absp False (drop (n + 1) p) st' = Some out"
        using "1.prems" NormSkip unfolding step by simp
      from "1.IH"(1) [OF False n_def refl slash_def NormSkip [folded n_def] this] norm_act_out(1) [OF NormSkip] sub
      show ?thesis by fastforce
    next
      case (NormWrite st')
      then obtain o1 where o1: "norm_write dstcap flags (take n p) slash (ns_out st') = Some o1"
        "norm_loop dstcap flags absp False (drop (n + 1) p) (st'\<lparr>ns_out := o1\<rparr>) = Some out"
        using "1.prems" unfolding step by (auto split: option.splits)
      have l1: "length o1 \<le> dstcap" "length o1 + length (drop (n + 1) p) \<le> length (ns_out st) + length p"
        "flags AND 0x60 = 0 \<Longrightarrow> set o1 \<subseteq> set (ns_out st) \<union> set p"
        using o1(1) norm_act_out(2) [OF NormWrite] sub f
        by (auto simp: norm_write_def slash_def split: if_splits)
      from "1.IH"(2) [OF False n_def refl slash_def NormWrite o1] l1 sub show ?thesis by fastforce
    next
      case NormFail
      then show ?thesis using "1.prems" unfolding step by simp
    qed
  qed
qed

section \<open>Other facts\<close>

lemma norm_bounds:
  "length (ffpath_norm dstcap path flags) \<le> length path \<and> (0 < dstcap \<longrightarrow> length (ffpath_norm dstcap path flags) \<le> dstcap)"
proof -
  have "length out \<le> length path \<and> length out \<le> dstcap"
    if "norm_loop dstcap fl ab True path \<lparr>ns_out = [], ns_lev = 0, ns_root = ab\<rparr> = Some out" for out fl ab
    using norm_loop_bounds [OF that] by simp
  then show ?thesis by (auto simp: ffpath_norm_def Let_def Suc_le_eq split: option.splits)
qed

lemma norm_abs_shape:
  assumes "0 \<notin> set p" "length p < dstcap"
  shows "\<exists>q stk. ffpath_norm dstcap (47 # p) 0 = 47 # q \<and> clean stk \<and> (components q = stk \<or> components q = stk @ [[]])
    \<and> stk = foldl resolve [] (components p) \<and> 0 \<notin> set q \<and> length q \<le> length p
    \<and> (last (components q) \<in> {[], [46], [46, 46]} \<longleftrightarrow> last (components p) \<in> {[], [46], [46, 46]})"
proof -
  define stk where "stk = foldl resolve [] (components p)"
  have cs: "components p \<noteq> []" "\<forall>c\<in>set (components p). 47 \<notin> set c" using components_no_slash by auto
  have r: "ffpath_norm dstcap (47 # p) 0 = abs_norm [] (components p)" by (rule ffpath_norm_abs [OF assms])
  obtain q where q: "abs_norm [] (components p) = 47 # q" "components q = (if last (components p) \<in> {[], [46], [46, 46]}
     then stk @ [[]] else stk)" using abs_norm_tail [OF cs] unfolding stk_def by blast
  have "length q \<le> length p" using norm_bounds [of dstcap "47 # p" 0] r q(1) by simp
  moreover have cl: "clean stk" unfolding stk_def by (rule foldl_resolve_clean) (use cs(2) in \<open>auto simp: clean_def\<close>)
  moreover have "0 \<notin> set q"
  proof -
    have "norm_loop dstcap 3 True True (47 # p) \<lparr>ns_out = [], ns_lev = 0, ns_root = True\<rparr> = Some (47 # q)"
      using norm_loop_root [OF assms] q(1) by simp
    then have "set (47 # q) \<subseteq> set (47 # p)" using norm_loop_bounds by fastforce
    then show ?thesis using assms(1) by auto
  qed
  moreover have "last (components q) \<in> {[], [46], [46, 46]} \<longleftrightarrow> last (components p) \<in> {[], [46], [46, 46]}"
  proof (cases "last (components p) \<in> {[], [46], [46, 46]}")
    case False
    then have "components q = stk" using q(2) by simp
    moreover from this have "last (components q) \<in> set stk" using components_ne last_in_set by metis
    ultimately show ?thesis using False cl by (auto simp: clean_def)
  qed (use q(2) in simp)
  moreover have "components q = stk \<or> components q = stk @ [[]]" using q(2) by simp
  ultimately show ?thesis using r q(1) unfolding stk_def by (intro exI [of _ q] exI [of _ stk]) (simp add: stk_def)
qed

lemma norm_abs_twice:
  assumes "0 \<notin> set p" "length p < dstcap"
  shows "ffpath_norm dstcap (ffpath_norm dstcap (47 # p) 0) 0 = ffpath_norm dstcap (47 # p) 0"
proof -
  obtain q stk where q: "ffpath_norm dstcap (47 # p) 0 = 47 # q" "clean stk"
    "components q = stk \<or> components q = stk @ [[]]" "stk = foldl resolve [] (components p)"
    "0 \<notin> set q" "length q \<le> length p"
    "last (components q) \<in> {[], [46], [46, 46]} \<longleftrightarrow> last (components p) \<in> {[], [46], [46, 46]}"
    using norm_abs_shape [OF assms] by blast
  have "foldl resolve [] (components q) = stk"
    using q(3) foldl_resolve_id [OF q(2), of "[]"] by (auto simp: resolve_def)
  moreover have "47 # q = abs_norm [] (components p)" using q(1) ffpath_norm_abs [OF assms] by simp
  ultimately have "abs_norm [] (components q) = 47 # q" using q(4,7) by (simp add: abs_norm_def)
  then show ?thesis using q(1) ffpath_norm_abs [OF q(5), of dstcap] q(6) assms(2) by simp
qed

subsection \<open>Order\<close>

text \<open>The key of a byte: \<open>/\<close> comes first, then the letters without their case, the lower-case one first.\<close>

definition path_key :: "u8 \<Rightarrow> int" where
  "path_key c = (if c = 47 then -1 else 256 * low c + (255 - uint c))"

lemma uint_byte: "0 \<le> uint (c :: u8)" "uint c < 256"
  using uint_lt2p [of c] by simp_all

lemma path_key_enum:
  "list_all (\<lambda>n. 0 \<le> low (word_of_nat n) \<and> low (word_of_nat n) < 256) [0..<256]"
  by code_simp

lemma low_range: "0 \<le> low c" "low c < 256"
proof -
  have "unat c \<in> set [0..<256]" using unsigned_less [of c, where 'a = nat] by simp
  then have "0 \<le> low (word_of_nat (unat c)) \<and> low (word_of_nat (unat c)) < 256"
    using path_key_enum unfolding list_all_iff by blast
  then show "0 \<le> low c" "low c < 256" by simp_all
qed

lemma key_arith:
  fixes a b x y :: int
  assumes "0 \<le> a" "a < 256" "0 \<le> b" "b < 256"
  shows "256 * x + (255 - a) < 256 * y + (255 - b) \<longleftrightarrow> x < y \<or> x = y \<and> b < a"
    and "256 * x + (255 - a) = 256 * y + (255 - b) \<longleftrightarrow> x = y \<and> a = b"
proof -
  have "256 * x + (255 - a) < 256 * y + (255 - b) \<and> 256 * x + (255 - a) \<noteq> 256 * y + (255 - b)" if "x < y" using assms that by linarith
  moreover have "\<not> 256 * x + (255 - a) < 256 * y + (255 - b) \<and> 256 * x + (255 - a) \<noteq> 256 * y + (255 - b)" if "y < x" using assms that by linarith
  ultimately show "256 * x + (255 - a) < 256 * y + (255 - b) \<longleftrightarrow> x < y \<or> x = y \<and> b < a"
    and "256 * x + (255 - a) = 256 * y + (255 - b) \<longleftrightarrow> x = y \<and> a = b"
    by (cases x y rule: linorder_cases; simp)+
qed

lemma path_key_less:
  assumes "l \<noteq> 47" "r \<noteq> 47"
  shows "path_key l < path_key r \<longleftrightarrow> low l < low r \<or> low l = low r \<and> uint r < uint l"
  using assms key_arith(1) [OF uint_byte uint_byte] by (simp only: path_key_def if_False)

lemma path_key_nonneg: "c \<noteq> 47 \<Longrightarrow> 0 \<le> path_key c"
  using low_range [of c] uint_byte [of c] by (simp add: path_key_def)

lemma path_key_eq: "path_key l = path_key r \<longleftrightarrow> l = r"
proof (cases "l = 47 \<or> r = 47")
  case True
  then show ?thesis using path_key_nonneg [of l] path_key_nonneg [of r] by (auto simp: path_key_def)
next
  case False
  then have "path_key l = path_key r \<longleftrightarrow> low l = low r \<and> uint l = uint r"
    using key_arith(2) [OF uint_byte uint_byte] by (simp only: path_key_def de_Morgan_disj if_False simp_thms)
  moreover have "l = r \<longleftrightarrow> uint l = uint r" by (rule word_uint_eq_iff)
  ultimately show ?thesis by auto
qed

lemma path_cmp_loop_common:
  "path_cmp_loop flags (take (min (length p1) (length p2)) p1) (take (min (length p1) (length p2)) p2) d = path_cmp_loop flags p1 p2 d"
  by (induction flags p1 p2 d rule: path_cmp_loop.induct) auto

lemma path_cmp_loop_order:
  "sgn (path_cmp_loop FFPATH_CASE_SENS p1 p2 (int (length p1) - int (length p2))) =
     (if map path_key p1 < map path_key p2 then -1 else if p1 = p2 then 0 else 1)"
proof (induction p1 arbitrary: p2)
  case Nil
  then show ?case by (cases p2) simp_all
next
  case (Cons l p1)
  show ?case
  proof (cases p2)
    case (Cons r p2')
    have k: "path_key 47 < path_key c" if "c \<noteq> 47" for c
      using path_key_nonneg [OF that] by (simp add: path_key_def)
    show ?thesis
      using Cons.IH [of p2'] path_key_less [of l r] path_key_eq [of l r] k [of l] k [of r]
      by (auto simp: Cons has_flag_def FFPATH_CASE_SENS_def FFPATH_CASE_ISENS_def)
  qed simp
qed

subsection \<open>Splitting and slashes\<close>

lemma nslash_components: "ffpath_nslash p + 1 = length (components p)"
proof (induction "length p" arbitrary: p rule: less_induct)
  case less
  show ?case
  proof (cases "47 \<in> set p")
    case True
    then obtain name rest where p: "p = name @ 47 # rest" "47 \<notin> set name" by (meson split_list_first)
    then have "ffpath_nslash p = 1 + ffpath_nslash rest"
      using ffs_find_split(1) [OF p(2)] by (subst ffpath_nslash.simps) simp
    then show ?thesis using less.hyps [of rest] p components_split(1) [OF p(2)] by simp
  next
    case False
    then show ?thesis using ffs_find_split(2) [OF False] components_split(2) [OF False]
      by (subst ffpath_nslash.simps) simp
  qed
qed

lemma split2_at: "47 \<notin> set name \<Longrightarrow> ffpath_split2 (dir @ 47 # name) = (dir, name, Some (length dir))"
  by (simp add: ffpath_split2_def ffs_rfind_split ffs_split2_def)

lemma splitname_at: "46 \<notin> set ext \<Longrightarrow> name \<noteq> [] \<Longrightarrow> ffpath_splitname (name @ 46 # ext) = (name, ext, Some (length name))"
  by (simp add: ffpath_splitname_def ffs_rfind_split ffs_split2_def)

lemma cmpn_loop_prefix:
  "cmpn_loop p1 p2 n i = Some r \<Longrightarrow> 0 \<le> i \<Longrightarrow> n \<le> length p1 \<Longrightarrow> n \<le> length p2 \<Longrightarrow>
     (r = 0 \<longrightarrow> take n p1 = take n p2) \<and> (r \<noteq> 0 \<longrightarrow> i + 1 \<le> \<bar>r\<bar> \<and> nat (\<bar>r\<bar> - i - 1) < n
        \<and> take (nat (\<bar>r\<bar> - i - 1)) p1 = take (nat (\<bar>r\<bar> - i - 1)) p2)"
proof (induction p1 p2 n i rule: cmpn_loop.induct)
  case (2 a s1 b s2 len i)
  show ?case
  proof (cases "sint a = sint b")
    case True
    then have ab: "a = b" by (simp add: signed_word_eqI)
    have ih: "(r = 0 \<longrightarrow> take len s1 = take len s2) \<and> (r \<noteq> 0 \<longrightarrow> i + 1 + 1 \<le> \<bar>r\<bar> \<and> nat (\<bar>r\<bar> - (i + 1) - 1) < len
        \<and> take (nat (\<bar>r\<bar> - (i + 1) - 1)) s1 = take (nat (\<bar>r\<bar> - (i + 1) - 1)) s2)"
      using 2 True by simp
    have "nat (\<bar>r\<bar> - i - 1) = Suc (nat (\<bar>r\<bar> - (i + 1) - 1))" if "i + 1 + 1 \<le> \<bar>r\<bar>"
      using that by (simp add: Suc_nat_eq_nat_zadd1)
    then show ?thesis using ih ab by auto
  next
    case False
    then show ?thesis using "2.prems" by (auto split: if_splits)
  qed
qed simp_all

section \<open>Properties\<close>

text \<open>
  A normalised path is never longer than the path and fits into the buffer, whatever the flags.
\<close>

theorem ffpath_norm_fits:
  assumes "0 < dstcap"
  shows "length (ffpath_norm dstcap path flags) \<le> min dstcap (length path)"
  using norm_bounds [of dstcap path flags] assms by simp

lemma ffpath_norm_fits_witness: "length (ffpath_norm 4 [47, 97, 47, 46, 46, 47, 98] 0) \<le> min 4 7"
  using ffpath_norm_fits [of 4 "[47, 97, 47, 46, 46, 47, 98]" 0] by simp

text \<open>
  C35: An absolute path is normalised by resolving its components one after the other on a stack that never
  falls below the root: the result has no component \<open>.\<close> or \<open>..\<close>, so it does not leave the root, and
  normalising it again changes nothing.
\<close>

theorem ffpath_norm_absolute:
  assumes "0 \<notin> set p" "length p < dstcap"
  shows "ffpath_norm dstcap (47 # p) 0 = abs_norm [] (components p)
    \<and> (\<exists>q. ffpath_norm dstcap (47 # p) 0 = 47 # q \<and> [46] \<notin> set (components q) \<and> [46, 46] \<notin> set (components q)
      \<and> ffpath_norm dstcap (47 # q) 0 = 47 # q)"
proof -
  obtain q stk where q: "ffpath_norm dstcap (47 # p) 0 = 47 # q" "clean stk" "components q = stk \<or> components q = stk @ [[]]"
    using norm_abs_shape [OF assms] by blast
  have twice: "ffpath_norm dstcap (47 # q) 0 = 47 # q" using norm_abs_twice [OF assms] by (simp only: q(1))
  have dots: "[46] \<notin> set (components q)" "[46, 46] \<notin> set (components q)" using clean_no_dots [OF q(2)] q(3) by metis+
  show ?thesis by (intro conjI exI [of _ q] ffpath_norm_abs [OF assms] q(1) twice dots)
qed

lemma ffpath_norm_absolute_witness:
  "ffpath_norm 20 [47, 97, 47, 46, 46, 47, 46, 46, 47, 98] 0 = [47, 98]"
proof -
  have "ffpath_norm 20 (47 # [97, 47, 46, 46, 47, 46, 46, 47, 98]) 0 = abs_norm [] (components [97, 47, 46, 46, 47, 46, 46, 47, 98])"
    using ffpath_norm_absolute [of "[97, 47, 46, 46, 47, 46, 46, 47, 98]" 20] by simp
  also have "\<dots> = [47, 98]" by (simp add: abs_norm_def resolve_def path_of_def)
  finally show ?thesis .
qed

text \<open>
  The comparison of normalised paths with regard to case is the lexicographic order of the byte keys: a
  slash first, so a directory comes before the names it is a prefix of, then letters without case, the
  lower-case letter before the upper-case one.
\<close>

theorem ffpath_cmp_order:
  assumes "length p1 < 2 ^ 31" "length p2 < 2 ^ 31"
  shows "sgn (ffpath_cmp p1 p2 FFPATH_CASE_DEF) =
    (if map path_key p1 < map path_key p2 then -1 else if p1 = p2 then 0 else 1)"
proof -
  have "sint32 (int (length p1) - int (length p2)) = int (length p1) - int (length p2)"
    using assms by (simp add: sint32_def signed_take_bit_int_eq_self)
  moreover have "unat (word_of_nat (min (length p1) (length p2)) :: u32) = min (length p1) (length p2)"
    using assms by (intro unat_of_nat_small) auto
  ultimately show ?thesis using path_cmp_loop_order [of p1 p2] by (simp add: ffpath_cmp_def path_cmp_loop_common)
qed

lemma ffpath_cmp_order_witness:
  "sgn (ffpath_cmp [97, 47, 98] [97, 97] FFPATH_CASE_DEF) = -1"
  using ffpath_cmp_order [of "[97, 47, 98]" "[97, 97]"] path_key_nonneg [of 97] by (simp add: path_key_def)

text \<open>
  A path put together from directory, name and extension is split into them again.\<close>

theorem ffpath_split3_roundtrip:
  assumes "47 \<notin> set name" "47 \<notin> set ext" "46 \<notin> set ext" "name \<noteq> []"
  shows "ffpath_split3 (dir @ [47] @ name @ [46] @ ext) = (dir, name, ext, Some (length dir))"
  using assms split2_at [of "name @ 46 # ext" dir] splitname_at [of ext name] by (simp add: ffpath_split3_def)

lemma ffpath_split3_roundtrip_witness:
  "ffpath_split3 ([47, 97] @ [47] @ [98, 46, 99] @ [46] @ [100]) = ([47, 97], [98, 46, 99], [100], Some 2)"
  using ffpath_split3_roundtrip [of "[98, 46, 99]" "[100]" "[47, 97]"] by simp

text \<open>
  A directory found for two paths is a prefix of both.\<close>

theorem ffpath_parent_prefix:
  assumes "ffpath_parent p1 p2 = Some dir"
  shows "prefix dir p1 \<and> prefix dir p2"
proof -
  let ?n = "min (length p1) (length p2)"
  obtain i where i: "ffs_cmpn p1 p2 ?n = Some i"
    using assms by (auto simp: ffpath_parent_def Let_def split: option.splits)
  show ?thesis
  proof (cases "i = 0")
    case True
    then have "dir = take ?n p1" "take ?n p1 = take ?n p2"
      using assms i cmpn_loop_prefix [of p1 p2 ?n 0 i] by (auto simp: ffpath_parent_def ffs_cmpn_def)
    then show ?thesis by (metis take_is_prefix)
  next
    case False
    define k where "k = nat \<bar>i\<bar> - 1"
    have "take k p1 = take k p2" using cmpn_loop_prefix [of p1 p2 ?n 0 i] i False
      by (simp add: ffs_cmpn_def k_def nat_diff_distrib')
    moreover obtain m where "dir = take m p1" "m \<le> k"
    proof -
      define sl where "sl = ffs_rfind (take k p1) 47"
      have "dir = take sl p1" "sl \<noteq> k" using assms i False by (auto simp: ffpath_parent_def Let_def k_def sl_def split: if_splits)
      moreover have "sl \<le> length (take k p1)"
        unfolding sl_def ffs_rfind_def by (auto split: option.splits dest!: rscan_bound)
      ultimately show ?thesis using that [of sl] by simp
    qed
    ultimately have "dir = take m (take k p2)" by (metis min.absorb1 take_take)
    then show ?thesis using \<open>dir = take m p1\<close> by (metis take_is_prefix prefix_order.trans)
  qed
qed

lemma ffpath_parent_prefix_witness: "prefix [47, 97] [47, 97, 47, 98 :: u8] \<and> prefix [47, 97] [47, 97, 47, 99 :: u8]"
proof (rule ffpath_parent_prefix)
  show "ffpath_parent [47, 97, 47, 98] [47, 97, 47, 99] = Some [47, 97]" by code_simp
qed

text \<open>
  The result need not be a directory of both: for \<open>/a/b\<close> and \<open>/a/bc\<close> it is \<open>/a/b\<close>.
\<close>

lemma ffpath_parent_no_directory: "ffpath_parent [47, 97, 47, 98] [47, 97, 47, 98, 99] = Some [47, 97, 47, 98]"
  by code_simp

text \<open>
  An empty result becomes a dot even if the destination has no room for it.
\<close>

lemma ffpath_norm_no_room: "ffpath_norm 0 [46] 0 = [46]"
  by code_simp

end
