(* ===== verification/FF_StrNum.thy ===== *)
theory FF_StrNum
  imports FF_StrEdit
begin

unbundle bit_operations_syntax

text \<open>
  Numbers as text (\<open>ffstring.c\<close>): \<open>ffs_toint\<close>, \<open>ffs_fromint\<close>, sizes with a unit suffix, and the
  values of separated lists (\<open>ffstr_nextval\<close>), on which version comparison and number lists rest.
  The integers are \<open>u64\<close>; division and remainder of unsigned integers are those of their values.
\<close>

section \<open>Text to integer\<close>

datatype toint_res =
    TI_undef                \<comment> \<open>a shift by more than the width\<close>
  | TI_fail                 \<comment> \<open>\<open>return 0\<close>\<close>
  | TI_ok nat u64           \<comment> \<open>the number of bytes processed and the bits stored in \<open>*dst\<close>\<close>

text \<open>
  The loop over the digits: \<open>dig\<close> is the digit of a byte, \<open>acc\<close> adds it to the number, \<open>lim\<close> is
  the number of digits after which one more fails. The result is the count of digits, the
  number and the position; \<open>None\<close> is \<open>goto fail\<close>.
\<close>

fun num_loop :: "(u8 \<Rightarrow> int option) \<Rightarrow> (u64 \<Rightarrow> int \<Rightarrow> u64) \<Rightarrow> nat \<Rightarrow>
    bytes \<Rightarrow> nat \<Rightarrow> u64 \<Rightarrow> nat \<Rightarrow> (nat \<times> u64 \<times> nat) option" where
  "num_loop dig acc lim [] digits r i = Some (digits, r, i)"
| "num_loop dig acc lim (c # s) digits r i =
     (case dig c of
        None \<Rightarrow> Some (digits, r, i)
      | Some b \<Rightarrow>
        if digits = lim then None
        else num_loop dig acc lim s (digits + 1) (acc r b) (i + 1))"

definition oct_digit :: "u8 \<Rightarrow> int option" where
  "oct_digit c = (let b = take_bit 32 (ffchar_tonum (sint c)) in if b \<ge> 8 then None else Some b)"

definition dec_digit :: "u8 \<Rightarrow> int option" where
  "dec_digit c = (let b = c - 48 in if b \<ge> 10 then None else Some (uint b))"

definition hex_digit :: "u8 \<Rightarrow> int option" where
  "hex_digit c = (let b = ffchar_tohex (sint c) in if b < 0 then None else Some b)"

definition ffs_toint :: "bytes \<Rightarrow> u32 \<Rightarrow> toint_res" where
  "ffs_toint src flags =
     (let sgn = (flags AND 0x10 \<noteq> 0);
          minus = (sgn \<and> src \<noteq> [] \<and> hd src = 45);
          i = (if sgn \<and> src \<noteq> [] \<and> (hd src = 45 \<or> hd src = 43) then 1 else 0);
          s = drop i src;
          w = unat (flags AND 0x0f)
      in case (if flags AND 0x40 \<noteq> 0 then num_loop oct_digit (\<lambda>r b. r * 8 + word_of_int b) 22 s 0 0 i
               else if flags AND 0x20 = 0 then num_loop dec_digit (\<lambda>r b. r * 10 + word_of_int b) 20 s 0 0 i
               else num_loop hex_digit (\<lambda>r b. push_bit 4 r OR word_of_int b) 16 s 0 0 i) of
        None \<Rightarrow> TI_fail
      | Some (digits, r, i) \<Rightarrow>
        if digits = 0 then TI_fail
        else let n = (if sgn then (if w = 0 then 2 ^ 32 - 1 else w * 8 - 1) else w * 8) in
          if 64 < n then TI_undef
          else if n \<noteq> 64 \<and> drop_bit n r \<noteq> 0 then TI_fail
          else let r = (if minus then - r else r) in
            if w = 8 \<or> w = 4 \<or> w = 2 \<or> w = 1 then TI_ok (i mod 2 ^ 32) (take_bit (8 * w) r)
            else TI_fail)"

definition ffs_tobool :: "bytes \<Rightarrow> (nat \<times> bool option)" where
  "ffs_tobool s =
     (if 4 \<le> length s \<and> ffs_icmp s [116, 114, 117, 101] 4 = Some 0 then (4, Some True)
      else if 5 \<le> length s \<and> ffs_icmp s [102, 97, 108, 115, 101] 5 = Some 0 then (5, Some False)
      else (0, None))"

section \<open>Integer to text\<close>

text \<open>
  The digits are produced from the last one, before the pointer \<open>ps\<close> into a local buffer of 64
  bytes; \<open>acc\<close> is the text behind \<open>ps\<close>.
\<close>

function digits_loop :: "nat \<Rightarrow> (nat \<Rightarrow> u8) \<Rightarrow> nat \<Rightarrow> bytes \<Rightarrow> bytes" where
  "digits_loop b dig i acc =
     (let acc = dig (i mod b) # acc; i' = i div b in
      if i' \<noteq> 0 \<and> 1 < b then digits_loop b dig i' acc else acc)"
  by pat_completeness auto
termination by (relation "measure (\<lambda>(b, dig, i, acc). i)") (auto simp: div_less_dividend intro!: div_less_dividend gr0I)

declare digits_loop.simps [simp del]

definition ffs_fromint_dec :: "u64 \<Rightarrow> bytes" where
  "ffs_fromint_dec i =
     (if i \<le> 0xffffffff then digits_loop 10 (\<lambda>d. word_of_nat (d + 48)) (unat (ucast i :: u32)) []
      else digits_loop 10 (\<lambda>d. word_of_nat (d + 48)) (unat i) [])"

definition ffs_fromint_oct :: "u64 \<Rightarrow> bytes" where
  "ffs_fromint_oct i = digits_loop 8 (\<lambda>d. word_of_nat (d + 48)) (unat i) []"

definition ffs_fromint_hex :: "u64 \<Rightarrow> bool \<Rightarrow> bytes" where
  "ffs_fromint_hex i up = digits_loop 16 (\<lambda>d. (if up then ffHEX else ffhex) ! d) (unat i) []"

text \<open>The digits from the last one, with a comma after each third but behind the first digit.\<close>

fun sep_loop :: "nat \<Rightarrow> bytes \<Rightarrow> bytes" where
  "sep_loop k (d # e # ds) = d # (if k mod 3 = 0 then [44] else []) @ sep_loop (k + 1) (e # ds)"
| "sep_loop k ds = ds"

text \<open>
  The destination and the returned number of chars; \<open>None\<close> is a write behind the end of the
  destination. \<open>pos\<close> is \<open>dst - dsto\<close>.
\<close>

definition ffs_fromint :: "u64 \<Rightarrow> bytes \<Rightarrow> u32 \<Rightarrow> (bytes \<times> nat) option" where
  "ffs_fromint i dst flags =
     (let cap = length dst;
          neg = (flags AND 1 \<noteq> 0 \<and> sint i < 0);
          i = (if neg then - i else i);
          minus = (neg \<or> flags AND 0x40 \<noteq> 0);
          ps = (if flags AND 0x20 \<noteq> 0 then ffs_fromint_oct i
                else if flags AND 6 \<noteq> 0 then ffs_fromint_hex i (flags AND 4 \<noteq> 0)
                else ffs_fromint_dec i);
          len = length ps;
          nsep = len div 3 - (if len mod 3 = 0 then 1 else 0)
      in
        if flags AND 0x10 \<noteq> 0 \<and> flags AND 0xff000000 = 0 \<and> 0 < nsep then
          (let idst = len + nsep - 1;
               pos = (if minus \<and> cap \<noteq> 0 then 1 else 0);
               dst = (if minus \<and> cap \<noteq> 0 then dst[0 := 45] else dst)
           in if cap - pos \<le> idst then Some (dst, cap - pos)
              else Some (put_at dst pos (rev (sep_loop 1 (rev ps))), len + nsep))
        else
          let width = unat (drop_bit 24 flags);
              n = (if of_bool minus + len \<le> width then min (width - (of_bool minus + len)) cap else cap);
              pad = (flags AND 0xff000000 \<noteq> 0 \<and> of_bool minus + len < width \<and> n \<noteq> 0);
              zero = (pad \<and> flags AND 8 \<noteq> 0);
              pos = (if zero \<and> minus then 1 else 0);
              dst = (if zero \<and> minus then dst[0 := 45] else dst);
              minus = (minus \<and> \<not> zero)
          in if pad \<and> cap < pos + n then None
             else let dst = (if pad then put_at dst pos (replicate n (if zero then 48 else 32)) else dst);
                      pos = (if pad then pos + n else pos);
                      dst = (if minus \<and> pos \<noteq> cap then dst[pos := 45] else dst);
                      pos = (if minus \<and> pos \<noteq> cap then pos + 1 else pos);
                      len = min len (cap - pos)
                  in Some (put_at dst pos (take len ps), pos + len))"

section \<open>Sizes with a unit\<close>

definition ffchar_sizesfx :: "int \<Rightarrow> nat" where
  "ffchar_sizesfx sfx =
     (let c = ffchar_lower sfx in
      if c = 107 then 10 else if c = 109 then 20 else if c = 103 then 30 else if c = 116 then 40 else 0)"

text \<open>The shift and the suffix, which is left unset for small sizes.\<close>

definition ffint_tosfx :: "u64 \<Rightarrow> nat \<times> u8 option" where
  "ffint_tosfx sz =
     (if ff_bit 40 \<le> sz then (40, Some 116)
      else if ff_bit 30 \<le> sz then (30, Some 103)
      else if ff_bit 20 \<le> sz then (20, Some 109)
      else if ff_bit 10 \<le> sz then (10, Some 107)
      else (0, None))"

definition ffs_fromsize :: "bytes \<Rightarrow> u64 \<Rightarrow> bool \<Rightarrow> bool \<Rightarrow> (bytes \<times> nat) option" where
  "ffs_fromsize buf sz frac_flag z_flag =
     (let (bits, sfx) = ffint_tosfx sz in
      case ffs_fromint (drop_bit bits sz) buf 0 of None \<Rightarrow> None
      | Some (buf, p) \<Rightarrow>
        let frac = ucast (sz mod ff_bit bits) :: u32;
            (buf, p) =
              (if frac_flag \<and> frac \<noteq> 0 then
                 (case ffs_fromint (ucast frac) (replicate 32 0) 0 of None \<Rightarrow> (buf, p)
                  | Some (s, _) \<Rightarrow>
                    let (d, k) = ffs_copyc (drop p buf) 46; buf = take p buf @ d; p = p + k;
                        (d, k) = ffs_copyc (drop p buf) (hd s)
                    in (take p buf @ d, p + k))
               else (buf, p));
            (buf, p) =
              (if bits \<noteq> 0 then
                 (let (d, k) = ffs_copyc (drop p buf) (the sfx) in (take p buf @ d, p + k))
               else (buf, p))
        in Some (if z_flag then (take p buf @ fst (ffs_copyc (drop p buf) 0), p) else (buf, p)))"

section \<open>Values of a list\<close>

text \<open>
  \<open>ffstr_nextval\<close>: the low byte of \<open>spl\<close> is the separator, the other bits are flags. The
  result is the value and the number of processed bytes; \<open>pos\<close> is an offset into the input.
\<close>

definition nv_space :: "u32 \<Rightarrow> bytes" where
  "nv_space f = (if f AND 0x2000 \<noteq> 0 then [32, 9, 13] else if f AND 0x800 \<noteq> 0 then [9, 32] else [32])"

definition nextval_reverse :: "bytes \<Rightarrow> u32 \<Rightarrow> bytes \<times> nat" where
  "nextval_reverse s f =
     (let send = length s; len = length s;
          spl = ucast (f AND 0xff) :: u8; spc = nv_space f;
          pos = (if f AND 0x1000 \<noteq> 0 then ffs_rfindof s spc else ffs_rfind s spl);
          (pos, len) =
            (if pos = send then (0, len)
             else (pos + 1, if pos = 0 \<and> pos + 1 \<noteq> send then send - pos - 1 else send - pos));
          pos = (if f AND 0x200 = 0 then pos + ffs_skipof (drop pos s) spc else pos);
          v = drop pos s
      in ((if f AND 0x200 = 0 then take (ffs_rskipof v spc) v else v), len))"

definition ffstr_nextval :: "bytes \<Rightarrow> u32 \<Rightarrow> bytes \<times> nat" where
  "ffstr_nextval s f =
     (if f AND 0x400 \<noteq> 0 then nextval_reverse s f
      else
        let len = length s; keep = (f AND 0x200 \<noteq> 0); words = (f AND 0x1000 \<noteq> 0);
            spl = ucast (f AND 0xff) :: u8; spc = nv_space f;
            buf = (if keep then 0 else ffs_skipof s spc)
        in
          if buf = len then ([], len)
          else if f AND 0x100 \<noteq> 0 \<and> s ! buf = 34 then
            (let buf = buf + 1;
                 pos = buf + ffs_find (drop buf s) 34;
                 v = take (pos - buf) (drop buf s);
                 pos = (if pos \<noteq> len then pos + 1 else pos);
                 pos = (if keep then pos else pos + ffs_skipof (drop pos s) spc)
             in (v, pos))
          else
            let t = drop buf s;
                pos = buf + (if words then ffs_findof t spc else ffs_find t spl)
            in
              if words \<or> spl = 32 \<or> spl = 9 then
                (take (pos - buf) t,
                 pos + (if words then ffs_skipof (drop pos s) spc else ffs_skip (drop pos s) (uint spl)))
              else
                let len = (if pos \<noteq> length s then
                             (if pos + 1 = length s \<and> pos \<noteq> buf then pos else pos + 1)
                           else len);
                    v = take (pos - buf) t
                in ((if keep then v else take (ffs_rskipof v spc) v), len))"

definition ffstr_nextval3 :: "bytes \<Rightarrow> u32 \<Rightarrow> bytes \<times> bytes" where
  "ffstr_nextval3 src f =
     (let (v, n) = ffstr_nextval src f in
      (if f AND 0x400 \<noteq> 0 then take (length src - n) src else drop n src, v))"

text \<open>
  A number of a list: the processed bytes, the result and the number stored, if any. An empty
  value has the length 0, which is also what a failed conversion returns.
\<close>

definition ffs_numlist :: "bytes \<Rightarrow> nat \<times> int \<times> u32 option" where
  "ffs_numlist d =
     (let (s, n) = ffstr_nextval d (44 OR 0x200);
          (k, stored) = (case ffs_toint s 4 of TI_ok k r \<Rightarrow> (k, Some (ucast r)) | _ \<Rightarrow> (0, None))
      in (n, if length s \<noteq> k then -1 else 0, stored))"

text \<open>\<open>ffstr_toint\<close>: the whole, non-empty string is the number.\<close>

definition ffstr_toint :: "bytes \<Rightarrow> u32 \<Rightarrow> u64 option" where
  "ffstr_toint s f =
     (if s = [] then None
      else case ffs_toint s f of TI_ok k r \<Rightarrow> if k = length s then Some r else None | _ \<Rightarrow> None)"

section \<open>Versions\<close>

text \<open>
  One number of a version: the rest of the text and the number; no number is taken from an
  empty text. \<open>None\<close> is a part that is not a number.
\<close>

definition ver_part :: "bytes \<Rightarrow> (bytes \<times> u64) option" where
  "ver_part s =
     (if s \<noteq> [] then
        (let (s, part) = ffstr_nextval3 s (46 OR 0x200) in map_option (Pair s) (ffstr_toint part 8))
      else Some (s, 0))"

lemma nextval_dot: "ffstr_nextval s 558 =
  (if s = [] then ([], 0)
   else let pos = ffs_find s 46 in
     (take pos s,
      if pos \<noteq> length s then (if pos + 1 = length s \<and> pos \<noteq> 0 then pos else pos + 1) else length s))"
  by (simp add: ffstr_nextval_def Let_def)

lemma ver_part_shorter: "ver_part s = Some (s', n) \<Longrightarrow> length s' \<le> length s \<and> (s \<noteq> [] \<longrightarrow> length s' < length s)"
  by (auto simp: ver_part_def ffstr_nextval3_def nextval_dot Let_def split: if_splits)

function vercmp_loop :: "bytes \<Rightarrow> bytes \<Rightarrow> int \<Rightarrow> int" where
  "vercmp_loop s d r =
     (if s = [] \<and> d = [] then r
      else case ver_part s of None \<Rightarrow> -2
      | Some (s, n1) \<Rightarrow>
        (case ver_part d of None \<Rightarrow> -3
         | Some (d, n2) \<Rightarrow> vercmp_loop s d (if r = 0 then ffint_cmp n1 n2 else r)))"
  by pat_completeness auto
termination
  by (relation "measure (\<lambda>(s, d, r). length s + length d)")
     (auto dest!: ver_part_shorter simp: add_less_le_mono add_le_less_mono)

declare vercmp_loop.simps [simp del]

definition ffstr_vercmp :: "bytes \<Rightarrow> bytes \<Rightarrow> int" where
  "ffstr_vercmp v1 v2 = vercmp_loop v1 v2 0"

section \<open>Positional notation\<close>

definition numval :: "nat \<Rightarrow> nat list \<Rightarrow> nat" where
  "numval b ds = foldl (\<lambda>a d. a * b + d) 0 ds"

function nat_digits :: "nat \<Rightarrow> nat \<Rightarrow> nat list" where
  "nat_digits b i = (if i < b \<or> b < 2 then [i] else nat_digits b (i div b) @ [i mod b])"
  by pat_completeness auto
termination by (relation "measure snd") (auto intro: div_less_dividend)

declare nat_digits.simps [simp del]

lemma digits_loop_eq: "1 < b \<Longrightarrow> digits_loop b dig i acc = map dig (nat_digits b i) @ acc"
proof (induction b dig i acc rule: digits_loop.induct [case_names step])
  case (step b dig i acc)
  show ?case
  proof (cases "i < b")
    case True
    with step.prems show ?thesis by (simp add: digits_loop.simps [of b] nat_digits.simps [of b])
  next
    case False
    then have "i div b \<noteq> 0" using step.prems by (simp add: div_eq_0_iff)
    with False step show ?thesis
      by (simp add: digits_loop.simps [of b dig i] nat_digits.simps [of b i])
  qed
qed

lemma nat_digits_less: "1 < b \<Longrightarrow> d \<in> set (nat_digits b i) \<Longrightarrow> d < b"
proof (induction b i rule: nat_digits.induct [case_names step])
  case (step b i)
  then show ?case
    by (cases "i < b") (auto simp: nat_digits.simps [of b i])
qed

lemma nat_digits_Nil [simp]: "nat_digits b i \<noteq> []"
  by (subst nat_digits.simps) simp

lemma numval_nat_digits: "1 < b \<Longrightarrow> numval b (nat_digits b i) = i"
  unfolding numval_def
  by (induction b i rule: nat_digits.induct) (subst nat_digits.simps, auto)

lemma length_nat_digits: "1 < b \<Longrightarrow> i < b ^ k \<Longrightarrow> 0 < k \<Longrightarrow> length (nat_digits b i) \<le> k"
proof (induction b i arbitrary: k rule: nat_digits.induct [case_names step])
  case (step b i)
  show ?case
  proof (cases "i < b")
    case True
    with step.prems show ?thesis by (simp add: nat_digits.simps [of b i])
  next
    case False
    with step.prems obtain j where j: "k = Suc j" "0 < j"
      by (cases k; cases "k - 1") auto
    with step.prems have "i div b < b ^ j" by (simp add: less_mult_imp_div_less mult.commute)
    from step.IH [OF _ _ this j(2)] False step.prems j show ?thesis
      by (simp add: nat_digits.simps [of b i])
  qed
qed

lemma foldl_word_numval:
  "foldl (\<lambda>r d. r * of_nat b + of_nat d) (of_nat a) ds =
    (of_nat (foldl (\<lambda>a d. a * b + d) a ds) :: 'a::len word)"
proof (induction ds arbitrary: a)
  case (Cons d ds)
  have "of_nat a * of_nat b + of_nat d = (of_nat (a * b + d) :: 'a word)" by simp
  then show ?case by (simp only: foldl.simps Cons.IH)
qed (simp only: foldl.simps)

lemma num_loop_takeWhile:
  "digits \<le> lim \<Longrightarrow>
    num_loop dig acc lim s digits r i =
      (let t = takeWhile (\<lambda>c. dig c \<noteq> None) s in
       if lim < digits + length t then None
       else Some (digits + length t, foldl acc r (map (the \<circ> dig) t), i + length t))"
proof (induction dig acc lim s digits r i rule: num_loop.induct [case_names nil step])
  case (step dig acc lim c s digits r i)
  then show ?case by (cases "dig c") (auto simp: Let_def)
qed (simp add: Let_def)

text \<open>
  A numeral system: its digits as text (\<open>dg\<close>), their values (\<open>dig\<close>), the step of the reader and
  the number of digits that any 64-bit integer fits in.
\<close>

locale radix_text =
  fixes b :: nat and dg :: "nat \<Rightarrow> u8" and dig :: "u8 \<Rightarrow> int option"
    and acc :: "u64 \<Rightarrow> int \<Rightarrow> u64" and lim :: nat
  assumes base: "1 < b" and dig_dg: "d < b \<Longrightarrow> dig (dg d) = Some (int d)"
    and acc_step: "d < b \<Longrightarrow> acc r (int d) = r * of_nat b + of_nat d"
    and room: "2 ^ 64 \<le> b ^ lim" and lim_pos: "0 < lim"
begin

lemma foldl_acc: "\<forall>d \<in> set ds. d < b \<Longrightarrow>
    foldl acc r (map (the \<circ> dig \<circ> dg) ds) = foldl (\<lambda>r d. r * of_nat b + of_nat d) r ds"
  by (induction ds arbitrary: r) (auto simp: dig_dg acc_step)

lemma takeWhile_digits:
  assumes "\<forall>d \<in> set ds. d < b" and "rest = [] \<or> dig (hd rest) = None"
  shows "takeWhile (\<lambda>c. dig c \<noteq> None) (map dg ds @ rest) = map dg ds"
proof -
  have "takeWhile (\<lambda>c. dig c \<noteq> None) rest = []" using assms(2) by (cases rest) auto
  then show ?thesis using assms(1) dig_dg by (subst takeWhile_append2) auto
qed

lemma read_digits:
  assumes "\<forall>d \<in> set ds. d < b" and "rest = [] \<or> dig (hd rest) = None"
  shows "num_loop dig acc lim (map dg ds @ rest) 0 0 i =
    (if lim < length ds then None else Some (length ds, of_nat (numval b ds), i + length ds))"
  using foldl_word_numval [of b 0 ds, where ?'a = 64]
  by (simp add: num_loop_takeWhile takeWhile_digits [OF assms] foldl_acc [OF assms(1)] Let_def numval_def
      del: not_None_eq)

lemma read_written:
  assumes "rest = [] \<or> dig (hd rest) = None"
  shows "num_loop dig acc lim (digits_loop b dg (unat (n :: u64)) [] @ rest) 0 0 i =
    (let k = length (digits_loop b dg (unat n) []) in Some (k, n, i + k))"
proof -
  have "unat n < b ^ lim" using unat_lt2p_64 [of n] room by linarith
  then have "length (nat_digits b (unat n)) \<le> lim" by (intro length_nat_digits base lim_pos)
  moreover have "\<forall>d \<in> set (nat_digits b (unat n)). d < b" using nat_digits_less [OF base] by blast
  ultimately show ?thesis
    using read_digits [OF _ assms, of "nat_digits b (unat n)" i]
    by (simp add: digits_loop_eq [OF base] numval_nat_digits [OF base] Let_def)
qed

lemma written_length:
  fixes n :: u64
  shows "0 < length (digits_loop b dg (unat n) [])" "length (digits_loop b dg (unat n) []) \<le> lim"
proof -
  have "unat n < b ^ lim" using unat_lt2p_64 [of n] room by linarith
  then show "length (digits_loop b dg (unat n) []) \<le> lim"
    using length_nat_digits base lim_pos by (simp add: digits_loop_eq [OF base])
  show "0 < length (digits_loop b dg (unat n) [])" by (simp add: digits_loop_eq [OF base])
qed

end

definition dg48 :: "nat \<Rightarrow> u8" where
  "dg48 d = word_of_nat (d + 48)"

lemma dec_digit_dg: "d < 10 \<Longrightarrow> dec_digit (dg48 d) = Some (int d)"
proof -
  assume "d < 10"
  moreover have "list_all (\<lambda>d. dec_digit (dg48 d) = Some (int d)) [0..<10]" by code_simp
  ultimately show ?thesis by (simp only: list_all_iff) auto
qed

lemma oct_digit_dg: "d < 8 \<Longrightarrow> oct_digit (dg48 d) = Some (int d)"
proof -
  assume "d < 8"
  moreover have "list_all (\<lambda>d. oct_digit (dg48 d) = Some (int d)) [0..<8]" by code_simp
  ultimately show ?thesis by (simp only: list_all_iff) auto
qed

lemma hex_digit_dg: "d < 16 \<Longrightarrow> hex_digit ((if up then ffHEX else ffhex) ! d) = Some (int d)"
  by (simp add: hex_digit_def hex_digit_back Let_def)

lemma push_or_add: "d < 16 \<Longrightarrow> push_bit 4 r OR word_of_nat d = r * 16 + (word_of_nat d :: u64)"
proof -
  assume d: "d < 16"
  have "\<not> bit (word_of_nat d :: u64) n" if "4 \<le> n" for n
  proof -
    have "(16 :: nat) \<le> 2 ^ n" using power_increasing [OF that, of "2 :: nat"] by simp
    with d have "d div 2 ^ n = 0" by simp
    then show ?thesis by (simp add: bit_simps bit_iff_odd [of d])
  qed
  then have "push_bit 4 r + word_of_nat d = push_bit 4 r OR (word_of_nat d :: u64)"
    by (intro disjunctive_add) (auto simp: bit_simps)
  then show ?thesis by (simp add: push_bit_eq_mult mult.commute)
qed

interpretation dec: radix_text 10 dg48 dec_digit "\<lambda>r b. r * 10 + word_of_int b" 20
  by unfold_locales (simp_all add: dec_digit_dg)

interpretation oct: radix_text 8 dg48 oct_digit "\<lambda>r b. r * 8 + word_of_int b" 22
  by unfold_locales (simp_all add: oct_digit_dg)

interpretation hex: radix_text 16 "\<lambda>d. (if up then ffHEX else ffhex) ! d" hex_digit
  "\<lambda>r b. push_bit 4 r OR word_of_int b" 16 for up
  by unfold_locales (simp_all add: hex_digit_dg push_or_add del: if_split)

lemma fromint_dec_digits: "ffs_fromint_dec i = digits_loop 10 dg48 (unat i) []"
proof (cases "i \<le> 0xffffffff")
  case True
  then have "unat i < 2 ^ 32" by (simp add: word_le_nat_alt)
  then have "unat (ucast i :: u32) = unat i" by (simp add: unsigned_ucast_eq take_bit_nat_eq_self)
  with True show ?thesis by (simp add: ffs_fromint_dec_def dg48_def [abs_def])
qed (simp add: ffs_fromint_dec_def dg48_def [abs_def])

lemma fromint_oct_digits: "ffs_fromint_oct i = digits_loop 8 dg48 (unat i) []"
  by (simp add: ffs_fromint_oct_def dg48_def [abs_def])

lemma fromint_tail:
  "Some (put_at (if m \<and> 0 \<noteq> length dst then dst[0 := 45] else dst)
      (if m \<and> 0 \<noteq> length dst then 0 + 1 else 0)
      (take (min (length ps) (length dst - (if m \<and> 0 \<noteq> length dst then 0 + 1 else 0))) ps),
     (if m \<and> 0 \<noteq> length dst then 0 + 1 else 0)
       + min (length ps) (length dst - (if m \<and> 0 \<noteq> length dst then 0 + 1 else 0))) =
   Some (put_at dst 0 ((if m \<and> 0 < length dst then [45] else [])
       @ take (length dst - length (if m \<and> 0 < length dst then [45 :: u8] else [])) ps),
     length ((if m \<and> 0 < length dst then [45 :: u8] else [])
       @ take (length dst - length (if m \<and> 0 < length dst then [45 :: u8] else [])) ps))"
  by (cases dst) (auto simp: put_at_def min_def not_le)

text \<open>The plain formats: no width and no separators, the text of at most 22 digits and a sign.\<close>

lemma fromint_plain:
  assumes "flags AND 0xff000010 = 0"
  shows "ffs_fromint i dst flags =
    (let neg = (flags AND 1 \<noteq> 0 \<and> sint i < 0); i = (if neg then - i else i);
         minus = (neg \<or> flags AND 0x40 \<noteq> 0);
         ps = (if flags AND 0x20 \<noteq> 0 then ffs_fromint_oct i
                else if flags AND 6 \<noteq> 0 then ffs_fromint_hex i (flags AND 4 \<noteq> 0)
                else ffs_fromint_dec i);
         sg = (if minus \<and> 0 < length dst then [45] else []);
         t = take (length dst - length sg) ps
     in Some (put_at dst 0 (sg @ t), length (sg @ t)))"
proof -
  have m: "flags AND 0xff000000 = (flags AND 0xff000010) AND 0xff000000"
    "flags AND 0x10 = (flags AND 0xff000010) AND 0x10"
    by (simp_all add: and.assoc)
  have "flags AND 0xff000000 = 0" "flags AND 0x10 = 0" by (simp_all only: m assms) simp_all
  note f = this
  show ?thesis
    unfolding ffs_fromint_def Let_def f not_True_eq_False not_not simp_thms if_False
    by (rule fromint_tail)
qed

lemma take_put [simp]: "length t \<le> length d \<Longrightarrow> take (length t) (put_at d 0 t) = t"
  by (simp add: put_at_def)

text \<open>What \<open>ffs_toint\<close> makes of the result of its digit loop.\<close>

definition toint_end :: "bool \<Rightarrow> bool \<Rightarrow> nat \<Rightarrow> (nat \<times> u64 \<times> nat) option \<Rightarrow> toint_res" where
  "toint_end sflag mflag w loop =
     (case loop of None \<Rightarrow> TI_fail
      | Some (digits, r, i) \<Rightarrow>
        if digits = 0 then TI_fail
        else let n = (if sflag then w * 8 - 1 else w * 8) in
          if n \<noteq> 64 \<and> drop_bit n r \<noteq> 0 then TI_fail
          else TI_ok (i mod 2 ^ 32) (take_bit (8 * w) (if mflag then - r else r)))"

lemma toint_end:
  assumes "w = unat (flags AND 0x0f)" and "w = 1 \<or> w = 2 \<or> w = 4 \<or> w = 8"
    and "sflag \<longleftrightarrow> flags AND 0x10 \<noteq> 0"
    and "i = (if sflag \<and> src \<noteq> [] \<and> (hd src = 45 \<or> hd src = 43) then 1 else 0)"
  shows "ffs_toint src flags = toint_end sflag (sflag \<and> src \<noteq> [] \<and> hd src = 45) w
    (if flags AND 0x40 \<noteq> 0 then num_loop oct_digit (\<lambda>r b. r * 8 + word_of_int b) 22 (drop i src) 0 0 i
     else if flags AND 0x20 = 0 then num_loop dec_digit (\<lambda>r b. r * 10 + word_of_int b) 20 (drop i src) 0 0 i
     else num_loop hex_digit (\<lambda>r b. push_bit 4 r OR word_of_int b) 16 (drop i src) 0 0 i)"
proof -
  have w: "(if sflag then (if w = 0 then 2 ^ 32 - 1 else w * 8 - 1) else w * 8)
      = (if sflag then w * 8 - 1 else w * 8)" "\<not> 64 < (if sflag then w * 8 - 1 else w * 8)"
    "(w = 8 \<or> w = 4 \<or> w = 2 \<or> w = 1) = True"
    using assms(2) by auto
  show ?thesis
    unfolding ffs_toint_def Let_def assms(1) [symmetric] assms(3) [symmetric] assms(4) [symmetric]
      toint_end_def w if_True unfolding if_not_P [OF w(2)] ..
qed

lemma toint_dec: "w = 1 \<or> w = 2 \<or> w = 4 \<or> w = 8 \<Longrightarrow>
  ffs_toint src (word_of_nat w) = toint_end False False w
    (num_loop dec_digit (\<lambda>r b. r * 10 + word_of_int b) 20 src 0 0 0)"
  by (subst toint_end [where w = w and sflag = False and i = 0]) auto

lemma toint_dec_signed: "w = 1 \<or> w = 2 \<or> w = 4 \<or> w = 8 \<Longrightarrow> sg = [] \<or> sg = [45] \<or> sg = [43] \<Longrightarrow>
  src = [] \<or> hd src \<noteq> 45 \<and> hd src \<noteq> 43 \<Longrightarrow>
  ffs_toint (sg @ src) (16 OR word_of_nat w) = toint_end True (sg = [45]) w
    (num_loop dec_digit (\<lambda>r b. r * 10 + word_of_int b) 20 src 0 0 (length sg))"
  by (subst toint_end [where w = w and sflag = True and i = "length sg"]) auto

lemma toint_oct: "ffs_toint src 0x48 = toint_end False False 8
    (num_loop oct_digit (\<lambda>r b. r * 8 + word_of_int b) 22 src 0 0 0)"
  by (subst toint_end [where w = 8 and sflag = False and i = 0]) auto

lemma toint_hex: "ffs_toint src 0x28 = toint_end False False 8
    (num_loop hex_digit (\<lambda>r b. push_bit 4 r OR word_of_int b) 16 src 0 0 0)"
  by (subst toint_end [where w = 8 and sflag = False and i = 0]) auto

lemma drop_bit_0_iff: "drop_bit n (r :: u64) = 0 \<longleftrightarrow> unat r < 2 ^ n"
proof -
  have "drop_bit n r = 0 \<longleftrightarrow> unat (drop_bit n r) = 0" by (simp add: unat_eq_0)
  also have "\<dots> \<longleftrightarrow> unat r div 2 ^ n = 0" by (subst unat_drop_bit_eq, subst drop_bit_eq_div, rule refl)
  finally show ?thesis by (simp add: div_eq_0_iff)
qed

lemma take_bit_id: "unat (r :: u64) < 2 ^ n \<Longrightarrow> take_bit n r = r"
  by (simp add: word_unat_iff unsigned_take_bit_eq take_bit_nat_eq_self)

lemma take_bit_64 [simp]: "take_bit 64 (r :: u64) = r"
  by (rule take_bit_id) (rule unat_lt2p_64)

lemma toint_end_unsigned:
  assumes "w \<in> {1, 2, 4, 8}" and "k \<noteq> 0" and "i < 2 ^ 32"
  shows "toint_end False False w (Some (k, of_nat v, i)) =
    (if v mod 2 ^ 64 < 2 ^ (8 * w) then TI_ok i (of_nat v) else TI_fail)"
proof -
  have u: "unat (of_nat v :: u64) = v mod 2 ^ 64" by (simp add: unat_of_nat)
  have "w * 8 = 64 \<Longrightarrow> v mod 2 ^ 64 < 2 ^ (8 * w)" by (simp add: mult.commute)
  then show ?thesis
    using assms(2,3) take_bit_id [of "of_nat v" "8 * w"]
    unfolding toint_end_def option.case prod.case drop_bit_0_iff u
    by (auto simp: Let_def mult.commute)
qed

lemma toint_end_signed:
  assumes "w \<in> {1, 2, 4, 8}" and "k \<noteq> 0" and "i < 2 ^ 32"
  shows "toint_end True m w (Some (k, of_nat v, i)) =
    (if v mod 2 ^ 64 < 2 ^ (8 * w - 1)
     then TI_ok i (take_bit (8 * w) (if m then - of_nat v else of_nat v)) else TI_fail)"
proof -
  have u: "unat (of_nat v :: u64) = v mod 2 ^ 64" by (simp add: unat_of_nat)
  have "w * 8 - 1 \<noteq> 64" using assms(1) by auto
  then show ?thesis
    using assms(2,3) unfolding toint_end_def option.case prod.case drop_bit_0_iff u
    by (auto simp: Let_def mult.commute)
qed

text \<open>The formats without a sign, and the text they write.\<close>

definition text_of :: "u64 \<Rightarrow> u32 \<Rightarrow> bytes" where
  "text_of n flags = (if flags AND 0x20 \<noteq> 0 then ffs_fromint_oct n
    else if flags AND 6 \<noteq> 0 then ffs_fromint_hex n (flags AND 4 \<noteq> 0) else ffs_fromint_dec n)"

lemma fromint_text:
  assumes "flags AND 0xff000010 = 0" and "flags AND 0x40 = 0" and "23 \<le> length dst"
    and t: "t = (if flags AND 1 \<noteq> 0 \<and> sint n < 0 then 45 # text_of (- n) flags else text_of n flags)"
  shows "\<exists>d. ffs_fromint n dst flags = Some (d, length t) \<and> take (length t) d = t"
proof -
  define neg where "neg \<longleftrightarrow> flags AND 1 \<noteq> 0 \<and> sint n < 0"
  define m where "m = (if neg then - n else n)"
  have t': "t = (if neg then [45] else []) @ text_of m flags" by (simp add: t m_def neg_def)
  have "length (text_of m flags) \<le> 22"
    using dec.written_length(2) [of m] oct.written_length(2) [of m] hex.written_length(2) [where up = "flags AND 4 \<noteq> 0" and n = m]
    by (simp add: text_of_def fromint_dec_digits fromint_oct_digits ffs_fromint_hex_def)
  then have len: "length t \<le> length dst" using assms(3) by (simp add: t')
  have "0 < length dst" using assms(3) by linarith
  then have plain: "ffs_fromint n dst flags =
    (let sg = (if neg then [45] else []); t = take (length dst - length sg) (text_of m flags)
     in Some (put_at dst 0 (sg @ t), length (sg @ t)))"
    unfolding fromint_plain [OF assms(1)] Let_def assms(2) text_of_def m_def neg_def by simp
  have "take (length dst - length (if neg then [45 :: u8] else [])) (text_of m flags) = text_of m flags"
    using len by (simp add: t')
  then have "ffs_fromint n dst flags = Some (put_at dst 0 t, length t)"
    by (simp add: plain t' Let_def)
  with take_put [OF len] show ?thesis by simp
qed

lemma not_sign_digits: "\<forall>d \<in> set ds. d < 10 \<Longrightarrow> ds \<noteq> [] \<Longrightarrow>
    hd (map dg48 ds @ rest) \<noteq> 45 \<and> hd (map dg48 ds @ rest) \<noteq> 43"
proof -
  assume *: "\<forall>d \<in> set ds. d < 10" "ds \<noteq> []"
  have "list_all (\<lambda>d. dg48 d \<noteq> 45 \<and> dg48 d \<noteq> 43) [0..<10]" by code_simp
  with * show ?thesis by (cases ds) (auto simp: list_all_iff)
qed

text \<open>Reading what was written.\<close>

lemma dec_read: "ffs_toint (ffs_fromint_dec n) 8 = TI_ok (length (ffs_fromint_dec n)) n"
proof -
  let ?t = "digits_loop 10 dg48 (unat n) []"
  have "num_loop dec_digit (\<lambda>r b. r * 10 + word_of_int b) 20 ?t 0 0 0 = Some (length ?t, of_nat (unat n), length ?t)"
    using dec.read_written [of "[]" n 0] by (simp add: Let_def)
  moreover have "ffs_toint ?t 8 = toint_end False False 8 (num_loop dec_digit (\<lambda>r b. r * 10 + word_of_int b) 20 ?t 0 0 0)"
    using toint_dec [of 8 ?t] by simp
  ultimately show ?thesis
    using toint_end_unsigned [of 8 "length ?t" "length ?t" "unat n"] dec.written_length [of n] unat_lt2p_64 [of n]
    by (simp add: fromint_dec_digits)
qed

lemma oct_read: "ffs_toint (ffs_fromint_oct n) 0x48 = TI_ok (length (ffs_fromint_oct n)) n"
proof -
  let ?t = "digits_loop 8 dg48 (unat n) []"
  have "num_loop oct_digit (\<lambda>r b. r * 8 + word_of_int b) 22 ?t 0 0 0 = Some (length ?t, of_nat (unat n), length ?t)"
    using oct.read_written [of "[]" n 0] by (simp add: Let_def)
  then show ?thesis
    using toint_end_unsigned [of 8 "length ?t" "length ?t" "unat n"] oct.written_length [of n] unat_lt2p_64 [of n]
    by (simp add: fromint_oct_digits toint_oct)
qed

lemma hex_read: "ffs_toint (ffs_fromint_hex n up) 0x28 = TI_ok (length (ffs_fromint_hex n up)) n"
proof -
  let ?t = "digits_loop 16 (\<lambda>d. (if up then ffHEX else ffhex) ! d) (unat n) []"
  have "num_loop hex_digit (\<lambda>r b. push_bit 4 r OR word_of_int b) 16 ?t 0 0 0 = Some (length ?t, of_nat (unat n), length ?t)"
    using hex.read_written [where up = up and rest = "[]" and n = n and i = 0] by (simp add: Let_def)
  then show ?thesis
    using toint_end_unsigned [of 8 "length ?t" "length ?t" "unat n"] hex.written_length [where up = up and n = n] unat_lt2p_64 [of n]
    by (simp add: ffs_fromint_hex_def toint_hex)
qed

lemma signed_read:
  assumes "n \<noteq> 2 ^ 63"
  shows "ffs_toint (if sint n < 0 then 45 # ffs_fromint_dec (- n) else ffs_fromint_dec n) 0x18 =
    TI_ok (length (if sint n < 0 then 45 # ffs_fromint_dec (- n) else ffs_fromint_dec n)) n"
proof -
  have dv: "unat n div 2 ^ 63 < 2" using unat_lt2p_64 [of n] by (simp add: less_mult_imp_div_less)
  have bit: "sint n < 0 \<longleftrightarrow> 2 ^ 63 \<le> unat n"
  proof -
    have "sint n < 0 \<longleftrightarrow> bit n 63" using bit_last_iff [of n] by simp
    also have "\<dots> \<longleftrightarrow> odd (unat n div 2 ^ 63)"
      using bit_unsigned_iff [of n 63, where ?'a = nat] by (simp add: bit_iff_odd [of "unat n"])
    also have "\<dots> \<longleftrightarrow> unat n div 2 ^ 63 \<noteq> 0" using dv by (cases "unat n div 2 ^ 63") auto
    finally show ?thesis by (simp add: div_eq_0_iff not_less)
  qed
  have digits: "ffs_fromint_dec m = map dg48 (nat_digits 10 (unat m))" for m
    using digits_loop_eq [of 10] by (simp add: fromint_dec_digits)
  have no_sign: "hd (ffs_fromint_dec m) \<noteq> 45 \<and> hd (ffs_fromint_dec m) \<noteq> 43" for m
    using not_sign_digits [of "nat_digits 10 (unat m)" "[]"] nat_digits_less [of 10] by (simp add: digits)
  have read: "ffs_toint (sg @ ffs_fromint_dec m) 0x18 =
      TI_ok (length sg + length (ffs_fromint_dec m)) (if sg = [45] then - m else m)"
    if "unat m < 2 ^ 63" "sg = [] \<or> sg = [45]" for m sg
    using toint_dec_signed [of 8 sg "ffs_fromint_dec m"] dec.read_written [of "[]" m "length sg"]
      toint_end_signed [of 8 "length (ffs_fromint_dec m)" "length sg + length (ffs_fromint_dec m)" "sg = [45]" "unat m"]
      dec.written_length [of m] no_sign [of m] that
    by (auto simp: fromint_dec_digits Let_def)
  show ?thesis
  proof (cases "sint n < 0")
    case True
    have "unat n \<noteq> 2 ^ 63"
    proof
      assume "unat n = 2 ^ 63"
      then have "n = of_nat (2 ^ 63)" by (metis word_of_nat_eq_iff unsigned_of_nat word_unat_iff unat_of_nat_small take_bit_nat_eq_self unsigned_less)
      with assms show False by simp
    qed
    moreover have "unat (- n) = 2 ^ 64 - unat n"
    proof -
      have "- n = of_nat (2 ^ 64) - of_nat (unat n)" by simp
      also have "\<dots> = of_nat (2 ^ 64 - unat n)"
        using unat_lt2p_64 [of n] by (simp only: of_nat_diff less_imp_le)
      finally show ?thesis
        using True bit by (simp only: unat_of_nat_small [where ?'a = 64, simplified]) (simp add: unat_of_nat_small)
    qed
    ultimately have "unat (- n) < 2 ^ 63" using True bit by simp
    from read [OF this, of "[45]"] True show ?thesis by simp
  next
    case False
    with bit read [of n "[]"] show ?thesis by simp
  qed
qed

section \<open>Values of a list: what is taken\<close>

lemma ffs_find_sep [simp]:
  "c \<notin> set x \<Longrightarrow> ffs_find x c = length x" "c \<notin> set x \<Longrightarrow> ffs_find (x @ c # r) c = length x"
  by (induction x) auto

fun join_sep :: "u8 \<Rightarrow> bytes list \<Rightarrow> bytes" where
  "join_sep c [] = []"
| "join_sep c [x] = x"
| "join_sep c (x # xs) = x @ c # join_sep c xs"

text \<open>
  A separated list read with \<open>FFS_NV_KEEPWHITE\<close>, for a separator other than space and tab: the
  flags are 0x200 and the separator.
\<close>

lemma nextval_keep:
  assumes "f = 0x200 OR ucast c" and "c \<noteq> 32" and "c \<noteq> 9"
  shows "ffstr_nextval s f =
    (if s = [] then ([], 0)
     else let pos = ffs_find s c in
       (take pos s,
        if pos \<noteq> length s then (if pos + 1 = length s \<and> pos \<noteq> 0 then pos else pos + 1) else length s))"
proof -
  have b: "bit f k \<longleftrightarrow> k = 9 \<or> bit c k" for k
  proof -
    have m: "(0x200 :: u32) = ff_bit 9" by (simp add: ff_bit_def)
    show ?thesis unfolding assms(1) m by (auto simp: bit_simps dest: bit_u8_lt)
  qed
  have nb: "\<not> bit f k" if "10 \<le> k \<or> k = 8" for k using that bit_u8_lt [of c k] b [of k] by auto
  have m: "(0x400 :: u32) = ff_bit 10" "(0x1000 :: u32) = ff_bit 12" "(0x100 :: u32) = ff_bit 8"
    "(0x200 :: u32) = ff_bit 9" "(0xff :: u32) = mask 8"
    by (simp_all add: ff_bit_def mask_eq_exp_minus_1)
  have f: "f AND 0x400 = 0" "f AND 0x1000 = 0" "f AND 0x100 = 0" "f AND 0x200 \<noteq> 0"
    unfolding m and_ff_bit_eq_0 using nb [of 10] nb [of 12] nb [of 8] b [of 9] by auto
  have "ucast (f AND 0xff) = c"
    unfolding m by (rule bit_word_eqI) (auto simp: bit_simps b)
  note f = f this
  show ?thesis using assms(2,3) f by (simp add: ffstr_nextval_def Let_def)
qed
lemma join_sep_Nil_iff: "[] \<notin> set xs \<Longrightarrow> join_sep c xs = [] \<longleftrightarrow> xs = []"
  by (induction c xs rule: join_sep.induct) auto

lemma nextval3_join:
  assumes "f = 0x200 OR ucast c" and "c \<noteq> 32" and "c \<noteq> 9"
    and "c \<notin> set x" and "[] \<notin> set (x # xs)"
  shows "ffstr_nextval3 (join_sep c (x # xs)) f = (join_sep c xs, x)"
proof -
  have "f AND 0x400 = 0"
  proof -
    have m: "(0x400 :: u32) = ff_bit 10" "(0x200 :: u32) = ff_bit 9" by (simp_all add: ff_bit_def)
    show ?thesis unfolding assms(1) m and_ff_bit_eq_0 by (auto simp: bit_simps dest: bit_u8_lt)
  qed
  note n3 = ffstr_nextval3_def nextval_keep [OF assms(1-3)] this
  show ?thesis
  proof (cases xs)
    case Nil
    with assms(4,5) show ?thesis by (simp add: n3 Let_def)
  next
    case (Cons y ys)
    then have "join_sep c xs \<noteq> []" using assms(5) by (simp add: join_sep_Nil_iff)
    moreover have "join_sep c (x # xs) = x @ c # join_sep c xs" using Cons by simp
    ultimately show ?thesis using assms(4,5) by (simp add: n3 Let_def)
  qed
qed

section \<open>Versions: the order they decide\<close>

text \<open>Versions as lists of numbers, the shorter one continued with zeros.\<close>

fun ver_cmp :: "u64 list \<Rightarrow> u64 list \<Rightarrow> int" where
  "ver_cmp [] [] = 0"
| "ver_cmp (v # vs) [] = (if v = 0 then ver_cmp vs [] else 1)"
| "ver_cmp [] (w # ws) = (if w = 0 then ver_cmp [] ws else -1)"
| "ver_cmp (v # vs) (w # ws) = (if v = w then ver_cmp vs ws else ffint_cmp v w)"

definition ver_text :: "u64 list \<Rightarrow> bytes" where
  "ver_text vs = join_sep 46 (map ffs_fromint_dec vs)"

lemma dec_text_no_dot: "46 \<notin> set (ffs_fromint_dec v)" and dec_text_not_Nil: "ffs_fromint_dec v \<noteq> []"
proof -
  have eq: "ffs_fromint_dec v = map dg48 (nat_digits 10 (unat v))"
    using digits_loop_eq [of 10] by (simp add: fromint_dec_digits)
  have "list_all (\<lambda>d. dg48 d \<noteq> 46) [0..<10]" by code_simp
  then have "dg48 d \<noteq> 46" if "d < 10" for d using that by (auto simp: list_all_iff)
  then show "46 \<notin> set (ffs_fromint_dec v)" unfolding eq using nat_digits_less [of 10] by fastforce
  show "ffs_fromint_dec v \<noteq> []" by (simp add: eq)
qed

lemma dec_texts_not_Nil: "[] \<notin> set (map ffs_fromint_dec vs)"
  by (induction vs) (simp_all add: dec_text_not_Nil [symmetric])

lemma ver_text_Nil_iff [simp]: "ver_text vs = [] \<longleftrightarrow> vs = []"
  using join_sep_Nil_iff [OF dec_texts_not_Nil] by (simp add: ver_text_def)

lemma ver_part_text: "ver_part (ver_text (v # vs)) = Some (ver_text vs, v)"
proof -
  have "ffstr_nextval3 (ver_text (v # vs)) (46 OR 0x200) = (ver_text vs, ffs_fromint_dec v)"
    unfolding ver_text_def list.map
    by (rule nextval3_join) (use dec_text_no_dot dec_texts_not_Nil [of "v # vs"] in \<open>simp_all\<close>)
  moreover have "ffstr_toint (ffs_fromint_dec v) 8 = Some v"
    using dec_read [of v] dec_text_not_Nil by (simp add: ffstr_toint_def)
  ultimately show ?thesis by (simp add: ver_part_def ver_text_Nil_iff del: or_numerals)
qed

lemma ver_part_Nil: "ver_part [] = Some ([], 0)"
  by (simp add: ver_part_def)

lemma vercmp_loop_text:
  "vercmp_loop (ver_text vs) (ver_text ws) r = (if r = 0 then ver_cmp vs ws else r)"
proof (induction "length vs + length ws" arbitrary: vs ws r rule: less_induct)
  case less
  note unf = vercmp_loop.simps [of "ver_text vs" "ver_text ws" r]
  show ?case
  proof (cases vs)
    case Nil: Nil
    show ?thesis
    proof (cases ws)
      case Nil
      then show ?thesis using unf \<open>vs = []\<close> by simp
    next
      case (Cons w ws')
      with less [of "[]" ws'] Nil unf show ?thesis
        by (simp add: ver_part_text ver_part_Nil ver_text_def [of "[]"] ffint_cmp_def word_gt_0)
    qed
  next
    case (Cons v vs')
    show ?thesis
    proof (cases ws)
      case Nil
      with less [of vs' "[]"] Cons unf show ?thesis
        by (simp add: ver_part_text ver_part_Nil ver_text_def [of "[]"] ffint_cmp_def)
    next
      case ws: (Cons w ws')
      with less [of vs' ws'] Cons unf show ?thesis
        by (simp add: ver_part_text ffint_cmp_def)
    qed
  qed
qed

section \<open>Properties\<close>

text \<open>
  C40: ffs_toint on decimal text is exact up to 20 digits modulo 2^64: it stores the value and
  returns the number of chars when the value modulo 2^64 fits the destination, and fails
  otherwise, as it does for more than 20 digits; with the sign flag a leading plus or minus is
  accepted and one bit less is available, for the negative numbers as well.
\<close>

theorem ffs_toint_dec:
  assumes "ds \<noteq> []" and "\<forall>d \<in> set ds. d < 10" and "rest = [] \<or> dec_digit (hd rest) = None"
    and "w \<in> {1, 2, 4, 8}" and "sg \<in> {[], [43], [45]}"
  shows "ffs_toint (map dg48 ds @ rest) (word_of_nat w) =
      (if length ds \<le> 20 \<and> numval 10 ds mod 2 ^ 64 < 2 ^ (8 * w)
       then TI_ok (length ds) (of_nat (numval 10 ds)) else TI_fail)
    \<and> ffs_toint (sg @ map dg48 ds @ rest) (16 OR word_of_nat w) =
      (if length ds \<le> 20 \<and> numval 10 ds mod 2 ^ 64 < 2 ^ (8 * w - 1)
       then TI_ok (length sg + length ds)
         (take_bit (8 * w) (if sg = [45] then - of_nat (numval 10 ds) else of_nat (numval 10 ds)))
       else TI_fail)"
proof -
  have w: "w = 1 \<or> w = 2 \<or> w = 4 \<or> w = 8" using assms(4) by auto
  have sg: "sg = [] \<or> sg = [45] \<or> sg = [43]" "length sg \<le> 1" using assms(5) by auto
  note loop = dec.read_digits [OF assms(2,3)]
  have "ffs_toint (map dg48 ds @ rest) (word_of_nat w) =
      (if length ds \<le> 20 \<and> numval 10 ds mod 2 ^ 64 < 2 ^ (8 * w)
       then TI_ok (length ds) (of_nat (numval 10 ds)) else TI_fail)"
  proof (cases "length ds \<le> 20")
    case True
    with toint_end_unsigned [OF assms(4), of "length ds" "length ds" "numval 10 ds"] assms(1) loop [of 0]
    show ?thesis by (simp add: toint_dec [OF w])
  next
    case False
    with loop [of 0] show ?thesis by (simp add: toint_dec [OF w] toint_end_def)
  qed
  moreover have "ffs_toint (sg @ map dg48 ds @ rest) (16 OR word_of_nat w) =
      (if length ds \<le> 20 \<and> numval 10 ds mod 2 ^ 64 < 2 ^ (8 * w - 1)
       then TI_ok (length sg + length ds)
         (take_bit (8 * w) (if sg = [45] then - of_nat (numval 10 ds) else of_nat (numval 10 ds)))
       else TI_fail)"
  proof (cases "length ds \<le> 20")
    case True
    with toint_end_signed [OF assms(4), of "length ds" "length sg + length ds" "sg = [45]" "numval 10 ds"]
      assms(1) sg(2) loop [of "length sg"]
    show ?thesis
      by (simp add: toint_dec_signed [OF w sg(1) disjI2 [OF not_sign_digits [OF assms(2,1)]]] del: append_assoc)
  next
    case False
    with loop [of "length sg"] show ?thesis
      by (simp add: toint_dec_signed [OF w sg(1) disjI2 [OF not_sign_digits [OF assms(2,1)]]] toint_end_def)
  qed
  ultimately show ?thesis by blast
qed

theorem ffs_toint_dec_witness:
  "ffs_toint [49, 50, 56, 120] 1 = TI_ok 3 128 \<and> ffs_toint [45, 49, 50, 56, 120] 17 = TI_fail"
proof -
  have "map dg48 [1, 2, 8] = [49, 50, 56]" by (simp add: dg48_def)
  moreover have "dec_digit 120 = None" by code_simp
  ultimately show ?thesis
    using ffs_toint_dec [of "[1, 2, 8]" "[120]" 1 "[45]"] by (simp add: numval_def)
qed

text \<open>
  Numbers written by ffs_fromint are read back by ffs_toint, all 64-bit values in decimal,
  octal and hexadecimal, and the signed ones except the least.
\<close>

theorem fromint_toint_roundtrip:
  assumes "23 \<le> length dst"
  shows "(\<exists>d k. ffs_fromint n dst 0 = Some (d, k) \<and> ffs_toint (take k d) 8 = TI_ok k n)
    \<and> (\<exists>d k. ffs_fromint n dst 0x20 = Some (d, k) \<and> ffs_toint (take k d) 0x48 = TI_ok k n)
    \<and> (\<exists>d k. ffs_fromint n dst (if up then 4 else 2) = Some (d, k) \<and> ffs_toint (take k d) 0x28 = TI_ok k n)
    \<and> (n \<noteq> 2 ^ 63 \<longrightarrow>
        (\<exists>d k. ffs_fromint n dst 1 = Some (d, k) \<and> ffs_toint (take k d) 0x18 = TI_ok k n))"
proof (intro conjI impI)
  show "\<exists>d k. ffs_fromint n dst 0 = Some (d, k) \<and> ffs_toint (take k d) 8 = TI_ok k n"
    using fromint_text [where flags = 0 and n = n, OF _ _ assms refl] dec_read [of n] by (auto simp: text_of_def)
  show "\<exists>d k. ffs_fromint n dst 0x20 = Some (d, k) \<and> ffs_toint (take k d) 0x48 = TI_ok k n"
    using fromint_text [where flags = "0x20" and n = n, OF _ _ assms refl] oct_read [of n] by (auto simp: text_of_def)
  show "\<exists>d k. ffs_fromint n dst (if up then 4 else 2) = Some (d, k) \<and> ffs_toint (take k d) 0x28 = TI_ok k n"
    using fromint_text [where flags = "if up then 4 else 2" and n = n, OF _ _ assms refl] hex_read [of n up]
    by (cases up) (auto simp: text_of_def)
  assume n: "n \<noteq> 2 ^ 63"
  have "text_of m 1 = ffs_fromint_dec m" for m by (simp add: text_of_def)
  then show "\<exists>d k. ffs_fromint n dst 1 = Some (d, k) \<and> ffs_toint (take k d) 0x18 = TI_ok k n"
    using fromint_text [where flags = 1 and n = n, OF _ _ assms refl] signed_read [OF n] by auto
qed

theorem fromint_toint_roundtrip_witness:
  "\<exists>d k. ffs_fromint (- 5) (replicate 23 0) 1 = Some (d, k) \<and> ffs_toint (take k d) 0x18 = TI_ok k (- 5)"
  using fromint_toint_roundtrip [of "replicate 23 0" "- 5" True] by simp

text \<open>
  ffs_toint does not notice that 20 decimal or 22 octal digits exceed 64 bits: it stores the
  value modulo 2^64 and reports success, while the least signed integer, which ffs_fromint
  writes, is rejected.
\<close>

theorem ffs_toint_overflow:
  "ffs_toint (map dg48 [1, 8, 4, 4, 6, 7, 4, 4, 0, 7, 3, 7, 0, 9, 5, 5, 1, 6, 1, 7]) 8 = TI_ok 20 1
    \<and> ffs_toint (map dg48 [2, 0, 0, 0, 0, 0, 0, 0, 0, 0, 0, 0, 0, 0, 0, 0, 0, 0, 0, 0, 0, 1]) 0x48 = TI_ok 22 1
    \<and> ffs_toint (45 # map dg48 [9, 2, 2, 3, 3, 7, 2, 0, 3, 6, 8, 5, 4, 7, 7, 5, 8, 0, 8]) 0x18 = TI_fail"
proof (intro conjI)
  let ?d = "[1, 8, 4, 4, 6, 7, 4, 4, 0, 7, 3, 7, 0, 9, 5, 5, 1, 6, 1, 7]"
  have "num_loop dec_digit (\<lambda>r b. r * 10 + word_of_int b) 20 (map dg48 ?d @ []) 0 0 0 = Some (20, of_nat (2 ^ 64 + 1), 20)"
    by (subst dec.read_digits) (simp_all add: numval_def del: list.map)
  then show "ffs_toint (map dg48 ?d) 8 = TI_ok 20 1"
    using toint_dec [of 8 "map dg48 ?d"] toint_end_unsigned [of 8 20 20 "2 ^ 64 + 1"] by simp
  let ?o = "[2, 0, 0, 0, 0, 0, 0, 0, 0, 0, 0, 0, 0, 0, 0, 0, 0, 0, 0, 0, 0, 1]"
  have "num_loop oct_digit (\<lambda>r b. r * 8 + word_of_int b) 22 (map dg48 ?o @ []) 0 0 0 = Some (22, of_nat (2 ^ 64 + 1), 22)"
    by (subst oct.read_digits) (simp_all add: numval_def del: list.map)
  then show "ffs_toint (map dg48 ?o) 0x48 = TI_ok 22 1"
    using toint_oct [of "map dg48 ?o"] toint_end_unsigned [of 8 22 22 "2 ^ 64 + 1"] by simp
  let ?m = "[9, 2, 2, 3, 3, 7, 2, 0, 3, 6, 8, 5, 4, 7, 7, 5, 8, 0, 8]"
  have "num_loop dec_digit (\<lambda>r b. r * 10 + word_of_int b) 20 (map dg48 ?m @ []) 0 0 1 = Some (19, of_nat (2 ^ 63), 20)"
    by (subst dec.read_digits) (simp_all add: numval_def del: list.map)
  moreover have "hd (map dg48 ?m @ []) \<noteq> 45 \<and> hd (map dg48 ?m @ []) \<noteq> 43" by (rule not_sign_digits) auto
  ultimately show "ffs_toint (45 # map dg48 ?m) 0x18 = TI_fail"
    using toint_dec_signed [of 8 "[45]" "map dg48 ?m"] toint_end_signed [of 8 19 20 True "2 ^ 63"] by simp
qed

text \<open>
  Two formats of ffs_fromint break their contract for negative numbers: with a zero-filled
  width and a destination smaller than the width the fill is written behind the end of the
  buffer, and with thousands separators the returned length leaves out the sign.
\<close>

theorem ffs_fromint_negative_faults:
  "ffs_fromint (- 1) [0, 0] (0x05000000 OR 8 OR 1) = None
    \<and> ffs_fromint (- 1234) (replicate 6 0) (0x10 OR 1) = Some ([45, 49, 44, 50, 51, 52], 5)"
  by code_simp

text \<open>
  Version comparison decides the order of the versions as lists of numbers, the shorter one
  continued with zeros, for all versions written as numbers separated by dots.
\<close>

theorem ffstr_vercmp_correct:
  "ffstr_vercmp (ver_text vs) (ver_text ws) = ver_cmp vs ws"
  by (simp add: ffstr_vercmp_def vercmp_loop_text)

text \<open>
  Taking values from a separated list gives its values in order: from a list of non-empty
  values that do not hold the separator, ffstr_nextval3 takes the first value and leaves the
  list of the others.
\<close>

theorem ffstr_nextval_list:
  assumes "c \<noteq> 32" and "c \<noteq> 9" and "c \<notin> set x" and "[] \<notin> set (x # xs)"
  shows "ffstr_nextval3 (join_sep c (x # xs)) (0x200 OR ucast c) = (join_sep c xs, x)"
  using assms by (intro nextval3_join refl)

theorem ffstr_nextval_list_witness:
  "ffstr_nextval3 [97, 44, 98, 99] (0x200 OR ucast (44 :: u8)) = ([98, 99], [97])"
  using ffstr_nextval_list [of 44 "[97]" "[[98, 99]]"] by simp

text \<open>
  The fraction digit of a formatted size is the first decimal digit of the remaining byte
  count, not of the fraction of the unit: 1124 bytes, which are 1.09 KB, print as 1.1k and 1033
  bytes, 1.008 KB, as 1.9k.
\<close>

theorem ffs_fromsize_fraction:
  "ffs_fromsize (replicate 4 0) 1033 True False = Some ([49, 46, 57, 107], 4)
    \<and> ffs_fromsize (replicate 4 0) 1124 True False = Some ([49, 46, 49, 107], 4)"
  by code_simp

end
