(* ===== verification/FF_Codec.thy ===== *)
theory FF_Codec
  imports FF_Prelude
begin

text \<open>
  The interface of the encodings of the library that can follow one another in a stream: a
  value is written as a non-empty string of bytes, and the reader finds the value and its
  length whatever follows. The laws give lists of values for free.
\<close>

text \<open>Reading values until the input is used up; the fuel is the length of the input.\<close>

fun decode_list :: "(bytes \<Rightarrow> (nat \<times> 'a) option) \<Rightarrow> nat \<Rightarrow> bytes \<Rightarrow> 'a list option" where
  "decode_list dec fuel [] = Some []"
| "decode_list dec 0 (c # s) = None"
| "decode_list dec (Suc fuel) (c # s) =
     (case dec (c # s) of None \<Rightarrow> None
      | Some (n, x) \<Rightarrow> map_option ((#) x) (decode_list dec fuel (drop n (c # s))))"

locale stream_codec =
  fixes enc :: "'a \<Rightarrow> bytes" and dec :: "bytes \<Rightarrow> (nat \<times> 'a) option" and ok :: "'a \<Rightarrow> bool"
  assumes dec_enc: "ok x \<Longrightarrow> dec (enc x @ rest) = Some (length (enc x), x)"
    and enc_Nil: "ok x \<Longrightarrow> enc x \<noteq> []"
begin

lemma inj: "ok x \<Longrightarrow> ok y \<Longrightarrow> enc x = enc y \<Longrightarrow> x = y"
  using dec_enc [of x "[]"] dec_enc [of y "[]"] by simp

lemma prefix_free: "ok x \<Longrightarrow> ok y \<Longrightarrow> enc x @ r = enc y @ t \<Longrightarrow> x = y \<and> r = t"
  using dec_enc [of x r] dec_enc [of y t] by simp

lemma decode_list_concat:
  "\<forall>x \<in> set xs. ok x \<Longrightarrow> length (concat (map enc xs)) \<le> fuel \<Longrightarrow>
    decode_list dec fuel (concat (map enc xs)) = Some xs"
proof (induction xs arbitrary: fuel)
  case (Cons x xs)
  let ?s = "enc x @ concat (map enc xs)"
  have ne: "enc x \<noteq> []" using Cons.prems enc_Nil by simp
  then obtain c s where s: "?s = c # s" by (cases "enc x") auto
  from ne Cons.prems obtain k where k: "fuel = Suc k" by (cases fuel) auto
  have "length (concat (map enc xs)) \<le> k"
    using Cons.prems ne k by (cases "enc x") auto
  then have "decode_list dec k (concat (map enc xs)) = Some xs" using Cons by simp
  moreover have "dec (c # s) = Some (length (enc x), x)"
    using dec_enc [of x "concat (map enc xs)"] Cons.prems s by simp
  moreover have "drop (length (enc x)) (c # s) = concat (map enc xs)"
    unfolding s [symmetric] by simp
  ultimately show ?case using s k by simp
qed simp

lemma concat_inj:
  assumes "\<forall>x \<in> set xs. ok x" and "\<forall>y \<in> set ys. ok y"
    and "concat (map enc xs) = concat (map enc ys)"
  shows "xs = ys"
proof -
  have "Some xs = Some ys"
    using decode_list_concat [OF assms(1) order_refl, unfolded assms(3)]
      decode_list_concat [OF assms(2) order_refl] by (rule trans [OF sym])
  then show ?thesis by (rule option.inject [THEN iffD1])
qed

end

end
