(* ===== verification/FF_Utf8.thy ===== *)
theory FF_Utf8
  imports FF_Codec FF_Str FF_Array
begin

unbundle bit_operations_syntax

text \<open>
  Unicode text (\<open>data/utf8.h\<close>, \<open>data/ffutf8.c\<close>): one character to and from UTF-8, validity,
  length, byte order marks, and the conversions from UTF-16 and the two Windows code pages to
  UTF-8 and back to UTF-16.
\<close>

section \<open>One character\<close>

definition utf8_b1masks :: "nat list" where
  "utf8_b1masks = [0x1f, 0x0f, 0x07, 0x03, 0x01, 0]"

text \<open>The continuation bytes; \<open>None\<close> is an invalid one. \<open>r\<close> is the number so far.\<close>

fun cont_loop :: "bytes \<Rightarrow> nat \<Rightarrow> 'a::len word \<Rightarrow> 'a word option" where
  "cont_loop s 0 r = Some r"
| "cont_loop [] (Suc n) r = None"
| "cont_loop (c # s) (Suc n) r =
     (let d = ucast c :: u32 in
      if d AND 0xc0 \<noteq> 0x80 then None
      else cont_loop s n (push_bit 6 r OR ucast (d AND NOT 0xc0)))"

text \<open>
  The result and the character stored: the length of the sequence; its negative when more bytes
  are needed; 0 for an invalid sequence. The input must hold at least one byte.
\<close>

definition ffutf8_decode1 :: "bytes \<Rightarrow> int \<times> u32 option" where
  "ffutf8_decode1 utf8 =
     (let d = ucast (hd utf8) :: u32 in
      if d AND 0x80 = 0 then (1, Some d)
      else let n = ffbit_find32 (NOT (push_bit 24 d) AND 0xfe000000) in
        if n < 3 \<or> n = 8 then (0, None)
        else let n = n - 1; r = d AND of_nat (utf8_b1masks ! (n - 2)) in
          if length utf8 < n then (- int n, None)
          else case cont_loop (tl utf8) (n - 1) r of
            None \<Rightarrow> (0, None) | Some r \<Rightarrow> (int n, Some r))"

definition ffutf8_decode1_64 :: "bytes \<Rightarrow> int \<times> u64 option" where
  "ffutf8_decode1_64 utf8 =
     (let d = ucast (hd utf8) :: u32 in
      if d AND 0x80 = 0 then (1, Some (ucast d))
      else let n = ffbit_find32 (NOT (push_bit 24 d) AND 0xff000000) in
        if n < 3 then (0, None)
        else let n = n - 1; r = ucast (d AND of_nat (utf8_b1masks ! (n - 2))) in
          if length utf8 < n then (- int n, None)
          else case cont_loop (tl utf8) (n - 1) r of
            None \<Rightarrow> (0, None) | Some r \<Rightarrow> (int n, Some r))"

definition ffutf8_size :: "u32 \<Rightarrow> nat" where
  "ffutf8_size uch =
     (if uch < 0x80 then 1 else if uch < 0x0800 then 2 else if uch < 0x10000 then 3
      else if uch < 0x200000 then 4 else if uch < 0x04000000 then 5
      else if uch < 0x80000000 then 6 else 0)"

text \<open>The bytes written; none when the destination is too small.\<close>

definition ffutf8_encode1 :: "nat \<Rightarrow> u32 \<Rightarrow> bytes" where
  "ffutf8_encode1 cap uch =
     (let n = ffutf8_size uch; cont = (\<lambda>x. 0x80 OR (x AND NOT 0xc0)) in
      if cap < n then []
      else map ucast
       (if n = 1 then [uch]
        else if n = 2 then [0xc0 OR drop_bit 6 uch, cont uch]
        else if n = 3 then [0xe0 OR drop_bit 12 uch, cont (drop_bit 6 uch), cont uch]
        else if n = 4 then
          [0xf0 OR drop_bit 18 uch, cont (drop_bit 12 uch), cont (drop_bit 6 uch), cont uch]
        else if n = 5 then
          [0xf8 OR drop_bit 24 uch, cont (drop_bit 18 uch), cont (drop_bit 12 uch),
           cont (drop_bit 6 uch), cont uch]
        else if n = 6 then
          [0xfc OR drop_bit 30 uch, cont (drop_bit 24 uch), cont (drop_bit 18 uch),
           cont (drop_bit 12 uch), cont (drop_bit 6 uch), cont uch]
        else []))"

section \<open>Text\<close>

function ffutf8_len :: "bytes \<Rightarrow> nat" where
  "ffutf8_len p =
     (if p = [] then 0
      else let d = ucast (hd p) :: u32 in
        Suc (ffutf8_len
          (if d AND 0x80 = 0 then drop 1 p
           else let n = ffbit_find32 (NOT (push_bit 24 d) AND 0xfe000000) in
             if 3 \<le> n \<and> n \<noteq> 8 then drop (n - 1) p else drop 1 p)))"
  by pat_completeness auto
termination by (relation "measure length") (auto simp: Let_def neq_Nil_conv)

declare ffutf8_len.simps [simp del]

function ffutf8_valid :: "bytes \<Rightarrow> bool" where
  "ffutf8_valid data =
     (if data = [] then True
      else let (r, val) = ffutf8_decode1 data in
        if r \<le> 0 then False else ffutf8_valid (drop (nat r) data))"
  by pat_completeness auto
termination by (relation "measure length") auto

declare ffutf8_valid.simps [simp del]

datatype coding = FFU_UTF8 | FFU_UTF16LE | FFU_UTF16BE | FFU_WIN1251 | FFU_WIN1252

definition codestr :: "bytes list" where
  "codestr = [[117, 116, 102, 56], [117, 116, 102, 49, 54, 108, 101], [117, 116, 102, 49, 54, 98, 101],
     [119, 105, 110, 49, 50, 53, 49], [119, 105, 110, 49, 50, 53, 50]]"

definition ffu_coding :: "bytes \<Rightarrow> int" where
  "ffu_coding data = ffszarr_ifindsorted codestr data"

text \<open>The coding and the length of the mark.\<close>

definition ffutf_bom :: "bytes \<Rightarrow> (coding \<times> nat) option" where
  "ffutf_bom s =
     (case s of
        a # b # r \<Rightarrow>
          if a = 0xff then (if b = 0xfe then Some (FFU_UTF16LE, 2) else None)
          else if a = 0xfe then (if b = 0xff then Some (FFU_UTF16BE, 2) else None)
          else if a = 0xef then
            (if r \<noteq> [] \<and> b = 0xbb \<and> hd r = 0xbf then Some (FFU_UTF8, 3) else None)
          else None
      | _ \<Rightarrow> None)"

section \<open>From UTF-16 and code pages\<close>

definition U_REPL :: u32 where
  "U_REPL = 0xFFFD"

definition ffint_ltoh16 :: "u8 \<Rightarrow> u8 \<Rightarrow> u32" where
  "ffint_ltoh16 a b = ucast a OR push_bit 8 (ucast b)"

definition ffint_ntoh16 :: "u8 \<Rightarrow> u8 \<Rightarrow> u32" where
  "ffint_ntoh16 a b = push_bit 8 (ucast a) OR ucast b"

text \<open>
  The loop over the code units with the order \<open>rd\<close> of their bytes: the bytes written (\<open>idst\<close> is
  their number), the input consumed, and whether a unit did not fit (\<open>goto done\<close>).
\<close>

fun utf16_loop :: "(u8 \<Rightarrow> u8 \<Rightarrow> u32) \<Rightarrow> nat \<Rightarrow> bytes \<Rightarrow> bytes \<times> nat \<times> bool" where
  "utf16_loop rd room (a # b # s) =
     (if 0 < room then
        (let e = ffutf8_encode1 room (rd a b) in
         if e = [] then ([], 0, True)
         else let (out, i, stop) = utf16_loop rd (room - length e) s in (e @ out, i + 2, stop))
      else ([], 0, False))"
| "utf16_loop rd room s = ([], 0, False)"

fun utf16_size :: "(u8 \<Rightarrow> u8 \<Rightarrow> u32) \<Rightarrow> bytes \<Rightarrow> nat" where
  "utf16_size rd (a # b # s) = ffutf8_size (rd a b) + utf16_size rd s"
| "utf16_size rd s = 0"

text \<open>
  Result: the bytes written, the returned number and the bytes consumed. \<open>cap = None\<close> is a null
  destination, for which only the size is computed.
\<close>

definition ffutf8_from_utf16 :: "(u8 \<Rightarrow> u8 \<Rightarrow> u32) \<Rightarrow> nat option \<Rightarrow> bytes \<Rightarrow> bool \<Rightarrow> bytes \<times> nat \<times> nat" where
  "ffutf8_from_utf16 rd cap src whole =
     (let len = length src; odd = (len mod 2 \<noteq> 0 \<and> whole) in
      case cap of
        None \<Rightarrow>
          (let idst = utf16_size rd src; i = len div 2 * 2 in
           if odd then ([], idst + 3, len) else ([], idst, i))
      | Some cap \<Rightarrow>
          (let (out, i, stop) = utf16_loop rd cap src in
           if stop then (out, length out, i)
           else if odd then
             (let e = ffutf8_encode1 (cap - length out) U_REPL in
              if e \<noteq> [] then (out @ e, length out + 3, len) else (out, length out, i))
           else (out, length out, i)))"

definition ffutf8_from_utf16le :: "nat option \<Rightarrow> bytes \<Rightarrow> bool \<Rightarrow> bytes \<times> nat \<times> nat" where
  "ffutf8_from_utf16le cap src whole = ffutf8_from_utf16 ffint_ltoh16 cap src whole"

definition ffutf8_from_utf16be :: "nat option \<Rightarrow> bytes \<Rightarrow> bool \<Rightarrow> bytes \<times> nat \<times> nat" where
  "ffutf8_from_utf16be cap src whole = ffutf8_from_utf16 ffint_ntoh16 cap src whole"

text \<open>The code points of the characters 0x80 to 0xff.\<close>

definition cod_win1251 :: "u32 list" where
  "cod_win1251 =
    [0x0402, 0x0403, 0x201A, 0x0453, 0x201E, 0x2026, 0x2020, 0x2021, 0x20AC, 0x2030, 0x0409, 0x2039, 0x040A, 0x040C, 0x040B, 0x040F,
     0x0452, 0x2018, 0x2019, 0x201C, 0x201D, 0x2022, 0x2013, 0x2014, 0xFFFD, 0x2122, 0x0459, 0x203A, 0x045A, 0x045C, 0x045B, 0x045F,
     0x00A0, 0x040E, 0x045E, 0x0408, 0x00A4, 0x0490, 0x00A6, 0x00A7, 0x0401, 0x00A9, 0x0404, 0x00AB, 0x00AC, 0x00AD, 0x00AE, 0x0407,
     0x00B0, 0x00B1, 0x0406, 0x0456, 0x0491, 0x00B5, 0x00B6, 0x00B7, 0x0451, 0x2116, 0x0454, 0x00BB, 0x0458, 0x0405, 0x0455, 0x0457]
    @ map (\<lambda>i. of_nat (0x0410 + i)) [0..<64]"

definition cod_win1252 :: "u32 list" where
  "cod_win1252 =
    [0x20AC, 0xFFFD, 0x201A, 0x0192, 0x201E, 0x2026, 0x2020, 0x2021, 0x02C6, 0x2030, 0x0160, 0x2039, 0x0152, 0xFFFD, 0x017D, 0xFFFD,
     0xFFFD, 0x2018, 0x2019, 0x201C, 0x201D, 0x2022, 0x2013, 0x2014, 0x02DC, 0x2122, 0x0161, 0x203A, 0x0153, 0xFFFD, 0x017E, 0x0178]
    @ map (\<lambda>i. of_nat (0x00A0 + i)) [0..<96]"

fun ascii_loop :: "u32 list \<Rightarrow> nat \<Rightarrow> bytes \<Rightarrow> bytes \<times> nat" where
  "ascii_loop cod room [] = ([], 0)"
| "ascii_loop cod room (c # s) =
     (if 0 < room then
        (let e = (if c AND 0x80 \<noteq> 0 then ffutf8_encode1 room (cod ! unat (c AND 0x7f)) else [c]) in
         if e = [] then ([], 0)
         else let (out, i) = ascii_loop cod (room - length e) s in (e @ out, i + 1))
      else ([], 0))"

definition ffutf8_from_ascii :: "nat option \<Rightarrow> bytes \<Rightarrow> coding \<Rightarrow> bytes \<times> nat \<times> nat" where
  "ffutf8_from_ascii cap src coding =
     (let cod = (if coding = FFU_WIN1251 then cod_win1251 else cod_win1252) in
      case cap of
        None \<Rightarrow> ([], sum_list (map (\<lambda>c. if c AND 0x80 \<noteq> 0 then ffutf8_size (cod ! unat (c AND 0x7f)) else 1) src),
                 length src)
      | Some cap \<Rightarrow> (let (out, i) = ascii_loop cod cap src in (out, length out, i)))"

definition ffutf8_encode :: "nat option \<Rightarrow> bytes \<Rightarrow> coding \<Rightarrow> bool \<Rightarrow> bytes \<times> nat \<times> nat" where
  "ffutf8_encode cap src coding whole =
     (case coding of
        FFU_UTF8 \<Rightarrow>
          (case cap of None \<Rightarrow> ([], length src, length src)
           | Some cap \<Rightarrow> let len = min cap (length src) in (take len src, len, len))
      | FFU_UTF16LE \<Rightarrow> ffutf8_from_utf16le cap src whole
      | FFU_UTF16BE \<Rightarrow> ffutf8_from_utf16be cap src whole
      | _ \<Rightarrow> ffutf8_from_ascii cap src coding)"

definition ffutf8_encodewhole :: "nat option \<Rightarrow> bytes \<Rightarrow> coding \<Rightarrow> bytes \<times> nat" where
  "ffutf8_encodewhole cap src coding =
     (let (out, r, ln) = ffutf8_encode cap src coding True in
      if ln \<noteq> length src then (out, 0) else (out, r))"

text \<open>
  The text is allocated with the size that the first pass computes; \<open>realloc\<close> gives the
  capacity, or \<open>None\<close> when it fails. The result is the string and the returned length.
\<close>

definition ffutf8_strencode :: "(nat \<Rightarrow> nat option) \<Rightarrow> bytes \<Rightarrow> coding \<Rightarrow> bytes \<times> nat" where
  "ffutf8_strencode realloc src coding =
     (let (_, r) = ffutf8_encodewhole None src coding in
      case realloc r of None \<Rightarrow> ([], 0)
      | Some cap \<Rightarrow> ffutf8_encodewhole (Some cap) src coding)"

section \<open>To UTF-16\<close>

definition ffutf16_basic :: "u32 \<Rightarrow> bool" where
  "ffutf16_basic ch = (ch AND 0xf800 \<noteq> 0xd800)"

definition ffutf16_highsurr :: "u32 \<Rightarrow> bool" where
  "ffutf16_highsurr ch = (ch AND 0xfc00 = 0xd800)"

definition ffutf16_suppl :: "u32 \<Rightarrow> u32 \<Rightarrow> u32" where
  "ffutf16_suppl hi lo = 0x10000 + push_bit 10 (hi - 0xd800) + (lo - 0xdc00)"

text \<open>
  The bytes written (big-endian units), whatever the capacity of the destination is: the code
  does not look at it. \<open>None\<close> is \<open>return 0\<close>.
\<close>

function to_utf16_loop :: "bytes \<Rightarrow> bytes option" where
  "to_utf16_loop d =
     (if d = [] then Some []
      else let (r, val) = ffutf8_decode1 d in
        if r \<le> 0 then None
        else case val of None \<Rightarrow> None
        | Some n \<Rightarrow>
          if \<not> ffutf16_basic n \<or> n > 0xffff then None
          else map_option (\<lambda>t. [ucast (drop_bit 8 n), ucast n] @ t) (to_utf16_loop (drop (nat r) d)))"
  by pat_completeness auto
termination by (relation "measure length") auto

declare to_utf16_loop.simps [simp del]

definition ffutf8_to_utf16 :: "nat option \<Rightarrow> bytes \<Rightarrow> bool \<Rightarrow> bytes \<times> nat" where
  "ffutf8_to_utf16 cap src whole_be =
     (if \<not> whole_be then ([], 0)
      else case to_utf16_loop src of None \<Rightarrow> ([], 0)
        | Some out \<Rightarrow> (if cap = None then ([], length out) else (out, length out)))"

text \<open>The units compared as \<open>short\<close> (little-endian host).\<close>

fun ffutf16_findc :: "bytes \<Rightarrow> int \<Rightarrow> int" where
  "ffutf16_findc (a # b # s) ch =
     (if sint (ucast (ffint_ltoh16 a b) :: u16) = ch then 0
      else let r = ffutf16_findc s ch in if r = -1 then -1 else r + 2)"
| "ffutf16_findc s ch = -1"

section \<open>One character: the bits\<close>

text \<open>The number of the leading one bits of a byte, and one for a byte without.\<close>

lemma bit_lead: "bit (NOT (push_bit 24 (ucast (c :: u8))) AND push_bit k (mask (32 - k)) :: u32) j \<longleftrightarrow>
    k \<le> j \<and> j < 32 \<and> (24 \<le> j \<longrightarrow> \<not> bit c (j - 24))" if "k \<le> 32"
  using that by (auto simp: bit_simps dest: bit_u8_lt)

lemma lead_masks: "(0xfe000000 :: u32) = push_bit 25 (mask (32 - 25))" "(0xff000000 :: u32) = push_bit 24 (mask (32 - 24))"
  by (simp_all add: mask_eq_exp_minus_1)

definition lead_len :: "u8 \<Rightarrow> nat" where
  "lead_len c =
     (if \<not> bit c 7 then 1 else if \<not> bit c 6 then 2 else if \<not> bit c 5 then 3 else if \<not> bit c 4 then 4
      else if \<not> bit c 3 then 5 else if \<not> bit c 2 then 6 else if \<not> bit c 1 then 7 else 0)"

lemma find32_lead: "ffbit_find32 (NOT (push_bit 24 (ucast c)) AND 0xfe000000) = lead_len c"
proof -
  define x :: u32 where "x = NOT (push_bit 24 (ucast c)) AND 0xfe000000"
  have b: "bit x j \<longleftrightarrow> 25 \<le> j \<and> j < 32 \<and> (24 \<le> j \<longrightarrow> \<not> bit c (j - 24))" for j
    unfolding x_def lead_masks by (rule bit_lead) simp
  have up: "rev [0..<32] = [31, 30, 29, 28, 27, 26, 25] @ rev [0..<25]" by (simp add: upt_rec)
  have "List.find (bit x) (rev [0..<25]) = None" by (auto simp: find_None b)
  then have "ffbit_find32 x = lead_len c"
    unfolding ffbit_find32_def bit_scan_reverse_def len_of_numeral_defs
    by (simp add: up lead_len_def b)
  then show ?thesis by (simp only: x_def)
qed

lemma u32_consts: "(0x80 :: u32) = ff_bit 7" "(0xc0 :: u32) = ff_bit 6 OR ff_bit 7"
  by (simp_all add: ff_bit_def)

definition cont_byte :: "u32 \<Rightarrow> u8" where
  "cont_byte x = ucast (0x80 OR (x AND NOT 0xc0))"

lemma cont_byte:
  "ucast (cont_byte x) AND 0xc0 = (0x80 :: u32)"
  "ucast (cont_byte x) AND NOT 0xc0 = take_bit 6 x"
  by (rule bit_word_eqI; auto simp: cont_byte_def u32_consts bit_simps)+

lemma cont_byte_neg: "ucast (cont_byte x) AND - 193 = (take_bit 6 x :: u32)"
  using cont_byte(2) [of x] by simp

text \<open>The character without its last \<open>n\<close> groups of six bits, and one group put back.\<close>

lemma group_back: "push_bit 6 (drop_bit (k + 6) u) OR take_bit 6 (drop_bit k u) = (drop_bit k u :: 'a::len word)"
  by (rule bit_word_eqI) (auto simp: bit_simps)

lemma cont_loop_bytes:
  fixes u :: u32
  assumes "LENGTH(32) \<le> LENGTH('a::len)"
  shows "cont_loop (map (\<lambda>k. cont_byte (drop_bit (6 * k) u)) (rev [0..<n]) @ rest) n
    (ucast (drop_bit (6 * n) u)) = Some (ucast u :: 'a word)"
proof (induction n)
  case (Suc n)
  have "push_bit 6 (ucast (drop_bit (6 * Suc n) u)) OR ucast (take_bit 6 (drop_bit (6 * n) u))
      = (ucast (drop_bit (6 * n) u) :: 'a word)"
    using assms by (intro bit_word_eqI) (auto simp: bit_simps ac_simps dest: bit_imp_le_length)
  with Suc show ?case by (simp add: cont_byte(1) cont_byte_neg Let_def del: mult_Suc_right)
qed simp

text \<open>The first byte of a sequence of \<open>n\<close> bytes: \<open>n\<close> ones, a zero and the payload.\<close>

definition first_byte :: "nat \<Rightarrow> u32 \<Rightarrow> u8" where
  "first_byte n u = ucast (push_bit (8 - n) (mask n) OR drop_bit (6 * (n - 1)) u)"

lemma high_bits: "u < 2 ^ m \<Longrightarrow> m < 32 \<Longrightarrow> m \<le> j \<Longrightarrow> \<not> bit (u :: u32) j"
proof -
  assume "u < 2 ^ m" "m < 32" "m \<le> j"
  then have "u AND mask m = u" by (intro less_mask_eq)
  then have "take_bit m u = u" by (simp add: take_bit_eq_mask)
  then show "\<not> bit u j" using \<open>m \<le> j\<close> by (metis bit_take_bit_iff not_le)
qed

lemma first_byte:
  assumes n: "n \<in> {2, 3, 4, 5, 6}" and "u < 2 ^ (5 * n + 1)"
  shows "bit (first_byte n u) j \<longleftrightarrow> j < 8 \<and> (8 - n \<le> j \<or> bit u (6 * (n - 1) + j))"
    and "j < 8 \<Longrightarrow> 7 - n \<le> j \<Longrightarrow> \<not> bit u (6 * (n - 1) + j)"
proof -
  show "j < 8 \<Longrightarrow> 7 - n \<le> j \<Longrightarrow> \<not> bit u (6 * (n - 1) + j)"
    by (rule high_bits [OF assms(2)]) (use n in auto)
  show "bit (first_byte n u) j \<longleftrightarrow> j < 8 \<and> (8 - n \<le> j \<or> bit u (6 * (n - 1) + j))"
    using n by (auto simp: first_byte_def bit_simps)
qed

lemma size_range:
  "ffutf8_size u = 1 \<Longrightarrow> u < 0x80" "ffutf8_size u \<le> 6" "0 < ffutf8_size u \<longleftrightarrow> u < 2 ^ 31"
  "ffutf8_size u \<in> {2, 3, 4, 5, 6} \<Longrightarrow> u < 2 ^ (5 * ffutf8_size u + 1)"
  by (auto simp: ffutf8_size_def word_less_nat_alt split: if_splits)

text \<open>The bytes of a sequence of \<open>n\<close> bytes in one formula.\<close>

lemma encode1_bytes:
  assumes "ffutf8_size u \<le> cap" and "0 < ffutf8_size u"
  shows "ffutf8_encode1 cap u = (if u < 0x80 then [ucast u]
    else let n = ffutf8_size u in first_byte n u # map (\<lambda>k. cont_byte (drop_bit (6 * k) u)) (rev [0..<n - 1]))"
proof -
  define n where "n = ffutf8_size u"
  have m: "mask 2 = (3 :: u32)" "mask 3 = (7 :: u32)" "mask 4 = (15 :: u32)" "mask 5 = (31 :: u32)" "mask 6 = (63 :: u32)"
    by (simp_all add: mask_eq_exp_minus_1)
  consider "n = 1" "u < 0x80" | "n = 2" "\<not> u < 0x80" | "n = 3" "\<not> u < 0x80" | "n = 4" "\<not> u < 0x80"
    | "n = 5" "\<not> u < 0x80" | "n = 6" "\<not> u < 0x80"
    using assms(2) unfolding n_def by (auto simp: ffutf8_size_def split: if_splits)
  then show ?thesis
    using assms(1) unfolding ffutf8_encode1_def Let_def n_def [symmetric]
    by cases (simp_all add: first_byte_def cont_byte_def m upt_rec)
qed

lemma length_encode1: "ffutf8_size u \<le> cap \<Longrightarrow> length (ffutf8_encode1 cap u) = ffutf8_size u"
  by (cases "0 < ffutf8_size u") (auto simp: encode1_bytes Let_def ffutf8_size_def [of u] ffutf8_encode1_def)

lemma lead_first_byte:
  assumes n: "n \<in> {2, 3, 4, 5, 6}" and u: "u < 2 ^ (5 * n + 1)"
  shows "lead_len (first_byte n u) = n + 1"
    and "ucast (first_byte n u) AND 0x80 \<noteq> (0 :: u32)"
    and "ucast (first_byte n u) AND of_nat (utf8_b1masks ! (n - 2)) = (drop_bit (6 * (n - 1)) u :: u32)"
proof -
  note b = first_byte [OF assms]
  show "lead_len (first_byte n u) = n + 1"
  proof -
    have "bit (first_byte n u) j \<longleftrightarrow> 8 - n \<le> j" if "7 - n \<le> j" "j < 8" for j
      using b that by auto
    note B = this [of 1] this [of 2] this [of 3] this [of 4] this [of 5] this [of 6] this [of 7]
    show ?thesis using n B by (elim insertE emptyE) (simp_all add: lead_len_def)
  qed
  show "ucast (first_byte n u) AND 0x80 \<noteq> (0 :: u32)"
    unfolding u32_consts and_ff_bit_eq_0 using n by (auto simp: bit_simps b(1))
  have m: "of_nat (utf8_b1masks ! (n - 2)) = (mask (7 - n) :: u32)"
    using n by (auto simp: utf8_b1masks_def mask_eq_exp_minus_1)
  have "bit (ucast (first_byte n u) AND (mask (7 - n)) :: u32) j \<longleftrightarrow> bit (drop_bit (6 * (n - 1)) u) j" for j
  proof (cases "j < 7 - n")
    case True
    then show ?thesis using n by (auto simp: bit_simps b(1))
  next
    case False
    have "\<not> bit u (6 * (n - 1) + j)"
      using high_bits [OF u, of "6 * (n - 1) + j"] n False by auto
    with False show ?thesis by (auto simp: bit_simps)
  qed
  then show "ucast (first_byte n u) AND of_nat (utf8_b1masks ! (n - 2)) = (drop_bit (6 * (n - 1)) u :: u32)"
    unfolding m by (intro bit_word_eqI)
qed

lemma decode1_encode1:
  assumes "u < 2 ^ 31" and "ffutf8_size u \<le> cap"
  shows "ffutf8_decode1 (ffutf8_encode1 cap u @ rest) = (int (ffutf8_size u), Some u)"
proof (cases "u < 0x80")
  case True
  then have h: "7 \<le> j \<Longrightarrow> \<not> bit u j" for j using high_bits [of u 7] by simp
  have "ucast (ucast u :: u8) = u"
  proof (rule bit_word_eqI)
    fix j
    show "bit (ucast (ucast u :: u8) :: u32) j = bit u j" if "j < LENGTH(32)"
      using h [of j] that by (cases "j < 8") (simp_all add: bit_simps)
  qed
  moreover have "u AND (0x80 :: u32) = 0"
    unfolding u32_consts and_ff_bit_eq_0 using h by auto
  ultimately show ?thesis using True assms
    by (simp add: encode1_bytes ffutf8_size_def ffutf8_decode1_def Let_def)
next
  case False
  define n where "n = ffutf8_size u"
  have n: "n \<in> {2, 3, 4, 5, 6}" using False assms(1) unfolding n_def
    by (auto simp: ffutf8_size_def)
  then have u: "u < 2 ^ (5 * n + 1)" unfolding n_def by (rule size_range(4))
  let ?t = "map (\<lambda>k. cont_byte (drop_bit (6 * k) u)) (rev [0..<n - 1])"
  have e: "ffutf8_encode1 cap u = first_byte n u # ?t"
    using encode1_bytes [OF assms(2)] False n by (auto simp: n_def Let_def)
  have "cont_loop (?t @ rest) (n - 1) (drop_bit (6 * (n - 1)) u) = Some u"
    using cont_loop_bytes [where ?'a = 32, of u "n - 1" rest] by simp
  then show ?thesis
    using lead_first_byte [OF n u] n e
    by (auto simp: ffutf8_decode1_def find32_lead Let_def n_def [symmetric])
qed

section \<open>Streams of characters\<close>

text \<open>The reader as a partial function: a value only for a complete, valid sequence.\<close>

definition utf8_read :: "bytes \<Rightarrow> (nat \<times> u32) option" where
  "utf8_read s = (case ffutf8_decode1 s of (r, Some v) \<Rightarrow> if 0 < r then Some (nat r, v) else None | _ \<Rightarrow> None)"

definition utf8_write :: "u32 \<Rightarrow> bytes" where
  "utf8_write u = ffutf8_encode1 6 u"

lemma decode1_write: "u < 2 ^ 31 \<Longrightarrow> ffutf8_decode1 (utf8_write u @ rest) = (int (ffutf8_size u), Some u)"
  unfolding utf8_write_def by (rule decode1_encode1) (auto simp: size_range(2))

lemma length_write [simp]: "length (utf8_write u) = ffutf8_size u"
  by (simp add: utf8_write_def length_encode1 size_range(2))

lemma encode1_write: "ffutf8_size u \<le> cap \<Longrightarrow> ffutf8_encode1 cap u = utf8_write u"
  using size_range(2) [of u] by (simp add: utf8_write_def ffutf8_encode1_def Let_def not_less)

interpretation utf8: stream_codec utf8_write utf8_read "\<lambda>u. u < 2 ^ 31"
proof unfold_locales
  fix u :: u32 and rest
  assume u: "u < 2 ^ 31"
  then have "0 < ffutf8_size u" using size_range(3) by blast
  then show "utf8_read (utf8_write u @ rest) = Some (length (utf8_write u), u)"
    by (simp add: utf8_read_def decode1_write [OF u])
  show "utf8_write u \<noteq> []" using \<open>0 < ffutf8_size u\<close> length_write [of u] by (metis length_greater_0_conv)
qed

lemma valid_write: "\<forall>u \<in> set us. u < 2 ^ 31 \<Longrightarrow> ffutf8_valid (concat (map utf8_write us))"
proof (induction us)
  case Nil
  then show ?case by (simp add: ffutf8_valid.simps)
next
  case (Cons u us)
  then have u: "u < 2 ^ 31" by simp
  then have "utf8_write u \<noteq> []" "0 < ffutf8_size u" using utf8.enc_Nil size_range(3) by blast+
  then show ?case
    using Cons decode1_write [OF u, of "concat (map utf8_write us)"]
    by (subst ffutf8_valid.simps) simp
qed

lemma len_write: "\<forall>u \<in> set us. u < 2 ^ 31 \<Longrightarrow> ffutf8_len (concat (map utf8_write us)) = length us"
proof (induction us)
  case Nil
  then show ?case by (simp add: ffutf8_len.simps)
next
  case (Cons u us)
  then have u: "u < 2 ^ 31" by simp
  define n where "n = ffutf8_size u"
  have n: "0 < n" "n \<le> 6" using u size_range(2,3) unfolding n_def by blast+
  have w: "utf8_write u = (if u < 0x80 then [ucast u]
      else first_byte n u # map (\<lambda>k. cont_byte (drop_bit (6 * k) u)) (rev [0..<n - 1]))"
    unfolding utf8_write_def n_def using encode1_bytes [of u 6] n by (simp add: n_def Let_def)
  show ?case
  proof (cases "u < 0x80")
    case True
    then have "n = 1" by (simp add: n_def ffutf8_size_def)
    have "bit (ucast u :: u8) 7 = False" using True high_bits [of u 7 7] by (simp add: bit_simps)
    then have "ucast (ucast u :: u8) AND 0x80 = (0 :: u32)"
      unfolding u32_consts and_ff_bit_eq_0 by (simp add: bit_simps)
    with Cons True w show ?thesis by (subst ffutf8_len.simps) (simp add: Let_def)
  next
    case False
    then have "n \<noteq> 1" using size_range(1) unfolding n_def by blast
    with n have "n = 2 \<or> n = 3 \<or> n = 4 \<or> n = 5 \<or> n = 6" by presburger
    then have n': "n \<in> {2, 3, 4, 5, 6}" by blast
    then have "u < 2 ^ (5 * n + 1)" unfolding n_def by (rule size_range(4))
    note f = lead_first_byte [OF n' this]
    let ?s = "concat (map utf8_write (u # us))"
    have "hd ?s = first_byte n u" "?s \<noteq> []" using w False by simp_all
    moreover have "drop n ?s = concat (map utf8_write us)" using length_write [of u] by (simp add: n_def)
    ultimately have "ffutf8_len ?s = Suc (ffutf8_len (concat (map utf8_write us)))"
      using f n' by (subst ffutf8_len.simps) (auto simp: find32_lead Let_def simp del: concat.simps list.map)
    with Cons show ?thesis by simp
  qed
qed

section \<open>Conversions: meaning\<close>

fun units :: "(u8 \<Rightarrow> u8 \<Rightarrow> u32) \<Rightarrow> bytes \<Rightarrow> u32 list" where
  "units rd (a # b # s) = rd a b # units rd s"
| "units rd s = []"

lemma bits_less: "(\<And>j. m \<le> j \<Longrightarrow> \<not> bit u j) \<Longrightarrow> m < 32 \<Longrightarrow> (u :: u32) < 2 ^ m"
proof -
  assume *: "\<And>j. m \<le> j \<Longrightarrow> \<not> bit u j" and m: "m < 32"
  have "bit u j = bit (u AND mask m) j" for j
    using *[of j] by (cases "m \<le> j") (auto simp: bit_simps dest: bit_imp_le_length)
  then have "u = u AND mask m" by (intro bit_word_eqI)
  moreover have "u AND mask m < 2 ^ m" using m by (intro and_mask_less') simp
  ultimately show "u < 2 ^ m" by simp
qed

lemma unit_less: "ffint_ltoh16 a b < 2 ^ 16" "ffint_ntoh16 a b < 2 ^ 16"
  by (rule bits_less; auto simp: ffint_ltoh16_def ffint_ntoh16_def bit_simps dest: bit_u8_lt)+

lemma cod_less: "u \<in> set cod_win1251 \<union> set cod_win1252 \<Longrightarrow> u < 2 ^ 16" "length cod_win1251 = 128" "length cod_win1252 = 128"
proof -
  have n: "(of_nat (k + i) :: u32) < 2 ^ 16" if "k + i < 2 ^ 16" for k i
  proof -
    define m where "m = k + i"
    have "m < 2 ^ 16" using that by (simp add: m_def)
    then have "(of_nat m :: u32) < 2 ^ 16" by (simp add: word_less_nat_alt unat_of_nat_small)
    then show ?thesis by (simp only: m_def)
  qed
  have "u \<in> set cod_win1251 \<Longrightarrow> u < 2 ^ 16"
    unfolding cod_win1251_def set_append Un_iff set_map
    by (elim disjE imageE) (use n [of "0x410"] in \<open>auto simp del: of_nat_add\<close>)
  moreover have "u \<in> set cod_win1252 \<Longrightarrow> u < 2 ^ 16"
    unfolding cod_win1252_def set_append Un_iff set_map
    by (elim disjE imageE) (use n [of "0xa0"] in \<open>auto simp del: of_nat_add\<close>)
  ultimately show "u \<in> set cod_win1251 \<union> set cod_win1252 \<Longrightarrow> u < 2 ^ 16" by blast
qed (simp_all add: cod_win1251_def cod_win1252_def)

lemma unit_size: "u < 2 ^ 16 \<Longrightarrow> 0 < ffutf8_size u \<and> u < 2 ^ 31"
  using size_range(3) [of u] by (auto simp: word_less_nat_alt)

text \<open>What a conversion of single-byte characters writes for one of them.\<close>

definition ascii_unit :: "u32 list \<Rightarrow> u8 \<Rightarrow> u32" where
  "ascii_unit cod c = (if c AND 0x80 \<noteq> 0 then cod ! unat (c AND 0x7f) else ucast c)"

lemma utf16_loop_all:
  assumes rd: "\<And>a b. rd a b < 2 ^ 16"
  shows "length (concat (map utf8_write (units rd s))) \<le> room \<Longrightarrow>
    utf16_loop rd room s = (concat (map utf8_write (units rd s)), length s div 2 * 2, False)"
  using rd
proof (induction rd room s rule: utf16_loop.induct [case_names step e1 e2])
  case (step rd room a b s)
  have u: "0 < ffutf8_size (rd a b)" using unit_size step.prems(2) by blast
  then have fit: "ffutf8_encode1 room (rd a b) = utf8_write (rd a b)" "0 < room"
    using step.prems(1) by (auto simp: encode1_write)
  moreover have ne: "utf8_write (rd a b) \<noteq> []" using u length_write [of "rd a b"] by (metis length_greater_0_conv)
  moreover have "utf16_loop rd (room - length (utf8_write (rd a b))) s =
      (concat (map utf8_write (units rd s)), length s div 2 * 2, False)"
    using step.IH [OF fit(2) refl] fit(1) ne step.prems by simp
  ultimately show ?case by simp
qed simp_all

lemma utf16_size_length: "utf16_size rd s = length (concat (map utf8_write (units rd s)))"
  by (induction rd s rule: utf16_size.induct) simp_all

lemma utf16_two_pass:
  assumes rd: "\<And>a b. rd a b < 2 ^ 16"
    and r: "ffutf8_from_utf16 rd None src whole = ([], n, len)" and "n \<le> cap"
  shows "\<exists>out. ffutf8_from_utf16 rd (Some cap) src whole = (out, n, len) \<and> length out = n
    \<and> out = concat (map utf8_write (units rd src @ (if length src mod 2 \<noteq> 0 \<and> whole then [U_REPL] else [])))"
proof -
  have rs: "ffutf8_size U_REPL = 3" by (simp add: ffutf8_size_def U_REPL_def)
  have "utf16_size rd src \<le> cap" using r assms(3) by (auto simp: ffutf8_from_utf16_def Let_def split: if_splits)
  note loop = utf16_loop_all [where rd = rd and s = src and room = cap, OF rd this [unfolded utf16_size_length]]
  have e: "ffutf8_encode1 (cap - utf16_size rd src) U_REPL = utf8_write U_REPL" "utf8_write U_REPL \<noteq> []"
    if "length src mod 2 \<noteq> 0 \<and> whole"
  proof -
    have "utf16_size rd src + 3 \<le> cap" using r assms(3) that by (auto simp: ffutf8_from_utf16_def Let_def)
    then show "ffutf8_encode1 (cap - utf16_size rd src) U_REPL = utf8_write U_REPL"
      by (intro encode1_write) (simp add: rs)
    show "utf8_write U_REPL \<noteq> []" using rs length_write [of U_REPL] by (metis length_0_conv num.distinct numeral_3_eq_3 nat.distinct(1))
  qed
  show ?thesis
  proof (cases "length src mod 2 \<noteq> 0 \<and> whole")
    case True
    with e loop r show ?thesis
      by (auto simp: ffutf8_from_utf16_def Let_def utf16_size_length rs)
  next
    case False
    with loop r show ?thesis
      by (auto simp: ffutf8_from_utf16_def Let_def utf16_size_length)
  qed
qed

lemma ascii_loop_all:
  assumes "cod = cod_win1251 \<or> cod = cod_win1252"
  shows "length (concat (map (utf8_write \<circ> ascii_unit cod) s)) \<le> room \<Longrightarrow>
    ascii_loop cod room s = (concat (map (utf8_write \<circ> ascii_unit cod) s), length s)"
  using assms
proof (induction cod room s rule: ascii_loop.induct [case_names nil step])
  case (step cod room c s)
  have "unat (c AND 0x7f) < 128"
  proof -
    have "c AND 0x7f \<le> 0x7f" by (rule word_and_le1)
    then show ?thesis by (simp add: word_le_nat_alt)
  qed
  then have "cod ! unat (c AND 0x7f) < 2 ^ 16"
    using step.prems(2) cod_less by (metis UnI1 UnI2 nth_mem)
  moreover have "ucast c < (2 ^ 16 :: u32)" by (rule bits_less) (auto simp: bit_simps dest: bit_u8_lt)
  ultimately have u: "ascii_unit cod c < 2 ^ 16" by (simp add: ascii_unit_def)
  have one: "ffutf8_encode1 room (cod ! unat (c AND 0x7f)) = utf8_write (cod ! unat (c AND 0x7f))" if "c AND 0x80 \<noteq> 0"
    using step.prems(1) that by (intro encode1_write) (simp add: ascii_unit_def)
  have lit: "[c] = utf8_write (ascii_unit cod c)" if "c AND 0x80 = 0"
  proof -
    have "(0x80 :: u8) = ff_bit 7" by (simp add: ff_bit_def)
    then have "\<not> bit c 7" using that and_ff_bit_eq_0 [of c 7] by simp
    then have "\<not> bit c j" if "7 \<le> j" for j using that bit_u8_ge [of j c] by (cases "j = 7") auto
    then have "ucast c < (2 ^ 7 :: u32)" by (intro bits_less) (auto simp: bit_simps)
    moreover have "ucast (ucast c :: u32) = c" by (rule bit_word_eqI) (auto simp: bit_simps)
    ultimately show ?thesis
      using that encode1_bytes [of "ucast c" 6] by (simp add: utf8_write_def ascii_unit_def ffutf8_size_def)
  qed
  have e: "(if c AND 0x80 \<noteq> 0 then ffutf8_encode1 room (cod ! unat (c AND 0x7f)) else [c]) = utf8_write (ascii_unit cod c)"
    using one lit by (simp add: ascii_unit_def)
  have ne: "utf8_write (ascii_unit cod c) \<noteq> []"
    using unit_size [OF u] length_write [of "ascii_unit cod c"] by (metis length_greater_0_conv)
  then have "0 < room" using step.prems(1) unit_size [OF u] by simp
  note IH = step.IH [OF this refl, unfolded e, OF ne _ step.prems(2)]
  have "ascii_loop cod (room - length (utf8_write (ascii_unit cod c))) s
      = (concat (map (utf8_write \<circ> ascii_unit cod) s), length s)"
    by (rule IH) (use step.prems(1) in simp)
  with \<open>0 < room\<close> ne e show ?case by (simp del: o_apply) simp
qed simp

lemma decode1_partial:
  assumes "u < 2 ^ 31" and "0 < k" and "k < ffutf8_size u"
  shows "ffutf8_decode1 (take k (utf8_write u)) = (- int (ffutf8_size u), None)"
proof -
  define n where "n = ffutf8_size u"
  have "n \<le> 6" "0 < n" using assms(1) size_range(2,3) unfolding n_def by blast+
  then have "n = 2 \<or> n = 3 \<or> n = 4 \<or> n = 5 \<or> n = 6" using assms(2,3) unfolding n_def [symmetric] by linarith
  then have n': "n \<in> {2, 3, 4, 5, 6}" by blast
  then have u: "u < 2 ^ (5 * n + 1)" unfolding n_def by (rule size_range(4))
  have "\<not> u < 0x80" using n' unfolding n_def by (auto simp: ffutf8_size_def)
  then have w: "utf8_write u = first_byte n u # map (\<lambda>k. cont_byte (drop_bit (6 * k) u)) (rev [0..<n - 1])"
    using encode1_bytes [of u 6] \<open>0 < n\<close> \<open>n \<le> 6\<close> by (simp add: utf8_write_def n_def Let_def)
  have "hd (take k (utf8_write u)) = first_byte n u" using assms(2) w by (cases k) auto
  moreover have "length (take k (utf8_write u)) = k" using assms(3) by simp
  moreover have "ucast (first_byte n u) AND 0x80 \<noteq> (0 :: u32)" "lead_len (first_byte n u) = n + 1"
    using lead_first_byte [OF n' u] by blast+
  ultimately show ?thesis
    using n' assms(3) by (auto simp: ffutf8_decode1_def find32_lead Let_def n_def [symmetric])
qed

text \<open>The sizes of the first pass are those of the second.\<close>

lemma strencode_two_pass:
  assumes "ffutf8_encodewhole None src coding = ([], n)" and "n \<le> cap"
  shows "\<exists>out. ffutf8_encodewhole (Some cap) src coding = (out, n) \<and> length out = n"
proof -
  have ascii: "\<exists>out. ffutf8_from_ascii (Some cap) src cd = (out, n, length src) \<and> length out = n"
    if "ffutf8_from_ascii None src cd = ([], n, length src)" for cd
  proof -
    define cod where "cod = (if cd = FFU_WIN1251 then cod_win1251 else cod_win1252)"
    have "ffutf8_size (ucast c) = 1" if "c AND 0x80 = 0" for c :: u8
    proof -
      have "(0x80 :: u8) = ff_bit 7" by (simp add: ff_bit_def)
      then have "\<not> bit c 7" using that and_ff_bit_eq_0 [of c 7] by simp
      then have "\<not> bit c j" if "7 \<le> j" for j using that bit_u8_ge [of j c] by (cases "j = 7") auto
      then have "ucast c < (2 ^ 7 :: u32)" by (intro bits_less) (auto simp: bit_simps)
      then show ?thesis by (simp add: ffutf8_size_def)
    qed
    then have "n = length (concat (map (utf8_write \<circ> ascii_unit cod) src))"
      using that by (simp add: ffutf8_from_ascii_def cod_def [symmetric] Let_def length_concat o_def ascii_unit_def if_distrib cong: if_cong map_cong)
        (auto intro!: arg_cong [where f = sum_list] map_cong)
    moreover have "cod = cod_win1251 \<or> cod = cod_win1252" by (simp add: cod_def)
    ultimately show ?thesis
      using ascii_loop_all [of cod src cap] assms(2)
      by (simp add: ffutf8_from_ascii_def cod_def [symmetric] Let_def)
  qed
  have utf16: "\<exists>out. ffutf8_from_utf16 rd (Some cap) src True = (out, n, length src) \<and> length out = n"
    if "ffutf8_from_utf16 rd None src True = ([], n, length src)" "\<And>a b. rd a b < 2 ^ 16" for rd
    using utf16_two_pass [OF that(2) that(1) assms(2)] by blast
  have len: "snd (snd (ffutf8_from_utf16 rd None src True)) = length src"
    "fst (ffutf8_from_utf16 rd None src True) = []" for rd
    by (auto simp: ffutf8_from_utf16_def Let_def)
  show ?thesis
  proof (cases coding)
    case FFU_UTF8
    with assms show ?thesis by (auto simp: ffutf8_encodewhole_def ffutf8_encode_def Let_def)
  next
    case FFU_UTF16LE
    with assms(1) len [of ffint_ltoh16] have "ffutf8_from_utf16 ffint_ltoh16 None src True = ([], n, length src)"
      by (auto simp: ffutf8_encodewhole_def ffutf8_encode_def ffutf8_from_utf16le_def split: prod.splits if_splits)
    from utf16 [OF this unit_less(1)] FFU_UTF16LE show ?thesis
      by (auto simp: ffutf8_encodewhole_def ffutf8_encode_def ffutf8_from_utf16le_def)
  next
    case FFU_UTF16BE
    with assms(1) len [of ffint_ntoh16] have "ffutf8_from_utf16 ffint_ntoh16 None src True = ([], n, length src)"
      by (auto simp: ffutf8_encodewhole_def ffutf8_encode_def ffutf8_from_utf16be_def split: prod.splits if_splits)
    from utf16 [OF this unit_less(2)] FFU_UTF16BE show ?thesis
      by (auto simp: ffutf8_encodewhole_def ffutf8_encode_def ffutf8_from_utf16be_def)
  next
    case FFU_WIN1251
    with assms(1) ascii [of coding] show ?thesis
      by (auto simp: ffutf8_encodewhole_def ffutf8_encode_def ffutf8_from_ascii_def Let_def)
  next
    case FFU_WIN1252
    with assms(1) ascii [of coding] show ?thesis
      by (auto simp: ffutf8_encodewhole_def ffutf8_encode_def ffutf8_from_ascii_def Let_def)
  qed
qed

lemma to_utf16_units:
  "even (length s) \<Longrightarrow> \<forall>u \<in> set (units ffint_ntoh16 s). ffutf16_basic u \<Longrightarrow>
    to_utf16_loop (concat (map utf8_write (units ffint_ntoh16 s))) = Some s"
proof (induction ffint_ntoh16 s rule: units.induct [case_names step e1 e2])
  case (step a b s)
  let ?u = "ffint_ntoh16 a b"
  have u: "?u < 2 ^ 16" "?u < 2 ^ 31" using unit_less(2) unit_size by blast+
  then have ne: "utf8_write ?u \<noteq> []" "0 < ffutf8_size ?u" using utf8.enc_Nil unit_size by blast+
  have b: "ucast (drop_bit 8 ?u) = a" "ucast ?u = b" "\<not> ?u > 0xffff"
    using u(1) by (auto simp: ffint_ntoh16_def bit_simps word_less_nat_alt intro!: bit_word_eqI)
  show ?case
    using step.hyps step.prems ne b decode1_write [OF u(2), of "concat (map utf8_write (units ffint_ntoh16 s))"]
    by (subst to_utf16_loop.simps) simp
qed (auto simp: to_utf16_loop.simps)

section \<open>Properties\<close>

text \<open>
  C37: Characters below 2^31 written one after another are read back in order and in full; the
  text is valid, its length is the number of the characters, no character is a prefix of
  another's encoding, and a sequence that is cut off asks for its full length.
\<close>

theorem utf8_stream_roundtrip:
  assumes "\<forall>u \<in> set us. u < 2 ^ 31"
  shows "(let s = concat (map (ffutf8_encode1 6) us) in
      decode_list utf8_read (length s) s = Some us \<and> ffutf8_valid s \<and> ffutf8_len s = length us)
    \<and> (\<forall>u \<in> set us. \<forall>k rest.
        ffutf8_decode1 (ffutf8_encode1 6 u @ rest) = (int (ffutf8_size u), Some u)
        \<and> (0 < k \<and> k < ffutf8_size u \<longrightarrow>
            ffutf8_decode1 (take k (ffutf8_encode1 6 u)) = (- int (ffutf8_size u), None)))"
proof -
  have w: "ffutf8_encode1 6 = utf8_write" by (simp add: fun_eq_iff utf8_write_def)
  show ?thesis
    unfolding w Let_def
    using utf8.decode_list_concat [OF assms order_refl] valid_write [OF assms] len_write [OF assms]
      assms decode1_write decode1_partial by simp
qed

theorem utf8_stream_roundtrip_witness:
  "ffutf8_valid (ffutf8_encode1 6 0x20AC @ ffutf8_encode1 6 65)
    \<and> ffutf8_len (ffutf8_encode1 6 0x20AC @ ffutf8_encode1 6 65) = 2"
  using utf8_stream_roundtrip [of "[0x20AC, 65]"] by (simp add: Let_def)

text \<open>
  The two passes of ffutf8_strencode agree: for every coding, with a buffer of the size that
  the pass without a buffer computes the second pass converts the whole text and writes exactly
  that many bytes.
\<close>

theorem ffutf8_strencode_size:
  assumes "ffutf8_encodewhole None src coding = ([], n)" and "realloc n = Some cap" and "n \<le> cap"
  shows "\<exists>out. ffutf8_strencode realloc src coding = (out, n) \<and> length out = n"
  using strencode_two_pass [OF assms(1,3)] assms(1,2) by (simp add: ffutf8_strencode_def)

theorem ffutf8_strencode_size_witness:
  "\<exists>out. ffutf8_strencode Some [0x80, 0x41, 0xff] FFU_WIN1251 = (out, 5) \<and> length out = 5"
  by (rule ffutf8_strencode_size [where cap = 5]) code_simp+

text \<open>
  Big-endian UTF-16 text without surrogates survives the conversion to UTF-8 and back; the
  UTF-8 text between is valid.
\<close>

theorem utf16_utf8_roundtrip:
  assumes "even (length src)" and "\<forall>u \<in> set (units ffint_ntoh16 src). ffutf16_basic u"
    and "ffutf8_from_utf16be None src False = ([], n, len)" and "n \<le> cap"
  shows "\<exists>t. ffutf8_from_utf16be (Some cap) src False = (t, n, length src)
    \<and> ffutf8_valid t \<and> ffutf8_to_utf16 (Some (length src)) t True = (src, length src)"
proof -
  have len: "len = length src"
    using assms(1,3) by (auto simp: ffutf8_from_utf16be_def ffutf8_from_utf16_def Let_def)
  from utf16_two_pass [OF unit_less(2) assms(3) [unfolded ffutf8_from_utf16be_def] assms(4)]
  have t: "ffutf8_from_utf16be (Some cap) src False = (concat (map utf8_write (units ffint_ntoh16 src)), n, length src)"
    by (simp add: ffutf8_from_utf16be_def len)
  have "\<forall>u \<in> set (units ffint_ntoh16 src). u < 2 ^ 31"
    using unit_less(2) unit_size by (induction ffint_ntoh16 src rule: units.induct) auto
  from valid_write [OF this] t to_utf16_units [OF assms(1,2)] show ?thesis
    by (simp add: ffutf8_to_utf16_def)
qed

theorem utf16_utf8_roundtrip_witness:
  "\<exists>t. ffutf8_from_utf16be (Some 4) [0x20, 0xAC, 0, 65] False = (t, 4, length [0x20, 0xAC, 0, 65 :: u8])
    \<and> ffutf8_valid t
    \<and> ffutf8_to_utf16 (Some (length [0x20, 0xAC, 0, 65 :: u8])) t True
      = ([0x20, 0xAC, 0, 65], length [0x20, 0xAC, 0, 65 :: u8])"
proof (rule utf16_utf8_roundtrip)
  show "\<forall>u \<in> set (units ffint_ntoh16 [0x20, 0xAC, 0, 65]). ffutf16_basic u" by code_simp
  show "ffutf8_from_utf16be None [0x20, 0xAC, 0, 65] False = ([], 4, 4)" by code_simp
qed simp_all

text \<open>
  The names of the codings are searched by bisection in a table that is not sorted: the two
  names before utf16be are never found, and the conversion to UTF-16 writes two bytes for each
  character whatever the capacity of its destination.
\<close>

theorem ffu_coding_misses:
  "ffu_coding [117, 116, 102, 56] = -1 \<and> ffu_coding [117, 116, 102, 49, 54, 108, 101] = -1
    \<and> [117, 116, 102, 56] \<in> set codestr \<and> [117, 116, 102, 49, 54, 108, 101] \<in> set codestr"
  by code_simp

theorem to_utf16_ignores_capacity: "ffutf8_to_utf16 (Some 0) [65] True = ([0, 65], 2)"
  by code_simp

end
