(* ===== verification/FF_Proto.thy ===== *)
theory FF_Proto
  imports FF_StrNum FF_Utf8
begin

text \<open>
  Network addresses and headers: \<open>net/proto.h\<close> and \<open>net/ffproto.c\<close>. An address is the list of its bytes, text
  is read and written as bytes; a pointer into the text is the rest of it.
\<close>

unbundle bit_operations_syntax

section \<open>Ethernet addresses\<close>

definition FFETH_STRLEN :: nat where "FFETH_STRLEN = 17"

definition ffeth_iszero :: "bytes \<Rightarrow> bool" where
  "ffeth_iszero eth \<longleftrightarrow> le_word (take 4 eth) = 0 \<and> le_word (take 4 (drop 2 eth)) = 0"

text \<open>The bytes written; none if there is not enough space.\<close>

definition ffeth_tostr :: "nat \<Rightarrow> bytes \<Rightarrow> bytes" where
  "ffeth_tostr cap eth =
     (if cap < FFETH_STRLEN then []
      else ffs_hexbyte (eth ! 0) ffHEX
        @ concat (map (\<lambda>i. 58 # ffs_hexbyte (eth ! i) ffHEX) [1..<6]))"

text \<open>The bytes \<open>i\<close>, \<dots>, 5 of the address; \<open>None\<close> is the error -1.\<close>

function eth_parse_loop :: "nat \<Rightarrow> bytes \<Rightarrow> bytes option" where
  "eth_parse_loop i s =
     (if 6 \<le> i then Some []
      else
        let hi = ffchar_tohex (sint (s ! 0)); lo = ffchar_tohex (sint (s ! 1)) in
        if hi < 0 \<or> lo < 0 \<or> i \<noteq> 5 \<and> s ! 2 \<noteq> 58 then None
        else map_option (\<lambda>a. word_of_int (push_bit 4 hi OR lo) # a) (eth_parse_loop (i + 1) (drop 3 s)))"
  by pat_completeness auto
termination by (relation "measure (\<lambda>(i, s). 6 - i)") auto

declare eth_parse_loop.simps [simp del]

text \<open>The result: 0 for the whole input, the number of bytes read, or -1; and the address.\<close>

definition ffeth_parse :: "bytes \<Rightarrow> int \<times> bytes" where
  "ffeth_parse s =
     (if length s < FFETH_STRLEN then (-1, [])
      else case eth_parse_loop 0 s of
             None \<Rightarrow> (-1, [])
           | Some eth \<Rightarrow> (if length s = FFETH_STRLEN then 0 else int FFETH_STRLEN, eth))"

definition ffvlan_id :: "u8 \<Rightarrow> u8 \<Rightarrow> u32" where
  "ffvlan_id a b = ffint_ntoh16 a b AND 0x0fff"

section \<open>IPv4 addresses\<close>

definition FFIP4_STRLEN :: nat where "FFIP4_STRLEN = 15"

text \<open>
  The loop of the parser. \<open>nadr\<close>: bytes finished, \<open>ndig\<close>: digits of the current one, \<open>b\<close>: its value,
  \<open>a\<close>: the address, \<open>i\<close>: the position. The result is the return value, the address and the subnet.
\<close>

fun ip4_loop :: "bytes \<Rightarrow> nat \<Rightarrow> nat \<Rightarrow> nat \<Rightarrow> bytes \<Rightarrow> nat \<Rightarrow> int \<times> bytes \<times> nat" where
  "ip4_loop [] nadr ndig b a i =
     (if nadr = 3 \<and> ndig \<noteq> 0 then (0, a[nadr := word_of_nat b], 32) else (-1, a, 32))"
| "ip4_loop (c # s) nadr ndig b a i =
     (let ch = uint c in
      if ffchar_isdigit ch \<and> ndig \<noteq> 3 then
        let b = b * 10 + nat (ffchar_tonum ch) in
        if 255 < b then (-1, a, 32) else ip4_loop s nadr (ndig + 1) b a (i + 1)
      else if ndig = 0 then
        (if ch = 42 then
           (if s = [] then 0 else int (i + 1), take nadr a @ replicate (4 - nadr) 0, nadr * 8)
         else (-1, a, 32))
      else if nadr = 3 then (int i, a[nadr := word_of_nat b], 32)
      else if ch = 46 then ip4_loop s (nadr + 1) 0 0 (a[nadr := word_of_nat b]) (i + 1)
      else (-1, a, 32))"

definition ffip4_parse_wildcard :: "bytes \<Rightarrow> bytes \<Rightarrow> int \<times> bytes \<times> nat" where
  "ffip4_parse_wildcard a s = ip4_loop s 0 0 0 a 0"

definition ffip4_parse :: "bytes \<Rightarrow> bytes \<Rightarrow> int \<times> bytes" where
  "ffip4_parse a s =
     (let (r, a, subnet) = ffip4_parse_wildcard a s in if subnet \<noteq> 32 then (-1, a) else (r, a))"

text \<open>
  The subnet bits or -1. \<open>ffs_toint\<close> leaves the variable unset when it fails, which counts as 0 bytes:
  \<open>None\<close> when the unset variable is read.
\<close>

definition ffip4_parse_subnet :: "bytes \<Rightarrow> bytes \<Rightarrow> (int \<times> bytes) option" where
  "ffip4_parse_subnet a s =
     (let (r, a) = ffip4_parse a s in
      if r \<le> 0 then Some (-1, a)
      else if \<not> (nat r + 1 \<le> length s \<and> s ! nat r = 47) then Some (-1, a)
      else
        let t = drop (nat r + 1) s in
        case ffs_toint t 4 of
          TI_ok n subnet \<Rightarrow>
            Some (if length t \<noteq> n \<or> subnet = 0 \<or> 32 < subnet then -1 else int (unat subnet), a)
        | TI_fail \<Rightarrow> if t \<noteq> [] then Some (-1, a) else None
        | TI_undef \<Rightarrow> None)"

text \<open>The text of a number at the end of a buffer with \<open>cap\<close> bytes left.\<close>

definition fromint_at :: "nat \<Rightarrow> u64 \<Rightarrow> u32 \<Rightarrow> bytes" where
  "fromint_at cap i flags =
     (case ffs_fromint i (replicate cap 0) flags of Some (d, n) \<Rightarrow> take n d | None \<Rightarrow> [])"

fun ip4_tostr_loop :: "nat \<Rightarrow> bytes \<Rightarrow> bytes \<Rightarrow> bytes" where
  "ip4_tostr_loop cap p [] = p"
| "ip4_tostr_loop cap p (x # xs) =
     (let t = fromint_at (cap - length p) (ucast x) 0 in
      if t = [] then []
      else if xs \<noteq> [] then ip4_tostr_loop cap (p @ t @ [46]) xs
      else p @ t)"

definition ffip4_tostr :: "nat \<Rightarrow> bytes \<Rightarrow> bytes" where
  "ffip4_tostr cap ip4 = (if cap < FFIP4_STRLEN then [] else ip4_tostr_loop cap [] ip4)"

section \<open>IPv6 addresses\<close>

definition FFIP6_STRLEN :: nat where "FFIP6_STRLEN = 39"

text \<open>
  The parser writes the address from its start: \<open>out\<close> is what is written, 16 bytes are the whole address.
  \<open>zr\<close> is the end of the zeros of \<open>::\<close>, relative to the start of the address. The result is the return value,
  the bytes and the subnet, if it is set; \<open>None\<close> is a write behind the address.
\<close>

function ip6_loop :: "bool \<Rightarrow> bytes \<Rightarrow> bytes \<Rightarrow> u32 \<Rightarrow> nat \<Rightarrow> int option \<Rightarrow> (int \<times> bytes \<times> nat option) option" where
  "ip6_loop first s out chunk ndigs zr =
     (case s of
        [] \<Rightarrow>
          let out = (if ndigs \<noteq> 0 then out @ [ucast (drop_bit 8 chunk), ucast (chunk AND 0xff)] else out) in
          if length out \<noteq> 16 then Some (-1, out, None) else Some (0, out, Some (16 * 8))
      | b # s \<Rightarrow>
          if length out = 16 then Some (-1, out, None)
          else if b = 58 then
            if ndigs = 0 then
              (if first \<and> (s = [] \<or> hd s \<noteq> 58) then Some (-1, out, None)
               else
                 let s = (if first then tl s else s) in
                 if zr \<noteq> None then Some (-1, out, None)
                 else
                   let zr = 16 - (if s \<noteq> [] then 2 else 0) - 2 * int (length (filter (\<lambda>c. c = 58) s)) in
                   if zr < int (length out) then None
                   else ip6_loop False s (out @ replicate (nat zr - length out) 0) chunk ndigs (Some zr))
            else ip6_loop False s (out @ [ucast (drop_bit 8 chunk), ucast (chunk AND 0xff)]) 0 0 zr
          else if ndigs = 0 \<and> b = 42 \<and> s = [] then
            Some (0, out @ replicate (16 - length out) 0, Some (length out * 8))
          else if ndigs = 4 then Some (-1, out, None)
          else
            let hx = ffchar_tohex (sint b) in
            if hx = -1 then Some (-1, out, None)
            else ip6_loop False s out (push_bit 4 chunk OR word_of_int hx) (ndigs + 1) zr)"
  by pat_completeness auto
termination
  by (relation "measure (\<lambda>(first, s, out, chunk, ndigs, zr). length s)") (auto split: if_splits)

declare ip6_loop.simps [simp del]

definition ffip6_parse_wildcard :: "bytes \<Rightarrow> (int \<times> bytes \<times> nat option) option" where
  "ffip6_parse_wildcard s = ip6_loop True s [] 0 0 None"

text \<open>An unset subnet goes with the return value -1, whatever the comparison reads.\<close>

definition ffip6_parse :: "bytes \<Rightarrow> (int \<times> bytes) option" where
  "ffip6_parse s = map_option
     (\<lambda>(r, a, subnet). (if subnet \<noteq> Some (16 * 8) then -1 else r, a)) (ffip6_parse_wildcard s)"

text \<open>The longest sequence of zeros: where it starts, -1 if there is none, and its length.\<close>

fun ip6_cut_loop :: "(u8 \<times> u8) list \<Rightarrow> int \<Rightarrow> int \<Rightarrow> int \<Rightarrow> int \<Rightarrow> int \<Rightarrow> int \<times> int" where
  "ip6_cut_loop [] i cut_from cut_len zrbegin nzr =
     (if cut_len < nzr then (zrbegin, nzr) else (cut_from, cut_len))"
| "ip6_cut_loop ((x, y) # a) i cut_from cut_len zrbegin nzr =
     (if x = 0 \<and> y = 0 then
        ip6_cut_loop a (i + 2) cut_from cut_len (if nzr = 0 then i else zrbegin) (nzr + 2)
      else if nzr \<noteq> 0 then
        (let (cut_from, cut_len) = (if cut_len < nzr then (zrbegin, nzr) else (cut_from, cut_len))
         in ip6_cut_loop a (i + 2) cut_from cut_len zrbegin 0)
      else ip6_cut_loop a (i + 2) cut_from cut_len zrbegin nzr)"

fun pairs :: "bytes \<Rightarrow> (u8 \<times> u8) list" where
  "pairs (x # y # a) = (x, y) # pairs a"
| "pairs _ = []"

function ip6_out_loop :: "nat \<Rightarrow> bytes \<Rightarrow> int \<Rightarrow> int \<Rightarrow> nat \<Rightarrow> bytes \<Rightarrow> bytes" where
  "ip6_out_loop cap a cut_from cut_len i p =
     (if 16 \<le> i then p
      else if int i = cut_from \<and> 0 < cut_len then
        let i2 = nat (cut_from + cut_len) in
        ip6_out_loop cap a cut_from cut_len i2 (p @ [58] @ (if i2 = 16 then [58] else []))
      else
        let p = p @ (if i \<noteq> 0 then [58] else []);
            p = p @ fromint_at (cap - length p) (ucast (ffint_ntoh16 (a ! i) (a ! (i + 1)))) 2
        in ip6_out_loop cap a cut_from cut_len (i + 2) p)"
  by pat_completeness auto
termination
proof (relation "measure (\<lambda>(cap, a, cut_from, cut_len, i, p). 16 - i)")
  fix cap a p and cut_from cut_len :: int and i i2 :: nat
  assume "\<not> 16 \<le> i" "int i = cut_from \<and> 0 < cut_len" "i2 = nat (cut_from + cut_len)"
  then show "((cap, a, cut_from, cut_len, i2, p @ [58] @ (if i2 = 16 then [58] else [])), cap, a, cut_from, cut_len, i, p)
      \<in> measure (\<lambda>(cap, a, cut_from, cut_len, i, p). 16 - i)" by auto
qed auto

declare ip6_out_loop.simps [simp del]

definition ffip6_tostr :: "nat \<Rightarrow> bytes \<Rightarrow> bytes" where
  "ffip6_tostr cap a =
     (if cap < FFIP6_STRLEN then []
      else let (cut_from, cut_len) = ip6_cut_loop (pairs a) 0 (-1) 0 0 0
           in ip6_out_loop cap a cut_from cut_len 0 [])"

section \<open>Internet checksum\<close>

text \<open>
  \<open>addcarry\<close> is \<open>ffint_addcarry32\<close> of the platform layer; the words of the header are read in the byte order of the machine. The buffer holds
  all the words that are counted.
\<close>

fun in_chksum_4 :: "(u32 \<Rightarrow> u32 \<Rightarrow> u32) \<Rightarrow> u32 \<Rightarrow> bytes \<Rightarrow> nat \<Rightarrow> u32" where
  "in_chksum_4 addcarry acc (a # b # c # d # buf) (Suc len4) =
     in_chksum_4 addcarry (addcarry acc (le4 a b c d)) buf len4"
| "in_chksum_4 addcarry acc buf len4 = acc"

definition in_chksum_reduce :: "u32 \<Rightarrow> u32" where
  "in_chksum_reduce acc =
     (let acc = drop_bit 16 acc + (acc AND 0xffff) in drop_bit 16 acc + (acc AND 0xffff))"

definition ffip4_chksum :: "(u32 \<Rightarrow> u32 \<Rightarrow> u32) \<Rightarrow> bytes \<Rightarrow> nat \<Rightarrow> u32" where
  "ffip4_chksum addcarry hdr ihl = NOT (in_chksum_reduce (in_chksum_4 addcarry 0 hdr ihl)) AND 0xffff"

section \<open>Header fields\<close>

definition ffip4_frag_more :: "u8 \<Rightarrow> bool" where
  "ffip4_frag_more frag0 \<longleftrightarrow> frag0 AND 0x20 \<noteq> 0"

definition ffip4_frag_dont :: "u8 \<Rightarrow> bool" where
  "ffip4_frag_dont frag0 \<longleftrightarrow> frag0 AND 0x40 \<noteq> 0"

definition ffip4_frag_off :: "u8 \<Rightarrow> u8 \<Rightarrow> u32" where
  "ffip4_frag_off a b = (ffint_ntoh16 a b AND 0x1fff) * 8"

definition ffip4_hdrlen :: "u8 \<Rightarrow> u32" where
  "ffip4_hdrlen ihl = ucast ihl * 4"

definition ffip4_datalen :: "u8 \<Rightarrow> u8 \<Rightarrow> u8 \<Rightarrow> u32" where
  "ffip4_datalen a b ihl = ffint_ntoh16 a b - ffip4_hdrlen ihl"

definition ffip6_ver :: "u8 \<Rightarrow> u8" where
  "ffip6_ver b = drop_bit 4 b"

definition fftcp_hdrlen :: "u8 \<Rightarrow> u32" where
  "fftcp_hdrlen off = drop_bit 4 (ucast off AND 0xf0) * 4"

section \<open>Ethernet addresses: text and back\<close>

lemma tohex_hexbyte:
  "ffchar_tohex (sint (ffHEX ! unat (drop_bit 4 b))) = int (unat (drop_bit 4 b))"
  "ffchar_tohex (sint (ffHEX ! unat (b AND 0x0f))) = int (unat (b AND 0x0f))" for b :: u8
  using nibble_lt [of b] by (simp_all add: hex_digit_back)

lemma eth_parse_step:
  "i < 5 \<Longrightarrow> eth_parse_loop i (ffs_hexbyte x ffHEX @ 58 # s) = map_option ((#) x) (eth_parse_loop (i + 1) s)"
  "eth_parse_loop 5 (ffs_hexbyte x ffHEX) = Some [x]"
  using nibbles [of x]
  by (simp_all add: eth_parse_loop.simps [of i] eth_parse_loop.simps [of 5] eth_parse_loop.simps [of 6]
      ffs_hexbyte_def tohex_hexbyte Let_def)

lemma eth_parse_loop_text:
  "length xs < 6 \<Longrightarrow>
   eth_parse_loop (5 - length xs) (ffs_hexbyte x ffHEX @ concat (map (\<lambda>b. 58 # ffs_hexbyte b ffHEX) xs)) = Some (x # xs)"
proof (induction xs arbitrary: x)
  case (Cons y xs)
  then have "5 - length (y # xs) + 1 = 5 - length xs" by simp
  then show ?case using Cons by (simp add: eth_parse_step(1))
qed (simp add: eth_parse_step(2))

lemma eth_text: "length eth = 6 \<Longrightarrow> ffs_hexbyte (eth ! 0) ffHEX @ concat (map (\<lambda>i. 58 # ffs_hexbyte (eth ! i) ffHEX) [1..<6])
    = ffs_hexbyte (hd eth) ffHEX @ concat (map (\<lambda>b. 58 # ffs_hexbyte b ffHEX) (tl eth))"
  by (cases eth) (auto simp: upt_rec numeral_eq_Suc length_Suc_conv)

section \<open>IPv4 addresses: text and back\<close>

lemma fromint_at_dec: "length (ffs_fromint_dec i) \<le> cap \<Longrightarrow> fromint_at cap i 0 = ffs_fromint_dec i"
  using fromint_plain [of 0 i "replicate cap 0"] take_put [of "ffs_fromint_dec i" "replicate cap 0"]
  by (simp add: fromint_at_def Let_def)

lemma fromint_at_hex: "length (ffs_fromint_hex i False) \<le> cap \<Longrightarrow> fromint_at cap i 2 = ffs_fromint_hex i False"
  using fromint_plain [of 2 i "replicate cap 0"] take_put [of "ffs_fromint_hex i False" "replicate cap 0"]
  by (simp add: fromint_at_def Let_def)

lemma dg48_isdigit: "d < 10 \<Longrightarrow> ffchar_isdigit (uint (dg48 d)) \<and> nat (ffchar_tonum (uint (dg48 d))) = d"
proof -
  assume "d < 10"
  moreover have "list_all (\<lambda>d. ffchar_isdigit (uint (dg48 d)) \<and> nat (ffchar_tonum (uint (dg48 d))) = d) [0..<10]" by code_simp
  ultimately show ?thesis by (simp only: list_all_iff) auto
qed

lemma foldl_num_le: "b \<le> foldl (\<lambda>a d. a * 10 + d) b ds" for b :: nat
proof (induction ds arbitrary: b)
  case (Cons d ds)
  have "b \<le> b * 10 + d" by simp
  also have "\<dots> \<le> foldl (\<lambda>a d. a * 10 + d) (b * 10 + d) ds" by (rule Cons.IH)
  finally show ?case by simp
qed simp

lemma ip4_loop_digits:
  "\<forall>d\<in>set ds. d < 10 \<Longrightarrow> ndig + length ds \<le> 3 \<Longrightarrow> foldl (\<lambda>a d. a * 10 + d) b ds \<le> 255 \<Longrightarrow>
   ip4_loop (map dg48 ds @ rest) nadr ndig b a i = ip4_loop rest nadr (ndig + length ds) (foldl (\<lambda>a d. a * 10 + d) b ds) a (i + length ds)"
proof (induction ds arbitrary: ndig b i)
  case (Cons d ds)
  have "b * 10 + d \<le> 255" using Cons.prems(3) foldl_num_le [of "b * 10 + d" ds] by simp
  moreover have "ip4_loop (map dg48 ds @ rest) nadr (ndig + 1) (b * 10 + d) a (i + 1) =
      ip4_loop rest nadr (ndig + 1 + length ds) (foldl (\<lambda>a d. a * 10 + d) (b * 10 + d) ds) a (i + 1 + length ds)"
    by (rule Cons.IH) (use Cons.prems in auto)
  ultimately show ?case using dg48_isdigit [of d] Cons.prems(1,2) by simp
qed simp

definition dec3 :: "u8 \<Rightarrow> bytes" where
  "dec3 x = map dg48 (nat_digits 10 (unat x))"

lemma unat_ucast64: "unat (ucast (x :: u8) :: u64) = unat x"
proof -
  have "unat x < 2 ^ 64" by (rule order.strict_trans2 [OF unat_u8_lt]) simp
  then show ?thesis by (simp add: unsigned_ucast_eq take_bit_nat_eq_self)
qed

lemma dec3_text: "ffs_fromint_dec (ucast x) = dec3 x"
  by (simp add: dec3_def fromint_dec_digits digits_loop_eq unat_ucast64)

lemma dec3_length: "0 < length (dec3 x)" "length (dec3 x) \<le> 3"
  using length_nat_digits [of 10 "unat x" 3] unat_u8_lt [of x] by (simp_all add: dec3_def)

lemma ip4_loop_dec3:
  "ip4_loop (dec3 x @ rest) nadr 0 0 a i = ip4_loop rest nadr (length (dec3 x)) (unat x) a (i + length (dec3 x))"
proof -
  have "numval 10 (nat_digits 10 (unat x)) = unat x" by (rule numval_nat_digits) simp
  then have f: "foldl (\<lambda>a d. a * 10 + d) 0 (nat_digits 10 (unat x)) = unat x" by (simp add: numval_def)
  then show ?thesis
    using ip4_loop_digits [of "nat_digits 10 (unat x)" 0 0 rest nadr a i] nat_digits_less [of 10] dec3_length [of x] unat_u8_lt [of x]
    by (simp add: dec3_def)
qed

lemma ip4_loop_dot:
  "ndig \<noteq> 0 \<Longrightarrow> nadr \<noteq> 3 \<Longrightarrow> ip4_loop (46 # s) nadr ndig b a i = ip4_loop s (nadr + 1) 0 0 (a[nadr := word_of_nat b]) (i + 1)"
  by (simp add: ffchar_isdigit_def)

lemma ip4_tostr_text:
  assumes "15 \<le> cap" "ip4 = [x, y, z, w]"
  shows "ffip4_tostr cap ip4 = dec3 x @ [46] @ dec3 y @ [46] @ dec3 z @ [46] @ dec3 w"
proof -
  have ne: "dec3 v \<noteq> []" for v using dec3_length(1) [of v] by auto
  have f: "fromint_at (cap - k) (ucast v) 0 = dec3 v" if "k \<le> 12" for k v
    using fromint_at_dec [of "ucast v" "cap - k"] dec3_text [of v] dec3_length(2) [of v] that assms(1) by simp
  show ?thesis using assms dec3_length [of x] dec3_length [of y] dec3_length [of z] f [of 0]
    by (simp add: ffip4_tostr_def FFIP4_STRLEN_def f ne)
qed

lemma ip4_parse_text:
  assumes "length a = 4" "rest = [] \<or> \<not> ffchar_isdigit (uint (hd rest))"
  shows "ffip4_parse a (dec3 x @ [46] @ dec3 y @ [46] @ dec3 z @ [46] @ dec3 w @ rest) =
    (if rest = [] then 0 else int (length (dec3 x @ [46] @ dec3 y @ [46] @ dec3 z @ [46] @ dec3 w)), [x, y, z, w])"
proof -
  obtain a0 a1 a2 a3 where a: "a = [a0, a1, a2, a3]" using assms(1) by (auto simp: length_Suc_conv numeral_eq_Suc)
  have ne: "length (dec3 v) \<noteq> 0" "dec3 v \<noteq> []" for v using dec3_length(1) [of v] by auto
  have "ip4_loop rest 3 (length (dec3 w)) (unat w) [x, y, z, a3] i = (if rest = [] then 0 else int i, [x, y, z, w], 32)" for i
    using assms(2) ne [of w] by (cases rest) (auto simp: numeral_3_eq_3)
  then show ?thesis using ne
    by (simp add: ffip4_parse_def ffip4_parse_wildcard_def ip4_loop_dec3 ip4_loop_dot a numeral_2_eq_2 numeral_3_eq_3 del: ip4_loop.simps)
qed

section \<open>IPv6 addresses: text and back\<close>

lemma ffhex_digit: "d < 16 \<Longrightarrow> ffhex ! d \<noteq> 58 \<and> ffhex ! d \<noteq> 42"
proof -
  assume "d < 16"
  moreover have "list_all (\<lambda>d. ffhex ! d \<noteq> 58 \<and> ffhex ! d \<noteq> 42) [0..<16]" by code_simp
  ultimately show ?thesis by (simp only: list_all_iff) auto
qed

lemma push_or_add32: "d < 16 \<Longrightarrow> push_bit 4 r OR word_of_int (int d) = r * 16 + (word_of_nat d :: u32)"
proof -
  assume d: "d < 16"
  have "\<not> bit (word_of_nat d :: u32) n" if "4 \<le> n" for n
  proof -
    have "(16 :: nat) \<le> 2 ^ n" using power_increasing [OF that, of "2 :: nat"] by simp
    with d have "d div 2 ^ n = 0" by simp
    then show ?thesis by (simp add: bit_simps bit_iff_odd [of d])
  qed
  then have "push_bit 4 r + word_of_nat d = push_bit 4 r OR (word_of_nat d :: u32)"
    by (intro disjunctive_add) (auto simp: bit_simps)
  then show ?thesis by (simp add: push_bit_eq_mult mult.commute)
qed

lemma ip6_loop_digits:
  "\<forall>d\<in>set ds. d < 16 \<Longrightarrow> n + length ds \<le> 4 \<Longrightarrow> length out \<noteq> 16 \<Longrightarrow>
   ip6_loop first (map ((!) ffhex) ds @ rest) out chunk n zr =
     ip6_loop (first \<and> ds = []) rest out (foldl (\<lambda>r d. r * 16 + word_of_nat d) chunk ds) (n + length ds) zr"
proof (induction ds arbitrary: first chunk n)
  case (Cons d ds)
  have d: "ffhex ! d \<noteq> 58" "ffhex ! d \<noteq> 42" "ffchar_tohex (sint (ffhex ! d)) = int d" "d < 16"
    using ffhex_digit [of d] hex_digit_back(1) [of d] Cons.prems(1) by simp_all
  have "ip6_loop first (ffhex ! d # (map ((!) ffhex) ds @ rest)) out chunk n zr
      = ip6_loop False (map ((!) ffhex) ds @ rest) out (chunk * 16 + word_of_nat d) (n + 1) zr"
    unfolding ip6_loop.simps [of first "ffhex ! d # (map ((!) ffhex) ds @ rest)"]
    using d(1-3) Cons.prems(2,3) push_or_add32 [OF d(4), of chunk] by (simp add: Let_def)
  then show ?case using Cons.IH [of "n + 1" False "chunk * 16 + word_of_nat d"] Cons.prems by simp
qed simp

text \<open>A group of the address: two bytes, and its text.\<close>

definition grp :: "u8 \<times> u8 \<Rightarrow> bytes" where
  "grp q = map ((!) ffhex) (nat_digits 16 (unat (ffint_ntoh16 (fst q) (snd q))))"

fun unpairs :: "(u8 \<times> u8) list \<Rightarrow> bytes" where
  "unpairs [] = []"
| "unpairs ((x, y) # qs) = x # y # unpairs qs"

lemma ntoh16_bytes: "ucast (drop_bit 8 (ffint_ntoh16 x y)) = x" "ucast (ffint_ntoh16 x y AND 0xff) = y"
proof -
  have f: "(0xff :: u32) = mask 8" by (simp add: mask_eq_exp_minus_1)
  show "ucast (drop_bit 8 (ffint_ntoh16 x y)) = x" "ucast (ffint_ntoh16 x y AND 0xff) = y"
    by (rule bit_word_eqI; auto simp: ffint_ntoh16_def f bit_simps dest: bit_imp_le_length)+
qed

lemma ntoh16_less: "unat (ffint_ntoh16 x y) < 16 ^ 4"
  using unit_less(2) [of x y] by (simp add: word_less_nat_alt)

lemma grp_digits:
  "\<forall>d\<in>set (nat_digits 16 (unat (ffint_ntoh16 x y))). d < 16" "length (nat_digits 16 (unat (ffint_ntoh16 x y))) \<le> 4"
  "0 < length (nat_digits 16 (unat (ffint_ntoh16 x y)))"
  "foldl (\<lambda>r d. r * 16 + word_of_nat d) 0 (nat_digits 16 (unat (ffint_ntoh16 x y))) = ffint_ntoh16 x y"
proof -
  show "\<forall>d\<in>set (nat_digits 16 (unat (ffint_ntoh16 x y))). d < 16" using nat_digits_less [of 16] by auto
  show "length (nat_digits 16 (unat (ffint_ntoh16 x y))) \<le> 4" using length_nat_digits [OF _ ntoh16_less] by simp
  show "0 < length (nat_digits 16 (unat (ffint_ntoh16 x y)))" by simp
  show "foldl (\<lambda>r d. r * 16 + word_of_nat d) 0 (nat_digits 16 (unat (ffint_ntoh16 x y))) = ffint_ntoh16 x y"
    using foldl_word_numval [of 16 0 "nat_digits 16 (unat (ffint_ntoh16 x y))", where ?'a = 32]
      numval_nat_digits [of 16 "unat (ffint_ntoh16 x y)"] by (simp add: numval_def)
qed

lemma grp_length: "0 < length (grp q)" "length (grp q) \<le> 4"
  using grp_digits(2,3) by (simp_all add: grp_def)

lemma grp_no_colon: "58 \<notin> set (grp q)"
  using grp_digits(1) ffhex_digit by (fastforce simp: grp_def)

lemma ip6_loop_grp:
  "length out \<noteq> 16 \<Longrightarrow>
   ip6_loop first (grp (x, y) @ rest) out 0 0 zr = ip6_loop False rest out (ffint_ntoh16 x y) (length (grp (x, y))) zr"
  using ip6_loop_digits [OF grp_digits(1), of 0 x y out first rest 0 zr] grp_digits(2-4) [of x y] by (simp add: grp_def)

lemma ip6_loop_grp_colon:
  "length out \<noteq> 16 \<Longrightarrow>
   ip6_loop first (grp (x, y) @ 58 # rest) out 0 0 zr = ip6_loop False rest (out @ [x, y]) 0 0 zr"
  using grp_length(1) [of "(x, y)"]
  by (simp add: ip6_loop_grp) (simp add: ip6_loop.simps [of False "58 # rest"] ntoh16_bytes)

lemma ip6_loop_grp_end:
  "length out = 14 \<Longrightarrow> ip6_loop first (grp (x, y)) out 0 0 zr = Some (0, out @ [x, y], Some (16 * 8))"
  using grp_length(1) [of "(x, y)"] ip6_loop_grp [of out first x y "[]" zr]
  by (simp add: ip6_loop.simps [of False "[]"] ntoh16_bytes)

fun join6 :: "(u8 \<times> u8) list \<Rightarrow> bytes" where
  "join6 [] = []"
| "join6 [q] = grp q"
| "join6 (q # qs) = grp q @ 58 # join6 qs"

lemma length_unpairs [simp]: "length (unpairs qs) = 2 * length qs"
  by (induction qs rule: unpairs.induct) auto

lemma ip6_loop_join6:
  "qs \<noteq> [] \<Longrightarrow> length out + 2 * length qs = 16 \<Longrightarrow> ip6_loop first (join6 qs) out 0 0 zr = Some (0, out @ unpairs qs, Some (16 * 8))"
proof (induction qs arbitrary: out first rule: join6.induct)
  case (2 q)
  then show ?case by (cases q) (simp add: ip6_loop_grp_end)
next
  case (3 q q' qs)
  then show ?case by (cases q) (simp add: ip6_loop_grp_colon)
qed simp

lemma ip6_loop_front:
  "length out + 2 * length qs \<le> 16 \<Longrightarrow>
   ip6_loop first (concat (map (\<lambda>q. grp q @ [58]) qs) @ rest) out 0 0 zr = ip6_loop (first \<and> qs = []) rest (out @ unpairs qs) 0 0 zr"
proof (induction qs arbitrary: out first)
  case (Cons q qs)
  then show ?case by (cases q) (simp add: ip6_loop_grp_colon)
qed simp

lemma join6_colons: "length (filter (\<lambda>c. c = 58) (join6 qs)) = length qs - 1"
proof (induction qs rule: join6.induct)
  case (2 q)
  then show ?case using grp_no_colon [of q] by (auto simp: filter_empty_conv)
next
  case (3 q q' qs)
  have "filter (\<lambda>c. c = 58) (grp q) = []" using grp_no_colon [of q] by (auto simp: filter_empty_conv)
  then show ?case using 3 by simp
qed simp

lemma join6_Nil: "join6 qs = [] \<longleftrightarrow> qs = []"
  using grp_length(1) by (cases qs rule: join6.cases) auto

lemma ip6_loop_zeros:
  assumes "length out + 2 * length qs \<le> 16" "length out \<noteq> 16"
  shows "ip6_loop first ((if first then [58] else []) @ 58 # join6 qs) out 0 0 None =
    Some (0, out @ replicate (16 - 2 * length qs - length out) 0 @ unpairs qs, Some (16 * 8))"
proof -
  define zr where "zr = 16 - (if join6 qs \<noteq> [] then 2 else 0) - 2 * int (length (filter (\<lambda>c. c = 58) (join6 qs)))"
  have zr: "zr = 16 - 2 * int (length qs)" by (cases qs) (simp_all add: zr_def join6_colons join6_Nil del: join6.simps)
  then have ge: "\<not> zr < int (length out)" "nat zr = 16 - 2 * length qs" using assms(1) by simp_all
  let ?out = "out @ replicate (16 - 2 * length qs - length out) 0"
  have len: "length ?out + 2 * length qs = 16" using assms(1) by simp
  have "ip6_loop first ((if first then [58] else []) @ 58 # join6 qs) out 0 0 None = ip6_loop False (join6 qs) ?out 0 0 (Some zr)"
    unfolding ip6_loop.simps [of first "(if first then [58] else []) @ 58 # join6 qs"]
    using assms(2) ge by (simp add: zr_def [symmetric] Let_def)
  also have "\<dots> = Some (0, ?out @ unpairs qs, Some (16 * 8))"
  proof (cases "qs = []")
    case True
    then show ?thesis using len by (simp add: ip6_loop.simps)
  next
    case False
    then show ?thesis using ip6_loop_join6 [OF _ len] by simp
  qed
  finally show ?thesis by simp
qed

text \<open>A sequence of zero groups of the address, by its offset and length in bytes.\<close>

definition zero_run :: "(u8 \<times> u8) list \<Rightarrow> int \<Rightarrow> int \<Rightarrow> bool" where
  "zero_run ps f n \<longleftrightarrow> (\<exists>k m. f = int (2 * k) \<and> n = int (2 * m) \<and> 0 < m \<and> k + m \<le> length ps \<and> (\<forall>j<m. ps ! (k + j) = (0, 0)))"

lemma zero_run_extend:
  assumes "zero_run ps zb nz" "zb + nz = int (2 * k)" "k < length ps" "ps ! k = (0, 0)"
  shows "zero_run ps zb (nz + 2)"
proof -
  obtain k' m where m: "zb = int (2 * k')" "nz = int (2 * m)" "0 < m" "k' + m \<le> length ps" "\<forall>j<m. ps ! (k' + j) = (0, 0)"
    using assms(1) by (auto simp: zero_run_def)
  then have k: "k' + m = k" using assms(2) by simp
  have "\<forall>j<Suc m. ps ! (k' + j) = (0, 0)" using m(5) k assms(4) by (auto simp: less_Suc_eq)
  moreover have "nz + 2 = int (2 * Suc m)" using m(2) by simp
  ultimately show ?thesis unfolding zero_run_def using m(1) k assms(3) by (intro exI [of _ k'] exI [of _ "Suc m"]) simp
qed

lemma zero_run_new: "k < length ps \<Longrightarrow> ps ! k = (0, 0) \<Longrightarrow> zero_run ps (int (2 * k)) 2"
  unfolding zero_run_def by (intro exI [of _ k] exI [of _ 1]) simp

lemma ip6_cut_loop_run:
  assumes "ip6_cut_loop (drop k ps) (int (2 * k)) cf cl zb nz = (f, n)" "k \<le> length ps"
    and "cf = -1 \<and> cl = 0 \<or> zero_run ps cf cl" "nz = 0 \<or> zero_run ps zb nz \<and> zb + nz = int (2 * k)"
  shows "f = -1 \<and> n = 0 \<or> zero_run ps f n"
  using assms
proof (induction "length ps - k" arbitrary: k cf cl zb nz)
  case 0
  then show ?case by (auto simp: zero_run_def split: if_splits)
next
  case (Suc d)
  then have k: "k < length ps" "d = length ps - Suc k" by simp_all
  then obtain x y where xy: "ps ! k = (x, y)" "drop k ps = (x, y) # drop (Suc k) ps"
    by (metis Cons_nth_drop_Suc surj_pair)
  have i: "int (2 * k) + 2 = int (2 * Suc k)" by simp
  show ?case
  proof (cases "x = 0 \<and> y = 0")
    case True
    define zb' where "zb' = (if nz = 0 then int (2 * k) else zb)"
    have "zero_run ps zb' (nz + 2)" "zb' + (nz + 2) = int (2 * Suc k)"
      using Suc.prems(4) zero_run_extend [of ps zb nz k] zero_run_new [OF k(1)] xy(1) True k(1) by (auto simp: zb'_def)
    then show ?thesis using Suc.hyps(1) [OF k(2), of cf cl zb' "nz + 2"] Suc.prems k(1) xy(2) True i
      by (simp add: zb'_def [symmetric] del: of_nat_mult)
  next
    case False
    define cf' cl' where "cf' = (if nz \<noteq> 0 \<and> cl < nz then zb else cf)" and "cl' = (if nz \<noteq> 0 \<and> cl < nz then nz else cl)"
    define j where "j = int (2 * k)"
    have "ip6_cut_loop ((x, y) # drop (Suc k) ps) j cf cl zb nz = ip6_cut_loop (drop (Suc k) ps) (j + 2) cf' cl' zb 0"
      using False by (auto simp: cf'_def cl'_def)
    then have "ip6_cut_loop (drop (Suc k) ps) (int (2 * Suc k)) cf' cl' zb 0 = (f, n)"
      using Suc.prems(1) by (simp only: xy(2) j_def i)
    moreover have "cf' = -1 \<and> cl' = 0 \<or> zero_run ps cf' cl'" using Suc.prems(3,4) by (auto simp: cf'_def cl'_def)
    ultimately show ?thesis using Suc.hyps(1) [OF k(2)] k(1) by simp
  qed
qed

lemma fromint_at_grp: "4 \<le> cap \<Longrightarrow> fromint_at cap (ucast (ffint_ntoh16 x y)) 2 = grp (x, y)"
proof -
  have u: "unat (ucast (ffint_ntoh16 x y) :: u64) = unat (ffint_ntoh16 x y)"
  proof -
    have "unat (ffint_ntoh16 x y) < 2 ^ 64" using ntoh16_less [of x y] by (rule order.strict_trans) simp
    then show ?thesis by (simp add: unsigned_ucast_eq take_bit_nat_eq_self)
  qed
  have "ffs_fromint_hex (ucast (ffint_ntoh16 x y)) False = grp (x, y)"
    by (simp add: ffs_fromint_hex_def u digits_loop_eq grp_def)
  moreover assume "4 \<le> cap"
  ultimately show ?thesis using fromint_at_hex [of "ucast (ffint_ntoh16 x y)" cap] grp_length(2) [of "(x, y)"] by simp
qed

lemma pairs_nth: "length a = 2 * n \<Longrightarrow> k < n \<Longrightarrow> (a ! (2 * k), a ! (2 * k + 1)) = pairs a ! k"
proof (induction a arbitrary: n k rule: pairs.induct)
  case (1 x y a)
  then show ?case by (cases n; cases k) auto
qed auto

lemma length_pairs: "length a = 2 * n \<Longrightarrow> length (pairs a) = n"
proof (induction a arbitrary: n rule: pairs.induct)
  case (1 x y a)
  then show ?case by (cases n) auto
qed auto

lemma unpairs_pairs: "length a = 2 * n \<Longrightarrow> unpairs (pairs a) = a"
proof (induction a arbitrary: n rule: pairs.induct)
  case (1 x y a)
  then show ?case by (cases n) auto
qed auto

text \<open>Groups written without a cut: each has a colon before it, except at the start.\<close>

definition tail6 :: "(u8 \<times> u8) list \<Rightarrow> bytes" where
  "tail6 qs = concat (map (\<lambda>q. 58 # grp q) qs)"

lemma ip6_out_step:
  assumes "length a = 16" "k < 8" "\<not> (int (2 * k) = cf \<and> 0 < cl)" "39 \<le> cap" "length p + (if k = 0 then 0 else 1) \<le> 5 * k"
  shows "ip6_out_loop cap a cf cl (2 * k) p =
    ip6_out_loop cap a cf cl (2 * Suc k) (p @ (if k = 0 then [] else [58]) @ grp (pairs a ! k))"
proof -
  have q: "pairs a ! k = (a ! (2 * k), a ! Suc (2 * k))" using pairs_nth [of a 8 k] assms(1,2) by simp
  have "4 \<le> cap - length (p @ (if k = 0 then [] else [58]))" using assms(2,4,5) by auto
  then have "fromint_at (cap - length (p @ (if k = 0 then [] else [58]))) (ucast (ffint_ntoh16 (a ! (2 * k)) (a ! Suc (2 * k)))) 2
      = grp (pairs a ! k)" by (simp only: q fromint_at_grp)
  moreover have "\<not> 16 \<le> 2 * k" using assms(2) by simp
  ultimately show ?thesis using assms(3) unfolding ip6_out_loop.simps [of cap a cf cl "2 * k" p]
    by (auto simp: Let_def)
qed

lemma ip6_out_tail:
  assumes "length a = 16" "0 < k" "k \<le> 8" "cf < int (2 * k)" "39 \<le> cap" "length p + 1 \<le> 5 * k"
  shows "ip6_out_loop cap a cf cl (2 * k) p = p @ tail6 (drop k (pairs a))"
  using assms
proof (induction "8 - k" arbitrary: k p)
  case 0
  then show ?case using length_pairs [of a 8] by (simp add: ip6_out_loop.simps tail6_def)
next
  case (Suc d)
  have "drop k (pairs a) = pairs a ! k # drop (Suc k) (pairs a)"
    using Suc.hyps(2) Suc.prems length_pairs [of a 8] by (simp add: Cons_nth_drop_Suc)
  moreover have "length (p @ [58] @ grp (pairs a ! k)) + 1 \<le> 5 * Suc k"
    using Suc.prems(6) grp_length(2) [of "pairs a ! k"] by simp
  ultimately show ?case
    using Suc.hyps(1) [of "Suc k" "p @ [58] @ grp (pairs a ! k)"] Suc.hyps(2) Suc.prems ip6_out_step [of a k cf cl cap p]
    by (simp add: tail6_def)
qed

lemma ip6_out_head:
  assumes "length a = 16" "k \<le> 8" "cf = -1 \<or> int (2 * k) \<le> cf" "39 \<le> cap"
  shows "ip6_out_loop cap a cf cl 0 [] = ip6_out_loop cap a cf cl (2 * k) (join6 (take k (pairs a)))
    \<and> length (join6 (take k (pairs a))) + (if k = 0 then 0 else 1) \<le> 5 * k"
  using assms
proof (induction k)
  case (Suc k)
  have l: "length (pairs a) = 8" using length_pairs [of a 8] Suc.prems by simp
  then have t: "take (Suc k) (pairs a) = take k (pairs a) @ [pairs a ! k]" using Suc.prems(2) by (simp add: take_Suc_conv_app_nth)
  have j: "join6 (qs @ [q]) = join6 qs @ (if qs = [] then [] else [58]) @ grp q" for qs q
    by (induction qs rule: join6.induct) auto
  have e: "take k (pairs a) = [] \<longleftrightarrow> k = 0" using l by auto
  have ih: "ip6_out_loop cap a cf cl 0 [] = ip6_out_loop cap a cf cl (2 * k) (join6 (take k (pairs a)))"
    "length (join6 (take k (pairs a))) + (if k = 0 then 0 else 1) \<le> 5 * k" using Suc by auto
  show ?case
  proof
    have "\<not> (int (2 * k) = cf \<and> 0 < cl)" "k < 8" using Suc.prems(2,3) by auto
    then have "ip6_out_loop cap a cf cl (2 * k) (join6 (take k (pairs a))) = ip6_out_loop cap a cf cl (2 * Suc k) (join6 (take (Suc k) (pairs a)))"
      using ip6_out_step [OF Suc.prems(1) _ _ Suc.prems(4) ih(2)] by (simp only: t j e simp_thms)
    then show "ip6_out_loop cap a cf cl 0 [] = ip6_out_loop cap a cf cl (2 * Suc k) (join6 (take (Suc k) (pairs a)))"
      by (rule trans [OF ih(1)])
    show "length (join6 (take (Suc k) (pairs a))) + (if Suc k = 0 then 0 else 1) \<le> 5 * Suc k"
      using ih(2) grp_length(2) [of "pairs a ! k"] by (auto simp: t j e split: if_splits)
  qed
qed simp

lemma join6_front: "qs \<noteq> [] \<Longrightarrow> join6 qs @ [58] = concat (map (\<lambda>q. grp q @ [58]) qs)"
  by (induction qs rule: join6.induct) auto

lemma tail6_join6: "qs \<noteq> [] \<Longrightarrow> tail6 qs = 58 # join6 qs"
  by (induction qs rule: join6.induct) (auto simp: tail6_def)

text \<open>The text of an address with the cut from group \<open>k\<close> on, \<open>m\<close> groups long.\<close>

lemma ip6_out_cut:
  assumes "length a = 16" "k + m \<le> 8" "0 < m" "39 \<le> cap"
  shows "ip6_out_loop cap a (int (2 * k)) (int (2 * m)) 0 [] = join6 (take k (pairs a)) @ 58 # 58 # join6 (drop (k + m) (pairs a))"
proof -
  let ?p = "join6 (take k (pairs a))" and ?i2 = "2 * (k + m)"
  have h: "ip6_out_loop cap a (int (2 * k)) (int (2 * m)) 0 [] = ip6_out_loop cap a (int (2 * k)) (int (2 * m)) (2 * k) ?p"
    "length ?p + (if k = 0 then 0 else 1) \<le> 5 * k"
    using ip6_out_head [OF assms(1), of k "int (2 * k)" cap "int (2 * m)"] assms by simp_all
  have "nat (int (2 * k) + int (2 * m)) = ?i2" by simp
  moreover have "\<not> 16 \<le> 2 * k" using assms by simp
  ultimately have c: "ip6_out_loop cap a (int (2 * k)) (int (2 * m)) (2 * k) ?p =
      ip6_out_loop cap a (int (2 * k)) (int (2 * m)) ?i2 (?p @ [58] @ (if ?i2 = 16 then [58] else []))"
    unfolding ip6_out_loop.simps [of cap a "int (2 * k)" "int (2 * m)" "2 * k" ?p] using assms(3) by (simp add: Let_def)
  also have "\<dots> = (?p @ [58] @ (if ?i2 = 16 then [58] else [])) @ tail6 (drop (k + m) (pairs a))"
  proof (rule ip6_out_tail)
    show "length (?p @ [58] @ (if ?i2 = 16 then [58] else [])) + 1 \<le> 5 * (k + m)"
      using h(2) assms(3) by (auto split: if_splits)
  qed (use assms in auto)
  also have "\<dots> = ?p @ 58 # 58 # join6 (drop (k + m) (pairs a))"
  proof (cases "k + m = 8")
    case True
    then show ?thesis using length_pairs [of a 8] assms(1) by (simp add: tail6_def)
  next
    case False
    then have "drop (k + m) (pairs a) \<noteq> []" using length_pairs [of a 8] assms(1,2) by simp
    then show ?thesis using False tail6_join6 by simp
  qed
  finally show ?thesis by (rule trans [OF h(1)])
qed

lemma replicate_zero_run:
  assumes "\<forall>j<m. ps ! (k + j) = (0, 0)" "k + m \<le> length ps"
  shows "unpairs ps = unpairs (take k ps) @ replicate (2 * m) 0 @ unpairs (drop (k + m) ps)"
proof -
  have app: "unpairs (xs @ ys) = unpairs xs @ unpairs ys" for xs ys by (induction xs rule: unpairs.induct) auto
  have "take m (drop k ps) = replicate m (0, 0)"
    using assms by (intro nth_equalityI) auto
  moreover have "unpairs (replicate m (0, 0)) = replicate (2 * m) 0" by (induction m) (auto simp: mult_Suc_right)
  moreover have "ps = take k ps @ take m (drop k ps) @ drop (k + m) ps" by (metis append_take_drop_id drop_drop add.commute)
  ultimately show ?thesis by (metis app)
qed

lemma ip6_roundtrip:
  assumes "length a = 16" "39 \<le> cap"
  shows "ffip6_parse (ffip6_tostr cap a) = Some (0, a)"
proof -
  obtain cf cl where cut: "ip6_cut_loop (pairs a) 0 (-1) 0 0 0 = (cf, cl)" by force
  have l: "length (pairs a) = 8" using length_pairs [of a 8] assms(1) by simp
  have t: "ffip6_tostr cap a = ip6_out_loop cap a cf cl 0 []" using assms(2) by (simp add: ffip6_tostr_def FFIP6_STRLEN_def cut)
  have un: "unpairs (pairs a) = a" using unpairs_pairs [of a 8] assms(1) by simp
  have "cf = -1 \<and> cl = 0 \<or> zero_run (pairs a) cf cl"
    using ip6_cut_loop_run [of 0 "pairs a" "-1" 0 0 0 cf cl] cut by simp
  then show ?thesis
  proof
    assume "cf = -1 \<and> cl = 0"
    then have "ip6_out_loop cap a cf cl 0 [] = join6 (pairs a)"
      using ip6_out_head [OF assms(1), of 8 cf cap cl] assms(2) l by (simp add: ip6_out_loop.simps [of cap a _ _ 16])
    moreover have "pairs a \<noteq> []" using l by auto
    ultimately show ?thesis
      using ip6_loop_join6 [of "pairs a" "[]" True None] l un t by (simp add: ffip6_parse_def ffip6_parse_wildcard_def)
  next
    assume "zero_run (pairs a) cf cl"
    then obtain k m where km: "cf = int (2 * k)" "cl = int (2 * m)" "0 < m" "k + m \<le> 8" "\<forall>j<m. pairs a ! (k + j) = (0, 0)"
      using l by (auto simp: zero_run_def)
    let ?pre = "take k (pairs a)" and ?post = "drop (k + m) (pairs a)"
    have out: "ffip6_tostr cap a = join6 ?pre @ 58 # 58 # join6 ?post"
      unfolding t km(1,2) by (rule ip6_out_cut [OF assms(1) km(4,3) assms(2)])
    have lens: "length ?pre = k" "length ?post = 8 - (k + m)" using l km(4) by simp_all
    have r: "16 - 2 * length ?post - length (unpairs ?pre) = 2 * m" using lens km(4) by simp
    have parts: "a = unpairs ?pre @ replicate (2 * m) 0 @ unpairs ?post"
      using replicate_zero_run [OF km(5)] l km(4) un by simp
    have "ip6_loop True (join6 ?pre @ 58 # 58 # join6 ?post) [] 0 0 None = Some (0, a, Some (16 * 8))"
    proof (cases "k = 0")
      case True
      then show ?thesis using ip6_loop_zeros [of "[]" ?post True] lens km(3,4) parts r by simp
    next
      case False
      then have "?pre \<noteq> []" using l by auto
      then have e: "join6 ?pre @ 58 # 58 # join6 ?post = concat (map (\<lambda>q. grp q @ [58]) ?pre) @ 58 # join6 ?post"
        using join6_front [of ?pre] by (metis append.assoc append_Cons append_Nil)
      have "ip6_loop True (join6 ?pre @ 58 # 58 # join6 ?post) [] 0 0 None =
          ip6_loop False (58 # join6 ?post) (unpairs ?pre) 0 0 None"
        unfolding e using ip6_loop_front [of "[]" ?pre True "58 # join6 ?post" None] lens km(4) \<open>?pre \<noteq> []\<close> by simp
      also have "\<dots> = Some (0, a, Some (16 * 8))"
        using ip6_loop_zeros [of "unpairs ?pre" ?post False] lens km(3,4) parts r by simp
      finally show ?thesis .
    qed
    then show ?thesis by (simp add: ffip6_parse_def ffip6_parse_wildcard_def out)
  qed
qed

section \<open>The checksum of a header\<close>

text \<open>What the code relies on: addition with the carry added back in.\<close>

definition adds_carry :: "(u32 \<Rightarrow> u32 \<Rightarrow> u32) \<Rightarrow> bool" where
  "adds_carry f \<longleftrightarrow> (\<forall>a b. f a b = (if unat a + unat b < 2 ^ 32 then a + b else a + b + 1))"

lemma adds_carry_unat:
  assumes "adds_carry f"
  shows "unat (f a b) = (if unat a + unat b < 2 ^ 32 then unat a + unat b else unat a + unat b - (2 ^ 32 - 1))"
proof (cases "unat a + unat b < 2 ^ 32")
  case True
  then show ?thesis using assms by (simp add: adds_carry_def unat_add_small)
next
  case False
  have lt: "unat a < 2 ^ 32" "unat b < 2 ^ 32" using unsigned_less [of a, where ?'a = nat] unsigned_less [of b, where ?'a = nat] by simp_all
  have "unat (a + b) = unat a + unat b - 2 ^ 32"
    using lt False by (simp add: unat_word_ariths mod_if)
  moreover from this have "unat (a + b) + unat (1 :: u32) < 2 ^ 32" using lt by simp
  then have "unat (a + b + 1) = unat (a + b) + 1" using unat_add_small [of "a + b" 1] by simp
  ultimately show ?thesis using assms False by (simp add: adds_carry_def)
qed

lemma adds_carry_mod:
  assumes "adds_carry f"
  shows "unat (f a b) mod 65535 = (unat a + unat b) mod 65535" "f a b = 0 \<longleftrightarrow> a = 0 \<and> b = 0"
proof -
  let ?s = "unat a + unat b"
  show "unat (f a b) mod 65535 = ?s mod 65535"
  proof (cases "?s < 2 ^ 32")
    case False
    define t where "t = ?s - 65535 * 65537"
    have t: "?s = t + 65535 * 65537" using False by (simp add: t_def)
    have "unat (f a b) = t" using False by (simp add: adds_carry_unat [OF assms] t)
    then show ?thesis by (simp only: t mod_mult_self2)
  qed (simp add: adds_carry_unat [OF assms])
  have "unat (f a b) = 0 \<longleftrightarrow> ?s = 0" by (auto simp: adds_carry_unat [OF assms])
  then show "f a b = 0 \<longleftrightarrow> a = 0 \<and> b = 0" by (simp add: unat_eq_0)
qed

fun words32 :: "bytes \<Rightarrow> nat \<Rightarrow> u32 list" where
  "words32 (a # b # c # d # buf) (Suc n) = le4 a b c d # words32 buf n"
| "words32 buf n = []"

lemma chksum_words: "in_chksum_4 f acc buf n = foldl f acc (words32 buf n)"
  by (induction f acc buf n rule: in_chksum_4.induct) auto

lemma foldl_adds_carry:
  assumes "adds_carry f"
  shows "unat (foldl f acc ws) mod 65535 = (unat acc + sum_list (map unat ws)) mod 65535"
    and "foldl f acc ws = 0 \<longleftrightarrow> acc = 0 \<and> (\<forall>w\<in>set ws. w = 0)"
proof (induction ws arbitrary: acc)
  case (Cons w ws)
  {
    case 1
    have "(unat (f acc w) + sum_list (map unat ws)) mod 65535 = (unat acc + unat w + sum_list (map unat ws)) mod 65535"
      by (rule mod_add_cong [OF adds_carry_mod(1) [OF assms] refl])
    then show ?case using Cons.IH(1) by (simp add: add.assoc)
  next
    case 2
    show ?case using Cons.IH(2) adds_carry_mod(2) [OF assms] by auto
  }
qed simp_all

lemma reduce_value:
  "unat (in_chksum_reduce s) \<le> 65535" "unat (in_chksum_reduce s) mod 65535 = unat s mod 65535"
  "in_chksum_reduce s = 0 \<longleftrightarrow> s = 0"
proof -
  define halve :: "u32 \<Rightarrow> u32" where "halve s = drop_bit 16 s + (s AND 0xffff)" for s
  have f: "(0xffff :: u32) = mask 16" by (simp add: mask_eq_exp_minus_1)
  have h: "unat (halve s) = unat s div 65536 + unat s mod 65536" for s
  proof -
    have a: "unat (drop_bit 16 s) = unat s div 65536" by (simp add: drop_bit_eq_div unat_div)
    have b: "unat (s AND 0xffff) = unat s mod 65536" by (simp add: f unsigned_take_bit_eq take_bit_eq_mod unat_mod flip: take_bit_eq_mask)
    have "unat s < 2 ^ 32" using unsigned_less [of s, where ?'a = nat] by simp
    then have "unat s div 65536 < 65536" by (simp add: less_mult_imp_div_less)
    moreover have "unat s mod 65536 < 65536" by simp
    ultimately have "unat (drop_bit 16 s) + unat (s AND 0xffff) < 2 ^ 32" unfolding a b by simp
    then show ?thesis unfolding halve_def by (simp add: unat_add_small a b)
  qed
  have r: "in_chksum_reduce s = halve (halve s)" by (simp add: in_chksum_reduce_def halve_def Let_def)
  have m: "unat (halve s) mod 65535 = unat s mod 65535" for s
  proof -
    have "unat s = unat s div 65536 * 65535 + unat (halve s)" by (simp add: h)
    then show ?thesis by (metis mod_mult_self3)
  qed
  have z: "halve s = 0 \<longleftrightarrow> s = 0" for s
  proof -
    have "unat (halve s) = 0 \<longleftrightarrow> unat s = 0" using div_mult_mod_eq [of "unat s" 65536] by (auto simp: h)
    then show ?thesis by (simp add: unat_eq_0)
  qed
  show "unat (in_chksum_reduce s) mod 65535 = unat s mod 65535" "in_chksum_reduce s = 0 \<longleftrightarrow> s = 0"
    by (simp_all add: r m z)
  have "unat s < 2 ^ 32" using unsigned_less [of s, where ?'a = nat] by simp
  then have "unat s div 65536 \<le> 65535" by (simp add: less_mult_imp_div_less less_Suc_eq_le [symmetric])
  moreover have "unat s mod 65536 \<le> 65535" by simp
  ultimately have "unat (halve s) \<le> 131070" by (simp add: h)
  have "unat (halve s) div 65536 + unat (halve s) mod 65536 \<le> 65535"
  proof (cases "unat (halve s) < 65536")
    case False
    then show ?thesis using \<open>unat (halve s) \<le> 131070\<close> by (simp add: le_div_geq le_mod_geq)
  qed simp
  then show "unat (in_chksum_reduce s) \<le> 65535" by (simp only: r h [of "halve s"])
qed

lemma chksum_value: "unat (NOT r AND 0xffff) = 65535 - unat r" if "unat r \<le> 65535" for r :: u32
proof -
  have f: "(0xffff :: u32) = mask 16" by (simp add: mask_eq_exp_minus_1)
  have not: "NOT r = - 1 - r" by (simp add: not_eq_complement)
  have "unat (NOT r) = unat (- 1 :: u32) - unat r" unfolding not by (rule unat_sub) simp
  moreover have "unat (- 1 :: u32) = 65536 * 65535 + 65535" by (simp add: unsigned_minus_1_eq_mask mask_eq_exp_minus_1)
  ultimately have "unat (NOT r) = (65535 - unat r) + 65536 * 65535" using that by simp
  moreover have "unat (NOT r AND 0xffff) = unat (NOT r) mod 65536"
    by (simp add: f unsigned_take_bit_eq take_bit_eq_mod unat_mod flip: take_bit_eq_mask)
  ultimately have "unat (NOT r AND 0xffff) = ((65535 - unat r) + 65536 * 65535) mod 65536" by (simp only:)
  also have "\<dots> = (65535 - unat r) mod 65536" by (rule mod_mult_self2)
  also have "\<dots> = 65535 - unat r" using that by simp
  finally show ?thesis .
qed

lemma unat_or_add: "x AND y = 0 \<Longrightarrow> unat (x OR y) = unat x + unat y" for x y :: u32
proof -
  assume "x AND y = 0"
  moreover have "unat (x AND y) = unat x AND unat y" by (rule unsigned_and_eq)
  ultimately have "unat x AND unat y = 0" by simp
  then show ?thesis by (simp add: unsigned_or_eq disjunctive_add_eq_or)
qed

lemma unat_byte_at: "k \<le> 24 \<Longrightarrow> unat (push_bit k (ucast x :: u32)) = 2 ^ k * unat x" for x :: u8
proof -
  assume k: "k \<le> 24"
  have "2 ^ k * unat x < 2 ^ k * 2 ^ 8" using unat_u8_lt [of x] by simp
  also have "\<dots> \<le> 2 ^ 32" using power_increasing [of "k + 8" 32 "2 :: nat"] k by (simp add: power_add)
  finally have "2 ^ k * unat x < 2 ^ 32" .
  moreover have "unat (ucast x :: u32) = unat x"
    using order.strict_trans [OF unat_u8_lt [of x], of "2 ^ 32"] by (simp add: unsigned_ucast_eq take_bit_nat_eq_self)
  ultimately show ?thesis by (simp only: unsigned_push_bit_eq) (simp add: push_bit_eq_mult take_bit_nat_eq_self mult.commute)
qed

lemma le4_unat: "unat (le4 a b c d) = unat a + 256 * unat b + 65536 * unat c + 16777216 * unat d"
proof -
  let ?a = "push_bit 0 (ucast a) :: u32" and ?b = "push_bit 8 (ucast b) :: u32"
    and ?c = "push_bit 16 (ucast c) :: u32" and ?d = "push_bit 24 (ucast d) :: u32"
  have disj: "?a AND (?b OR (?c OR ?d)) = 0" "?b AND (?c OR ?d) = 0" "?c AND ?d = 0"
    by (rule bit_word_eqI; auto simp: bit_simps dest: bit_imp_le_length)+
  have "le4 a b c d = ?a OR (?b OR (?c OR ?d))" by (simp add: le4_def or.assoc)
  then have "unat (le4 a b c d) = unat ?a + (unat ?b + (unat ?c + unat ?d))"
    by (simp only: unat_or_add [OF disj(1)] unat_or_add [OF disj(2)] unat_or_add [OF disj(3)])
  then show ?thesis using unat_byte_at [of 0 a] unat_byte_at [of 8 b] unat_byte_at [of 16 c] unat_byte_at [of 24 d]
    by (simp del: push_bit_0_id)
qed

lemma le4_field:
  assumes "unat c \<le> 65535"
  shows "unat (le4 x y (ucast c) (ucast (drop_bit 8 c))) = unat (le4 x y 0 0) + 65536 * unat (c :: u32)"
proof -
  have a: "unat (ucast c :: u8) = unat c mod 256" by (simp add: unsigned_ucast_eq take_bit_eq_mod)
  have "unat c div 256 < 256" using assms by (simp add: less_mult_imp_div_less)
  then have b: "unat (ucast (drop_bit 8 c) :: u8) = unat c div 256"
    by (simp add: unsigned_ucast_eq take_bit_eq_mod drop_bit_eq_div unat_div)
  have "unat c = 256 * (unat c div 256) + unat c mod 256" by simp
  then show ?thesis unfolding le4_unat a b unsigned_0 by linarith
qed

lemma chksum_zero:
  assumes f: "adds_carry f" and len: "length p = 10"
    and c: "c = ffip4_chksum f (p @ [0, 0] @ q) (3 + n)"
  shows "ffip4_chksum f (p @ [ucast c, ucast (drop_bit 8 c)] @ q) (3 + n) = 0"
proof -
  obtain p0 p1 p2 p3 p4 p5 p6 p7 p8 p9 where p: "p = [p0, p1, p2, p3, p4, p5, p6, p7, p8, p9]"
    using len by (auto simp: length_Suc_conv numeral_eq_Suc)
  define w1 w2 ws where "w1 = le4 p0 p1 p2 p3" and "w2 = le4 p4 p5 p6 p7" and "ws = words32 q n"
  define v where "v x y = le4 p8 p9 x y" for x y
  have words: "words32 (p @ [x, y] @ q) (3 + n) = [w1, w2, v x y] @ ws" for x y
    by (simp add: p w1_def w2_def v_def ws_def numeral_3_eq_3)
  define S where "S = unat w1 + unat w2 + unat (v 0 0) + sum_list (map unat ws)"
  define r where "r = in_chksum_reduce (foldl f 0 ([w1, w2, v 0 0] @ ws))"
  have r: "unat r \<le> 65535" "unat r mod 65535 = S mod 65535" "r = 0 \<longleftrightarrow> w1 = 0 \<and> w2 = 0 \<and> v 0 0 = 0 \<and> (\<forall>w\<in>set ws. w = 0)"
    using reduce_value [of "foldl f 0 ([w1, w2, v 0 0] @ ws)"] foldl_adds_carry [OF f, of 0 "[w1, w2, v 0 0] @ ws"]
    by (simp_all add: r_def S_def add.assoc)
  have c1: "unat c = 65535 - unat r" unfolding c ffip4_chksum_def chksum_words words r_def [symmetric] by (rule chksum_value [OF r(1)])
  define c' where "c' = v (ucast c) (ucast (drop_bit 8 c))"
  have c': "unat c' = unat (v 0 0) + 65536 * unat c"
    unfolding c'_def v_def by (rule le4_field) (simp add: c1)
  define r' where "r' = in_chksum_reduce (foldl f 0 ([w1, w2, c'] @ ws))"
  have r': "unat r' \<le> 65535" "unat r' mod 65535 = (S + 65536 * unat c) mod 65535"
    "r' = 0 \<longleftrightarrow> w1 = 0 \<and> w2 = 0 \<and> c' = 0 \<and> (\<forall>w\<in>set ws. w = 0)"
    using reduce_value [of "foldl f 0 ([w1, w2, c'] @ ws)"] foldl_adds_carry [OF f, of 0 "[w1, w2, c'] @ ws"]
    by (simp_all add: r'_def S_def c' algebra_simps)
  have "r' \<noteq> 0"
  proof
    assume "r' = 0"
    then have "w1 = 0" "w2 = 0" "c' = 0" "\<forall>w\<in>set ws. w = 0" using r'(3) by auto
    moreover from this have "v 0 0 = 0" "unat c = 0" using c' by (simp_all add: unat_eq_0)
    ultimately show False using r(3) c1 by simp
  qed
  have "(S + 65536 * unat c) mod 65535 = (S mod 65535 + unat c + 65535 * unat c) mod 65535" by (simp add: mod_add_left_eq algebra_simps)
  also have "\<dots> = (S mod 65535 + unat c) mod 65535" by (rule mod_mult_self2)
  also have "\<dots> = (unat r + unat c) mod 65535" by (simp only: r(2) [symmetric] mod_add_left_eq)
  also have "\<dots> = 0" using c1 r(1) by simp
  finally have "unat r' mod 65535 = 0" using r'(2) by simp
  then have "unat r' = 65535" using \<open>r' \<noteq> 0\<close> r'(1) by (metis mod_less nat_less_le unat_eq_0)
  then have "unat (NOT r' AND 0xffff) = 0" using chksum_value [OF r'(1)] by simp
  then show ?thesis unfolding ffip4_chksum_def chksum_words words c'_def [symmetric] r'_def [symmetric] by (simp only: unat_eq_0)
qed

section \<open>Properties\<close>

text \<open>
  C31: Every IPv6 address is written as text that the parser reads back to the same address, whatever sequence
  of zero groups the writer replaced by two colons.
\<close>

theorem ffip6_roundtrip:
  assumes "length a = 16" "39 \<le> cap"
  shows "ffip6_parse (ffip6_tostr cap a) = Some (0, a)"
  using assms by (rule ip6_roundtrip)

lemma ffip6_roundtrip_witness:
  "ffip6_parse (ffip6_tostr 39 ([0x20, 0x01] @ replicate 13 0 @ [1])) = Some (0, [0x20, 0x01] @ replicate 13 0 @ [1])"
  by (rule ffip6_roundtrip) simp_all

text \<open>
  Every IPv4 address is written as text that the parser reads back; behind it the parser stops at the first
  byte that is no digit and returns its offset.
\<close>

theorem ffip4_roundtrip:
  assumes "length ip4 = 4" "15 \<le> cap" "length a = 4" "rest = [] \<or> \<not> ffchar_isdigit (uint (hd rest))"
  shows "ffip4_parse a (ffip4_tostr cap ip4 @ rest) = (if rest = [] then 0 else int (length (ffip4_tostr cap ip4)), ip4)"
proof -
  obtain x y z w where ip: "ip4 = [x, y, z, w]" using assms(1) by (auto simp: length_Suc_conv numeral_eq_Suc)
  have t: "ffip4_tostr cap ip4 = dec3 x @ [46] @ dec3 y @ [46] @ dec3 z @ [46] @ dec3 w" by (rule ip4_tostr_text [OF assms(2) ip])
  show ?thesis using ip4_parse_text [OF assms(3,4), of x y z w] unfolding t append_assoc unfolding ip .
qed

lemma ffip4_roundtrip_witness:
  "ffip4_parse [0, 0, 0, 0] (ffip4_tostr 15 [127, 0, 0, 1] @ [58]) = (9, [127, 0, 0, 1])"
proof -
  have "ffip4_parse [0, 0, 0, 0] (ffip4_tostr 15 [127, 0, 0, 1] @ [58])
      = (if [58 :: u8] = [] then 0 else int (length (ffip4_tostr 15 [127, 0, 0, 1])), [127, 0, 0, 1])"
    by (rule ffip4_roundtrip) (simp_all add: ffchar_isdigit_def)
  also have "length (ffip4_tostr 15 [127, 0, 0, 1]) = 9"
    unfolding ip4_tostr_text [of 15 "[127, 0, 0, 1]", OF order.refl refl] by (simp add: dec3_def nat_digits.simps)
  finally show ?thesis by simp
qed

text \<open>
  C32: A checksum computed over a header whose checksum field is zero makes the header valid once it is stored in
  the field: the checksum of the complete header is zero.
\<close>

theorem ffip4_chksum_validates:
  assumes "adds_carry addcarry" "length p = 10"
  shows "let c = ffip4_chksum addcarry (p @ [0, 0] @ q) (3 + n)
         in ffip4_chksum addcarry (p @ [ucast c, ucast (drop_bit 8 c)] @ q) (3 + n) = 0"
  using chksum_zero [OF assms refl] by (simp add: Let_def)

definition ex_addcarry :: "u32 \<Rightarrow> u32 \<Rightarrow> u32" where
  "ex_addcarry a b = (if unat a + unat b < 2 ^ 32 then a + b else a + b + 1)"

lemma ffip4_chksum_validates_witness:
  "let p = [0x45, 0, 0, 0x73, 0, 0, 0x40, 0, 0x40, 0x11]; q = [0xc0, 0xa8, 0, 1, 0xc0, 0xa8, 0, 0xc7];
       c = ffip4_chksum ex_addcarry (p @ [0, 0] @ q) (3 + 2)
   in ffip4_chksum ex_addcarry (p @ [ucast c, ucast (drop_bit 8 c)] @ q) (3 + 2) = 0"
  using ffip4_chksum_validates [of ex_addcarry "[0x45, 0, 0, 0x73, 0, 0, 0x40, 0, 0x40, 0x11]" "[0xc0, 0xa8, 0, 1, 0xc0, 0xa8, 0, 0xc7]" 2]
  by (simp only: Let_def) (simp add: adds_carry_def ex_addcarry_def)

text \<open>Every Ethernet address is written as text that the parser reads back.\<close>

lemma ffeth_roundtrip:
  assumes "length eth = 6" "17 \<le> cap"
  shows "ffeth_parse (ffeth_tostr cap eth) = (0, eth)"
proof -
  obtain x xs where eth: "eth = x # xs" "length xs = 5" using assms(1) by (cases eth) auto
  have t: "ffeth_tostr cap eth = ffs_hexbyte x ffHEX @ concat (map (\<lambda>b. 58 # ffs_hexbyte b ffHEX) xs)"
    using eth_text [OF assms(1)] assms(2) by (simp add: ffeth_tostr_def FFETH_STRLEN_def eth(1))
  have "length (concat (map (\<lambda>b. 58 # ffs_hexbyte b ffHEX) ys)) = 3 * length ys" for ys by (induction ys) auto
  then have "length (ffeth_tostr cap eth) = 17" using eth(2) by (simp add: t)
  moreover have "eth_parse_loop 0 (ffeth_tostr cap eth) = Some eth"
    using eth_parse_loop_text [of xs x] eth(2) unfolding t by (simp add: eth(1))
  ultimately show ?thesis by (simp add: ffeth_parse_def FFETH_STRLEN_def)
qed

text \<open>
  More groups behind \<open>::\<close> than there is room for: for \<open>1:2:3:4::5:6:7:8:9\<close> the zeros are written past the
  end of the address.
\<close>

lemma ffip6_parse_overruns: "ffip6_parse [49, 58, 50, 58, 51, 58, 52, 58, 58, 53, 58, 54, 58, 55, 58, 56, 58, 57] = None"
  by (simp add: ffip6_parse_def ffip6_parse_wildcard_def ip6_loop.simps ffchar_tohex_def ffchar_isdigit_def
      ffchar_tonum_def ffchar_lower_def Let_def)

text \<open>For \<open>1.1.1.0/\<close> the subnet is read although nothing was stored in it.\<close>

lemma ffip4_parse_subnet_unset: "ffip4_parse_subnet [0, 0, 0, 0] [49, 46, 49, 46, 49, 46, 48, 47] = None"
  by code_simp

end
