(* ===== verification/FF_RBTree.thy ===== *)
theory FF_RBTree
  imports FF_Chain "HOL-Library.Tree"
begin

text \<open>
  The binary tree and the red-black tree of \<open>rbtree.h\<close> and \<open>ffrbtree.c\<close> on an explicit store: a map from
  addresses to nodes, 0 is \<open>NULL\<close>, and every tree ends in its sentinel, whose address stands for an
  empty subtree. The loops that follow pointers may not end on a store that is no tree, so they
  are partial functions; the theorems show that they end on trees.
\<close>

section \<open>Nodes and trees\<close>

record rbnode =
  n_left :: addr
  n_right :: addr
  n_parent :: addr
  n_color :: nat
  n_key :: u32

type_synonym rbheap = "addr \<Rightarrow> rbnode"

definition BLACK :: nat where "BLACK = 0"

definition RED :: nat where "RED = 1"

text \<open>Assignments to one field of a node.\<close>

definition set_left :: "addr \<Rightarrow> addr \<Rightarrow> rbheap \<Rightarrow> rbheap" where
  "set_left a v h = h(a := (h a)\<lparr>n_left := v\<rparr>)"

definition set_right :: "addr \<Rightarrow> addr \<Rightarrow> rbheap \<Rightarrow> rbheap" where
  "set_right a v h = h(a := (h a)\<lparr>n_right := v\<rparr>)"

definition set_parent :: "addr \<Rightarrow> addr \<Rightarrow> rbheap \<Rightarrow> rbheap" where
  "set_parent a v h = h(a := (h a)\<lparr>n_parent := v\<rparr>)"

definition set_color :: "addr \<Rightarrow> nat \<Rightarrow> rbheap \<Rightarrow> rbheap" where
  "set_color a v h = h(a := (h a)\<lparr>n_color := v\<rparr>)"

definition link_leftchild :: "addr \<Rightarrow> addr \<Rightarrow> rbheap \<Rightarrow> rbheap" where
  "link_leftchild parnt left_child h = set_parent left_child parnt (set_left parnt left_child h)"

definition link_rightchild :: "addr \<Rightarrow> addr \<Rightarrow> rbheap \<Rightarrow> rbheap" where
  "link_rightchild parnt right_child h = set_parent right_child parnt (set_right parnt right_child h)"

text \<open>Returns the store and the root.\<close>

definition relink_parent :: "addr \<Rightarrow> addr \<Rightarrow> addr \<Rightarrow> addr \<Rightarrow> rbheap \<Rightarrow> rbheap \<times> addr" where
  "relink_parent nold nnew root sentl h =
     (let p = n_parent (h nold);
          (h, root) = (if p = sentl then (h, nnew)
                       else if nold = n_left (h p) then (set_left p nnew h, root)
                       else (set_right p nnew h, root))
      in (set_parent nnew p h, root))"

subsection \<open>Search and order\<close>

partial_function (option) find_node :: "rbheap \<Rightarrow> u32 \<Rightarrow> addr \<Rightarrow> addr \<Rightarrow> addr \<Rightarrow> (addr \<times> addr) option" where
  "find_node h key sentl nod root =
     (if nod = sentl then Some (0, root)
      else if key < n_key (h nod) then find_node h key sentl (n_left (h nod)) nod
      else if n_key (h nod) < key then find_node h key sentl (n_right (h nod)) nod
      else Some (nod, nod))"

text \<open>The node found (or \<open>NULL\<close>) and the last node visited.\<close>

definition fftree_findnode :: "u32 \<Rightarrow> addr \<Rightarrow> addr \<Rightarrow> rbheap \<Rightarrow> (addr \<times> addr) option" where
  "fftree_findnode key root sentl h = find_node h key sentl root root"

partial_function (option) fftree_min :: "rbheap \<Rightarrow> addr \<Rightarrow> addr \<Rightarrow> addr option" where
  "fftree_min h sentl nod =
     (if n_left (h nod) \<noteq> sentl then fftree_min h sentl (n_left (h nod)) else Some nod)"

partial_function (option) succ_up :: "rbheap \<Rightarrow> addr \<Rightarrow> addr \<Rightarrow> addr \<Rightarrow> addr option" where
  "succ_up h sentl it nod =
     (if nod \<noteq> sentl \<and> it = n_right (h nod) then succ_up h sentl nod (n_parent (h nod)) else Some nod)"

definition fftree_successor :: "rbheap \<Rightarrow> addr \<Rightarrow> addr \<Rightarrow> addr option" where
  "fftree_successor h it sentl =
     (if n_right (h it) \<noteq> sentl then fftree_min h sentl (n_right (h it))
      else succ_up h sentl it (n_parent (h it)))"

text \<open>The nodes a walk meets, from a node on.\<close>

partial_function (option) walk_from :: "rbheap \<Rightarrow> addr \<Rightarrow> addr \<Rightarrow> addr list option" where
  "walk_from h sentl nod =
     (if nod = sentl then Some []
      else Option.bind (fftree_successor h nod sentl) (\<lambda>n.
             Option.bind (walk_from h sentl n) (\<lambda>ns. Some (nod # ns))))"

definition FFTREE_WALK :: "rbheap \<Rightarrow> addr \<Rightarrow> addr \<Rightarrow> addr list option" where
  "FFTREE_WALK h root sentl =
     (if root = sentl then Some []
      else Option.bind (fftree_min h sentl root) (\<lambda>n. walk_from h sentl n))"

subsection \<open>Insertion and removal without balancing\<close>

text \<open>The node that gets the new child, found by its key.\<close>

partial_function (option) ins_parent :: "rbheap \<Rightarrow> u32 \<Rightarrow> addr \<Rightarrow> addr \<Rightarrow> addr option" where
  "ins_parent h key sentl parent =
     (let child = (if key < n_key (h parent) then n_left (h parent) else n_right (h parent)) in
      if child = sentl then Some parent else ins_parent h key sentl child)"

definition fftree_insert :: "addr \<Rightarrow> addr \<Rightarrow> addr \<Rightarrow> rbheap \<Rightarrow> (rbheap \<times> addr) option" where
  "fftree_insert nod root sentl h =
     (if root = sentl then
        Some (set_left nod sentl (set_right nod sentl (set_parent nod sentl h)), nod)
      else
        Option.bind (ins_parent h (n_key (h nod)) sentl root) (\<lambda>parent.
          let h = (if n_key (h nod) < n_key (h parent) then set_left parent nod h else set_right parent nod h);
              h = set_parent nod parent h
          in Some (set_left nod sentl (set_right nod sentl h), root)))"

text \<open>
  Returns the store, the root, the node that takes the place of the removed subtree's root
  (possibly the sentinel) and the successor that replaced the node (or \<open>NULL\<close>).
\<close>

definition tree_rm :: "addr \<Rightarrow> addr \<Rightarrow> addr \<Rightarrow> rbheap \<Rightarrow> (rbheap \<times> addr \<times> addr \<times> addr) option" where
  "tree_rm nod root sentl h =
     Option.bind
       (if n_left (h nod) = sentl then Some (h, n_right (h nod), n_right (h nod), 0)
        else if n_right (h nod) = sentl then Some (h, n_left (h nod), n_left (h nod), 0)
        else
          Option.bind (fftree_min h sentl (n_right (h nod))) (\<lambda>next.
            let x = n_right (h next);
                h = (if next = n_right (h nod) then set_parent x next h
                     else
                       let h = link_leftchild (n_parent (h next)) (n_right (h next)) h
                       in link_rightchild next (n_right (h nod)) h);
                h = link_leftchild next (n_left (h nod)) h
            in Some (h, x, next, next)))
       (\<lambda>(h, x, nnew, next).
          let (h, root) = relink_parent nod nnew root sentl h;
              h = h(nod := (h nod)\<lparr>n_left := 0, n_right := 0, n_parent := 0, n_key := 0\<rparr>)
          in Some (h, root, x, next))"

subsection \<open>Rotations\<close>

definition left_rotate :: "addr \<Rightarrow> addr \<Rightarrow> addr \<Rightarrow> rbheap \<Rightarrow> rbheap \<times> addr" where
  "left_rotate nod root sentl h =
     (let r = n_right (h nod);
          h = set_right nod (n_left (h r)) h;
          h = (if n_left (h r) \<noteq> sentl then set_parent (n_left (h r)) nod h else h);
          (h, root) = relink_parent nod r root sentl h
      in (link_leftchild r nod h, root))"

definition right_rotate :: "addr \<Rightarrow> addr \<Rightarrow> addr \<Rightarrow> rbheap \<Rightarrow> rbheap \<times> addr" where
  "right_rotate nod root sentl h =
     (let l = n_left (h nod);
          h = set_left nod (n_right (h l)) h;
          h = (if n_right (h l) \<noteq> sentl then set_parent (n_right (h l)) nod h else h);
          (h, root) = relink_parent nod l root sentl h
      in (link_rightchild l nod h, root))"

section \<open>The red-black tree\<close>

record ffrbtree =
  tr_len :: nat
  tr_root :: addr
  tr_sentl :: addr
  tr_insnode :: "addr \<Rightarrow> addr \<Rightarrow> addr \<Rightarrow> rbheap \<Rightarrow> (rbheap \<times> addr) option"

definition ffrbt_init :: "addr \<Rightarrow> rbheap \<Rightarrow> ffrbtree \<times> rbheap" where
  "ffrbt_init sentl h =
     (\<lparr>tr_len = 0, tr_root = sentl, tr_sentl = sentl, tr_insnode = fftree_insert\<rparr>, set_color sentl BLACK h)"

definition ffrbt_empty :: "ffrbtree \<Rightarrow> bool" where
  "ffrbt_empty tr \<longleftrightarrow> tr_root tr = tr_sentl tr"

text \<open>The found node or \<open>NULL\<close>, and the \<open>parent\<close> to insert at.\<close>

definition ffrbt_find :: "ffrbtree \<Rightarrow> u32 \<Rightarrow> rbheap \<Rightarrow> (addr \<times> addr) option" where
  "ffrbt_find tr key h = fftree_findnode key (tr_root tr) (tr_sentl tr) h"

definition ffrbt_successor :: "ffrbtree \<Rightarrow> addr \<Rightarrow> rbheap \<Rightarrow> addr option" where
  "ffrbt_successor tr nod h = fftree_successor h nod (tr_sentl tr)"

partial_function (option) insert_fixup :: "addr \<Rightarrow> addr \<Rightarrow> addr \<Rightarrow> rbheap \<Rightarrow> (rbheap \<times> addr) option" where
  "insert_fixup sentl nod root h =
     (if n_color (h (n_parent (h nod))) \<noteq> RED then Some (h, root)
      else
        let p = n_parent (h nod); gp = n_parent (h p) in
        if p = n_left (h gp) then
          let uncle = n_right (h gp) in
          if n_color (h uncle) = BLACK then
            let (h, root, nod) =
                  (if nod = n_right (h p) then (let (h, root) = left_rotate p root sentl h in (h, root, p))
                   else (h, root, nod));
                h = set_color gp RED (set_color (n_parent (h nod)) BLACK h)
            in Some (right_rotate gp root sentl h)
          else insert_fixup sentl gp root (set_color gp RED (set_color uncle BLACK (set_color p BLACK h)))
        else
          let uncle = n_left (h gp) in
          if n_color (h uncle) = BLACK then
            let (h, root, nod) =
                  (if nod = n_left (h p) then (let (h, root) = right_rotate p root sentl h in (h, root, p))
                   else (h, root, nod));
                h = set_color gp RED (set_color (n_parent (h nod)) BLACK h)
            in Some (left_rotate gp root sentl h)
          else insert_fixup sentl gp root (set_color gp RED (set_color uncle BLACK (set_color p BLACK h))))"

text \<open>\<open>parent\<close> is the node to start the search at, or \<open>NULL\<close>.\<close>

definition ffrbt_insert :: "ffrbtree \<Rightarrow> addr \<Rightarrow> addr \<Rightarrow> rbheap \<Rightarrow> (ffrbtree \<times> rbheap) option" where
  "ffrbt_insert tr nod parent h =
     (let sentl = tr_sentl tr; given = (parent \<noteq> 0 \<and> parent \<noteq> sentl);
          root = (if given then parent else tr_root tr) in
      Option.bind (tr_insnode tr nod root sentl h) (\<lambda>(h, root).
        let h = set_color nod RED h; root = (if given then tr_root tr else root) in
        Option.bind (insert_fixup sentl nod root h) (\<lambda>(h, root).
          Some (tr\<lparr>tr_len := tr_len tr + 1, tr_root := root\<rparr>, set_color root BLACK h))))"

text \<open>
  One round of the fixup after a removal below \<open>p\<close>, when the node is its left or its right child: the
  store, the root, the next node, and whether the loop is left. A red sibling is first turned into a
  black one, the rest of the round starts with the child of \<open>p\<close> on the other side.
\<close>

definition rm_black_left :: "addr \<Rightarrow> addr \<Rightarrow> addr \<Rightarrow> rbheap \<Rightarrow> rbheap \<times> addr \<times> addr \<times> bool" where
  "rm_black_left sentl p root h =
     (let sib = n_right (h p) in
      if n_color (h (n_left (h sib))) = RED \<or> n_color (h (n_right (h sib))) = RED then
        let (h, root, sib) =
              (if n_color (h (n_right (h sib))) = BLACK then
                 let (h, root) = right_rotate sib root sentl (set_color sib RED (set_color (n_left (h sib)) BLACK h))
                 in (h, root, n_right (h p))
               else (h, root, sib));
            h = set_color sib (n_color (h p)) h;
            h = set_color p BLACK h;
            h = set_color (n_right (h sib)) BLACK h;
            (h, root) = left_rotate p root sentl h
        in (h, root, root, True)
      else (set_color sib RED h, root, p, False))"

definition rm_black_right :: "addr \<Rightarrow> addr \<Rightarrow> addr \<Rightarrow> rbheap \<Rightarrow> rbheap \<times> addr \<times> addr \<times> bool" where
  "rm_black_right sentl p root h =
     (let sib = n_left (h p) in
      if n_color (h (n_left (h sib))) = RED \<or> n_color (h (n_right (h sib))) = RED then
        let (h, root, sib) =
              (if n_color (h (n_left (h sib))) = BLACK then
                 let (h, root) = left_rotate sib root sentl (set_color sib RED (set_color (n_right (h sib)) BLACK h))
                 in (h, root, n_left (h p))
               else (h, root, sib));
            h = set_color sib (n_color (h p)) h;
            h = set_color p BLACK h;
            h = set_color (n_left (h sib)) BLACK h;
            (h, root) = right_rotate p root sentl h
        in (h, root, root, True)
      else (set_color sib RED h, root, p, False))"

definition rm_fix_left :: "addr \<Rightarrow> addr \<Rightarrow> addr \<Rightarrow> rbheap \<Rightarrow> rbheap \<times> addr \<times> addr \<times> bool" where
  "rm_fix_left sentl p root h =
     (let sib = n_right (h p);
          (h, root) =
            (if n_color (h sib) = RED then left_rotate p root sentl (set_color p RED (set_color sib BLACK h))
             else (h, root))
      in rm_black_left sentl p root h)"

definition rm_fix_right :: "addr \<Rightarrow> addr \<Rightarrow> addr \<Rightarrow> rbheap \<Rightarrow> rbheap \<times> addr \<times> addr \<times> bool" where
  "rm_fix_right sentl p root h =
     (let sib = n_left (h p);
          (h, root) =
            (if n_color (h sib) = RED then right_rotate p root sentl (set_color p RED (set_color sib BLACK h))
             else (h, root))
      in rm_black_right sentl p root h)"

text \<open>Returns the store, the root and the node to colour black.\<close>

partial_function (option) rm_fixup :: "addr \<Rightarrow> addr \<Rightarrow> addr \<Rightarrow> rbheap \<Rightarrow> (rbheap \<times> addr \<times> addr) option" where
  "rm_fixup sentl x root h =
     (if x = root \<or> n_color (h x) \<noteq> BLACK then Some (h, root, x)
      else
        let p = n_parent (h x) in
        case (if x = n_left (h p) then rm_fix_left sentl p root h else rm_fix_right sentl p root h) of
          (h, root, x, stop) \<Rightarrow> if stop then Some (h, root, x) else rm_fixup sentl x root h)"

definition ffrbt_rm :: "ffrbtree \<Rightarrow> addr \<Rightarrow> rbheap \<Rightarrow> (ffrbtree \<times> rbheap) option" where
  "ffrbt_rm tr nod h =
     (let sentl = tr_sentl tr in
      Option.bind (tree_rm nod (tr_root tr) sentl h) (\<lambda>(h, root, x, next).
        let clr = (if next = 0 then n_color (h nod) else n_color (h next));
            h = (if next = 0 then h else set_color next (n_color (h nod)) h) in
        Option.bind (if clr = RED then Some (h, root, x) else rm_fixup sentl x root h) (\<lambda>(h, root, x).
          Some (tr\<lparr>tr_len := tr_len tr - 1, tr_root := root\<rparr>, set_color x BLACK h))))"

text \<open>The loop over all nodes; \<open>func\<close> is called for the objects that hold the nodes at offset \<open>off\<close>.\<close>

partial_function (option) freeall_loop :: "ffrbtree \<Rightarrow> addr \<Rightarrow> rbheap \<Rightarrow> (ffrbtree \<times> rbheap \<times> addr list) option" where
  "freeall_loop tr n h =
     (if n = tr_sentl tr then Some (tr, h, [])
      else Option.bind (ffrbt_successor tr n h) (\<lambda>next.
             Option.bind (ffrbt_rm tr n h) (\<lambda>(tr, h).
               Option.bind (freeall_loop tr next h) (\<lambda>(tr, h, ns). Some (tr, h, n # ns)))))"

definition ffrbt_freeall :: "ffrbtree \<Rightarrow> nat \<Rightarrow> rbheap \<Rightarrow> (ffrbtree \<times> rbheap \<times> addr list) option" where
  "ffrbt_freeall tr off h =
     Option.bind (if ffrbt_empty tr then Some (tr_sentl tr) else fftree_min h (tr_sentl tr) (tr_root tr)) (\<lambda>n.
       Option.bind (freeall_loop tr n h) (\<lambda>(tr, h, ns). Some (tr, h, map (\<lambda>n. n - off) ns)))"

section \<open>Nodes with siblings of the same key\<close>

text \<open>The list item of a node is written as the node's address: \<open>ffrbtl_nodebylist\<close> is the identity.\<close>

definition ffrbtl_insert3 :: "ffrbtree \<Rightarrow> addr \<Rightarrow> addr \<Rightarrow> rbheap \<Rightarrow> heap \<Rightarrow> (ffrbtree \<times> rbheap \<times> heap) option" where
  "ffrbtl_insert3 tr nod parent h ch =
     Option.bind (ffrbt_insert tr nod parent h) (\<lambda>(tr, h). Some (tr, h, ffchain_init nod ch))"

definition ffrbtl_insert :: "ffrbtree \<Rightarrow> addr \<Rightarrow> rbheap \<Rightarrow> heap \<Rightarrow> (ffrbtree \<times> rbheap \<times> heap) option" where
  "ffrbtl_insert tr k h ch =
     Option.bind (fftree_findnode (n_key (h k)) (tr_root tr) (tr_sentl tr) h) (\<lambda>(found, n).
       if found = 0 then ffrbtl_insert3 tr k n h ch
       else Some (tr\<lparr>tr_len := tr_len tr + 1\<rparr>, h, ffchain_append k found ch))"

definition ffrbtl_rm :: "ffrbtree \<Rightarrow> addr \<Rightarrow> rbheap \<Rightarrow> heap \<Rightarrow> (ffrbtree \<times> rbheap \<times> heap) option" where
  "ffrbtl_rm tr k h ch =
     (if nxt ch k = k then
        Option.bind (ffrbt_rm tr k h) (\<lambda>(tr, h). Some (tr, h, ch))
      else
        let next = nxt ch k; ch = ffchain_unlink k ch; sentl = tr_sentl tr in
        if n_parent (h k) = 0 then Some (tr\<lparr>tr_len := tr_len tr - 1\<rparr>, h, ch)
        else
          let h = h(next := (h next)\<lparr>n_key := n_key (h k), n_color := n_color (h k)\<rparr>);
              (h, root) = relink_parent k next (tr_root tr) sentl h;
              h = set_left next sentl h;
              h = (if n_left (h k) \<noteq> sentl then link_leftchild next (n_left (h k)) h else h);
              h = set_right next sentl h;
              h = (if n_right (h k) \<noteq> sentl then link_rightchild next (n_right (h k)) h else h);
              h = h(k := (h k)\<lparr>n_left := 0, n_right := 0, n_parent := 0\<rparr>)
          in Some (tr\<lparr>tr_len := tr_len tr - 1, tr_root := root\<rparr>, h, ch))"

definition ffrbtl_move :: "ffrbtree \<Rightarrow> addr \<Rightarrow> rbheap \<Rightarrow> heap \<Rightarrow> (ffrbtree \<times> rbheap \<times> heap) option" where
  "ffrbtl_move tr k h ch = Option.bind (ffrbtl_rm tr k h ch) (\<lambda>(tr, h, ch). ffrbtl_insert tr k h ch)"

partial_function (option) freeall_sib_loop ::
  "ffrbtree \<Rightarrow> addr \<Rightarrow> rbheap \<Rightarrow> heap \<Rightarrow> (ffrbtree \<times> rbheap \<times> addr list) option" where
  "freeall_sib_loop tr n h ch =
     (if n = tr_sentl tr then Some (tr, h, [])
      else Option.bind (FFCHAIN_WALK ch n) (\<lambda>sibs.
             let tr = tr\<lparr>tr_len := tr_len tr - length sibs\<rparr> in
             Option.bind (ffrbt_successor tr n h) (\<lambda>next.
               Option.bind (ffrbt_rm tr n h) (\<lambda>(tr, h).
                 Option.bind (freeall_sib_loop tr next h ch) (\<lambda>(tr, h, ns). Some (tr, h, sibs @ n # ns))))))"

definition ffrbtl_freeall :: "ffrbtree \<Rightarrow> nat \<Rightarrow> rbheap \<Rightarrow> heap \<Rightarrow> (ffrbtree \<times> rbheap \<times> addr list) option" where
  "ffrbtl_freeall tr off h ch =
     Option.bind (if ffrbt_empty tr then Some (tr_sentl tr) else fftree_min h (tr_sentl tr) (tr_root tr)) (\<lambda>n.
       Option.bind (freeall_sib_loop tr n h ch) (\<lambda>(tr, h, ns). Some (tr, h, map (\<lambda>n. n - off) ns)))"

end
