(* ===== verification/FF_RBRep.thy ===== *)
theory FF_RBRep
  imports FF_RBTree
begin

text \<open>
  The store of \<open>FF_RBTree\<close> seen as trees: when a store holds a tree of addresses, the contexts that
  focus on a subtree, search, order and rotations on such stores.
\<close>

section \<open>Trees in the store\<close>

fun tptr :: "addr \<Rightarrow> addr tree \<Rightarrow> addr" where
  "tptr s Leaf = s"
| "tptr s (Node l a r) = a"

fun tree_at :: "rbheap \<Rightarrow> addr \<Rightarrow> addr \<Rightarrow> addr tree \<Rightarrow> bool" where
  "tree_at h s q Leaf = True"
| "tree_at h s q (Node l a r) = (a \<noteq> s \<and> a \<noteq> 0 \<and> n_left (h a) = tptr s l \<and> n_right (h a) = tptr s r
     \<and> n_parent (h a) = q \<and> tree_at h s a l \<and> tree_at h s a r)"

text \<open>A subtree in its tree: the ancestors with their other subtrees, from the inside out.\<close>

datatype frame = LeftOf addr "addr tree" | RightOf "addr tree" addr

fun plug :: "addr tree \<Rightarrow> frame list \<Rightarrow> addr tree" where
  "plug t [] = t"
| "plug t (LeftOf a r # c) = plug (Node t a r) c"
| "plug t (RightOf l a # c) = plug (Node l a t) c"

fun par :: "addr \<Rightarrow> frame list \<Rightarrow> addr" where
  "par s [] = s"
| "par s (LeftOf a r # c) = a"
| "par s (RightOf l a # c) = a"

fun ctx_at :: "rbheap \<Rightarrow> addr \<Rightarrow> addr \<Rightarrow> frame list \<Rightarrow> bool" where
  "ctx_at h s p [] = True"
| "ctx_at h s p (LeftOf a r # c) = (a \<noteq> s \<and> a \<noteq> 0 \<and> n_left (h a) = p \<and> n_right (h a) = tptr s r
     \<and> n_parent (h a) = par s c \<and> tree_at h s a r \<and> ctx_at h s a c)"
| "ctx_at h s p (RightOf l a # c) = (a \<noteq> s \<and> a \<noteq> 0 \<and> n_left (h a) = tptr s l \<and> n_right (h a) = p
     \<and> n_parent (h a) = par s c \<and> tree_at h s a l \<and> ctx_at h s a c)"

fun before :: "frame list \<Rightarrow> addr list" where
  "before [] = []"
| "before (LeftOf a r # c) = before c"
| "before (RightOf l a # c) = before c @ inorder l @ [a]"

fun after :: "frame list \<Rightarrow> addr list" where
  "after [] = []"
| "after (LeftOf a r # c) = a # inorder r @ after c"
| "after (RightOf l a # c) = after c"

lemma inorder_plug [simp]: "inorder (plug t c) = before c @ inorder t @ after c"
  by (induction t c rule: plug.induct) auto

lemma tree_at_plug: "tree_at h s s (plug t c) \<longleftrightarrow> tree_at h s (par s c) t \<and> ctx_at h s (tptr s t) c"
  by (induction t c rule: plug.induct) auto

lemma tptr_plug: "c \<noteq> [] \<Longrightarrow> tptr s (plug t c) = tptr s (plug Leaf c)"
proof (induction c arbitrary: t)
  case (Cons f c)
  then show ?case by (cases f; cases c) (simp_all, metis+)
qed simp

lemma tptr_plug2: "c \<noteq> [] \<Longrightarrow> tptr s (plug t c) = tptr s (plug t' c)"
  using tptr_plug by metis

lemma tree_at_upd [simp]: "a \<notin> set_tree t \<Longrightarrow> tree_at (h(a := v)) s q t = tree_at h s q t"
  by (induction t arbitrary: q) auto

lemma ctx_at_upd [simp]: "a \<notin> set (before c) \<Longrightarrow> a \<notin> set (after c) \<Longrightarrow> ctx_at (h(a := v)) s p c = ctx_at h s p c"
  by (induction h s p c rule: ctx_at.induct) auto

lemma tree_at_not_sentl: "tree_at h s q t \<Longrightarrow> s \<notin> set_tree t \<and> 0 \<notin> set_tree t"
  by (induction t arbitrary: q) auto

lemma ctx_at_not_sentl: "ctx_at h s p c \<Longrightarrow> s \<notin> set (before c) \<and> s \<notin> set (after c) \<and> 0 \<notin> set (before c) \<and> 0 \<notin> set (after c)"
  by (induction h s p c rule: ctx_at.induct) (auto dest: tree_at_not_sentl)

lemma tptr_eq_sentl: "tree_at h s q t \<Longrightarrow> tptr s t = s \<longleftrightarrow> t = Leaf"
  by (cases t) auto

text \<open>A tree with its root: all addresses are different, the sentinel and \<open>NULL\<close> are not among them.\<close>

definition rep :: "rbheap \<Rightarrow> addr \<Rightarrow> addr \<Rightarrow> addr tree \<Rightarrow> bool" where
  "rep h s root t \<longleftrightarrow> root = tptr s t \<and> tree_at h s s t \<and> distinct (inorder t) \<and> s \<noteq> 0"

lemmas field_defs = set_left_def set_right_def set_parent_def set_color_def link_leftchild_def link_rightchild_def

section \<open>Rotations\<close>

lemma tptr_neq: "a \<noteq> s \<Longrightarrow> a \<notin> set_tree l \<Longrightarrow> a \<noteq> tptr s l"
  by (cases l) auto

lemma relink_parent_rep:
  assumes "ctx_at h s a c" "n_parent (h a) = par s c" "distinct (before c @ after c)" "a \<noteq> s"
    and "a \<notin> set (before c)" "a \<notin> set (after c)" "b \<notin> set (before c)" "b \<notin> set (after c)"
    and "relink_parent a b root s h = (h', root')"
  shows "ctx_at h' s b c \<and> root' = (if c = [] then b else root) \<and> n_parent (h' b) = par s c
    \<and> (\<forall>x. n_color (h' x) = n_color (h x) \<and> n_key (h' x) = n_key (h x))
    \<and> (\<forall>x. x \<notin> set (before c) \<and> x \<notin> set (after c) \<longrightarrow> n_left (h' x) = n_left (h x) \<and> n_right (h' x) = n_right (h x))
    \<and> (\<forall>x. x \<noteq> b \<longrightarrow> n_parent (h' x) = n_parent (h x))
    \<and> (\<forall>x. x \<notin> set (before c) \<and> x \<notin> set (after c) \<and> x \<noteq> b \<longrightarrow> h' x = h x)"
proof (cases c)
  case Nil
  with assms show ?thesis by (auto simp: relink_parent_def Let_def field_defs)
next
  case (Cons f c')
  show ?thesis
  proof (cases f)
    case (LeftOf p r)
    then show ?thesis using assms Cons
      by (auto simp: relink_parent_def Let_def field_defs)
  next
    case (RightOf l p)
    then have "a \<noteq> n_left (h p)" using assms(1,4,5) Cons tptr_neq by auto
    then show ?thesis using assms Cons RightOf
      by (auto simp: relink_parent_def Let_def field_defs)
  qed
qed
lemma tree_at_cong: "(\<And>x. x \<in> set_tree t \<Longrightarrow> h' x = h x) \<Longrightarrow> tree_at h' s q t = tree_at h s q t"
  by (induction t arbitrary: q) auto

lemma tree_at_reparent:
  "tree_at h s q t \<Longrightarrow> distinct (inorder t) \<Longrightarrow>
    tree_at (if tptr s t \<noteq> s then set_parent (tptr s t) x h else h) s x t"
  by (cases t) (auto simp: set_parent_def)

lemma relink_colors:
  "relink_parent a b root s h = (h', root') \<Longrightarrow> n_color (h' x) = n_color (h x) \<and> n_key (h' x) = n_key (h x)"
  by (auto simp: relink_parent_def Let_def field_defs split: if_splits)

lemma set_field_colors [simp]:
  "n_color (set_left a v h x) = n_color (h x)" "n_key (set_left a v h x) = n_key (h x)"
  "n_color (set_right a v h x) = n_color (h x)" "n_key (set_right a v h x) = n_key (h x)"
  "n_color (set_parent a v h x) = n_color (h x)" "n_key (set_parent a v h x) = n_key (h x)"
  "n_color (link_leftchild a v h x) = n_color (h x)" "n_key (link_leftchild a v h x) = n_key (h x)"
  "n_color (link_rightchild a v h x) = n_color (h x)" "n_key (link_rightchild a v h x) = n_key (h x)"
  "n_key (set_color a w h x) = n_key (h x)"
  by (auto simp: field_defs)

lemma left_rotate_colors:
  "left_rotate x root s h = (h', root') \<Longrightarrow> n_color (h' a) = n_color (h a) \<and> n_key (h' a) = n_key (h a)"
  unfolding left_rotate_def Let_def
  by (auto dest!: relink_colors [of _ _ _ _ _ _ _ a] split: prod.splits if_splits)

lemma right_rotate_colors:
  "right_rotate x root s h = (h', root') \<Longrightarrow> n_color (h' a) = n_color (h a) \<and> n_key (h' a) = n_key (h a)"
  unfolding right_rotate_def Let_def
  by (auto dest!: relink_colors [of _ _ _ _ _ _ _ a] split: prod.splits if_splits)

lemma left_rotate_focus:
  assumes "tree_at h s (par s c) (Node l x (Node m y r))" "ctx_at h s x c"
    and "distinct (before c @ inorder (Node l x (Node m y r)) @ after c)"
    and "left_rotate x root s h = (h', root')" "s \<noteq> 0"
  shows "tree_at h' s (par s c) (Node (Node l x m) y r) \<and> ctx_at h' s y c
    \<and> root' = (if c = [] then y else root) \<and> h' s = h s"
proof -
  define h1 where "h1 = set_right x (tptr s m) h"
  define h2 where "h2 = (if tptr s m \<noteq> s then set_parent (tptr s m) x h1 else h1)"
  have dist: "x \<noteq> y" "distinct (before c @ after c)" "x \<notin> set (before c)" "x \<notin> set (after c)" "y \<notin> set (before c)" "y \<notin> set (after c)"
    "x \<notin> set_tree l" "x \<notin> set_tree m" "x \<notin> set_tree r" "y \<notin> set_tree l" "y \<notin> set_tree m" "y \<notin> set_tree r"
    "set_tree l \<inter> set_tree m = {}" "set_tree m \<inter> set_tree r = {}"
    "(set_tree l \<union> set_tree m \<union> set_tree r) \<inter> (set (before c) \<union> set (after c)) = {}" "distinct (inorder m)"
    using assms(3) by auto
  have e: "n_right (h x) = y" "n_left (h y) = tptr s m" "set_right x (tptr s m) h y = h y"
    using assms(1) dist(1) by (auto simp: set_right_def)
  have "left_rotate x root s h = (case relink_parent x y root s h2 of (h3, r) \<Rightarrow> (link_leftchild y x h3, r))"
    unfolding left_rotate_def Let_def e(1) e(2) e(3) h2_def h1_def by simp
  then obtain h3 where h3: "relink_parent x y root s h2 = (h3, root')" and h': "h' = link_leftchild y x h3"
    using assms(4) by (auto split: prod.splits)
  have ne: "x \<noteq> s" "y \<noteq> s" using assms(1) by auto
  have m: "tptr s m \<noteq> s \<Longrightarrow> tptr s m \<in> set_tree m" by (cases m) auto
  have mm: "tptr s m \<noteq> s \<Longrightarrow> tptr s m \<notin> set (before c) \<and> tptr s m \<notin> set (after c)"
    using m dist(15) by blast
  have h1_eq: "h1 a = h a" if "a \<noteq> x" for a using that by (simp add: h1_def set_right_def)
  have h2_eq: "h2 a = h a" if "a \<noteq> x" "a \<notin> set_tree m" for a
    using that m by (auto simp: h2_def h1_eq set_parent_def)
  have h2_y: "h2 y = h y" and h2_x: "h2 x = h1 x" and h2_s: "h2 s = h s"
    using h2_eq [of y] h2_eq [of s] dist ne m tree_at_not_sentl [OF assms(1)] by (auto simp: h2_def set_parent_def)
  have m2: "tree_at h2 s x m"
    unfolding h2_def using assms(1) dist(8,16) by (intro tree_at_reparent [of _ _ y]) (auto simp: h1_def set_right_def)
  have l2: "tree_at h2 s x l" using assms(1) dist by (subst tree_at_cong [of _ _ h]) (auto intro!: h2_eq)
  have r2: "tree_at h2 s y r" using assms(1) dist by (subst tree_at_cong [of _ _ h]) (auto intro!: h2_eq)
  have c2: "ctx_at h2 s x c"
    using assms(2) dist(3,4) mm by (auto simp: h2_def h1_def set_right_def set_parent_def)
  have "n_parent (h2 x) = par s c" using assms(1) by (simp add: h2_x h1_def set_right_def)
  from relink_parent_rep [OF c2 this dist(2) ne(1) dist(3-6) h3]
  have r3: "ctx_at h3 s y c" "root' = (if c = [] then y else root)" "n_parent (h3 y) = par s c"
    "n_left (h3 y) = n_left (h2 y)" "n_right (h3 y) = n_right (h2 y)" "h3 x = h2 x"
    and eq3: "\<And>a. a \<notin> set (before c) \<and> a \<notin> set (after c) \<and> a \<noteq> y \<Longrightarrow> h3 a = h2 a"
    using dist by auto
  have t3: "tree_at h3 s x l" "tree_at h3 s x m" "tree_at h3 s y r"
    using l2 m2 r2 dist by (subst tree_at_cong [of _ _ h2]; auto intro!: eq3)+
  have "h3 s = h s" using eq3 [of s] ne ctx_at_not_sentl [OF assms(2)] h2_s by auto
  then show ?thesis using r3 t3 dist ne assms(1)
    unfolding h' link_leftchild_def set_parent_def set_left_def
    by (simp add: h2_x h2_y h1_def set_right_def)
qed
lemma right_rotate_focus:
  assumes "tree_at h s (par s c) (Node (Node r y m) x l)" "ctx_at h s x c"
    and "distinct (before c @ inorder (Node (Node r y m) x l) @ after c)"
    and "right_rotate x root s h = (h', root')" "s \<noteq> 0"
  shows "tree_at h' s (par s c) (Node r y (Node m x l)) \<and> ctx_at h' s y c
    \<and> root' = (if c = [] then y else root) \<and> h' s = h s"
proof -
  define h1 where "h1 = set_left x (tptr s m) h"
  define h2 where "h2 = (if tptr s m \<noteq> s then set_parent (tptr s m) x h1 else h1)"
  have dist: "x \<noteq> y" "distinct (before c @ after c)" "x \<notin> set (before c)" "x \<notin> set (after c)" "y \<notin> set (before c)" "y \<notin> set (after c)"
    "x \<notin> set_tree l" "x \<notin> set_tree m" "x \<notin> set_tree r" "y \<notin> set_tree l" "y \<notin> set_tree m" "y \<notin> set_tree r"
    "set_tree l \<inter> set_tree m = {}" "set_tree m \<inter> set_tree r = {}"
    "(set_tree l \<union> set_tree m \<union> set_tree r) \<inter> (set (before c) \<union> set (after c)) = {}" "distinct (inorder m)"
    using assms(3) by auto
  have e: "n_left (h x) = y" "n_right (h y) = tptr s m" "set_left x (tptr s m) h y = h y"
    using assms(1) dist(1) by (auto simp: set_left_def)
  have "right_rotate x root s h = (case relink_parent x y root s h2 of (h3, r) \<Rightarrow> (link_rightchild y x h3, r))"
    unfolding right_rotate_def Let_def e(1) e(2) e(3) h2_def h1_def by simp
  then obtain h3 where h3: "relink_parent x y root s h2 = (h3, root')" and h': "h' = link_rightchild y x h3"
    using assms(4) by (auto split: prod.splits)
  have ne: "x \<noteq> s" "y \<noteq> s" using assms(1) by auto
  have m: "tptr s m \<noteq> s \<Longrightarrow> tptr s m \<in> set_tree m" by (cases m) auto
  have mm: "tptr s m \<noteq> s \<Longrightarrow> tptr s m \<notin> set (before c) \<and> tptr s m \<notin> set (after c)"
    using m dist(15) by blast
  have h1_eq: "h1 a = h a" if "a \<noteq> x" for a using that by (simp add: h1_def set_left_def)
  have h2_eq: "h2 a = h a" if "a \<noteq> x" "a \<notin> set_tree m" for a
    using that m by (auto simp: h2_def h1_eq set_parent_def)
  have h2_y: "h2 y = h y" and h2_x: "h2 x = h1 x" and h2_s: "h2 s = h s"
    using h2_eq [of y] h2_eq [of s] dist ne m tree_at_not_sentl [OF assms(1)] by (auto simp: h2_def set_parent_def)
  have m2: "tree_at h2 s x m"
    unfolding h2_def using assms(1) dist(8,16) by (intro tree_at_reparent [of _ _ y]) (auto simp: h1_def set_left_def)
  have l2: "tree_at h2 s x l" using assms(1) dist by (subst tree_at_cong [of _ _ h]) (auto intro!: h2_eq)
  have r2: "tree_at h2 s y r" using assms(1) dist by (subst tree_at_cong [of _ _ h]) (auto intro!: h2_eq)
  have c2: "ctx_at h2 s x c"
    using assms(2) dist(3,4) mm by (auto simp: h2_def h1_def set_left_def set_parent_def)
  have "n_parent (h2 x) = par s c" using assms(1) by (simp add: h2_x h1_def set_left_def)
  from relink_parent_rep [OF c2 this dist(2) ne(1) dist(3-6) h3]
  have r3: "ctx_at h3 s y c" "root' = (if c = [] then y else root)" "n_parent (h3 y) = par s c"
    "n_right (h3 y) = n_right (h2 y)" "n_left (h3 y) = n_left (h2 y)" "h3 x = h2 x"
    and eq3: "\<And>a. a \<notin> set (before c) \<and> a \<notin> set (after c) \<and> a \<noteq> y \<Longrightarrow> h3 a = h2 a"
    using dist by auto
  have t3: "tree_at h3 s x l" "tree_at h3 s x m" "tree_at h3 s y r"
    using l2 m2 r2 dist by (subst tree_at_cong [of _ _ h2]; auto intro!: eq3)+
  have "h3 s = h s" using eq3 [of s] ne ctx_at_not_sentl [OF assms(2)] h2_s by auto
  then show ?thesis using r3 t3 dist ne assms(1)
    unfolding h' link_rightchild_def set_parent_def set_right_def
    by (simp add: h2_x h2_y h1_def set_left_def)
qed
text \<open>The same for whole trees, with a subtree in focus.\<close>

lemma left_rotate_rep:
  assumes "rep h s root (plug (Node l x (Node m y r)) c)" "left_rotate x root s h = (h', root')"
  shows "rep h' s root' (plug (Node (Node l x m) y r) c) \<and> h' s = h s"
proof -
  have f: "tree_at h s (par s c) (Node l x (Node m y r))" "ctx_at h s x c"
    "distinct (before c @ inorder (Node l x (Node m y r)) @ after c)" "s \<noteq> 0" "root = tptr s (plug (Node l x (Node m y r)) c)"
    using assms(1) by (simp_all add: rep_def tree_at_plug)
  from left_rotate_focus [OF f(1-3) assms(2) f(4)] show ?thesis
    using f(3-5) tptr_plug2 [of c s "Node l x (Node m y r)" "Node (Node l x m) y r"] by (cases "c = []") (auto simp: rep_def tree_at_plug)
qed

lemma right_rotate_rep:
  assumes "rep h s root (plug (Node (Node r y m) x l) c)" "right_rotate x root s h = (h', root')"
  shows "rep h' s root' (plug (Node r y (Node m x l)) c) \<and> h' s = h s"
proof -
  have f: "tree_at h s (par s c) (Node (Node r y m) x l)" "ctx_at h s x c"
    "distinct (before c @ inorder (Node (Node r y m) x l) @ after c)" "s \<noteq> 0" "root = tptr s (plug (Node (Node r y m) x l) c)"
    using assms(1) by (simp_all add: rep_def tree_at_plug)
  from right_rotate_focus [OF f(1-3) assms(2) f(4)] show ?thesis
    using f(3-5) tptr_plug2 [of c s "Node (Node r y m) x l" "Node r y (Node m x l)"] by (cases "c = []") (auto simp: rep_def tree_at_plug)
qed

lemma tree_at_set_color [simp]: "tree_at (set_color a v h) s q t = tree_at h s q t"
  by (induction t arbitrary: q) (auto simp: set_color_def)

lemma rep_set_color [simp]: "rep (set_color a v h) s root t = rep h s root t"
  by (simp add: rep_def)

section \<open>Colours\<close>

text \<open>The colours of a store, and the red-black invariants for a colouring of the addresses.\<close>

definition cl :: "rbheap \<Rightarrow> addr \<Rightarrow> nat" where
  "cl h = (\<lambda>a. n_color (h a))"

fun tcol :: "(addr \<Rightarrow> nat) \<Rightarrow> addr tree \<Rightarrow> nat" where
  "tcol col Leaf = BLACK"
| "tcol col (Node l a r) = col a"

fun invc :: "(addr \<Rightarrow> nat) \<Rightarrow> addr tree \<Rightarrow> bool" where
  "invc col Leaf = True"
| "invc col (Node l a r) = ((col a = BLACK \<or> col a = RED \<and> tcol col l = BLACK \<and> tcol col r = BLACK)
     \<and> invc col l \<and> invc col r)"

fun bheight :: "(addr \<Rightarrow> nat) \<Rightarrow> addr tree \<Rightarrow> nat" where
  "bheight col Leaf = 0"
| "bheight col (Node l a r) = bheight col l + of_bool (col a = BLACK)"

fun invh :: "(addr \<Rightarrow> nat) \<Rightarrow> addr tree \<Rightarrow> bool" where
  "invh col Leaf = True"
| "invh col (Node l a r) = (bheight col l = bheight col r \<and> invh col l \<and> invh col r)"

fun pcol :: "(addr \<Rightarrow> nat) \<Rightarrow> frame list \<Rightarrow> nat" where
  "pcol col [] = BLACK"
| "pcol col (LeftOf a r # c) = col a"
| "pcol col (RightOf l a # c) = col a"

text \<open>A context into which a subtree of black height \<open>n\<close> fits; a red ancestor is not the root.\<close>

fun fits :: "(addr \<Rightarrow> nat) \<Rightarrow> nat \<Rightarrow> frame list \<Rightarrow> bool" where
  "fits col n [] = True"
| "fits col n (LeftOf a t # c) = ((col a = BLACK \<or> col a = RED \<and> tcol col t = BLACK \<and> pcol col c = BLACK \<and> c \<noteq> [])
     \<and> invc col t \<and> invh col t \<and> bheight col t = n \<and> fits col (n + of_bool (col a = BLACK)) c)"
| "fits col n (RightOf t a # c) = ((col a = BLACK \<or> col a = RED \<and> tcol col t = BLACK \<and> pcol col c = BLACK \<and> c \<noteq> [])
     \<and> invc col t \<and> invh col t \<and> bheight col t = n \<and> fits col (n + of_bool (col a = BLACK)) c)"

definition rbt :: "(addr \<Rightarrow> nat) \<Rightarrow> addr tree \<Rightarrow> bool" where
  "rbt col t \<longleftrightarrow> invc col t \<and> invh col t \<and> tcol col t = BLACK"

lemma colors [simp]: "RED \<noteq> BLACK" "BLACK \<noteq> RED"
  by (simp_all add: RED_def BLACK_def)

lemma rbt_plug:
  assumes "invc col t" "invh col t" "fits col (bheight col t) c" "tcol col t = BLACK \<or> pcol col c = BLACK"
  shows "invc col (plug t c) \<and> invh col (plug t c) \<and> (c \<noteq> [] \<or> tcol col t = BLACK \<longrightarrow> tcol col (plug t c) = BLACK)"
  using assms
proof (induction t c rule: plug.induct)
  case (2 t a r c)
  then show ?case by (cases "c = []") (auto simp: add.commute)
next
  case (3 t l a c)
  then show ?case by (cases "c = []") (auto simp: add.commute)
qed simp

lemma fits_of_rbt: "invc col (plug t c) \<Longrightarrow> invh col (plug t c) \<Longrightarrow> tcol col (plug t c) = BLACK
    \<Longrightarrow> invc col t \<and> invh col t \<and> fits col (bheight col t) c \<and> (tcol col t = BLACK \<or> pcol col c = BLACK \<and> c \<noteq> [])"
  by (induction t c rule: plug.induct) auto

lemma color_upd [simp]:
  "a \<notin> set_tree t \<Longrightarrow> tcol (col(a := v)) t = tcol col t"
  "a \<notin> set_tree t \<Longrightarrow> invc (col(a := v)) t = invc col t"
  "a \<notin> set_tree t \<Longrightarrow> bheight (col(a := v)) t = bheight col t"
  "a \<notin> set_tree t \<Longrightarrow> invh (col(a := v)) t = invh col t"
proof -
  show 1: "a \<notin> set_tree t \<Longrightarrow> tcol (col(a := v)) t = tcol col t" for t by (cases t) auto
  show 2: "a \<notin> set_tree t \<Longrightarrow> bheight (col(a := v)) t = bheight col t" for t by (induction t) auto
  show "a \<notin> set_tree t \<Longrightarrow> invc (col(a := v)) t = invc col t" by (induction t) (auto simp: 1)
  show "a \<notin> set_tree t \<Longrightarrow> invh (col(a := v)) t = invh col t" by (induction t) (auto simp: 2)
qed

lemma ctx_color_upd [simp]:
  "a \<notin> set (before c) \<Longrightarrow> a \<notin> set (after c) \<Longrightarrow> pcol (col(a := v)) c = pcol col c"
  "a \<notin> set (before c) \<Longrightarrow> a \<notin> set (after c) \<Longrightarrow> fits (col(a := v)) n c = fits col n c"
proof -
  show 1: "a \<notin> set (before c) \<Longrightarrow> a \<notin> set (after c) \<Longrightarrow> pcol (col(a := v)) c = pcol col c" for c col
    by (cases "(col, c)" rule: pcol.cases) auto
  show "a \<notin> set (before c) \<Longrightarrow> a \<notin> set (after c) \<Longrightarrow> fits (col(a := v)) n c = fits col n c"
    by (induction col n c rule: fits.induct) (auto simp: 1)
qed

lemma cl_set_color [simp]: "cl (set_color a v h) = (cl h)(a := v)"
  by (auto simp: cl_def set_color_def)

lemma cl_rotate:
  "left_rotate x root s h = (h', root') \<Longrightarrow> cl h' = cl h"
  "right_rotate x root s h = (h', root') \<Longrightarrow> cl h' = cl h"
  by (auto simp: cl_def dest: left_rotate_colors right_rotate_colors)

lemma tcol_ptr: "cl h s = BLACK \<Longrightarrow> tcol (cl h) t = n_color (h (tptr s t))"
  by (cases t) (auto simp: cl_def)

end
