(* ===== verification/FF_RBInsert.thy ===== *)
theory FF_RBInsert
  imports FF_RBRep
begin

text \<open>
  Searching, walking and inserting in the red-black tree of \<open>ffrbtree.c\<close>.
\<close>

section \<open>The fixup after an insertion\<close>

lemma rep_plug:
  "rep h s root (plug t c) \<longleftrightarrow> root = tptr s (plug t c) \<and> tree_at h s (par s c) t \<and> ctx_at h s (tptr s t) c
     \<and> distinct (before c @ inorder t @ after c) \<and> s \<noteq> 0"
  by (auto simp: rep_def tree_at_plug)

lemma rotate_right_fix:
  assumes "rep h s root (plug (Node (Node (Node l n r) p ps) gp u) c)"
    and "right_rotate gp root s h = (h', root')"
    and "invc (cl h) l" "invc (cl h) r" "tcol (cl h) l = BLACK" "tcol (cl h) r = BLACK" "invc (cl h) ps" "invc (cl h) u"
    and "tcol (cl h) ps = BLACK" "tcol (cl h) u = BLACK" "cl h n = RED" "cl h p = BLACK" "cl h gp = RED"
    and "invh (cl h) (Node l n r)" "invh (cl h) ps" "invh (cl h) u"
    and "bheight (cl h) ps = bheight (cl h) l" "bheight (cl h) u = bheight (cl h) l"
    and "fits (cl h) (bheight (cl h) l + 1) c"
  shows "\<exists>t'. rep h' s root' t' \<and> inorder t' = inorder (plug (Node (Node (Node l n r) p ps) gp u) c)
    \<and> rbt (cl h') t' \<and> cl h' = cl h"
proof -
  let ?t = "Node (Node l n r) p (Node ps gp u)"
  note rot = right_rotate_rep [OF assms(1,2)] and cl = cl_rotate(2) [OF assms(2)]
  have "rbt (cl h) (plug ?t c)"
    using rbt_plug [of "cl h" ?t c] assms(3-19) by (simp add: rbt_def)
  with rot cl show ?thesis by (intro exI [of _ "plug ?t c"]) simp
qed

lemma rotate_left_fix:
  assumes "rep h s root (plug (Node u gp (Node ps p (Node l n r))) c)"
    and "left_rotate gp root s h = (h', root')"
    and "invc (cl h) l" "invc (cl h) r" "tcol (cl h) l = BLACK" "tcol (cl h) r = BLACK" "invc (cl h) ps" "invc (cl h) u"
    and "tcol (cl h) ps = BLACK" "tcol (cl h) u = BLACK" "cl h n = RED" "cl h p = BLACK" "cl h gp = RED"
    and "invh (cl h) (Node l n r)" "invh (cl h) ps" "invh (cl h) u"
    and "bheight (cl h) ps = bheight (cl h) l" "bheight (cl h) u = bheight (cl h) l"
    and "fits (cl h) (bheight (cl h) l + 1) c"
  shows "\<exists>t'. rep h' s root' t' \<and> inorder t' = inorder (plug (Node u gp (Node ps p (Node l n r))) c)
    \<and> rbt (cl h') t' \<and> cl h' = cl h"
proof -
  let ?t = "Node (Node u gp ps) p (Node l n r)"
  note rot = left_rotate_rep [OF assms(1,2)] and cl = cl_rotate(1) [OF assms(2)]
  have "rbt (cl h) (plug ?t c)"
    using rbt_plug [of "cl h" ?t c] assms(3-19) by (simp add: rbt_def)
  with rot cl show ?thesis by (intro exI [of _ "plug ?t c"]) simp
qed

definition ins_ok :: "rbheap \<Rightarrow> addr \<Rightarrow> addr \<Rightarrow> addr \<Rightarrow> addr tree \<Rightarrow> addr tree \<Rightarrow> frame list \<Rightarrow> bool" where
  "ins_ok h s root n l r c \<longleftrightarrow> rep h s root (plug (Node l n r) c) \<and> cl h s = BLACK \<and> cl h n = RED
     \<and> invc (cl h) l \<and> invc (cl h) r \<and> tcol (cl h) l = BLACK \<and> tcol (cl h) r = BLACK
     \<and> invh (cl h) (Node l n r) \<and> fits (cl h) (bheight (cl h) l) c"

definition ins_post :: "rbheap \<Rightarrow> addr \<Rightarrow> addr list \<Rightarrow> rbheap \<times> addr \<Rightarrow> bool" where
  "ins_post h s xs res \<longleftrightarrow> (case res of (h', root') \<Rightarrow> \<exists>t'. rep h' s root' t' \<and> inorder t' = xs
     \<and> rbt ((cl h')(root' := BLACK)) t' \<and> cl h' s = BLACK \<and> (\<forall>a. n_key (h' a) = n_key (h a)))"

lemma rbt_root_black:
  "rep h s root t \<Longrightarrow> cl h s = BLACK \<Longrightarrow> rbt (cl h) t \<Longrightarrow> (cl h)(root := BLACK) = cl h"
  by (cases t) (auto simp: rep_def rbt_def)

lemma ins_postI:
  assumes "\<exists>t'. rep h' s root' t' \<and> inorder t' = xs \<and> rbt (cl h') t' \<and> cl h' = col" "col s = BLACK"
    and "\<And>a. n_key (h' a) = n_key (h a)"
  shows "ins_post h s xs (h', root')"
proof -
  from assms(1) obtain t' where t: "rep h' s root' t'" "inorder t' = xs" "rbt (cl h') t'" and cl: "cl h' s = BLACK"
    using assms(2) by blast
  have "rbt ((cl h')(root' := BLACK)) t'" unfolding rbt_root_black [OF t(1) cl t(3)] by (rule t(3))
  with t cl assms(3) show ?thesis unfolding ins_post_def by auto
qed

lemma insert_fixup_LL:
  assumes "ins_ok h s root n l r (LeftOf p ps # LeftOf gp u # c)" "cl h p = RED" "tcol (cl h) u = BLACK"
  shows "\<exists>res. insert_fixup s n root h = Some res \<and> ins_post h s (inorder (plug (Node l n r) (LeftOf p ps # LeftOf gp u # c))) res"
proof -
  have rep: "rep h s root (plug (Node (Node (Node l n r) p ps) gp u) c)"
    and inv: "cl h s = BLACK" "cl h n = RED" "invc (cl h) l" "invc (cl h) r" "tcol (cl h) l = BLACK" "tcol (cl h) r = BLACK"
      "invh (cl h) (Node l n r)" and fits: "fits (cl h) (bheight (cl h) l) (LeftOf p ps # LeftOf gp u # c)"
    using assms(1) unfolding ins_ok_def plug.simps by blast+
  have fit: "tcol (cl h) ps = BLACK" "cl h gp = BLACK" "invc (cl h) ps" "invh (cl h) ps" "bheight (cl h) ps = bheight (cl h) l"
    "invc (cl h) u" "invh (cl h) u" "bheight (cl h) u = bheight (cl h) l" "fits (cl h) (bheight (cl h) l + 1) c"
    using fits assms(2) by auto
  have d: "distinct (before c @ inorder l @ n # inorder r @ p # inorder ps @ gp # inorder u @ after c)"
    using rep by (simp add: rep_plug)
  have f: "n_parent (h n) = p" "n_parent (h p) = gp" "n_left (h gp) = p" "n_right (h gp) = tptr s u" "n_color (h (tptr s u)) = BLACK"
    "n \<noteq> n_right (h p)" "n_color (h p) = RED" "s \<noteq> p" "s \<noteq> gp"
    using rep assms(2,3) inv(1) d tptr_neq [of n s ps] tcol_ptr [of h s u] by (simp_all add: rep_plug) (auto simp: cl_def)
  define h1 where "h1 = set_color gp RED (set_color p BLACK h)"
  obtain h' root' where rot: "right_rotate gp root s h1 = (h', root')" by fastforce
  have res: "insert_fixup s n root h = Some (h', root')"
    by (subst insert_fixup.simps) (simp add: f Let_def h1_def [symmetric] rot)
  have "rep h1 s root (plug (Node (Node (Node l n r) p ps) gp u) c)" using rep by (simp add: h1_def)
  from rotate_right_fix [OF this rot]
  have "\<exists>t'. rep h' s root' t' \<and> inorder t' = inorder (plug (Node (Node (Node l n r) p ps) gp u) c)
    \<and> rbt (cl h') t' \<and> cl h' = cl h1"
    using inv fit d assms(2,3) by (simp add: h1_def)
  then have "ins_post h s (inorder (plug (Node (Node (Node l n r) p ps) gp u) c)) (h', root')"
    by (rule ins_postI) (use inv f right_rotate_colors [OF rot] in \<open>simp_all add: h1_def\<close>)
  with res show ?thesis by simp
qed
lemma insert_fixup_LR:
  assumes "ins_ok h s root n l r (RightOf ps p # LeftOf gp u # c)" "cl h p = RED" "tcol (cl h) u = BLACK"
  shows "\<exists>res. insert_fixup s n root h = Some res \<and> ins_post h s (inorder (plug (Node l n r) (RightOf ps p # LeftOf gp u # c))) res"
proof -
  have rep: "rep h s root (plug (Node (Node ps p (Node l n r)) gp u) c)"
    and inv: "cl h s = BLACK" "cl h n = RED" "invc (cl h) l" "invc (cl h) r" "tcol (cl h) l = BLACK" "tcol (cl h) r = BLACK"
      "invh (cl h) (Node l n r)" and fits: "fits (cl h) (bheight (cl h) l) (RightOf ps p # LeftOf gp u # c)"
    using assms(1) unfolding ins_ok_def plug.simps by blast+
  have fit: "tcol (cl h) ps = BLACK" "cl h gp = BLACK" "invc (cl h) ps" "invh (cl h) ps" "bheight (cl h) ps = bheight (cl h) l"
    "invc (cl h) u" "invh (cl h) u" "bheight (cl h) u = bheight (cl h) l" "fits (cl h) (bheight (cl h) l + 1) c"
    using fits assms(2) by auto
  have d: "distinct (before c @ inorder ps @ p # inorder l @ n # inorder r @ gp # inorder u @ after c)"
    using rep by (simp add: rep_plug)
  have f: "n_parent (h n) = p" "n_parent (h p) = gp" "n_left (h gp) = p" "n_right (h gp) = tptr s u" "n_color (h (tptr s u)) = BLACK"
    "n = n_right (h p)" "n_color (h p) = RED" "s \<noteq> n" "s \<noteq> gp"
    using rep assms(2,3) inv(1) d tcol_ptr [of h s u] by (simp_all add: rep_plug) (auto simp: cl_def)
  obtain h0 root0 where rot0: "left_rotate p root s h = (h0, root0)" by fastforce
  have "rep h s root (plug (Node ps p (Node l n r)) (LeftOf gp u # c))" using rep by simp
  from left_rotate_rep [OF this rot0] have rep0: "rep h0 s root0 (plug (Node (Node (Node ps p l) n r) gp u) c)" by simp
  then have f0: "n_parent (h0 p) = n" by (simp add: rep_plug)
  define h1 where "h1 = set_color gp RED (set_color n BLACK h0)"
  obtain h' root' where rot: "right_rotate gp root0 s h1 = (h', root')" by fastforce
  have res: "insert_fixup s n root h = Some (h', root')"
    by (subst insert_fixup.simps) (simp add: f(1-5) f(6) [symmetric] f(7-) f0 Let_def h1_def [symmetric] rot0 rot)
  have "rep h1 s root0 (plug (Node (Node (Node ps p l) n r) gp u) c)" using rep0 by (simp add: h1_def)
  from rotate_right_fix [OF this rot]
  have "\<exists>t'. rep h' s root' t' \<and> inorder t' = inorder (plug (Node (Node (Node ps p l) n r) gp u) c)
    \<and> rbt (cl h') t' \<and> cl h' = cl h1"
    using inv fit d assms(2,3) cl_rotate(1) [OF rot0] by (simp add: h1_def)
  then have "ins_post h s (inorder (plug (Node (Node (Node ps p l) n r) gp u) c)) (h', root')"
    by (rule ins_postI)
      (use inv f right_rotate_colors [OF rot] left_rotate_colors [OF rot0] cl_rotate(1) [OF rot0] in \<open>simp_all add: h1_def\<close>)
  with res show ?thesis by simp
qed

lemma insert_fixup_RR:
  assumes "ins_ok h s root n l r (RightOf ps p # RightOf u gp # c)" "cl h p = RED" "tcol (cl h) u = BLACK"
  shows "\<exists>res. insert_fixup s n root h = Some res \<and> ins_post h s (inorder (plug (Node l n r) (RightOf ps p # RightOf u gp # c))) res"
proof -
  have rep: "rep h s root (plug (Node u gp (Node ps p (Node l n r))) c)"
    and inv: "cl h s = BLACK" "cl h n = RED" "invc (cl h) l" "invc (cl h) r" "tcol (cl h) l = BLACK" "tcol (cl h) r = BLACK"
      "invh (cl h) (Node l n r)" and fits: "fits (cl h) (bheight (cl h) l) (RightOf ps p # RightOf u gp # c)"
    using assms(1) unfolding ins_ok_def plug.simps by blast+
  have fit: "tcol (cl h) ps = BLACK" "cl h gp = BLACK" "invc (cl h) ps" "invh (cl h) ps" "bheight (cl h) ps = bheight (cl h) l"
    "invc (cl h) u" "invh (cl h) u" "bheight (cl h) u = bheight (cl h) l" "fits (cl h) (bheight (cl h) l + 1) c"
    using fits assms(2) by auto
  have d: "distinct (before c @ inorder u @ gp # inorder ps @ p # inorder l @ n # inorder r @ after c)"
    using rep by (simp add: rep_plug)
  have f: "n_parent (h n) = p" "n_parent (h p) = gp" "n_right (h gp) = p" "n_left (h gp) = tptr s u" "n_color (h (tptr s u)) = BLACK"
    "n \<noteq> n_left (h p)" "n_color (h p) = RED" "p \<noteq> tptr s u" "s \<noteq> p" "s \<noteq> gp"
    using rep assms(2,3) inv(1) d tptr_neq [of n s ps] tptr_neq [of p s u] tcol_ptr [of h s u] tptr_neq [of p s u] by (simp_all add: rep_plug) (auto simp: cl_def)
  define h1 where "h1 = set_color gp RED (set_color p BLACK h)"
  obtain h' root' where rot: "left_rotate gp root s h1 = (h', root')" by fastforce
  have res: "insert_fixup s n root h = Some (h', root')"
    by (subst insert_fixup.simps) (simp add: f Let_def h1_def [symmetric] rot)
  have "rep h1 s root (plug (Node u gp (Node ps p (Node l n r))) c)" using rep by (simp add: h1_def)
  from rotate_left_fix [OF this rot]
  have "\<exists>t'. rep h' s root' t' \<and> inorder t' = inorder (plug (Node u gp (Node ps p (Node l n r))) c)
    \<and> rbt (cl h') t' \<and> cl h' = cl h1"
    using inv fit d assms(2,3) by (simp add: h1_def)
  then have "ins_post h s (inorder (plug (Node u gp (Node ps p (Node l n r))) c)) (h', root')"
    by (rule ins_postI) (use inv f left_rotate_colors [OF rot] in \<open>simp_all add: h1_def\<close>)
  with res show ?thesis by simp
qed
lemma insert_fixup_RL:
  assumes "ins_ok h s root n l r (LeftOf p ps # RightOf u gp # c)" "cl h p = RED" "tcol (cl h) u = BLACK"
  shows "\<exists>res. insert_fixup s n root h = Some res \<and> ins_post h s (inorder (plug (Node l n r) (LeftOf p ps # RightOf u gp # c))) res"
proof -
  have rep: "rep h s root (plug (Node u gp (Node (Node l n r) p ps)) c)"
    and inv: "cl h s = BLACK" "cl h n = RED" "invc (cl h) l" "invc (cl h) r" "tcol (cl h) l = BLACK" "tcol (cl h) r = BLACK"
      "invh (cl h) (Node l n r)" and fits: "fits (cl h) (bheight (cl h) l) (LeftOf p ps # RightOf u gp # c)"
    using assms(1) unfolding ins_ok_def plug.simps by blast+
  have fit: "tcol (cl h) ps = BLACK" "cl h gp = BLACK" "invc (cl h) ps" "invh (cl h) ps" "bheight (cl h) ps = bheight (cl h) l"
    "invc (cl h) u" "invh (cl h) u" "bheight (cl h) u = bheight (cl h) l" "fits (cl h) (bheight (cl h) l + 1) c"
    using fits assms(2) by auto
  have d: "distinct (before c @ inorder u @ gp # inorder l @ n # inorder r @ p # inorder ps @ after c)"
    using rep by (simp add: rep_plug)
  have f: "n_parent (h n) = p" "n_parent (h p) = gp" "n_right (h gp) = p" "n_left (h gp) = tptr s u" "n_color (h (tptr s u)) = BLACK"
    "n = n_left (h p)" "n_color (h p) = RED" "p \<noteq> tptr s u" "s \<noteq> n" "s \<noteq> gp"
    using rep assms(2,3) inv(1) d tcol_ptr [of h s u] tptr_neq [of p s u] by (simp_all add: rep_plug) (auto simp: cl_def)
  obtain h0 root0 where rot0: "right_rotate p root s h = (h0, root0)" by fastforce
  have "rep h s root (plug (Node (Node l n r) p ps) (RightOf u gp # c))" using rep by simp
  from right_rotate_rep [OF this rot0] have rep0: "rep h0 s root0 (plug (Node u gp (Node l n (Node r p ps))) c)" by simp
  then have f0: "n_parent (h0 p) = n" by (simp add: rep_plug)
  define h1 where "h1 = set_color gp RED (set_color n BLACK h0)"
  obtain h' root' where rot: "left_rotate gp root0 s h1 = (h', root')" by fastforce
  have res: "insert_fixup s n root h = Some (h', root')"
    by (subst insert_fixup.simps) (simp add: f(1-5) f(6) [symmetric] f(7-) f0 Let_def h1_def [symmetric] rot0 rot)
  have "rep h1 s root0 (plug (Node u gp (Node l n (Node r p ps))) c)" using rep0 by (simp add: h1_def)
  from rotate_left_fix [OF this rot]
  have "\<exists>t'. rep h' s root' t' \<and> inorder t' = inorder (plug (Node u gp (Node l n (Node r p ps))) c)
    \<and> rbt (cl h') t' \<and> cl h' = cl h1"
    using inv fit d assms(2,3) cl_rotate(2) [OF rot0] by (simp add: h1_def)
  then have "ins_post h s (inorder (plug (Node u gp (Node l n (Node r p ps))) c)) (h', root')"
    by (rule ins_postI)
      (use inv f left_rotate_colors [OF rot] right_rotate_colors [OF rot0] cl_rotate(2) [OF rot0] in \<open>simp_all add: h1_def\<close>)
  with res show ?thesis by simp
qed

lemma insert_fixup_LL_red:
  assumes "ins_ok h s root n l r (LeftOf p ps # LeftOf gp u # c)" "cl h p = RED" "tcol (cl h) u \<noteq> BLACK"
  shows "\<exists>h1. insert_fixup s n root h = insert_fixup s gp root h1 \<and> ins_ok h1 s root gp (Node (Node l n r) p ps) u c
    \<and> (\<forall>a. n_key (h1 a) = n_key (h a))"
proof -
  have rep: "rep h s root (plug (Node (Node (Node l n r) p ps) gp u) c)"
    and inv: "cl h s = BLACK" "cl h n = RED" "invc (cl h) l" "invc (cl h) r" "tcol (cl h) l = BLACK" "tcol (cl h) r = BLACK"
      "invh (cl h) (Node l n r)" and fits: "fits (cl h) (bheight (cl h) l) (LeftOf p ps # LeftOf gp u # c)"
    using assms(1) unfolding ins_ok_def plug.simps by blast+
  obtain ul ua ur where u: "u = Node ul ua ur" using assms(3) by (cases u) auto
  have d: "distinct (before c @ inorder l @ n # inorder r @ p # inorder ps @ gp # inorder ul @ ua # inorder ur @ after c)"
    using rep by (simp add: rep_plug u)
  have f: "n_parent (h n) = p" "n_parent (h p) = gp" "n_left (h gp) = p" "n_right (h gp) = ua" "n_color (h ua) \<noteq> BLACK"
    "n_color (h p) = RED" "p \<noteq> ua" "s \<noteq> p" "s \<noteq> ua" "s \<noteq> gp"
    using rep assms(2,3) d by (simp_all add: rep_plug u) (auto simp: cl_def)
  have fit: "tcol (cl h) ps = BLACK" "cl h gp = BLACK" "invc (cl h) ps" "invh (cl h) ps" "bheight (cl h) ps = bheight (cl h) l"
    "invc (cl h) ul" "invc (cl h) ur" "invh (cl h) ul" "invh (cl h) ur" "bheight (cl h) ul = bheight (cl h) l"
    "bheight (cl h) ur = bheight (cl h) l" "fits (cl h) (bheight (cl h) l + 1) c"
    "tcol (cl h) ul = BLACK" "tcol (cl h) ur = BLACK"
    using fits assms(2,3) by (auto simp: u)
  define h1 where "h1 = set_color gp RED (set_color ua BLACK (set_color p BLACK h))"
  have "insert_fixup s n root h = insert_fixup s gp root h1"
    by (subst insert_fixup.simps) (simp add: f Let_def h1_def [symmetric])
  moreover have "ins_ok h1 s root gp (Node (Node l n r) p ps) u c"
    using rep inv fit d f(8-10) by (simp add: ins_ok_def h1_def u)
  moreover have "\<forall>a. n_key (h1 a) = n_key (h a)" by (simp add: h1_def)
  ultimately show ?thesis by blast
qed

lemma insert_fixup_LR_red:
  assumes "ins_ok h s root n l r (RightOf ps p # LeftOf gp u # c)" "cl h p = RED" "tcol (cl h) u \<noteq> BLACK"
  shows "\<exists>h1. insert_fixup s n root h = insert_fixup s gp root h1 \<and> ins_ok h1 s root gp (Node ps p (Node l n r)) u c
    \<and> (\<forall>a. n_key (h1 a) = n_key (h a))"
proof -
  have rep: "rep h s root (plug (Node (Node ps p (Node l n r)) gp u) c)"
    and inv: "cl h s = BLACK" "cl h n = RED" "invc (cl h) l" "invc (cl h) r" "tcol (cl h) l = BLACK" "tcol (cl h) r = BLACK"
      "invh (cl h) (Node l n r)" and fits: "fits (cl h) (bheight (cl h) l) (RightOf ps p # LeftOf gp u # c)"
    using assms(1) unfolding ins_ok_def plug.simps by blast+
  obtain ul ua ur where u: "u = Node ul ua ur" using assms(3) by (cases u) auto
  have d: "distinct (before c @ inorder ps @ p # inorder l @ n # inorder r @ gp # inorder ul @ ua # inorder ur @ after c)"
    using rep by (simp add: rep_plug u)
  have f: "n_parent (h n) = p" "n_parent (h p) = gp" "n_left (h gp) = p" "n_right (h gp) = ua" "n_color (h ua) \<noteq> BLACK"
    "n_color (h p) = RED" "p \<noteq> ua" "s \<noteq> p" "s \<noteq> ua" "s \<noteq> gp"
    using rep assms(2,3) d by (simp_all add: rep_plug u) (auto simp: cl_def)
  have fit: "tcol (cl h) ps = BLACK" "cl h gp = BLACK" "invc (cl h) ps" "invh (cl h) ps" "bheight (cl h) ps = bheight (cl h) l"
    "invc (cl h) ul" "invc (cl h) ur" "invh (cl h) ul" "invh (cl h) ur" "bheight (cl h) ul = bheight (cl h) l"
    "bheight (cl h) ur = bheight (cl h) l" "fits (cl h) (bheight (cl h) l + 1) c"
    "tcol (cl h) ul = BLACK" "tcol (cl h) ur = BLACK"
    using fits assms(2,3) by (auto simp: u)
  define h1 where "h1 = set_color gp RED (set_color ua BLACK (set_color p BLACK h))"
  have "insert_fixup s n root h = insert_fixup s gp root h1"
    by (subst insert_fixup.simps) (simp add: f Let_def h1_def [symmetric])
  moreover have "ins_ok h1 s root gp (Node ps p (Node l n r)) u c"
    using rep inv fit d f(8-10) by (simp add: ins_ok_def h1_def u)
  moreover have "\<forall>a. n_key (h1 a) = n_key (h a)" by (simp add: h1_def)
  ultimately show ?thesis by blast
qed

lemma insert_fixup_RR_red:
  assumes "ins_ok h s root n l r (RightOf ps p # RightOf u gp # c)" "cl h p = RED" "tcol (cl h) u \<noteq> BLACK"
  shows "\<exists>h1. insert_fixup s n root h = insert_fixup s gp root h1 \<and> ins_ok h1 s root gp u (Node ps p (Node l n r)) c
    \<and> (\<forall>a. n_key (h1 a) = n_key (h a))"
proof -
  have rep: "rep h s root (plug (Node u gp (Node ps p (Node l n r))) c)"
    and inv: "cl h s = BLACK" "cl h n = RED" "invc (cl h) l" "invc (cl h) r" "tcol (cl h) l = BLACK" "tcol (cl h) r = BLACK"
      "invh (cl h) (Node l n r)" and fits: "fits (cl h) (bheight (cl h) l) (RightOf ps p # RightOf u gp # c)"
    using assms(1) unfolding ins_ok_def plug.simps by blast+
  obtain ul ua ur where u: "u = Node ul ua ur" using assms(3) by (cases u) auto
  have d: "distinct (before c @ inorder ul @ ua # inorder ur @ gp # inorder ps @ p # inorder l @ n # inorder r @ after c)"
    using rep by (simp add: rep_plug u)
  have f: "n_parent (h n) = p" "n_parent (h p) = gp" "n_right (h gp) = p" "n_left (h gp) = ua" "n_color (h ua) \<noteq> BLACK"
    "n_color (h p) = RED" "p \<noteq> ua" "s \<noteq> p" "s \<noteq> ua" "s \<noteq> gp"
    using rep assms(2,3) d by (simp_all add: rep_plug u) (auto simp: cl_def)
  have fit: "tcol (cl h) ps = BLACK" "cl h gp = BLACK" "invc (cl h) ps" "invh (cl h) ps" "bheight (cl h) ps = bheight (cl h) l"
    "invc (cl h) ul" "invc (cl h) ur" "invh (cl h) ul" "invh (cl h) ur" "bheight (cl h) ul = bheight (cl h) l"
    "bheight (cl h) ur = bheight (cl h) l" "fits (cl h) (bheight (cl h) l + 1) c"
    "tcol (cl h) ul = BLACK" "tcol (cl h) ur = BLACK"
    using fits assms(2,3) by (auto simp: u)
  define h1 where "h1 = set_color gp RED (set_color ua BLACK (set_color p BLACK h))"
  have "insert_fixup s n root h = insert_fixup s gp root h1"
    by (subst insert_fixup.simps) (simp add: f Let_def h1_def [symmetric])
  moreover have "ins_ok h1 s root gp u (Node ps p (Node l n r)) c"
    using rep inv fit d f(8-10) by (simp add: ins_ok_def h1_def u)
  moreover have "\<forall>a. n_key (h1 a) = n_key (h a)" by (simp add: h1_def)
  ultimately show ?thesis by blast
qed

lemma insert_fixup_RL_red:
  assumes "ins_ok h s root n l r (LeftOf p ps # RightOf u gp # c)" "cl h p = RED" "tcol (cl h) u \<noteq> BLACK"
  shows "\<exists>h1. insert_fixup s n root h = insert_fixup s gp root h1 \<and> ins_ok h1 s root gp u (Node (Node l n r) p ps) c
    \<and> (\<forall>a. n_key (h1 a) = n_key (h a))"
proof -
  have rep: "rep h s root (plug (Node u gp (Node (Node l n r) p ps)) c)"
    and inv: "cl h s = BLACK" "cl h n = RED" "invc (cl h) l" "invc (cl h) r" "tcol (cl h) l = BLACK" "tcol (cl h) r = BLACK"
      "invh (cl h) (Node l n r)" and fits: "fits (cl h) (bheight (cl h) l) (LeftOf p ps # RightOf u gp # c)"
    using assms(1) unfolding ins_ok_def plug.simps by blast+
  obtain ul ua ur where u: "u = Node ul ua ur" using assms(3) by (cases u) auto
  have d: "distinct (before c @ inorder ul @ ua # inorder ur @ gp # inorder l @ n # inorder r @ p # inorder ps @ after c)"
    using rep by (simp add: rep_plug u)
  have f: "n_parent (h n) = p" "n_parent (h p) = gp" "n_right (h gp) = p" "n_left (h gp) = ua" "n_color (h ua) \<noteq> BLACK"
    "n_color (h p) = RED" "p \<noteq> ua" "s \<noteq> p" "s \<noteq> ua" "s \<noteq> gp"
    using rep assms(2,3) d by (simp_all add: rep_plug u) (auto simp: cl_def)
  have fit: "tcol (cl h) ps = BLACK" "cl h gp = BLACK" "invc (cl h) ps" "invh (cl h) ps" "bheight (cl h) ps = bheight (cl h) l"
    "invc (cl h) ul" "invc (cl h) ur" "invh (cl h) ul" "invh (cl h) ur" "bheight (cl h) ul = bheight (cl h) l"
    "bheight (cl h) ur = bheight (cl h) l" "fits (cl h) (bheight (cl h) l + 1) c"
    "tcol (cl h) ul = BLACK" "tcol (cl h) ur = BLACK"
    using fits assms(2,3) by (auto simp: u)
  define h1 where "h1 = set_color gp RED (set_color ua BLACK (set_color p BLACK h))"
  have "insert_fixup s n root h = insert_fixup s gp root h1"
    by (subst insert_fixup.simps) (simp add: f Let_def h1_def [symmetric])
  moreover have "ins_ok h1 s root gp u (Node (Node l n r) p ps) c"
    using rep inv fit d f(8-10) by (simp add: ins_ok_def h1_def u)
  moreover have "\<forall>a. n_key (h1 a) = n_key (h a)" by (simp add: h1_def)
  ultimately show ?thesis by blast
qed

lemma insert_fixup_correct:
  "ins_ok h s root n l r c \<Longrightarrow>
    \<exists>res. insert_fixup s n root h = Some res \<and> ins_post h s (inorder (plug (Node l n r) c)) res"
proof (induction "length c" arbitrary: h n l r c rule: less_induct)
  case less
  note ok = less.prems
  have rep: "rep h s root (plug (Node l n r) c)" and s: "cl h s = BLACK" using ok by (simp_all add: ins_ok_def)
  have par: "n_parent (h n) = par s c" using rep by (simp add: rep_plug)
  have pcol: "n_color (h (par s c)) = pcol (cl h) c"
    using s by (cases "(s, c)" rule: par.cases) (auto simp: cl_def)
  show ?case
  proof (cases "pcol (cl h) c = RED")
    case False
    have run: "insert_fixup s n root h = Some (h, root)"
      using False by (subst insert_fixup.simps) (simp add: par pcol)
    have "pcol (cl h) c = BLACK"
      using False ok by (cases "(cl h, c)" rule: pcol.cases) (auto simp: ins_ok_def)
    show ?thesis
    proof (cases "c = []")
      case True
      with rep have r: "root = n" "n \<notin> set_tree l" "n \<notin> set_tree r" "s \<noteq> n" by (auto simp: rep_def)
      have "rbt ((cl h)(root := BLACK)) (Node l n r)"
        using ok r by (auto simp: ins_ok_def rbt_def)
      then show ?thesis using run True rep s by (auto simp: ins_post_def)
    next
      case ne: False
      have "rbt (cl h) (plug (Node l n r) c)"
        using rbt_plug [of "cl h" "Node l n r" c] ok ne \<open>pcol (cl h) c = BLACK\<close> by (auto simp: ins_ok_def rbt_def)
      then have "ins_post h s (inorder (plug (Node l n r) c)) (h, root)"
        by (intro ins_postI [where col = "cl h"]) (use rep s in auto)
      with run show ?thesis by blast
    qed
  next
    case True
    then obtain f g c' where c: "c = f # g # c'"
      using ok by (cases "(cl h, c)" rule: pcol.cases; cases "tl c") (auto simp: ins_ok_def)
    have rec: ?thesis if "\<exists>h1. insert_fixup s n root h = insert_fixup s a root h1 \<and> ins_ok h1 s root a l' r' c'
        \<and> (\<forall>x. n_key (h1 x) = n_key (h x))" "inorder (plug (Node l n r) c) = inorder (plug (Node l' a r') c')" for a l' r'
    proof -
      from that(1) obtain h1 where "insert_fixup s n root h = insert_fixup s a root h1" "ins_ok h1 s root a l' r' c'"
        "\<forall>x. n_key (h1 x) = n_key (h x)" by blast
      moreover from less.hyps [OF _ this(2)] c obtain res where "insert_fixup s a root h1 = Some res"
        "ins_post h1 s (inorder (plug (Node l' a r') c')) res" by auto
      ultimately show ?thesis using that(2) by (auto simp: ins_post_def split: prod.splits)
    qed
    show ?thesis
    proof (cases f)
      case (LeftOf p ps)
      then have p: "cl h p = RED" using True c by simp
      show ?thesis
      proof (cases g)
        case g: (LeftOf gp u)
        show ?thesis using insert_fixup_LL [of h s root n l r p ps gp u c'] insert_fixup_LL_red [of h s root n l r p ps gp u c']
          ok p rec [of gp "Node (Node l n r) p ps" u] unfolding c LeftOf g by (cases "tcol (cl h) u = BLACK") auto
      next
        case g: (RightOf u gp)
        show ?thesis using insert_fixup_RL [of h s root n l r p ps u gp c'] insert_fixup_RL_red [of h s root n l r p ps u gp c']
          ok p rec [of gp u "Node (Node l n r) p ps"] unfolding c LeftOf g by (cases "tcol (cl h) u = BLACK") auto
      qed
    next
      case (RightOf ps p)
      then have p: "cl h p = RED" using True c by simp
      show ?thesis
      proof (cases g)
        case g: (LeftOf gp u)
        show ?thesis using insert_fixup_LR [of h s root n l r ps p gp u c'] insert_fixup_LR_red [of h s root n l r ps p gp u c']
          ok p rec [of gp "Node ps p (Node l n r)" u] unfolding c RightOf g by (cases "tcol (cl h) u = BLACK") auto
      next
        case g: (RightOf u gp)
        show ?thesis using insert_fixup_RR [of h s root n l r ps p u gp c'] insert_fixup_RR_red [of h s root n l r ps p u gp c']
          ok p rec [of gp u "Node ps p (Node l n r)"] unfolding c RightOf g by (cases "tcol (cl h) u = BLACK") auto
      qed
    qed
  qed
qed

section \<open>Searching and walking\<close>

abbreviation key :: "rbheap \<Rightarrow> addr \<Rightarrow> u32" where
  "key h a \<equiv> n_key (h a)"

definition sorted_keys :: "rbheap \<Rightarrow> addr list \<Rightarrow> bool" where
  "sorted_keys h xs \<longleftrightarrow> sorted (map (key h) xs)"

lemma sorted_keys_append:
  "sorted_keys h (xs @ ys) \<longleftrightarrow> sorted_keys h xs \<and> sorted_keys h ys \<and> (\<forall>x\<in>set xs. \<forall>y\<in>set ys. key h x \<le> key h y)"
  by (simp add: sorted_keys_def sorted_append)

lemma sorted_keys_Cons: "sorted_keys h (x # ys) \<longleftrightarrow> (\<forall>y\<in>set ys. key h x \<le> key h y) \<and> sorted_keys h ys"
  by (simp add: sorted_keys_def)

lemmas sorted_keys_simps [simp] = sorted_keys_append sorted_keys_Cons

lemma plug_append: "plug t (c1 @ c2) = plug (plug t c1) c2"
  by (induction t c1 rule: plug.induct) auto

lemma context_append [simp]:
  "before (c1 @ c2) = before c2 @ before c1" "after (c1 @ c2) = after c1 @ after c2"
  "par s (c1 @ c2) = (if c1 = [] then par s c2 else par s c1)"
proof -
  show "before (c1 @ c2) = before c2 @ before c1" by (induction c1 rule: before.induct) auto
  show "after (c1 @ c2) = after c1 @ after c2" by (induction c1 rule: after.induct) auto
  show "par s (c1 @ c2) = (if c1 = [] then par s c2 else par s c1)" by (cases "(s, c1)" rule: par.cases) auto
qed

lemma tptr_Leaf_iff: "tree_at h s q t \<Longrightarrow> (tptr s t = s) = (t = Leaf)"
  by (cases t) auto

text \<open>The search for a key ends at a node with that key or at the empty subtree where it belongs.\<close>

lemma find_node_correct:
  assumes "tree_at h s q t" "sorted_keys h (inorder t)"
  shows "\<exists>t' c'. t = plug t' c' \<and> (\<forall>a\<in>set (before c'). key h a < k \<or> key h a = k \<and> t' \<noteq> Leaf)
    \<and> (\<forall>a\<in>set (after c'). k < key h a \<or> key h a = k \<and> t' \<noteq> Leaf)
    \<and> find_node h k s (tptr s t) lst = Some (case t' of Leaf \<Rightarrow> (0, if c' = [] then lst else par s c') | Node l a r \<Rightarrow> (a, a))
    \<and> (t' \<noteq> Leaf \<longrightarrow> key h (tptr s t') = k)"
  using assms
proof (induction t arbitrary: q lst)
  case Leaf
  show ?case by (intro exI [of _ Leaf] exI [of _ "[]"]) (simp add: find_node.simps)
next
  case (Node l a r)
  have a: "a \<noteq> s" "n_left (h a) = tptr s l" "n_right (h a) = tptr s r" "tree_at h s a l" "tree_at h s a r"
    using Node.prems by auto
  consider "k < key h a" | "key h a < k" | "key h a = k" by fastforce
  then show ?case
  proof cases
    case 1
    from Node.IH(1) [OF a(4), of a] Node.prems(2) obtain t' c' where IH: "l = plug t' c'"
      "\<forall>a\<in>set (before c'). key h a < k \<or> key h a = k \<and> t' \<noteq> Leaf" "\<forall>a\<in>set (after c'). k < key h a \<or> key h a = k \<and> t' \<noteq> Leaf"
      "find_node h k s (tptr s l) a = Some (case t' of Leaf \<Rightarrow> (0, if c' = [] then a else par s c') | Node l a r \<Rightarrow> (a, a))"
      "t' \<noteq> Leaf \<longrightarrow> key h (tptr s t') = k" by auto
    have "find_node h k s (tptr s (Node l a r)) lst = find_node h k s (tptr s l) a"
      using a 1 by (subst find_node.simps) simp
    then show ?thesis
      using IH 1 Node.prems(2) by (intro exI [of _ t'] exI [of _ "c' @ [LeftOf a r]"])
        (auto simp: plug_append split: tree.splits)
  next
    case 2
    from Node.IH(2) [OF a(5), of a] Node.prems(2) obtain t' c' where IH: "r = plug t' c'"
      "\<forall>a\<in>set (before c'). key h a < k \<or> key h a = k \<and> t' \<noteq> Leaf" "\<forall>a\<in>set (after c'). k < key h a \<or> key h a = k \<and> t' \<noteq> Leaf"
      "find_node h k s (tptr s r) a = Some (case t' of Leaf \<Rightarrow> (0, if c' = [] then a else par s c') | Node l a r \<Rightarrow> (a, a))"
      "t' \<noteq> Leaf \<longrightarrow> key h (tptr s t') = k" by auto
    have "find_node h k s (tptr s (Node l a r)) lst = find_node h k s (tptr s r) a"
      using a 2 by (subst find_node.simps) auto
    then show ?thesis
      using IH 2 Node.prems(2) by (intro exI [of _ t'] exI [of _ "c' @ [RightOf l a]"])
        (auto simp: plug_append split: tree.splits)
  next
    case 3
    then show ?thesis using a
      by (intro exI [of _ "Node l a r"] exI [of _ "[]"]) (simp add: find_node.simps)
  qed
qed

lemma fftree_min_correct:
  "tree_at h s q t \<Longrightarrow> t \<noteq> Leaf \<Longrightarrow> fftree_min h s (tptr s t) = Some (hd (inorder t))"
proof (induction t arbitrary: q)
  case (Node l a r)
  then show ?case
  proof (cases "l = Leaf")
    case True
    with Node.prems show ?thesis by (subst fftree_min.simps) simp
  next
    case False
    then have "tptr s l \<noteq> s" using Node.prems tptr_Leaf_iff by auto
    with Node False show ?thesis by (subst fftree_min.simps) auto
  qed
qed simp

lemma succ_up_correct:
  "\<lbrakk>tree_at h s (par s c) t; ctx_at h s (tptr s t) c; t \<noteq> Leaf; distinct (before c @ inorder t @ after c)\<rbrakk>
    \<Longrightarrow> succ_up h s (tptr s t) (par s c) = Some (case after c of [] \<Rightarrow> s | a # _ \<Rightarrow> a)"
proof (induction c arbitrary: t)
  case Nil
  then show ?case by (subst succ_up.simps) simp
next
  case (Cons f c)
  have t: "tptr s t \<noteq> s" "tptr s t \<in> set_tree t" using Cons.prems(1,3) by (cases t; auto)+
  show ?case
  proof (cases f)
    case (LeftOf a r)
    then have "tptr s t \<noteq> n_right (h a)" using Cons.prems t tptr_neq [of "tptr s t" s r] by auto
    with LeftOf show ?thesis by (subst succ_up.simps) simp
  next
    case (RightOf l a)
    have "succ_up h s (tptr s t) (par s (f # c)) = succ_up h s (tptr s (Node l a t)) (par s c)"
      using Cons.prems(2) RightOf by (subst succ_up.simps) simp
    also have "\<dots> = Some (case after c of [] \<Rightarrow> s | a # _ \<Rightarrow> a)"
      by (rule Cons.IH) (use Cons.prems RightOf in auto)
    finally show ?thesis using RightOf by simp
  qed
qed

lemma fftree_successor_correct:
  assumes "rep h s root (plug (Node l a r) c)"
  shows "fftree_successor h a s = Some (case inorder r @ after c of [] \<Rightarrow> s | b # _ \<Rightarrow> b)"
proof (cases "r = Leaf")
  case True
  have "tree_at h s (par s c) (Node l a r)" "ctx_at h s (tptr s (Node l a r)) c"
    "distinct (before c @ inorder (Node l a r) @ after c)" "n_right (h a) = tptr s r" "n_parent (h a) = par s c"
    using assms by (auto simp: rep_plug)
  with succ_up_correct [OF this(1,2) _ this(3)] True show ?thesis
    by (simp add: fftree_successor_def)
next
  case False
  then obtain b bs where b: "inorder r = b # bs" by (cases "inorder r") (auto simp: eq_inorder_Nil)
  have r: "tree_at h s a r" "n_right (h a) = tptr s r" using assms by (auto simp: rep_plug)
  with False have "tptr s r \<noteq> s" using tptr_Leaf_iff by blast
  with fftree_min_correct [OF r(1) False] r(2) b show ?thesis by (simp add: fftree_successor_def)
qed

lemma tree_focus: "a \<in> set_tree t \<Longrightarrow> \<exists>l r c. t = plug (Node l a r) c"
proof (induction t)
  case (Node l b r)
  then consider "a = b" | "a \<in> set_tree l" | "a \<in> set_tree r" by auto
  then show ?case
  proof cases
    case 1
    then show ?thesis by (intro exI [of _ l] exI [of _ r] exI [of _ "[]"]) simp
  next
    case 2
    with Node.IH(1) obtain l' r' c where "l = plug (Node l' a r') c" by blast
    then show ?thesis by (intro exI [of _ l'] exI [of _ r'] exI [of _ "c @ [LeftOf b r]"]) (simp add: plug_append)
  next
    case 3
    with Node.IH(2) obtain l' r' c where "r = plug (Node l' a r') c" by blast
    then show ?thesis by (intro exI [of _ l'] exI [of _ r'] exI [of _ "c @ [RightOf l b]"]) (simp add: plug_append)
  qed
qed simp

lemma focus_inorder:
  assumes "rep h s root t" "inorder t = xs @ a # ys"
  shows "\<exists>l r c. t = plug (Node l a r) c \<and> ys = inorder r @ after c \<and> xs = before c @ inorder l"
proof -
  have "a \<in> set_tree t" using assms(2) by (metis in_set_conv_decomp set_inorder)
  then obtain l r c where t: "t = plug (Node l a r) c" using tree_focus by blast
  have d: "distinct (inorder t)" using assms(1) by (simp add: rep_def)
  have "(before c @ inorder l) @ a # (inorder r @ after c) = xs @ a # ys" using assms(2) t by simp
  moreover have "a \<notin> set (before c @ inorder l)" "a \<notin> set (inorder r @ after c)" using d t by auto
  moreover have "a \<notin> set xs" "a \<notin> set ys" using d assms(2) by auto
  ultimately have "before c @ inorder l = xs \<and> inorder r @ after c = ys"
    by (metis append_Cons_eq_iff)
  with t show ?thesis by blast
qed

lemma walk_from_correct:
  "rep h s root t \<Longrightarrow> inorder t = xs @ ys \<Longrightarrow> walk_from h s (case ys of [] \<Rightarrow> s | a # _ \<Rightarrow> a) = Some ys"
proof (induction ys arbitrary: xs)
  case Nil
  then show ?case by (simp add: walk_from.simps)
next
  case (Cons a ys)
  obtain l r c where t: "t = plug (Node l a r) c" "ys = inorder r @ after c"
    using focus_inorder [OF Cons.prems] by blast
  have "a \<noteq> s" using Cons.prems t tree_at_not_sentl [of h s s t] by (auto simp: rep_plug)
  moreover have "fftree_successor h a s = Some (case ys of [] \<Rightarrow> s | b # _ \<Rightarrow> b)"
    using fftree_successor_correct Cons.prems(1) t by simp
  moreover have "walk_from h s (case ys of [] \<Rightarrow> s | a # _ \<Rightarrow> a) = Some ys"
    using Cons.IH [of "xs @ [a]"] Cons.prems by simp
  ultimately show ?case by (subst walk_from.simps) simp
qed

lemma FFTREE_WALK_correct:
  assumes "rep h s root t" shows "FFTREE_WALK h root s = Some (inorder t)"
proof (cases "t = Leaf")
  case False
  then obtain a as where "inorder t = a # as" by (cases "inorder t") (auto simp: eq_inorder_Nil)
  moreover have "root \<noteq> s" using assms False tptr_Leaf_iff by (auto simp: rep_def)
  moreover have "fftree_min h s root = Some (hd (inorder t))"
    using fftree_min_correct [of h s s t] assms False by (simp add: rep_def)
  ultimately show ?thesis using walk_from_correct [OF assms, of "[]" "a # as"] by (simp add: FFTREE_WALK_def)
qed (use assms in \<open>simp add: rep_def FFTREE_WALK_def\<close>)

section \<open>Insertion\<close>

lemma ins_parent_correct:
  assumes "tree_at h s q t" "sorted_keys h (inorder t)" "t \<noteq> Leaf"
  shows "\<exists>f c. t = plug Leaf (f # c) \<and> (\<forall>a\<in>set (before (f # c)). key h a \<le> k) \<and> (\<forall>a\<in>set (after (f # c)). k < key h a)
    \<and> ins_parent h k s (tptr s t) = Some (par s (f # c))
    \<and> (case f of LeftOf a r \<Rightarrow> k < key h a | RightOf l a \<Rightarrow> \<not> k < key h a)"
  using assms
proof (induction t arbitrary: q)
  case (Node l a r)
  have a: "a \<noteq> s" "n_left (h a) = tptr s l" "n_right (h a) = tptr s r" "tree_at h s a l" "tree_at h s a r"
    using Node.prems by auto
  show ?case
  proof (cases "k < key h a")
    case k: True
    show ?thesis
    proof (cases "l = Leaf")
      case True
      then show ?thesis using a k Node.prems(2)
        by (intro exI [of _ "LeftOf a r"] exI [of _ "[]"]) (subst ins_parent.simps, auto simp: Let_def)
    next
      case False
      with Node.IH(1) [OF a(4)] Node.prems(2) obtain f c where IH: "l = plug Leaf (f # c)"
        "\<forall>a\<in>set (before (f # c)). key h a \<le> k" "\<forall>a\<in>set (after (f # c)). k < key h a"
        "ins_parent h k s (tptr s l) = Some (par s (f # c))"
        "case f of LeftOf a r \<Rightarrow> k < key h a | RightOf l a \<Rightarrow> \<not> k < key h a" by auto
      have "ins_parent h k s (tptr s (Node l a r)) = ins_parent h k s (tptr s l)"
        using a k tptr_Leaf_iff [OF a(4)] False by (subst ins_parent.simps) (simp add: Let_def)
      with IH k Node.prems(2) show ?thesis
        by (intro exI [of _ f] exI [of _ "c @ [LeftOf a r]"]) (cases f; auto simp: plug_append)
    qed
  next
    case k: False
    show ?thesis
    proof (cases "r = Leaf")
      case True
      then show ?thesis using a k Node.prems(2)
        by (intro exI [of _ "RightOf l a"] exI [of _ "[]"]) (subst ins_parent.simps, auto simp: Let_def)
    next
      case False
      with Node.IH(2) [OF a(5)] Node.prems(2) obtain f c where IH: "r = plug Leaf (f # c)"
        "\<forall>a\<in>set (before (f # c)). key h a \<le> k" "\<forall>a\<in>set (after (f # c)). k < key h a"
        "ins_parent h k s (tptr s r) = Some (par s (f # c))"
        "case f of LeftOf a r \<Rightarrow> k < key h a | RightOf l a \<Rightarrow> \<not> k < key h a" by auto
      have "ins_parent h k s (tptr s (Node l a r)) = ins_parent h k s (tptr s r)"
        using a k tptr_Leaf_iff [OF a(5)] False by (subst ins_parent.simps) (simp add: Let_def)
      with IH k Node.prems(2) show ?thesis
        by (intro exI [of _ f] exI [of _ "c @ [RightOf l a]"]) (cases f; auto simp: plug_append)
    qed
  qed
qed simp

text \<open>The place of a node among the nodes in key order: after those with a smaller or the same key.\<close>

definition ins_key :: "rbheap \<Rightarrow> addr \<Rightarrow> addr list \<Rightarrow> addr list" where
  "ins_key h nod xs = takeWhile (\<lambda>a. key h a \<le> key h nod) xs @ nod # dropWhile (\<lambda>a. key h a \<le> key h nod) xs"

lemma ins_key_split:
  assumes "\<forall>a\<in>set xs. key h a \<le> key h nod" "\<forall>a\<in>set ys. key h nod < key h a"
  shows "ins_key h nod (xs @ ys) = xs @ nod # ys"
proof -
  have "takeWhile (\<lambda>a. key h a \<le> key h nod) ys = [] \<and> dropWhile (\<lambda>a. key h a \<le> key h nod) ys = ys"
    using assms(2) by (cases ys) (auto simp: not_le)
  moreover have "takeWhile (\<lambda>a. key h a \<le> key h nod) (xs @ ys) = xs @ takeWhile (\<lambda>a. key h a \<le> key h nod) ys"
    by (rule takeWhile_append2) (use assms(1) in auto)
  moreover have "dropWhile (\<lambda>a. key h a \<le> key h nod) (xs @ ys) = dropWhile (\<lambda>a. key h a \<le> key h nod) ys"
    by (rule dropWhile_append2) (use assms(1) in auto)
  ultimately show ?thesis by (simp add: ins_key_def)
qed

lemma set_ins_key [simp]: "set (ins_key h nod xs) = insert nod (set xs)"
proof -
  let ?P = "\<lambda>a. key h a \<le> key h nod"
  have "set (takeWhile ?P xs) \<union> set (dropWhile ?P xs) = set xs" by (metis set_append takeWhile_dropWhile_id)
  then show ?thesis unfolding ins_key_def by (simp only: set_append set_simps) blast
qed

lemma fftree_insert_correct:
  assumes rep: "rep h s root (plug t c0)" and sorted: "sorted_keys h (inorder (plug t c0))" and t: "t \<noteq> Leaf \<or> c0 = []"
    and nod: "nod \<notin> set_tree (plug t c0)" "nod \<noteq> s" "nod \<noteq> 0"
    and c0: "\<forall>a\<in>set (before c0). key h a \<le> key h nod" "\<forall>a\<in>set (after c0). key h nod < key h a"
  shows "\<exists>h' c. fftree_insert nod (tptr s t) s h = Some (h', if t = Leaf then nod else tptr s t)
    \<and> rep h' s (if t = Leaf then nod else root) (plug (Node Leaf nod Leaf) c) \<and> plug t c0 = plug Leaf c
    \<and> before c @ nod # after c = ins_key h nod (inorder (plug t c0))
    \<and> (\<forall>a. n_color (h' a) = n_color (h a) \<and> key h' a = key h a)"
proof (cases "t = Leaf")
  case True
  let ?h = "set_left nod s (set_right nod s (set_parent nod s h))"
  have "rep ?h s nod (Node Leaf nod Leaf)" using rep nod by (auto simp: rep_def field_defs)
  with True t show ?thesis
    by (intro exI [of _ ?h] exI [of _ "[]"]) (simp add: fftree_insert_def ins_key_def)
next
  case False
  have t_at: "tree_at h s (par s c0) t" "sorted_keys h (inorder t)" "tptr s t \<noteq> s"
    using rep sorted False tptr_Leaf_iff by (auto simp: rep_plug)
  obtain f c1 where fc: "t = plug Leaf (f # c1)" "\<forall>a\<in>set (before (f # c1)). key h a \<le> key h nod"
    "\<forall>a\<in>set (after (f # c1)). key h nod < key h a"
    "ins_parent h (key h nod) s (tptr s t) = Some (par s (f # c1))"
    "case f of LeftOf a r \<Rightarrow> key h nod < key h a | RightOf l a \<Rightarrow> \<not> key h nod < key h a"
    using ins_parent_correct [OF t_at(1,2) False, of "key h nod"] by blast
  define c where "c = f # c1 @ c0"
  have plug: "plug t c0 = plug Leaf c" using fc(1) plug_append [of Leaf "f # c1" c0] by (simp add: c_def)
  define p where "p = par s (f # c1)"
  define h1 where "h1 = (if key h nod < key h p then set_left p nod h else set_right p nod h)"
  define h' where "h' = set_left nod s (set_right nod s (set_parent nod p h1))"
  have run: "fftree_insert nod (tptr s t) s h = Some (h', tptr s t)"
    using t_at(3) fc(4) by (simp add: fftree_insert_def Let_def p_def [symmetric] h1_def h'_def)
  have rep': "rep h s root (plug Leaf c)" using rep plug by simp
  have nod': "nod \<notin> set (before c)" "nod \<notin> set (after c)" using nod(1) plug by (metis Un_iff inorder_plug set_append set_inorder)+
  have "ctx_at h1 s nod c \<and> par s c = p"
  proof (cases f)
    case (LeftOf a r)
    then show ?thesis using rep' fc(5) by (auto simp: rep_plug c_def p_def h1_def set_left_def)
  next
    case (RightOf l a)
    then show ?thesis using rep' fc(5) by (auto simp: rep_plug c_def p_def h1_def set_right_def)
  qed
  then have "ctx_at h' s nod c" "n_parent (h' nod) = par s c" "n_left (h' nod) = s" "n_right (h' nod) = s"
    using nod' by (simp_all add: h'_def field_defs)
  moreover have "root = tptr s (plug (Node Leaf nod Leaf) c)"
    using rep' tptr_plug2 [of c s Leaf "Node Leaf nod Leaf"] by (simp add: rep_plug c_def)
  ultimately have "rep h' s root (plug (Node Leaf nod Leaf) c)"
    using rep' nod nod' by (auto simp: rep_plug)
  moreover have "before c @ nod # after c = ins_key h nod (inorder (plug t c0))"
  proof -
    have ba: "before c = before c0 @ before (f # c1)" "after c = after (f # c1) @ after c0"
      using context_append(1,2) [of "f # c1" c0] by (simp_all add: c_def)
    have "ins_key h nod (before c @ after c) = before c @ nod # after c"
      by (rule ins_key_split) (use fc(2,3) c0 in \<open>auto simp: ba simp del: before.simps after.simps\<close>)
    then show ?thesis unfolding plug by simp
  qed
  moreover have "n_color (h' a) = n_color (h a) \<and> key h' a = key h a" for a by (simp add: h'_def h1_def)
  ultimately show ?thesis using run plug False by auto
qed

text \<open>
  A well-formed tree: the store holds it, it is a red-black tree, its nodes are in the order of
  their keys, and it uses the library's own insertion.
\<close>

definition rbtree_ok :: "ffrbtree \<Rightarrow> rbheap \<Rightarrow> addr tree \<Rightarrow> bool" where
  "rbtree_ok tr h t \<longleftrightarrow> rep h (tr_sentl tr) (tr_root tr) t \<and> cl h (tr_sentl tr) = BLACK \<and> rbt (cl h) t
     \<and> sorted_keys h (inorder t) \<and> tr_insnode tr = fftree_insert"

lemma sorted_ins_key: "sorted_keys h xs \<Longrightarrow> sorted_keys h (ins_key h nod xs)"
proof (induction xs)
  case (Cons x xs)
  then show ?case by (auto simp: ins_key_def sorted_keys_def dest: set_takeWhileD set_dropWhileD)
qed (simp add: ins_key_def sorted_keys_def)

lemma ffrbt_insert_focus:
  assumes ok: "rbtree_ok tr h (plug t c0)" and t: "t \<noteq> Leaf \<or> c0 = []" and start: "parent = (if c0 = [] then 0 else tptr s t) \<or> parent = tptr s t" and s: "s = tr_sentl tr"
    and nod: "nod \<notin> set_tree (plug t c0)" "nod \<noteq> s" "nod \<noteq> 0"
    and c0: "\<forall>a\<in>set (before c0). key h a \<le> key h nod" "\<forall>a\<in>set (after c0). key h nod < key h a"
  shows "\<exists>tr' h' t'. ffrbt_insert tr nod parent h = Some (tr', h') \<and> rbtree_ok tr' h' t'
    \<and> inorder t' = ins_key h nod (inorder (plug t c0)) \<and> tr_len tr' = tr_len tr + 1 \<and> tr_sentl tr' = s
    \<and> (\<forall>a. key h' a = key h a)"
proof -
  have rep: "rep h s (tr_root tr) (plug t c0)" and sorted: "sorted_keys h (inorder (plug t c0))" and cs: "cl h s = BLACK"
    and rb: "rbt (cl h) (plug t c0)" and insn: "tr_insnode tr = fftree_insert"
    using ok by (auto simp: rbtree_ok_def s)
  obtain h1 c where h1: "fftree_insert nod (tptr s t) s h = Some (h1, if t = Leaf then nod else tptr s t)"
    "rep h1 s (if t = Leaf then nod else tr_root tr) (plug (Node Leaf nod Leaf) c)" and pl: "plug t c0 = plug Leaf c"
    and ord: "before c @ nod # after c = ins_key h nod (inorder (plug t c0))"
    and col: "\<forall>a. n_color (h1 a) = n_color (h a) \<and> key h1 a = key h a"
    using fftree_insert_correct [OF rep sorted t nod c0] by blast
  have cl1: "cl h1 = cl h" using col by (simp add: cl_def)
  define root where "root = (if t = Leaf then nod else tr_root tr)"
  have nod': "nod \<notin> set (before c)" "nod \<notin> set (after c)" using nod(1) pl by (metis Un_iff inorder_plug set_append set_inorder)+
  have "ins_ok (set_color nod RED h1) s root nod Leaf Leaf c"
    using h1(2) cs rb nod nod' fits_of_rbt [of "cl h" Leaf c] pl
    by (auto simp: ins_ok_def rbt_def cl1 root_def)
  then obtain h2 root2 where fixup: "insert_fixup s nod root (set_color nod RED h1) = Some (h2, root2)"
    and post: "ins_post (set_color nod RED h1) s (inorder (plug (Node Leaf nod Leaf) c)) (h2, root2)"
    using insert_fixup_correct by fastforce
  from post obtain t' where t': "rep h2 s root2 t'" "inorder t' = before c @ nod # after c"
    "rbt ((cl h2)(root2 := BLACK)) t'" "cl h2 s = BLACK" "\<forall>a. key h2 a = key h a"
    using col by (auto simp: ins_post_def)
  have s0: "s \<noteq> 0" using rep by (simp add: rep_def)
  have run: "ffrbt_insert tr nod parent h
      = Some (tr\<lparr>tr_len := tr_len tr + 1, tr_root := root2\<rparr>, set_color root2 BLACK h2)"
  proof (cases "parent \<noteq> 0 \<and> parent \<noteq> s")
    case True
    then have p: "parent = tptr s t" "t \<noteq> Leaf" using start by (auto split: if_splits)
    with True h1(1) fixup show ?thesis by (simp add: ffrbt_insert_def Let_def s [symmetric] insn root_def)
  next
    case False
    have tp: "tptr s t = tr_root tr"
    proof (cases "c0 = []")
      case True
      then show ?thesis using rep by (simp add: rep_def)
    next
      case ne: False
      with t have "t \<noteq> Leaf" by simp
      then have "tptr s t \<noteq> s \<and> tptr s t \<noteq> 0" using rep by (cases t) (auto simp: rep_plug)
      with False start ne show ?thesis by auto
    qed
    have "t = Leaf \<or> tptr s t = root" using tp by (simp add: root_def)
    with False h1(1) fixup tp show ?thesis
      by (auto simp: ffrbt_insert_def Let_def s [symmetric] insn root_def)
  qed
  have "sorted_keys (set_color root2 BLACK h2) (inorder t')"
    using sorted_ins_key [OF sorted, of nod] ord t'(2,5) by (simp add: sorted_keys_def)
  with t' insn have "rbtree_ok (tr\<lparr>tr_len := tr_len tr + 1, tr_root := root2\<rparr>) (set_color root2 BLACK h2) t'"
    by (simp add: rbtree_ok_def s [symmetric])
  with run t'(2,5) ord s show ?thesis by auto
qed

end
