(* ===== verification/FF_RBRemove.thy ===== *)
theory FF_RBRemove
  imports FF_RBInsert
begin

text \<open>
  Removal from the red-black tree of \<open>ffrbtree.c\<close>.
\<close>

section \<open>One round of the fixup\<close>

text \<open>
  A subtree \<open>t\<close> whose black height is one less than its place in the tree asks for, as the left child of \<open>p\<close>,
  with a black sibling.
\<close>

definition rm_stop :: "rbheap \<Rightarrow> addr \<Rightarrow> addr list \<Rightarrow> rbheap \<Rightarrow> addr \<Rightarrow> bool" where
  "rm_stop h s xs h' root' \<longleftrightarrow> (\<exists>t'. rep h' s root' t' \<and> inorder t' = xs \<and> rbt (cl h') t') \<and> cl h' s = BLACK
     \<and> (\<forall>a. key h' a = key h a)"

lemma set_color_links [simp]:
  "n_right (set_color x y g z) = n_right (g z)" "n_left (set_color x y g z) = n_left (g z)"
  "n_parent (set_color x y g z) = n_parent (g z)"
  by (simp_all add: set_color_def)

lemma rm_black_left_far:
  assumes rep: "rep h s root (plug (Node t p (Node sl sa (Node b ra d))) c)" and s: "cl h s = BLACK"
    and t: "invc (cl h) t" "tcol (cl h) t = BLACK" "invh (cl h) t"
    and p: "cl h p = BLACK \<or> cl h p = RED \<and> pcol (cl h) c = BLACK \<and> c \<noteq> []"
    and sib: "cl h sa = BLACK" "invc (cl h) sl" "invc (cl h) (Node b ra d)" "invh (cl h) sl" "invh (cl h) (Node b ra d)"
      "bheight (cl h) sl = bheight (cl h) t" "bheight (cl h) (Node b ra d) = bheight (cl h) t"
    and fits: "fits (cl h) (bheight (cl h) t + 1 + of_bool (cl h p = BLACK)) c"
    and red: "cl h ra = RED"
  shows "\<exists>h' root'. rm_black_left s p root h = (h', root', root', True)
    \<and> rm_stop h s (inorder (plug (Node t p (Node sl sa (Node b ra d))) c)) h' root'"
proof -
  have d: "distinct (before c @ inorder t @ p # inorder sl @ sa # inorder b @ ra # inorder d @ after c)"
    using rep by (simp add: rep_plug)
  have f: "n_right (h p) = sa" "n_right (h sa) = ra" "s \<noteq> p" "s \<noteq> sa" "s \<noteq> ra"
    using rep by (auto simp: rep_plug)
  define h1 where "h1 = set_color ra BLACK (set_color p BLACK (set_color sa (n_color (h p)) h))"
  obtain h' root' where rot: "left_rotate p root s h1 = (h', root')" by fastforce
  have run: "rm_black_left s p root h = (h', root', root', True)"
    using f red rot unfolding rm_black_left_def Let_def
    by (simp add: h1_def cl_def)
  have rep1: "rep h1 s root (plug (Node t p (Node sl sa (Node b ra d))) c)" using rep by (simp add: h1_def)
  note rot_rep = left_rotate_rep [OF rep1 rot] and cl' = cl_rotate(1) [OF rot]
  let ?T = "Node (Node t p sl) sa (Node b ra d)"
  have cl1: "cl h1 = (cl h)(sa := cl h p, p := BLACK, ra := BLACK)" by (simp add: h1_def) (simp add: cl_def)
  have "rbt (cl h1) (plug ?T c)"
    using rbt_plug [of "cl h1" ?T c] d t p sib fits red by (auto simp: cl1 rbt_def)
  then have "rm_stop h s (inorder (plug (Node t p (Node sl sa (Node b ra d))) c)) h' root'"
    unfolding rm_stop_def using rot_rep cl' s f left_rotate_colors [OF rot]
    by (auto simp: cl1 h1_def intro!: exI [of _ "plug ?T c"])
  with run show ?thesis by blast
qed

lemma rm_black_left_near:
  assumes rep: "rep h s root (plug (Node t p (Node (Node a la b) sa sr)) c)" and s: "cl h s = BLACK"
    and t: "invc (cl h) t" "tcol (cl h) t = BLACK" "invh (cl h) t"
    and p: "cl h p = BLACK \<or> cl h p = RED \<and> pcol (cl h) c = BLACK \<and> c \<noteq> []"
    and sib: "cl h sa = BLACK" "invc (cl h) (Node a la b)" "invc (cl h) sr" "invh (cl h) (Node a la b)" "invh (cl h) sr"
      "bheight (cl h) (Node a la b) = bheight (cl h) t" "bheight (cl h) sr = bheight (cl h) t"
    and fits: "fits (cl h) (bheight (cl h) t + 1 + of_bool (cl h p = BLACK)) c"
    and red: "cl h la = RED" "tcol (cl h) sr = BLACK"
  shows "\<exists>h' root'. rm_black_left s p root h = (h', root', root', True)
    \<and> rm_stop h s (inorder (plug (Node t p (Node (Node a la b) sa sr)) c)) h' root'"
proof -
  have d: "distinct (before c @ inorder t @ p # inorder a @ la # inorder b @ sa # inorder sr @ after c)"
    using rep by (simp add: rep_plug)
  have f: "n_right (h p) = sa" "n_left (h sa) = la" "n_right (h sa) = tptr s sr" "s \<noteq> p" "s \<noteq> sa" "s \<noteq> la"
    "n_color (h (tptr s sr)) = BLACK"
    using rep red(2) tcol_ptr [OF s, of sr] by (auto simp: rep_plug)
  define h0 where "h0 = set_color sa RED (set_color la BLACK h)"
  obtain h2 root2 where rot0: "right_rotate sa root s h0 = (h2, root2)" by fastforce
  have "rep h0 s root (plug (Node (Node a la b) sa sr) (RightOf t p # c))" using rep by (simp add: h0_def)
  from right_rotate_rep [OF this rot0] have rep2: "rep h2 s root2 (plug (Node t p (Node a la (Node b sa sr))) c)" by simp
  then have f2: "n_right (h2 p) = la" "n_right (h2 la) = sa" by (auto simp: rep_plug)
  have col2: "n_color (h2 p) = cl h p" using right_rotate_colors [OF rot0, of p] d by (simp add: h0_def cl_def set_color_def)
  define h1 where "h1 = set_color sa BLACK (set_color p BLACK (set_color la (cl h p) h2))"
  obtain h' root' where rot: "left_rotate p root2 s h1 = (h', root')" by fastforce
  have run: "rm_black_left s p root h = (h', root', root', True)"
    using f f2 col2 red rot rot0 unfolding rm_black_left_def Let_def
    by (simp add: h1_def h0_def [symmetric] cl_def)
  have rep1: "rep h1 s root2 (plug (Node t p (Node a la (Node b sa sr))) c)" using rep2 by (simp add: h1_def)
  note rot_rep = left_rotate_rep [OF rep1 rot] and cl' = cl_rotate(1) [OF rot]
  let ?T = "Node (Node t p a) la (Node b sa sr)"
  have cl1: "cl h1 = (cl h)(la := cl h p, p := BLACK, sa := BLACK)"
    using cl_rotate(2) [OF rot0] by (simp add: h1_def h0_def fun_upd_twist)
  have "rbt (cl h1) (plug ?T c)"
    using rbt_plug [of "cl h1" ?T c] d t p sib fits red by (auto simp: cl1 rbt_def)
  moreover have "cl h' s = BLACK" using cl' cl1 s f(4-6) by simp
  moreover have "key h' x = key h x" for x
    using left_rotate_colors [OF rot, of x] right_rotate_colors [OF rot0, of x] by (simp add: h1_def h0_def)
  ultimately have "rm_stop h s (inorder (plug (Node t p (Node (Node a la b) sa sr)) c)) h' root'"
    unfolding rm_stop_def using rot_rep cl' by (auto intro!: exI [of _ "plug ?T c"])
  with run show ?thesis by blast
qed

lemma rm_black_left_none:
  assumes "rep h s root (plug (Node t p (Node sl sa sr)) c)" "cl h s = BLACK" "tcol (cl h) sl \<noteq> RED" "tcol (cl h) sr \<noteq> RED"
  shows "rm_black_left s p root h = (set_color sa RED h, root, p, False)"
proof -
  have "n_right (h p) = sa" "n_left (h sa) = tptr s sl" "n_right (h sa) = tptr s sr"
    using assms(1) by (auto simp: rep_plug)
  then show ?thesis using assms(3,4) tcol_ptr [OF assms(2)] unfolding rm_black_left_def Let_def by simp
qed

text \<open>What a round achieves: the loop is left with a red-black tree, or goes on further up.\<close>

definition rm_next :: "rbheap \<Rightarrow> addr \<Rightarrow> addr list \<Rightarrow> nat \<Rightarrow> rbheap \<times> addr \<times> addr \<times> bool \<Rightarrow> bool" where
  "rm_next h s xs n res \<longleftrightarrow> (case res of (h', root', x', stop) \<Rightarrow>
     if stop then x' = root' \<and> rm_stop h s xs h' root'
     else cl h' s = BLACK \<and> (\<forall>a. key h' a = key h a) \<and> (\<exists>t' c'. rep h' s root' (plug t' c') \<and> x' = tptr s t' \<and> t' \<noteq> Leaf
       \<and> inorder (plug t' c') = xs \<and> invc ((cl h')(x' := BLACK)) t' \<and> invh (cl h') t'
       \<and> fits (cl h') (bheight (cl h') t' + 1) c' \<and> (length c' < n \<or> cl h' x' = RED)))"

lemma tcol_cases: "invc col t \<Longrightarrow> tcol col t = BLACK \<or> tcol col t = RED"
  by (cases t) auto

lemma rm_black_left_correct:
  assumes rep: "rep h s root (plug (Node t p (Node sl sa sr)) c)" and s: "cl h s = BLACK"
    and t: "invc (cl h) t" "tcol (cl h) t = BLACK" "invh (cl h) t"
    and p: "cl h p = BLACK \<or> cl h p = RED \<and> pcol (cl h) c = BLACK \<and> c \<noteq> []"
    and sib: "cl h sa = BLACK" "invc (cl h) sl" "invc (cl h) sr" "invh (cl h) sl" "invh (cl h) sr"
      "bheight (cl h) sl = bheight (cl h) t" "bheight (cl h) sr = bheight (cl h) t"
    and fits: "fits (cl h) (bheight (cl h) t + 1 + of_bool (cl h p = BLACK)) c"
    and n: "length c < n \<or> cl h p = RED"
  shows "rm_next h s (inorder (plug (Node t p (Node sl sa sr)) c)) n (rm_black_left s p root h)"
proof (cases "tcol (cl h) sr = RED")
  case True
  then obtain b ra d where sr: "sr = Node b ra d" "cl h ra = RED" by (cases sr) auto
  have "\<exists>h' root'. rm_black_left s p root h = (h', root', root', True)
    \<and> rm_stop h s (inorder (plug (Node t p (Node sl sa (Node b ra d))) c)) h' root'"
    by (rule rm_black_left_far) (use assms sr in \<open>simp_all\<close>)
  then show ?thesis unfolding sr by (auto simp: rm_next_def)
next
  case False
  then have bs: "tcol (cl h) sr = BLACK" using tcol_cases [OF sib(3)] by blast
  show ?thesis
  proof (cases "tcol (cl h) sl = RED")
    case True
    then obtain a la b where sl: "sl = Node a la b" "cl h la = RED" by (cases sl) auto
    have "\<exists>h' root'. rm_black_left s p root h = (h', root', root', True)
      \<and> rm_stop h s (inorder (plug (Node t p (Node (Node a la b) sa sr)) c)) h' root'"
      by (rule rm_black_left_near) (use assms sl bs in \<open>simp_all\<close>)
    then show ?thesis unfolding sl by (auto simp: rm_next_def)
  next
    case False
    then have bl: "tcol (cl h) sl = BLACK" using tcol_cases [OF sib(2)] by blast
    have d: "distinct (before c @ inorder t @ p # inorder sl @ sa # inorder sr @ after c)" "s \<noteq> sa"
      using rep by (auto simp: rep_plug)
    let ?t = "Node t p (Node sl sa sr)" and ?h = "set_color sa RED h"
    have run: "rm_black_left s p root h = (?h, root, p, False)"
      using rm_black_left_none [OF rep s] bl bs by simp
    have "invc ((cl ?h)(p := BLACK)) ?t" "invh (cl ?h) ?t" "fits (cl ?h) (bheight (cl ?h) ?t + 1) c"
      "length c < n \<or> cl ?h p = RED"
      using d t sib bl bs fits n by (auto simp: add.commute)
    then show ?thesis using rep s d(2) unfolding run rm_next_def
      by (auto intro!: exI [of _ ?t] exI [of _ c])
  qed
qed

lemma rm_fix_left_correct:
  assumes rep: "rep h s root (plug t (LeftOf p sib # c))" and s: "cl h s = BLACK"
    and t: "invc (cl h) t" "tcol (cl h) t = BLACK" "invh (cl h) t"
    and fits: "fits (cl h) (bheight (cl h) t + 1) (LeftOf p sib # c)"
  shows "rm_next h s (inorder (plug t (LeftOf p sib # c))) (Suc (length c)) (rm_fix_left s p root h)"
proof -
  obtain sl sa sr where sib: "sib = Node sl sa sr" using fits by (cases sib) auto
  have pl: "plug t (LeftOf p sib # c) = plug (Node t p (Node sl sa sr)) c" by (simp add: sib)
  have f: "n_right (h p) = sa" using rep by (auto simp: rep_plug sib)
  have d: "distinct (before c @ inorder t @ p # inorder sl @ sa # inorder sr @ after c)" "s \<noteq> sa" "s \<noteq> p"
    using rep by (auto simp: rep_plug sib)
  show ?thesis
  proof (cases "cl h sa = RED")
    case False
    then have run: "rm_fix_left s p root h = rm_black_left s p root h"
      using f by (simp add: rm_fix_left_def Let_def cl_def)
    show ?thesis unfolding run pl
      by (rule rm_black_left_correct) (use rep s t fits False in \<open>auto simp: sib\<close>)
  next
    case True
    have col: "cl h p = BLACK" "tcol (cl h) sl = BLACK" "tcol (cl h) sr = BLACK" "invc (cl h) sl" "invc (cl h) sr"
      "invh (cl h) sl" "invh (cl h) sr" "bheight (cl h) sl = bheight (cl h) t + 1" "bheight (cl h) sr = bheight (cl h) t + 1"
      "fits (cl h) (bheight (cl h) t + 2) c"
      using fits True by (auto simp: sib numeral_2_eq_2)
    define h1 where "h1 = set_color p RED (set_color sa BLACK h)"
    obtain h2 root2 where rot: "left_rotate p root s h1 = (h2, root2)" by fastforce
    have run: "rm_fix_left s p root h = rm_black_left s p root2 h2"
      using f True rot by (simp add: rm_fix_left_def Let_def cl_def h1_def)
    have "rep h1 s root (plug (Node t p (Node sl sa sr)) c)" using rep pl by (simp add: h1_def)
    from left_rotate_rep [OF this rot] have rep2: "rep h2 s root2 (plug (Node t p sl) (LeftOf sa sr # c))" by simp
    have cl2: "cl h2 = (cl h)(sa := BLACK, p := RED)" using cl_rotate(1) [OF rot] by (simp add: h1_def)
    obtain a la b where sl: "sl = Node a la b" using col(8) by (cases sl) auto
    have key: "key h2 x = key h x" for x using left_rotate_colors [OF rot, of x] by (simp add: h1_def)
    have "rm_next h2 s (inorder (plug (Node t p (Node a la b)) (LeftOf sa sr # c))) (Suc (length c)) (rm_black_left s p root2 h2)"
      by (rule rm_black_left_correct)
        (use rep2 s t col d sl in \<open>auto simp: cl2 numeral_2_eq_2\<close>)
    then show ?thesis unfolding run pl by (simp add: rm_next_def rm_stop_def key sl split: prod.splits if_splits)
  qed
qed

lemma rm_black_right_far:
  assumes rep: "rep h s root (plug (Node (Node (Node b ra d) sa sl) p t) c)" and s: "cl h s = BLACK"
    and t: "invc (cl h) t" "tcol (cl h) t = BLACK" "invh (cl h) t"
    and p: "cl h p = BLACK \<or> cl h p = RED \<and> pcol (cl h) c = BLACK \<and> c \<noteq> []"
    and sib: "cl h sa = BLACK" "invc (cl h) sl" "invc (cl h) (Node b ra d)" "invh (cl h) sl" "invh (cl h) (Node b ra d)"
      "bheight (cl h) sl = bheight (cl h) t" "bheight (cl h) (Node b ra d) = bheight (cl h) t"
    and fits: "fits (cl h) (bheight (cl h) t + 1 + of_bool (cl h p = BLACK)) c"
    and red: "cl h ra = RED"
  shows "\<exists>h' root'. rm_black_right s p root h = (h', root', root', True)
    \<and> rm_stop h s (inorder (plug (Node (Node (Node b ra d) sa sl) p t) c)) h' root'"
proof -
  have d: "distinct (before c @ inorder b @ ra # inorder d @ sa # inorder sl @ p # inorder t @ after c)"
    using rep by (simp add: rep_plug)
  have f: "n_left (h p) = sa" "n_left (h sa) = ra" "s \<noteq> p" "s \<noteq> sa" "s \<noteq> ra"
    using rep by (auto simp: rep_plug)
  define h1 where "h1 = set_color ra BLACK (set_color p BLACK (set_color sa (n_color (h p)) h))"
  obtain h' root' where rot: "right_rotate p root s h1 = (h', root')" by fastforce
  have run: "rm_black_right s p root h = (h', root', root', True)"
    using f red rot unfolding rm_black_right_def Let_def
    by (simp add: h1_def cl_def)
  have rep1: "rep h1 s root (plug (Node (Node (Node b ra d) sa sl) p t) c)" using rep by (simp add: h1_def)
  note rot_rep = right_rotate_rep [OF rep1 rot] and cl' = cl_rotate(2) [OF rot]
  let ?T = "Node (Node b ra d) sa (Node sl p t)"
  have cl1: "cl h1 = (cl h)(sa := cl h p, p := BLACK, ra := BLACK)" by (simp add: h1_def) (simp add: cl_def)
  have "rbt (cl h1) (plug ?T c)"
    using rbt_plug [of "cl h1" ?T c] d t p sib fits red by (auto simp: cl1 rbt_def)
  then have "rm_stop h s (inorder (plug (Node (Node (Node b ra d) sa sl) p t) c)) h' root'"
    unfolding rm_stop_def using rot_rep cl' s f right_rotate_colors [OF rot]
    by (auto simp: cl1 h1_def intro!: exI [of _ "plug ?T c"])
  with run show ?thesis by blast
qed

lemma rm_black_right_near:
  assumes rep: "rep h s root (plug (Node (Node sr sa (Node a la b)) p t) c)" and s: "cl h s = BLACK"
    and t: "invc (cl h) t" "tcol (cl h) t = BLACK" "invh (cl h) t"
    and p: "cl h p = BLACK \<or> cl h p = RED \<and> pcol (cl h) c = BLACK \<and> c \<noteq> []"
    and sib: "cl h sa = BLACK" "invc (cl h) (Node a la b)" "invc (cl h) sr" "invh (cl h) (Node a la b)" "invh (cl h) sr"
      "bheight (cl h) (Node a la b) = bheight (cl h) t" "bheight (cl h) sr = bheight (cl h) t"
    and fits: "fits (cl h) (bheight (cl h) t + 1 + of_bool (cl h p = BLACK)) c"
    and red: "cl h la = RED" "tcol (cl h) sr = BLACK"
  shows "\<exists>h' root'. rm_black_right s p root h = (h', root', root', True)
    \<and> rm_stop h s (inorder (plug (Node (Node sr sa (Node a la b)) p t) c)) h' root'"
proof -
  have d: "distinct (before c @ inorder sr @ sa # inorder a @ la # inorder b @ p # inorder t @ after c)"
    using rep by (simp add: rep_plug)
  have f: "n_left (h p) = sa" "n_right (h sa) = la" "n_left (h sa) = tptr s sr" "s \<noteq> p" "s \<noteq> sa" "s \<noteq> la"
    "n_color (h (tptr s sr)) = BLACK"
    using rep red(2) tcol_ptr [OF s, of sr] by (auto simp: rep_plug)
  define h0 where "h0 = set_color sa RED (set_color la BLACK h)"
  obtain h2 root2 where rot0: "left_rotate sa root s h0 = (h2, root2)" by fastforce
  have "rep h0 s root (plug (Node sr sa (Node a la b)) (LeftOf p t # c))" using rep by (simp add: h0_def)
  from left_rotate_rep [OF this rot0] have rep2: "rep h2 s root2 (plug (Node (Node (Node sr sa a) la b) p t) c)" by simp
  then have f2: "n_left (h2 p) = la" "n_left (h2 la) = sa" by (auto simp: rep_plug)
  have col2: "n_color (h2 p) = cl h p" using left_rotate_colors [OF rot0, of p] d by (simp add: h0_def cl_def set_color_def)
  define h1 where "h1 = set_color sa BLACK (set_color p BLACK (set_color la (cl h p) h2))"
  obtain h' root' where rot: "right_rotate p root2 s h1 = (h', root')" by fastforce
  have run: "rm_black_right s p root h = (h', root', root', True)"
    using f f2 col2 red rot rot0 unfolding rm_black_right_def Let_def
    by (simp add: h1_def h0_def [symmetric] cl_def)
  have rep1: "rep h1 s root2 (plug (Node (Node (Node sr sa a) la b) p t) c)" using rep2 by (simp add: h1_def)
  note rot_rep = right_rotate_rep [OF rep1 rot] and cl' = cl_rotate(2) [OF rot]
  let ?T = "Node (Node sr sa a) la (Node b p t)"
  have cl1: "cl h1 = (cl h)(la := cl h p, p := BLACK, sa := BLACK)"
    using cl_rotate(1) [OF rot0] by (simp add: h1_def h0_def fun_upd_twist)
  have "rbt (cl h1) (plug ?T c)"
    using rbt_plug [of "cl h1" ?T c] d t p sib fits red by (auto simp: cl1 rbt_def)
  moreover have "cl h' s = BLACK" using cl' cl1 s f(4-6) by simp
  moreover have "key h' x = key h x" for x
    using right_rotate_colors [OF rot, of x] left_rotate_colors [OF rot0, of x] by (simp add: h1_def h0_def)
  ultimately have "rm_stop h s (inorder (plug (Node (Node sr sa (Node a la b)) p t) c)) h' root'"
    unfolding rm_stop_def using rot_rep cl' by (auto intro!: exI [of _ "plug ?T c"])
  with run show ?thesis by blast
qed

lemma rm_black_right_none:
  assumes "rep h s root (plug (Node (Node sr sa sl) p t) c)" "cl h s = BLACK" "tcol (cl h) sl \<noteq> RED" "tcol (cl h) sr \<noteq> RED"
  shows "rm_black_right s p root h = (set_color sa RED h, root, p, False)"
proof -
  have "n_left (h p) = sa" "n_right (h sa) = tptr s sl" "n_left (h sa) = tptr s sr"
    using assms(1) by (auto simp: rep_plug)
  then show ?thesis using assms(3,4) tcol_ptr [OF assms(2)] unfolding rm_black_right_def Let_def by simp
qed

lemma rm_black_right_correct:
  assumes rep: "rep h s root (plug (Node (Node sr sa sl) p t) c)" and s: "cl h s = BLACK"
    and t: "invc (cl h) t" "tcol (cl h) t = BLACK" "invh (cl h) t"
    and p: "cl h p = BLACK \<or> cl h p = RED \<and> pcol (cl h) c = BLACK \<and> c \<noteq> []"
    and sib: "cl h sa = BLACK" "invc (cl h) sl" "invc (cl h) sr" "invh (cl h) sl" "invh (cl h) sr"
      "bheight (cl h) sl = bheight (cl h) t" "bheight (cl h) sr = bheight (cl h) t"
    and fits: "fits (cl h) (bheight (cl h) t + 1 + of_bool (cl h p = BLACK)) c"
    and n: "length c < n \<or> cl h p = RED"
  shows "rm_next h s (inorder (plug (Node (Node sr sa sl) p t) c)) n (rm_black_right s p root h)"
proof (cases "tcol (cl h) sr = RED")
  case True
  then obtain b ra d where sr: "sr = Node b ra d" "cl h ra = RED" by (cases sr) auto
  have "\<exists>h' root'. rm_black_right s p root h = (h', root', root', True)
    \<and> rm_stop h s (inorder (plug (Node (Node (Node b ra d) sa sl) p t) c)) h' root'"
    by (rule rm_black_right_far) (use assms sr in \<open>simp_all\<close>)
  then show ?thesis unfolding sr by (auto simp: rm_next_def)
next
  case False
  then have bs: "tcol (cl h) sr = BLACK" using tcol_cases [OF sib(3)] by blast
  show ?thesis
  proof (cases "tcol (cl h) sl = RED")
    case True
    then obtain a la b where sl: "sl = Node a la b" "cl h la = RED" by (cases sl) auto
    have "\<exists>h' root'. rm_black_right s p root h = (h', root', root', True)
      \<and> rm_stop h s (inorder (plug (Node (Node sr sa (Node a la b)) p t) c)) h' root'"
      by (rule rm_black_right_near) (use assms sl bs in \<open>simp_all\<close>)
    then show ?thesis unfolding sl by (auto simp: rm_next_def)
  next
    case False
    then have bl: "tcol (cl h) sl = BLACK" using tcol_cases [OF sib(2)] by blast
    have d: "distinct (before c @ inorder sr @ sa # inorder sl @ p # inorder t @ after c)" "s \<noteq> sa"
      using rep by (auto simp: rep_plug)
    let ?t = "Node (Node sr sa sl) p t" and ?h = "set_color sa RED h"
    have run: "rm_black_right s p root h = (?h, root, p, False)"
      using rm_black_right_none [OF rep s] bl bs by simp
    have "invc ((cl ?h)(p := BLACK)) ?t" "invh (cl ?h) ?t" "fits (cl ?h) (bheight (cl ?h) ?t + 1) c"
      "length c < n \<or> cl ?h p = RED"
      using d t sib bl bs fits n by (auto simp: add.commute)
    then show ?thesis using rep s d(2) unfolding run rm_next_def
      by (auto intro!: exI [of _ ?t] exI [of _ c])
  qed
qed

lemma rm_fix_right_correct:
  assumes rep: "rep h s root (plug t (RightOf sib p # c))" and s: "cl h s = BLACK"
    and t: "invc (cl h) t" "tcol (cl h) t = BLACK" "invh (cl h) t"
    and fits: "fits (cl h) (bheight (cl h) t + 1) (RightOf sib p # c)"
  shows "rm_next h s (inorder (plug t (RightOf sib p # c))) (Suc (length c)) (rm_fix_right s p root h)"
proof -
  obtain sl sa sr where sib: "sib = Node sr sa sl" using fits by (cases sib) auto
  have pl: "plug t (RightOf sib p # c) = plug (Node (Node sr sa sl) p t) c" by (simp add: sib)
  have f: "n_left (h p) = sa" using rep by (auto simp: rep_plug sib)
  have d: "distinct (before c @ inorder sr @ sa # inorder sl @ p # inorder t @ after c)" "s \<noteq> sa" "s \<noteq> p"
    using rep by (auto simp: rep_plug sib)
  show ?thesis
  proof (cases "cl h sa = RED")
    case False
    then have run: "rm_fix_right s p root h = rm_black_right s p root h"
      using f by (simp add: rm_fix_right_def Let_def cl_def)
    show ?thesis unfolding run pl
      by (rule rm_black_right_correct) (use rep s t fits False in \<open>auto simp: sib\<close>)
  next
    case True
    have col: "cl h p = BLACK" "tcol (cl h) sl = BLACK" "tcol (cl h) sr = BLACK" "invc (cl h) sl" "invc (cl h) sr"
      "invh (cl h) sl" "invh (cl h) sr" "bheight (cl h) sl = bheight (cl h) t + 1" "bheight (cl h) sr = bheight (cl h) t + 1"
      "fits (cl h) (bheight (cl h) t + 2) c"
      using fits True by (auto simp: sib numeral_2_eq_2)
    define h1 where "h1 = set_color p RED (set_color sa BLACK h)"
    obtain h2 root2 where rot: "right_rotate p root s h1 = (h2, root2)" by fastforce
    have run: "rm_fix_right s p root h = rm_black_right s p root2 h2"
      using f True rot by (simp add: rm_fix_right_def Let_def cl_def h1_def)
    have "rep h1 s root (plug (Node (Node sr sa sl) p t) c)" using rep pl by (simp add: h1_def)
    from right_rotate_rep [OF this rot] have rep2: "rep h2 s root2 (plug (Node sl p t) (RightOf sr sa # c))" by simp
    have cl2: "cl h2 = (cl h)(sa := BLACK, p := RED)" using cl_rotate(2) [OF rot] by (simp add: h1_def)
    obtain a la b where sl: "sl = Node a la b" using col(8) by (cases sl) auto
    have key: "key h2 x = key h x" for x using right_rotate_colors [OF rot, of x] by (simp add: h1_def)
    have "rm_next h2 s (inorder (plug (Node (Node a la b) p t) (RightOf sr sa # c))) (Suc (length c)) (rm_black_right s p root2 h2)"
      by (rule rm_black_right_correct)
        (use rep2 s t col d sl in \<open>auto simp: cl2 numeral_2_eq_2\<close>)
    then show ?thesis unfolding run pl by (simp add: rm_next_def rm_stop_def key sl split: prod.splits if_splits)
  qed
qed

section \<open>The loop\<close>

definition rm_post :: "rbheap \<Rightarrow> addr \<Rightarrow> addr list \<Rightarrow> rbheap \<times> addr \<times> addr \<Rightarrow> bool" where
  "rm_post h s xs res \<longleftrightarrow> (case res of (h', root', x') \<Rightarrow> \<exists>t'. rep h' s root' t' \<and> inorder t' = xs
     \<and> rbt ((cl h')(x' := BLACK)) t' \<and> ((cl h')(x' := BLACK)) s = BLACK \<and> (\<forall>a. key h' a = key h a))"

lemma tptr_plug_in: "c \<noteq> [] \<Longrightarrow> tptr s (plug t c) \<in> set (before c) \<union> set (after c)"
proof (induction t c rule: plug.induct)
  case (2 t a r c)
  then show ?case by (cases "c = []") auto
next
  case (3 t l a c)
  then show ?case by (cases "c = []") auto
qed simp

lemma root_of_plug: "rep h s root (plug t c) \<Longrightarrow> tptr s t = root \<longleftrightarrow> c = [] \<or> t = Leaf \<and> root = s"
proof (cases "c = []")
  case False
  assume rep: "rep h s root (plug t c)"
  have out: "root \<in> set (before c) \<or> root \<in> set (after c)"
    using tptr_plug_in [OF False, of s t] rep by (auto simp: rep_def)
  have ns: "root \<noteq> s" using out ctx_at_not_sentl rep by (auto simp: rep_plug)
  have "tptr s t = s \<or> tptr s t \<in> set_tree t" by (cases t) auto
  then show ?thesis using out rep ns False by (auto simp: rep_plug)
qed (simp add: rep_def)

lemma plug_not_Leaf: "c \<noteq> [] \<Longrightarrow> plug t c \<noteq> Leaf"
proof (induction t c rule: plug.induct)
  case (2 t a r c)
  then show ?case by (cases "c = []") auto
next
  case (3 t l a c)
  then show ?case by (cases "c = []") auto
qed simp

lemma root_not_sentl: "rep h s root (plug t c) \<Longrightarrow> c \<noteq> [] \<Longrightarrow> root \<noteq> s"
  using plug_not_Leaf [of c t] tptr_Leaf_iff [of h s s "plug t c"] by (simp add: rep_def)

lemma rm_fixup_exit:
  assumes rep: "rep h s root (plug t c)" and s: "cl h s = BLACK" and t: "invc ((cl h)(tptr s t := BLACK)) t" "invh (cl h) t"
    and fits: "fits (cl h) (bheight (cl h) t + 1) c" and ex: "c = [] \<or> t \<noteq> Leaf \<and> cl h (tptr s t) \<noteq> BLACK"
  shows "rm_fixup s (tptr s t) root h = Some (h, root, tptr s t) \<and> rm_post h s (inorder (plug t c)) (h, root, tptr s t)"
proof -
  let ?col = "(cl h)(tptr s t := BLACK)"
  have run: "rm_fixup s (tptr s t) root h = Some (h, root, tptr s t)"
    using ex root_of_plug [OF rep] by (subst rm_fixup.simps) (auto simp: cl_def)
  have d: "distinct (before c @ inorder t @ after c)" using rep by (simp add: rep_plug)
  have "rbt ?col (plug t c)"
  proof (cases t)
    case Leaf
    then have "c = []" using ex by simp
    then show ?thesis using Leaf by (simp add: rbt_def)
  next
    case (Node l a r)
    have h: "invh ?col t" "tcol ?col t = BLACK" using t d Node by auto
    show ?thesis
    proof (cases "c = []")
      case True
      then show ?thesis using t h Node by (simp add: rbt_def)
    next
      case False
      then have "cl h a \<noteq> BLACK" using ex Node by simp
      then have "bheight ?col t = bheight (cl h) t + 1" using Node d by auto
      then have "fits ?col (bheight ?col t) c" using fits d Node by auto
      with rbt_plug [of ?col t c] t(1) h False show ?thesis by (simp add: rbt_def)
    qed
  qed
  then show ?thesis using run rep s by (auto simp: rm_post_def)
qed

lemma rm_fixup_correct:
  assumes "rep h s root (plug t c)" "n_parent (h (tptr s t)) = par s c" "cl h s = BLACK"
    "invc ((cl h)(tptr s t := BLACK)) t" "invh (cl h) t" "fits (cl h) (bheight (cl h) t + 1) c"
  shows "\<exists>res. rm_fixup s (tptr s t) root h = Some res \<and> rm_post h s (inorder (plug t c)) res"
  using assms
proof (induction "length c" arbitrary: h root t c rule: less_induct)
  case less
  note prems = less.prems
  show ?case
  proof (cases "c = [] \<or> t \<noteq> Leaf \<and> cl h (tptr s t) \<noteq> BLACK")
    case True
    with rm_fixup_exit [OF prems(1,3-6)] show ?thesis by blast
  next
    case False
    then obtain f c' where c: "c = f # c'" by (cases c) auto
    have black: "tcol (cl h) t = BLACK" "cl h (tptr s t) = BLACK" using False prems(3) by (cases t; auto)+
    then have t: "invc (cl h) t" using prems(4) by (simp add: fun_upd_idem)
    have ne: "tptr s t \<noteq> root" using root_of_plug [OF prems(1)] root_not_sentl [OF prems(1)] c by auto
    define res where "res = (if tptr s t = n_left (h (par s c)) then rm_fix_left s (par s c) root h
      else rm_fix_right s (par s c) root h)"
    have run: "rm_fixup s (tptr s t) root h
        = (case res of (h, root, x, stop) \<Rightarrow> if stop then Some (h, root, x) else rm_fixup s x root h)"
      using ne black(2) prems(2) unfolding res_def by (subst rm_fixup.simps) (simp add: cl_def)
    have round: "rm_next h s (inorder (plug t c)) (length c) res"
    proof (cases f)
      case (LeftOf p sib)
      have "tptr s t = n_left (h p)" using prems(1) by (simp add: rep_plug c LeftOf)
      then show ?thesis using rm_fix_left_correct [of h s root t p sib c'] prems t black
        by (simp add: res_def c LeftOf del: plug.simps inorder_plug)
    next
      case (RightOf sib p)
      have "sib \<noteq> Leaf" using prems(6) by (auto simp: c RightOf)
      then have "tptr s sib \<in> set_tree sib" by (cases sib) auto
      moreover have "n_left (h p) = tptr s sib" "s \<notin> set_tree sib" "set_tree t \<inter> set_tree sib = {}"
        using prems(1) tree_at_not_sentl by (auto simp: rep_plug c RightOf)
      moreover have "tptr s t = s \<or> tptr s t \<in> set_tree t" by (cases t) auto
      ultimately have "tptr s t \<noteq> n_left (h p)" by auto
      then show ?thesis using rm_fix_right_correct [of h s root t sib p c'] prems t black
        by (simp add: res_def c RightOf del: plug.simps inorder_plug)
    qed
    obtain h' root' x' stop where res: "res = (h', root', x', stop)" by (cases res) auto
    show ?thesis
    proof (cases stop)
      case True
      with round res obtain t' where t': "x' = root'" "rep h' s root' t'" "inorder t' = inorder (plug t c)" "rbt (cl h') t'"
        "cl h' s = BLACK" "\<forall>a. key h' a = key h a" by (auto simp: rm_next_def rm_stop_def)
      have "rm_post h s (inorder (plug t c)) (h', root', x')"
        unfolding rm_post_def using t' rbt_root_black [OF t'(2,5,4)] by auto
      with run res True show ?thesis by simp
    next
      case go: False
      with round res obtain t' c'' where n: "cl h' s = BLACK" "\<forall>a. key h' a = key h a" "rep h' s root' (plug t' c'')"
        "x' = tptr s t'" "t' \<noteq> Leaf" "inorder (plug t' c'') = inorder (plug t c)" "invc ((cl h')(tptr s t' := BLACK)) t'"
        "invh (cl h') t'" "fits (cl h') (bheight (cl h') t' + 1) c''" "length c'' < length c \<or> cl h' (tptr s t') = RED"
        by (auto simp: rm_next_def simp del: inorder_plug)
      have par: "n_parent (h' (tptr s t')) = par s c''" using n(3,5) by (cases t') (auto simp: rep_plug)
      have "\<exists>res. rm_fixup s (tptr s t') root' h' = Some res \<and> rm_post h' s (inorder (plug t' c'')) res"
      proof (cases "length c'' < length c")
        case True
        from less.hyps [OF True n(3) par n(1,7-9)] show ?thesis .
      next
        case False
        then have "c'' = [] \<or> t' \<noteq> Leaf \<and> cl h' (tptr s t') \<noteq> BLACK" using n(5,10) by simp
        from rm_fixup_exit [OF n(3,1,7-9) this] show ?thesis by blast
      qed
      then show ?thesis using run res go n(2,4,6) by (auto simp: rm_post_def simp del: inorder_plug split: prod.splits)
    qed
  qed
qed

section \<open>Unlinking a node\<close>

lemma tree_at_reroot:
  assumes "tree_at h s q t" "distinct (inorder t)" "t \<noteq> Leaf \<Longrightarrow> n_parent (h' (tptr s t)) = q'"
    and "\<And>x. x \<in> set_tree t \<Longrightarrow> n_left (h' x) = n_left (h x) \<and> n_right (h' x) = n_right (h x)"
    and "\<And>x. x \<in> set_tree t \<Longrightarrow> x \<noteq> tptr s t \<Longrightarrow> h' x = h x"
  shows "tree_at h' s q' t"
proof (cases t)
  case (Node l a r)
  have "tree_at h' s a l = tree_at h s a l" "tree_at h' s a r = tree_at h s a r"
    by (rule tree_at_cong; use assms(2,5) Node in auto)+
  then show ?thesis using assms(1,3,4) Node by auto
qed simp

lemma tptr_in: "t \<noteq> Leaf \<Longrightarrow> tptr s t \<in> set_tree t"
  by (cases t) auto

text \<open>Putting \<open>b\<close>, whose children are already those of \<open>a\<close>, in the place of \<open>a\<close> and forgetting \<open>a\<close>.\<close>

lemma unlink_node:
  assumes c: "ctx_at h s a c" "n_parent (h a) = par s c" "distinct (before c @ inorder t @ after c)"
    and a: "a \<noteq> s" "a \<notin> set (before c)" "a \<notin> set (after c)" "a \<notin> set_tree t"
    and t: "tree_at h s q t" "root = tptr s (plug (Node l0 a r0) c)" "s \<noteq> 0"
    and run: "relink_parent a (tptr s t) root s h = (h1, root')"
      "h' = h1(a := (h1 a)\<lparr>n_left := 0, n_right := 0, n_parent := 0, n_key := 0\<rparr>)"
  shows "rep h' s root' (plug t c) \<and> n_parent (h' (tptr s t)) = par s c
    \<and> (\<forall>x. n_color (h' x) = n_color (h x)) \<and> (\<forall>x. x \<noteq> a \<longrightarrow> key h' x = key h x)
    \<and> (\<forall>x. x \<noteq> a \<and> x \<notin> set (before c) \<and> x \<notin> set (after c) \<and> x \<noteq> tptr s t \<longrightarrow> h' x = h x)"
proof -
  have ns: "s \<notin> set_tree t" "s \<notin> set (before c)" "s \<notin> set (after c)"
    using tree_at_not_sentl [OF t(1)] ctx_at_not_sentl [OF c(1)] by auto
  have b: "tptr s t \<notin> set (before c)" "tptr s t \<notin> set (after c)" "a \<noteq> tptr s t"
    using ns a c(3) by (cases t; auto)+
  have d: "distinct (before c @ after c)" using c(3) by auto
  note rel = relink_parent_rep [OF c(1,2) d a(1,2,3) b(1,2) run(1)]
  have "tree_at h1 s (par s c) t"
    by (rule tree_at_reroot [OF t(1)]) (use rel c(3) in auto)
  moreover have "root' = tptr s (plug t c)"
  proof (cases "c = []")
    case False
    then show ?thesis using rel t(2) tptr_plug2 [of c s t "Node l0 a r0"] by simp
  qed (use rel in simp)
  ultimately have "rep h' s root' (plug t c)"
    using rel c(3) a t(3) run(2) by (simp add: rep_plug)
  moreover have "n_parent (h' (tptr s t)) = par s c" using rel b run(2) by auto
  ultimately show ?thesis using rel run(2) by auto
qed

lemma min_split: "t \<noteq> Leaf \<Longrightarrow> \<exists>y yr c. t = plug (Node Leaf y yr) c \<and> before c = [] \<and> y = hd (inorder t)
    \<and> (c \<noteq> [] \<longrightarrow> (\<exists>b br c'. c = LeftOf b br # c'))"
proof (induction t)
  case (Node l a r)
  show ?case
  proof (cases "l = Leaf")
    case True
    then show ?thesis by (intro exI [of _ a] exI [of _ r] exI [of _ "[]"]) simp
  next
    case False
    with Node.IH(1) obtain y yr c where IH: "l = plug (Node Leaf y yr) c" "before c = []" "y = hd (inorder l)"
      "c \<noteq> [] \<longrightarrow> (\<exists>b br c'. c = LeftOf b br # c')" by blast
    have "inorder l \<noteq> []" using False by (simp add: eq_inorder_Nil)
    with IH show ?thesis
      by (intro exI [of _ y] exI [of _ yr] exI [of _ "c @ [LeftOf a r]"]) (cases c; auto simp: plug_append)
  qed
qed simp

definition rm_split :: "addr tree \<Rightarrow> addr tree \<Rightarrow> frame list \<Rightarrow> addr tree \<Rightarrow> frame list \<Rightarrow> addr \<Rightarrow> bool" where
  "rm_split l r c t c' y \<longleftrightarrow>
     (if y = 0 then c' = c \<and> (l = Leaf \<and> t = r \<or> r = Leaf \<and> t = l)
      else \<exists>c1. r = plug (Node Leaf y t) c1 \<and> before c1 = [] \<and> c' = c1 @ RightOf l y # c)"

lemma tree_rm_leaf:
  assumes rep: "rep h s root (plug (Node l z r) c)" and lr: "l = Leaf \<and> t = r \<or> l \<noteq> Leaf \<and> r = Leaf \<and> t = l"
  shows "\<exists>h' root'. tree_rm z root s h = Some (h', root', tptr s t, 0) \<and> rep h' s root' (plug t c)
    \<and> n_parent (h' (tptr s t)) = par s c \<and> (\<forall>x. n_color (h' x) = n_color (h x)) \<and> (\<forall>x. x \<noteq> z \<longrightarrow> key h' x = key h x)"
proof -
  have z: "z \<noteq> s" "n_left (h z) = tptr s l" "n_right (h z) = tptr s r" "n_parent (h z) = par s c"
    "tree_at h s z l" "tree_at h s z r" "ctx_at h s z c" "s \<noteq> 0" "root = tptr s (plug (Node l z r) c)"
    "distinct (before c @ inorder t @ after c)" "z \<notin> set (before c)" "z \<notin> set (after c)" "z \<notin> set_tree t"
    using rep lr by (auto simp: rep_plug)
  obtain h1 root' where rel: "relink_parent z (tptr s t) root s h = (h1, root')" by fastforce
  have "tree_at h s z t" using lr z by auto
  define h' where "h' = h1(z := (h1 z)\<lparr>n_left := 0, n_right := 0, n_parent := 0, n_key := 0\<rparr>)"
  from unlink_node [OF z(7,4,10,1,11-13) \<open>tree_at h s z t\<close> z(9,8) rel h'_def]
  have U: "rep h' s root' (plug t c)" "n_parent (h' (tptr s t)) = par s c" "\<forall>x. n_color (h' x) = n_color (h x)"
    "\<forall>x. x \<noteq> z \<longrightarrow> key h' x = key h x" by blast+
  have "tptr s l \<noteq> s" if "l \<noteq> Leaf" using that z(5) tptr_Leaf_iff by blast
  then have "tree_rm z root s h = Some (h', root', tptr s t, 0)"
    using lr z(2,3) rel by (auto simp: tree_rm_def h'_def)
  with U show ?thesis by blast
qed

text \<open>The successor's subtree with the successor taken out, and its new children linked to it.\<close>

definition relinked :: "rbheap \<Rightarrow> rbheap \<Rightarrow> addr \<Rightarrow> addr tree \<Rightarrow> addr \<Rightarrow> addr tree \<Rightarrow> frame list \<Rightarrow> addr \<Rightarrow> frame list \<Rightarrow> bool" where
  "relinked h h3 s l y t c1 z c \<longleftrightarrow> tree_at h3 s y l \<and> tree_at h3 s y (plug t c1) \<and> n_left (h3 y) = tptr s l
     \<and> n_right (h3 y) = tptr s (plug t c1) \<and> n_parent (h3 (tptr s t)) = (if c1 = [] then y else par s c1)
     \<and> ctx_at h3 s z c \<and> n_parent (h3 z) = par s c \<and> (\<forall>x. n_color (h3 x) = n_color (h x) \<and> key h3 x = key h x)"

lemma relink_child:
  assumes "rep h s root (plug (Node l z (Node Leaf y t)) c)" "l \<noteq> Leaf"
  shows "relinked h (link_leftchild y (tptr s l) (set_parent (tptr s t) y h)) s l y t [] z c"
proof -
  let ?h = "link_leftchild y (tptr s l) (set_parent (tptr s t) y h)"
  have f: "tree_at h s z l" "tree_at h s y t" "ctx_at h s z c" "n_parent (h z) = par s c" "n_right (h y) = tptr s t"
    "distinct (before c @ inorder l @ z # y # inorder t @ after c)" "y \<noteq> s" "z \<noteq> s"
    using assms(1) by (auto simp: rep_plug)
  have ns: "s \<notin> set_tree l" "s \<notin> set_tree t" "s \<notin> set (before c)" "s \<notin> set (after c)"
    using f tree_at_not_sentl ctx_at_not_sentl by blast+
  have lin: "tptr s l \<in> set_tree l" using assms(2) by (rule tptr_in)
  have tin: "tptr s t = s \<or> tptr s t \<in> set_tree t" by (cases t) auto
  have ne: "tptr s l \<noteq> y" "tptr s t \<noteq> y" "tptr s l \<noteq> z" "tptr s t \<noteq> z" "tptr s l \<noteq> tptr s t" "tptr s l \<noteq> s"
    "tptr s l \<notin> set_tree t" "tptr s t \<notin> set_tree l" "y \<notin> set_tree l" "y \<notin> set_tree t" "y \<noteq> z"
    "tptr s l \<notin> set (before c)" "tptr s l \<notin> set (after c)" "tptr s t \<notin> set (before c)" "tptr s t \<notin> set (after c)"
    using lin tin ns f(6-8) by auto
  have "tree_at ?h s y l"
    by (rule tree_at_reroot [OF f(1)]) (use f(6) ne in \<open>auto simp: field_defs\<close>)
  moreover have "tree_at ?h s y t"
    by (rule tree_at_reroot [OF f(2)]) (use f(6) ne in \<open>auto simp: field_defs\<close>)
  moreover have "ctx_at ?h s z c" using f(3,6) ne unfolding field_defs by simp
  ultimately show ?thesis using f(4,5) ne unfolding relinked_def by (simp add: field_defs)
qed

lemma relink_deep:
  assumes rep: "rep h s root (plug (Node l z (plug (Node Leaf y t) (LeftOf b br # c'))) c)" and l: "l \<noteq> Leaf"
    and h1: "h1 = link_leftchild b (tptr s t) h"
    and r: "tptr s (plug (Node Leaf y t) (LeftOf b br # c')) = rt"
  shows "relinked h (link_leftchild y (tptr s l) (link_rightchild y rt h1)) s l y t (LeftOf b br # c') z c"
proof -
  let ?c1 = "LeftOf b br # c'"
  define C where "C = c' @ RightOf l z # c"
  define R where "R = plug t ?c1"
  let ?h2 = "link_rightchild y rt h1" and ?h = "link_leftchild y (tptr s l) (link_rightchild y rt h1)"
  have pl: "plug u (?c1 @ RightOf l z # c) = plug (Node l z (plug u ?c1)) c" for u
    using plug_append [of u ?c1 "RightOf l z # c"] by simp
  have rep': "rep h s root (plug (Node Leaf y t) (LeftOf b br # C))" using rep pl [of "Node Leaf y t"] by (simp add: C_def)
  have f: "tree_at h s y t" "ctx_at h s y (LeftOf b br # C)" "distinct (before C @ y # inorder t @ b # inorder br @ after C)"
    "n_right (h y) = tptr s t" "n_parent (h y) = b" "y \<noteq> s" "b \<noteq> s"
    using rep' by (auto simp: rep_plug)
  have ns: "s \<notin> set_tree t" "s \<notin> set (before C)" "s \<notin> set (after C)" "s \<notin> set_tree br"
    using f tree_at_not_sentl [OF f(1)] ctx_at_not_sentl [OF f(2)] by auto
  have tin: "tptr s t = s \<or> tptr s t \<in> set_tree t" by (cases t) auto
  have t1: "tree_at h1 s b t"
    by (rule tree_at_reroot [OF f(1)]) (use f(3) tin ns in \<open>auto simp: h1 field_defs\<close>)
  have "tptr s t \<noteq> b" "tptr s t \<notin> set_tree br" "tptr s t \<notin> set (before C)" "tptr s t \<notin> set (after C)"
    using tin ns f(3,7) by auto
  then have "ctx_at h1 s (tptr s t) (LeftOf b br # C)" using f(2,3) by (simp add: h1 field_defs)
  with t1 have "tree_at h1 s s (plug t (LeftOf b br # C))" unfolding tree_at_plug by simp
  then have "tree_at h1 s s (plug (Node l z R) c)" using pl [of t] by (simp add: C_def R_def)
  then have g: "tree_at h1 s z l" "tree_at h1 s z R" "ctx_at h1 s z c" "n_parent (h1 z) = par s c" "n_right (h1 z) = tptr s R"
    by (auto simp: tree_at_plug)
  have set_R: "set_tree R = set (before ?c1 @ inorder t @ after ?c1)"
    unfolding R_def set_inorder [symmetric] inorder_plug ..
  have yR: "y \<notin> set_tree R" unfolding set_R using rep by (auto simp: rep_plug)
  have dd: "distinct (before c @ inorder l @ z # inorder (plug (Node Leaf y t) ?c1) @ after c)" "z \<noteq> s"
    using rep unfolding rep_plug by simp_all
  then have "distinct (before c @ inorder l @ z # inorder R @ after c)" unfolding R_def inorder_plug by simp
  moreover have "y \<notin> set_tree l" "y \<noteq> z" "y \<notin> set (before c)" "y \<notin> set (after c)"
    using dd(1) by auto
  ultimately have d: "distinct (before c @ inorder l @ z # inorder R @ after c)" "y \<notin> set_tree l" "y \<notin> set_tree R" "y \<noteq> z"
    "y \<notin> set (before c)" "y \<notin> set (after c)" "s \<notin> set_tree l" "s \<notin> set_tree R" "z \<noteq> s"
    "s \<notin> set (before c)" "s \<notin> set (after c)"
    using yR dd(2) tree_at_not_sentl [OF g(1)] tree_at_not_sentl [OF g(2)] ctx_at_not_sentl [OF g(3)] by blast+
  have rt: "rt = tptr s R" using r tptr_plug2 [of ?c1 s t "Node Leaf y t"] by (simp add: R_def)
  have Rne: "R \<noteq> Leaf" using plug_not_Leaf [of ?c1 t] unfolding R_def by blast
  then have rin: "rt \<in> set_tree R" unfolding rt by (rule tptr_in)
  have lin: "tptr s l \<in> set_tree l" using l by (rule tptr_in)
  have ne: "tptr s l \<noteq> y" "rt \<noteq> y" "tptr s l \<noteq> z" "rt \<noteq> z" "tptr s l \<noteq> rt" "tptr s l \<noteq> s" "rt \<noteq> s"
    "tptr s l \<notin> set_tree R" "rt \<notin> set_tree l"
    "tptr s l \<notin> set (before c)" "tptr s l \<notin> set (after c)" "rt \<notin> set (before c)" "rt \<notin> set (after c)"
    using lin rin d by (auto )
  have tl: "tree_at ?h s y l"
    by (rule tree_at_reroot [OF g(1)]) (use d ne in \<open>auto simp: field_defs \<close>)
  have tR: "tree_at ?h s y R"
    by (rule tree_at_reroot [OF g(2)]) (use d ne in \<open>auto simp: field_defs rt \<close>)
  have tc: "ctx_at ?h s z c" using g(3) ne d unfolding field_defs by simp
  have "n_parent (h1 (tptr s t)) = b" by (simp add: h1 field_defs)
  moreover have "tptr s t \<noteq> rt" "tptr s t \<noteq> tptr s l" "tptr s t \<noteq> y"
  proof -
    have "rt \<in> set (before ?c1) \<union> set (after ?c1)" unfolding rt R_def by (rule tptr_plug_in) simp
    moreover have "(set (before ?c1) \<union> set (after ?c1)) \<inter> set_tree t = {}" using rep by (auto simp: rep_plug)
    ultimately show "tptr s t \<noteq> rt" using tin ne(7) by auto
    have "set_tree t \<subseteq> set_tree R" by (auto simp: set_R)
    then show "tptr s t \<noteq> tptr s l" "tptr s t \<noteq> y" using tin ne(6,8) f(6) d(3) by auto
  qed
  ultimately show ?thesis using tl tR tc g(4) ne d rt unfolding relinked_def R_def [symmetric] by (simp add: field_defs h1)
qed

lemma tree_rm_both:
  assumes rep: "rep h s root (plug (Node l z r) c)" and l: "l \<noteq> Leaf" and r: "r \<noteq> Leaf"
  shows "\<exists>h' root' y t c1. r = plug (Node Leaf y t) c1 \<and> before c1 = [] \<and> y \<noteq> 0 \<and> y \<noteq> s
    \<and> tree_rm z root s h = Some (h', root', tptr s t, y) \<and> rep h' s root' (plug t (c1 @ RightOf l y # c))
    \<and> n_parent (h' (tptr s t)) = par s (c1 @ RightOf l y # c)
    \<and> (\<forall>x. n_color (h' x) = n_color (h x)) \<and> (\<forall>x. x \<noteq> z \<longrightarrow> key h' x = key h x)"
proof -
  obtain y t c1 where y: "r = plug (Node Leaf y t) c1" "before c1 = []" "y = hd (inorder r)"
    "c1 \<noteq> [] \<longrightarrow> (\<exists>b br c'. c1 = LeftOf b br # c')" using min_split [OF r] by blast
  have f: "n_left (h z) = tptr s l" "n_right (h z) = tptr s r" "tree_at h s z l" "tree_at h s z r" "s \<noteq> 0" "z \<noteq> s"
    "root = tptr s (plug (Node l z r) c)" "distinct (before c @ inorder l @ z # inorder r @ after c)"
    using rep by (auto simp: rep_plug)
  have ne: "tptr s l \<noteq> s" "tptr s r \<noteq> s" using f(3,4) l r tptr_Leaf_iff by blast+
  have min: "fftree_min h s (tptr s r) = Some y" using fftree_min_correct [OF f(4) r] y(3) by simp
  have yin: "y \<in> set_tree r" unfolding y(1) set_inorder [symmetric] inorder_plug by simp
  have ys: "y \<noteq> s" "y \<noteq> 0" "y \<noteq> z" using yin tree_at_not_sentl [OF f(4)] f(8) by auto
  let ?R = "plug t c1"
  have "\<exists>h3. relinked h h3 s l y t c1 z c \<and> tree_rm z root s h =
      (case relink_parent z y root s h3 of (h4, root') \<Rightarrow>
        Some (h4(z := (h4 z)\<lparr>n_left := 0, n_right := 0, n_parent := 0, n_key := 0\<rparr>), root', tptr s t, y))"
  proof (cases c1)
    case Nil
    let ?h1 = "set_parent (tptr s t) y h"
    let ?h3 = "link_leftchild y (tptr s l) ?h1"
    have "relinked h ?h3 s l y t [] z c" using relink_child [of h s root l z y t c] rep y(1) Nil l by simp
    moreover have "n_right (h y) = tptr s t" "tptr s r = y" "n_left (?h1 z) = tptr s l"
      using rep y(1) Nil f(1) by (auto simp: rep_plug set_parent_def)
    then have "tree_rm z root s h = (case relink_parent z y root s ?h3 of (h4, root') \<Rightarrow>
        Some (h4(z := (h4 z)\<lparr>n_left := 0, n_right := 0, n_parent := 0, n_key := 0\<rparr>), root', tptr s t, y))"
      using f(1,2) ne min unfolding tree_rm_def Let_def by (auto split: prod.splits)
    ultimately show ?thesis using Nil by blast
  next
    case (Cons fr c'')
    with y(4) obtain b br c' where c1: "c1 = LeftOf b br # c'" by blast
    let ?h1 = "link_leftchild b (tptr s t) h"
    let ?h2 = "link_rightchild y (tptr s r) ?h1"
    let ?h3 = "link_leftchild y (tptr s l) ?h2"
    have rep': "rep h s root (plug (Node Leaf y t) (LeftOf b br # c' @ RightOf l z # c))"
      using rep plug_append [of "Node Leaf y t" c1 "RightOf l z # c"] by (simp add: y(1) c1)
    then have g: "n_right (h y) = tptr s t" "n_parent (h y) = b" "y \<noteq> b" "z \<noteq> b" "tptr s t \<noteq> z"
      using f(6) by (cases t; auto simp: rep_plug)+
    have "relinked h ?h3 s l y t c1 z c"
      unfolding c1 by (rule relink_deep [OF _ l refl]) (use rep in \<open>simp_all add: y(1) c1\<close>)
    moreover have "y \<noteq> tptr s r"
    proof -
      have "tptr s r \<in> set (before c1) \<union> set (after c1)" unfolding y(1) by (rule tptr_plug_in) (simp add: c1)
      moreover have "distinct (inorder r)" using f(8) by auto
      then have "y \<notin> set (before c1) \<union> set (after c1)" unfolding y(1) inorder_plug by auto
      ultimately show ?thesis by auto
    qed
    moreover have "n_right (?h1 z) = tptr s r" "n_left (?h2 z) = tptr s l"
      using f(1,2) g ys(3) by (auto simp: field_defs)
    ultimately show ?thesis
      using f(1,2) ne min g unfolding tree_rm_def Let_def by (intro exI [of _ ?h3]) (auto split: prod.splits)
  qed
  then obtain h3 where rl: "relinked h h3 s l y t c1 z c" and run: "tree_rm z root s h =
      (case relink_parent z y root s h3 of (h4, root') \<Rightarrow>
        Some (h4(z := (h4 z)\<lparr>n_left := 0, n_right := 0, n_parent := 0, n_key := 0\<rparr>), root', tptr s t, y))" by blast
  obtain h4 root' where rel: "relink_parent z y root s h3 = (h4, root')" by fastforce
  define h' where "h' = h4(z := (h4 z)\<lparr>n_left := 0, n_right := 0, n_parent := 0, n_key := 0\<rparr>)"
  let ?T = "Node l y ?R"
  have T: "tree_at h3 s (n_parent (h3 y)) ?T" using rl ys by (simp add: relinked_def)
  have d: "distinct (before c @ inorder ?T @ after c)" "z \<notin> set (before c)" "z \<notin> set (after c)" "z \<notin> set_tree ?T"
  proof -
    show dd: "distinct (before c @ inorder ?T @ after c)" "z \<notin> set (before c)" "z \<notin> set (after c)"
      using f(8) y(1,2) by auto
    have "z \<notin> set (inorder ?T)" using f(8) y(1,2) ys by auto
    then show "z \<notin> set_tree ?T" unfolding set_inorder .
  qed
  have c3: "ctx_at h3 s z c" "n_parent (h3 z) = par s c" using rl by (auto simp: relinked_def)
  have rel': "relink_parent z (tptr s ?T) root s h3 = (h4, root')" using rel by simp
  from unlink_node [OF c3 d(1) f(6) d(2-4) T f(7,5) rel' h'_def]
  have U: "rep h' s root' (plug ?T c)" "\<forall>x. n_color (h' x) = n_color (h3 x)" "\<forall>x. x \<noteq> z \<longrightarrow> key h' x = key h3 x"
    "\<And>x. x \<noteq> z \<Longrightarrow> x \<notin> set (before c) \<Longrightarrow> x \<notin> set (after c) \<Longrightarrow> x \<noteq> y \<Longrightarrow> h' x = h3 x" by auto
  have pl: "plug t (c1 @ RightOf l y # c) = plug ?T c" by (simp add: plug_append)
  have "h' (tptr s t) = h3 (tptr s t)"
  proof (rule U(4))
    have "tptr s t = s \<or> tptr s t \<in> set_tree t" by (cases t) auto
    moreover have "s \<notin> set (before c)" "s \<notin> set (after c)" using ctx_at_not_sentl [OF c3(1)] by auto
    moreover have "set_tree t \<inter> (set (before c) \<union> set (after c)) = {}" "y \<notin> set_tree t" "z \<notin> set_tree t"
      using d(1) f(8) y(1) by auto
    ultimately show "tptr s t \<noteq> z" "tptr s t \<notin> set (before c)" "tptr s t \<notin> set (after c)" "tptr s t \<noteq> y"
      using f(6) ys by auto
  qed
  then have "n_parent (h' (tptr s t)) = par s (c1 @ RightOf l y # c)" using rl by (simp add: relinked_def)
  moreover have "tree_rm z root s h = Some (h', root', tptr s t, y)" using run rel h'_def by simp
  ultimately show ?thesis using y(1,2) ys U(1,2,3) rl pl unfolding relinked_def
    by (intro exI [of _ h'] exI [of _ root'] exI [of _ y] exI [of _ t] exI [of _ c1]) simp
qed

section \<open>Removal\<close>

lemma invc_blacken: "invc col t \<Longrightarrow> distinct (inorder t) \<Longrightarrow> s \<notin> set_tree t \<Longrightarrow> invc (col(tptr s t := BLACK)) t"
  by (cases t) auto

lemma fits_rename:
  assumes "fits col n (c1 @ RightOf l z # c)" "y \<notin> set (before c1)" "y \<notin> set (after c1)" "y \<notin> set_tree l" "y \<notin> set (before c)" "y \<notin> set (after c)"
    "z \<notin> set (before c1)" "z \<notin> set (after c1)"
  shows "fits (col(y := col z)) n (c1 @ RightOf l y # c) \<and> pcol (col(y := col z)) (c1 @ RightOf l y # c) = pcol col (c1 @ RightOf l z # c)"
proof -
  define col' where "col' = col(y := col z)"
  have col': "col' y = col z" "\<And>a. a \<noteq> y \<Longrightarrow> col' a = col a" by (simp_all add: col'_def)
  have same: "y \<notin> set_tree t \<Longrightarrow> tcol col' t = tcol col t \<and> invc col' t = invc col t \<and> bheight col' t = bheight col t
      \<and> invh col' t = invh col t" for t
    unfolding col'_def by simp
  have same_c: "fits col' n c = fits col n c" "pcol col' c = pcol col c" for n
    unfolding col'_def using assms(5,6) by simp_all
  have "fits col' n (c1 @ RightOf l y # c) \<and> pcol col' (c1 @ RightOf l y # c) = pcol col (c1 @ RightOf l z # c)"
    using assms
  proof (induction c1 arbitrary: n)
    case Nil
    then show ?case by (simp add: same same_c col')
  next
    case (Cons f c1)
    then show ?case by (cases f) (auto simp: same col')
  qed
  then show ?thesis by (simp add: col'_def)
qed

lemma rm_finish:
  assumes rep: "rep h s root (plug t c)" and par: "n_parent (h (tptr s t)) = par s c" and s: "cl h s = BLACK"
    and t: "invc (cl h) t" "invh (cl h) t"
    and red: "clr = RED \<Longrightarrow> tcol (cl h) t = BLACK \<and> fits (cl h) (bheight (cl h) t) c \<and> c \<noteq> []"
    and black: "clr \<noteq> RED \<Longrightarrow> fits (cl h) (bheight (cl h) t + 1) c"
  shows "\<exists>h' root' x'. (if clr = RED then Some (h, root, tptr s t) else rm_fixup s (tptr s t) root h) = Some (h', root', x')
    \<and> rm_post h s (inorder (plug t c)) (h', root', x')"
proof (cases "clr = RED")
  case True
  have "rbt (cl h) (plug t c)" using rbt_plug [of "cl h" t c] t red [OF True] by (auto simp: rbt_def)
  moreover have "(cl h)(tptr s t := BLACK) = cl h" using red [OF True] s by (cases t) auto
  ultimately show ?thesis using True rep s by (auto simp: rm_post_def)
next
  case False
  have d: "distinct (inorder t)" "s \<notin> set_tree t" using rep tree_at_not_sentl by (auto simp: rep_plug)
  from rm_fixup_correct [OF rep par s invc_blacken [OF t(1) d] t(2) black [OF False]] False show ?thesis
    by auto
qed

lemma ffrbt_rm_focus:
  assumes ok: "rbtree_ok tr h t" and z: "inorder t = xs @ z # ys"
  shows "\<exists>tr' h' t'. ffrbt_rm tr z h = Some (tr', h') \<and> rbtree_ok tr' h' t' \<and> inorder t' = xs @ ys
    \<and> tr_len tr' = tr_len tr - 1 \<and> tr_sentl tr' = tr_sentl tr \<and> (\<forall>x. x \<noteq> z \<longrightarrow> key h' x = key h x)"
proof -
  define s where "s = tr_sentl tr"
  have rep: "rep h s (tr_root tr) t" and cs: "cl h s = BLACK" and rb: "rbt (cl h) t"
    and sorted: "sorted_keys h (inorder t)" and insn: "tr_insnode tr = fftree_insert"
    using ok by (auto simp: rbtree_ok_def s_def)
  obtain l r c where t: "t = plug (Node l z r) c" "ys = inorder r @ after c" "xs = before c @ inorder l"
    using focus_inorder [OF rep z] by blast
  have zs: "z \<noteq> s" "z \<notin> set (xs @ ys)" proof -
    have "set_tree t = set (xs @ z # ys)" "distinct (xs @ z # ys)" using rep z by (simp_all add: rep_def flip: set_inorder)
    then show "z \<noteq> s" "z \<notin> set (xs @ ys)" using rep tree_at_not_sentl [of h s s t] by (auto simp: rep_def)
  qed
  have f: "invc (cl h) (Node l z r)" "invh (cl h) (Node l z r)" "fits (cl h) (bheight (cl h) (Node l z r)) c"
    "cl h z = BLACK \<or> pcol (cl h) c = BLACK \<and> c \<noteq> []"
    using fits_of_rbt [of "cl h" "Node l z r" c] rb by (auto simp: rbt_def t(1))
  have "\<exists>h1 root1 x nxt h2 t1 c1 clr. tree_rm z (tr_root tr) s h = Some (h1, root1, x, nxt)
    \<and> clr = (if nxt = 0 then n_color (h1 z) else n_color (h1 nxt))
    \<and> h2 = (if nxt = 0 then h1 else set_color nxt (n_color (h1 z)) h1)
    \<and> rep h2 s root1 (plug t1 c1) \<and> x = tptr s t1 \<and> n_parent (h2 x) = par s c1 \<and> cl h2 s = BLACK
    \<and> invc (cl h2) t1 \<and> invh (cl h2) t1 \<and> inorder (plug t1 c1) = xs @ ys \<and> (\<forall>x. x \<noteq> z \<longrightarrow> key h2 x = key h x)
    \<and> (clr = RED \<longrightarrow> tcol (cl h2) t1 = BLACK \<and> fits (cl h2) (bheight (cl h2) t1) c1 \<and> c1 \<noteq> [])
    \<and> (clr \<noteq> RED \<longrightarrow> fits (cl h2) (bheight (cl h2) t1 + 1) c1)"
  proof (cases "l = Leaf \<or> r = Leaf")
    case True
    define t1 where "t1 = (if l = Leaf then r else l)"
    from tree_rm_leaf [of h s "tr_root tr" l z r c t1] rep True obtain h1 root1 where R:
      "tree_rm z (tr_root tr) s h = Some (h1, root1, tptr s t1, 0)" "rep h1 s root1 (plug t1 c)"
      "n_parent (h1 (tptr s t1)) = par s c" "\<forall>x. n_color (h1 x) = n_color (h x)" "\<forall>x. x \<noteq> z \<longrightarrow> key h1 x = key h x"
      by (auto simp: t1_def t(1))
    have cl1: "cl h1 = cl h" using R(4) by (simp add: cl_def)
    have bh: "bheight (cl h) (Node l z r) = bheight (cl h) t1 + of_bool (cl h z = BLACK)" "invc (cl h) t1" "invh (cl h) t1"
      using f(1,2) True by (auto simp: t1_def)
    have "n_color (h1 z) = cl h z" using R(4) by (simp add: cl_def)
    moreover have "cl h z = RED \<Longrightarrow> tcol (cl h) t1 = BLACK \<and> c \<noteq> []" using f(1,4) by (auto simp: t1_def)
    moreover have "cl h z = RED \<or> cl h z = BLACK" using f(1) by auto
    moreover have "inorder (plug t1 c) = xs @ ys" using True t by (auto simp: t1_def)
    ultimately show ?thesis using R bh f(3) cs cl1
      by (intro exI [of _ h1] exI [of _ root1] exI [of _ "tptr s t1"] exI [of _ 0] exI [of _ h1] exI [of _ t1]
          exI [of _ c] exI [of _ "n_color (h1 z)"] conjI impI) (simp_all add: cl1)
  next
    case False
    then obtain h1 root1 y t1 c1 where R: "r = plug (Node Leaf y t1) c1" "before c1 = []" "y \<noteq> 0" "y \<noteq> s"
      "tree_rm z (tr_root tr) s h = Some (h1, root1, tptr s t1, y)" "rep h1 s root1 (plug t1 (c1 @ RightOf l y # c))"
      "n_parent (h1 (tptr s t1)) = par s (c1 @ RightOf l y # c)"
      "\<forall>x. n_color (h1 x) = n_color (h x)" "\<forall>x. x \<noteq> z \<longrightarrow> key h1 x = key h x"
      using tree_rm_both [of h s "tr_root tr" l z r c] rep t(1) by auto
    have cl1: "cl h1 = cl h" using R(8) by (simp add: cl_def)
    define C h2 where "C = c1 @ RightOf l y # c" and "h2 = set_color y (n_color (h1 z)) h1"
    have cz: "n_color (h1 z) = cl h z" "n_color (h1 y) = cl h y" using R(8) by (simp_all add: cl_def)
    have cl2: "cl h2 = (cl h)(y := cl h z)" by (simp add: h2_def cl1 cz)
    have pl: "plug (Node Leaf y t1) (c1 @ RightOf l z # c) = t" by (simp add: plug_append R(1) t(1))
    have f': "invc (cl h) (Node Leaf y t1)" "invh (cl h) (Node Leaf y t1)"
      "fits (cl h) (bheight (cl h) (Node Leaf y t1)) (c1 @ RightOf l z # c)"
      using fits_of_rbt [of "cl h" "Node Leaf y t1" "c1 @ RightOf l z # c"] rb by (auto simp: rbt_def pl)
    have d: "distinct (before (c1 @ RightOf l z # c) @ y # inorder t1 @ after (c1 @ RightOf l z # c))"
      using rep pl by (metis append_Cons append_Nil inorder.simps inorder_plug rep_def)
    have t1: "invc (cl h2) t1" "invh (cl h2) t1" "bheight (cl h2) t1 = 0" "tcol (cl h2) t1 = tcol (cl h) t1"
      using f' d by (auto simp: cl2)
    have "fits (cl h2) (bheight (cl h) (Node Leaf y t1)) C"
      unfolding cl2 C_def by (rule fits_rename [THEN conjunct1, OF f'(3)]) (use d in auto)
    then have red: "cl h y = RED \<longrightarrow> tcol (cl h2) t1 = BLACK \<and> fits (cl h2) (bheight (cl h2) t1) C \<and> C \<noteq> []"
      and black: "cl h y \<noteq> RED \<longrightarrow> fits (cl h2) (bheight (cl h2) t1 + 1) C"
      using f'(1) t1(3,4) by (auto simp: C_def)
    have io: "inorder (plug t1 C) = xs @ ys" using t R(1,2) by (simp add: C_def)
    have rep2: "rep h2 s root1 (plug t1 C)" "n_parent (h2 (tptr s t1)) = par s C" "\<forall>x. x \<noteq> z \<longrightarrow> key h2 x = key h x"
      using R(6,7,9) by (simp_all add: h2_def C_def)
    have cs2: "cl h2 s = BLACK" using cs R(4) by (simp add: cl2)
    show ?thesis
      by (rule exI [of _ h1], rule exI [of _ root1], rule exI [of _ "tptr s t1"], rule exI [of _ y], rule exI [of _ h2],
          rule exI [of _ t1], rule exI [of _ C], rule exI [of _ "n_color (h1 y)"], intro conjI)
        (use R(3,5) rep2 cs2 t1(1,2) io red black cz(2) in \<open>simp_all only: h2_def if_False refl\<close>)
  qed
  then obtain h1 root1 x nxt h2 t1 c1 clr where R: "tree_rm z (tr_root tr) s h = Some (h1, root1, x, nxt)"
    "clr = (if nxt = 0 then n_color (h1 z) else n_color (h1 nxt))"
    "h2 = (if nxt = 0 then h1 else set_color nxt (n_color (h1 z)) h1)"
    "rep h2 s root1 (plug t1 c1)" "x = tptr s t1" "n_parent (h2 x) = par s c1" "cl h2 s = BLACK"
    "invc (cl h2) t1" "invh (cl h2) t1" and io: "inorder (plug t1 c1) = xs @ ys" and keys: "\<forall>x. x \<noteq> z \<longrightarrow> key h2 x = key h x"
    and red: "clr = RED \<longrightarrow> tcol (cl h2) t1 = BLACK \<and> fits (cl h2) (bheight (cl h2) t1) c1 \<and> c1 \<noteq> []"
    and black: "clr \<noteq> RED \<longrightarrow> fits (cl h2) (bheight (cl h2) t1 + 1) c1" by blast
  obtain h3 root3 x3 where fin: "(if clr = RED then Some (h2, root1, x) else rm_fixup s x root1 h2) = Some (h3, root3, x3)"
    and post: "rm_post h2 s (xs @ ys) (h3, root3, x3)"
    using rm_finish [OF R(4) _ R(7-9), of clr] R(5,6) red black io by auto
  define tr' h' where "tr' = tr\<lparr>tr_len := tr_len tr - 1, tr_root := root3\<rparr>" and "h' = set_color x3 BLACK h3"
  have run: "ffrbt_rm tr z h = Some (tr', h')"
  proof -
    have "ffrbt_rm tr z h = Option.bind (if clr = RED then Some (h2, root1, x) else rm_fixup s x root1 h2)
        (\<lambda>(h, root, x). Some (tr\<lparr>tr_len := tr_len tr - 1, tr_root := root\<rparr>, set_color x BLACK h))"
      unfolding ffrbt_rm_def Let_def s_def [symmetric] R(1) R(2) R(3) by simp
    then show ?thesis unfolding fin tr'_def h'_def by simp
  qed
  obtain t' where t': "rep h3 s root3 t'" "inorder t' = xs @ ys" "rbt ((cl h3)(x3 := BLACK)) t'"
    "((cl h3)(x3 := BLACK)) s = BLACK" "\<forall>a. key h3 a = key h2 a" using post by (auto simp: rm_post_def)
  have keys': "\<forall>x. x \<noteq> z \<longrightarrow> key h' x = key h x" using t'(5) keys by (simp add: h'_def)
  have "map (key h') (xs @ ys) = map (key h) (xs @ ys)" using keys' zs(2) by (intro map_cong) auto
  moreover have "sorted_keys h (xs @ ys)" using sorted z by simp
  ultimately have "sorted_keys h' (inorder t')" unfolding t'(2) sorted_keys_def by (simp only:)
  then have "rbtree_ok tr' h' t'" using t' insn by (simp add: rbtree_ok_def tr'_def h'_def s_def [symmetric])
  with run t'(2) keys' show ?thesis by (auto simp: tr'_def)
qed

end
