(* ===== verification/FF_RBSpec.thy ===== *)
theory FF_RBSpec
  imports FF_RBRemove "HOL-Library.Multiset"
begin

text \<open>
  The contract of the red-black tree of \<open>ffrbtree.c\<close>: an interface of stores kept in key order, which the
  tree provides, and the properties of insertion, search, traversal and removal.
\<close>

section \<open>Stores in key order\<close>

lemma mset_place: "mset (takeWhile P ys @ x # dropWhile P ys) = mset (ys @ [x])"
proof -
  have "mset (takeWhile P ys) + mset (dropWhile P ys) = mset ys"
    by (simp only: mset_append [symmetric] takeWhile_dropWhile_id)
  then show ?thesis by simp
qed

text \<open>
  What a client of an ordered store relies on: putting in a new element succeeds and places it after the
  elements with a smaller or the same key.
\<close>

locale ordered_store =
  fixes put :: "'a \<Rightarrow> 's \<Rightarrow> 's option" and view :: "'s \<Rightarrow> 'a list \<Rightarrow> bool"
    and fresh :: "'a \<Rightarrow> bool" and kf :: "'a \<Rightarrow> 'k::linorder"
  assumes put_view: "view st xs \<Longrightarrow> fresh x \<Longrightarrow> x \<notin> set xs \<Longrightarrow>
      \<exists>st'. put x st = Some st' \<and> view st' (takeWhile (\<lambda>a. kf a \<le> kf x) xs @ x # dropWhile (\<lambda>a. kf a \<le> kf x) xs)"
    and view_sorted: "view st xs \<Longrightarrow> sorted (map kf xs)"
begin

fun put_all :: "'a list \<Rightarrow> 's \<Rightarrow> 's option" where
  "put_all [] st = Some st"
| "put_all (x # xs) st = Option.bind (put x st) (put_all xs)"

lemma stable_place:
  assumes "sorted (map kf ys)"
  shows "sort_key kf (ys @ x # xs) = sort_key kf ((takeWhile (\<lambda>a. kf a \<le> kf x) ys @ x # dropWhile (\<lambda>a. kf a \<le> kf x) ys) @ xs)"
proof -
  let ?T = "takeWhile (\<lambda>a. kf a \<le> kf x) ys" and ?D = "dropWhile (\<lambda>a. kf a \<le> kf x) ys"
  have ys: "?T @ ?D = ys" by simp
  have big: "kf x < kf a" if "a \<in> set ?D" for a
  proof -
    have ne: "?D \<noteq> []" using that by (cases ?D) (simp_all only: list.set empty_iff list.distinct simp_thms)
    have hd: "kf x < kf (hd ?D)" using hd_dropWhile [OF ne] by (simp only: not_le)
    have "sorted (map kf ?D)" using assms ys by (metis map_append sorted_append)
    then have "kf (hd ?D) \<le> kf a" using that by (cases ?D) auto
    with hd show ?thesis by simp
  qed
  have "filter (\<lambda>a. kf k = kf a) (ys @ x # xs) = filter (\<lambda>a. kf k = kf a) ((?T @ x # ?D) @ xs)" for k
  proof (cases "kf k = kf x")
    case True
    have "kf k \<noteq> kf a" if "a \<in> set ?D" for a using True big [OF that] by simp
    then have "filter (\<lambda>a. kf k = kf a) ?D = []" by (simp add: filter_empty_conv)
    with True show ?thesis by (subst ys [symmetric]) (simp del: takeWhile_dropWhile_id)
  next
    case False
    then show ?thesis by (subst ys [symmetric]) (simp del: takeWhile_dropWhile_id)
  qed
  moreover have "mset (ys @ x # xs) = mset ((?T @ x # ?D) @ xs)"
    using mset_place [of "\<lambda>a. kf a \<le> kf x" ys x] by simp
  moreover have "filter (\<lambda>a. kf k = kf a) (sort_key kf zs) = filter (\<lambda>a. kf k = kf a) zs" for k zs
    using sort_key_stable [of kf "kf k" zs] by (simp add: eq_commute [of "kf k"])
  ultimately show ?thesis
    by (intro properties_for_sort_key) (simp_all only: mset_sort sorted_sort_key)
qed

lemma put_all_sorts:
  "view st ys \<Longrightarrow> \<forall>x\<in>set xs. fresh x \<Longrightarrow> distinct (ys @ xs) \<Longrightarrow> \<exists>st'. put_all xs st = Some st' \<and> view st' (sort_key kf (ys @ xs))"
proof (induction xs arbitrary: st ys)
  case Nil
  then show ?case using view_sorted [OF Nil.prems(1)] by (simp add: sort_key_id_if_sorted)
next
  case (Cons x xs)
  let ?zs = "takeWhile (\<lambda>a. kf a \<le> kf x) ys @ x # dropWhile (\<lambda>a. kf a \<le> kf x) ys"
  obtain st1 where st1: "put x st = Some st1" "view st1 ?zs"
    using put_view [of st ys x] Cons.prems by auto
  have "mset (?zs @ xs) = mset (ys @ x # xs)" using mset_place [of "\<lambda>a. kf a \<le> kf x" ys x] by simp
  then have "distinct (?zs @ xs)" using Cons.prems(3) mset_eq_imp_distinct_iff by blast
  from Cons.IH [OF st1(2) _ this] Cons.prems(2) obtain st' where "put_all xs st1 = Some st'"
    "view st' (sort_key kf (?zs @ xs))" by auto
  then show ?case using st1(1) stable_place [OF view_sorted [OF Cons.prems(1)], of x xs] by simp
qed

end

section \<open>The red-black tree as an ordered store\<close>

lemma rbtree_ok_init: "s \<noteq> 0 \<Longrightarrow> ffrbt_init s h = (tr, h') \<Longrightarrow>
    rbtree_ok tr h' Leaf \<and> tr_len tr = 0 \<and> tr_sentl tr = s \<and> (\<forall>a. key h' a = key h a)"
  by (auto simp: ffrbt_init_def rbtree_ok_def rep_def rbt_def sorted_keys_def cl_def set_color_def)

lemma insert_at_root:
  assumes "rbtree_ok tr h t" "nod \<notin> set_tree t" "nod \<noteq> tr_sentl tr" "nod \<noteq> 0"
  shows "\<exists>tr' h' t'. ffrbt_insert tr nod 0 h = Some (tr', h') \<and> rbtree_ok tr' h' t'
    \<and> inorder t' = ins_key h nod (inorder t) \<and> tr_len tr' = tr_len tr + 1 \<and> tr_sentl tr' = tr_sentl tr
    \<and> (\<forall>a. key h' a = key h a)"
  using ffrbt_insert_focus [of tr h t "[]" 0 "tr_sentl tr" nod] assms by simp

text \<open>Inserting at the end of a search, where the context of the empty subtree is known.\<close>

lemma insert_below:
  assumes "rbtree_ok tr h t" "nod \<notin> set_tree t" "nod \<noteq> tr_sentl tr" "nod \<noteq> 0" "t = plug Leaf c"
    and "\<forall>a\<in>set (before c). key h a \<le> key h nod" "\<forall>a\<in>set (after c). key h nod < key h a"
  shows "\<exists>tr' h' t'. ffrbt_insert tr nod (if c = [] then tr_root tr else par (tr_sentl tr) c) h = Some (tr', h')
    \<and> rbtree_ok tr' h' t' \<and> inorder t' = ins_key h nod (inorder t)"
proof (cases c)
  case Nil
  then have "tr_root tr = tptr (tr_sentl tr) Leaf" using assms(1,5) by (simp add: rbtree_ok_def rep_def)
  with Nil show ?thesis using ffrbt_insert_focus [of tr h Leaf "[]" "tr_root tr" "tr_sentl tr" nod] assms(1-5) by auto
next
  case (Cons f d)
  show ?thesis
  proof (cases f)
    case (LeftOf a r)
    then show ?thesis
      using ffrbt_insert_focus [of tr h "Node Leaf a r" d a "tr_sentl tr" nod] assms Cons by auto
  next
    case (RightOf l a)
    then show ?thesis
      using ffrbt_insert_focus [of tr h "Node l a Leaf" d a "tr_sentl tr" nod] assms Cons by auto
  qed
qed

text \<open>The tree at \<open>tr\<close> has the sentinel \<open>s\<close>, the keys \<open>kf\<close> and holds the nodes \<open>xs\<close>, in this order.\<close>

definition rb_view :: "(addr \<Rightarrow> u32) \<Rightarrow> addr \<Rightarrow> ffrbtree \<times> rbheap \<Rightarrow> addr list \<Rightarrow> bool" where
  "rb_view kf s st xs \<longleftrightarrow> (\<exists>t. rbtree_ok (fst st) (snd st) t \<and> inorder t = xs \<and> tr_sentl (fst st) = s
     \<and> tr_len (fst st) = length xs \<and> (\<forall>a. key (snd st) a = kf a))"

definition rb_put :: "addr \<Rightarrow> ffrbtree \<times> rbheap \<Rightarrow> (ffrbtree \<times> rbheap) option" where
  "rb_put nod st = ffrbt_insert (fst st) nod 0 (snd st)"

lemma rb_put_view:
  assumes "rb_view kf s st xs" "x \<noteq> s \<and> x \<noteq> 0" "x \<notin> set xs"
  shows "\<exists>st'. rb_put x st = Some st' \<and> rb_view kf s st' (takeWhile (\<lambda>a. kf a \<le> kf x) xs @ x # dropWhile (\<lambda>a. kf a \<le> kf x) xs)"
proof -
  obtain t where t: "rbtree_ok (fst st) (snd st) t" "inorder t = xs" "tr_sentl (fst st) = s"
    "tr_len (fst st) = length xs" and t5: "\<And>a. key (snd st) a = kf a"
    using assms(1) by (auto simp: rb_view_def)
  have "x \<notin> set_tree t" using assms(3) t(2) by (metis set_inorder)
  then obtain tr' h' t' where r: "ffrbt_insert (fst st) x 0 (snd st) = Some (tr', h')" "rbtree_ok tr' h' t'"
    "inorder t' = ins_key (snd st) x xs" "tr_len tr' = length xs + 1" "tr_sentl tr' = s" "\<forall>a. key h' a = kf a"
    using insert_at_root [OF t(1), of x] assms(2) t t5 by auto
  have "length (ins_key (snd st) x xs) = length xs + 1"
    using arg_cong [OF mset_place [of "\<lambda>a. kf a \<le> kf x" xs x], of size] by (simp add: ins_key_def t5)
  then have "rb_view kf s (tr', h') (ins_key (snd st) x xs)" using r by (auto simp: rb_view_def)
  with r(1) show ?thesis by (simp add: rb_put_def ins_key_def t5)
qed

interpretation rbs: ordered_store rb_put "rb_view kf s" "\<lambda>x. x \<noteq> s \<and> x \<noteq> 0" kf for kf s
proof
  show "\<exists>st'. rb_put x st = Some st' \<and> rb_view kf s st' (takeWhile (\<lambda>a. kf a \<le> kf x) xs @ x # dropWhile (\<lambda>a. kf a \<le> kf x) xs)"
    if "rb_view kf s st xs" "x \<noteq> s \<and> x \<noteq> 0" "x \<notin> set xs" for st xs x
    using rb_put_view [OF that] .
  show "sorted (map kf xs)" if "rb_view kf s st xs" for st xs
  proof -
    from that obtain t where "rbtree_ok (fst st) (snd st) t" "inorder t = xs" "\<forall>a. key (snd st) a = kf a"
      by (auto simp: rb_view_def)
    then show ?thesis by (simp add: rbtree_ok_def sorted_keys_def cong: map_cong)
  qed
qed

lemma rb_view_walk: "rb_view kf s (tr, h) xs \<Longrightarrow> FFTREE_WALK h (tr_root tr) s = Some xs \<and> tr_len tr = length xs"
  using FFTREE_WALK_correct by (auto simp: rb_view_def rbtree_ok_def)

lemma rb_view_init:
  assumes "s \<noteq> 0" shows "rb_view (key h) s (ffrbt_init s h) []"
proof -
  obtain tr h' where r: "ffrbt_init s h = (tr, h')" by force
  show ?thesis unfolding rb_view_def using rbtree_ok_init [OF assms r] by (intro exI [of _ Leaf]) (simp add: r)
qed

text \<open>All nodes of a list inserted, one after the other.\<close>

fun ffrbt_insert_all :: "addr list \<Rightarrow> ffrbtree \<times> rbheap \<Rightarrow> (ffrbtree \<times> rbheap) option" where
  "ffrbt_insert_all [] st = Some st"
| "ffrbt_insert_all (nod # nods) (tr, h) = Option.bind (ffrbt_insert tr nod 0 h) (ffrbt_insert_all nods)"

lemma ffrbt_insert_all_put_all: "ffrbt_insert_all nods st = ordered_store.put_all rb_put nods st"
proof (induction nods arbitrary: st)
  case (Cons nod nods)
  have "ffrbt_insert_all nods = ordered_store.put_all rb_put nods" using Cons.IH by blast
  moreover have "rb_put nod (tr, h) = ffrbt_insert tr nod 0 h" for tr h by (simp add: rb_put_def)
  ultimately show ?case by (cases st) (simp add: rbs.put_all.simps)
qed (simp add: rbs.put_all.simps)

section \<open>Height\<close>

lemma bheight_size: "invh col t \<Longrightarrow> 2 ^ bheight col t \<le> size t + 1"
  by (induction t) auto

lemma height_bheight: "invc col t \<Longrightarrow> invh col t \<Longrightarrow> height t \<le> 2 * bheight col t + of_bool (tcol col t \<noteq> BLACK)"
proof (induction t)
  case (Node l a r)
  then show ?case by (cases "col a = BLACK") (auto simp: of_bool_def split: if_splits)
qed simp

lemma rbt_height: assumes "rbt col t" shows "2 ^ height t \<le> (size t + 1) ^ 2"
proof -
  have "height t \<le> bheight col t * 2" using height_bheight [of col t] assms by (simp add: rbt_def)
  then have "2 ^ height t \<le> (2::nat) ^ (bheight col t * 2)" by (rule power_increasing) simp
  also have "\<dots> = (2 ^ bheight col t) ^ 2" by (rule power_mult)
  also have "\<dots> \<le> (size t + 1) ^ 2"
    by (rule power_mono) (use bheight_size [of col t] assms in \<open>simp_all add: rbt_def\<close>)
  finally show ?thesis .
qed

section \<open>Releasing all nodes\<close>

lemma rbtree_okD: "rbtree_ok tr h t \<Longrightarrow> rep h (tr_sentl tr) (tr_root tr) t"
  by (simp add: rbtree_ok_def)

lemma successor_at:
  assumes "rbtree_ok tr h t" "inorder t = xs @ a # ys"
  shows "ffrbt_successor tr a h = Some (case ys of [] \<Rightarrow> tr_sentl tr | b # _ \<Rightarrow> b)"
proof -
  have rep: "rep h (tr_sentl tr) (tr_root tr) t" using assms(1) by (rule rbtree_okD)
  from focus_inorder [OF rep assms(2)] obtain l r c where "t = plug (Node l a r) c" "ys = inorder r @ after c" by blast
  then show ?thesis using fftree_successor_correct rep by (simp add: ffrbt_successor_def)
qed

lemma freeall_loop_correct:
  assumes "rbtree_ok tr h t" "inorder t = ns"
  shows "\<exists>tr' h'. freeall_loop tr (case ns of [] \<Rightarrow> tr_sentl tr | a # _ \<Rightarrow> a) h = Some (tr', h', ns)
    \<and> rbtree_ok tr' h' Leaf \<and> tr_sentl tr' = tr_sentl tr \<and> tr_len tr' = tr_len tr - length ns"
  using assms
proof (induction ns arbitrary: tr h t)
  case Nil
  then have "t = Leaf" by (simp add: eq_inorder_Nil)
  with Nil show ?case by (simp add: freeall_loop.simps)
next
  case (Cons a ns)
  have "a \<in> set_tree t" using Cons.prems(2) by (metis list.set_intros(1) set_inorder)
  then have a: "a \<noteq> tr_sentl tr" using tree_at_not_sentl rbtree_okD [OF Cons.prems(1)] unfolding rep_def by blast
  have succ: "ffrbt_successor tr a h = Some (case ns of [] \<Rightarrow> tr_sentl tr | b # _ \<Rightarrow> b)"
    using successor_at [OF Cons.prems(1), of "[]" a ns] Cons.prems(2) by simp
  obtain tr1 h1 t1 where rm: "ffrbt_rm tr a h = Some (tr1, h1)" "rbtree_ok tr1 h1 t1" "inorder t1 = ns"
    "tr_len tr1 = tr_len tr - 1" "tr_sentl tr1 = tr_sentl tr"
    using ffrbt_rm_focus [OF Cons.prems(1), of "[]" a ns] Cons.prems(2) by auto
  obtain tr2 h2 where ih: "freeall_loop tr1 (case ns of [] \<Rightarrow> tr_sentl tr1 | a # _ \<Rightarrow> a) h1 = Some (tr2, h2, ns)"
    "rbtree_ok tr2 h2 Leaf" "tr_sentl tr2 = tr_sentl tr1" "tr_len tr2 = tr_len tr1 - length ns"
    using Cons.IH [OF rm(2,3)] by blast
  show ?case using a ih(2-4) ih(1) [unfolded rm(5)] rm succ by (simp add: freeall_loop.simps [of tr a])
qed

lemma freeall_tree:
  assumes "rbtree_ok tr h t"
  shows "\<exists>tr' h'. ffrbt_freeall tr off h = Some (tr', h', map (\<lambda>n. n - off) (inorder t))
    \<and> rbtree_ok tr' h' Leaf \<and> tr_len tr' = tr_len tr - size t"
proof -
  have rep: "tr_root tr = tptr (tr_sentl tr) t" "tree_at h (tr_sentl tr) (tr_sentl tr) t"
    using rbtree_okD [OF assms] by (simp_all add: rep_def)
  let ?start = "if ffrbt_empty tr then Some (tr_sentl tr) else fftree_min h (tr_sentl tr) (tr_root tr)"
  have "?start = Some (case inorder t of [] \<Rightarrow> tr_sentl tr | a # _ \<Rightarrow> a)"
  proof (cases "t = Leaf")
    case False
    then obtain a as where "inorder t = a # as" by (cases "inorder t") (auto simp: eq_inorder_Nil)
    moreover have "\<not> ffrbt_empty tr" using False tptr_eq_sentl [OF rep(2)] by (simp add: ffrbt_empty_def rep(1))
    ultimately show ?thesis using fftree_min_correct [OF rep(2) False] by (simp add: rep(1))
  qed (simp add: ffrbt_empty_def rep(1))
  with freeall_loop_correct [OF assms refl] show ?thesis by (auto simp: ffrbt_freeall_def length_inorder)
qed

section \<open>Properties\<close>

text \<open>Three nodes below the sentinel 1.\<close>

definition ex_rbheap :: rbheap where
  "ex_rbheap a =
     (if a = 2 then \<lparr>n_left = 3, n_right = 4, n_parent = 1, n_color = 0, n_key = 20\<rparr>
      else if a = 3 then \<lparr>n_left = 1, n_right = 1, n_parent = 2, n_color = 1, n_key = 10\<rparr>
      else if a = 4 then \<lparr>n_left = 1, n_right = 1, n_parent = 2, n_color = 1, n_key = 30\<rparr>
      else \<lparr>n_left = 0, n_right = 0, n_parent = 0, n_color = 0, n_key = 10 * word_of_nat a\<rparr>)"

definition ex_rbtree :: ffrbtree where
  "ex_rbtree = \<lparr>tr_len = 3, tr_root = 2, tr_sentl = 1, tr_insnode = fftree_insert\<rparr>"

lemma ex_rbtree_ok: "rbtree_ok ex_rbtree ex_rbheap (Node (Node Leaf 3 Leaf) 2 (Node Leaf 4 Leaf))"
  by (simp add: rbtree_ok_def ex_rbtree_def ex_rbheap_def rep_def cl_def rbt_def sorted_keys_def BLACK_def RED_def)

text \<open>
  C2: Inserting a node that is not in the tree ends, keeps the binary search tree and both red-black
  invariants, and places the node after all nodes with a smaller or the same key.
\<close>

theorem ffrbt_insert_correct:
  assumes "rbtree_ok tr h t" "nod \<notin> set_tree t" "nod \<noteq> tr_sentl tr" "nod \<noteq> 0"
  shows "\<exists>tr' h' t'. ffrbt_insert tr nod 0 h = Some (tr', h') \<and> rbtree_ok tr' h' t'
    \<and> inorder t' = ins_key h nod (inorder t) \<and> tr_len tr' = tr_len tr + 1 \<and> tr_sentl tr' = tr_sentl tr
    \<and> (\<forall>a. key h' a = key h a)"
  using assms by (rule insert_at_root)

lemma ffrbt_insert_correct_witness:
  "\<exists>tr' h' t'. ffrbt_insert ex_rbtree 5 0 ex_rbheap = Some (tr', h') \<and> rbtree_ok tr' h' t'
    \<and> inorder t' = [3, 2, 4, 5] \<and> tr_len tr' = 4"
proof -
  have "ins_key ex_rbheap 5 [3, 2, 4] = [3, 2, 4, 5]" by (simp add: ins_key_def ex_rbheap_def)
  moreover have "tr_len ex_rbtree = 3" "tr_sentl ex_rbtree = 1" by (simp_all add: ex_rbtree_def)
  ultimately show ?thesis using ffrbt_insert_correct [OF ex_rbtree_ok, of 5] by auto
qed

text \<open>
  C6: Removing a node of the tree ends, keeps the search tree and both red-black invariants, and leaves the
  other nodes with their keys in their order.
\<close>

theorem ffrbt_rm_correct:
  assumes "rbtree_ok tr h t" "inorder t = xs @ nod # ys"
  shows "\<exists>tr' h' t'. ffrbt_rm tr nod h = Some (tr', h') \<and> rbtree_ok tr' h' t' \<and> inorder t' = xs @ ys
    \<and> tr_len tr' = tr_len tr - 1 \<and> tr_sentl tr' = tr_sentl tr \<and> (\<forall>a. a \<noteq> nod \<longrightarrow> key h' a = key h a)"
  using assms by (rule ffrbt_rm_focus)

lemma ffrbt_rm_correct_witness:
  "\<exists>tr' h' t'. ffrbt_rm ex_rbtree 2 ex_rbheap = Some (tr', h') \<and> rbtree_ok tr' h' t' \<and> inorder t' = [3, 4]"
  using ffrbt_rm_correct [OF ex_rbtree_ok, of "[3]" 2 "[4]"] by auto

text \<open>
  A search returns a node with the key exactly when the tree holds one; when there is none, a new node
  with this key can be inserted at the returned parent, with the same result as from the root.
\<close>

theorem ffrbt_find_correct:
  assumes "rbtree_ok tr h t"
  shows "\<exists>found parent. ffrbt_find tr k h = Some (found, parent)
    \<and> (found = 0 \<longleftrightarrow> k \<notin> key h ` set_tree t) \<and> (found \<noteq> 0 \<longrightarrow> found \<in> set_tree t \<and> key h found = k)
    \<and> (\<forall>nod. found = 0 \<and> nod \<notin> set_tree t \<and> nod \<noteq> tr_sentl tr \<and> nod \<noteq> 0 \<and> key h nod = k \<longrightarrow>
         (\<exists>tr' h' t'. ffrbt_insert tr nod parent h = Some (tr', h') \<and> rbtree_ok tr' h' t'
            \<and> inorder t' = ins_key h nod (inorder t)))"
proof -
  let ?s = "tr_sentl tr"
  have rep: "rep h ?s (tr_root tr) t" and sorted: "sorted_keys h (inorder t)"
    using assms by (simp_all add: rbtree_ok_def)
  then have at: "tree_at h ?s ?s t" and root: "tr_root tr = tptr ?s t" by (simp_all add: rep_def)
  obtain t' c' where f: "t = plug t' c'"
    "\<forall>a\<in>set (before c'). key h a < k \<or> key h a = k \<and> t' \<noteq> Leaf"
    "\<forall>a\<in>set (after c'). k < key h a \<or> key h a = k \<and> t' \<noteq> Leaf"
    "ffrbt_find tr k h = Some (case t' of Leaf \<Rightarrow> (0, if c' = [] then tr_root tr else par ?s c') | Node l a r \<Rightarrow> (a, a))"
    "t' \<noteq> Leaf \<longrightarrow> key h (tptr ?s t') = k"
    using find_node_correct [OF at sorted, of k "tr_root tr"] unfolding ffrbt_find_def fftree_findnode_def root by blast
  have set: "set_tree t = set (before c') \<union> set_tree t' \<union> set (after c')"
    by (simp add: f(1) inorder_plug flip: set_inorder) auto
  show ?thesis
  proof (cases t')
    case Leaf
    have "k \<notin> key h ` set_tree t" using set f(2,3) Leaf by auto
    moreover have "\<exists>tr' h' u. ffrbt_insert tr nod (if c' = [] then tr_root tr else par ?s c') h = Some (tr', h')
        \<and> rbtree_ok tr' h' u \<and> inorder u = ins_key h nod (inorder t)"
      if nod: "nod \<notin> set_tree t" "nod \<noteq> ?s" "nod \<noteq> 0" "key h nod = k" for nod
    proof (rule insert_below [OF assms nod(1-3)])
      show "t = plug Leaf c'" using f(1) Leaf by simp
      show "\<forall>a\<in>set (before c'). key h a \<le> key h nod" using f(2) Leaf nod(4) by auto
      show "\<forall>a\<in>set (after c'). key h nod < key h a" using f(3) Leaf nod(4) by auto
    qed
    ultimately show ?thesis using f(4) Leaf by (simp cong: conj_cong)
  next
    case (Node l a r)
    then have "a \<noteq> 0" using at f(1) by (simp add: tree_at_plug)
    then show ?thesis using f(4,5) Node set by auto
  qed
qed

lemma ffrbt_find_correct_witness:
  "\<exists>found parent. ffrbt_find ex_rbtree 10 ex_rbheap = Some (found, parent) \<and> found \<in> {2, 3, 4} \<and> key ex_rbheap found = 10"
proof -
  have "10 \<in> key ex_rbheap ` set_tree (Node (Node Leaf 3 Leaf) 2 (Node Leaf 4 Leaf))" by (simp add: ex_rbheap_def)
  with ffrbt_find_correct [OF ex_rbtree_ok, of 10] show ?thesis by auto
qed

text \<open>
  C10: Nodes inserted one after the other into a new tree are walked in the order of their keys, nodes with the
  same key in the order of their insertion: the tree sorts stably.
\<close>

theorem ffrbt_insert_all_sorts:
  assumes "s \<noteq> 0" "distinct nods" "0 \<notin> set nods" "s \<notin> set nods"
  shows "\<exists>tr h'. ffrbt_insert_all nods (ffrbt_init s h) = Some (tr, h')
    \<and> FFTREE_WALK h' (tr_root tr) s = Some (sort_key (key h) nods) \<and> tr_len tr = length nods"
proof -
  have "\<forall>x\<in>set nods. x \<noteq> s \<and> x \<noteq> 0" using assms by metis
  from rbs.put_all_sorts [OF rb_view_init [OF assms(1)] this, of h] assms(2) obtain st where
    "ffrbt_insert_all nods (ffrbt_init s h) = Some st" "rb_view (key h) s st (sort_key (key h) nods)"
    by (auto simp: ffrbt_insert_all_put_all)
  then show ?thesis using rb_view_walk [of "key h" s "fst st" "snd st"] by (cases st) auto
qed

lemma ffrbt_insert_all_sorts_witness:
  "\<exists>tr h'. ffrbt_insert_all [7, 3, 5, 4, 2] (ffrbt_init 1 ex_rbheap) = Some (tr, h')
    \<and> FFTREE_WALK h' (tr_root tr) 1 = Some [3, 2, 4, 5, 7]"
proof -
  have "sort_key (key ex_rbheap) [7, 3, 5, 4, 2] = [3, 2, 4, 5, 7]" by (simp add: ex_rbheap_def)
  with ffrbt_insert_all_sorts [of 1 "[7, 3, 5, 4, 2]" ex_rbheap] show ?thesis by (auto simp del: sort_key_simps)
qed

text \<open>
  C11: The height of a tree built by insertions is at most twice the logarithm of its size.\<close>

theorem ffrbt_height_bound:
  assumes "s \<noteq> 0" "distinct nods" "0 \<notin> set nods" "s \<notin> set nods"
  shows "\<exists>tr h' t. ffrbt_insert_all nods (ffrbt_init s h) = Some (tr, h') \<and> rbtree_ok tr h' t
    \<and> set_tree t = set nods \<and> 2 ^ height t \<le> (length nods + 1) ^ 2"
proof -
  have "\<forall>x\<in>set nods. x \<noteq> s \<and> x \<noteq> 0" using assms by metis
  from rbs.put_all_sorts [OF rb_view_init [OF assms(1)] this, of h] assms(2) obtain st where st:
    "ffrbt_insert_all nods (ffrbt_init s h) = Some st" "rb_view (key h) s st (sort_key (key h) nods)"
    by (auto simp: ffrbt_insert_all_put_all)
  then obtain t where t: "rbtree_ok (fst st) (snd st) t" "inorder t = sort_key (key h) nods" by (auto simp: rb_view_def)
  have "size t = length nods" "set_tree t = set nods"
    using t(2) length_inorder [of t] set_inorder [of t] by simp_all
  with st(1) t(1) rbt_height [of "cl (snd st)" t] show ?thesis by (cases st) (auto simp: rbtree_ok_def)
qed

lemma ffrbt_height_bound_witness:
  "\<exists>tr h' t. ffrbt_insert_all [7, 3, 5, 4, 2] (ffrbt_init 1 ex_rbheap) = Some (tr, h') \<and> rbtree_ok tr h' t
    \<and> set_tree t = {7, 3, 5, 4, 2} \<and> 2 ^ height t \<le> (length [7::addr, 3, 5, 4, 2] + 1) ^ 2"
  using ffrbt_height_bound [of 1 "[7, 3, 5, 4, 2]" ex_rbheap] by simp

text \<open>
  Releasing a tree ends, passes every node exactly once to the callback, in key order, as the address of
  the object that holds it, and leaves the empty tree.
\<close>

theorem ffrbt_freeall_correct:
  assumes "rbtree_ok tr h t"
  shows "\<exists>tr' h'. ffrbt_freeall tr off h = Some (tr', h', map (\<lambda>n. n - off) (inorder t))
    \<and> ffrbt_empty tr' \<and> tr_len tr' = tr_len tr - size t"
  using freeall_tree [OF assms, of off] by (auto simp: ffrbt_empty_def rbtree_ok_def rep_def)

lemma ffrbt_freeall_correct_witness:
  "\<exists>tr' h'. ffrbt_freeall ex_rbtree 1 ex_rbheap = Some (tr', h', [2, 1, 3]) \<and> ffrbt_empty tr'"
  using ffrbt_freeall_correct [OF ex_rbtree_ok, of 1] by auto

end
