(* ===== verification/FF_Url.thy ===== *)
theory FF_Url
  imports FF_Path FF_Proto
begin

text \<open>
  URLs: \<open>net/url.h\<close> and \<open>net/ffurl.c\<close>. The parser keeps its state in the URL structure and may be called
  again when more of the text is there. Text is the list of its bytes, a position is an offset.
\<close>

unbundle bit_operations_syntax

section \<open>The URL structure\<close>

datatype url_state = iHostStart | iHost | iIp6 | iAfterHost | iPort | iPathStart | iPath | iQuoted1 | iQuoted2
  | iQs | iPortOrScheme | iSchemeSlash2

record ffurl =
  u_offhost :: u16
  u_port :: u16
  u_hostlen :: u8
  u_portlen :: u8
  u_len :: u16
  u_offpath :: u16
  u_pathlen :: u16
  u_decoded_pathlen :: u16
  u_idx :: url_state
  u_ipv4 :: bool
  u_ipv6 :: bool
  u_querystr :: bool
  u_complex :: bool

definition ffurl_init :: ffurl where
  "ffurl_init = \<lparr>u_offhost = 0, u_port = 0, u_hostlen = 0, u_portlen = 0, u_len = 0, u_offpath = 0, u_pathlen = 0,
     u_decoded_pathlen = 0, u_idx = iHostStart, u_ipv4 = False, u_ipv6 = False, u_querystr = False, u_complex = False\<rparr>"

datatype url_e = FFURL_EOK | FFURL_EMORE | FFURL_ESTOP | FFURL_ETOOLARGE | FFURL_ESCHEME | FFURL_EIP6
  | FFURL_EHOST | FFURL_EPATH

section \<open>The parser\<close>

text \<open>What a state does with a char: go on to the next char, look at the same char again, or stop with an error.\<close>

datatype url_act = UNext url_state ffurl | UAgain url_state ffurl | UFail url_e url_state ffurl

text \<open>\<open>i - url->offhost > n\<close> on \<open>size_t\<close>: a negative difference wraps to a large number.\<close>

definition off_exceeds :: "nat \<Rightarrow> ffurl \<Rightarrow> nat \<Rightarrow> bool" where
  "off_exceeds i url n \<longleftrightarrow> i < unat (u_offhost url) \<or> n < i - unat (u_offhost url)"

definition url_path :: "bytes \<Rightarrow> nat \<Rightarrow> u8 \<Rightarrow> ffurl \<Rightarrow> url_act" where
  "url_path s i c url =
     (let count = (\<lambda>url. url\<lparr>u_decoded_pathlen := u_decoded_pathlen url + 1, u_pathlen := u_pathlen url + 1\<rparr>) in
      if c = 37 then UNext iQuoted1 (count (url\<lparr>u_complex := True\<rparr>))
      else if c = 63 then UNext iQs url
      else if c = 47 \<or> c = 46 then
        UNext iPath (count (if \<not> u_complex url \<and> i \<noteq> 0 \<and> s ! (i - 1) = 47 then url\<lparr>u_complex := True\<rparr> else url))
      else if ffchar_isansiwhite c \<or> c = 35 then UFail FFURL_ESTOP iPath url
      else UNext iPath (count url))"

definition url_pathstart :: "bytes \<Rightarrow> nat \<Rightarrow> u8 \<Rightarrow> ffurl \<Rightarrow> url_act" where
  "url_pathstart s i c url =
     (if c \<noteq> 47 then UFail FFURL_ESTOP iPathStart url
      else url_path s i c (url\<lparr>u_offpath := word_of_nat i\<rparr>))"

definition url_port :: "u8 \<Rightarrow> ffurl \<Rightarrow> url_act" where
  "url_port c url =
     (if \<not> ffchar_isdigit (sint c) then UAgain iPathStart url
      else let p = unat (u_port url) * 10 + nat (sint c - 48) in
        if 0xffff < p then UFail FFURL_ETOOLARGE iPort url
        else UNext iPort (url\<lparr>u_port := word_of_nat p, u_portlen := u_portlen url + 1\<rparr>))"

definition url_afterhost :: "u8 \<Rightarrow> ffurl \<Rightarrow> url_act" where
  "url_afterhost c url =
     (if c = 58 then UNext (if u_offhost url = 0 then iPortOrScheme else iPort) url
      else UAgain iPathStart url)"

definition url_host :: "nat \<Rightarrow> u8 \<Rightarrow> ffurl \<Rightarrow> url_act" where
  "url_host i c url =
     (if ffchar_isname c \<or> c = 45 \<or> c = 46 then
        (if off_exceeds i url 0xff then UFail FFURL_ETOOLARGE iHost url
         else
           let url = (if u_ipv4 url \<and> \<not> ffchar_isdigit (sint c) \<and> c \<noteq> 46 then url\<lparr>u_ipv4 := False\<rparr> else url)
           in UNext iHost (url\<lparr>u_hostlen := u_hostlen url + 1\<rparr>))
      else if u_hostlen url = 0 then UFail FFURL_EHOST iHost url
      else url_afterhost c url)"

definition url_hoststart :: "nat \<Rightarrow> u8 \<Rightarrow> ffurl \<Rightarrow> url_act" where
  "url_hoststart i c url =
     (if c = 91 then UNext iIp6 (url\<lparr>u_hostlen := u_hostlen url + 1, u_ipv6 := True\<rparr>)
      else if ffchar_isdigit (sint c) then url_host i c (url\<lparr>u_ipv4 := True\<rparr>)
      else if c = 47 then UAgain iPathStart url
      else url_host i c url)"

definition url_ip6 :: "nat \<Rightarrow> u8 \<Rightarrow> ffurl \<Rightarrow> url_act" where
  "url_ip6 i c url =
     (if off_exceeds i url (45 + 2) then UFail FFURL_ETOOLARGE iIp6 url
      else if c = 93 then UNext iAfterHost (url\<lparr>u_hostlen := u_hostlen url + 1\<rparr>)
      else if \<not> (ffchar_ishex (sint c) \<or> c = 58 \<or> c = 37) then UFail FFURL_EIP6 iIp6 url
      else UNext iIp6 (url\<lparr>u_hostlen := u_hostlen url + 1\<rparr>))"

definition url_quoted :: "url_state \<Rightarrow> u8 \<Rightarrow> ffurl \<Rightarrow> url_act" where
  "url_quoted st c url =
     (if \<not> ffchar_ishex (sint c) then UFail FFURL_EPATH st url
      else UNext (if st = iQuoted1 then iQuoted2 else iPath) (url\<lparr>u_pathlen := u_pathlen url + 1\<rparr>))"

definition url_step :: "bytes \<Rightarrow> nat \<Rightarrow> url_state \<Rightarrow> ffurl \<Rightarrow> url_act" where
  "url_step s i st url =
     (let c = s ! i in
      case st of
        iSchemeSlash2 \<Rightarrow>
          if c \<noteq> 47 then UFail FFURL_ESCHEME iSchemeSlash2 url
          else UNext iHostStart (url\<lparr>u_hostlen := 0, u_offhost := word_of_nat i + 1\<rparr>)
      | iIp6 \<Rightarrow> url_ip6 i c url
      | iHostStart \<Rightarrow> url_hoststart i c url
      | iHost \<Rightarrow> url_host i c url
      | iAfterHost \<Rightarrow> url_afterhost c url
      | iPortOrScheme \<Rightarrow> if c = 47 then UNext iSchemeSlash2 url else url_port c url
      | iPort \<Rightarrow> url_port c url
      | iPathStart \<Rightarrow> url_pathstart s i c url
      | iPath \<Rightarrow> url_path s i c url
      | iQuoted1 \<Rightarrow> url_quoted iQuoted1 c url
      | iQuoted2 \<Rightarrow> url_quoted iQuoted2 c url
      | iQs \<Rightarrow>
          if ffchar_isansiwhite c \<or> c = 35 then UFail FFURL_ESTOP iQs url
          else UNext iQs (url\<lparr>u_querystr := True\<rparr>))"

lemma url_step_again: "url_step s i st url = UAgain st' url' \<Longrightarrow> st' = iPathStart \<and> st \<noteq> iPathStart"
  by (cases st)
    (auto simp: url_step_def url_path_def url_pathstart_def url_port_def url_afterhost_def url_host_def url_hoststart_def
      url_ip6_def url_quoted_def Let_def split: if_splits)

function url_loop :: "bytes \<Rightarrow> nat \<Rightarrow> url_state \<Rightarrow> ffurl \<Rightarrow> url_e \<times> url_state \<times> ffurl \<times> nat" where
  "url_loop s i st url =
     (if length s \<le> i then (FFURL_EOK, st, url, i)
      else case url_step s i st url of
             UNext st url \<Rightarrow> url_loop s (i + 1) st url
           | UAgain st url \<Rightarrow> url_loop s i st url
           | UFail er st url \<Rightarrow> (er, st, url, i))"
  by pat_completeness auto
termination
  by (relation "measures [\<lambda>(s, i, st, url). length s - i, \<lambda>(s, i, st, url). if st = iPathStart then 0 else 1]")
    (auto dest: url_step_again)

declare url_loop.simps [simp del]

definition ffurl_parse :: "ffurl \<Rightarrow> bytes \<Rightarrow> url_e \<times> ffurl" where
  "ffurl_parse url s =
     (let (er, idx, url, i) = url_loop s (unat (u_len url)) (u_idx url) url;
          consistent = (idx = iHost \<and> u_hostlen url \<noteq> 0 \<or> idx = iAfterHost \<or> idx = iPort \<and> u_portlen url \<noteq> 0
            \<or> idx = iPath \<or> idx = iQs);
          er = (if er \<noteq> FFURL_EOK then er else if consistent then FFURL_EOK else FFURL_EMORE);
          url = url\<lparr>u_idx := idx, u_len := word_of_nat i\<rparr>
      in (er, if er \<noteq> FFURL_EMORE \<and> \<not> (idx = iPath \<or> idx = iQs) then url\<lparr>u_offpath := u_len url\<rparr> else url))"

definition ffurl_rebase :: "ffurl \<Rightarrow> u16 \<Rightarrow> ffurl" where
  "ffurl_rebase url off =
     (let url = (if u_hostlen url \<noteq> 0 then url\<lparr>u_offhost := u_offhost url + off\<rparr> else url)
      in url\<lparr>u_offpath := u_offpath url + off, u_len := u_len url + off\<rparr>)"

section \<open>Components\<close>

datatype url_comp = FFURL_FULLHOST | FFURL_SCHEME | FFURL_HOST | FFURL_PORT | FFURL_PATH | FFURL_QS | FFURL_PATHQS

definition part :: "bytes \<Rightarrow> nat \<Rightarrow> nat \<Rightarrow> bytes" where
  "part base off n = take n (drop off base)"

definition ffurl_get :: "ffurl \<Rightarrow> bytes \<Rightarrow> url_comp \<Rightarrow> bytes" where
  "ffurl_get url base c =
     (let offhost = unat (u_offhost url); hostlen = unat (u_hostlen url); portlen = unat (u_portlen url);
          offpath = unat (u_offpath url); pathlen = unat (u_pathlen url); len = unat (u_len url) in
      case c of
        FFURL_FULLHOST \<Rightarrow> part base offhost (hostlen + (if portlen \<noteq> 0 then 1 + portlen else 0))
      | FFURL_SCHEME \<Rightarrow> part base 0 (if offhost \<noteq> 0 then offhost - 3 else 0)
      | FFURL_HOST \<Rightarrow>
          if 2 < hostlen \<and> base ! offhost = 91 then part base (offhost + 1) (hostlen - 2) else part base offhost hostlen
      | FFURL_PORT \<Rightarrow> part base (offhost + hostlen + 1) portlen
      | FFURL_PATH \<Rightarrow> part base offpath pathlen
      | FFURL_QS \<Rightarrow> if u_querystr url then (let off = offpath + pathlen + 1 in part base off (len - off)) else []
      | FFURL_PATHQS \<Rightarrow> part base offpath (len - offpath))"

definition ffurl_has :: "ffurl \<Rightarrow> url_comp \<Rightarrow> bool" where
  "ffurl_has url c =
     (case c of
        FFURL_HOST \<Rightarrow> u_hostlen url \<noteq> 0
      | FFURL_FULLHOST \<Rightarrow> u_hostlen url \<noteq> 0
      | FFURL_SCHEME \<Rightarrow> u_offhost url \<noteq> 0
      | FFURL_PORT \<Rightarrow> u_portlen url \<noteq> 0
      | FFURL_PATH \<Rightarrow> u_pathlen url \<noteq> 0
      | FFURL_PATHQS \<Rightarrow> u_pathlen url \<noteq> 0
      | FFURL_QS \<Rightarrow> u_querystr url)"

text \<open>The address family, as the constructor of the platform's constant.\<close>

datatype family = AF_NONE | AF_INET | AF_INET6 | AF_ERR

text \<open>\<open>None\<close> is the overrun of the IPv6 parser.\<close>

definition ffurl_parse_ip :: "ffurl \<Rightarrow> bytes \<Rightarrow> bytes \<Rightarrow> (family \<times> bytes) option" where
  "ffurl_parse_ip u base dst =
     (let s = ffurl_get u base FFURL_HOST in
      if u_ipv4 u then
        (let (r, a) = ffip4_parse (take 4 dst) s in Some (if r \<noteq> 0 then AF_ERR else AF_INET, a @ drop 4 dst))
      else if u_ipv6 u then
        (case ffip6_parse s of None \<Rightarrow> None
         | Some (r, a) \<Rightarrow> Some (if r \<noteq> 0 then AF_ERR else AF_INET6, a @ drop (length a) dst))
      else Some (AF_NONE, dst))"

definition ffip_parse :: "bytes \<Rightarrow> bytes \<Rightarrow> (family \<times> bytes) option" where
  "ffip_parse ip dst =
     (let (r, a) = ffip4_parse (take 4 dst) ip; dst = a @ drop 4 dst in
      if r = 0 then Some (AF_INET, dst)
      else case ffip6_parse ip of None \<Rightarrow> None
           | Some (r, a) \<Rightarrow> Some (if r = 0 then AF_INET6 else AF_NONE, a @ drop (length a) dst))"

section \<open>Escaping\<close>

definition FFURI_DEC_NORM_PATH :: u32 where "FFURI_DEC_NORM_PATH = 0x10"

definition FFURI_DEC_HTTPREQ :: u32 where "FFURI_DEC_HTTPREQ = 0x20"

datatype uri_state = dUri | dQuoted1 | dQuoted2

text \<open>\<open>dst\<close> is what is written, \<open>b\<close> the first digit of an escape; \<open>None\<close> is the error, which returns 0.\<close>

fun uri_loop :: "nat \<Rightarrow> u32 \<Rightarrow> bytes \<Rightarrow> uri_state \<Rightarrow> int \<Rightarrow> bytes \<Rightarrow> (uri_state \<times> bytes) option" where
  "uri_loop dstcap flags [] idx b dst = Some (idx, dst)"
| "uri_loop dstcap flags (c # d) idx b dst =
     (if dstcap \<le> length dst then Some (idx, dst)
      else case idx of
        dUri \<Rightarrow>
          if c = 37 then uri_loop dstcap flags d dQuoted1 b dst
          else if has_flag flags FFURI_DEC_HTTPREQ \<and> (ffchar_isansiwhite c \<or> c = 35) then None
          else uri_loop dstcap flags d dUri b (dst @ [c])
      | dQuoted1 \<Rightarrow>
          let bt = ffchar_tohex (sint c) in
          if bt = -1 then None else uri_loop dstcap flags d dQuoted2 bt dst
      | dQuoted2 \<Rightarrow>
          let bt = ffchar_tohex (sint c) in
          if bt = -1 then None
          else let b = push_bit 4 b OR bt in
            if b = 0 then None else uri_loop dstcap flags d dUri b (dst @ [word_of_int b]))"

text \<open>The bytes written; none on error. The path is normalised in place.\<close>

definition ffuri_decode :: "nat \<Rightarrow> bytes \<Rightarrow> u32 \<Rightarrow> bytes" where
  "ffuri_decode dstcap d flags =
     (case uri_loop dstcap flags d dUri 0 [] of
        Some (dUri, dst) \<Rightarrow>
          if has_flag flags FFURI_DEC_NORM_PATH then
            ffpath_norm dstcap dst (FFPATH_MERGEDOTS OR FFPATH_STRICT_BOUNDS OR FFPATH_WINDOWS OR FFPATH_FORCESLASH)
          else dst
      | _ \<Rightarrow> [])"

definition uriesc :: "u32 list" where
  "uriesc = [0, 0x7fffffd6, 0xffffffff, 0x7fffffff, 0, 0, 0, 0]"

definition uriesc_pathseg :: "u32 list" where
  "uriesc_pathseg = [0, 0x7fff7fd6, 0xefffffff, 0x7fffffff, 0, 0, 0, 0]"

definition uriesc_qsseg :: "u32 list" where
  "uriesc_qsseg = [0, 0xffffff96, 0xffffffff, 0x7fffffff, 0, 0, 0, 0]"

definition uri_encode_types :: "u32 list list" where
  "uri_encode_types = [uriesc, uriesc_pathseg, uriesc_qsseg]"

text \<open>What is written with \<open>room\<close> bytes left; the position of the char that does not fit, behind which zeros fill the rest.\<close>

fun uriesc_loop :: "u32 list \<Rightarrow> bytes \<Rightarrow> nat \<Rightarrow> nat \<Rightarrow> bytes \<times> nat option" where
  "uriesc_loop m [] room i = ([], None)"
| "uriesc_loop m (c # s) room i =
     (if mask_has m c then
        (if room = 0 then ([], Some i)
         else let (d, r) = uriesc_loop m s (room - 1) (i + 1) in (c # d, r))
      else
        (if room < 3 then (replicate room 0, Some i)
         else let (d, r) = uriesc_loop m s (room - 3) (i + 1) in ([37] @ ffs_hexbyte c ffHEX @ d, r)))"

text \<open>\<open>cap\<close> is \<open>None\<close> for a \<open>NULL\<close> destination.\<close>

definition ffuri_escape :: "nat option \<Rightarrow> bytes \<Rightarrow> nat \<Rightarrow> bytes \<times> int" where
  "ffuri_escape cap s ty =
     (if length uri_encode_types \<le> ty then ([], 0)
      else let m = uri_encode_types ! ty in
        case cap of
          None \<Rightarrow> ([], int (length s + sum_list (map (\<lambda>c. if \<not> mask_has m c then 3 - 1 else 0) s)))
        | Some cap \<Rightarrow>
            (case uriesc_loop m s cap 0 of
               (d, None) \<Rightarrow> (d, int (length d))
             | (d, Some i) \<Rightarrow> (d, - int i)))"

definition ffuri_scheme2port :: "bytes \<Rightarrow> nat" where
  "ffuri_scheme2port scheme =
     (if length scheme = 4 \<and> ffs_cmp scheme [104, 116, 116, 112] 4 = Some 0 then 80
      else if length scheme = 5 \<and> ffs_cmp scheme [104, 116, 116, 112, 115] 5 = Some 0 then 443
      else 0)"

text \<open>The complete URL, empty on error; the allocated buffer has room for a port of five digits.\<close>

definition ffurl_joinstr :: "bytes \<Rightarrow> bytes \<Rightarrow> u16 \<Rightarrow> bytes \<Rightarrow> bytes \<Rightarrow> bytes" where
  "ffurl_joinstr scheme host port path querystr =
     (if scheme = [] \<or> host = [] \<or> path \<noteq> [] \<and> path ! 0 \<noteq> 47 then []
      else
        let cap = length scheme + 11 + length host + length path + length querystr;
            room = (\<lambda>p. cap - length p);
            put = (\<lambda>p t. p @ take (room p) t);
            lower = (\<lambda>p t. p @ (let (d, n) = ffs_lower False (replicate (room p) 0) t in take n d));
            p = lower [] scheme;
            p = put p [58, 47, 47];
            p = lower p host;
            p = (if port \<noteq> 0 then (let p = put p [58] in p @ fromint_at (room p) (ucast port) 0) else p);
            p = (if path = [] then put p [47]
                 else p @ ffpath_norm (room p) path (FFPATH_MERGEDOTS OR FFPATH_NOWINDOWS OR FFPATH_FORCESLASH));
            p = (if querystr \<noteq> [] then put (put p [63]) querystr else p)
        in p)"

section \<open>Query strings\<close>

datatype qs_state = qs_key_start | qs_key | qs_val_start | qs_val

datatype qs_res = QS_MORE | QS_KEY | QS_VAL

record ffurlqs =
  qs_st :: qs_state
  qs_ch :: u32
  qs_valbuf :: bytes

text \<open>
  One char of a key or a value: the value with it and the rest; \<open>None\<close> when an escape is not complete. The
  buffer, which points into the text until the first escape, is modelled by its bytes.
\<close>

definition qs_process :: "bytes \<Rightarrow> bytes \<Rightarrow> (bytes \<times> bytes) option" where
  "qs_process buf d =
     (case d of
        [] \<Rightarrow> None
      | c # d \<Rightarrow>
          if c = 43 then Some (buf @ [32], d)
          else if c = 37 then
            (case d of
               h # l # d \<Rightarrow>
                 Some (buf @ [word_of_int (push_bit 4 (ffchar_tohex (sint h)) OR ffchar_tohex (sint l))], d)
             | _ \<Rightarrow> None)
          else Some (buf @ [c], d))"

lemma qs_process_shorter: "qs_process buf d = Some (buf', d') \<Longrightarrow> length d' < length d"
  by (auto simp: qs_process_def split: list.splits if_splits)

function qs_loop :: "bytes \<Rightarrow> qs_state \<Rightarrow> u32 \<Rightarrow> bytes \<Rightarrow> (qs_res \<times> qs_state \<times> u32 \<times> bytes \<times> bytes) option" where
  "qs_loop d st ch buf =
     (case d of
        [] \<Rightarrow> Some (QS_MORE, st, ch, buf, [])
      | c # d' \<Rightarrow>
          let ch = ch + 1 in
          if st = qs_key_start \<and> c = 38 then qs_loop d' st ch buf
          else if (st = qs_key_start \<or> st = qs_key) \<and> c = 61 then
            Some (QS_KEY, qs_val_start, ch, if st = qs_key_start then [] else buf, d')
          else if (st = qs_val_start \<or> st = qs_val) \<and> c = 38 then
            Some (QS_VAL, qs_key_start, ch, if st = qs_val_start then [] else buf, d')
          else
            let buf = (if st = qs_key_start \<or> st = qs_val_start then [] else buf);
                st = (if st = qs_key_start \<or> st = qs_key then qs_key else qs_val) in
            case qs_process buf d of None \<Rightarrow> None | Some (buf, d) \<Rightarrow> qs_loop d st ch buf)"
  by pat_completeness auto
termination by (relation "measure (\<lambda>(d, st, ch, buf). length d)") (auto dest: qs_process_shorter)

declare qs_loop.simps [simp del]

text \<open>The result, the new state with the key or value in it, and the rest of the text.\<close>

definition ffurlqs_parse :: "ffurlqs \<Rightarrow> bytes \<Rightarrow> (qs_res \<times> ffurlqs \<times> bytes) option" where
  "ffurlqs_parse p d =
     (case qs_loop d (qs_st p) (qs_ch p) (qs_valbuf p) of
        None \<Rightarrow> None
      | Some (r, st, ch, buf, rest) \<Rightarrow>
          Some (if r = QS_MORE \<and> st = qs_val then QS_VAL else r, \<lparr>qs_st = st, qs_ch = ch, qs_valbuf = buf\<rparr>, rest))"

definition ffurlqs_parseinit :: ffurlqs where
  "ffurlqs_parseinit = \<lparr>qs_st = qs_key_start, qs_ch = 0, qs_valbuf = []\<rparr>"

section \<open>Address lists and addresses with a port\<close>

text \<open>The list of addresses, the index and the addresses of the resolver, with their families.\<close>

record ip_iter =
  it_idx :: nat
  it_list :: "(bytes list \<times> bytes list) option"
  it_ai :: "(family \<times> bytes) list"

text \<open>The lists after the list of one family is set to a single address.\<close>

definition ffip_list_set :: "bytes list \<times> bytes list \<Rightarrow> family \<Rightarrow> bytes \<Rightarrow> bytes list \<times> bytes list" where
  "ffip_list_set l fam ip = (if fam = AF_INET then ([ip], snd l) else (fst l, [ip]))"

definition ffip_iter_set :: "(bytes list \<times> bytes list) option \<Rightarrow> (family \<times> bytes) list \<Rightarrow> ip_iter" where
  "ffip_iter_set l ai = \<lparr>it_idx = 0, it_list = l, it_ai = ai\<rparr>"

definition ffip_next :: "ip_iter \<Rightarrow> (family \<times> bytes) option \<times> ip_iter" where
  "ffip_next it =
     (let ai = (\<lambda>it. case it_ai it of [] \<Rightarrow> (None, it) | a # as \<Rightarrow> (Some a, it\<lparr>it_ai := as\<rparr>)) in
      case it_list it of
        Some (ip4, ip6) \<Rightarrow>
          if it_idx it < length ip4 then (Some (AF_INET, ip4 ! it_idx it), it\<lparr>it_idx := it_idx it + 1\<rparr>)
          else if it_idx it - length ip4 < length ip6 then
            (Some (AF_INET6, ip6 ! (it_idx it - length ip4)), it\<lparr>it_idx := it_idx it + 1\<rparr>)
          else ai (it\<lparr>it_list := None\<rparr>)
      | None \<Rightarrow> ai it)"

text \<open>The return value, the address and the port.\<close>

definition ffip_split :: "bytes \<Rightarrow> int \<times> bytes \<times> bytes" where
  "ffip_split s =
     (let (ip, port, pos) = ffs_rsplit2by s 58 in
      if ip \<noteq> [] \<and> ip ! 0 = 91 then
        let (ip, port, pos) = (if last s = 93 then (s, [], None) else (ip, port, pos)) in
        if \<not> (4 \<le> length ip \<and> last ip = 93) then (-1, ip, port)
        else let ip = take (length ip - 2) (drop 1 ip) in
          (if pos \<noteq> None \<and> port = [] then -1 else 0, ip, port)
      else (if pos \<noteq> None \<and> port = [] then -1 else 0, ip, port))"

section \<open>Escaping and decoding\<close>

definition uri_text :: "u32 list \<Rightarrow> bytes \<Rightarrow> bytes" where
  "uri_text m s = concat (map (\<lambda>c. if mask_has m c then [c] else 37 # ffs_hexbyte c ffHEX) s)"

lemma uri_text_simps [simp]:
  "uri_text m [] = []"
  "mask_has m c \<Longrightarrow> uri_text m (c # s) = c # uri_text m s"
  "\<not> mask_has m c \<Longrightarrow> uri_text m (c # s) = 37 # ffs_hexbyte c ffHEX @ uri_text m s"
  by (simp_all add: uri_text_def)

lemma uriesc_loop_room:
  "length (uri_text m s) \<le> room \<Longrightarrow> uriesc_loop m s room i = (uri_text m s, None)"
proof (induction s arbitrary: room i)
  case (Cons c s)
  then show ?case by (cases "mask_has m c") auto
qed simp

lemma uri_text_size: "length (uri_text m s) = length s + sum_list (map (\<lambda>c. if \<not> mask_has m c then 3 - 1 else 0) s)"
  by (induction s) (auto simp: uri_text_def)

lemma mask_has_subset:
  assumes l: "list_all2 (\<lambda>a b. a AND b = a) m m'" and h: "mask_has m c"
  shows "mask_has m' c"
proof -
  define i where "i = unat c div 32"
  have i: "i < length m" and t: "m ! i AND ff_bit (unat c mod 32) \<noteq> 0"
    using h by (auto simp: mask_has_def ffbit_testarr_def ffbit_test32_def i_def split: if_splits)
  have len: "i < length m'" using l i by (simp add: list_all2_lengthD)
  define k :: u32 where "k = ff_bit (unat c mod 32)"
  have e: "m ! i AND m' ! i = m ! i" using l i by (simp add: list_all2_conv_all_nth)
  have "m ! i AND (m' ! i AND k) = m ! i AND k" by (simp only: and.assoc [symmetric] e)
  then have "m ! i AND (m' ! i AND k) \<noteq> 0" using t unfolding k_def by (rule ssubst)
  then have "m' ! i AND k \<noteq> 0" by (rule contrapos_nn) (simp only: bit.conj_zero_right)
  then show ?thesis using len by (simp add: mask_has_def ffbit_testarr_def ffbit_test32_def i_def k_def)
qed

lemma escape_mask_white: "list_all (\<lambda>m. list_all2 (\<lambda>a b. a AND b = a) m ffcharmask_nowhite) uri_encode_types"
  by code_simp

lemma escape_mask_special: "list_all (\<lambda>m. \<not> mask_has m 37 \<and> \<not> mask_has m 35) uri_encode_types"
  by code_simp

lemma escape_mask_plain:
  assumes m: "m \<in> set uri_encode_types" and c: "mask_has m c"
  shows "c \<noteq> 37 \<and> c \<noteq> 35 \<and> \<not> ffchar_isansiwhite c"
proof -
  have "mask_has ffcharmask_nowhite c"
    using escape_mask_white m c mask_has_subset unfolding list_all_iff by blast
  moreover have "\<not> mask_has m 37" "\<not> mask_has m 35" using escape_mask_special m by (simp_all add: list_all_iff)
  ultimately show ?thesis using c by (auto simp: ffchar_isansiwhite_def)
qed

lemma uri_loop_text:
  assumes m: "m \<in> set uri_encode_types"
  shows "0 \<notin> set s \<Longrightarrow> length dst + length s \<le> cap \<Longrightarrow> uri_loop cap flags (uri_text m s) dUri b dst = Some (dUri, dst @ s)"
proof (induction s arbitrary: dst b)
  case (Cons c s)
  have ih: "uri_loop cap flags (uri_text m s) dUri b' (dst @ [c]) = Some (dUri, dst @ c # s)" for b'
    using Cons.IH [of "dst @ [c]" b'] Cons.prems by simp
  show ?case
  proof (cases "mask_has m c")
    case True
    then show ?thesis using ih escape_mask_plain [OF m True] Cons.prems(2) by (simp add: uri_text_def)
  next
    case False
    define hi lo where "hi = unat (drop_bit 4 c)" and "lo = unat (c AND 15)"
    have h: "ffchar_tohex (sint (ffHEX ! hi)) = int hi" "ffchar_tohex (sint (ffHEX ! lo)) = int lo"
      using nibble_lt [of c] hex_digit_back by (simp_all add: hi_def lo_def)
    have w: "of_int (push_bit 4 (int hi) OR int lo) = c" using nibbles [of c] by (simp add: hi_def lo_def)
    moreover have "c \<noteq> 0" using Cons.prems(1) by auto
    ultimately have nz: "push_bit 4 (int hi) OR int lo \<noteq> 0" by (metis of_int_0)
    have "uri_text m (c # s) = 37 # ffHEX ! hi # ffHEX ! lo # uri_text m s"
      using False by (simp add: uri_text_def ffs_hexbyte_def hi_def lo_def)
    then show ?thesis using ih h w nz Cons.prems(2) by (simp add: Let_def del: of_int_or_eq)
  qed
qed (simp add: uri_text_def)

section \<open>A complete URL\<close>

definition host_char :: "u8 \<Rightarrow> bool" where
  "host_char c \<longleftrightarrow> ffchar_isname c \<or> c = 45 \<or> c = 46"

lemma host_char_special: "\<not> host_char 91" "\<not> host_char 47" "\<not> host_char 58" "\<not> host_char 63"
  by code_simp+

lemma host_char_plain: "host_char c \<Longrightarrow> c \<noteq> 91 \<and> c \<noteq> 47 \<and> c \<noteq> 58 \<and> c \<noteq> 63"
  using host_char_special by auto

lemma loop_next:
  assumes "url_step (pre @ c # post) (length pre) st url = UNext st' url'"
  shows "url_loop (pre @ c # post) (length pre) st url = url_loop (pre @ c # post) (length (pre @ [c])) st' url'"
  using assms by (subst url_loop.simps) simp

lemma loop_again:
  assumes "url_step (pre @ c # post) (length pre) st url = UAgain st' url'"
  shows "url_loop (pre @ c # post) (length pre) st url = url_loop (pre @ c # post) (length pre) st' url'"
  using assms by (subst url_loop.simps) simp

lemma url_loop_end: "url_loop s (length s) st url = (FFURL_EOK, st, url, length s)"
  by (subst url_loop.simps) simp

lemma host_run:
  assumes "\<forall>c\<in>set xs. host_char c" "unat (u_offhost url) \<le> length pre" "length pre + length xs - unat (u_offhost url) \<le> 256"
  shows "\<exists>v4. url_loop (pre @ xs @ post) (length pre) iHost url =
    url_loop (pre @ xs @ post) (length (pre @ xs)) iHost
      (url\<lparr>u_hostlen := u_hostlen url + word_of_nat (length xs), u_ipv4 := v4\<rparr>)"
  using assms
proof (induction xs arbitrary: pre url)
  case Nil
  have "url\<lparr>u_hostlen := u_hostlen url + word_of_nat (length []), u_ipv4 := u_ipv4 url\<rparr> = url" by simp
  then show ?case by (metis append_Nil2)
next
  case (Cons c xs)
  define v where "v = (u_ipv4 url \<and> (ffchar_isdigit (sint c) \<or> c = 46))"
  define url' where "url' = url\<lparr>u_hostlen := u_hostlen url + 1, u_ipv4 := v\<rparr>"
  have "\<not> off_exceeds (length pre) url 0xff" using Cons.prems(2,3) by (simp add: off_exceeds_def)
  then have "url_step (pre @ c # xs @ post) (length pre) iHost url = UNext iHost url'"
    using Cons.prems(1) by (auto simp: url_step_def url_host_def host_char_def url'_def v_def)
  then have "url_loop (pre @ c # xs @ post) (length pre) iHost url =
      url_loop (pre @ c # xs @ post) (length (pre @ [c])) iHost url'" by (rule loop_next)
  moreover obtain v4 where "url_loop ((pre @ [c]) @ xs @ post) (length (pre @ [c])) iHost url' =
      url_loop ((pre @ [c]) @ xs @ post) (length ((pre @ [c]) @ xs)) iHost
        (url'\<lparr>u_hostlen := u_hostlen url' + word_of_nat (length xs), u_ipv4 := v4\<rparr>)"
    using Cons.IH [of url' "pre @ [c]"] Cons.prems by (auto simp: url'_def)
  ultimately show ?case by (intro exI [of _ v4]) (simp add: url'_def algebra_simps)
qed

lemma host_start:
  assumes "host_char c"
  shows "\<exists>v4. url_loop (pre @ c # post) (length pre) iHostStart url = url_loop (pre @ c # post) (length pre) iHost (url\<lparr>u_ipv4 := v4\<rparr>)"
proof -
  define v where "v = (if ffchar_isdigit (sint c) then True else u_ipv4 url)"
  have "url_step (pre @ c # post) (length pre) iHostStart url = url_step (pre @ c # post) (length pre) iHost (url\<lparr>u_ipv4 := v\<rparr>)"
    using host_char_plain [OF assms] by (auto simp: url_step_def url_hoststart_def v_def)
  then show ?thesis by (intro exI [of _ v]) (simp add: url_loop.simps [of _ "length pre"])
qed


fun path_ok :: "bytes \<Rightarrow> bool" where
  "path_ok [] = True"
| "path_ok (c # p) =
     (if c = 37 then (case p of h # l # p \<Rightarrow> ffchar_ishex (sint h) \<and> ffchar_ishex (sint l) \<and> path_ok p | _ \<Rightarrow> False)
      else c \<noteq> 63 \<and> c \<noteq> 35 \<and> \<not> ffchar_isansiwhite c \<and> path_ok p)"

lemma path_white: "\<not> ffchar_isansiwhite 47" "\<not> ffchar_isansiwhite 46"
  by code_simp+

lemma path_step_plain:
  assumes "c \<noteq> 37" "c \<noteq> 63" "c \<noteq> 35" "\<not> ffchar_isansiwhite c"
  shows "\<exists>x d. url_path s i c url = UNext iPath (url\<lparr>u_pathlen := u_pathlen url + 1, u_complex := x, u_decoded_pathlen := d\<rparr>)"
proof (cases "(c = 47 \<or> c = 46) \<and> \<not> u_complex url \<and> i \<noteq> 0 \<and> s ! (i - 1) = 47")
  case True
  then show ?thesis using assms
    by (intro exI [of _ True] exI [of _ "u_decoded_pathlen url + 1"]) (auto simp: url_path_def Let_def)
next
  case False
  then show ?thesis using assms
    by (intro exI [of _ "u_complex url"] exI [of _ "u_decoded_pathlen url + 1"]) (auto simp: url_path_def Let_def)
qed

lemma path_run:
  "path_ok xs \<Longrightarrow> \<exists>x d. url_loop (pre @ xs @ post) (length pre) iPath url =
    url_loop (pre @ xs @ post) (length (pre @ xs)) iPath
      (url\<lparr>u_pathlen := u_pathlen url + word_of_nat (length xs), u_complex := x, u_decoded_pathlen := d\<rparr>)"
proof (induction xs arbitrary: pre url rule: path_ok.induct)
  case 1
  then show ?case by (intro exI [of _ "u_complex url"] exI [of _ "u_decoded_pathlen url"]) simp
next
  case (2 c p)
  show ?case
  proof (cases "c = 37")
    case True
    then obtain h l q where p: "p = h # l # q" and q: "ffchar_ishex (sint h)" "ffchar_ishex (sint l)" "path_ok q"
      using 2(3) by (auto split: list.splits)
    define u1 where "u1 = url\<lparr>u_complex := True, u_decoded_pathlen := u_decoded_pathlen url + 1, u_pathlen := u_pathlen url + 1\<rparr>"
    define u2 where "u2 = u1\<lparr>u_pathlen := u_pathlen u1 + 1\<rparr>"
    define u3 where "u3 = u2\<lparr>u_pathlen := u_pathlen u2 + 1\<rparr>"
    have "url_loop (pre @ 37 # h # l # q @ post) (length pre) iPath url =
        url_loop (pre @ 37 # h # l # q @ post) (length (pre @ [37])) iQuoted1 u1"
      by (rule loop_next) (simp add: url_step_def url_path_def Let_def u1_def)
    also have "\<dots> = url_loop (pre @ 37 # h # l # q @ post) (length (pre @ [37, h])) iQuoted2 u2"
      using loop_next [of "pre @ [37]" h "l # q @ post" iQuoted1 u1 iQuoted2 u2] q
      by (simp add: url_step_def url_quoted_def u2_def nth_append)
    also have "\<dots> = url_loop (pre @ 37 # h # l # q @ post) (length (pre @ [37, h, l])) iPath u3"
      using loop_next [of "pre @ [37, h]" l "q @ post" iQuoted2 u2 iPath u3] q
      by (simp add: url_step_def url_quoted_def u3_def nth_append)
    finally have one: "url_loop (pre @ 37 # h # l # q @ post) (length pre) iPath url =
      url_loop (pre @ 37 # h # l # q @ post) (length (pre @ [37, h, l])) iPath u3" .
    obtain x d where "url_loop ((pre @ [37, h, l]) @ q @ post) (length (pre @ [37, h, l])) iPath u3 =
        url_loop ((pre @ [37, h, l]) @ q @ post) (length ((pre @ [37, h, l]) @ q)) iPath
         (u3\<lparr>u_pathlen := u_pathlen u3 + word_of_nat (length q), u_complex := x, u_decoded_pathlen := d\<rparr>)"
      using 2(1) [OF True p refl q(3), of "pre @ [37, h, l]" u3] by blast
    then show ?thesis unfolding p True using one
      by (intro exI [of _ x] exI [of _ d]) (simp add: u1_def u2_def u3_def algebra_simps)
  next
    case False
    then have c: "c \<noteq> 63" "c \<noteq> 35" "\<not> ffchar_isansiwhite c" "path_ok p" using 2(3) by auto
    obtain x0 d0 where st: "url_path (pre @ c # p @ post) (length pre) c url =
        UNext iPath (url\<lparr>u_pathlen := u_pathlen url + 1, u_complex := x0, u_decoded_pathlen := d0\<rparr>)"
      using path_step_plain [OF False c(1-3)] by blast
    define u1 where "u1 = url\<lparr>u_pathlen := u_pathlen url + 1, u_complex := x0, u_decoded_pathlen := d0\<rparr>"
    have one: "url_loop (pre @ c # p @ post) (length pre) iPath url = url_loop (pre @ c # p @ post) (length (pre @ [c])) iPath u1"
      by (rule loop_next) (simp add: url_step_def st u1_def)
    obtain x d where "url_loop ((pre @ [c]) @ p @ post) (length (pre @ [c])) iPath u1 =
        url_loop ((pre @ [c]) @ p @ post) (length ((pre @ [c]) @ p)) iPath
         (u1\<lparr>u_pathlen := u_pathlen u1 + word_of_nat (length p), u_complex := x, u_decoded_pathlen := d\<rparr>)"
      using 2(2) [OF False c(4), of "pre @ [c]" u1] by blast
    then show ?thesis using one
      by (intro exI [of _ x] exI [of _ d]) (simp add: u1_def algebra_simps)
  qed
qed

definition qs_char :: "u8 \<Rightarrow> bool" where
  "qs_char c \<longleftrightarrow> \<not> ffchar_isansiwhite c \<and> c \<noteq> 35"

lemma qs_run:
  "\<forall>c\<in>set xs. qs_char c \<Longrightarrow> url_loop (pre @ xs @ post) (length pre) iQs url =
    url_loop (pre @ xs @ post) (length (pre @ xs)) iQs (url\<lparr>u_querystr := (u_querystr url \<or> xs \<noteq> [])\<rparr>)"
proof (induction xs arbitrary: pre url)
  case (Cons c xs)
  have "url_loop (pre @ c # xs @ post) (length pre) iQs url =
      url_loop (pre @ c # xs @ post) (length (pre @ [c])) iQs (url\<lparr>u_querystr := True\<rparr>)"
    using Cons.prems by (intro loop_next) (simp add: url_step_def qs_char_def)
  then show ?case using Cons.IH [of "pre @ [c]" "url\<lparr>u_querystr := True\<rparr>"] Cons.prems by simp
qed simp

definition dec_step :: "nat \<Rightarrow> u8 \<Rightarrow> nat" where
  "dec_step p c = p * 10 + nat (sint c - 48)"

lemma dec_step_grows: "p \<le> foldl dec_step p ds"
proof (induction ds arbitrary: p)
  case (Cons c ds)
  have "p \<le> dec_step p c" by (simp add: dec_step_def)
  also have "\<dots> \<le> foldl dec_step (dec_step p c) ds" by (rule Cons.IH)
  finally show ?case by simp
qed simp

lemma port_run:
  assumes "\<forall>c\<in>set ds. ffchar_isdigit (sint c)" "foldl dec_step (unat (u_port url)) ds < 65536"
  shows "url_loop (pre @ ds @ post) (length pre) iPort url =
    url_loop (pre @ ds @ post) (length (pre @ ds)) iPort
      (url\<lparr>u_port := word_of_nat (foldl dec_step (unat (u_port url)) ds), u_portlen := u_portlen url + word_of_nat (length ds)\<rparr>)"
  using assms
proof (induction ds arbitrary: pre url)
  case (Cons c ds)
  define p where "p = dec_step (unat (u_port url)) c"
  define u1 where "u1 = url\<lparr>u_port := word_of_nat p, u_portlen := u_portlen url + 1\<rparr>"
  have "p < 65536" using Cons.prems(2) dec_step_grows [of p ds] by (simp add: p_def)
  then have up: "unat (u_port u1) = p" by (simp add: u1_def unat_of_nat)
  have "url_loop (pre @ c # ds @ post) (length pre) iPort url = url_loop (pre @ c # ds @ post) (length (pre @ [c])) iPort u1"
    using Cons.prems(1) \<open>p < 65536\<close>
    by (intro loop_next) (simp add: url_step_def url_port_def u1_def p_def dec_step_def Let_def)
  moreover have "url_loop ((pre @ [c]) @ ds @ post) (length (pre @ [c])) iPort u1 =
    url_loop ((pre @ [c]) @ ds @ post) (length ((pre @ [c]) @ ds)) iPort
      (u1\<lparr>u_port := word_of_nat (foldl dec_step (unat (u_port u1)) ds), u_portlen := u_portlen u1 + word_of_nat (length ds)\<rparr>)"
    using Cons.prems up by (intro Cons.IH) (auto simp: p_def)
  ultimately show ?case using up by (simp add: u1_def p_def algebra_simps)
qed simp


lemma host_all:
  assumes "xs \<noteq> []" "\<forall>c\<in>set xs. host_char c" "unat (u_offhost url) \<le> length pre"
    "length pre + length xs - unat (u_offhost url) \<le> 256"
  shows "\<exists>v4. url_loop (pre @ xs @ post) (length pre) iHostStart url =
    url_loop (pre @ xs @ post) (length (pre @ xs)) iHost
      (url\<lparr>u_hostlen := u_hostlen url + word_of_nat (length xs), u_ipv4 := v4\<rparr>)"
proof -
  obtain c cs where xs: "xs = c # cs" using assms(1) by (cases xs) auto
  obtain v where "url_loop (pre @ xs @ post) (length pre) iHostStart url =
      url_loop (pre @ xs @ post) (length pre) iHost (url\<lparr>u_ipv4 := v\<rparr>)"
    using host_start [of c pre "cs @ post" url] assms(2) by (auto simp: xs)
  moreover obtain v4 where "url_loop (pre @ xs @ post) (length pre) iHost (url\<lparr>u_ipv4 := v\<rparr>) =
    url_loop (pre @ xs @ post) (length (pre @ xs)) iHost
      ((url\<lparr>u_ipv4 := v\<rparr>)\<lparr>u_hostlen := u_hostlen (url\<lparr>u_ipv4 := v\<rparr>) + word_of_nat (length xs), u_ipv4 := v4\<rparr>)"
    using host_run [OF assms(2), of "url\<lparr>u_ipv4 := v\<rparr>" pre post] assms(3,4) by auto
  ultimately show ?thesis by (intro exI [of _ v4]) simp
qed

definition query_text :: "bytes option \<Rightarrow> bytes" where
  "query_text q = (case q of None \<Rightarrow> [] | Some q \<Rightarrow> 63 # q)"

definition port_text :: "bytes \<Rightarrow> bytes" where
  "port_text ds = (if ds = [] then [] else 58 # ds)"

lemma tail_run:
  assumes p: "path_ok p" and q: "\<forall>c\<in>set (case q of None \<Rightarrow> [] | Some q \<Rightarrow> q). qs_char c"
  shows "\<exists>st x d. (st = iPath \<or> st = iQs) \<and>
    url_loop (pre @ (47 # p) @ query_text q) (length pre) iPathStart url =
      (FFURL_EOK, st, url\<lparr>u_offpath := word_of_nat (length pre),
         u_pathlen := u_pathlen url + word_of_nat (length (47 # p)), u_complex := x, u_decoded_pathlen := d,
         u_querystr := (u_querystr url \<or> (case q of None \<Rightarrow> False | Some q \<Rightarrow> q \<noteq> []))\<rparr>,
       length (pre @ (47 # p) @ query_text q))"
proof -
  define u0 where "u0 = url\<lparr>u_offpath := word_of_nat (length pre)\<rparr>"
  have ok: "path_ok (47 # p)" using p path_white by simp
  have "url_step (pre @ (47 # p) @ query_text q) (length pre) iPathStart url =
      url_step (pre @ (47 # p) @ query_text q) (length pre) iPath u0"
    by (simp add: url_step_def url_pathstart_def u0_def)
  then have "url_loop (pre @ (47 # p) @ query_text q) (length pre) iPathStart url =
      url_loop (pre @ (47 # p) @ query_text q) (length pre) iPath u0"
    by (simp add: url_loop.simps [of _ "length pre"])
  also obtain x d where "\<dots> = url_loop (pre @ (47 # p) @ query_text q) (length (pre @ 47 # p)) iPath
      (u0\<lparr>u_pathlen := u_pathlen u0 + word_of_nat (length (47 # p)), u_complex := x, u_decoded_pathlen := d\<rparr>)"
    using path_run [OF ok, of pre "query_text q" u0] by blast
  finally have run: "url_loop (pre @ (47 # p) @ query_text q) (length pre) iPathStart url = \<dots>" .
  define u1 where "u1 = u0\<lparr>u_pathlen := u_pathlen u0 + word_of_nat (length (47 # p)), u_complex := x, u_decoded_pathlen := d\<rparr>"
  show ?thesis
  proof (cases q)
    case None
    then show ?thesis using run url_loop_end [of "pre @ 47 # p" iPath u1]
      by (intro exI [of _ iPath] exI [of _ x] exI [of _ d]) (simp add: query_text_def u0_def u1_def)
  next
    case (Some qs)
    have "url_loop ((pre @ 47 # p) @ 63 # qs @ []) (length (pre @ 47 # p)) iPath u1 =
        url_loop ((pre @ 47 # p) @ 63 # qs @ []) (length ((pre @ 47 # p) @ [63])) iQs u1"
      by (rule loop_next, simp only: url_step_def nth_append_length Let_def url_state.case url_path_def) simp
    also have "\<dots> = url_loop ((pre @ 47 # p @ [63]) @ qs @ []) (length ((pre @ 47 # p @ [63]) @ qs)) iQs
        (u1\<lparr>u_querystr := (u_querystr u1 \<or> qs \<noteq> [])\<rparr>)"
      using qs_run [of qs "pre @ 47 # p @ [63]" "[]" u1] q Some by simp
    also have "\<dots> = (FFURL_EOK, iQs, u1\<lparr>u_querystr := (u_querystr u1 \<or> qs \<noteq> [])\<rparr>, length ((pre @ 47 # p @ [63]) @ qs))"
      by (simp only: append_Nil2 url_loop_end)
    finally show ?thesis using run Some
      by (intro exI [of _ iQs] exI [of _ x] exI [of _ d]) (simp add: query_text_def u0_def u1_def)
  qed
qed

lemma scheme_run:
  assumes "scheme \<noteq> []" "\<forall>c\<in>set scheme. host_char c" "length scheme \<le> 255"
  shows "\<exists>v4. url_loop (scheme @ [58, 47, 47] @ post) 0 iHostStart ffurl_init =
    url_loop ((scheme @ [58, 47, 47]) @ post) (length (scheme @ [58, 47, 47])) iHostStart
      (ffurl_init\<lparr>u_offhost := word_of_nat (length scheme + 3), u_ipv4 := v4\<rparr>)"
proof -
  obtain v where h: "url_loop ([] @ scheme @ [58, 47, 47] @ post) (length []) iHostStart ffurl_init =
      url_loop ([] @ scheme @ [58, 47, 47] @ post) (length ([] @ scheme)) iHost
       (ffurl_init\<lparr>u_hostlen := u_hostlen ffurl_init + word_of_nat (length scheme), u_ipv4 := v\<rparr>)"
    using host_all [OF assms(1,2), of ffurl_init "[]" "[58, 47, 47] @ post"] assms(3) by (auto simp: ffurl_init_def)
  define u1 where "u1 = ffurl_init\<lparr>u_hostlen := word_of_nat (length scheme), u_ipv4 := v\<rparr>"
  have "unat (word_of_nat (length scheme) :: u8) = length scheme" using assms(3) by (simp add: unat_of_nat)
  then have nz: "u_hostlen u1 \<noteq> 0" using assms(1) by (auto simp: u1_def simp del: unat_of_nat)
  have colon: "\<not> (ffchar_isname 58 \<or> (58::u8) = 45 \<or> (58::u8) = 46)" using host_char_special(3) by (simp add: host_char_def)
  have "url_loop (scheme @ 58 # 47 # 47 # post) (length scheme) iHost u1 =
      url_loop (scheme @ 58 # 47 # 47 # post) (length (scheme @ [58])) iPortOrScheme u1"
    using nz colon by (intro loop_next) (simp add: url_step_def url_host_def url_afterhost_def u1_def ffurl_init_def)
  also have "\<dots> = url_loop ((scheme @ [58]) @ 47 # 47 # post) (length ((scheme @ [58]) @ [47])) iSchemeSlash2 u1"
    using loop_next [of "scheme @ [58]" 47 "47 # post" iPortOrScheme u1 iSchemeSlash2 u1]
    by (simp add: url_step_def nth_append)
  also have "\<dots> = url_loop ((scheme @ [58, 47]) @ 47 # post) (length ((scheme @ [58, 47]) @ [47])) iHostStart
      (u1\<lparr>u_hostlen := 0, u_offhost := word_of_nat (length scheme + 3)\<rparr>)"
    using loop_next [of "scheme @ [58, 47]" 47 post iSchemeSlash2 u1 iHostStart
      "u1\<lparr>u_hostlen := 0, u_offhost := word_of_nat (length scheme + 3)\<rparr>"]
    by (simp add: url_step_def nth_append algebra_simps)
  finally show ?thesis using h by (intro exI [of _ v]) (simp add: u1_def ffurl_init_def)
qed


lemma host_stop:
  assumes "c = 47 \<or> c = 58" "u_hostlen url \<noteq> 0" "u_offhost url \<noteq> 0"
  shows "url_loop (pre @ c # post) (length pre) iHost url =
    (if c = 58 then url_loop (pre @ c # post) (length (pre @ [c])) iPort url
     else url_loop (pre @ c # post) (length pre) iPathStart url)"
proof -
  have nh: "\<not> (ffchar_isname c \<or> c = 45 \<or> c = 46)" using assms(1) host_char_special by (auto simp: host_char_def)
  show ?thesis
  proof (cases "c = 58")
    case True
    then have "url_step (pre @ c # post) (length pre) iHost url = UNext iPort url"
      using nh assms by (simp add: url_step_def url_host_def url_afterhost_def)
    then show ?thesis using loop_next True by simp
  next
    case False
    then have "url_step (pre @ c # post) (length pre) iHost url = UAgain iPathStart url"
      using nh assms by (simp add: url_step_def url_host_def url_afterhost_def)
    then show ?thesis using loop_again False by simp
  qed
qed

lemma not_digit_47: "\<not> ffchar_isdigit (sint (47 :: u8))"
  by (simp add: ffchar_isdigit_def)

lemma port_stop: "url_loop (pre @ 47 # post) (length pre) iPort url = url_loop (pre @ 47 # post) (length pre) iPathStart url"
  by (rule loop_again) (simp add: url_step_def url_port_def not_digit_47 [simplified])

definition dec_value :: "bytes \<Rightarrow> nat" where
  "dec_value ds = foldl dec_step 0 ds"

lemma port_part:
  assumes d: "\<forall>c\<in>set ds. ffchar_isdigit (sint c)" "dec_value ds < 65536"
    and u: "u_port url = 0" "u_portlen url = 0" "u_hostlen url \<noteq> 0" "u_offhost url \<noteq> 0"
  shows "url_loop (pre @ port_text ds @ 47 # post) (length pre) iHost url =
    url_loop ((pre @ port_text ds) @ 47 # post) (length (pre @ port_text ds)) iPathStart
      (url\<lparr>u_port := word_of_nat (dec_value ds), u_portlen := word_of_nat (length ds)\<rparr>)"
proof (cases "ds = []")
  case True
  have same: "url\<lparr>u_port := 0, u_portlen := 0\<rparr> = url" using u by (cases url) simp
  show ?thesis using True host_stop [of 47 url pre post] u(3,4) by (simp add: port_text_def dec_value_def same)
next
  case False
  define u1 where "u1 = url\<lparr>u_port := word_of_nat (dec_value ds), u_portlen := word_of_nat (length ds)\<rparr>"
  have "url_loop (pre @ 58 # ds @ 47 # post) (length pre) iHost url =
      url_loop ((pre @ [58]) @ ds @ 47 # post) (length (pre @ [58])) iPort url"
    using host_stop [of 58 url pre "ds @ 47 # post"] u by simp
  also have "\<dots> = url_loop (((pre @ [58]) @ ds) @ 47 # post) (length ((pre @ [58]) @ ds)) iPort u1"
    using port_run [OF d(1), of url "pre @ [58]" "47 # post"] d u by (simp add: dec_value_def u1_def)
  also have "\<dots> = url_loop (((pre @ [58]) @ ds) @ 47 # post) (length ((pre @ [58]) @ ds)) iPathStart u1"
    by (rule port_stop)
  finally show ?thesis using False by (simp add: port_text_def u1_def)
qed

definition url_text :: "bytes \<Rightarrow> bytes \<Rightarrow> bytes \<Rightarrow> bytes \<Rightarrow> bytes option \<Rightarrow> bytes" where
  "url_text scheme host ds p q = scheme @ [58, 47, 47] @ host @ port_text ds @ p @ query_text q"

lemma parse_url_text:
  assumes s: "scheme \<noteq> []" "\<forall>c\<in>set scheme. host_char c" "length scheme \<le> 255"
    and h: "host \<noteq> []" "\<forall>c\<in>set host. host_char c" "length host \<le> 255"
    and d: "\<forall>c\<in>set ds. ffchar_isdigit (sint c)" "dec_value ds < 65536"
    and p: "path_ok p" and q: "\<forall>c\<in>set (case q of None \<Rightarrow> [] | Some q \<Rightarrow> q). qs_char c"
  shows "\<exists>st v x e. ffurl_parse ffurl_init (url_text scheme host ds (47 # p) q) =
    (FFURL_EOK, \<lparr>u_offhost = word_of_nat (length scheme + 3), u_port = word_of_nat (dec_value ds),
       u_hostlen = word_of_nat (length host), u_portlen = word_of_nat (length ds),
       u_len = word_of_nat (length (url_text scheme host ds (47 # p) q)),
       u_offpath = word_of_nat (length (scheme @ [58, 47, 47] @ host @ port_text ds)),
       u_pathlen = word_of_nat (length (47 # p)), u_decoded_pathlen = e, u_idx = st, u_ipv4 = v, u_ipv6 = False,
       u_querystr = (case q of None \<Rightarrow> False | Some q \<Rightarrow> q \<noteq> []), u_complex = x\<rparr>)"
proof -
  define off :: nat where "off = length scheme + 3"
  have off: "unat (word_of_nat off :: u16) = off" "(word_of_nat off :: u16) \<noteq> 0"
  proof -
    show a: "unat (word_of_nat off :: u16) = off" using s(3) by (simp add: unat_of_nat off_def del: of_nat_add)
    show "(word_of_nat off :: u16) \<noteq> 0" using a by (auto simp: off_def simp del: of_nat_add)
  qed
  have hl: "(word_of_nat (length host) :: u8) \<noteq> 0"
  proof
    assume "(word_of_nat (length host) :: u8) = 0"
    then have "unat (word_of_nat (length host) :: u8) = 0" by simp
    then show False using h by (simp add: unat_of_nat)
  qed
  define t where "t = url_text scheme host ds (47 # p) q"
  define post where "post = port_text ds @ (47 # p) @ query_text q"
  have t1: "t = scheme @ [58, 47, 47] @ host @ post" by (simp add: t_def url_text_def post_def)
  obtain v where r1: "url_loop t 0 iHostStart ffurl_init = url_loop ((scheme @ [58, 47, 47]) @ host @ post)
      (length (scheme @ [58, 47, 47])) iHostStart (ffurl_init\<lparr>u_offhost := word_of_nat off, u_ipv4 := v\<rparr>)"
    using scheme_run [OF s, of "host @ post"] unfolding t1 off_def by blast
  define u1 where "u1 = ffurl_init\<lparr>u_offhost := word_of_nat off, u_ipv4 := v\<rparr>"
  obtain v4 where r2: "url_loop ((scheme @ [58, 47, 47]) @ host @ post) (length (scheme @ [58, 47, 47])) iHostStart u1 =
    url_loop ((scheme @ [58, 47, 47]) @ host @ post) (length ((scheme @ [58, 47, 47]) @ host)) iHost
      (u1\<lparr>u_hostlen := u_hostlen u1 + word_of_nat (length host), u_ipv4 := v4\<rparr>)"
    using host_all [OF h(1,2), of u1 "scheme @ [58, 47, 47]" post] h(3) off by (auto simp: u1_def off_def)
  define u2 where "u2 = u1\<lparr>u_hostlen := word_of_nat (length host), u_ipv4 := v4\<rparr>"
  have u2: "u1\<lparr>u_hostlen := u_hostlen u1 + word_of_nat (length host), u_ipv4 := v4\<rparr> = u2"
    by (simp add: u1_def u2_def ffurl_init_def)
  define pre where "pre = (scheme @ [58, 47, 47]) @ host"
  have r3: "url_loop (pre @ port_text ds @ 47 # (p @ query_text q)) (length pre) iHost u2 =
    url_loop ((pre @ port_text ds) @ 47 # (p @ query_text q)) (length (pre @ port_text ds)) iPathStart
      (u2\<lparr>u_port := word_of_nat (dec_value ds), u_portlen := word_of_nat (length ds)\<rparr>)"
    using off hl by (intro port_part d) (simp_all add: u2_def u1_def ffurl_init_def)
  define u3 where "u3 = u2\<lparr>u_port := word_of_nat (dec_value ds), u_portlen := word_of_nat (length ds)\<rparr>"
  obtain st x e where st: "st = iPath \<or> st = iQs" and r4:
    "url_loop ((pre @ port_text ds) @ (47 # p) @ query_text q) (length (pre @ port_text ds)) iPathStart u3 =
      (FFURL_EOK, st, u3\<lparr>u_offpath := word_of_nat (length (pre @ port_text ds)),
         u_pathlen := u_pathlen u3 + word_of_nat (length (47 # p)), u_complex := x, u_decoded_pathlen := e,
         u_querystr := (u_querystr u3 \<or> (case q of None \<Rightarrow> False | Some q \<Rightarrow> q \<noteq> []))\<rparr>,
       length ((pre @ port_text ds) @ (47 # p) @ query_text q))"
    using tail_run [OF p q, of "pre @ port_text ds" u3] by blast
  define u4 where "u4 = u3\<lparr>u_offpath := word_of_nat (length (pre @ port_text ds)),
         u_pathlen := word_of_nat (length (47 # p)), u_complex := x, u_decoded_pathlen := e,
         u_querystr := (case q of None \<Rightarrow> False | Some q \<Rightarrow> q \<noteq> [])\<rparr>"
  have "url_loop t 0 iHostStart ffurl_init =
      url_loop ((scheme @ [58, 47, 47]) @ host @ post) (length (scheme @ [58, 47, 47])) iHostStart u1"
    unfolding u1_def by (rule r1)
  also have "\<dots> = url_loop (pre @ port_text ds @ 47 # (p @ query_text q)) (length pre) iHost u2"
    using r2 unfolding u2 pre_def post_def by (simp only: append_assoc append_Cons)
  also have "\<dots> = url_loop ((pre @ port_text ds) @ (47 # p) @ query_text q) (length (pre @ port_text ds)) iPathStart u3"
    using r3 unfolding u3_def by (simp only: append_Cons)
  also have "\<dots> = (FFURL_EOK, st, u4, length t)"
    unfolding r4 by (simp add: t1 post_def pre_def) (simp add: pre_def u4_def u3_def u2_def u1_def ffurl_init_def)
  finally have "url_loop t 0 iHostStart ffurl_init = (FFURL_EOK, st, u4, length t)" .
  then show ?thesis using st unfolding t_def [symmetric]
    by (intro exI [of _ st] exI [of _ v4] exI [of _ x] exI [of _ e])
      (auto simp: ffurl_parse_def ffurl_init_def u4_def u3_def u2_def u1_def pre_def off_def)
qed


lemma unat16: "n < 65536 \<Longrightarrow> unat (word_of_nat n :: u16) = n"
  by (simp add: unat_of_nat)

lemma ffurl_parts:
  assumes s: "length scheme \<le> 255" and h: "\<forall>c\<in>set host. host_char c" "length host \<le> 255"
    and d: "length ds \<le> 255" and t: "length (url_text scheme host ds (47 # p) q) < 65536"
    and u: "u = \<lparr>u_offhost = word_of_nat (length scheme + 3), u_port = port,
       u_hostlen = word_of_nat (length host), u_portlen = word_of_nat (length ds),
       u_len = word_of_nat (length (url_text scheme host ds (47 # p) q)),
       u_offpath = word_of_nat (length (scheme @ [58, 47, 47] @ host @ port_text ds)),
       u_pathlen = word_of_nat (length (47 # p)), u_decoded_pathlen = e, u_idx = st, u_ipv4 = v, u_ipv6 = False,
       u_querystr = (case q of None \<Rightarrow> False | Some q \<Rightarrow> q \<noteq> []), u_complex = x\<rparr>"
  shows "ffurl_get u (url_text scheme host ds (47 # p) q) FFURL_SCHEME = scheme"
    and "ffurl_get u (url_text scheme host ds (47 # p) q) FFURL_HOST = host"
    and "ffurl_get u (url_text scheme host ds (47 # p) q) FFURL_PORT = ds"
    and "ffurl_get u (url_text scheme host ds (47 # p) q) FFURL_PATH = 47 # p"
    and "ffurl_get u (url_text scheme host ds (47 # p) q) FFURL_QS = (case q of None \<Rightarrow> [] | Some q \<Rightarrow> q)"
proof -
  have lt: "length (url_text scheme host ds (47 # p) q) =
      length scheme + 3 + length host + length (port_text ds) + length (47 # p) + length (query_text q)"
    by (simp add: url_text_def)
  have n: "unat (u_offhost u) = length scheme + 3" "unat (u_hostlen u) = length host" "unat (u_portlen u) = length ds"
      "unat (u_len u) = length (url_text scheme host ds (47 # p) q)"
    using s h(2) d t unfolding lt by (simp_all add: u unat_of_nat lt del: of_nat_add)
  have "u_offpath u = word_of_nat (length (scheme @ [58, 47, 47] @ host @ port_text ds))" by (simp add: u)
  moreover have "length (scheme @ [58, 47, 47] @ host @ port_text ds) < 65536" using t unfolding lt by simp
  ultimately have "unat (u_offpath u) = length (scheme @ [58, 47, 47] @ host @ port_text ds)" by (simp only: unat16)
  then have n5: "unat (u_offpath u) = length scheme + 3 + length host + length (port_text ds)" by simp
  have "u_pathlen u = word_of_nat (length (47 # p))" by (simp add: u)
  moreover have "length (47 # p) < 65536" using t unfolding lt by simp
  ultimately have n6: "unat (u_pathlen u) = length (47 # p)" by (simp only: unat16)
  note n = n n5 n6
  show "ffurl_get u (url_text scheme host ds (47 # p) q) FFURL_SCHEME = scheme"
    by (simp add: ffurl_get_def n part_def url_text_def)
  have "\<not> (2 < length host \<and> url_text scheme host ds (47 # p) q ! (length scheme + 3) = 91)"
  proof
    assume a: "2 < length host \<and> url_text scheme host ds (47 # p) q ! (length scheme + 3) = 91"
    then have "host ! 0 = 91" by (cases host) (auto simp: url_text_def nth_append)
    moreover have "host ! 0 \<in> set host" using a by (intro nth_mem) linarith
    ultimately show False using h(1) host_char_special(1) by auto
  qed
  then show "ffurl_get u (url_text scheme host ds (47 # p) q) FFURL_HOST = host"
    by (auto simp: ffurl_get_def Let_def n part_def url_text_def)
  show "ffurl_get u (url_text scheme host ds (47 # p) q) FFURL_PORT = ds"
    by (simp add: ffurl_get_def Let_def n part_def url_text_def port_text_def eval_nat_numeral)
  show "ffurl_get u (url_text scheme host ds (47 # p) q) FFURL_PATH = 47 # p"
    by (simp add: ffurl_get_def Let_def n part_def url_text_def eval_nat_numeral)
  have uq: "u_querystr u = (case q of None \<Rightarrow> False | Some q \<Rightarrow> q \<noteq> [])" by (simp add: u)
  show "ffurl_get u (url_text scheme host ds (47 # p) q) FFURL_QS = (case q of None \<Rightarrow> [] | Some q \<Rightarrow> q)"
    by (auto simp: ffurl_get_def Let_def n uq part_def url_text_def query_text_def eval_nat_numeral split: option.splits)
qed

text \<open>
  C27: A complete URL \<open>scheme://host[:port]/path[?query]\<close> is parsed without an error and falls apart into exactly
  the scheme, host, port, path and query it was put together from, and the port is the value of its digits.
\<close>

theorem ffurl_parse_components:
  assumes s: "scheme \<noteq> []" "\<forall>c\<in>set scheme. host_char c" "length scheme \<le> 255"
    and h: "host \<noteq> []" "\<forall>c\<in>set host. host_char c" "length host \<le> 255"
    and d: "\<forall>c\<in>set ds. ffchar_isdigit (sint c)" "dec_value ds < 65536" "length ds \<le> 255"
    and p: "path_ok p" and q: "\<forall>c\<in>set (case q of None \<Rightarrow> [] | Some q \<Rightarrow> q). qs_char c"
    and t: "t = url_text scheme host ds (47 # p) q" "length t < 65536"
  shows "\<exists>u. ffurl_parse ffurl_init t = (FFURL_EOK, u) \<and> ffurl_get u t FFURL_SCHEME = scheme
    \<and> ffurl_get u t FFURL_HOST = host \<and> ffurl_get u t FFURL_PORT = ds \<and> unat (u_port u) = dec_value ds
    \<and> ffurl_get u t FFURL_PATH = 47 # p \<and> ffurl_get u t FFURL_QS = (case q of None \<Rightarrow> [] | Some q \<Rightarrow> q)"
proof -
  obtain st v x e u where r: "ffurl_parse ffurl_init t = (FFURL_EOK, u)" and u:
    "u = \<lparr>u_offhost = word_of_nat (length scheme + 3), u_port = word_of_nat (dec_value ds),
       u_hostlen = word_of_nat (length host), u_portlen = word_of_nat (length ds),
       u_len = word_of_nat (length (url_text scheme host ds (47 # p) q)),
       u_offpath = word_of_nat (length (scheme @ [58, 47, 47] @ host @ port_text ds)),
       u_pathlen = word_of_nat (length (47 # p)), u_decoded_pathlen = e, u_idx = st, u_ipv4 = v, u_ipv6 = False,
       u_querystr = (case q of None \<Rightarrow> False | Some q \<Rightarrow> q \<noteq> []), u_complex = x\<rparr>"
    using parse_url_text [OF s h d(1,2) p q] t(1) by blast
  have "unat (u_port u) = dec_value ds" using d(2) by (simp add: u unat_of_nat)
  then show ?thesis using r ffurl_parts [OF s(3) h(2,3) d(3) t(2)[unfolded t(1)] u] unfolding t(1) by blast
qed

text \<open>\<open>http://h.io:80/a?b\<close>.\<close>

lemma ffurl_parse_components_witness:
  "\<exists>u. ffurl_parse ffurl_init [104, 116, 116, 112, 58, 47, 47, 104, 46, 105, 111, 58, 56, 48, 47, 97, 63, 98] = (FFURL_EOK, u)
    \<and> ffurl_get u [104, 116, 116, 112, 58, 47, 47, 104, 46, 105, 111, 58, 56, 48, 47, 97, 63, 98] FFURL_SCHEME = [104, 116, 116, 112]
    \<and> ffurl_get u [104, 116, 116, 112, 58, 47, 47, 104, 46, 105, 111, 58, 56, 48, 47, 97, 63, 98] FFURL_HOST = [104, 46, 105, 111]
    \<and> ffurl_get u [104, 116, 116, 112, 58, 47, 47, 104, 46, 105, 111, 58, 56, 48, 47, 97, 63, 98] FFURL_PORT = [56, 48]
    \<and> unat (u_port u) = dec_value [56, 48]
    \<and> ffurl_get u [104, 116, 116, 112, 58, 47, 47, 104, 46, 105, 111, 58, 56, 48, 47, 97, 63, 98] FFURL_PATH = 47 # [97]
    \<and> ffurl_get u [104, 116, 116, 112, 58, 47, 47, 104, 46, 105, 111, 58, 56, 48, 47, 97, 63, 98] FFURL_QS =
      (case Some [98] of None \<Rightarrow> [] | Some q \<Rightarrow> q)"
proof (rule ffurl_parse_components)
  show "\<forall>c\<in>set [104, 116, 116, 112]. host_char c" by code_simp
  show "\<forall>c\<in>set [104, 46, 105, 111]. host_char c" by code_simp
  show "\<forall>c\<in>set [56, 48 :: u8]. ffchar_isdigit (sint c)" by (simp add: ffchar_isdigit_def)
  show "dec_value [56, 48] < 65536" by (simp add: dec_value_def dec_step_def)
  show "path_ok [97]" by code_simp
  show "\<forall>c\<in>set (case Some [98] of None \<Rightarrow> [] | Some q \<Rightarrow> q). qs_char c" by code_simp
qed (simp_all add: url_text_def port_text_def query_text_def)


section \<open>Parsing as the text arrives\<close>

text \<open>
  Two URL structures that agree on all that the parser reads: everything but the saved state, the saved length,
  and, before the path, its offset.
\<close>

definition url_core :: "ffurl \<Rightarrow> ffurl" where
  "url_core u = u\<lparr>u_idx := iHostStart, u_len := 0, u_offpath := 0\<rparr>"

definition path_state :: "url_state \<Rightarrow> bool" where
  "path_state st \<longleftrightarrow> st = iPath \<or> st = iQuoted1 \<or> st = iQuoted2 \<or> st = iQs"

definition url_sim :: "url_state \<Rightarrow> ffurl \<Rightarrow> ffurl \<Rightarrow> bool" where
  "url_sim st u v \<longleftrightarrow> url_core u = url_core v \<and> (path_state st \<longrightarrow> u_offpath u = u_offpath v)"

fun act_sim :: "url_act \<Rightarrow> url_act \<Rightarrow> bool" where
  "act_sim (UNext st u) (UNext st' v) = (st = st' \<and> url_sim st u v)"
| "act_sim (UAgain st u) (UAgain st' v) = (st = st' \<and> url_sim st u v)"
| "act_sim (UFail er st u) (UFail er' st' v) = (er = er' \<and> er \<noteq> FFURL_EOK \<and> er \<noteq> FFURL_EMORE \<and> st = st' \<and> url_sim st u v)"
| "act_sim _ _ = False"

lemma core_fields:
  "url_core u = url_core v \<longleftrightarrow> u_offhost u = u_offhost v \<and> u_port u = u_port v \<and> u_hostlen u = u_hostlen v
    \<and> u_portlen u = u_portlen v \<and> u_pathlen u = u_pathlen v \<and> u_decoded_pathlen u = u_decoded_pathlen v
    \<and> u_ipv4 u = u_ipv4 v \<and> u_ipv6 u = u_ipv6 v \<and> u_querystr u = u_querystr v \<and> u_complex u = u_complex v"
  by (cases u; cases v) (auto simp: url_core_def)

lemma step_sim:
  assumes "url_sim st u v"
  shows "act_sim (url_step s i st u) (url_step s i st v)"
proof -
  have f: "u_offhost u = u_offhost v" "u_port u = u_port v" "u_hostlen u = u_hostlen v"
    "u_portlen u = u_portlen v" "u_pathlen u = u_pathlen v" "u_decoded_pathlen u = u_decoded_pathlen v"
    "u_ipv4 u = u_ipv4 v" "u_ipv6 u = u_ipv6 v" "u_querystr u = u_querystr v" "u_complex u = u_complex v"
    "path_state st \<longrightarrow> u_offpath u = u_offpath v"
    using assms by (simp_all add: url_sim_def core_fields)
  note d = url_step_def url_path_def url_pathstart_def url_port_def url_afterhost_def url_host_def url_hoststart_def
      url_ip6_def url_quoted_def off_exceeds_def url_sim_def path_state_def core_fields Let_def
  show ?thesis using f by (cases st) (simp_all add: d)
qed

lemma loop_sim:
  "url_sim st u v \<Longrightarrow> url_loop s i st u = (er, st', u', j) \<Longrightarrow>
    \<exists>v'. url_loop s i st v = (er, st', v', j) \<and> url_sim st' u' v'"
proof (induction s i st u arbitrary: v er st' u' j rule: url_loop.induct)
  case (1 s i st u)
  show ?case
  proof (cases "length s \<le> i")
    case True
    then show ?thesis using 1(3,4) by (subst (asm) url_loop.simps, subst url_loop.simps) simp
  next
    case False
    have sim: "act_sim (url_step s i st u) (url_step s i st v)" using 1(3) by (rule step_sim)
    show ?thesis
    proof (cases "url_step s i st u")
      case (UNext st1 u1)
      then obtain v1 where v1: "url_step s i st v = UNext st1 v1" "url_sim st1 u1 v1"
        using sim by (cases "url_step s i st v") auto
      have "url_loop s (i + 1) st1 u1 = (er, st', u', j)" using 1(4) False UNext by (simp add: url_loop.simps [of s i st])
      then show ?thesis using 1(1) [OF False UNext v1(2)] v1(1) False by (simp add: url_loop.simps [of s i st])
    next
      case (UAgain st1 u1)
      then obtain v1 where v1: "url_step s i st v = UAgain st1 v1" "url_sim st1 u1 v1"
        using sim by (cases "url_step s i st v") auto
      have "url_loop s i st1 u1 = (er, st', u', j)" using 1(4) False UAgain by (simp add: url_loop.simps [of s i st])
      then show ?thesis using 1(2) [OF False UAgain v1(2)] v1(1) False by (simp add: url_loop.simps [of s i st])
    next
      case (UFail er1 st1 u1)
      then obtain v1 where v1: "url_step s i st v = UFail er1 st1 v1" "url_sim st1 u1 v1"
        using sim by (cases "url_step s i st v") auto
      then have "url_loop s i st v = (er1, st1, v1, i)" using False by (simp add: url_loop.simps [of s i st])
      moreover have "url_loop s i st u = (er1, st1, u1, i)" using False UFail by (simp add: url_loop.simps [of s i st])
      ultimately show ?thesis using 1(4) v1(2) by auto
    qed
  qed
qed

text \<open>The loop runs over a prefix as over the whole text.\<close>

lemma step_prefix: "i < length a \<Longrightarrow> url_step (a @ b) i st u = url_step a i st u"
proof -
  assume "i < length a"
  moreover from this have "i - 1 < length a" by linarith
  ultimately have "(a @ b) ! i = a ! i" "(a @ b) ! (i - 1) = a ! (i - 1)" by (simp_all add: nth_append)
  then show ?thesis by (simp only: url_step_def url_path_def url_pathstart_def)
qed

lemma loop_prefix:
  "url_loop a i st u = (FFURL_EOK, st', u', j) \<Longrightarrow> i \<le> length a \<Longrightarrow>
    j = length a \<and> url_loop (a @ b) i st u = url_loop (a @ b) (length a) st' u'"
proof (induction a i st u arbitrary: st' u' j rule: url_loop.induct)
  case (1 a i st u)
  show ?case
  proof (cases "length a \<le> i")
    case True
    then show ?thesis using 1(3,4) by (simp add: url_loop.simps [of a i st])
  next
    case False
    show ?thesis
    proof (cases "url_step a i st u")
      case (UNext st1 u1)
      then show ?thesis using 1(1) [OF False UNext, of st' u' j] 1(3) False
        by (simp add: url_loop.simps [of a i st] url_loop.simps [of "a @ b" i st] step_prefix)
    next
      case (UAgain st1 u1)
      then show ?thesis using 1(2) [OF False UAgain, of st' u' j] 1(3) False
        by (simp add: url_loop.simps [of a i st] url_loop.simps [of "a @ b" i st] step_prefix)
    next
      case (UFail er1 st1 u1)
      have "url_sim st u u" by (simp add: url_sim_def)
      then have "er1 \<noteq> FFURL_EOK" using step_sim [of st u u a i] UFail by simp
      then show ?thesis using 1(3) False UFail by (simp add: url_loop.simps [of a i st])
    qed
  qed
qed

lemma loop_error: "url_loop s i st u = (er, st', u', j) \<Longrightarrow> er \<noteq> FFURL_EMORE \<and> (i \<le> length s \<longrightarrow> j \<le> length s)"
proof (induction s i st u arbitrary: er st' u' j rule: url_loop.induct)
  case (1 s i st u)
  show ?case
  proof (cases "length s \<le> i")
    case True
    then show ?thesis using 1(3) by (simp add: url_loop.simps [of s i st])
  next
    case False
    have "url_sim st u u" by (simp add: url_sim_def)
    then have "act_sim (url_step s i st u) (url_step s i st u)" by (rule step_sim)
    then show ?thesis using 1 False
      by (cases "url_step s i st u") (auto simp: url_loop.simps [of s i st])
  qed
qed


definition url_settle :: "url_e \<Rightarrow> url_state \<Rightarrow> ffurl \<Rightarrow> nat \<Rightarrow> url_e \<times> ffurl" where
  "url_settle er idx url i =
     (let consistent = (idx = iHost \<and> u_hostlen url \<noteq> 0 \<or> idx = iAfterHost \<or> idx = iPort \<and> u_portlen url \<noteq> 0
            \<or> idx = iPath \<or> idx = iQs);
          er = (if er \<noteq> FFURL_EOK then er else if consistent then FFURL_EOK else FFURL_EMORE);
          url = url\<lparr>u_idx := idx, u_len := word_of_nat i\<rparr>
      in (er, if er \<noteq> FFURL_EMORE \<and> \<not> (idx = iPath \<or> idx = iQs) then url\<lparr>u_offpath := u_len url\<rparr> else url))"

lemma parse_settle:
  "url_loop s (unat (u_len url)) (u_idx url) url = (er, idx, v, i) \<Longrightarrow> ffurl_parse url s = url_settle er idx v i"
  by (simp add: ffurl_parse_def url_settle_def)

lemma core_update:
  "url_core u = url_core v \<Longrightarrow> u\<lparr>u_idx := x, u_len := y, u_offpath := z\<rparr> = v\<lparr>u_idx := x, u_len := y, u_offpath := z\<rparr>"
  "url_core u = url_core v \<Longrightarrow> u_offpath u = u_offpath v \<Longrightarrow> u\<lparr>u_idx := x, u_len := y\<rparr> = v\<lparr>u_idx := x, u_len := y\<rparr>"
  by (cases u; cases v; simp add: url_core_def)+

lemma settle_code:
  "url_core u = url_core v \<Longrightarrow> fst (url_settle er st u i) = fst (url_settle er st v i)"
  by (simp add: url_settle_def Let_def core_fields)

lemma settle_sim:
  assumes "url_sim st u v" "fst (url_settle er st u i) \<noteq> FFURL_EMORE"
  shows "url_settle er st u i = url_settle er st v i"
proof -
  have c: "url_core u = url_core v" and o: "path_state st \<longrightarrow> u_offpath u = u_offpath v" using assms(1) by (simp_all add: url_sim_def)
  have e: "fst (url_settle er st u i) = fst (url_settle er st v i)" by (rule settle_code [OF c])
  have s: "snd (url_settle er st w i) = (if fst (url_settle er st w i) \<noteq> FFURL_EMORE \<and> \<not> (st = iPath \<or> st = iQs)
      then w\<lparr>u_idx := st, u_len := word_of_nat i, u_offpath := word_of_nat i\<rparr> else w\<lparr>u_idx := st, u_len := word_of_nat i\<rparr>)" for w
    by (simp add: url_settle_def Let_def)
  have "snd (url_settle er st u i) = snd (url_settle er st v i)"
    unfolding s using assms(2) e o core_update [OF c] by (auto simp: path_state_def)
  then show ?thesis using e by (simp add: prod_eq_iff)
qed

lemma settle_started:
  assumes "url_settle FFURL_EOK st u i = (er, v)" "er = FFURL_EOK \<or> er = FFURL_EMORE"
  shows "u_idx v = st \<and> u_len v = word_of_nat i \<and> url_sim st u v"
  using assms by (auto simp: url_settle_def url_sim_def core_fields path_state_def Let_def split: if_splits)

text \<open>
  C28: The parser may be called as the text arrives: after a first call on a prefix that ended in "ok" or "more data",
  the call on the whole text gives the same code, and the same structure, as one call on the whole text (when the
  code is "more data" nothing but the offset of the path may differ, which is not yet set then).
\<close>

theorem ffurl_parse_incremental:
  assumes a: "ffurl_parse url a = (er, u)" "er = FFURL_EOK \<or> er = FFURL_EMORE"
    and l: "unat (u_len url) \<le> length a" "length a < 65536"
  shows "fst (ffurl_parse u (a @ b)) = fst (ffurl_parse url (a @ b))
    \<and> (fst (ffurl_parse u (a @ b)) \<noteq> FFURL_EMORE \<longrightarrow> ffurl_parse u (a @ b) = ffurl_parse url (a @ b))"
proof -
  obtain er1 st v i where run: "url_loop a (unat (u_len url)) (u_idx url) url = (er1, st, v, i)"
    by (cases "url_loop a (unat (u_len url)) (u_idx url) url") auto
  have p: "url_settle er1 st v i = (er, u)" using a(1) parse_settle [OF run] by simp
  have "er1 = FFURL_EOK" using p a(2) loop_error [OF run] by (auto simp: url_settle_def Let_def split: if_splits)
  then have run: "url_loop a (unat (u_len url)) (u_idx url) url = (FFURL_EOK, st, v, i)"
    and p: "url_settle FFURL_EOK st v i = (er, u)" using run p by simp_all
  have i: "i = length a" and whole: "url_loop (a @ b) (unat (u_len url)) (u_idx url) url = url_loop (a @ b) (length a) st v"
    using loop_prefix [OF run l(1)] by simp_all
  have u: "u_idx u = st" "unat (u_len u) = length a" "url_sim st v u"
    using settle_started [OF p a(2)] l(2) by (simp_all add: i unat16)
  obtain er2 st2 v2 j where r2: "url_loop (a @ b) (length a) st v = (er2, st2, v2, j)"
    by (cases "url_loop (a @ b) (length a) st v") auto
  obtain v3 where r3: "url_loop (a @ b) (length a) st u = (er2, st2, v3, j)" and sim: "url_sim st2 v2 v3"
    using loop_sim [OF u(3) r2] by blast
  have 1: "ffurl_parse url (a @ b) = url_settle er2 st2 v2 j" by (rule parse_settle) (simp add: whole r2)
  have 2: "ffurl_parse u (a @ b) = url_settle er2 st2 v3 j" by (rule parse_settle) (simp add: u r3)
  have c: "fst (url_settle er2 st2 v3 j) = fst (url_settle er2 st2 v2 j)"
    using settle_code sim unfolding url_sim_def by metis
  then show ?thesis unfolding 1 2 using settle_sim [OF sim, of er2 j] by metis
qed

text \<open>\<open>/a\<close> and then \<open>b?c\<close>.\<close>

lemma ffurl_parse_incremental_witness:
  "fst (ffurl_parse ffurl_init [47, 97, 98, 63, 99]) = FFURL_EOK
    \<and> ffurl_parse (snd (ffurl_parse ffurl_init [47, 97])) [47, 97, 98, 63, 99] = ffurl_parse ffurl_init [47, 97, 98, 63, 99]"
proof -
  have "fst (ffurl_parse ffurl_init [47, 97]) = FFURL_EOK" by code_simp
  then have a: "ffurl_parse ffurl_init [47, 97] = (FFURL_EOK, snd (ffurl_parse ffurl_init [47, 97]))"
    by (metis prod.collapse)
  have ok: "fst (ffurl_parse ffurl_init [47, 97, 98, 63, 99]) = FFURL_EOK" by code_simp
  note r = ffurl_parse_incremental [OF a, of "[98, 63, 99]", simplified append_Cons append_Nil]
  have "fst (ffurl_parse (snd (ffurl_parse ffurl_init [47, 97])) [47, 97, 98, 63, 99]) = FFURL_EOK"
    using r ok by (simp add: ffurl_init_def)
  then show ?thesis using r ok by (simp add: ffurl_init_def)
qed

section \<open>Escaping and back\<close>

text \<open>
  C29: Percent-encoding any text without a zero byte, with room for it, gives the length that is
  announced when there is no destination, and decoding it gives the text back, for every class of characters that is escaped.
\<close>

theorem ffuri_escape_decode:
  assumes ty: "ty < 3" and s: "0 \<notin> set s" and cap: "snd (ffuri_escape None s ty) \<le> int cap" and dcap: "length s \<le> dcap"
    and fl: "\<not> has_flag flags FFURI_DEC_NORM_PATH"
  shows "\<exists>e. ffuri_escape (Some cap) s ty = (e, snd (ffuri_escape None s ty)) \<and> int (length e) = snd (ffuri_escape None s ty)
    \<and> ffuri_decode dcap e flags = s"
proof -
  define m where "m = uri_encode_types ! ty"
  have ty': "ty < length uri_encode_types" using ty by (simp add: uri_encode_types_def)
  then have m: "m \<in> set uri_encode_types" by (simp add: m_def)
  have n: "snd (ffuri_escape None s ty) = int (length (uri_text m s))"
    using ty' by (simp add: ffuri_escape_def m_def Let_def uri_text_size)
  have e: "ffuri_escape (Some cap) s ty = (uri_text m s, int (length (uri_text m s)))"
    using ty' cap n uriesc_loop_room [of m s cap 0] by (simp add: ffuri_escape_def m_def Let_def)
  have "uri_loop dcap flags (uri_text m s) dUri 0 [] = Some (dUri, s)"
    using uri_loop_text [OF m s, of "[]" dcap flags 0] dcap by simp
  then have "ffuri_decode dcap (uri_text m s) flags = s" using fl by (simp add: ffuri_decode_def)
  then show ?thesis using e n by auto
qed

lemma ffuri_escape_decode_witness:
  "\<exists>e. ffuri_escape (Some 20) [97, 32, 37, 255] 0 = (e, snd (ffuri_escape None [97, 32, 37, 255] 0))
    \<and> int (length e) = snd (ffuri_escape None [97, 32, 37, 255] 0) \<and> ffuri_decode 4 e 0 = [97, 32, 37, 255]"
proof (rule ffuri_escape_decode)
  show "snd (ffuri_escape None [97, 32, 37, 255] 0) \<le> int 20" by code_simp
  show "\<not> has_flag 0 FFURI_DEC_NORM_PATH" by code_simp
qed simp_all


text \<open>A value of a query string, encoded for it, is read back up to the next \<open>&\<close>, unless it has a plus sign.\<close>

lemma qsseg_special: "\<not> mask_has uriesc_qsseg 38" "\<not> mask_has uriesc_qsseg 37" "mask_has uriesc_qsseg 43"
  by code_simp+

lemma qs_process_escaped:
  assumes "\<not> mask_has uriesc_qsseg c"
  shows "qs_process buf (uri_text uriesc_qsseg (c # s) @ r) = Some (buf @ [c], uri_text uriesc_qsseg s @ r)"
proof -
  define hi lo where "hi = unat (drop_bit 4 c)" and "lo = unat (c AND 15)"
  have h: "ffchar_tohex (sint (ffHEX ! hi)) = int hi" "ffchar_tohex (sint (ffHEX ! lo)) = int lo"
    using nibble_lt [of c] hex_digit_back by (simp_all add: hi_def lo_def)
  have w: "of_int (push_bit 4 (int hi) OR int lo) = c" using nibbles [of c] by (simp add: hi_def lo_def)
  have "uri_text uriesc_qsseg (c # s) = 37 # ffHEX ! hi # ffHEX ! lo # uri_text uriesc_qsseg s"
    using assms by (simp add: ffs_hexbyte_def hi_def lo_def)
  then show ?thesis using h w by (simp add: qs_process_def del: of_int_or_eq)
qed

lemma qs_step_value:
  assumes p: "qs_process (if st = qs_val_start then [] else buf) (c # d) = Some (buf', d')" and st: "st = qs_val_start \<or> st = qs_val" and c: "c \<noteq> 38"
  shows "qs_loop (c # d) st ch buf = qs_loop d' qs_val (ch + 1) buf'"
  using p st c by (auto simp: qs_loop.simps [of "c # d"] Let_def)

lemma qs_value_run:
  "43 \<notin> set s \<Longrightarrow> st = qs_val_start \<or> st = qs_val \<Longrightarrow>
    \<exists>ch'. qs_loop (uri_text uriesc_qsseg s @ 38 # rest) st ch buf =
      Some (QS_VAL, qs_key_start, ch', (if st = qs_val_start then [] else buf) @ s, rest)"
proof (induction s arbitrary: st ch buf)
  case Nil
  then show ?case by (intro exI [of _ "ch + 1"]) (auto simp: qs_loop.simps [of "38 # rest"] Let_def)
next
  case (Cons c s)
  define b0 where "b0 = (if st = qs_val_start then [] else buf)"
  define r where "r = uri_text uriesc_qsseg s @ 38 # rest"
  obtain k d where kd: "uri_text uriesc_qsseg (c # s) @ 38 # rest = k # d" "k \<noteq> 38"
    and p: "qs_process b0 (k # d) = Some (b0 @ [c], r)"
  proof (cases "mask_has uriesc_qsseg c")
    case True
    then have "c \<noteq> 38" "c \<noteq> 37" "c \<noteq> 43" using qsseg_special Cons.prems by auto
    then show thesis using True that [of c r] by (simp add: r_def qs_process_def)
  next
    case False
    have "qs_process b0 (uri_text uriesc_qsseg (c # s) @ 38 # rest) = Some (b0 @ [c], r)"
      unfolding r_def by (rule qs_process_escaped [OF False])
    then show thesis using that [of 37] False by simp
  qed
  have "qs_loop (k # d) st ch buf = qs_loop r qs_val (ch + 1) (b0 @ [c])"
    using qs_step_value [OF p [unfolded b0_def] Cons.prems(2) kd(2)] by (simp add: b0_def)
  moreover obtain ch' where "qs_loop r qs_val (ch + 1) (b0 @ [c]) = Some (QS_VAL, qs_key_start, ch', (b0 @ [c]) @ s, rest)"
    using Cons.IH [of qs_val "ch + 1" "b0 @ [c]"] Cons.prems(1) by (auto simp: r_def)
  ultimately show ?case unfolding kd(1) b0_def [symmetric] by auto
qed

text \<open>
  A value of a query string that has no plus sign, encoded for a query string and followed by the next
  pair, is read back by the query string parser as it was, and the rest of the text is the next pair.
\<close>

theorem ffurlqs_value_roundtrip:
  assumes "43 \<notin> set s" "qs_st p = qs_val_start" "snd (ffuri_escape None s 2) \<le> int cap"
  shows "\<exists>p'. ffurlqs_parse p (fst (ffuri_escape (Some cap) s 2) @ 38 # rest) = Some (QS_VAL, p', rest)
    \<and> qs_valbuf p' = s \<and> qs_st p' = qs_key_start"
proof -
  have m: "uri_encode_types ! 2 = uriesc_qsseg" "2 < length uri_encode_types" by (simp_all add: uri_encode_types_def)
  have n: "snd (ffuri_escape None s 2) = int (length (uri_text uriesc_qsseg s))"
    using m by (simp add: ffuri_escape_def Let_def uri_text_size)
  have e: "fst (ffuri_escape (Some cap) s 2) = uri_text uriesc_qsseg s"
    using m assms(3) n uriesc_loop_room [of uriesc_qsseg s cap 0] by (simp add: ffuri_escape_def Let_def)
  obtain ch where "qs_loop (uri_text uriesc_qsseg s @ 38 # rest) (qs_st p) (qs_ch p) (qs_valbuf p) = Some (QS_VAL, qs_key_start, ch, s, rest)"
    using qs_value_run [OF assms(1), of "qs_st p" rest "qs_ch p" "qs_valbuf p"] assms(2) by auto
  then show ?thesis by (simp add: ffurlqs_parse_def e)
qed

lemma ffurlqs_value_roundtrip_witness:
  "\<exists>p'. ffurlqs_parse (ffurlqs_parseinit\<lparr>qs_st := qs_val_start\<rparr>) (fst (ffuri_escape (Some 9) [38, 32] 2) @ 38 # [97]) = Some (QS_VAL, p', [97])
    \<and> qs_valbuf p' = [38, 32] \<and> qs_st p' = qs_key_start"
proof (rule ffurlqs_value_roundtrip)
  show "snd (ffuri_escape None [38, 32] 2) \<le> int 9" by code_simp
qed simp_all

text \<open>A plus sign is not encoded, and is read back as a space.\<close>

lemma ffurlqs_plus_lost:
  "ffuri_escape (Some 1) [43] 2 = ([43], 1) \<and> qs_process [] (fst (ffuri_escape (Some 1) [43] 2)) = Some ([32], [])"
  by code_simp

text \<open>A host of 256 chars passes the length check, but its length is counted in a byte: the host is then "bad".\<close>

lemma ffurl_host_256:
  assumes "\<forall>c\<in>set host. host_char c" "length host = 256"
  shows "fst (ffurl_parse ffurl_init (host @ [47])) = FFURL_EHOST"
proof -
  have ne: "host \<noteq> []" using assms(2) by auto
  obtain v where r: "url_loop ([] @ host @ [47]) (length []) iHostStart ffurl_init = url_loop ([] @ host @ [47]) (length ([] @ host)) iHost
      (ffurl_init\<lparr>u_hostlen := u_hostlen ffurl_init + word_of_nat (length host), u_ipv4 := v\<rparr>)"
    using host_all [OF ne assms(1), of ffurl_init "[]" "[47]"] assms(2) by (auto simp: ffurl_init_def)
  define u where "u = ffurl_init\<lparr>u_ipv4 := v\<rparr>"
  have z: "ffurl_init\<lparr>u_hostlen := u_hostlen ffurl_init + word_of_nat (length host), u_ipv4 := v\<rparr> = u"
    using assms(2) by (simp add: u_def ffurl_init_def)
  have "url_loop (host @ [47]) 0 iHostStart ffurl_init = url_loop (host @ [47]) (length host) iHost u"
    using r unfolding z by simp
  also have "\<dots> = (FFURL_EHOST, iHost, u, length host)"
    using host_char_special(2)
    by (simp add: url_loop.simps [of _ "length host"] url_step_def url_host_def host_char_def u_def ffurl_init_def)
  finally show ?thesis by (simp add: ffurl_parse_def ffurl_init_def u_def)
qed

end
