(* ===== verification/FF_Dns.thy ===== *)
theory FF_Dns
  imports FF_Utf8
begin

text \<open>
  DNS messages: \<open>net/dns.h\<close> and \<open>net/ffdns.c\<close>. Names with compressed labels are read from a message, names are
  written, headers, questions and answers are converted between their wire format and records of numbers. A message is the
  list of its bytes, a position is an offset into it.
\<close>

unbundle bit_operations_syntax

section \<open>Numbers on the wire\<close>

definition ffint_hton16 :: "u16 \<Rightarrow> bytes" where
  "ffint_hton16 i = [ucast (drop_bit 8 i), ucast i]"

definition ffint_ntoh32 :: "bytes \<Rightarrow> u32" where
  "ffint_ntoh32 b = push_bit 24 (ucast (b ! 0)) OR push_bit 16 (ucast (b ! 1)) OR push_bit 8 (ucast (b ! 2)) OR ucast (b ! 3)"

section \<open>Header, question, answer\<close>

definition FFDNS_MAXLABEL :: nat where "FFDNS_MAXLABEL = 63"

definition FFDNS_OPT :: u8 where "FFDNS_OPT = 41"

definition FFDNS_IN :: u16 where "FFDNS_IN = 1"

text \<open>The header of a query: its 12 bytes. The flag is a field of one bit.\<close>

definition ffdns_initquery :: "u32 \<Rightarrow> u32 \<Rightarrow> bytes" where
  "ffdns_initquery txid recursive = ffint_hton16 (ucast txid) @ [ucast (recursive AND 1), 0] @ [0, 1] @ replicate 6 0"

definition ffdns_optinit :: "u32 \<Rightarrow> bytes" where
  "ffdns_optinit udpsize = [0, FFDNS_OPT] @ ffint_hton16 (ucast udpsize) @ replicate 6 0"

record ffdns_hdr_host =
  hh_id :: u32
  hh_rcode :: u32
  hh_qdcount :: u32
  hh_ancount :: u32
  hh_nscount :: u32
  hh_arcount :: u32

record ffdns_ques_host =
  qh_type :: u32
  qh_clas :: u32

text \<open>\<open>data\<close> is the offset of the data behind the answer.\<close>

record ffdns_ans_host =
  ah_data :: nat
  ah_type :: u32
  ah_clas :: u32
  ah_ttl :: u32
  ah_len :: u32

definition ffdns_hdrtohost :: "bytes \<Rightarrow> ffdns_hdr_host" where
  "ffdns_hdrtohost net =
     \<lparr>hh_id = ffint_ntoh16 (net ! 0) (net ! 1), hh_rcode = ucast (net ! 3 AND 0x0f),
      hh_qdcount = ffint_ntoh16 (net ! 4) (net ! 5), hh_ancount = ffint_ntoh16 (net ! 6) (net ! 7),
      hh_nscount = ffint_ntoh16 (net ! 8) (net ! 9), hh_arcount = ffint_ntoh16 (net ! 10) (net ! 11)\<rparr>"

definition ffdns_questohost :: "bytes \<Rightarrow> ffdns_ques_host" where
  "ffdns_questohost net = \<lparr>qh_type = ffint_ntoh16 (net ! 0) (net ! 1), qh_clas = ffint_ntoh16 (net ! 2) (net ! 3)\<rparr>"

definition ffdns_anstohost :: "bytes \<Rightarrow> ffdns_ans_host" where
  "ffdns_anstohost net =
     (let ttl = ffint_ntoh32 (take 4 (drop 4 net)) in
      \<lparr>ah_data = 10, ah_type = ffint_ntoh16 (net ! 0) (net ! 1), ah_clas = ffint_ntoh16 (net ! 2) (net ! 3),
       ah_ttl = (if sint ttl < 0 then 0 else ttl), ah_len = ffint_ntoh16 (net ! 8) (net ! 9)\<rparr>)"

section \<open>Names\<close>

text \<open>The loop of \<open>ffdns_skipname\<close>: the position, which may pass the end.\<close>

function skip_loop :: "bytes \<Rightarrow> nat \<Rightarrow> nat" where
  "skip_loop m p =
     (if p < length m then
        let b = m ! p in
        if b AND 0xc0 \<noteq> 0 then p + 2
        else if b = 0 then p + (1 + unat b)
        else skip_loop m (p + (1 + unat b))
      else p)"
  by pat_completeness auto
termination by (relation "measure (\<lambda>(m, p). length m - p)") auto

declare skip_loop.simps [simp del]

definition ffdns_skipname :: "bytes \<Rightarrow> nat \<Rightarrow> nat" where
  "ffdns_skipname m pos = (let p = skip_loop m pos in if length m < p then length m else p)"

definition MAX_JUMPS :: nat where "MAX_JUMPS = 128"

text \<open>
  The return value, the name written and the new position. \<open>sz\<close> is what is left of a label, \<open>nm\<close> the bytes written,
  \<open>j\<close> the jumps left. \<open>None\<close> is a write past the end of the buffer. The position a caller starts from lies in the message or at its end: the code
  compares it with the end for equality only, and all positions that it goes to by itself are checked.
\<close>

function name_loop :: "bytes \<Rightarrow> nat \<Rightarrow> nat \<Rightarrow> nat \<Rightarrow> bytes \<Rightarrow> nat \<Rightarrow> nat \<Rightarrow> (nat \<times> bytes \<times> nat) option" where
  "name_loop m cap p sz nm j pos =
     (if length m \<le> p then Some (0, nm, pos)
      else
        let b = m ! p in
        if sz = 0 then
          if b = 0 then Some (length nm, nm, if j = MAX_JUMPS then p + 1 else pos)
          else if b AND 0xc0 = 0 then
            (if FFDNS_MAXLABEL < unat b then Some (0, nm, pos) else name_loop m cap (p + 1) (unat b) nm j pos)
          else if p + 1 = length m \<or> j = 0 then Some (0, nm, pos)
          else
            let pos = (if j = MAX_JUMPS then p + 2 else pos);
                off = unat (push_bit 8 (ucast (b AND 0x3f)) OR ucast (m ! (p + 1)) :: u32) in
            if length m \<le> off then Some (0, nm, pos) else name_loop m cap off 0 nm (j - 1) pos
        else if cap \<le> length nm then None
        else
          let nm = nm @ [b];
              nm = (if sz - 1 = 0 \<and> length nm \<noteq> cap then nm @ [46] else nm) in
          if length nm = cap then Some (0, nm, pos) else name_loop m cap (p + 1) (sz - 1) nm j pos)"
  by pat_completeness auto
termination by (relation "measures [\<lambda>(m, cap, p, sz, nm, j, pos). j, \<lambda>(m, cap, p, sz, nm, j, pos). length m - p]") auto

declare name_loop.simps [simp del]

definition ffdns_name :: "nat \<Rightarrow> bytes \<Rightarrow> nat \<Rightarrow> (nat \<times> bytes \<times> nat) option" where
  "ffdns_name cap m pos = name_loop m cap pos 0 [] MAX_JUMPS pos"

text \<open>
  The loop of \<open>ffdns_encodename\<close> runs from the end of the name to its start: \<open>r\<close> is the name reversed, \<open>out\<close> what is
  written from the back.
\<close>

fun encode_loop :: "bytes \<Rightarrow> nat \<Rightarrow> bytes \<Rightarrow> bytes option" where
  "encode_loop [] sz out = (if sz = 0 then None else Some (word_of_nat sz # out))"
| "encode_loop (c # r) sz out =
     (if c = 46 then (if sz = 0 then None else encode_loop r 0 (word_of_nat sz # out))
      else if sz = FFDNS_MAXLABEL then None
      else encode_loop r (sz + 1) (c # out))"

text \<open>The bytes written; none on error.\<close>

definition ffdns_encodename :: "nat \<Rightarrow> bytes \<Rightarrow> bytes" where
  "ffdns_encodename cap name =
     (if name = [] then []
      else if cap < length name + 1 then []
      else if name ! 0 = 46 \<and> length name = 1 then [0]
      else
        let r = rev name;
            (r, out) = (if r ! 0 = 46 then (tl r, [0]) else (r, [])) in
        case encode_loop r 0 out of None \<Rightarrow> [] | Some out \<Rightarrow> out)"

definition ffdns_addquery :: "nat \<Rightarrow> bytes \<Rightarrow> u32 \<Rightarrow> bytes" where
  "ffdns_addquery cap name type =
     (let p = ffdns_encodename cap name in
      if length p = 0 then []
      else if cap < length p + 4 + 1 then []
      else (if last name \<noteq> 46 then p @ [0] else p) @ ffint_hton16 (ucast type) @ ffint_hton16 FFDNS_IN)"

definition ffdns_errstr :: "u32 \<Rightarrow> string" where
  "ffdns_errstr code =
     (if 5 < unat code then ''unknown''
      else [''ok'', ''bad format'', ''server fail'', ''not found'', ''not implemented'', ''refused''] ! unat code)"

section \<open>What a name in a message is\<close>

text \<open>The name of the labels, each followed by a dot.\<close>

definition name_text :: "bytes list \<Rightarrow> bytes" where
  "name_text ls = concat (map (\<lambda>l. l @ [46]) ls)"

lemma name_text_simps [simp]: "name_text [] = []" "name_text (l # ls) = l @ 46 # name_text ls"
  by (simp_all add: name_text_def)

definition jump_to :: "u8 \<Rightarrow> u8 \<Rightarrow> nat" where
  "jump_to b c = unat (push_bit 8 (ucast (b AND 0x3f)) OR ucast c :: u32)"

text \<open>The labels at a position, and the jumps that lead to the last of them.\<close>

inductive dns_labels :: "bytes \<Rightarrow> nat \<Rightarrow> nat \<Rightarrow> bytes list \<Rightarrow> bool" for m where
  root: "p < length m \<Longrightarrow> m ! p = 0 \<Longrightarrow> dns_labels m p 0 []"
| label: "p < length m \<Longrightarrow> m ! p \<noteq> 0 \<Longrightarrow> m ! p AND 0xc0 = 0 \<Longrightarrow> n = unat (m ! p) \<Longrightarrow>
    dns_labels m (p + 1 + n) k ls \<Longrightarrow> dns_labels m p k (take n (drop (p + 1) m) # ls)"
| jump: "p + 1 < length m \<Longrightarrow> m ! p AND 0xc0 \<noteq> 0 \<Longrightarrow> dns_labels m (jump_to (m ! p) (m ! (p + 1))) k ls \<Longrightarrow>
    dns_labels m p (k + 1) ls"

lemma dns_labels_inside: "dns_labels m p k ls \<Longrightarrow> p < length m"
  by (induction rule: dns_labels.induct) auto

lemma small_label:
  assumes "(b :: u8) AND 0xc0 = 0"
  shows "unat b < 64"
proof -
  have "bit (b AND 0xc0) 6 = bit b 6" "bit (b AND 0xc0) 7 = bit b 7" by (simp_all add: bit_and_iff)
  then have z: "\<not> bit b 6" "\<not> bit b 7" using assms by simp_all
  have "\<not> bit b k" if "6 \<le> k" for k
  proof -
    consider "k = 6" | "k = 7" | "8 \<le> k" using \<open>6 \<le> k\<close> by linarith
    then show ?thesis using z by cases auto
  qed
  then have "take_bit 6 b = b" by (intro bit_word_eqI) (metis bit_take_bit_iff not_le)
  then have "unat b = unat (take_bit 6 b)" by simp
  also have "\<dots> < 2 ^ 6" unfolding unsigned_take_bit_eq by (rule take_bit_nat_less_exp)
  finally show ?thesis by simp
qed

text \<open>A label is copied whole with a dot behind it, or the call fails.\<close>

lemma label_run:
  assumes "0 < n" "0 < cap"
  shows "p + n \<le> length m \<Longrightarrow> length nm + n + 1 < cap \<Longrightarrow>
    name_loop m cap p n nm j pos = name_loop m cap (p + n) 0 (nm @ take n (drop p m) @ [46]) j pos"
  using assms
proof (induction n arbitrary: p nm)
  case (Suc n)
  have p: "p < length m" "drop p m = m ! p # drop (p + 1) m" using Suc.prems by (simp_all add: Cons_nth_drop_Suc)
  show ?case
  proof (cases "n = 0")
    case True
    then show ?thesis using p Suc.prems by (subst name_loop.simps) (simp add: Let_def)
  next
    case False
    have "name_loop m cap p (Suc n) nm j pos = name_loop m cap (p + 1) n (nm @ [m ! p]) j pos"
      using p Suc.prems False by (subst name_loop.simps) (simp add: Let_def)
    also have "\<dots> = name_loop m cap (p + 1 + n) 0 ((nm @ [m ! p]) @ take n (drop (p + 1) m) @ [46]) j pos"
      using Suc.prems False by (intro Suc.IH) auto
    finally show ?thesis using p by simp
  qed
qed simp

lemma name_loop_reads:
  "dns_labels m p k ls \<Longrightarrow> k \<le> j \<Longrightarrow> j \<le> MAX_JUMPS \<Longrightarrow> length nm + length (name_text ls) < cap \<Longrightarrow>
    name_loop m cap p 0 nm j pos =
      Some (length nm + length (name_text ls), nm @ name_text ls, if j = MAX_JUMPS then skip_loop m p else pos)"
proof (induction arbitrary: nm j pos rule: dns_labels.induct)
  case (root p)
  then show ?case by (subst name_loop.simps, subst skip_loop.simps) simp
next
  case (label p n k ls)
  have n: "n < 64" "0 < n" using label.hyps small_label by (auto simp: unat_gt_0)
  have inside: "p + 1 + n < length m" using dns_labels_inside [OF label.hyps(5)] by simp
  have "name_loop m cap p 0 nm j pos = name_loop m cap (p + 1) n nm j pos"
    using label.hyps n by (subst name_loop.simps) (simp add: Let_def FFDNS_MAXLABEL_def)
  also have "\<dots> = name_loop m cap (p + 1 + n) 0 (nm @ take n (drop (p + 1) m) @ [46]) j pos"
    using inside n label.prems by (intro label_run) auto
  also have "\<dots> = Some (length (nm @ take n (drop (p + 1) m) @ [46]) + length (name_text ls),
      (nm @ take n (drop (p + 1) m) @ [46]) @ name_text ls, if j = MAX_JUMPS then skip_loop m (p + 1 + n) else pos)"
    using label.prems inside by (intro label.IH) auto
  moreover have "skip_loop m p = skip_loop m (p + 1 + n)"
    using label.hyps by (subst skip_loop.simps) (simp add: Let_def add.assoc)
  ultimately show ?case using inside by simp
next
  case (jump p k ls)
  have b: "m ! p \<noteq> 0" using jump.hyps(2) by auto
  have t: "jump_to (m ! p) (m ! (p + 1)) < length m" using dns_labels_inside [OF jump.hyps(3)] .
  have "name_loop m cap p 0 nm j pos = name_loop m cap (jump_to (m ! p) (m ! (p + 1))) 0 nm (j - 1)
      (if j = MAX_JUMPS then p + 2 else pos)"
    using jump.hyps jump.prems b t by (subst name_loop.simps) (simp add: Let_def jump_to_def)
  also have "\<dots> = Some (length nm + length (name_text ls), nm @ name_text ls,
      if j - 1 = MAX_JUMPS then skip_loop m (jump_to (m ! p) (m ! (p + 1))) else (if j = MAX_JUMPS then p + 2 else pos))"
    using jump.prems by (intro jump.IH) auto
  moreover have "skip_loop m p = p + 2" using jump.hyps by (subst skip_loop.simps) simp
  moreover have "j - 1 \<noteq> MAX_JUMPS" using jump.prems by simp
  ultimately show ?case by simp
qed


lemma skip_inside: "dns_labels m p k ls \<Longrightarrow> skip_loop m p \<le> length m"
proof (induction rule: dns_labels.induct)
  case (label p n k ls)
  then show ?case by (subst skip_loop.simps) (simp add: Let_def add.assoc)
qed (subst skip_loop.simps, simp)+

lemma name_loop_sound:
  "name_loop m cap p sz nm j pos = Some (n, nm', pos') \<Longrightarrow> 0 < n \<Longrightarrow> length nm < cap \<Longrightarrow>
    \<exists>ls k. k \<le> j \<and> dns_labels m (p + sz) k ls \<and> n = length nm' \<and> n < cap
      \<and> nm' = nm @ take sz (drop p m) @ (if sz = 0 then [] else [46]) @ name_text ls"
proof (induction m cap p sz nm j pos arbitrary: n nm' pos' rule: name_loop.induct)
  case (1 m cap p sz nm j pos)
  have p: "p < length m" using 1(4,5) by (subst (asm) name_loop.simps) (auto split: if_splits)
  show ?case
  proof (cases "sz = 0")
    case z: True
    show ?thesis
    proof (cases "m ! p = 0")
      case True
      then have "n = length nm" "nm' = nm" using 1(4) p z by (subst (asm) name_loop.simps; simp)+
      then show ?thesis using root [OF p True] 1(6) z by (intro exI [of _ "[]"] exI [of _ 0]) simp
    next
      case nz: False
      show ?thesis
      proof (cases "m ! p AND 0xc0 = 0")
        case True
        have n: "unat (m ! p) \<noteq> 0" "unat (m ! p) < 64" using nz small_label [OF True] by (simp_all add: unat_eq_zero)
        have step: "name_loop m cap (p + 1) (unat (m ! p)) nm j pos = Some (n, nm', pos')"
          using 1(4) p z nz True n by (subst (asm) name_loop.simps) (simp add: Let_def FFDNS_MAXLABEL_def)
        have "\<exists>ls k. k \<le> j \<and> dns_labels m (p + 1 + unat (m ! p)) k ls \<and> n = length nm' \<and> n < cap
          \<and> nm' = nm @ take (unat (m ! p)) (drop (p + 1) m) @ (if unat (m ! p) = 0 then [] else [46]) @ name_text ls"
          using p n 1(5,6) by (intro 1(1) [OF _ refl z nz True _ step]) (simp_all add: FFDNS_MAXLABEL_def)
        then obtain ls k where "k \<le> j" "dns_labels m (p + 1 + unat (m ! p)) k ls" "n = length nm'" "n < cap"
          "nm' = nm @ take (unat (m ! p)) (drop (p + 1) m) @ [46] @ name_text ls"
          unfolding if_not_P [OF n(1)] by blast
        then show ?thesis using label [OF p nz True refl] z
          by (intro exI [of _ "take (unat (m ! p)) (drop (p + 1) m) # ls"] exI [of _ k]) simp
      next
        case False
        have j: "p + 1 \<noteq> length m" "j \<noteq> 0" "jump_to (m ! p) (m ! (p + 1)) < length m"
          using 1(4,5) p z nz False by (subst (asm) name_loop.simps; auto simp: Let_def jump_to_def split: if_splits)+
        have step: "name_loop m cap (jump_to (m ! p) (m ! (p + 1))) 0 nm (j - 1) (if j = MAX_JUMPS then p + 2 else pos) = Some (n, nm', pos')"
          using 1(4) p z nz False j by (subst (asm) name_loop.simps) (simp add: Let_def jump_to_def)
        have "\<exists>ls k. k \<le> j - 1 \<and> dns_labels m (jump_to (m ! p) (m ! (p + 1)) + 0) k ls \<and> n = length nm' \<and> n < cap
          \<and> nm' = nm @ take 0 (drop (jump_to (m ! p) (m ! (p + 1))) m) @ (if (0 :: nat) = 0 then [] else [46]) @ name_text ls"
          using p j 1(5,6) step unfolding jump_to_def add_0_right
          by (intro 1(2) [OF _ refl z nz False _ refl refl, simplified add_0_right]) simp_all
        then obtain ls k where l: "k \<le> j - 1" "dns_labels m (jump_to (m ! p) (m ! (p + 1))) k ls" "n = length nm'" "n < cap"
          "nm' = nm @ name_text ls"
          by auto
        then show ?thesis using jump [OF _ False l(2)] p j z by (intro exI [of _ ls] exI [of _ "k + 1"]) simp
      qed
    qed
  next
    case False
    define nm1 where "nm1 = (if sz - 1 = 0 \<and> length (nm @ [m ! p]) \<noteq> cap then (nm @ [m ! p]) @ [46] else nm @ [m ! p])"
    have c: "length nm1 \<noteq> cap"
      using 1(4,5) p False 1(6) unfolding nm1_def by (subst (asm) name_loop.simps) (auto simp: Let_def split: if_splits)
    have step: "name_loop m cap (p + 1) (sz - 1) nm1 j pos = Some (n, nm', pos')"
      using 1(4) p False c 1(6) unfolding nm1_def by (subst (asm) name_loop.simps) (simp add: Let_def)
    have "length nm1 < cap" using c 1(6) by (auto simp: nm1_def split: if_splits)
    then have "\<exists>ls k. k \<le> j \<and> dns_labels m (p + 1 + (sz - 1)) k ls \<and> n = length nm' \<and> n < cap
        \<and> nm' = nm1 @ take (sz - 1) (drop (p + 1) m) @ (if sz - 1 = 0 then [] else [46]) @ name_text ls"
      using p c 1(5,6) by (intro 1(3) [OF _ refl False _ refl nm1_def _ step]) simp_all
    then obtain ls k where l: "k \<le> j" "dns_labels m (p + 1 + (sz - 1)) k ls" "n = length nm'" "n < cap"
        "nm' = nm1 @ take (sz - 1) (drop (p + 1) m) @ (if sz - 1 = 0 then [] else [46]) @ name_text ls" by blast
    have "drop p m = m ! p # drop (p + 1) m" using p by (simp add: Cons_nth_drop_Suc)
    then have "take sz (drop p m) = m ! p # take (sz - 1) (drop (p + 1) m)" using False by (cases sz) auto
    then have "nm' = nm @ take sz (drop p m) @ [46] @ name_text ls"
      using l(5) c 1(6) by (auto simp: nm1_def split: if_splits)
    then show ?thesis using l False by (intro exI [of _ ls] exI [of _ k]) simp
  qed
qed


lemma name_loop_safe: "length nm < cap \<Longrightarrow> name_loop m cap p sz nm j pos \<noteq> None"
proof (induction m cap p sz nm j pos rule: name_loop.induct)
  case (1 m cap p sz nm j pos)
  show ?case
  proof (cases "length m \<le> p")
    case True
    then show ?thesis by (subst name_loop.simps) simp
  next
    case p: False
    show ?thesis
    proof (cases "sz = 0")
      case z: True
      then show ?thesis using 1(1) [OF p refl z] 1(2) [OF p refl z _ _ _ refl refl] 1(4) p
        by (subst name_loop.simps) (auto simp: Let_def)
    next
      case False
      define nm1 where "nm1 = (if sz - 1 = 0 \<and> length (nm @ [m ! p]) \<noteq> cap then (nm @ [m ! p]) @ [46] else nm @ [m ! p])"
      show ?thesis
      proof (cases "length nm1 = cap")
        case True
        then show ?thesis using p False 1(4) unfolding nm1_def by (subst name_loop.simps) (simp add: Let_def)
      next
        case c: False
        have "length nm1 < cap" using c 1(4) by (auto simp: nm1_def split: if_splits)
        then have "name_loop m cap (p + 1) (sz - 1) nm1 j pos \<noteq> None"
          using 1(4) by (intro 1(3) [OF p refl False _ refl nm1_def c]) simp_all
        then show ?thesis using p False c 1(4) unfolding nm1_def by (subst name_loop.simps) (simp add: Let_def)
      qed
    qed
  qed
qed

section \<open>Writing names\<close>

text \<open>The name with dots between the labels, and its form on the wire.\<close>

fun dotted :: "bytes list \<Rightarrow> bytes" where
  "dotted [] = []"
| "dotted [l] = l"
| "dotted (l # ls) = l @ 46 # dotted ls"

definition wire :: "bytes list \<Rightarrow> bytes" where
  "wire ls = concat (map (\<lambda>l. word_of_nat (length l) # l) ls)"

lemma wire_simps [simp]: "wire [] = []" "wire (l # ls) = word_of_nat (length l) # l @ wire ls"
  by (simp_all add: wire_def)

definition label_ok :: "bytes \<Rightarrow> bool" where
  "label_ok l \<longleftrightarrow> l \<noteq> [] \<and> length l \<le> 63 \<and> 46 \<notin> set l"

lemma dotted_name: "ls \<noteq> [] \<Longrightarrow> dotted ls @ [46] = name_text ls"
  by (induction ls rule: dotted.induct) simp_all

lemma dotted_wire: "ls \<noteq> [] \<Longrightarrow> length (wire ls) = length (dotted ls) + 1"
  by (induction ls rule: dotted.induct) simp_all

lemma encode_label:
  "46 \<notin> set l \<Longrightarrow> sz + length l \<le> 63 \<Longrightarrow> encode_loop (rev l @ r) sz out = encode_loop r (sz + length l) (l @ out)"
  by (induction l arbitrary: sz out rule: rev_induct) (simp_all add: FFDNS_MAXLABEL_def)

lemma encode_dotted:
  "ls \<noteq> [] \<Longrightarrow> \<forall>l\<in>set ls. label_ok l \<Longrightarrow>
    encode_loop (rev (dotted ls) @ r) 0 out = encode_loop r (length (hd ls)) (hd ls @ wire (tl ls) @ out)"
proof (induction ls arbitrary: r rule: dotted.induct)
  case (2 l)
  then show ?case using encode_label [of l 0 r out] by (simp add: label_ok_def)
next
  case (3 l l' ls)
  have ok: "46 \<notin> set l" "length l \<le> 63" "length l' \<noteq> 0" using 3(3) by (simp_all add: label_ok_def)
  have "encode_loop (rev (dotted (l # l' # ls)) @ r) 0 out = encode_loop (rev (dotted (l' # ls)) @ 46 # rev l @ r) 0 out" by simp
  also have "\<dots> = encode_loop (46 # rev l @ r) (length l') (l' @ wire ls @ out)"
    using 3(1) [of "46 # rev l @ r"] 3(3) by simp
  also have "\<dots> = encode_loop (rev l @ r) 0 (wire (l' # ls) @ out)" using ok by simp
  also have "\<dots> = encode_loop r (length l) (l @ wire (l' # ls) @ out)" using encode_label ok by simp
  finally show ?case by simp
qed simp

lemma last_dotted: "ls \<noteq> [] \<Longrightarrow> \<forall>l\<in>set ls. label_ok l \<Longrightarrow> dotted ls \<noteq> [] \<and> last (dotted ls) \<noteq> 46"
proof (induction ls rule: dotted.induct)
  case (2 l)
  then show ?case unfolding label_ok_def by (metis dotted.simps(2) last_in_set list.set_intros(1))
qed (auto simp: label_ok_def)

lemma hd_dotted: "ls \<noteq> [] \<Longrightarrow> \<forall>l\<in>set ls. label_ok l \<Longrightarrow> dotted ls ! 0 \<noteq> 46"
proof (induction ls rule: dotted.induct)
  case (2 l)
  then show ?case by (cases l) (auto simp: label_ok_def)
next
  case (3 l l' ls)
  then show ?case by (cases l) (auto simp: label_ok_def)
qed simp

lemma encode_names:
  assumes "ls \<noteq> []" "\<forall>l\<in>set ls. label_ok l"
  shows "length (dotted ls) < cap \<Longrightarrow> ffdns_encodename cap (dotted ls) = wire ls"
    and "length (dotted ls) + 1 < cap \<Longrightarrow> ffdns_encodename cap (dotted ls @ [46]) = wire ls @ [0]"
proof -
  have run: "encode_loop (rev (dotted ls)) 0 out = Some (wire ls @ out)" for out
    using encode_dotted [OF assms, of "[]" out] assms by (cases ls) (auto simp: label_ok_def)
  have "dotted ls \<noteq> [] \<Longrightarrow> rev (dotted ls) ! 0 = last (dotted ls)" by (simp add: rev_nth last_conv_nth)
  then have ne: "dotted ls \<noteq> []" "rev (dotted ls) ! 0 \<noteq> 46" "dotted ls ! 0 \<noteq> 46"
    using last_dotted [OF assms] hd_dotted [OF assms] by simp_all
  show "length (dotted ls) < cap \<Longrightarrow> ffdns_encodename cap (dotted ls) = wire ls"
    using ne run [of "[]"] by (simp add: ffdns_encodename_def)
  show "length (dotted ls) + 1 < cap \<Longrightarrow> ffdns_encodename cap (dotted ls @ [46]) = wire ls @ [0]"
    using ne run [of "[0]"] by (simp add: ffdns_encodename_def)
qed

text \<open>The form on the wire, with the root behind it, holds the labels.\<close>

lemma label_size: "1 \<le> n \<Longrightarrow> n \<le> 63 \<Longrightarrow>
  unat (word_of_nat n :: u8) = n \<and> (word_of_nat n :: u8) AND 0xc0 = 0 \<and> (word_of_nat n :: u8) \<noteq> 0"
proof -
  assume n: "1 \<le> n" "n \<le> 63"
  have u: "unat (word_of_nat n :: u8) = n" using n by (simp add: unat_of_nat)
  define b :: u8 where "b = word_of_nat n"
  have "take_bit 6 b = b"
    using u n by (simp add: word_unat_iff unsigned_take_bit_eq take_bit_nat_eq_self b_def del: word_unat_eq_iff)
  then have "b AND 0xc0 = take_bit 6 b AND 0xc0" by simp
  also have "\<dots> = b AND (mask 6 AND 0xc0)" by (simp only: take_bit_eq_mask and.assoc)
  also have "mask 6 AND (0xc0 :: u8) = 0" by (simp add: mask_eq_exp_minus_1)
  finally have "(word_of_nat n :: u8) AND 0xc0 = 0" by (simp add: b_def)
  moreover have "(word_of_nat n :: u8) \<noteq> 0" using u n by auto
  ultimately show ?thesis using u by simp
qed

lemma wire_labels:
  "\<forall>l\<in>set ls. label_ok l \<Longrightarrow> dns_labels (pre @ wire ls @ 0 # post) (length pre) 0 ls
    \<and> skip_loop (pre @ wire ls @ 0 # post) (length pre) = length pre + length (wire ls) + 1"
proof (induction ls arbitrary: pre)
  case Nil
  then show ?case by (auto intro: root simp: skip_loop.simps [of _ "length pre"])
next
  case (Cons l ls)
  define b :: u8 where "b = word_of_nat (length l)"
  define m where "m = pre @ wire (l # ls) @ 0 # post"
  have b: "unat b = length l" "b AND 0xc0 = 0" "b \<noteq> 0"
    using label_size [of "length l"] Cons.prems by (simp_all add: b_def label_ok_def Suc_le_eq)
  have m: "m = (pre @ b # l) @ wire ls @ 0 # post" "m ! length pre = b" "length pre < length m"
    by (simp_all add: m_def b_def nth_append)
  have ih: "dns_labels m (length pre + 1 + length l) 0 ls"
    "skip_loop m (length pre + 1 + length l) = length pre + 1 + length l + length (wire ls) + 1"
    using Cons.IH [of "pre @ b # l"] Cons.prems by (simp_all add: m(1))
  have "take (length l) (drop (length pre + 1) m) = l" by (simp add: m(1))
  then have "dns_labels m (length pre) 0 (l # ls)"
    using label [of "length pre" m "length l" 0 ls] m(2,3) b ih(1) by (simp only: not_False_eq_True)
  moreover have "skip_loop m (length pre) = length pre + length (wire (l # ls)) + 1"
    using m(2,3) b ih(2) by (subst skip_loop.simps) (simp add: Let_def)
  ultimately show ?case unfolding m_def by blast
qed


section \<open>Properties\<close>

text \<open>
  C18: With a buffer of at least one byte, \<open>ffdns_name\<close> ends for every message, cyclic compression included, and never writes
  past the buffer; it returns a name exactly when the labels at the position, followed through at most 128 jumps, exist and
  fit, the name is those labels with a dot behind each, and the new position is the one \<open>ffdns_skipname\<close> finds.
\<close>

theorem ffdns_name_correct:
  assumes "0 < cap"
  shows "\<exists>n nm pos'. ffdns_name cap m pos = Some (n, nm, pos')
    \<and> (0 < n \<longleftrightarrow> (\<exists>ls k. dns_labels m pos k ls \<and> k \<le> 128 \<and> ls \<noteq> [] \<and> length (name_text ls) < cap))
    \<and> (0 < n \<longrightarrow> (\<exists>ls k. dns_labels m pos k ls \<and> nm = name_text ls \<and> n = length nm \<and> n < cap \<and> pos' = ffdns_skipname m pos))"
proof -
  obtain n nm pos' where r: "ffdns_name cap m pos = Some (n, nm, pos')"
    using name_loop_safe [of "[]" cap m pos 0 MAX_JUMPS pos] assms by (auto simp: ffdns_name_def)
  have snd: "\<exists>ls k. dns_labels m pos k ls \<and> k \<le> 128 \<and> ls \<noteq> [] \<and> nm = name_text ls \<and> n = length nm \<and> n < cap" if n: "0 < n"
  proof -
    obtain ls k where "k \<le> MAX_JUMPS" "dns_labels m (pos + 0) k ls" "n = length nm" "n < cap" "nm = name_text ls"
      using name_loop_sound [OF r [unfolded ffdns_name_def] n] assms by auto
    moreover from this have "ls \<noteq> []" using n by auto
    ultimately show ?thesis by (auto simp: MAX_JUMPS_def)
  qed
  have cmp: "n = length (name_text ls) \<and> nm = name_text ls \<and> pos' = ffdns_skipname m pos"
    if l: "dns_labels m pos k ls" "k \<le> 128" "length (name_text ls) < cap" for ls k
  proof -
    have "name_loop m cap pos 0 [] MAX_JUMPS pos = Some (length (name_text ls), name_text ls, skip_loop m pos)"
      using name_loop_reads [OF l(1), of MAX_JUMPS "[]" cap pos] l by (simp add: MAX_JUMPS_def)
    then show ?thesis using r skip_inside [OF l(1)] by (auto simp: ffdns_name_def ffdns_skipname_def)
  qed
  have "0 < n \<longleftrightarrow> (\<exists>ls k. dns_labels m pos k ls \<and> k \<le> 128 \<and> ls \<noteq> [] \<and> length (name_text ls) < cap)"
  proof
    assume "0 < n"
    then show "\<exists>ls k. dns_labels m pos k ls \<and> k \<le> 128 \<and> ls \<noteq> [] \<and> length (name_text ls) < cap" using snd by blast
  next
    assume "\<exists>ls k. dns_labels m pos k ls \<and> k \<le> 128 \<and> ls \<noteq> [] \<and> length (name_text ls) < cap"
    then obtain ls k where l: "dns_labels m pos k ls" "k \<le> 128" "ls \<noteq> []" "length (name_text ls) < cap" by blast
    then show "0 < n" using cmp [OF l(1,2,4)] by (cases ls) auto
  qed
  moreover have "0 < n \<longrightarrow> (\<exists>ls k. dns_labels m pos k ls \<and> nm = name_text ls \<and> n = length nm \<and> n < cap \<and> pos' = ffdns_skipname m pos)"
    using snd cmp by metis
  ultimately show ?thesis using r by blast
qed

text \<open>A label and a jump onto itself: no name, and no endless loop.\<close>

lemma ffdns_name_correct_witness:
  "\<exists>n nm pos'. ffdns_name 9 [1, 97, 0xc0, 0] 0 = Some (n, nm, pos')
    \<and> (0 < n \<longleftrightarrow> (\<exists>ls k. dns_labels [1, 97, 0xc0, 0] 0 k ls \<and> k \<le> 128 \<and> ls \<noteq> [] \<and> length (name_text ls) < 9))
    \<and> (0 < n \<longrightarrow> (\<exists>ls k. dns_labels [1, 97, 0xc0, 0] 0 k ls \<and> nm = name_text ls \<and> n = length nm \<and> n < 9
          \<and> pos' = ffdns_skipname [1, 97, 0xc0, 0] 0))"
  by (rule ffdns_name_correct) simp

lemma ntoh16_hton16: "ffint_ntoh16 (ucast (drop_bit 8 x)) (ucast x) = ucast (x :: u16)"
  by (rule bit_word_eqI) (auto simp: ffint_ntoh16_def bit_simps dest: bit_imp_le_length)

text \<open>
  C17: A query built from a header and a question for a name of labels of 1 to 63 bytes (with or without the dot at its end)
  is read back: the header has the identifier and one question, the name behind it comes out with a dot at its end, and the
  question behind the name has the type and the Internet class and ends the message.
\<close>

theorem ffdns_query_roundtrip:
  assumes ls: "ls \<noteq> []" "\<forall>l\<in>set ls. label_ok l" and name: "name = dotted ls \<or> name = dotted ls @ [46]"
    and cap: "length (dotted ls) + 7 \<le> cap" and out: "length (name_text ls) < ncap"
    and q: "q = ffdns_initquery txid rd @ ffdns_addquery cap name type"
  shows "hh_id (ffdns_hdrtohost q) = ucast (ucast txid :: u16) \<and> hh_qdcount (ffdns_hdrtohost q) = 1
    \<and> (\<exists>pos. ffdns_name ncap q 12 = Some (length (name_text ls), name_text ls, pos)
        \<and> ffdns_questohost (drop pos q) = \<lparr>qh_type = ucast (ucast type :: u16), qh_clas = 1\<rparr> \<and> length q = pos + 4)"
proof -
  have ln: "last (dotted ls) \<noteq> 46" "dotted ls \<noteq> []" using last_dotted [OF ls] by simp_all
  have wl: "length (wire ls) = length (dotted ls) + 1" by (rule dotted_wire [OF ls(1)])
  have aq: "ffdns_addquery cap name type = wire ls @ 0 # ffint_hton16 (ucast type) @ ffint_hton16 FFDNS_IN"
    using name
  proof
    assume n: "name = dotted ls"
    have "ffdns_encodename cap name = wire ls" unfolding n using cap by (intro encode_names [OF ls]) simp
    moreover have "wire ls \<noteq> []" using wl by auto
    ultimately show ?thesis using n ln wl cap by (simp add: ffdns_addquery_def Let_def)
  next
    assume n: "name = dotted ls @ [46]"
    have "ffdns_encodename cap name = wire ls @ [0]" unfolding n using cap by (intro encode_names [OF ls]) simp
    then show ?thesis using n wl cap by (simp add: ffdns_addquery_def Let_def)
  qed
  define h where "h = ffdns_initquery txid rd"
  have h: "length h = 12" by (simp add: h_def ffdns_initquery_def ffint_hton16_def)
  have qq: "q = h @ wire ls @ 0 # ffint_hton16 (ucast type) @ ffint_hton16 FFDNS_IN" by (simp add: q aq h_def)
  have d: "dns_labels q 12 0 ls" "skip_loop q 12 = 12 + length (wire ls) + 1"
    using wire_labels [OF ls(2), of h] by (simp_all add: qq h)
  have "ffdns_name ncap q 12 = Some (length (name_text ls), name_text ls, 12 + length (wire ls) + 1)"
    using name_loop_reads [OF d(1), of MAX_JUMPS "[]" ncap 12] out d(2) by (simp add: ffdns_name_def)
  moreover have "drop (12 + length (wire ls) + 1) q = ffint_hton16 (ucast type) @ ffint_hton16 FFDNS_IN"
    by (simp add: qq h)
  moreover have "length q = 12 + length (wire ls) + 1 + 4" by (simp add: qq h ffint_hton16_def)
  moreover have "ffdns_questohost (ffint_hton16 (ucast type) @ ffint_hton16 FFDNS_IN) = \<lparr>qh_type = ucast (ucast type :: u16), qh_clas = 1\<rparr>"
    by (simp add: ffdns_questohost_def ffint_hton16_def ntoh16_hton16 FFDNS_IN_def) (simp add: ffint_ntoh16_def)
  moreover have "hh_id (ffdns_hdrtohost q) = ucast (ucast txid :: u16)" "hh_qdcount (ffdns_hdrtohost q) = 1"
    by (simp_all add: q ffdns_hdrtohost_def ffdns_initquery_def ffint_hton16_def ntoh16_hton16)
      (simp add: ffint_ntoh16_def)
  ultimately show ?thesis by (intro conjI exI [of _ "12 + length (wire ls) + 1"]) simp_all
qed

text \<open>\<open>a.io\<close>.\<close>

lemma ffdns_query_roundtrip_witness:
  "hh_id (ffdns_hdrtohost (ffdns_initquery 7 1 @ ffdns_addquery 11 [97, 46, 105, 111] 1)) = ucast (ucast (7 :: u32) :: u16)
    \<and> hh_qdcount (ffdns_hdrtohost (ffdns_initquery 7 1 @ ffdns_addquery 11 [97, 46, 105, 111] 1)) = 1
    \<and> (\<exists>pos. ffdns_name 6 (ffdns_initquery 7 1 @ ffdns_addquery 11 [97, 46, 105, 111] 1) 12
          = Some (length (name_text [[97], [105, 111]]), name_text [[97], [105, 111]], pos)
        \<and> ffdns_questohost (drop pos (ffdns_initquery 7 1 @ ffdns_addquery 11 [97, 46, 105, 111] 1))
          = \<lparr>qh_type = ucast (ucast (1 :: u32) :: u16), qh_clas = 1\<rparr>
        \<and> length (ffdns_initquery 7 1 @ ffdns_addquery 11 [97, 46, 105, 111] 1) = pos + 4)"
  by (rule ffdns_query_roundtrip [where ls = "[[97], [105, 111]]"]) (simp_all add: label_ok_def)

end
