(* ===== verification/FF_Websocket.thy ===== *)
theory FF_Websocket
  imports FF_StrEdit FF_Dns
begin

text \<open>
  WebSocket frames: \<open>net/websocket.h\<close> and \<open>net/ffwebskt.c\<close>. The reader is a state machine that gathers the header of a frame
  from any pieces of input, then hands out its body, unmasked; the writer makes a header and masks a body.
\<close>

unbundle bit_operations_syntax

section \<open>Types\<close>

datatype ws_r = FFWEBSKT_RMORE | FFWEBSKT_RERR | FFWEBSKT_RMSG | FFWEBSKT_RDATA | FFWEBSKT_RDATA_FIN

datatype ws_state = R_INIT | R_GATHER | R_HDR | R_HLEN2 | R_HLEN8 | R_HOK | R_BODY

definition WS_F_FIN :: u8 where "WS_F_FIN = 0x80"
definition WS_F_RES :: u8 where "WS_F_RES = 0x70"
definition WS_F_OPCODE :: u8 where "WS_F_OPCODE = 0x0f"
definition WS_F_MASK :: u8 where "WS_F_MASK = 0x80"
definition WS_F_DATALEN :: u8 where "WS_F_DATALEN = 0x7f"
definition WS_MAXMSG1 :: nat where "WS_MAXMSG1 = 126"
definition WS_MAXMSG2 :: nat where "WS_MAXMSG2 = 0xffff"
definition WS_MAXMSG :: nat where "WS_MAXMSG = 0x00ffffffffffffff"
definition WS_BUFSIZE :: nat where "WS_BUFSIZE = 4096"

record ffwebskt =
  w_state :: ws_state
  w_nxstate :: ws_state
  w_gathlen :: u32
  w_datalen :: u64
  w_mask_off :: nat
  w_mask :: u32
  w_op :: u8
  w_cont :: bool
  w_server :: bool
  w_in :: bytes
  w_out :: bytes
  w_buf :: bytes
  w_nbuf :: u32

definition ws_init :: "bool \<Rightarrow> ffwebskt" where
  "ws_init server =
     \<lparr>w_state = R_INIT, w_nxstate = R_INIT, w_gathlen = 0, w_datalen = 0, w_mask_off = 0, w_mask = 0, w_op = 0,
      w_cont = False, w_server = server, w_in = [], w_out = [], w_buf = replicate WS_BUFSIZE 0, w_nbuf = 0\<rparr>"

section \<open>Numbers of 8 bytes\<close>

definition ffint_ntoh64 :: "bytes \<Rightarrow> u64" where
  "ffint_ntoh64 p = foldl (\<lambda>r b. push_bit 8 r OR ucast b) 0 (take 8 p)"

definition ffint_hton64 :: "u64 \<Rightarrow> bytes" where
  "ffint_hton64 i = map (\<lambda>k. ucast (drop_bit (8 * (7 - k)) i)) [0..<8]"

section \<open>The reader\<close>

definition GATHER :: "ffwebskt \<Rightarrow> ws_state \<Rightarrow> u32 \<Rightarrow> ffwebskt" where
  "GATHER w st n = w\<lparr>w_state := R_GATHER, w_nxstate := st, w_gathlen := n\<rparr>"

text \<open>One round of the loop: a result, or \<open>None\<close> for \<open>continue\<close>.\<close>

definition ws_gather :: "ffwebskt \<Rightarrow> ws_r option \<times> ffwebskt" where
  "ws_gather w =
     (let n = min (unat (w_gathlen w - w_nbuf w)) (length (w_in w));
          w = w\<lparr>w_buf := put_at (w_buf w) (unat (w_nbuf w)) (take n (w_in w)), w_nbuf := w_nbuf w + word_of_nat n, w_in := drop n (w_in w)\<rparr>
      in if w_nbuf w \<noteq> w_gathlen w then (Some FFWEBSKT_RMORE, w) else (None, w\<lparr>w_state := w_nxstate w\<rparr>))"

definition ws_hdr :: "ffwebskt \<Rightarrow> ws_r option \<times> ffwebskt" where
  "ws_hdr w =
     (let b0 = w_buf w ! 0; b1 = w_buf w ! 1;
          w = w\<lparr>w_op := b0 AND WS_F_OPCODE\<rparr> in
      if b0 AND WS_F_RES \<noteq> 0 then (Some FFWEBSKT_RERR, w)
      else if \<not> w_cont w \<and> w_op w = 0 then (Some FFWEBSKT_RERR, w)
      else if w_cont w \<and> w_op w \<noteq> 0 then (Some FFWEBSKT_RERR, w)
      else
        let w = w\<lparr>w_cont := (b0 AND WS_F_FIN = 0), w_mask_off := 0\<rparr>;
            n = b1 AND WS_F_DATALEN;
            (w, hdrsize) = (if n = 126 then (GATHER w R_HLEN2 0, 2) else if n = 127 then (GATHER w R_HLEN8 0, 8)
              else (w\<lparr>w_datalen := ucast n\<rparr>, 0 :: nat)) in
        if b1 AND WS_F_MASK = 0 \<and> w_server w then (Some FFWEBSKT_RERR, w)
        else
          let (w, hdrsize) = (if b1 AND WS_F_MASK \<noteq> 0 then
                ((if hdrsize = 0 then GATHER w R_HOK 0 else w)\<lparr>w_mask_off := 2 + hdrsize\<rparr>, hdrsize + 4) else (w, hdrsize)) in
          (None, if hdrsize \<noteq> 0 then w\<lparr>w_gathlen := word_of_nat (2 + hdrsize)\<rparr> else w\<lparr>w_state := R_HOK\<rparr>))"

definition ws_hlen8 :: "ffwebskt \<Rightarrow> ws_r option \<times> ffwebskt" where
  "ws_hlen8 w =
     (if w_buf w ! 2 \<noteq> 0 then (Some FFWEBSKT_RERR, w)
      else (None, w\<lparr>w_datalen := ffint_ntoh64 (drop 2 (w_buf w)), w_state := R_HOK\<rparr>))"

definition ws_hok :: "ffwebskt \<Rightarrow> ws_r option \<times> ffwebskt" where
  "ws_hok w =
     (let o' = w_mask_off w; b = w_buf w;
          w = (if o' \<noteq> 0 then w\<lparr>w_mask := le4 (b ! o') (b ! (o' + 1)) (b ! (o' + 2)) (b ! (o' + 3))\<rparr> else w);
          w = w\<lparr>w_state := R_BODY\<rparr>
      in if w_op w = 0 then (None, w) else (Some FFWEBSKT_RMSG, w))"

definition ws_body :: "ffwebskt \<Rightarrow> ws_r option \<times> ffwebskt" where
  "ws_body w =
     (if w_datalen w = 0 then (Some FFWEBSKT_RDATA_FIN, GATHER (w\<lparr>w_nbuf := 0\<rparr>) R_HDR 2)
      else if w_in w = [] then (Some FFWEBSKT_RMORE, w)
      else
        let nn = min (unat (w_datalen w)) (length (w_in w));
            (w, nn) = (if w_mask_off w \<noteq> 0 then
               (let nn = min nn WS_BUFSIZE; d = ffmem_xor4 (take nn (w_in w)) (w_mask w)
                in (w\<lparr>w_buf := put_at (w_buf w) 0 d, w_out := d\<rparr>, nn))
             else (w\<lparr>w_out := take nn (w_in w)\<rparr>, nn))
        in (Some FFWEBSKT_RDATA, w\<lparr>w_in := drop nn (w_in w), w_datalen := w_datalen w - word_of_nat nn\<rparr>))"

definition ws_step :: "ffwebskt \<Rightarrow> ws_r option \<times> ffwebskt" where
  "ws_step w =
     (case w_state w of
        R_INIT \<Rightarrow> (None, GATHER w R_HDR 2)
      | R_GATHER \<Rightarrow> ws_gather w
      | R_HDR \<Rightarrow> ws_hdr w
      | R_HLEN2 \<Rightarrow> (None, w\<lparr>w_datalen := ucast (ffint_ntoh16 (w_buf w ! 2) (w_buf w ! 3)), w_state := R_HOK\<rparr>)
      | R_HLEN8 \<Rightarrow> ws_hlen8 w
      | R_HOK \<Rightarrow> ws_hok w
      | R_BODY \<Rightarrow> ws_body w)"

text \<open>The loop; \<open>None\<close> would be a call that does not return.\<close>

partial_function (option) ffwebskt_parse :: "ffwebskt \<Rightarrow> (ws_r \<times> ffwebskt) option" where
  "ffwebskt_parse w =
     (case ws_step w of (Some r, w') \<Rightarrow> Some (r, w') | (None, w') \<Rightarrow> ffwebskt_parse w')"

text \<open>The version a client asks for; SHA-1 and base64 are not code of the library.\<close>

definition ffwebskt_accept_ver :: "bytes \<Rightarrow> int" where
  "ffwebskt_accept_ver ver = (if ver = [49, 51] then 0 else -1)"

definition ffwebskt_accept :: "(bytes \<Rightarrow> bytes) \<Rightarrow> (bytes \<Rightarrow> bytes) \<Rightarrow> ffwebskt \<Rightarrow> bytes \<Rightarrow> ffwebskt" where
  "ffwebskt_accept sha1 base64 w clientkey =
     (let d = base64 (sha1 (clientkey @ map (\<lambda>c. of_char c) ''258EAFA5-E914-47DA-95CA-C5AB0DC85B11''))
      in w\<lparr>w_buf := put_at (w_buf w) 0 d, w_out := d, w_server := True\<rparr>)"

section \<open>The writer\<close>

record ffwebskt_cook =
  c_in :: bytes
  c_out :: bytes
  c_mask :: u32

text \<open>The header is the result; \<open>op\<close> has only bits of the opcode.\<close>

definition ffwebskt_newmsg :: "ffwebskt_cook \<Rightarrow> u32 \<Rightarrow> u8 \<Rightarrow> ws_r \<times> ffwebskt_cook" where
  "ffwebskt_newmsg w mask_key op =
     (let n = length (c_in w); b0 = WS_F_FIN OR op in
      if WS_MAXMSG < n then (FFWEBSKT_RERR, w)
      else
        let (b1, ext) = (if n < WS_MAXMSG1 then (word_of_nat n, [])
              else if n \<le> WS_MAXMSG2 then (0, ffint_hton16 (word_of_nat n))
              else (0, ffint_hton64 (word_of_nat n)));
            (b1, key) = (if mask_key \<noteq> 0 then (b1 OR WS_F_MASK, bytes4 mask_key) else (b1, []))
        in (FFWEBSKT_RDATA, w\<lparr>c_mask := mask_key, c_out := [b0, b1] @ ext @ key\<rparr>))"

definition ffwebskt_writenext :: "ffwebskt_cook \<Rightarrow> ws_r \<times> ffwebskt_cook" where
  "ffwebskt_writenext w =
     (if c_in w = [] then (FFWEBSKT_RDATA_FIN, w)
      else if c_mask w \<noteq> 0 then
        (let n = min (length (c_in w)) WS_BUFSIZE
         in (FFWEBSKT_RDATA, w\<lparr>c_out := ffmem_xor4 (take n (c_in w)) (c_mask w), c_in := drop n (c_in w)\<rparr>))
      else (FFWEBSKT_RDATA, w\<lparr>c_out := c_in w, c_in := []\<rparr>))"

text \<open>A whole message: the header and all pieces of the body.\<close>

function write_body :: "ffwebskt_cook \<Rightarrow> bytes" where
  "write_body w = (if c_in w = [] then [] else (let w' = snd (ffwebskt_writenext w) in c_out w' @ write_body w'))"
  by pat_completeness auto
termination
  by (relation "measure (\<lambda>w. length (c_in w))") (auto simp: ffwebskt_writenext_def WS_BUFSIZE_def Let_def)

declare write_body.simps [simp del]

definition write_msg :: "bytes \<Rightarrow> u32 \<Rightarrow> u8 \<Rightarrow> bytes" where
  "write_msg d key op =
     (let w = snd (ffwebskt_newmsg \<lparr>c_in = d, c_out = [], c_mask = 0\<rparr> key op) in c_out w @ write_body w)"


section \<open>The reader always returns\<close>

definition ws_ok :: "ffwebskt \<Rightarrow> bool" where
  "ws_ok w \<longleftrightarrow> length (w_buf w) = WS_BUFSIZE \<and> w_mask_off w \<le> 10
    \<and> (case w_state w of
         R_INIT \<Rightarrow> w_nbuf w = 0
       | R_GATHER \<Rightarrow> unat (w_nbuf w) \<le> unat (w_gathlen w) \<and> unat (w_gathlen w) \<le> 14
           \<and> (w_nxstate w = R_HDR \<and> w_gathlen w = 2 \<or> w_nxstate w = R_HLEN2 \<or> w_nxstate w = R_HLEN8 \<or> w_nxstate w = R_HOK)
       | R_HDR \<Rightarrow> w_nbuf w = 2
       | _ \<Rightarrow> True)"

lemma ok_in [simp]: "ws_ok (w\<lparr>w_in := a\<rparr>) = ws_ok w"
  by (simp add: ws_ok_def split: ws_state.split)

fun ws_rank :: "ws_state \<Rightarrow> ws_state \<Rightarrow> nat" where
  "ws_rank R_INIT nx = 6"
| "ws_rank R_GATHER nx = (if nx = R_HDR then 5 else 3)"
| "ws_rank R_HDR nx = 4"
| "ws_rank R_HLEN2 nx = 2"
| "ws_rank R_HLEN8 nx = 2"
| "ws_rank R_HOK nx = 1"
| "ws_rank R_BODY nx = 0"

lemma gather_size:
  assumes "ws_ok w" "w_state w = R_GATHER"
  shows "unat (w_gathlen w - w_nbuf w) = unat (w_gathlen w) - unat (w_nbuf w)"
    and "n \<le> unat (w_gathlen w) - unat (w_nbuf w) \<Longrightarrow> unat (w_nbuf w + word_of_nat n) = unat (w_nbuf w) + n"
proof -
  have g: "unat (w_nbuf w) \<le> unat (w_gathlen w)" "unat (w_gathlen w) \<le> 14" using assms by (auto simp: ws_ok_def)
  then show "unat (w_gathlen w - w_nbuf w) = unat (w_gathlen w) - unat (w_nbuf w)"
    by (simp add: unat_sub word_le_nat_alt)
  show "n \<le> unat (w_gathlen w) - unat (w_nbuf w) \<Longrightarrow> unat (w_nbuf w + word_of_nat n) = unat (w_nbuf w) + n"
    using g by (simp add: unat_add_small unat_of_nat_small)
qed

lemma gather_ok:
  assumes ok: "ws_ok w" and st: "w_state w = R_GATHER" and r: "ws_gather w = (r, w')"
  shows "ws_ok w'" and "r = None \<Longrightarrow> w_state w' = w_nxstate w \<and> w_nxstate w' = w_nxstate w \<and> w_nxstate w \<noteq> R_GATHER"
proof -
  define n where "n = min (unat (w_gathlen w - w_nbuf w)) (length (w_in w))"
  have n: "n \<le> unat (w_gathlen w) - unat (w_nbuf w)" using gather_size(1) [OF ok st] by (simp add: n_def)
  have u: "unat (w_nbuf w + word_of_nat n) = unat (w_nbuf w) + n" by (rule gather_size(2) [OF ok st n])
  have g: "unat (w_nbuf w) \<le> unat (w_gathlen w)" "unat (w_gathlen w) \<le> 14" "length (w_buf w) = WS_BUFSIZE" "w_mask_off w \<le> 10"
    "w_nxstate w = R_HDR \<and> w_gathlen w = 2 \<or> w_nxstate w = R_HLEN2 \<or> w_nxstate w = R_HLEN8 \<or> w_nxstate w = R_HOK"
    using ok st by (auto simp: ws_ok_def)
  have len: "length (put_at (w_buf w) (unat (w_nbuf w)) (take n (w_in w))) = WS_BUFSIZE"
    using g n by (subst length_put_at) (auto simp: WS_BUFSIZE_def)
  show "ws_ok w'"
    using r g u n len unfolding ws_gather_def Let_def n_def [symmetric] by (auto simp: ws_ok_def st split: if_splits)
  show "r = None \<Longrightarrow> w_state w' = w_nxstate w \<and> w_nxstate w' = w_nxstate w \<and> w_nxstate w \<noteq> R_GATHER"
    using r g unfolding ws_gather_def Let_def n_def [symmetric] by (auto split: if_splits)
qed

text \<open>What an accepted start of a header does.\<close>

definition hdr_accepts :: "ffwebskt \<Rightarrow> bool" where
  "hdr_accepts w \<longleftrightarrow> w_buf w ! 0 AND WS_F_RES = 0 \<and> (w_cont w \<longleftrightarrow> w_buf w ! 0 AND WS_F_OPCODE = 0)
    \<and> (w_server w \<longrightarrow> w_buf w ! 1 AND WS_F_MASK \<noteq> 0)"

definition hdr_next :: "ffwebskt \<Rightarrow> ffwebskt" where
  "hdr_next w =
     (let b0 = w_buf w ! 0; b1 = w_buf w ! 1; n = b1 AND WS_F_DATALEN; k = (b1 AND WS_F_MASK \<noteq> 0);
          w1 = w\<lparr>w_op := b0 AND WS_F_OPCODE, w_cont := (b0 AND WS_F_FIN = 0)\<rparr> in
      if n = 126 then GATHER (w1\<lparr>w_mask_off := if k then 4 else 0\<rparr>) R_HLEN2 (if k then 8 else 4)
      else if n = 127 then GATHER (w1\<lparr>w_mask_off := if k then 10 else 0\<rparr>) R_HLEN8 (if k then 14 else 10)
      else if k then GATHER (w1\<lparr>w_datalen := ucast n, w_mask_off := 2\<rparr>) R_HOK 6
      else w1\<lparr>w_datalen := ucast n, w_mask_off := 0, w_state := R_HOK\<rparr>)"

lemma hdr_run: "hdr_accepts w \<Longrightarrow> ws_hdr w = (None, hdr_next w)"
proof -
  assume a: "hdr_accepts w"
  define n k where "n = w_buf w ! 1 AND WS_F_DATALEN" and "k = (w_buf w ! 1 AND WS_F_MASK \<noteq> 0)"
  have a': "w_buf w ! 0 AND WS_F_RES = 0" "w_cont w = (w_buf w ! 0 AND WS_F_OPCODE = 0)" "w_server w \<Longrightarrow> k"
    using a by (simp_all add: hdr_accepts_def k_def)
  consider "n = 126" | "n = 127" | "n \<noteq> 126" "n \<noteq> 127" by blast
  then show ?thesis
  proof cases
    case 1
    then show ?thesis using a'
      by (cases k) (auto simp: ws_hdr_def hdr_next_def GATHER_def Let_def n_def [symmetric] k_def)
  next
    case 2
    then show ?thesis using a'
      by (cases k) (auto simp: ws_hdr_def hdr_next_def GATHER_def Let_def n_def [symmetric] k_def)
  next
    case 3
    then show ?thesis using a'
      by (cases k) (auto simp: ws_hdr_def hdr_next_def GATHER_def Let_def n_def [symmetric] k_def)
  qed
qed

lemma hdr_refuses: "\<not> hdr_accepts w \<Longrightarrow> fst (ws_hdr w) = Some FFWEBSKT_RERR"
proof -
  assume a: "\<not> hdr_accepts w"
  show ?thesis
  proof (cases "w_buf w ! 0 AND WS_F_RES = 0 \<and> (w_cont w \<longleftrightarrow> w_buf w ! 0 AND WS_F_OPCODE = 0)")
    case False
    then show ?thesis by (auto simp: ws_hdr_def Let_def)
  next
    case True
    then have k: "w_server w" "w_buf w ! 1 AND WS_F_MASK = 0" using a by (auto simp: hdr_accepts_def)
    define n where "n = w_buf w ! 1 AND WS_F_DATALEN"
    show ?thesis using True k
      by (cases "n = 126"; cases "n = 127") (auto simp: ws_hdr_def GATHER_def Let_def n_def [symmetric])
  qed
qed

lemma hdr_next_ok:
  assumes "ws_ok w" "w_state w = R_HDR"
  shows "ws_ok (hdr_next w) \<and> ws_rank (w_state (hdr_next w)) (w_nxstate (hdr_next w)) < 4"
proof -
  define n k where "n = w_buf w ! 1 AND WS_F_DATALEN" and "k = (w_buf w ! 1 AND WS_F_MASK \<noteq> 0)"
  have o: "length (w_buf w) = WS_BUFSIZE" "w_nbuf w = 2" using assms by (simp_all add: ws_ok_def)
  show ?thesis using o unfolding hdr_next_def Let_def n_def [symmetric] k_def [symmetric]
    by (simp add: ws_ok_def GATHER_def)
qed

lemma hdr_ok:
  assumes "ws_ok w" "w_state w = R_HDR" "ws_hdr w = (None, w')"
  shows "ws_ok w' \<and> ws_rank (w_state w') (w_nxstate w') < 4"
proof -
  have "hdr_accepts w" using assms(3) hdr_refuses [of w] by auto
  then show ?thesis using hdr_run hdr_next_ok [OF assms(1,2)] assms(3) by auto
qed

lemma hdr_result: "ws_hdr w = (r, w') \<Longrightarrow> r \<noteq> Some FFWEBSKT_RERR \<Longrightarrow> r = None"
  using hdr_run [of w] hdr_refuses [of w] by (cases "hdr_accepts w") auto

lemma xor4_size [simp]: "length (ffmem_xor4 s k) = length s"
  by (simp add: ffmem_xor4_def xor4_loop_keystream)

lemma body_ok:
  assumes ok: "ws_ok w" and st: "w_state w = R_BODY"
  shows "ws_ok (snd (ws_body w)) \<and> fst (ws_body w) \<noteq> None"
proof -
  have o: "length (w_buf w) = WS_BUFSIZE" "w_mask_off w \<le> 10" using ok by (simp_all add: ws_ok_def)
  define nn where "nn = min (unat (w_datalen w)) (length (w_in w))"
  consider "w_datalen w = 0" | "w_datalen w \<noteq> 0" "w_in w = []" | "w_datalen w \<noteq> 0" "w_in w \<noteq> []" "w_mask_off w = 0"
    | "w_datalen w \<noteq> 0" "w_in w \<noteq> []" "w_mask_off w \<noteq> 0" by blast
  then show ?thesis
  proof cases
    case 4
    have "length (put_at (w_buf w) 0 (ffmem_xor4 (take (min nn WS_BUFSIZE) (w_in w)) (w_mask w))) = WS_BUFSIZE"
      using o by (subst length_put_at) auto
    then show ?thesis using 4 o by (simp add: ws_body_def ws_ok_def Let_def st nn_def)
  qed (use o in \<open>simp_all add: ws_body_def ws_ok_def GATHER_def Let_def st\<close>)
qed

lemma step_simps:
  "w_state w = R_INIT \<Longrightarrow> ws_step w = (None, GATHER w R_HDR 2)"
  "w_state w = R_GATHER \<Longrightarrow> ws_step w = ws_gather w"
  "w_state w = R_HDR \<Longrightarrow> ws_step w = ws_hdr w"
  "w_state w = R_HLEN2 \<Longrightarrow> ws_step w = (None, w\<lparr>w_datalen := ucast (ffint_ntoh16 (w_buf w ! 2) (w_buf w ! 3)), w_state := R_HOK\<rparr>)"
  "w_state w = R_HLEN8 \<Longrightarrow> ws_step w = ws_hlen8 w"
  "w_state w = R_HOK \<Longrightarrow> ws_step w = ws_hok w"
  "w_state w = R_BODY \<Longrightarrow> ws_step w = ws_body w"
  by (simp_all add: ws_step_def)

lemma step_ok:
  assumes ok: "ws_ok w" and r: "ws_step w = (r, w')"
  shows "(r \<noteq> Some FFWEBSKT_RERR \<longrightarrow> ws_ok w') \<and>
    (r = None \<longrightarrow> ws_rank (w_state w') (w_nxstate w') < ws_rank (w_state w) (w_nxstate w))"
proof (cases "w_state w")
  case R_INIT
  then have "r = None" "w' = GATHER w R_HDR 2" using r by (simp_all add: step_simps)
  then show ?thesis using ok R_INIT by (simp add: ws_ok_def GATHER_def)
next
  case R_GATHER
  then have g: "ws_gather w = (r, w')" using r by (simp add: step_simps)
  have "r = None \<Longrightarrow> w_state w' = w_nxstate w \<and> w_nxstate w' = w_nxstate w" using gather_ok(2) [OF ok R_GATHER g] by simp
  moreover have "w_nxstate w = R_HDR \<or> w_nxstate w = R_HLEN2 \<or> w_nxstate w = R_HLEN8 \<or> w_nxstate w = R_HOK"
    using ok R_GATHER by (auto simp: ws_ok_def)
  ultimately show ?thesis using R_GATHER gather_ok(1) [OF ok R_GATHER g] by auto
next
  case R_HDR
  then have g: "ws_hdr w = (r, w')" using r by (simp add: step_simps)
  then show ?thesis using hdr_ok [OF ok R_HDR] hdr_result [OF g] R_HDR by (cases "r = None") auto
next
  case R_HLEN2
  then show ?thesis using r ok by (auto simp: step_simps ws_ok_def)
next
  case R_HLEN8
  then show ?thesis using r ok by (cases "w_buf w ! 2 = 0") (auto simp: step_simps ws_hlen8_def ws_ok_def)
next
  case R_HOK
  then show ?thesis using r ok by (cases "w_mask_off w = 0"; cases "w_op w = 0") (auto simp: step_simps ws_hok_def ws_ok_def Let_def)
next
  case R_BODY
  then show ?thesis using r body_ok [OF ok R_BODY] by (simp add: step_simps)
qed

lemma parse_step:
  "ffwebskt_parse w = (case ws_step w of (Some r, w') \<Rightarrow> Some (r, w') | (None, w') \<Rightarrow> ffwebskt_parse w')"
  by (rule ffwebskt_parse.simps)

lemma parse_returns: "ws_ok w \<Longrightarrow> \<exists>r w'. ffwebskt_parse w = Some (r, w') \<and> (r \<noteq> FFWEBSKT_RERR \<longrightarrow> ws_ok w')"
proof (induction "ws_rank (w_state w) (w_nxstate w)" arbitrary: w rule: less_induct)
  case less
  obtain r w1 where s: "ws_step w = (r, w1)" by (cases "ws_step w") auto
  show ?case
  proof (cases r)
    case None
    have "ws_ok w1" "ws_rank (w_state w1) (w_nxstate w1) < ws_rank (w_state w) (w_nxstate w)"
      using step_ok [OF less.prems s] None by simp_all
    then show ?thesis using less.hyps [of w1] s None by (simp add: parse_step [of w])
  next
    case (Some r')
    then show ?thesis using step_ok [OF less.prems s] s by (auto simp: parse_step [of w])
  qed
qed


section \<open>The header may come in any pieces\<close>

lemma put_at_append:
  "off + length a + length b \<le> length buf \<Longrightarrow> put_at (put_at buf off a) (off + length a) b = put_at buf off (a @ b)"
  by (simp add: put_at_def take_drop ac_simps)

lemma gather_more:
  assumes ok: "ws_ok w" and st: "w_state w = R_GATHER" and r: "ws_gather (w\<lparr>w_in := a\<rparr>) = (Some x, v)"
  shows "w_in v = [] \<and> ws_gather (v\<lparr>w_in := b\<rparr>) = ws_gather (w\<lparr>w_in := a @ b\<rparr>)"
proof -
  define need where "need = unat (w_gathlen w) - unat (w_nbuf w)"
  have g: "unat (w_nbuf w) \<le> unat (w_gathlen w)" "unat (w_gathlen w) \<le> 14" "length (w_buf w) = WS_BUFSIZE"
    using ok st by (auto simp: ws_ok_def)
  have sub: "unat (w_gathlen w - w_nbuf w) = need" unfolding need_def by (rule gather_size(1) [OF ok st])
  have small: "length a < need"
  proof (rule ccontr)
    assume "\<not> length a < need"
    then have "min need (length a) = need" by simp
    moreover have "w_nbuf w + word_of_nat need = w_gathlen w" by (simp flip: sub)
    ultimately show False using r by (simp add: ws_gather_def Let_def sub)
  qed
  have v: "v = w\<lparr>w_buf := put_at (w_buf w) (unat (w_nbuf w)) a, w_nbuf := w_nbuf w + word_of_nat (length a), w_in := []\<rparr>"
    using r small by (auto simp: ws_gather_def Let_def sub min_absorb2 split: if_splits)
  have u: "unat (w_nbuf w + word_of_nat (length a)) = unat (w_nbuf w) + length a"
    using small need_def by (intro gather_size(2) [OF ok st]) simp
  have le: "w_nbuf w + word_of_nat (length a) \<le> w_gathlen w" using u small g(1) by (simp add: word_le_nat_alt need_def)
  have sub2: "unat (w_gathlen w - (w_nbuf w + word_of_nat (length a))) = need - length a"
    using unat_sub [OF le] u g(1) by (simp add: need_def)
  define n2 where "n2 = min (need - length a) (length b)"
  have n: "min need (length (a @ b)) = length a + n2" using small by (simp add: n2_def)
  have "unat (w_nbuf w) + length a + length (take n2 b) \<le> length (w_buf w)"
    using small g by (simp add: n2_def need_def WS_BUFSIZE_def)
  then have buf: "put_at (put_at (w_buf w) (unat (w_nbuf w)) a) (unat (w_nbuf w) + length a) (take n2 b)
      = put_at (w_buf w) (unat (w_nbuf w)) (a @ take n2 b)" by (rule put_at_append)
  have "ws_gather (v\<lparr>w_in := b\<rparr>) =
     (let w' = w\<lparr>w_buf := put_at (w_buf w) (unat (w_nbuf w)) (a @ take n2 b), w_nbuf := w_nbuf w + word_of_nat (length a + n2), w_in := drop n2 b\<rparr>
      in if w_nbuf w' \<noteq> w_gathlen w' then (Some FFWEBSKT_RMORE, w') else (None, w'\<lparr>w_state := w_nxstate w'\<rparr>))"
    by (simp add: ws_gather_def v u sub2 n2_def [symmetric] buf add.assoc Let_def)
  moreover have "ws_gather (w\<lparr>w_in := a @ b\<rparr>) =
     (let w' = w\<lparr>w_buf := put_at (w_buf w) (unat (w_nbuf w)) (a @ take n2 b), w_nbuf := w_nbuf w + word_of_nat (length a + n2), w_in := drop n2 b\<rparr>
      in if w_nbuf w' \<noteq> w_gathlen w' then (Some FFWEBSKT_RMORE, w') else (None, w'\<lparr>w_state := w_nxstate w'\<rparr>))"
    unfolding ws_gather_def by (simp add: sub n [simplified] Let_def)
  ultimately show ?thesis by (simp add: v)
qed

lemma gather_done:
  assumes ok: "ws_ok w" and st: "w_state w = R_GATHER" and r: "ws_gather (w\<lparr>w_in := a\<rparr>) = (None, v)"
  shows "ws_gather (w\<lparr>w_in := a @ b\<rparr>) = (None, v\<lparr>w_in := w_in v @ b\<rparr>)"
proof -
  define need where "need = unat (w_gathlen w) - unat (w_nbuf w)"
  have g: "unat (w_nbuf w) \<le> unat (w_gathlen w)" "unat (w_gathlen w) \<le> 14"
    using ok st by (auto simp: ws_ok_def)
  have sub: "unat (w_gathlen w - w_nbuf w) = need" unfolding need_def by (rule gather_size(1) [OF ok st])
  have big: "need \<le> length a"
  proof (rule ccontr)
    assume a: "\<not> need \<le> length a"
    have "unat (w_nbuf w + word_of_nat (length a)) = unat (w_nbuf w) + length a"
      using a need_def by (intro gather_size(2) [OF ok st]) simp
    then have "w_nbuf w + word_of_nat (length a) \<noteq> w_gathlen w" using a by (auto simp: need_def)
    then show False using r a by (simp add: ws_gather_def Let_def sub min_absorb2)
  qed
  then have "min need (length a) = need" "min need (length (a @ b)) = need" by simp_all
  then show ?thesis using r big by (auto simp: ws_gather_def Let_def sub split: if_splits)
qed

lemma hdr_input: "hdr_accepts (w\<lparr>w_in := x\<rparr>) = hdr_accepts w" "hdr_next (w\<lparr>w_in := x\<rparr>) = (hdr_next w)\<lparr>w_in := x\<rparr>"
proof -
  show "hdr_accepts (w\<lparr>w_in := x\<rparr>) = hdr_accepts w" by (simp add: hdr_accepts_def)
  define n where "n = w_buf w ! 1 AND WS_F_DATALEN"
  show "hdr_next (w\<lparr>w_in := x\<rparr>) = (hdr_next w)\<lparr>w_in := x\<rparr>"
    by (cases "n = 126"; cases "n = 127") (simp_all add: hdr_next_def GATHER_def Let_def n_def [symmetric])
qed


lemma step_none:
  assumes ok: "ws_ok w" and r: "ws_step (w\<lparr>w_in := a\<rparr>) = (None, v)"
  shows "ws_step (w\<lparr>w_in := a @ b\<rparr>) = (None, v\<lparr>w_in := w_in v @ b\<rparr>)"
proof (cases "w_state w")
  case R_INIT
  then show ?thesis using r by (auto simp: step_simps GATHER_def)
next
  case R_GATHER
  then show ?thesis using gather_done [OF ok R_GATHER] r by (simp add: step_simps)
next
  case R_HDR
  then have h: "ws_hdr (w\<lparr>w_in := a\<rparr>) = (None, v)" using r by (simp add: step_simps)
  then have acc: "hdr_accepts w" using hdr_refuses [of "w\<lparr>w_in := a\<rparr>"] by (auto simp: hdr_input)
  then have v: "v = (hdr_next w)\<lparr>w_in := a\<rparr>" using h hdr_run [of "w\<lparr>w_in := a\<rparr>"] by (simp add: hdr_input)
  have "ws_hdr (w\<lparr>w_in := a @ b\<rparr>) = (None, (hdr_next w)\<lparr>w_in := a @ b\<rparr>)"
    using acc hdr_run [of "w\<lparr>w_in := a @ b\<rparr>"] by (simp add: hdr_input)
  then show ?thesis using R_HDR by (simp add: step_simps v)
next
  case R_HLEN2
  then show ?thesis using r by (auto simp: step_simps)
next
  case R_HLEN8
  then show ?thesis using r by (cases "w_buf w ! 2 = 0") (auto simp: step_simps ws_hlen8_def)
next
  case R_HOK
  then show ?thesis using r
    by (cases "w_mask_off w = 0"; cases "w_op w = 0") (auto simp: step_simps ws_hok_def Let_def)
next
  case R_BODY
  have "ws_ok (w\<lparr>w_in := a\<rparr>)" using ok by simp
  then show ?thesis using body_ok [of "w\<lparr>w_in := a\<rparr>"] R_BODY r by (simp add: step_simps)
qed

lemma step_more:
  assumes ok: "ws_ok w" and r: "ws_step (w\<lparr>w_in := a\<rparr>) = (Some FFWEBSKT_RMORE, v)"
  shows "w_in v = [] \<and> ws_step (v\<lparr>w_in := b\<rparr>) = ws_step (w\<lparr>w_in := a @ b\<rparr>)"
proof (cases "w_state w")
  case R_GATHER
  then have g: "ws_gather (w\<lparr>w_in := a\<rparr>) = (Some FFWEBSKT_RMORE, v)" using r by (simp add: step_simps)
  have "w_state v = R_GATHER" using g R_GATHER by (auto simp: ws_gather_def Let_def split: if_splits)
  then show ?thesis using gather_more [OF ok R_GATHER g] R_GATHER by (simp add: step_simps)
next
  case R_HDR
  then have "ws_hdr (w\<lparr>w_in := a\<rparr>) = (Some FFWEBSKT_RMORE, v)" using r by (simp add: step_simps)
  then show ?thesis using hdr_result [of "w\<lparr>w_in := a\<rparr>"] by simp
next
  case R_HLEN8
  then show ?thesis using r by (cases "w_buf w ! 2 = 0") (auto simp: step_simps ws_hlen8_def)
next
  case R_HOK
  then show ?thesis using r by (cases "w_mask_off w = 0"; cases "w_op w = 0") (auto simp: step_simps ws_hok_def Let_def)
next
  case R_BODY
  have "a = [] \<and> v = w\<lparr>w_in := a\<rparr>"
    using r R_BODY by (cases "w_datalen w = 0"; cases "a = []"; cases "w_mask_off w = 0") (auto simp: step_simps ws_body_def Let_def)
  then show ?thesis by simp
qed (use r in \<open>simp_all add: step_simps\<close>)

lemma parse_pieces:
  "ws_ok w \<Longrightarrow> ffwebskt_parse (w\<lparr>w_in := a\<rparr>) = Some (FFWEBSKT_RMORE, v) \<Longrightarrow>
    w_in v = [] \<and> ffwebskt_parse (v\<lparr>w_in := b\<rparr>) = ffwebskt_parse (w\<lparr>w_in := a @ b\<rparr>)"
proof (induction "ws_rank (w_state w) (w_nxstate w)" arbitrary: w a rule: less_induct)
  case less
  have ok': "ws_ok (w\<lparr>w_in := a\<rparr>)" using less.prems(1) by simp
  obtain r w1 where s: "ws_step (w\<lparr>w_in := a\<rparr>) = (r, w1)" by (cases "ws_step (w\<lparr>w_in := a\<rparr>)") auto
  show ?case
  proof (cases r)
    case None
    then have s': "ws_step (w\<lparr>w_in := a @ b\<rparr>) = (None, w1\<lparr>w_in := w_in w1 @ b\<rparr>)" using step_none [OF less.prems(1)] s by simp
    have "ws_ok w1" "ws_rank (w_state w1) (w_nxstate w1) < ws_rank (w_state w) (w_nxstate w)"
      using step_ok [OF ok' s] None by simp_all
    moreover have "ffwebskt_parse (w1\<lparr>w_in := w_in w1\<rparr>) = Some (FFWEBSKT_RMORE, v)"
      using less.prems(2) s None by (simp add: parse_step [of "w\<lparr>w_in := a\<rparr>"])
    ultimately have "w_in v = [] \<and> ffwebskt_parse (v\<lparr>w_in := b\<rparr>) = ffwebskt_parse (w1\<lparr>w_in := w_in w1 @ b\<rparr>)"
      by (intro less.hyps)
    then show ?thesis using s' by (simp add: parse_step [of "w\<lparr>w_in := a @ b\<rparr>"])
  next
    case (Some r')
    then have "r' = FFWEBSKT_RMORE" "w1 = v" using less.prems(2) s by (simp_all add: parse_step [of "w\<lparr>w_in := a\<rparr>"])
    then have "w_in v = [] \<and> ws_step (v\<lparr>w_in := b\<rparr>) = ws_step (w\<lparr>w_in := a @ b\<rparr>)"
      using step_more [OF less.prems(1)] s Some by simp
    then show ?thesis by (simp add: parse_step [of "v\<lparr>w_in := b\<rparr>"] parse_step [of "w\<lparr>w_in := a @ b\<rparr>"])
  qed
qed

section \<open>Frames\<close>

text \<open>A frame of the protocol; a key of 0 stands for no key.\<close>

definition ws_frame :: "bool \<Rightarrow> u8 \<Rightarrow> u32 \<Rightarrow> bytes \<Rightarrow> bytes" where
  "ws_frame fin op key d =
     (let n = length d;
          (l, ext) = (if n < 126 then (word_of_nat n, []) else if n < 65536 then (126, ffint_hton16 (word_of_nat n))
            else (127, ffint_hton64 (word_of_nat n)))
      in [(if fin then 0x80 else 0) OR op, l OR (if key \<noteq> 0 then 0x80 else 0)] @ ext
        @ (if key \<noteq> 0 then bytes4 key @ ffmem_xor4 d key else d))"

definition ws_idle :: "ffwebskt \<Rightarrow> bool" where
  "ws_idle w \<longleftrightarrow> ws_ok w \<and> (w_state w = R_INIT \<or>
     w_state w = R_GATHER \<and> w_nxstate w = R_HDR \<and> w_gathlen w = 2 \<and> w_nbuf w = 0)"

lemma gather_exact:
  assumes ok: "ws_ok w" and st: "w_state w = R_GATHER" and i: "w_in w = x @ rest"
    and l: "length x = unat (w_gathlen w) - unat (w_nbuf w)"
  shows "ws_gather w = (None, w\<lparr>w_buf := put_at (w_buf w) (unat (w_nbuf w)) x, w_nbuf := w_gathlen w, w_in := rest, w_state := w_nxstate w\<rparr>)"
proof -
  have sub: "unat (w_gathlen w - w_nbuf w) = length x" using gather_size(1) [OF ok st] l by simp
  have "w_nbuf w + word_of_nat (length x) = w_gathlen w" by (simp flip: sub)
  then show ?thesis by (simp add: ws_gather_def Let_def sub i)
qed

lemma xor4_append:
  assumes "4 dvd length a"
  shows "ffmem_xor4 (a @ b) k = ffmem_xor4 a k @ ffmem_xor4 b k"
proof -
  obtain q where q: "length a = 4 * q" using assms by (auto elim: dvdE)
  have shift: "i mod 4 = (i - length a) mod 4" if "length a \<le> i" for i
  proof -
    have "i mod 4 = ((i - length a) + 4 * q) mod 4" using that q by simp
    then show ?thesis by simp
  qed
  have "map (\<lambda>i. bytes4 k ! (i mod 4)) [0..<length (a @ b)]
      = map (\<lambda>i. bytes4 k ! (i mod 4)) [0..<length a] @ map (\<lambda>i. bytes4 k ! (i mod 4)) [0..<length b]"
  proof (rule nth_equalityI)
    fix i assume "i < length (map (\<lambda>i. bytes4 k ! (i mod 4)) [0..<length (a @ b)])"
    then show "map (\<lambda>i. bytes4 k ! (i mod 4)) [0..<length (a @ b)] ! i
        = (map (\<lambda>i. bytes4 k ! (i mod 4)) [0..<length a] @ map (\<lambda>i. bytes4 k ! (i mod 4)) [0..<length b]) ! i"
      using shift by (cases "i < length a") (auto simp: nth_append)
  qed simp
  then show ?thesis by (simp add: ffmem_xor4_def xor4_loop_keystream zip_append)
qed


lemma and_within:
  assumes "(x :: 'a::len word) AND m = x"
  shows "(x OR y) AND m = x OR (y AND m)" and "m AND z = 0 \<Longrightarrow> (x OR y) AND z = y AND z"
proof -
  show "(x OR y) AND m = x OR (y AND m)" by (simp only: bit.conj_disj_distrib2 assms)
  assume z: "m AND z = 0"
  have "x AND z = x AND (m AND z)" by (simp only: and.assoc [symmetric] assms)
  then show "(x OR y) AND z = y AND z" by (simp only: bit.conj_disj_distrib2 z bit.conj_zero_right or.left_neutral)
qed

lemma frame_byte0:
  assumes op: "op AND 0x0f = (op :: u8)"
  shows "((if fin then 0x80 else 0) OR op) AND WS_F_RES = 0" "((if fin then 0x80 else 0) OR op) AND WS_F_OPCODE = op"
    and "((if fin then 0x80 else 0) OR op) AND WS_F_FIN = 0 \<longleftrightarrow> \<not> fin"
proof -
  have c: "(if fin then 0x80 else 0) OR op = op OR (if fin then 0x80 else 0)" by (rule or.commute)
  show "((if fin then 0x80 else 0) OR op) AND WS_F_RES = 0" "((if fin then 0x80 else 0) OR op) AND WS_F_OPCODE = op"
    "((if fin then 0x80 else 0) OR op) AND WS_F_FIN = 0 \<longleftrightarrow> \<not> fin"
    unfolding c using and_within [OF op] by (simp_all add: WS_F_RES_def WS_F_OPCODE_def WS_F_FIN_def)
qed

lemma frame_byte1:
  assumes "unat (x :: u8) < 128"
  shows "(x OR (if k then 0x80 else 0)) AND WS_F_DATALEN = x" "(x OR (if k then 0x80 else 0)) AND WS_F_MASK \<noteq> 0 \<longleftrightarrow> k"
proof -
  have "take_bit 7 x = x"
    using assms by (simp add: word_unat_iff unsigned_take_bit_eq take_bit_nat_eq_self del: word_unat_eq_iff)
  then have "x AND mask 7 = x" by (simp only: take_bit_eq_mask)
  moreover have "mask 7 = (0x7f :: u8)" by (simp add: mask_eq_exp_minus_1)
  ultimately have x: "x AND 0x7f = x" by simp
  show "(x OR (if k then 0x80 else 0)) AND WS_F_DATALEN = x" "(x OR (if k then 0x80 else 0)) AND WS_F_MASK \<noteq> 0 \<longleftrightarrow> k"
    using and_within [OF x] by (simp_all add: WS_F_DATALEN_def WS_F_MASK_def)
qed

lemma parse_none: "ws_step w = (None, w') \<Longrightarrow> ffwebskt_parse w = ffwebskt_parse w'"
  by (simp add: parse_step [of w])

lemma idle_start:
  assumes i: "ws_idle w" and t: "w_in w = b0 # b1 # t"
  shows "\<exists>w1. ffwebskt_parse w = ffwebskt_parse w1 \<and> ws_ok w1 \<and> w_state w1 = R_HDR \<and> w_in w1 = t
    \<and> w_buf w1 ! 0 = b0 \<and> w_buf w1 ! 1 = b1 \<and> w_cont w1 = w_cont w \<and> w_server w1 = w_server w"
proof -
  have gather: "\<exists>w1. ffwebskt_parse v = ffwebskt_parse w1 \<and> ws_ok w1 \<and> w_state w1 = R_HDR \<and> w_in w1 = t
    \<and> w_buf w1 ! 0 = b0 \<and> w_buf w1 ! 1 = b1 \<and> w_cont w1 = w_cont v \<and> w_server w1 = w_server v"
    if v: "ws_ok v" "w_state v = R_GATHER" "w_nxstate v = R_HDR" "w_gathlen v = 2" "w_nbuf v = 0" "w_in v = b0 # b1 # t" for v
  proof -
    have g: "ws_gather v = (None, v\<lparr>w_buf := put_at (w_buf v) (unat (w_nbuf v)) [b0, b1], w_nbuf := w_gathlen v, w_in := t, w_state := w_nxstate v\<rparr>)"
      using v by (intro gather_exact) simp_all
    define w1 where "w1 = v\<lparr>w_buf := put_at (w_buf v) (unat (w_nbuf v)) [b0, b1], w_nbuf := w_gathlen v, w_in := t, w_state := w_nxstate v\<rparr>"
    have s: "ws_step v = (None, w1)" using g v by (simp add: step_simps w1_def)
    have "ws_ok w1" using step_ok [OF v(1) s] by simp
    moreover have "w_buf w1 ! 0 = b0" "w_buf w1 ! 1 = b1" by (simp_all add: w1_def v put_at_def)
    ultimately show ?thesis using parse_none [OF s] v by (intro exI [of _ w1]) (simp add: w1_def)
  qed
  show ?thesis
  proof (cases "w_state w")
    case R_INIT
    have o: "ws_ok w" "w_nbuf w = 0" using i R_INIT by (simp_all add: ws_idle_def ws_ok_def)
    have s: "ws_step w = (None, GATHER w R_HDR 2)" using R_INIT by (simp add: step_simps)
    have "\<exists>w1. ffwebskt_parse (GATHER w R_HDR 2) = ffwebskt_parse w1 \<and> ws_ok w1 \<and> w_state w1 = R_HDR \<and> w_in w1 = t
      \<and> w_buf w1 ! 0 = b0 \<and> w_buf w1 ! 1 = b1 \<and> w_cont w1 = w_cont (GATHER w R_HDR 2) \<and> w_server w1 = w_server (GATHER w R_HDR 2)"
      using step_ok [OF o(1) s] o t by (intro gather) (simp_all add: GATHER_def)
    then show ?thesis using parse_none [OF s] by (simp add: GATHER_def)
  next
    case R_GATHER
    then show ?thesis using i t by (intro gather) (simp_all add: ws_idle_def)
  qed (use i in \<open>simp_all add: ws_idle_def\<close>)
qed

text \<open>What the reader holds when the header is read.\<close>

definition in_body :: "ffwebskt \<Rightarrow> u32 \<Rightarrow> nat \<Rightarrow> bytes \<Rightarrow> bool" where
  "in_body w key n x \<longleftrightarrow> ws_ok w \<and> w_state w = R_BODY \<and> unat (w_datalen w) = n \<and> w_in w = x
    \<and> (if key \<noteq> 0 then w_mask_off w \<noteq> 0 \<and> w_mask w = key else w_mask_off w = 0)"

lemma le4_bytes4: "le4 (bytes4 k ! 0) (bytes4 k ! 1) (bytes4 k ! 2) (bytes4 k ! 3) = k"
proof (rule bit_word_eqI)
  fix n assume "n < LENGTH(32)"
  then have "n < 32" by simp
  then consider "n < 8" | "8 \<le> n" "n < 16" | "16 \<le> n" "n < 24" | "24 \<le> n" "n < 32" by linarith
  then show "bit (le4 (bytes4 k ! 0) (bytes4 k ! 1) (bytes4 k ! 2) (bytes4 k ! 3)) n = bit k n"
    by cases (auto simp: le4_def bytes4_def bit_simps)
qed

text \<open>The first frame of a message is reported; after the header of a continuation the call goes on to the body.\<close>

definition reports :: "ffwebskt \<Rightarrow> ffwebskt \<Rightarrow> bool" where
  "reports w w' \<longleftrightarrow> (if w_op w' = 0 then ffwebskt_parse w = ffwebskt_parse w'
     else ffwebskt_parse w = Some (FFWEBSKT_RMSG, w'))"

lemma reports_trans: "ffwebskt_parse w = ffwebskt_parse v \<Longrightarrow> reports v w' \<Longrightarrow> reports w w'"
  by (simp add: reports_def split: if_splits)

lemma hok_run:
  assumes ok: "ws_ok w" and st: "w_state w = R_HOK"
    and k: "if key \<noteq> 0 then w_mask_off w \<noteq> 0 \<and> take 4 (drop (w_mask_off w) (w_buf w)) = bytes4 key else w_mask_off w = 0"
  shows "\<exists>w'. reports w w' \<and> in_body w' key (unat (w_datalen w)) (w_in w)
    \<and> w_op w' = w_op w \<and> w_cont w' = w_cont w"
proof -
  define m where "m = (if key \<noteq> 0 then key else w_mask w)"
  have "ws_step w = (if w_op w = 0 then None else Some FFWEBSKT_RMSG, w\<lparr>w_mask := m, w_state := R_BODY\<rparr>)"
  proof (cases "key = 0")
    case True
    then show ?thesis using k st by (simp add: step_simps ws_hok_def m_def Let_def)
  next
    case False
    define o' where "o' = w_mask_off w"
    have o: "o' \<noteq> 0" "take 4 (drop o' (w_buf w)) = bytes4 key" using k False by (simp_all add: o'_def)
    have len: "o' + 4 \<le> length (w_buf w)" using ok by (simp add: ws_ok_def o'_def WS_BUFSIZE_def)
    have n: "w_buf w ! (o' + i) = bytes4 key ! i" if "i < 4" for i
    proof -
      have "bytes4 key ! i = take 4 (drop o' (w_buf w)) ! i" by (simp only: o(2))
      then show ?thesis using that len by simp
    qed
    have "le4 (w_buf w ! o') (w_buf w ! (o' + 1)) (w_buf w ! (o' + 2)) (w_buf w ! (o' + 3)) = key"
      using n [of 0] n [of 1] n [of 2] n [of 3] le4_bytes4 [of key] by simp
    then show ?thesis using st False o(1) unfolding step_simps(6) [OF st] ws_hok_def Let_def o'_def [symmetric]
      by (simp add: m_def)
  qed
  moreover have "ws_ok (w\<lparr>w_mask := m, w_state := R_BODY\<rparr>)" using ok by (simp add: ws_ok_def)
  ultimately show ?thesis using k
    by (intro exI [of _ "w\<lparr>w_mask := m, w_state := R_BODY\<rparr>"]) (auto simp: reports_def parse_step [of w] in_body_def m_def)
qed


lemma ext_run:
  assumes ok: "ws_ok w" and st: "w_state w = R_GATHER" and n: "w_nbuf w = 2" and g: "unat (w_gathlen w) = 2 + length x"
    and i: "w_in w = x @ t"
  shows "\<exists>v. ffwebskt_parse w = ffwebskt_parse v \<and> ws_ok v \<and> v = w\<lparr>w_buf := put_at (w_buf w) 2 x, w_nbuf := w_gathlen w, w_in := t, w_state := w_nxstate w\<rparr>
    \<and> take (length x) (drop 2 (w_buf v)) = x"
proof -
  have s: "ws_step w = (None, w\<lparr>w_buf := put_at (w_buf w) 2 x, w_nbuf := w_gathlen w, w_in := t, w_state := w_nxstate w\<rparr>)"
    using gather_exact [OF ok st i] n g st by (simp add: step_simps)
  have "length (w_buf w) = WS_BUFSIZE" "unat (w_gathlen w) \<le> 14" using ok st by (auto simp: ws_ok_def)
  then have "take (length x) (drop 2 (put_at (w_buf w) 2 x)) = x" by (simp add: put_at_def WS_BUFSIZE_def)
  then show ?thesis using step_ok [OF ok s] parse_none [OF s] by simp
qed

lemma take_within: "take n (drop k b) = x @ y \<Longrightarrow> take (length y) (drop (k + length x) b) = y"
proof -
  assume a: "take n (drop k b) = x @ y"
  have "drop (length x) (take n (drop k b)) = y" unfolding a by simp
  then have y: "take (n - length x) (drop (k + length x) b) = y" by (simp add: drop_take add.commute)
  then have "take (length y) (take (n - length x) (drop (k + length x) b)) = y" by simp
  moreover have "length y \<le> n - length x" using y by (metis length_take min.cobounded2)
  ultimately show ?thesis by (simp add: min_absorb1)
qed

lemma nth_taken:
  assumes "take (length x) (drop k b) = x" "i < length x"
  shows "b ! (k + i) = x ! i"
proof -
  have "x ! i = take (length x) (drop k b) ! i" using assms(1) by simp
  also have "\<dots> = drop k b ! i" using assms(2) by simp
  also have "\<dots> = b ! (k + i)"
  proof (rule nth_drop)
    have "length (take (length x) (drop k b)) = length x" using assms(1) by simp
    then show "k \<le> length b" using assms(2) by auto
  qed
  finally show ?thesis by simp
qed

lemma ntoh64_hton64: "ffint_ntoh64 (ffint_hton64 x @ y) = x" "ffint_hton64 x ! 0 = ucast (drop_bit 56 x)" "length (ffint_hton64 x) = 8"
proof -
  show "ffint_hton64 x ! 0 = ucast (drop_bit 56 x)" "length (ffint_hton64 x) = 8" by (simp_all add: ffint_hton64_def)
  have l: "[0..<8] = [0, 1, 2, 3, 4, 5, 6, 7 :: nat]" by (simp add: upt_rec)
  have "ffint_ntoh64 (ffint_hton64 x @ y) = foldl (\<lambda>r b. push_bit 8 r OR ucast b) (0 :: u64) (ffint_hton64 x)"
    by (simp add: ffint_ntoh64_def ffint_hton64_def)
  also have "\<dots> = x"
  proof (rule bit_word_eqI)
    fix n assume "n < LENGTH(64)"
    then have "n < 64" by simp
    then consider "n < 8" | "8 \<le> n" "n < 16" | "16 \<le> n" "n < 24" | "24 \<le> n" "n < 32"
      | "32 \<le> n" "n < 40" | "40 \<le> n" "n < 48" | "48 \<le> n" "n < 56" | "56 \<le> n" "n < 64" by linarith
    then show "bit (foldl (\<lambda>r b. push_bit 8 r OR ucast b) (0 :: u64) (ffint_hton64 x)) n = bit x n"
      by cases (auto simp: ffint_hton64_def l bit_simps)
  qed
  finally show "ffint_ntoh64 (ffint_hton64 x @ y) = x" .
qed


definition payload :: "u32 \<Rightarrow> bytes \<Rightarrow> bytes" where
  "payload key d = (if key \<noteq> 0 then ffmem_xor4 d key else d)"

definition key_bytes :: "u32 \<Rightarrow> bytes" where
  "key_bytes key = (if key \<noteq> 0 then bytes4 key else [])"

lemma key_bytes_size: "length (key_bytes key) = (if key \<noteq> 0 then 4 else 0)"
  by (simp add: key_bytes_def bytes4_def)

text \<open>From the gathered header, with its length decoded by \<open>dec\<close>, to the body.\<close>

lemma header_tail:
  assumes ok: "ws_ok w" and st: "w_state w = R_GATHER" and n: "w_nbuf w = 2"
    and g: "unat (w_gathlen w) = 2 + length (ext @ key_bytes key)"
    and i: "w_in w = ext @ key_bytes key @ t"
    and m: "w_mask_off w = (if key \<noteq> 0 then 2 + length ext else 0)"
    and dec: "\<And>v. w_state v = w_nxstate w \<Longrightarrow> take (length ext) (drop 2 (w_buf v)) = ext \<Longrightarrow> w_datalen v = w_datalen w \<Longrightarrow>
      ffwebskt_parse v = ffwebskt_parse (v\<lparr>w_datalen := len, w_state := R_HOK\<rparr>)"
  shows "\<exists>w'. reports w w' \<and> in_body w' key (unat len) t \<and> w_op w' = w_op w \<and> w_cont w' = w_cont w"
proof -
  obtain v where v: "ffwebskt_parse w = ffwebskt_parse v" "ws_ok v"
    "v = w\<lparr>w_buf := put_at (w_buf w) 2 (ext @ key_bytes key), w_nbuf := w_gathlen w, w_in := t, w_state := w_nxstate w\<rparr>"
    "take (length (ext @ key_bytes key)) (drop 2 (w_buf v)) = ext @ key_bytes key"
    using ext_run [OF ok st n g, of t] i by auto
  have "take (length ext) (take (length (ext @ key_bytes key)) (drop 2 (w_buf v))) = ext" unfolding v(4) by simp
  then have e: "take (length ext) (drop 2 (w_buf v)) = ext" by (simp add: min_absorb1)
  define v2 where "v2 = v\<lparr>w_datalen := len, w_state := R_HOK\<rparr>"
  have p: "ffwebskt_parse w = ffwebskt_parse v2" using v(1) dec [of v] e by (simp add: v2_def v(3))
  have mo: "w_mask_off v2 = (if key \<noteq> 0 then 2 + length ext else 0)" by (simp add: v2_def v(3) m)
  have "take (length (key_bytes key)) (drop (2 + length ext) (w_buf v)) = key_bytes key" using take_within [OF v(4)] .
  then have k: "if key \<noteq> 0 then w_mask_off v2 \<noteq> 0 \<and> take 4 (drop (w_mask_off v2) (w_buf v2)) = bytes4 key else w_mask_off v2 = 0"
    using mo by (auto simp: key_bytes_def v2_def bytes4_def eval_nat_numeral split: if_splits)
  have "ws_ok v2" using v(2) by (simp add: v2_def ws_ok_def)
  moreover have "w_state v2 = R_HOK" by (simp add: v2_def)
  ultimately obtain w' where "reports v2 w'" "in_body w' key (unat (w_datalen v2)) (w_in v2)"
    "w_op w' = w_op v2" "w_cont w' = w_cont v2" using hok_run [OF _ _ k] by blast
  then show ?thesis using reports_trans [OF p] by (auto simp: v2_def v(3))
qed

lemma frame_header:
  assumes i: "ws_idle w" and t: "w_in w = ws_frame fin op key d @ rest" and op: "op AND 0x0f = op"
    and c: "op = 0 \<longleftrightarrow> w_cont w" and s: "w_server w \<Longrightarrow> key \<noteq> 0" and d: "length d < 2 ^ 56"
  shows "\<exists>w'. reports w w' \<and> in_body w' key (length d) (payload key d @ rest)
    \<and> w_op w' = op \<and> w_cont w' = (\<not> fin)"
proof -
  define n where "n = length d"
  define l :: u8 where "l = (if n < 126 then word_of_nat n else if n < 65536 then 126 else 127)"
  define ext where "ext = (if n < 126 then [] else if n < 65536 then ffint_hton16 (word_of_nat n) else ffint_hton64 (word_of_nat n))"
  define b0 :: u8 where "b0 = (if fin then 0x80 else 0) OR op"
  define b1 :: u8 where "b1 = l OR (if key \<noteq> 0 then 0x80 else 0)"
  define x where "x = ext @ key_bytes key @ payload key d @ rest"
  have t': "w_in w = b0 # b1 # x"
    by (simp add: t ws_frame_def Let_def b0_def b1_def l_def ext_def x_def n_def key_bytes_def payload_def)
  obtain w1 where w1: "ffwebskt_parse w = ffwebskt_parse w1" "ws_ok w1" "w_state w1 = R_HDR" "w_in w1 = x"
    "w_buf w1 ! 0 = b0" "w_buf w1 ! 1 = b1" "w_cont w1 = w_cont w" "w_server w1 = w_server w"
    using idle_start [OF i t'] by blast
  have ul: "unat l = (if n < 126 then n else if n < 65536 then 126 else 127)" by (simp add: l_def unat_of_nat)
  then have "unat l < 128" by simp
  note b1' = frame_byte1 [OF this, of "key \<noteq> 0", folded b1_def]
  note b0' = frame_byte0 [OF op, of fin, folded b0_def]
  have acc: "hdr_accepts w1" unfolding hdr_accepts_def w1(5-8) b0' b1' using op c s by simp
  have p1: "ffwebskt_parse w = ffwebskt_parse (hdr_next w1)"
    using w1(1,3) hdr_run [OF acc] by (simp add: parse_step [of w1] step_simps)
  have ok2: "ws_ok (hdr_next w1)" using hdr_next_ok w1 by simp
  have nb: "w_nbuf w1 = 2" using w1(2,3) by (simp add: ws_ok_def)
  have e: "hdr_next w1 =
     (if l = 126 then GATHER (w1\<lparr>w_op := op, w_cont := (\<not> fin), w_mask_off := if key \<noteq> 0 then 4 else 0\<rparr>) R_HLEN2 (if key \<noteq> 0 then 8 else 4)
      else if l = 127 then GATHER (w1\<lparr>w_op := op, w_cont := (\<not> fin), w_mask_off := if key \<noteq> 0 then 10 else 0\<rparr>) R_HLEN8 (if key \<noteq> 0 then 14 else 10)
      else if key \<noteq> 0 then GATHER (w1\<lparr>w_op := op, w_cont := (\<not> fin), w_datalen := ucast l, w_mask_off := 2\<rparr>) R_HOK 6
      else w1\<lparr>w_op := op, w_cont := (\<not> fin), w_datalen := ucast l, w_mask_off := 0, w_state := R_HOK\<rparr>)"
    by (simp only: hdr_next_def Let_def w1(5,6) b0' b1')
  have lim: "(word_of_nat n :: u64) = word_of_nat n \<and> unat (word_of_nat n :: u64) = n" using d by (simp add: unat_of_nat n_def)
  have op2: "w_op (hdr_next w1) = op" "w_cont (hdr_next w1) = (\<not> fin)" by (simp_all add: e GATHER_def)
  have goal: ?thesis if "\<exists>w'. reports (hdr_next w1) w' \<and> in_body w' key n (payload key d @ rest)
      \<and> w_op w' = w_op (hdr_next w1) \<and> w_cont w' = w_cont (hdr_next w1)"
    using that reports_trans [OF p1] op2 by (auto simp: n_def)
  consider "n < 126" | "126 \<le> n" "n < 65536" | "65536 \<le> n" by linarith
  then show ?thesis
  proof cases
    case 1
    have l': "l \<noteq> 126" "l \<noteq> 127" using ul 1 by auto
    have ul': "unat (ucast l :: u64) = n" using ul 1 by simp
    show ?thesis
    proof (cases "key = 0")
      case True
      have "\<exists>w'. reports (hdr_next w1) w' \<and> in_body w' key (unat (w_datalen (hdr_next w1))) (w_in (hdr_next w1))
          \<and> w_op w' = w_op (hdr_next w1) \<and> w_cont w' = w_cont (hdr_next w1)"
        using op2 True l' by (intro hok_run ok2) (simp_all add: e)
      moreover have "unat (w_datalen (hdr_next w1)) = n" "w_in (hdr_next w1) = payload key d @ rest"
        using True l' ul' 1 by (simp_all add: e w1(4) x_def ext_def key_bytes_def)
      ultimately show ?thesis by (intro goal) simp
    next
      case False
      have "\<exists>w'. reports (hdr_next w1) w' \<and> in_body w' key (unat (ucast l :: u64)) (payload key d @ rest)
          \<and> w_op w' = w_op (hdr_next w1) \<and> w_cont w' = w_cont (hdr_next w1)"
      proof (rule header_tail [OF ok2, of "[]"])
        fix v :: ffwebskt assume v: "w_state v = w_nxstate (hdr_next w1)" "w_datalen v = w_datalen (hdr_next w1)"
        have "v = v\<lparr>w_datalen := ucast l, w_state := R_HOK\<rparr>" using v False l' by (simp add: e GATHER_def)
        then show "ffwebskt_parse v = ffwebskt_parse (v\<lparr>w_datalen := ucast l, w_state := R_HOK\<rparr>)" by simp
      qed (use False l' op2 nb 1 in \<open>simp_all add: e GATHER_def key_bytes_size w1(4) x_def ext_def\<close>)
      then show ?thesis unfolding ul' by (rule goal)
    qed
  next
    case 2
    have l': "l = 126" using 2 by (simp add: l_def)
    have ext: "ext = ffint_hton16 (word_of_nat n)" using 2 by (simp add: ext_def)
    have "\<exists>w'. reports (hdr_next w1) w' \<and> in_body w' key (unat (word_of_nat n :: u64)) (payload key d @ rest)
          \<and> w_op w' = w_op (hdr_next w1) \<and> w_cont w' = w_cont (hdr_next w1)"
    proof (rule header_tail [OF ok2, of ext])
      fix v :: ffwebskt assume v: "w_state v = w_nxstate (hdr_next w1)" "take (length ext) (drop 2 (w_buf v)) = ext"
      have st: "w_state v = R_HLEN2" using v(1) l' by (simp add: e GATHER_def)
      have b: "w_buf v ! 2 = ucast (drop_bit 8 (word_of_nat n :: u16))" "w_buf v ! 3 = ucast (word_of_nat n :: u16)"
        using nth_taken [OF v(2), of 0] nth_taken [OF v(2), of 1] by (simp_all add: ext ffint_hton16_def)
      have "ffint_ntoh16 (w_buf v ! 2) (w_buf v ! 3) = ucast (word_of_nat n :: u16)" unfolding b by (rule ntoh16_hton16)
      moreover have "(ucast (ucast (word_of_nat n :: u16) :: u32) :: u64) = word_of_nat n"
        using 2 by (intro word_unat_iff [THEN iffD2]) (simp add: unat_of_nat)
      ultimately show "ffwebskt_parse v = ffwebskt_parse (v\<lparr>w_datalen := word_of_nat n, w_state := R_HOK\<rparr>)"
        using st by (intro parse_none) (simp add: step_simps)
    qed (use l' op2 nb in \<open>simp_all add: e GATHER_def key_bytes_size w1(4) x_def ext ffint_hton16_def\<close>)
    then show ?thesis using lim by (intro goal) simp
  next
    case 3
    have l': "l = 127" using 3 by (simp add: l_def)
    have ext: "ext = ffint_hton64 (word_of_nat n)" using 3 by (simp add: ext_def)
    have e8: "length ext = 8" by (simp add: ext ntoh64_hton64(3))
    have "\<exists>w'. reports (hdr_next w1) w' \<and> in_body w' key (unat (word_of_nat n :: u64)) (payload key d @ rest)
          \<and> w_op w' = w_op (hdr_next w1) \<and> w_cont w' = w_cont (hdr_next w1)"
    proof (rule header_tail [OF ok2, of ext])
      fix v :: ffwebskt assume v: "w_state v = w_nxstate (hdr_next w1)" "take (length ext) (drop 2 (w_buf v)) = ext"
      have st: "w_state v = R_HLEN8" using v(1) l' by (simp add: e GATHER_def)
      have dr: "drop 2 (w_buf v) = ext @ drop (length ext) (drop 2 (w_buf v))" using v(2) by (metis append_take_drop_id)
      have n64: "ffint_ntoh64 (drop 2 (w_buf v)) = word_of_nat n" by (subst dr) (simp only: ext ntoh64_hton64(1))
      have "w_buf v ! 2 = ext ! 0" using nth_taken [OF v(2), of 0] e8 by simp
      also have "\<dots> = ucast (drop_bit 56 (word_of_nat n :: u64))" by (simp only: ext ntoh64_hton64(2))
      also have "drop_bit 56 (word_of_nat n :: u64) = 0"
        using d by (intro word_unat_iff [THEN iffD2]) (simp add: drop_bit_eq_div unat_div unat_of_nat n_def)
      finally have "w_buf v ! 2 = 0" by simp
      then show "ffwebskt_parse v = ffwebskt_parse (v\<lparr>w_datalen := word_of_nat n, w_state := R_HOK\<rparr>)"
        using st n64 by (intro parse_none) (simp add: step_simps ws_hlen8_def)
    qed (use l' op2 nb e8 in \<open>simp_all add: e GATHER_def key_bytes_size w1(4) x_def\<close>)
    then show ?thesis using lim by (intro goal) simp
  qed
qed


section \<open>Bodies\<close>

text \<open>The pieces of a body that up to \<open>k\<close> calls hand out, up to the end of the message.\<close>

fun ws_read :: "nat \<Rightarrow> ffwebskt \<Rightarrow> (bytes \<times> ffwebskt) option" where
  "ws_read 0 w = None"
| "ws_read (Suc k) w =
     (case ffwebskt_parse w of
        Some (FFWEBSKT_RDATA, w') \<Rightarrow> map_option (\<lambda>(d, v). (w_out w' @ d, v)) (ws_read k w')
      | Some (FFWEBSKT_RDATA_FIN, w') \<Rightarrow> Some ([], w')
      | _ \<Rightarrow> None)"

lemma xor4_twice: "ffmem_xor4 (ffmem_xor4 s k) k = s"
  using ffmem_xor_twice [OF ffmem_xor4_eq [of s k]] ffmem_xor4_eq [of "ffmem_xor4 s k" k] by simp

lemma payload_split:
  assumes "m \<le> length d" "key \<noteq> 0 \<Longrightarrow> 4 dvd m \<or> m = length d"
  shows "take m (payload key d @ rest) = payload key (take m d)" and "drop m (payload key d @ rest) = payload key (drop m d) @ rest"
proof -
  have "payload key d = payload key (take m d) @ payload key (drop m d)"
  proof (cases "m = length d")
    case True
    then show ?thesis by (simp add: payload_def ffmem_xor4_def)
  next
    case False
    then have "key \<noteq> 0 \<Longrightarrow> 4 dvd length (take m d)" using assms by (auto simp: min_absorb2)
    then show ?thesis using xor4_append [of "take m d" "drop m d" key] by (auto simp: payload_def)
  qed
  moreover have "length (payload key (take m d)) = m" using assms(1) by (simp add: payload_def)
  ultimately show "take m (payload key d @ rest) = payload key (take m d)" "drop m (payload key d @ rest) = payload key (drop m d) @ rest"
    by simp_all
qed

lemma body_end:
  assumes "in_body w key 0 (payload key [] @ rest)"
  shows "\<exists>w'. ffwebskt_parse w = Some (FFWEBSKT_RDATA_FIN, w') \<and> ws_idle w' \<and> w_in w' = rest \<and> w_cont w' = w_cont w"
proof -
  define w' where "w' = GATHER (w\<lparr>w_nbuf := 0\<rparr>) R_HDR 2"
  have w: "ws_ok w" "w_state w = R_BODY" "w_datalen w = 0" "w_in w = rest"
    using assms by (auto simp: in_body_def payload_def ffmem_xor4_def unat_eq_zero)
  have s: "ws_step w = (Some FFWEBSKT_RDATA_FIN, w')" using w by (simp add: step_simps ws_body_def w'_def)
  have "ws_ok w'" using step_ok [OF w(1) s] by simp
  then show ?thesis using s w(4) by (intro exI [of _ w']) (simp add: parse_step [of w] ws_idle_def w'_def GATHER_def)
qed

lemma body_piece:
  assumes b: "in_body w key (length d) (payload key d @ rest)" and d: "d \<noteq> []"
  shows "\<exists>m w'. 0 < m \<and> m \<le> length d \<and> ffwebskt_parse w = Some (FFWEBSKT_RDATA, w') \<and> w_out w' = take m d
    \<and> in_body w' key (length (drop m d)) (payload key (drop m d) @ rest) \<and> w_cont w' = w_cont w"
proof -
  define m where "m = (if key \<noteq> 0 then min (length d) WS_BUFSIZE else length d)"
  have m: "0 < m" "m \<le> length d" "key \<noteq> 0 \<Longrightarrow> 4 dvd m \<or> m = length d"
    using d by (auto simp: m_def WS_BUFSIZE_def min_def)
  have w: "ws_ok w" "w_state w = R_BODY" "unat (w_datalen w) = length d" "w_in w = payload key d @ rest"
    "w_mask_off w = 0 \<longleftrightarrow> key = 0" "key \<noteq> 0 \<Longrightarrow> w_mask w = key"
    using b by (auto simp: in_body_def split: if_splits)
  have nz: "w_datalen w \<noteq> 0" "w_in w \<noteq> []" using w(3,4) d by (auto simp: payload_def dest: arg_cong [where f = length])
  have nn: "min (unat (w_datalen w)) (length (w_in w)) = length d" by (simp add: w(3,4) payload_def)
  have dl: "unat (w_datalen w - word_of_nat m) = length (drop m d)"
  proof -
    have "length d < 2 ^ 64" using w(3) unat_lt2p_64 [of "w_datalen w"] by simp
    then have um: "unat (word_of_nat m :: u64) = m" using m(2) by (simp add: unat_of_nat)
    then have "word_of_nat m \<le> w_datalen w" using m(2) w(3) by (simp add: word_le_nat_alt)
    then show ?thesis using um w(3) by (simp add: unat_sub)
  qed
  note sp = payload_split [OF m(2,3), of key rest]
  show ?thesis
  proof (cases "key = 0")
    case True
    define w' where "w' = w\<lparr>w_out := take m (w_in w), w_in := drop m (w_in w), w_datalen := w_datalen w - word_of_nat m\<rparr>"
    have mm: "m = length d" using True by (simp add: m_def)
    have s: "ws_step w = (Some FFWEBSKT_RDATA, w')"
      using nz w(5) True by (simp add: step_simps(7) [OF w(2)] ws_body_def nn w'_def mm Let_def)
    have "ws_ok w'" using step_ok [OF w(1) s] by simp
    then have "in_body w' key (length (drop m d)) (payload key (drop m d) @ rest)"
      using w dl sp True by (simp add: in_body_def w'_def)
    then show ?thesis using s m sp True w(4)
      by (intro exI [of _ m] exI [of _ w']) (simp add: parse_step [of w] w'_def payload_def)
  next
    case False
    have mm: "m = min (length d) WS_BUFSIZE" using False by (simp add: m_def)
    define e where "e = ffmem_xor4 (take m (w_in w)) (w_mask w)"
    define w' where "w' = w\<lparr>w_buf := put_at (w_buf w) 0 e, w_out := e, w_in := drop m (w_in w), w_datalen := w_datalen w - word_of_nat m\<rparr>"
    have s: "ws_step w = (Some FFWEBSKT_RDATA, w')"
      using nz w(5) False by (simp add: step_simps(7) [OF w(2)] ws_body_def nn w'_def mm e_def Let_def)
    have "e = take m d" using sp(1) w(4,6) False by (simp add: e_def payload_def xor4_twice)
    moreover have "ws_ok w'" using step_ok [OF w(1) s] by simp
    then have "in_body w' key (length (drop m d)) (payload key (drop m d) @ rest)"
      using w dl sp False by (simp add: in_body_def w'_def)
    ultimately show ?thesis using s m by (intro exI [of _ m] exI [of _ w']) (simp add: parse_step [of w] w'_def)
  qed
qed

lemma body_read:
  "in_body w key (length d) (payload key d @ rest) \<Longrightarrow> length d < k \<Longrightarrow>
    \<exists>w'. ws_read k w = Some (d, w') \<and> ws_idle w' \<and> w_in w' = rest \<and> w_cont w' = w_cont w"
proof (induction k arbitrary: w d)
  case (Suc k)
  show ?case
  proof (cases "d = []")
    case True
    then show ?thesis using body_end [of w key rest] Suc.prems by auto
  next
    case False
    obtain m w1 where m: "0 < m" "m \<le> length d" "ffwebskt_parse w = Some (FFWEBSKT_RDATA, w1)" "w_out w1 = take m d"
      "in_body w1 key (length (drop m d)) (payload key (drop m d) @ rest)" "w_cont w1 = w_cont w"
      using body_piece [OF Suc.prems(1) False] by blast
    have "length (drop m d) < k" using m(1,2) Suc.prems(2) by simp
    then obtain w' where "ws_read k w1 = Some (drop m d, w')" "ws_idle w'" "w_in w' = rest" "w_cont w' = w_cont w1"
      using Suc.IH [OF m(5)] by blast
    then show ?thesis using m by simp
  qed
qed simp

lemma write_short:
  assumes "length d < 126"
  shows "write_msg d key op = ws_frame True op key d"
proof -
  have e: "write_body \<lparr>c_in = [], c_out = x, c_mask = k\<rparr> = []" for x k by (simp add: write_body.simps)
  have body: "write_body \<lparr>c_in = d, c_out = o', c_mask = k\<rparr> = payload k d" for o' k
    using assms by (cases "d = []"; cases "k = 0")
      (simp_all add: write_body.simps [of "\<lparr>c_in = d, c_out = o', c_mask = k\<rparr>" for k] e ffwebskt_writenext_def
        WS_BUFSIZE_def Let_def payload_def ffmem_xor4_def)
  show ?thesis using assms
    by (simp add: write_msg_def ffwebskt_newmsg_def WS_MAXMSG1_def WS_MAXMSG_def WS_F_FIN_def WS_F_MASK_def ws_frame_def Let_def body payload_def)
qed


section \<open>Properties\<close>

text \<open>
  C20: From every well-formed state of the reader, the initial one included, and with any bytes as input, a call returns,
  and unless it reports an error the state is well-formed again: the gathered header never outgrows the buffer.
\<close>

theorem ffwebskt_parse_returns:
  assumes "ws_ok w"
  shows "\<exists>r w'. ffwebskt_parse (w\<lparr>w_in := d\<rparr>) = Some (r, w') \<and> (r \<noteq> FFWEBSKT_RERR \<longrightarrow> ws_ok w')"
  using parse_returns [of "w\<lparr>w_in := d\<rparr>"] assms by simp

lemma ws_init_ok: "ws_ok (ws_init server)"
  by (simp add: ws_ok_def ws_init_def)

lemma ffwebskt_parse_returns_witness:
  "\<exists>r w'. ffwebskt_parse ((ws_init True)\<lparr>w_in := [1, 2, 3]\<rparr>) = Some (r, w') \<and> (r \<noteq> FFWEBSKT_RERR \<longrightarrow> ws_ok w')"
  by (rule ffwebskt_parse_returns) (rule ws_init_ok)

text \<open>
  C4: The input may come in any pieces: when a call on a first piece asks for more, it has used the piece up, and the call
  on the next piece gives the same result and the same state as one call on both pieces together.
\<close>

theorem ffwebskt_parse_pieces:
  assumes "ws_ok w" "ffwebskt_parse (w\<lparr>w_in := a\<rparr>) = Some (FFWEBSKT_RMORE, v)"
  shows "w_in v = [] \<and> ffwebskt_parse (v\<lparr>w_in := b\<rparr>) = ffwebskt_parse (w\<lparr>w_in := a @ b\<rparr>)"
  by (rule parse_pieces [OF assms])

lemma ffwebskt_parse_pieces_witness:
  "\<exists>v. w_in v = [] \<and> ffwebskt_parse (v\<lparr>w_in := [0]\<rparr>) = ffwebskt_parse ((ws_init False)\<lparr>w_in := [0x81] @ [0]\<rparr>)"
proof -
  define w where "w = (ws_init False)\<lparr>w_in := [0x81]\<rparr>"
  define v where "v = (GATHER w R_HDR 2)\<lparr>w_buf := put_at (w_buf w) 0 [0x81], w_nbuf := 1, w_in := []\<rparr>"
  have s1: "ws_step w = (None, GATHER w R_HDR 2)" by (simp add: w_def ws_init_def step_simps)
  have s2: "ws_step (GATHER w R_HDR 2) = (Some FFWEBSKT_RMORE, v)"
    by (simp add: v_def w_def ws_init_def GATHER_def step_simps ws_gather_def Let_def)
  have "ffwebskt_parse w = Some (FFWEBSKT_RMORE, v)" by (simp add: parse_none [OF s1] parse_step [of "GATHER w R_HDR 2"] s2)
  then show ?thesis using ffwebskt_parse_pieces [of "ws_init False" "[0x81]" v "[0]"] ws_init_ok w_def by auto
qed

text \<open>
  C19: A frame of the protocol that stands whole in the input of an idle reader, with a body of any length below \<open>2^56\<close>, is read back. It
  may be masked or not, but a server asks for a mask, with a key other than 0. If no message is open and the opcode is not 0, the first call reports
  a message, its opcode and length; if a message is open and the opcode is 0, the frame continues it and is not reported by
  itself. The following calls hand out exactly the body, then its end; the bytes behind the frame are left, the reader is idle again, and a message
  is open exactly if the frame was not the final one.
\<close>

theorem ffwebskt_reads_frame:
  assumes "ws_idle w" "w_in w = ws_frame fin op key d @ rest" "op AND 0x0f = op" "op = 0 \<longleftrightarrow> w_cont w"
    "w_server w \<Longrightarrow> key \<noteq> 0" "length d < 2 ^ 56"
  shows "\<exists>w1 w2. (if op = 0 then w1 = w
        else ffwebskt_parse w = Some (FFWEBSKT_RMSG, w1) \<and> w_op w1 = op \<and> unat (w_datalen w1) = length d)
    \<and> ws_read (length d + 1) w1 = Some (d, w2) \<and> ws_idle w2 \<and> w_in w2 = rest \<and> w_cont w2 = (\<not> fin)"
proof -
  obtain v where v: "reports w v" "in_body v key (length d) (payload key d @ rest)"
    "w_op v = op" "w_cont v = (\<not> fin)" using frame_header [OF assms] by blast
  have l: "unat (w_datalen v) = length d" using v(2) by (simp add: in_body_def)
  obtain w2 where w2: "ws_read (length d + 1) v = Some (d, w2)" "ws_idle w2" "w_in w2 = rest" "w_cont w2 = w_cont v"
    using body_read [OF v(2), of "length d + 1"] by auto
  show ?thesis
  proof (cases "op = 0")
    case True
    then have "ffwebskt_parse w = ffwebskt_parse v" using v(1,3) by (simp add: reports_def)
    then have "ws_read (length d + 1) w = ws_read (length d + 1) v" by simp
    then show ?thesis using True w2 v(4) by auto
  next
    case False
    then have "ffwebskt_parse w = Some (FFWEBSKT_RMSG, v)" using v(1,3) by (simp add: reports_def)
    then show ?thesis using False l w2 v(3,4) by auto
  qed
qed

lemma ffwebskt_reads_frame_witness:
  "\<exists>w1 w2. ffwebskt_parse ((ws_init True)\<lparr>w_in := ws_frame False 1 0x04030201 [104, 105] @ ws_frame True 0 0x04030201 [106] @ [9]\<rparr>)
        = Some (FFWEBSKT_RMSG, w1)
    \<and> ws_read 3 w1 = Some ([104, 105], w2)
    \<and> (\<exists>w3. ws_read 2 w2 = Some ([106], w3) \<and> ws_idle w3 \<and> w_in w3 = [9])"
proof -
  let ?w = "(ws_init True)\<lparr>w_in := ws_frame False 1 0x04030201 [104, 105] @ ws_frame True 0 0x04030201 [106] @ [9]\<rparr>"
  have k: "(0x04030201 :: u32) \<noteq> 0" by code_simp
  have two: "Suc (Suc 0) = 2" and three: "Suc (Suc (Suc 0)) = 3" by simp_all
  have "ws_idle ?w" using ws_init_ok by (simp add: ws_idle_def) (simp add: ws_init_def)
  from ffwebskt_reads_frame [OF this, of False 1 "0x04030201" "[104, 105]" "ws_frame True 0 0x04030201 [106] @ [9]"] k
  obtain w1 w2 where w: "ffwebskt_parse ?w = Some (FFWEBSKT_RMSG, w1)" "ws_read 3 w1 = Some ([104, 105], w2)" "ws_idle w2"
    "w_in w2 = ws_frame True 0 0x04030201 [106] @ [9]" "w_cont w2"
    by (auto simp: ws_init_def three simp del: ws_read.simps)
  from ffwebskt_reads_frame [OF w(3,4)] w(5) k obtain w3 where "ws_read 2 w2 = Some ([106], w3)" "ws_idle w3" "w_in w3 = [9]"
    by (auto simp: two simp del: ws_read.simps)
  with w show ?thesis by blast
qed

text \<open>
  What the writer makes of a message of at most 125 bytes, whatever its opcode and key, is a frame of the protocol, so the
  reader gets the message back.
\<close>

theorem ffwebskt_short_roundtrip:
  assumes "ws_idle w" "w_in w = write_msg d key op @ rest" "length d < 126" "op AND 0x0f = op" "op \<noteq> 0" "\<not> w_cont w"
    "w_server w \<Longrightarrow> key \<noteq> 0"
  shows "\<exists>w1 w2. ffwebskt_parse w = Some (FFWEBSKT_RMSG, w1) \<and> w_op w1 = op
    \<and> ws_read (length d + 1) w1 = Some (d, w2) \<and> ws_idle w2 \<and> w_in w2 = rest"
proof -
  have i: "w_in w = ws_frame True op key d @ rest" using assms(2) write_short [OF assms(3)] by simp
  have l: "length d < 2 ^ 56" using assms(3) by simp
  have c: "op = 0 \<longleftrightarrow> w_cont w" using assms(5,6) by simp
  obtain w1 where "reports w w1" "in_body w1 key (length d) (payload key d @ rest)" "w_op w1 = op"
    using frame_header [OF assms(1) i assms(4) c assms(7) l] by blast
  then have w1: "ffwebskt_parse w = Some (FFWEBSKT_RMSG, w1)" "in_body w1 key (length d) (payload key d @ rest)"
    "w_op w1 = op" using assms(5) by (simp_all add: reports_def)
  then show ?thesis using body_read [OF w1(2), of "length d + 1"] by auto
qed

lemma ffwebskt_short_roundtrip_witness:
  "\<exists>w1 w2. ffwebskt_parse ((ws_init False)\<lparr>w_in := write_msg [104, 105] 0 2 @ []\<rparr>) = Some (FFWEBSKT_RMSG, w1) \<and> w_op w1 = 2
    \<and> ws_read (length [104, 105 :: u8] + 1) w1 = Some ([104, 105], w2) \<and> ws_idle w2 \<and> w_in w2 = []"
proof (rule ffwebskt_short_roundtrip)
  show "ws_idle ((ws_init False)\<lparr>w_in := write_msg [104, 105] 0 2 @ []\<rparr>)"
    using ws_init_ok by (simp add: ws_idle_def) (simp add: ws_init_def)
qed (simp_all add: ws_init_def)

text \<open>
  A longer message: the writer does not put 126 or 127 into the length field, so the header announces an empty body.
\<close>

lemma ffwebskt_newmsg_no_length:
  assumes "126 \<le> length d" "length d \<le> WS_MAXMSG"
  shows "fst (ffwebskt_newmsg \<lparr>c_in = d, c_out = [], c_mask = 0\<rparr> key op) = FFWEBSKT_RDATA
    \<and> (c_out (snd (ffwebskt_newmsg \<lparr>c_in = d, c_out = [], c_mask = 0\<rparr> key op)) ! 1) AND WS_F_DATALEN = 0"
  using assms by (auto simp: ffwebskt_newmsg_def WS_MAXMSG1_def Let_def WS_F_MASK_def WS_F_DATALEN_def)

text \<open>
  A masked body in pieces: every piece is unmasked from the first byte of the key, so a piece whose length is not a
  multiple of 4 shifts the key for what follows.
\<close>

lemma ffwebskt_body_key_restarts:
  assumes "w_state w = R_BODY" "w_mask_off w \<noteq> 0" "w_datalen w = 5" "w_mask w = 0x04030201"
  shows "\<exists>w1 w2. ffwebskt_parse (w\<lparr>w_in := [1, 2, 3]\<rparr>) = Some (FFWEBSKT_RDATA, w1) \<and> w_out w1 = [0, 0, 0]
    \<and> ffwebskt_parse (w1\<lparr>w_in := [4, 1]\<rparr>) = Some (FFWEBSKT_RDATA, w2) \<and> w_out w2 = [5, 3]
    \<and> ffmem_xor4 [1, 2, 3, 4, 1] 0x04030201 = [0, 0, 0, 0, 0]"
proof -
  have x: "ffmem_xor4 [1, 2, 3] 0x04030201 = [0, 0, 0]" "ffmem_xor4 [4, 1] 0x04030201 = [5, 3]"
    "ffmem_xor4 [1, 2, 3, 4, 1] 0x04030201 = [0, 0, 0, 0, 0]" by code_simp+
  define w1 where "w1 = w\<lparr>w_buf := put_at (w_buf w) 0 [0, 0, 0], w_out := [0, 0, 0], w_in := [], w_datalen := 2\<rparr>"
  define w2 where "w2 = w1\<lparr>w_buf := put_at (w_buf w1) 0 [5, 3], w_out := [5, 3], w_in := [], w_datalen := 0\<rparr>"
  have "ws_step (w\<lparr>w_in := [1, 2, 3]\<rparr>) = (Some FFWEBSKT_RDATA, w1)"
    using assms by (simp add: step_simps ws_body_def Let_def WS_BUFSIZE_def x w1_def)
  moreover have "ws_step (w1\<lparr>w_in := [4, 1]\<rparr>) = (Some FFWEBSKT_RDATA, w2)"
    using assms by (simp add: step_simps ws_body_def Let_def WS_BUFSIZE_def x w2_def w1_def)
  ultimately show ?thesis
    by (intro exI [of _ w1] exI [of _ w2])
      (simp add: parse_step [of "w\<lparr>w_in := [1, 2, 3]\<rparr>"] parse_step [of "w1\<lparr>w_in := [4, 1]\<rparr>"] x, simp add: w1_def w2_def)
qed

end
