(* ===== verification/FF_Time.thy ===== *)
theory FF_Time
  imports FF_Str
begin

text \<open>
  Dates and times (\<open>time.h\<close>, \<open>fftime.c\<close>): the calendar conversions, validation, normalisation
  and arithmetic. \<open>uint\<close> values are integers between 0 and 2^32 with the wrap-around written as
  \<open>w32\<close>; \<open>s32\<close> reads one as \<open>int\<close>. The structure \<open>fftime\<close> of the platform layer holds seconds
  (signed) and nanoseconds (\<open>uint\<close>).
\<close>

section \<open>Data\<close>

definition w32 :: "int \<Rightarrow> int" where
  "w32 x = x mod 2 ^ 32"

definition s32 :: "int \<Rightarrow> int" where
  "s32 x = (let y = x mod 2 ^ 32 in if y < 2 ^ 31 then y else y - 2 ^ 32)"

record fftime =
  t_sec :: int
  t_nsec :: int

record ffdtm =
  dt_year :: int
  dt_month :: int
  dt_weekday :: int
  dt_day :: int
  dt_yday :: int
  dt_hour :: int
  dt_min :: int
  dt_sec :: int
  dt_nsec :: int

text \<open>The time zone that \<open>fftime_storelocal\<close> keeps for the fast conversions.\<close>

record fftzone =
  z_off :: int
  z_fast :: bool

datatype tz = TZUTC | TZLOCAL | TZNODATE

section \<open>The calendar\<close>

definition fftime_leapyear :: "int \<Rightarrow> bool" where
  "fftime_leapyear year \<longleftrightarrow> year mod 4 = 0 \<and> (year mod 100 \<noteq> 0 \<or> year mod 400 = 0)"

definition fftime_absdays :: "int \<Rightarrow> int" where
  "fftime_absdays year = year * 365 + year div 4 - year div 100 + year div 400"

definition FFTIME_DAY_SECS :: int where
  "FFTIME_DAY_SECS = 60 * 60 * 24"

definition mon_ydays :: "int \<Rightarrow> int" where
  "mon_ydays mon = w32 (w32 (367 * mon) div 12 - 30)"

definition yday_mon :: "int \<Rightarrow> int" where
  "yday_mon yday = w32 (w32 (yday + 31) * 10) div 306"

definition month_days :: "int list" where
  "month_days = [31, 28, 31, 30, 31, 30, 31, 31, 30, 31, 30, 31]"

text \<open>\<open>flags\<close>: which parts are checked (time, date, week day, year day), all when none is named.\<close>

definition fftime_chk :: "ffdtm \<Rightarrow> bool \<Rightarrow> bool \<Rightarrow> bool \<Rightarrow> bool \<Rightarrow> bool" where
  "fftime_chk dt ctime cdate cwday cyday =
     (let all = (\<not> ctime \<and> \<not> cdate \<and> \<not> cwday \<and> \<not> cyday) in
      if (all \<or> ctime) \<and> \<not> (dt_hour dt \<le> 23 \<and> dt_min dt \<le> 59 \<and> dt_sec dt \<le> 59 \<and> dt_nsec dt \<le> 999999999)
      then False
      else if (all \<or> cdate) \<and> \<not> (dt_year dt \<noteq> 0 \<and> w32 (dt_month dt - 1) < 12
          \<and> (w32 (dt_day dt - 1) < month_days ! nat (dt_month dt - 1)
             \<or> (dt_day dt = 29 \<and> dt_month dt = 2 \<and> fftime_leapyear (dt_year dt))))
      then False
      else if (all \<or> cwday) \<and> \<not> (dt_weekday dt \<le> 6) then False
      else if all \<or> cyday then
        (let mon = w32 (dt_month dt - 2);
             mon = (if s32 mon \<le> 0 then w32 (mon + 12) else mon)
         in dt_yday dt = w32 (mon_ydays mon + 31 + 28 + of_bool (fftime_leapyear (dt_year dt)) + dt_day dt))
      else True)"

text \<open>
  The date of the day \<open>days\<close> days after 1 March of year 0: year, month, day and year day (both from 1).
\<close>

definition split_date :: "int \<Rightarrow> int \<times> int \<times> int \<times> int" where
  "split_date days =
     (let year = w32 (1 + w32 (days * 400) div fftime_absdays 400);
          yday = w32 (days - w32 (fftime_absdays year));
          (yday, year) = (if s32 yday < 0 then (w32 (yday + 365 + of_bool (fftime_leapyear year)), w32 (year - 1))
                          else (yday, year));
          mon = yday_mon yday;
          mday = w32 (yday - mon_ydays mon);
          (year, mon, yday) =
            (if 306 \<le> yday then (w32 (year + 1), w32 (mon - 10), w32 (yday - 306))
             else (year, w32 (mon + 2), w32 (yday + 31 + 28 + of_bool (fftime_leapyear year))))
      in (s32 year, mon, w32 (mday + 1), w32 (yday + 1)))"

text \<open>Without the offset of the local zone nothing is converted.\<close>

definition fftime_split2 :: "fftzone \<Rightarrow> ffdtm \<Rightarrow> fftime \<Rightarrow> tz \<Rightarrow> ffdtm" where
  "fftime_split2 z dt t flags =
     (if flags = TZLOCAL \<and> \<not> z_fast z then dt
      else
        let sec = t_sec t mod 2 ^ 64;
            sec = (if flags = TZLOCAL then (sec + z_off z) mod 2 ^ 64 else sec);
            days = w32 (sec div FFTIME_DAY_SECS);
            daysec = sec mod FFTIME_DAY_SECS;
            (year, mon, day, yday) = split_date (w32 (days + 306))
        in \<lparr>dt_year = year, dt_month = mon, dt_weekday = w32 (1 + days) mod 7, dt_day = day,
            dt_yday = yday, dt_hour = daysec div (60 * 60),
            dt_min = daysec mod (60 * 60) div 60, dt_sec = daysec mod 60, dt_nsec = t_nsec t\<rparr>)"

definition mon_norm :: "int \<Rightarrow> int \<Rightarrow> int \<times> int" where
  "mon_norm mon year =
     (if 12 < mon then
        (let mon = mon - 1; year = w32 (year + mon div 12) in (mon mod 12 + 1, year))
      else (mon, year))"

definition fftime_null :: fftime where
  "fftime_null = \<lparr>t_sec = 0, t_nsec = 0\<rparr>"

definition fftime_join2 :: "fftzone \<Rightarrow> ffdtm \<Rightarrow> tz \<Rightarrow> fftime" where
  "fftime_join2 z dt flags =
     (if flags = TZLOCAL \<and> \<not> z_fast z then fftime_null
      else if flags \<noteq> TZNODATE \<and> dt_year dt \<le> 0 then fftime_null
      else
        let days =
              (if flags = TZNODATE then 0
               else
                 let (mon, year) = mon_norm (dt_month dt) (dt_year dt);
                     mon = w32 (mon - 2);
                     (mon, year) = (if s32 mon \<le> 0 then (w32 (mon + 12), w32 (year - 1)) else (mon, year))
                 in w32 (fftime_absdays year - fftime_absdays 1 + mon_ydays mon + (31 + 28) + dt_day dt - 1));
            sec = days * FFTIME_DAY_SECS + w32 (w32 (dt_hour dt * 60) * 60) + w32 (dt_min dt * 60) + dt_sec dt
        in \<lparr>t_sec = (if flags = TZLOCAL then sec - z_off z else sec), t_nsec = dt_nsec dt\<rparr>)"

definition fftime_norm :: "fftzone \<Rightarrow> ffdtm \<Rightarrow> bool \<Rightarrow> bool \<Rightarrow> bool \<Rightarrow> bool \<Rightarrow> ffdtm" where
  "fftime_norm z dt ctime cdate cwday cyday =
     (if fftime_chk dt ctime cdate cwday cyday then dt
      else
        let only_time = (ctime \<and> \<not> cdate \<and> \<not> cwday \<and> \<not> cyday);
            t = fftime_join2 z dt (if only_time then TZNODATE else TZUTC)
        in fftime_split2 z dt t TZUTC)"

section \<open>Local time and Unix time\<close>

text \<open>The broken-down time of the C library.\<close>

record tm =
  tm_year :: int
  tm_mon :: int
  tm_mday :: int
  tm_wday :: int
  tm_yday :: int
  tm_hour :: int
  tm_min :: int
  tm_sec :: int

definition fftime_totm :: "tm \<Rightarrow> ffdtm \<Rightarrow> tm" where
  "fftime_totm tm dt = tm\<lparr>tm_year := max (dt_year dt - 1900) 0, tm_mon := s32 (dt_month dt - 1),
     tm_mday := s32 (dt_day dt), tm_hour := s32 (dt_hour dt), tm_min := s32 (dt_min dt), tm_sec := s32 (dt_sec dt)\<rparr>"

definition fftime_fromtm :: "tm \<Rightarrow> ffdtm" where
  "fftime_fromtm tm = \<lparr>dt_year = tm_year tm + 1900, dt_month = w32 (tm_mon tm + 1),
     dt_weekday = w32 (tm_wday tm), dt_day = w32 (tm_mday tm), dt_yday = w32 (tm_yday tm + 1),
     dt_hour = w32 (tm_hour tm), dt_min = w32 (tm_min tm), dt_sec = w32 (tm_sec tm), dt_nsec = 0\<rparr>"

text \<open>The zone of the platform: its offset and whether it has daylight saving time.\<close>

definition fftime_storelocal :: "fftzone \<Rightarrow> int \<Rightarrow> bool \<Rightarrow> fftzone" where
  "fftime_storelocal z off have_dst =
     (if have_dst then z\<lparr>z_fast := False\<rparr> else \<lparr>z_off = off, z_fast = True\<rparr>)"

text \<open>\<open>localtime\<close> and \<open>mktime\<close> are those of the C library.\<close>

definition fftime_joinlocal :: "(tm \<Rightarrow> int) \<Rightarrow> tm \<Rightarrow> int" where
  "fftime_joinlocal mktime tm = (let t = mktime tm in if t = -1 then 0 else t)"

definition fftime_split :: "(int \<Rightarrow> tm) \<Rightarrow> fftzone \<Rightarrow> ffdtm \<Rightarrow> fftime \<Rightarrow> tz \<Rightarrow> ffdtm" where
  "fftime_split localtime z dt t tz =
     (if tz = TZLOCAL \<and> \<not> z_fast z then
        (fftime_fromtm (localtime (t_sec t)))\<lparr>dt_nsec := t_nsec t\<rparr>
      else fftime_split2 z dt (t\<lparr>t_sec := t_sec t + fftime_absdays (1970 - 1) * FFTIME_DAY_SECS\<rparr>) tz)"

definition fftime_join :: "(tm \<Rightarrow> int) \<Rightarrow> tm \<Rightarrow> fftzone \<Rightarrow> ffdtm \<Rightarrow> tz \<Rightarrow> fftime" where
  "fftime_join mktime tm0 z dt tz =
     (if tz = TZLOCAL \<and> \<not> z_fast z then
        \<lparr>t_sec = fftime_joinlocal mktime (fftime_totm tm0 dt), t_nsec = dt_nsec dt\<rparr>
      else
        let t = fftime_join2 z dt tz in
        if tz = TZNODATE then t
        else
          let t = t\<lparr>t_sec := t_sec t - fftime_absdays (1970 - 1) * FFTIME_DAY_SECS\<rparr>
          in if t_sec t < 0 then fftime_null else t)"

section \<open>Arithmetic\<close>

definition fftime_normalize :: "fftime \<Rightarrow> fftime" where
  "fftime_normalize t = \<lparr>t_sec = t_sec t + t_nsec t div 1000000000, t_nsec = t_nsec t mod 1000000000\<rparr>"

definition fftime_cmp :: "fftime \<Rightarrow> fftime \<Rightarrow> int" where
  "fftime_cmp t1 t2 =
     (if t_sec t1 = t_sec t2 then
        (if t_nsec t1 = t_nsec t2 then 0 else if t_nsec t1 < t_nsec t2 then -1 else 1)
      else if t_sec t1 < t_sec t2 then -1 else 1)"

definition fftime_add :: "fftime \<Rightarrow> fftime \<Rightarrow> fftime" where
  "fftime_add t t2 =
     (let sec = t_sec t + t_sec t2; nsec = w32 (t_nsec t + t_nsec t2) in
      if 1000000000 \<le> nsec then \<lparr>t_sec = sec + 1, t_nsec = nsec - 1000000000\<rparr>
      else \<lparr>t_sec = sec, t_nsec = nsec\<rparr>)"

definition fftime_sub :: "fftime \<Rightarrow> fftime \<Rightarrow> fftime" where
  "fftime_sub t t2 =
     (let sec = t_sec t - t_sec t2; nsec = w32 (t_nsec t - t_nsec t2) in
      if s32 nsec < 0 then \<lparr>t_sec = sec - 1, t_nsec = w32 (nsec + 1000000000)\<rparr>
      else \<lparr>t_sec = sec, t_nsec = nsec\<rparr>)"

text \<open>\<open>setmsec\<close> is the platform's \<open>fftime_setmsec\<close>: the nanoseconds of a millisecond count.\<close>

definition fftime_addms :: "(int \<Rightarrow> int) \<Rightarrow> fftime \<Rightarrow> int \<Rightarrow> fftime" where
  "fftime_addms setmsec t ms = fftime_add t \<lparr>t_sec = ms div 1000, t_nsec = setmsec ms\<rparr>"

section \<open>The calendar as a specification\<close>

text \<open>
  Month lengths, and the number of a day counted from 1 January of year 1: the years before it,
  the months before it in its year, the days before it in its month.
\<close>

definition month_len :: "bool \<Rightarrow> int \<Rightarrow> int" where
  "month_len lp m = month_days ! nat (m - 1) + of_bool (lp \<and> m = 2)"

definition month_start :: "bool \<Rightarrow> int \<Rightarrow> int" where
  "month_start lp m = sum_list (map (month_len lp) [1..m - 1])"

definition day_number :: "int \<Rightarrow> int \<Rightarrow> int \<Rightarrow> int" where
  "day_number y m d = fftime_absdays (y - 1) + month_start (fftime_leapyear y) m + d - 1"

definition valid_date :: "int \<Rightarrow> int \<Rightarrow> int \<Rightarrow> bool" where
  "valid_date y m d \<longleftrightarrow> 1 \<le> y \<and> 1 \<le> m \<and> m \<le> 12 \<and> 1 \<le> d \<and> d \<le> month_len (fftime_leapyear y) m"

text \<open>The number of days up to which the year estimate does not wrap around (year 29397).\<close>

definition max_days :: int where
  "max_days = 10737112"

subsection \<open>Years\<close>

lemma div_Suc_step: "1 < k \<Longrightarrow> (y + 1) div k = y div k + of_bool ((y + 1) mod k = 0)" for y k :: int
proof -
  assume k: "1 < k"
  define q r where "q = y div k" and "r = y mod k"
  then have y: "y = r + k * q" and r: "0 \<le> r" "r < k" using k by simp_all
  show ?thesis
  proof (cases "r + 1 = k")
    case True
    then have "y + 1 = k * (q + 1)" using y by (simp add: algebra_simps)
    then show ?thesis using k q_def by simp
  next
    case False
    then have "(r + 1) div k = 0" "(r + 1) mod k = r + 1" using r by (simp_all add: div_pos_pos_trivial)
    then have "((r + 1) + k * q) div k = q" "((r + 1) + k * q) mod k = r + 1" using k
      by (simp_all only: div_mult_self2 mod_mult_self2 add_0_left)
    moreover have "(r + 1) + k * q = y + 1" using y by simp
    ultimately have "(y + 1) div k = q" "(y + 1) mod k = r + 1" by (simp_all only:)
    then show ?thesis using r by (simp add: q_def)
  qed
qed

lemma absdays_Suc: "fftime_absdays (y + 1) = fftime_absdays y + 365 + of_bool (fftime_leapyear (y + 1))"
proof -
  have "(y + 1) mod 400 = 0 \<Longrightarrow> (y + 1) mod 100 = 0" "(y + 1) mod 100 = 0 \<Longrightarrow> (y + 1) mod 4 = 0"
    using mod_mod_cancel [of 100 400 "y + 1"] mod_mod_cancel [of 4 100 "y + 1"] by simp_all
  then show ?thesis
    unfolding fftime_absdays_def fftime_leapyear_def
      div_Suc_step [of 4 y, simplified] div_Suc_step [of 100 y, simplified] div_Suc_step [of 400 y, simplified]
    by (cases "(y + 1) mod 4 = 0"; cases "(y + 1) mod 100 = 0"; cases "(y + 1) mod 400 = 0") simp_all
qed

lemma absdays_0 [simp]: "fftime_absdays 0 = 0"
  by (simp add: fftime_absdays_def)

lemma absdays_mono: "a \<le> b \<Longrightarrow> fftime_absdays a \<le> fftime_absdays b"
proof (induction b rule: int_ge_induct)
  case (step b)
  then show ?case using absdays_Suc [of b] by simp
qed simp_all

lemma div_bounds: "0 < k \<Longrightarrow> k * (x div k) \<le> x \<and> x < k * (x div k) + k" for k x :: int
  using mult_div_mod_eq [of k x] pos_mod_bound [of k x] pos_mod_sign [of k x] by linarith

lemma absdays_bounds: "400 * fftime_absdays y \<le> 146097 * y + 396" "146097 * y - 699 \<le> 400 * fftime_absdays y"
proof -
  define a b c where "a = y div 4" and "b = y div 100" and "c = y div 400"
  have "4 * a \<le> y" "y < 4 * a + 4" "100 * b \<le> y" "y < 100 * b + 100" "400 * c \<le> y" "y < 400 * c + 400"
    using div_bounds [of 4 y] div_bounds [of 100 y] div_bounds [of 400 y] by (simp_all add: a_def b_def c_def)
  then show "400 * fftime_absdays y \<le> 146097 * y + 396" "146097 * y - 699 \<le> 400 * fftime_absdays y"
    unfolding fftime_absdays_def a_def [symmetric] b_def [symmetric] c_def [symmetric] by simp_all
qed

lemma absdays_estimate:
  fixes d :: int
  defines "y0 \<equiv> d * 400 div 146097"
  shows "fftime_absdays y0 \<le> d" "d < fftime_absdays (y0 + 2)"
  using div_bounds [of 146097 "d * 400"] absdays_bounds(1) [of y0] absdays_bounds(2) [of "y0 + 2"]
  unfolding y0_def [symmetric] by simp_all

subsection \<open>Months\<close>

lemma split_month:
  assumes "0 \<le> yday" "yday \<le> 365"
  shows "let mon = yday_mon yday; mday = yday - mon_ydays mon in
     0 \<le> mday \<and> (if yday < 306 then 1 \<le> mon \<and> mon \<le> 10 \<and> mday < month_len lp (mon + 2)
            \<and> month_start lp (mon + 2) + mday = yday + 59 + of_bool lp
          else 11 \<le> mon \<and> mon \<le> 12 \<and> (yday < 365 + of_bool lp \<longrightarrow> mday < month_len lp (mon - 10))
            \<and> month_start lp (mon - 10) + mday = yday - 306)" (is "?P lp yday")
proof -
  have "list_all (\<lambda>yday. ?P False yday \<and> ?P True yday) [0..365]" by code_simp
  moreover have "yday \<in> set [0..365]" using assms by simp
  ultimately have "?P False yday \<and> ?P True yday" unfolding list_all_iff by blast
  then show ?thesis by (cases lp rule: bool.exhaust; hypsubst; blast)
qed

lemma join_month:
  assumes "1 \<le> m" "m \<le> 12"
  shows "mon_ydays (if m \<le> 2 then m + 10 else m - 2)
    = (if m \<le> 2 then month_start lp m + 306 else month_start lp m - 59 - of_bool lp)"
    (is "?P lp m")
proof -
  have "list_all (\<lambda>m. ?P False m \<and> ?P True m) [1..12]" by code_simp
  moreover have "m \<in> set [1..12]" using assms by simp
  ultimately have "?P False m \<and> ?P True m" unfolding list_all_iff by blast
  then show ?thesis by (cases lp rule: bool.exhaust; hypsubst; blast)
qed
subsection \<open>Small values do not wrap around\<close>

lemma w32_small [simp]: "0 \<le> x \<Longrightarrow> x < 2 ^ 32 \<Longrightarrow> w32 x = x"
  by (simp add: w32_def)

lemma w32_w32 [simp]: "w32 (w32 x) = w32 x"
  by (simp add: w32_def)

lemma s32_small [simp]: "0 \<le> x \<Longrightarrow> x < 2 ^ 31 \<Longrightarrow> s32 x = x"
  by (simp add: s32_def Let_def)

lemma s32_w32_small [simp]: "- (2 ^ 31) \<le> x \<Longrightarrow> x < 2 ^ 31 \<Longrightarrow> s32 (w32 x) = x"
proof (cases "0 \<le> x")
  case False
  assume "- (2 ^ 31) \<le> x" "x < 2 ^ 31"
  then have "(x + 2 ^ 32) mod 2 ^ 32 = x + 2 ^ 32" using False by (intro mod_pos_pos_trivial) simp_all
  then have "x mod 2 ^ 32 = x + 2 ^ 32" by (simp only: mod_add_self2)
  then show ?thesis using False \<open>- (2 ^ 31) \<le> x\<close> by (simp add: s32_def w32_def)
qed simp

lemma mon_ydays_pos: "0 \<le> mon_ydays m"
  by (simp add: mon_ydays_def w32_def)

lemma split_year:
  assumes "0 \<le> d" "d \<le> max_days + 306"
  defines "y \<equiv> w32 (1 + w32 (d * 400) div fftime_absdays 400)"
  defines "yd \<equiv> w32 (d - w32 (fftime_absdays y))"
  obtains Y where "fftime_absdays Y \<le> d" "d < fftime_absdays (Y + 1)" "0 \<le> Y" "Y < 2 ^ 20"
    "(if s32 yd < 0 then (w32 (yd + 365 + of_bool (fftime_leapyear y)), w32 (y - 1)) else (yd, y))
      = (d - fftime_absdays Y, Y)"
proof -
  define y0 where "y0 = d * 400 div 146097"
  have d: "d < 2 ^ 24" using assms(2) by (simp add: max_days_def)
  have abs: "fftime_absdays 400 = 146097" by (simp add: fftime_absdays_def)
  have y0: "0 \<le> y0" "y0 < 2 ^ 19" unfolding y0_def using assms(1) d by simp_all
  have y: "y = y0 + 1" unfolding y_def y0_def abs using assms(1,2) y0 by (simp add: max_days_def y0_def)
  note est = absdays_estimate [of d, folded y0_def]
  have A: "0 \<le> fftime_absdays y0" "fftime_absdays (y0 + 1) < 2 ^ 30"
    using absdays_bounds [of "y0 + 1"] y0 absdays_mono [of 0 y0] by simp_all
  have Suc: "fftime_absdays y = fftime_absdays y0 + 365 + of_bool (fftime_leapyear y)"
    using absdays_Suc [of y0] y by simp
  have A': "0 \<le> fftime_absdays y" "fftime_absdays y < 2 ^ 30" using A Suc y by simp_all
  have s: "s32 yd = d - fftime_absdays y" using A' d assms(1) unfolding yd_def by simp
  show ?thesis
  proof (cases "fftime_absdays y \<le> d")
    case True
    show ?thesis
      by (rule that [of y]) (use True est y y0 s A' d in \<open>simp_all add: yd_def add.commute\<close>)
  next
    case False
    have "w32 (yd + 365 + of_bool (fftime_leapyear y)) = w32 (d - fftime_absdays y + 365 + of_bool (fftime_leapyear y))"
      unfolding yd_def w32_def by (simp add: mod_simps)
    also have "\<dots> = d - fftime_absdays y0" using Suc est d A by simp
    finally show ?thesis
      by (intro that [of y0]) (use False est y y0 s A' d in simp_all)
  qed
qed

lemma split_date_correct:
  assumes "306 \<le> d" "d \<le> max_days + 306"
  obtains y m md where "split_date d = (y, m, md, d - 306 - fftime_absdays (y - 1) + 1)"
    "valid_date y m md" "day_number y m md = d - 306" "y < 2 ^ 21"
proof -
  obtain Y where Y: "fftime_absdays Y \<le> d" "d < fftime_absdays (Y + 1)" "0 \<le> Y" "Y < 2 ^ 20"
    and eq: "(let y = w32 (1 + w32 (d * 400) div fftime_absdays 400); yd = w32 (d - w32 (fftime_absdays y)) in
       if s32 yd < 0 then (w32 (yd + 365 + of_bool (fftime_leapyear y)), w32 (y - 1)) else (yd, y))
      = (d - fftime_absdays Y, Y)"
    unfolding Let_def by (rule split_year [of d]) (use assms in simp_all)
  define yd where "yd = d - fftime_absdays Y"
  have yd: "0 \<le> yd" "yd < 365 + of_bool (fftime_leapyear (Y + 1))" "yd \<le> 365"
    using Y absdays_Suc [of Y] by (cases "fftime_leapyear (Y + 1)"; simp add: yd_def)+
  define mon where "mon = yday_mon yd"
  define md where "md = yd - mon_ydays mon"
  have "0 < Y \<or> 306 \<le> yd" using Y(3) assms(1) by (cases "Y = 0") (auto simp: yd_def fftime_absdays_def)
  have eq': "split_date d =
     (let (year, mon, yday) =
            (if 306 \<le> yd then (w32 (Y + 1), w32 (mon - 10), w32 (yd - 306))
             else (Y, w32 (mon + 2), w32 (yd + 31 + 28 + of_bool (fftime_leapyear Y))))
      in (s32 year, mon, w32 (w32 md + 1), w32 (yday + 1)))"
    using eq unfolding split_date_def Let_def mon_def md_def yd_def by simp
  show ?thesis
  proof (cases "yd < 306")
    case True
    have m: "0 \<le> md" "1 \<le> mon" "mon \<le> 10" "md < month_len (fftime_leapyear Y) (mon + 2)"
      "month_start (fftime_leapyear Y) (mon + 2) + md = yd + 59 + of_bool (fftime_leapyear Y)"
      using split_month [OF yd(1,3), of "fftime_leapyear Y"] True by (simp_all add: Let_def mon_def md_def)
    have "md < 2 ^ 20" using yd m(1) mon_ydays_pos [of mon] by (simp add: md_def)
    have "fftime_absdays Y = fftime_absdays (Y - 1) + 365 + of_bool (fftime_leapyear Y)"
      using absdays_Suc [of "Y - 1"] by simp
    moreover have "split_date d = (Y, mon + 2, md + 1, yd + 60 + of_bool (fftime_leapyear Y))"
      using True m Y(3,4) yd \<open>md < 2 ^ 20\<close> unfolding eq' by simp
    ultimately show ?thesis using True m Y(4) \<open>0 < Y \<or> 306 \<le> yd\<close>
      by (intro that [of Y "mon + 2" "md + 1"]) (simp_all add: valid_date_def day_number_def yd_def)
  next
    case False
    have m: "0 \<le> md" "11 \<le> mon" "mon \<le> 12" "md < month_len (fftime_leapyear (Y + 1)) (mon - 10)"
      "month_start (fftime_leapyear (Y + 1)) (mon - 10) + md = yd - 306"
      using split_month [OF yd(1,3), of "fftime_leapyear (Y + 1)"] False yd(2) by (simp_all add: Let_def mon_def md_def)
    have "md < 2 ^ 20" using yd m(1) mon_ydays_pos [of mon] by (simp add: md_def)
    then have "split_date d = (Y + 1, mon - 10, md + 1, yd - 305)"
      using False m Y(3,4) yd unfolding eq' by simp
    then show ?thesis using False m Y(3,4)
      by (intro that [of "Y + 1" "mon - 10" "md + 1"]) (simp_all add: valid_date_def day_number_def yd_def)
  qed
qed

lemma split_date_days:
  assumes "0 \<le> n" "n \<le> max_days"
  shows "\<exists>y m d. split_date (n + 306) = (y, m, d, n - fftime_absdays (y - 1) + 1)
    \<and> valid_date y m d \<and> day_number y m d = n \<and> y < 2 ^ 21"
  by (rule split_date_correct [of "n + 306"]) (use assms in auto)

text \<open>Seconds counted from 1 January of year 1 in the zone of the conversion.\<close>

definition zone_sec :: "fftzone \<Rightarrow> tz \<Rightarrow> int \<Rightarrow> int" where
  "zone_sec z flags sec = (if flags = TZLOCAL then sec + z_off z else sec)"

lemma fftime_split2_eq:
  assumes "flags = TZLOCAL \<longrightarrow> z_fast z"
    and "0 \<le> zone_sec z flags (t_sec t)" "zone_sec z flags (t_sec t) < (max_days + 1) * FFTIME_DAY_SECS"
    and "split_date (zone_sec z flags (t_sec t) div FFTIME_DAY_SECS + 306) = (y, m, d, yd)"
  shows "fftime_split2 z dt t flags =
    (let sec = zone_sec z flags (t_sec t); daysec = sec mod FFTIME_DAY_SECS in
     \<lparr>dt_year = y, dt_month = m, dt_weekday = (1 + sec div FFTIME_DAY_SECS) mod 7, dt_day = d, dt_yday = yd,
      dt_hour = daysec div 3600, dt_min = daysec mod 3600 div 60, dt_sec = daysec mod 60, dt_nsec = t_nsec t\<rparr>)"
proof -
  define s where "s = zone_sec z flags (t_sec t)"
  have s: "0 \<le> s" "s < 2 ^ 50" using assms(2,3) by (simp_all add: s_def max_days_def FFTIME_DAY_SECS_def)
  have mod: "(if flags = TZLOCAL then (t_sec t mod 2 ^ 64 + z_off z) mod 2 ^ 64 else t_sec t mod 2 ^ 64) = s"
    using s by (auto simp: s_def zone_sec_def mod_simps mod_pos_pos_trivial)
  have days: "0 \<le> s div FFTIME_DAY_SECS" "s div FFTIME_DAY_SECS < 2 ^ 30"
    using assms(2,3) by (simp_all add: FFTIME_DAY_SECS_def max_days_def s_def)
  then have w: "w32 (s div FFTIME_DAY_SECS) = s div FFTIME_DAY_SECS"
    "w32 (s div FFTIME_DAY_SECS + 306) = s div FFTIME_DAY_SECS + 306"
    "w32 (1 + s div FFTIME_DAY_SECS) = 1 + s div FFTIME_DAY_SECS" by simp_all
  show ?thesis
    using assms(1,4) unfolding fftime_split2_def Let_def mod w s_def [symmetric] by simp blast
qed

lemma month_bounds:
  assumes "1 \<le> m" "m \<le> 12"
  shows "0 \<le> month_start lp m \<and> month_start lp m \<le> 335 \<and> month_len lp m \<le> 31
    \<and> month_start lp m + month_len lp m \<le> 365 + of_bool lp" (is "?P lp m")
proof -
  have "list_all (\<lambda>m. ?P False m \<and> ?P True m) [1..12]" by code_simp
  moreover have "m \<in> set [1..12]" using assms by simp
  ultimately have "?P False m \<and> ?P True m" unfolding list_all_iff by blast
  then show ?thesis by (cases lp rule: bool.exhaust; hypsubst; blast)
qed

lemma fftime_join2_eq:
  assumes "flags = TZLOCAL \<longrightarrow> z_fast z" "flags \<noteq> TZNODATE"
    and "valid_date (dt_year dt) (dt_month dt) (dt_day dt)" "dt_year dt < 2 ^ 22"
    and "0 \<le> dt_hour dt" "dt_hour dt < 24" "0 \<le> dt_min dt" "dt_min dt < 60"
  shows "fftime_join2 z dt flags =
    \<lparr>t_sec = day_number (dt_year dt) (dt_month dt) (dt_day dt) * FFTIME_DAY_SECS
        + dt_hour dt * 3600 + dt_min dt * 60 + dt_sec dt - (if flags = TZLOCAL then z_off z else 0),
     t_nsec = dt_nsec dt\<rparr>"
proof -
  define y m d lp where "y = dt_year dt" and "m = dt_month dt" and "d = dt_day dt" and "lp = fftime_leapyear y"
  have v: "1 \<le> y" "1 \<le> m" "m \<le> 12" "1 \<le> d" "d \<le> month_len lp m" "y < 2 ^ 22"
    using assms(3,4) by (simp_all add: valid_date_def y_def m_def d_def lp_def)
  have ms: "0 \<le> month_start lp m" "month_start lp m \<le> 335" "month_len lp m \<le> 31"
    using month_bounds [OF v(2,3)] by blast+
  have abs: "fftime_absdays y = fftime_absdays (y - 1) + 365 + of_bool lp"
    using absdays_Suc [of "y - 1"] by (simp add: lp_def)
  have pos: "0 \<le> fftime_absdays (y - 1)" "fftime_absdays y < 2 ^ 31" "fftime_absdays (y - 1) < 2 ^ 31"
    using absdays_mono [of 0 "y - 1"] absdays_mono [of "y - 1" y] absdays_bounds(1) [of y] v(1,6)
    by simp_all
  define mon yr where "mon = (if m \<le> 2 then m + 10 else m - 2)" and "yr = (if m \<le> 2 then y - 1 else y)"
  have "fftime_absdays yr - fftime_absdays 1 + mon_ydays mon + (31 + 28) + d - 1 = day_number y m d"
    unfolding mon_def yr_def day_number_def join_month [OF v(2,3), of lp] lp_def [symmetric]
    using abs by (auto simp: fftime_absdays_def)
  moreover have "0 \<le> day_number y m d" "day_number y m d < 2 ^ 32"
    using pos v ms unfolding day_number_def lp_def by simp_all
  ultimately have days: "w32 (fftime_absdays yr - fftime_absdays 1 + mon_ydays mon + (31 + 28) + d - 1) = day_number y m d"
    by simp
  have month: "(let mon = w32 (m - 2) in if s32 mon \<le> 0 then (w32 (mon + 12), w32 (y - 1)) else (mon, y)) = (mon, yr)"
  proof (cases "m \<le> 2")
    case True
    then have "w32 (w32 (m - 2) + 12) = w32 (m + 10)" unfolding w32_def by (simp add: mod_simps add.commute)
    then show ?thesis using True v by (simp add: Let_def mon_def yr_def)
  next
    case False
    then show ?thesis using v by (simp add: Let_def mon_def yr_def)
  qed
  have hm: "w32 (w32 (dt_hour dt * 60) * 60) = dt_hour dt * 3600" "w32 (dt_min dt * 60) = dt_min dt * 60"
    using assms(5-8) by simp_all
  have norm: "mon_norm m y = (m, y)" using v by (simp add: mon_norm_def)
  show ?thesis
    using assms(1,2) v(1) month days hm norm unfolding fftime_join2_def Let_def
    by (simp add: y_def [symmetric] m_def [symmetric] d_def [symmetric] split: prod.splits)
qed

lemma month_start_le:
  assumes "1 \<le> m" "m < m'" "m' \<le> 12"
  shows "month_start lp m + month_len lp m \<le> month_start lp m'" (is "?P lp m m'")
proof -
  have "list_all (\<lambda>m. list_all (\<lambda>m'. m < m' \<longrightarrow> ?P False m m' \<and> ?P True m m') [1..12]) [1..12]" by code_simp
  moreover have "m \<in> set [1..12]" "m' \<in> set [1..12]" using assms by simp_all
  ultimately have "?P False m m' \<and> ?P True m m'" using assms(2) unfolding list_all_iff by blast
  then show ?thesis by (cases lp rule: bool.exhaust; hypsubst; blast)
qed

lemma day_number_range:
  "valid_date y m d \<Longrightarrow> fftime_absdays (y - 1) \<le> day_number y m d \<and> day_number y m d < fftime_absdays y"
  using month_bounds [of m "fftime_leapyear y"] absdays_Suc [of "y - 1"]
  by (simp add: valid_date_def day_number_def)

lemma day_number_inj:
  assumes "valid_date y m d" "valid_date y' m' d'" "day_number y m d = day_number y' m' d'"
  shows "y = y' \<and> m = m' \<and> d = d'"
proof -
  have y: "y = y'"
    using day_number_range [OF assms(1)] day_number_range [OF assms(2)] assms(3) absdays_mono [of y "y' - 1"] absdays_mono [of y' "y - 1"]
    by linarith
  then have "month_start (fftime_leapyear y) m + d = month_start (fftime_leapyear y) m' + d'"
    using assms(3) by (simp add: day_number_def)
  then have "m = m'"
    using assms(1,2) y month_start_le [of m m' "fftime_leapyear y"] month_start_le [of m' m "fftime_leapyear y"]
    by (simp add: valid_date_def) (metis add_left_mono linorder_less_linear not_less add_le_same_cancel1 order_trans zle_add1_eq_le)
  with y show ?thesis using assms(3) by (simp add: day_number_def)
qed

lemma time_of_day:
  fixes s :: int
  assumes "0 \<le> s" "s < 86400"
  shows "0 \<le> s div 3600" "s div 3600 < 24" "0 \<le> s mod 3600 div 60" "s mod 3600 div 60 < 60"
    "0 \<le> s mod 60" "s mod 60 < 60" "s div 3600 * 3600 + s mod 3600 div 60 * 60 + s mod 60 = s"
proof -
  have mod_mod: "s mod 3600 mod 60 = s mod 60" by (rule mod_mod_cancel) simp
  show "s div 3600 * 3600 + s mod 3600 div 60 * 60 + s mod 60 = s"
    using mod_mod
      div_mult_mod_eq [of "s mod 3600" 60] div_mult_mod_eq [of s 3600] by linarith
qed (use assms in simp_all)

text \<open>A normal value counts nanoseconds.\<close>

definition normal_time :: "fftime \<Rightarrow> bool" where
  "normal_time t \<longleftrightarrow> 0 \<le> t_nsec t \<and> t_nsec t < 1000000000"

definition total_ns :: "fftime \<Rightarrow> int" where
  "total_ns t = t_sec t * 1000000000 + t_nsec t"

lemma time_of_day_sum:
  fixes h m s :: int
  assumes "0 \<le> h" "h < 24" "0 \<le> m" "m < 60" "0 \<le> s" "s < 60"
  defines "x \<equiv> h * 3600 + m * 60 + s"
  shows "0 \<le> x" "x < 86400" "x div 3600 = h" "x mod 3600 div 60 = m" "x mod 60 = s"
proof -
  have "x = (m * 60 + s) + 3600 * h" and x: "x = s + 60 * (60 * h + m)" and "m * 60 + s < 3600" "0 \<le> m * 60 + s"
    using assms by simp_all
  then have "x div 3600 = (m * 60 + s) div 3600 + h" "x mod 3600 = (m * 60 + s) mod 3600"
    by (simp_all only: div_mult_self2 mod_mult_self2)
  moreover have "x mod 60 = s mod 60" unfolding x by (simp only: mod_mult_self2)
  ultimately show "0 \<le> x" "x < 86400" "x div 3600 = h" "x mod 3600 div 60 = m" "x mod 60 = s"
    using assms by simp_all
qed

lemma fftime_chk_valid:
  assumes "valid_date (dt_year dt) (dt_month dt) (dt_day dt)" "normal_time \<lparr>t_sec = 0, t_nsec = dt_nsec dt\<rparr>"
    and "0 \<le> dt_hour dt" "dt_hour dt < 24" "0 \<le> dt_min dt" "dt_min dt < 60" "0 \<le> dt_sec dt" "dt_sec dt < 60"
    and "dt_weekday dt < 7"
  shows "fftime_chk dt True True True False"
proof -
  have v: "1 \<le> dt_year dt" "1 \<le> dt_month dt" "dt_month dt \<le> 12" "1 \<le> dt_day dt"
    "dt_day dt \<le> month_len (fftime_leapyear (dt_year dt)) (dt_month dt)"
    using assms(1) by (simp_all add: valid_date_def)
  then have "dt_day dt \<le> 31" using month_bounds [OF v(2,3), of "fftime_leapyear (dt_year dt)"] by linarith
  then have w: "w32 (dt_month dt - 1) = dt_month dt - 1" "w32 (dt_day dt - 1) = dt_day dt - 1" using v by simp_all
  have "dt_day dt - 1 < month_days ! nat (dt_month dt - 1)
      \<or> dt_day dt = 29 \<and> dt_month dt = 2 \<and> fftime_leapyear (dt_year dt)"
    using v(5) by (cases "fftime_leapyear (dt_year dt) \<and> dt_month dt = 2") (auto simp: month_len_def month_days_def)
  then show ?thesis using assms(2-9) v(1-3) by (simp add: fftime_chk_def w normal_time_def)
qed

section \<open>Properties\<close>

text \<open>
  C36: Splitting a time value gives a valid date, whose number of days since 1 January of year 1 is the
  number of whole days of the value, with its day of the year and its week day (day 0 was a Monday)
  and the time within the day; and joining that date gives the time value back. This holds for
  all times up to the year 29397, in UTC and with the stored offset of the local zone.
\<close>

theorem fftime_split_join:
  assumes "flags \<noteq> TZNODATE" "flags = TZLOCAL \<longrightarrow> z_fast z"
    and "0 \<le> zone_sec z flags (t_sec t)" "zone_sec z flags (t_sec t) < (max_days + 1) * FFTIME_DAY_SECS"
  shows "let r = fftime_split2 z dt t flags; n = zone_sec z flags (t_sec t) div FFTIME_DAY_SECS in
      valid_date (dt_year r) (dt_month r) (dt_day r)
    \<and> day_number (dt_year r) (dt_month r) (dt_day r) = n
    \<and> dt_yday r = n - fftime_absdays (dt_year r - 1) + 1 \<and> dt_weekday r = (1 + n) mod 7
    \<and> (normal_time t \<longrightarrow> fftime_chk r True True True False)
    \<and> fftime_join2 z r flags = t"
proof -
  define s where "s = zone_sec z flags (t_sec t)"
  define n where "n = s div FFTIME_DAY_SECS"
  have s: "0 \<le> s" "s < (max_days + 1) * FFTIME_DAY_SECS" using assms(3,4) by (simp_all add: s_def)
  then have n: "0 \<le> n" "n \<le> max_days" by (simp_all add: n_def FFTIME_DAY_SECS_def max_days_def)
  obtain y m d where sd: "split_date (n + 306) = (y, m, d, n - fftime_absdays (y - 1) + 1)"
    and v: "valid_date y m d" "day_number y m d = n" "y < 2 ^ 21"
    using split_date_days [OF n] by blast
  note eq = fftime_split2_eq [OF assms(2-4), folded s_def, folded n_def, OF sd, of dt, unfolded Let_def]
  define ds where "ds = s mod FFTIME_DAY_SECS"
  have ds: "0 \<le> ds" "ds < 86400" by (simp_all add: ds_def FFTIME_DAY_SECS_def)
  note tod = time_of_day [OF ds]
  have sum: "n * FFTIME_DAY_SECS + ds = s" by (simp add: n_def ds_def)
  let ?r = "fftime_split2 z dt t flags"
  have r: "dt_year ?r = y" "dt_month ?r = m" "dt_day ?r = d" "dt_weekday ?r = (1 + n) mod 7" "dt_hour ?r = ds div 3600"
    "dt_min ?r = ds mod 3600 div 60" "dt_sec ?r = ds mod 60" "dt_nsec ?r = t_nsec t"
    unfolding eq ds_def n_def by simp_all
  have chk: "normal_time t \<longrightarrow> fftime_chk ?r True True True False"
    by (intro impI, rule fftime_chk_valid, unfold r, rule v(1))
      (simp add: normal_time_def, (rule tod)+, simp)
  have "fftime_join2 z (fftime_split2 z dt t flags) flags = t"
  proof -
    have y: "y < 2 ^ 22" using v(3) by simp
    have "n * FFTIME_DAY_SECS + ds div 3600 * 3600 + ds mod 3600 div 60 * 60 + ds mod 60 = s"
      using tod(7) sum by linarith
    moreover have "s - (if flags = TZLOCAL then z_off z else 0) = t_sec t"
      by (simp add: s_def zone_sec_def)
    ultimately show ?thesis
      unfolding fftime_join2_eq [of flags z ?r, unfolded r, OF assms(2,1) v(1) y tod(1-4)] v(2) by simp
  qed
  then show ?thesis using v(1,2) chk
    unfolding Let_def s_def [symmetric] n_def [symmetric] r by (simp add: eq n_def)
qed

text \<open>Thursday 1 January 1970 is day 719162.\<close>

theorem fftime_split_join_witness:
  "let t = \<lparr>t_sec = 719162 * 86400 + 3661, t_nsec = 5\<rparr>; z = \<lparr>z_off = 0, z_fast = False\<rparr>;
       dt = \<lparr>dt_year = 0, dt_month = 0, dt_weekday = 0, dt_day = 0, dt_yday = 0,
         dt_hour = 0, dt_min = 0, dt_sec = 0, dt_nsec = 0\<rparr>;
       r = fftime_split2 z dt t TZUTC; n = zone_sec z TZUTC (t_sec t) div FFTIME_DAY_SECS in
      valid_date (dt_year r) (dt_month r) (dt_day r)
    \<and> day_number (dt_year r) (dt_month r) (dt_day r) = n
    \<and> dt_yday r = n - fftime_absdays (dt_year r - 1) + 1 \<and> dt_weekday r = (1 + n) mod 7
    \<and> (normal_time t \<longrightarrow> fftime_chk r True True True False)
    \<and> fftime_join2 z r TZUTC = t"
  unfolding Let_def
  by (rule fftime_split_join [unfolded Let_def])
    (simp_all add: zone_sec_def max_days_def FFTIME_DAY_SECS_def)

text \<open>
  Joining a valid date and time and splitting the result gives it back, with its week day and
  its day of the year put right.
\<close>

theorem fftime_join_split:
  assumes "flags \<noteq> TZNODATE" "flags = TZLOCAL \<longrightarrow> z_fast z"
    and "valid_date (dt_year dt) (dt_month dt) (dt_day dt)" "dt_year dt < 29397"
    and "0 \<le> dt_hour dt" "dt_hour dt < 24" "0 \<le> dt_min dt" "dt_min dt < 60" "0 \<le> dt_sec dt" "dt_sec dt < 60"
  shows "fftime_split2 z dt0 (fftime_join2 z dt flags) flags =
    (let n = day_number (dt_year dt) (dt_month dt) (dt_day dt) in
     dt\<lparr>dt_weekday := (1 + n) mod 7, dt_yday := n - fftime_absdays (dt_year dt - 1) + 1\<rparr>)"
proof -
  define y m d where "y = dt_year dt" and "m = dt_month dt" and "d = dt_day dt"
  define n where "n = day_number y m d"
  define ds where "ds = dt_hour dt * 3600 + dt_min dt * 60 + dt_sec dt"
  have v: "valid_date y m d" "y < 29397" using assms(3,4) by (simp_all add: y_def m_def d_def)
  have "fftime_absdays y \<le> max_days" using absdays_bounds(1) [of y] v(2) by (simp add: max_days_def)
  then have n: "0 \<le> n" "n \<le> max_days" using day_number_range [OF v(1)] absdays_mono [of 0 "y - 1"] v(1)
    by (simp_all add: n_def valid_date_def)
  have ds: "0 \<le> ds" "ds < 86400" "ds div 3600 = dt_hour dt" "ds mod 3600 div 60 = dt_min dt" "ds mod 60 = dt_sec dt"
    using time_of_day_sum [of "dt_hour dt" "dt_min dt" "dt_sec dt"] assms(5-10) by (simp_all add: ds_def)
  let ?t = "fftime_join2 z dt flags"
  have t: "zone_sec z flags (t_sec ?t) = n * FFTIME_DAY_SECS + ds" "t_nsec ?t = dt_nsec dt"
    using fftime_join2_eq [OF assms(2,1,3)] assms(4-8)
    by (simp_all add: zone_sec_def n_def y_def m_def d_def ds_def)
  have div: "(n * FFTIME_DAY_SECS + ds) div FFTIME_DAY_SECS = n" "(n * FFTIME_DAY_SECS + ds) mod FFTIME_DAY_SECS = ds"
    using ds by (simp_all add: FFTIME_DAY_SECS_def)
  obtain y' m' d' where sd: "split_date (n + 306) = (y', m', d', n - fftime_absdays (y' - 1) + 1)"
    and v': "valid_date y' m' d'" "day_number y' m' d' = n"
    using split_date_days [OF n] by blast
  have eq: "y' = y" "m' = m" "d' = d" using day_number_inj [OF v'(1) v(1)] v'(2) by (simp_all add: n_def)
  show ?thesis
    using fftime_split2_eq [of flags z ?t, unfolded t div, OF assms(2) _ _ sd] n ds
    unfolding Let_def t div eq n_def [symmetric] y_def [symmetric] m_def [symmetric] d_def [symmetric]
    by (cases dt) (simp add: FFTIME_DAY_SECS_def y_def m_def d_def)
qed

theorem fftime_join_split_witness:
  "let dt = \<lparr>dt_year = 2000, dt_month = 2, dt_weekday = 0, dt_day = 29, dt_yday = 0,
        dt_hour = 23, dt_min = 59, dt_sec = 59, dt_nsec = 1\<rparr>;
       z = \<lparr>z_off = 7200, z_fast = True\<rparr>; n = day_number 2000 2 29 in
    fftime_split2 z dt (fftime_join2 z dt TZLOCAL) TZLOCAL
      = dt\<lparr>dt_weekday := (1 + n) mod 7, dt_yday := n - fftime_absdays 1999 + 1\<rparr>"
proof -
  have "valid_date 2000 2 29" by code_simp
  then show ?thesis
    using fftime_join_split [of TZLOCAL "\<lparr>z_off = 7200, z_fast = True\<rparr>"
      "\<lparr>dt_year = 2000, dt_month = 2, dt_weekday = 0, dt_day = 29, dt_yday = 0,
        dt_hour = 23, dt_min = 59, dt_sec = 59, dt_nsec = 1\<rparr>"]
    by (simp add: Let_def)
qed

text \<open>
  The check of the year day is right for March to December only: for January and February it
  counts the months of the year before, so a date with its right day of the year is rejected.
\<close>

theorem fftime_chk_yday:
  assumes "valid_date (dt_year dt) (dt_month dt) (dt_day dt)" "0 \<le> dt_yday dt" "dt_yday dt < 2 ^ 32"
  shows "fftime_chk dt False False False True \<longleftrightarrow>
    dt_yday dt = month_start (fftime_leapyear (dt_year dt)) (dt_month dt) + dt_day dt
      + (if dt_month dt \<le> 2 then 365 + of_bool (fftime_leapyear (dt_year dt)) else 0)"
proof -
  define m lp where "m = dt_month dt" and "lp = fftime_leapyear (dt_year dt)"
  have m: "1 \<le> m" "m \<le> 12" "1 \<le> dt_day dt" "dt_day dt \<le> 31"
    using assms(1) month_bounds [of m lp] by (auto simp: valid_date_def m_def lp_def)
  define mon where "mon = (if m \<le> 2 then m + 10 else m - 2)"
  have mon: "(if s32 (w32 (m - 2)) \<le> 0 then w32 (w32 (m - 2) + 12) else w32 (m - 2)) = mon"
  proof (cases "m \<le> 2")
    case True
    then have "w32 (w32 (m - 2) + 12) = w32 (m + 10)" unfolding w32_def by (simp add: mod_simps add.commute)
    then show ?thesis using True m by (simp add: mon_def)
  qed (use m in \<open>simp add: mon_def\<close>)
  have "mon_ydays mon + 31 + 28 + of_bool lp = month_start lp m + (if m \<le> 2 then 365 + of_bool lp else 0)"
    using join_month [OF m(1,2), of lp] by (simp add: mon_def)
  moreover have aux: "x = a + b \<Longrightarrow> 0 \<le> a \<Longrightarrow> a \<le> 335 \<Longrightarrow> 0 \<le> b \<Longrightarrow> b \<le> 366 \<Longrightarrow> 1 \<le> k \<Longrightarrow> k \<le> 31
      \<Longrightarrow> w32 (x + k) = a + k + b" for x a b k :: int
    by simp
  moreover have "0 \<le> month_start lp m" "month_start lp m \<le> 335" using month_bounds [OF m(1,2)] by blast+
  moreover have "0 \<le> (if m \<le> 2 then 365 + of_bool lp else 0 :: int)" "(if m \<le> 2 then 365 + of_bool lp else 0 :: int) \<le> 366"
    by simp_all
  ultimately have "w32 (mon_ydays mon + 31 + 28 + of_bool lp + dt_day dt)
      = month_start lp m + dt_day dt + (if m \<le> 2 then 365 + of_bool lp else 0)"
    using m(3,4) aux by blast
  then show ?thesis
    unfolding fftime_chk_def Let_def m_def [symmetric] lp_def [symmetric] mon by simp
qed

theorem fftime_chk_yday_witness:
  "\<not> fftime_chk \<lparr>dt_year = 2001, dt_month = 1, dt_weekday = 1, dt_day = 1, dt_yday = 1,
        dt_hour = 0, dt_min = 0, dt_sec = 0, dt_nsec = 0\<rparr> False False False True"
proof -
  have "valid_date 2001 1 1" "month_start (fftime_leapyear 2001) 1 = 0" "fftime_leapyear 2001 = False" by code_simp+
  then show ?thesis
    using fftime_chk_yday [of "\<lparr>dt_year = 2001, dt_month = 1, dt_weekday = 1, dt_day = 1, dt_yday = 1,
        dt_hour = 0, dt_min = 0, dt_sec = 0, dt_nsec = 0\<rparr>"] by simp
qed

text \<open>
  Addition, subtraction and comparison of time values are those of the numbers of nanoseconds:
  for normal values the result is normal, and the comparison is the sign of the difference.
\<close>

theorem fftime_arith_refines:
  assumes "normal_time a" "normal_time b"
  shows "normal_time (fftime_add a b) \<and> total_ns (fftime_add a b) = total_ns a + total_ns b
    \<and> normal_time (fftime_sub a b) \<and> total_ns (fftime_sub a b) = total_ns a - total_ns b
    \<and> fftime_sub (fftime_add a b) b = a
    \<and> fftime_cmp a b = sgn (total_ns a - total_ns b)"
proof -
  have n: "0 \<le> t_nsec a" "t_nsec a < 1000000000" "0 \<le> t_nsec b" "t_nsec b < 1000000000"
    using assms by (simp_all add: normal_time_def)
  have wrap: "w32 (w32 (t_nsec a - t_nsec b) + 1000000000) = w32 (t_nsec a - t_nsec b + 1000000000)"
    unfolding w32_def by (simp add: mod_simps)
  have add: "fftime_add a b = (if t_nsec a + t_nsec b < 1000000000 then \<lparr>t_sec = t_sec a + t_sec b, t_nsec = t_nsec a + t_nsec b\<rparr>
      else \<lparr>t_sec = t_sec a + t_sec b + 1, t_nsec = t_nsec a + t_nsec b - 1000000000\<rparr>)"
    using n by (simp add: fftime_add_def)
  have sub: "fftime_sub c b = (if t_nsec b \<le> t_nsec c then \<lparr>t_sec = t_sec c - t_sec b, t_nsec = t_nsec c - t_nsec b\<rparr>
      else \<lparr>t_sec = t_sec c - t_sec b - 1, t_nsec = t_nsec c - t_nsec b + 1000000000\<rparr>)" if "normal_time c" for c
  proof -
    have "w32 (w32 (t_nsec c - t_nsec b) + 1000000000) = w32 (t_nsec c - t_nsec b + 1000000000)"
      unfolding w32_def by (simp add: mod_simps)
    then show ?thesis using n that by (simp add: fftime_sub_def normal_time_def)
  qed
  have "fftime_cmp a b = sgn (total_ns a - total_ns b)"
    using n by (auto simp: fftime_cmp_def total_ns_def sgn_if)
  moreover have "normal_time (fftime_add a b)" using n by (simp add: add normal_time_def)
  moreover have "total_ns (fftime_add a b) = total_ns a + total_ns b" by (simp add: add total_ns_def)
  moreover have "normal_time (fftime_sub a b) \<and> total_ns (fftime_sub a b) = total_ns a - total_ns b"
    using n by (simp add: sub [OF assms(1)] normal_time_def total_ns_def)
  moreover have "fftime_sub (fftime_add a b) b = a"
    unfolding sub [OF \<open>normal_time (fftime_add a b)\<close>] using n by (simp add: add)
  ultimately show ?thesis by blast
qed

theorem fftime_arith_refines_witness:
  "let a = \<lparr>t_sec = 5, t_nsec = 999999999\<rparr>; b = \<lparr>t_sec = 2, t_nsec = 1\<rparr> in
    normal_time (fftime_add a b) \<and> total_ns (fftime_add a b) = total_ns a + total_ns b
    \<and> normal_time (fftime_sub a b) \<and> total_ns (fftime_sub a b) = total_ns a - total_ns b
    \<and> fftime_sub (fftime_add a b) b = a
    \<and> fftime_cmp a b = sgn (total_ns a - total_ns b)"
  unfolding Let_def by (rule fftime_arith_refines) (simp_all add: normal_time_def)

end
