(* ===== verification/FF_HttpBody.thy ===== *)
theory FF_HttpBody
  imports FF_Url
begin

text \<open>
  HTTP bodies: the second half of \<open>net/ffhttp.c\<close> and \<open>net/http.h\<close>. The reader and the writer of chunked bodies, the
  filters for the three ways a body can end, byte ranges, entity tags and cache control.
\<close>

unbundle bit_operations_syntax

section \<open>Codes\<close>

datatype ffhttp_e = FFHTTP_OK | FFHTTP_MORE | FFHTTP_DONE
  | FFHTTP_ESYS | FFHTTP_EMETHOD | FFHTTP_EURI | FFHTTP_EHOST | FFHTTP_EVERSION | FFHTTP_ESTATUS
  | FFHTTP_EHOST11 | FFHTTP_EEOL | FFHTTP_ENOVAL | FFHTTP_EHDRKEY | FFHTTP_EHDRVAL | FFHTTP_EDUPHDR
  | FFHTTP_ETOOLARGE | FFHTTP_ECHUNKED | FFHTTP_ECHUNKED_FIN | FFHTTP_ECONTLEN_FIN
  | FFHTTP_EURLPARSE url_e

section \<open>Chunked bodies: the reader\<close>

datatype chunk_state = ck_Start | ck_Size | ck_Ext | ck_BeforeDataLF | ck_Data | ck_AfterData | ck_AfterDataLF
  | ck_TrlStart | ck_TrlLF | ck_TrlHdr | ck_TrlHdrLF

record ffhttp_chunked =
  ck_cursiz :: u64
  ck_state :: chunk_state
  ck_last :: bool

definition ffhttp_chunkinit :: "ffhttp_chunked \<Rightarrow> ffhttp_chunked" where
  "ffhttp_chunkinit c = c\<lparr>ck_state := ck_Start\<rparr>"

definition chnk_size :: "ffhttp_chunked \<Rightarrow> u8 \<Rightarrow> ffhttp_e \<times> ffhttp_chunked" where
  "chnk_size c ch =
     (let bb = ffchar_tohex (sint ch) in
      if bb \<noteq> -1 then
        (if ck_cursiz c AND 0x8000000000000000 \<noteq> 0 then (FFHTTP_ETOOLARGE, c)
         else (FFHTTP_MORE, c\<lparr>ck_cursiz := ck_cursiz c * 16 + word_of_int bb\<rparr>))
      else (FFHTTP_OK, if ck_cursiz c = 0 then c\<lparr>ck_last := True\<rparr> else c))"

text \<open>
  What a state does with the char at the front of the input: go on to the next char, look at the same char again
  (\<open>i--\<close>), or return with a code, the number of further bytes that count as processed, and the data found.
\<close>

datatype chunk_act = CkNext ffhttp_chunked | CkAgain ffhttp_chunked | CkEnd ffhttp_e nat bytes ffhttp_chunked

definition ck_goto :: "chunk_state \<Rightarrow> ffhttp_chunked \<Rightarrow> chunk_act" where
  "ck_goto st c = CkNext (c\<lparr>ck_state := st\<rparr>)"

definition ck_fail :: "ffhttp_e \<Rightarrow> ffhttp_chunked \<Rightarrow> chunk_act" where
  "ck_fail e c = CkEnd e 0 [] c"

definition ck_afterdata :: "ffhttp_chunked \<Rightarrow> u8 \<Rightarrow> chunk_act" where
  "ck_afterdata c ch =
     (if ch = 13 then ck_goto ck_AfterDataLF c else if ch = 10 then ck_goto ck_Start c else ck_fail FFHTTP_EEOL c)"

definition ck_step :: "ffhttp_chunked \<Rightarrow> u8 \<Rightarrow> bytes \<Rightarrow> chunk_act" where
  "ck_step c ch r =
     (case ck_state c of
        ck_Start \<Rightarrow>
          let t = ffchar_tohex (sint ch) in
          if t = -1 then ck_fail FFHTTP_EHDRVAL c
          else CkNext (c\<lparr>ck_cursiz := word_of_int t, ck_last := False, ck_state := ck_Size\<rparr>)
      | ck_Size \<Rightarrow>
          let (t, c) = chnk_size c ch in
          if t = FFHTTP_MORE then CkNext c
          else if t \<noteq> FFHTTP_OK then ck_fail t c
          else if ch = 13 then ck_goto ck_BeforeDataLF c
          else if ch = 10 then ck_goto ck_Data c
          else if ch = 59 \<or> ch = 32 \<or> ch = 9 then ck_goto ck_Ext c
          else ck_fail FFHTTP_EHDRVAL c
      | ck_Ext \<Rightarrow>
          if ch = 13 then ck_goto ck_BeforeDataLF c else if ch = 10 then ck_goto ck_Data c else CkNext c
      | ck_BeforeDataLF \<Rightarrow> if ch = 10 then ck_goto ck_Data c else ck_fail FFHTTP_EEOL c
      | ck_Data \<Rightarrow>
          if ck_last c then CkAgain (c\<lparr>ck_state := ck_TrlStart\<rparr>)
          else if ck_cursiz c \<noteq> 0 then
            let sz = min (unat (ck_cursiz c)) (length (ch # r)) in
            CkEnd FFHTTP_OK sz (take sz (ch # r)) (c\<lparr>ck_cursiz := ck_cursiz c - word_of_nat sz\<rparr>)
          else ck_afterdata c ch
      | ck_AfterData \<Rightarrow> ck_afterdata c ch
      | ck_AfterDataLF \<Rightarrow> if ch = 10 then ck_goto ck_Start c else ck_fail FFHTTP_EEOL c
      | ck_TrlStart \<Rightarrow>
          if ch = 13 then ck_goto ck_TrlLF c
          else if ch = 10 then CkEnd FFHTTP_DONE 1 [] c
          else ck_goto ck_TrlHdr c
      | ck_TrlLF \<Rightarrow> if ch = 10 then CkEnd FFHTTP_DONE 1 [] c else ck_fail FFHTTP_EEOL c
      | ck_TrlHdr \<Rightarrow>
          if ch = 13 then ck_goto ck_TrlHdrLF c else if ch = 10 then ck_goto ck_TrlStart c else CkNext c
      | ck_TrlHdrLF \<Rightarrow> if ch = 10 then ck_goto ck_TrlStart c else ck_fail FFHTTP_EEOL c)"

text \<open>The code, the bytes left after those processed (\<open>body + *len\<close>), the data, and the parser.\<close>

function ffhttp_chunkparse :: "ffhttp_chunked \<Rightarrow> bytes \<Rightarrow> ffhttp_e \<times> bytes \<times> bytes \<times> ffhttp_chunked" where
  "ffhttp_chunkparse c [] = (FFHTTP_MORE, [], [], c)"
| "ffhttp_chunkparse c (ch # r) =
     (case ck_step c ch r of
        CkNext c \<Rightarrow> ffhttp_chunkparse c r
      | CkAgain c \<Rightarrow> ffhttp_chunkparse c (ch # r)
      | CkEnd e n d c \<Rightarrow> (e, drop n (ch # r), d, c))"
  by pat_completeness auto
termination
  by (relation "measures [\<lambda>(c, s). length s, \<lambda>(c, s). of_bool (ck_state c = ck_Data)]")
    (auto simp: ck_step_def ck_afterdata_def ck_goto_def ck_fail_def Let_def split: chunk_state.splits if_splits prod.splits)

declare ffhttp_chunkparse.simps(2) [simp del]

section \<open>Chunked bodies: the writer\<close>

text \<open>
  The text of the line before a chunk, for a buffer of \<open>cap\<close> bytes. The code tests \<open>cap - r < 2\<close>, on unsigned
  numbers with \<open>r \<le> cap\<close>.
\<close>

definition ffhttp_chunkbegin :: "bytes \<Rightarrow> u64 \<Rightarrow> (bytes \<times> nat) option" where
  "ffhttp_chunkbegin buf chunk_len =
     map_option (\<lambda>(buf, r). if length buf - r < 2 then (buf, 0) else (put_at buf r [13, 10], r + 2))
       (ffs_fromint chunk_len buf 2)"

datatype chunk_fin = FFHTTP_CHUNKFIN | FFHTTP_CHUNKZERO | FFHTTP_CHUNKLAST

fun ffhttp_chunkfin :: "chunk_fin \<Rightarrow> bytes" where
  "ffhttp_chunkfin FFHTTP_CHUNKFIN = [13, 10]"
| "ffhttp_chunkfin FFHTTP_CHUNKZERO = [48, 13, 10, 13, 10]"
| "ffhttp_chunkfin FFHTTP_CHUNKLAST = [13, 10, 48, 13, 10, 13, 10]"

section \<open>Filters\<close>

text \<open>
  \<open>None\<close> as input is the end of the connection. The result is the code, the input left, the output and the
  state of the filter.
\<close>

datatype 'p filter_open = F_SKIP | F_ERROR | F_OBJ 'p

definition http_chunked_open :: "bool \<Rightarrow> bool \<Rightarrow> ffhttp_chunked filter_open" where
  "http_chunked_open alloc_ok chunked =
     (if \<not> chunked then F_SKIP
      else if \<not> alloc_ok then F_ERROR
      else F_OBJ (ffhttp_chunkinit \<lparr>ck_cursiz = 0, ck_state = ck_Start, ck_last = False\<rparr>))"

definition http_chunked_process :: "ffhttp_chunked \<Rightarrow> bytes option \<Rightarrow> ffhttp_e \<times> bytes \<times> bytes \<times> ffhttp_chunked" where
  "http_chunked_process c inp =
     (case inp of
        None \<Rightarrow> (FFHTTP_ECHUNKED_FIN, [], [], c)
      | Some s \<Rightarrow>
        let (r, s, out, c) = ffhttp_chunkparse c s in
        if r = FFHTTP_OK then (FFHTTP_OK, s, out, c)
        else if r = FFHTTP_DONE then (FFHTTP_DONE, s, [], c)
        else if r = FFHTTP_MORE then (FFHTTP_OK, s, [], c)
        else (FFHTTP_ECHUNKED, s, out, c))"

definition http_contlen_open :: "bool \<Rightarrow> u64 \<Rightarrow> u64 filter_open" where
  "http_contlen_open alloc_ok cont_len =
     (if cont_len = -1 then F_SKIP else if \<not> alloc_ok then F_ERROR else F_OBJ cont_len)"

definition http_contlen_process :: "u64 \<Rightarrow> bytes option \<Rightarrow> ffhttp_e \<times> bytes \<times> bytes \<times> u64" where
  "http_contlen_process left inp =
     (case inp of
        None \<Rightarrow> (FFHTTP_ECONTLEN_FIN, [], [], left)
      | Some s \<Rightarrow>
        let n = min (length s) (unat left); left = left - word_of_nat n in
        (if left = 0 then FFHTTP_DONE else FFHTTP_OK, drop n s, take n s, left))"

definition http_connclose_open :: "bool \<Rightarrow> unit filter_open" where
  "http_connclose_open body_conn_close = (if body_conn_close then F_OBJ () else F_SKIP)"

definition http_connclose_process :: "unit \<Rightarrow> bytes option \<Rightarrow> ffhttp_e \<times> bytes \<times> bytes \<times> unit" where
  "http_connclose_process u inp =
     (case inp of None \<Rightarrow> (FFHTTP_DONE, [], [], u) | Some s \<Rightarrow> (FFHTTP_OK, [], s, u))"

section \<open>The contract of a filter\<close>

text \<open>
  What the user of a filter does with one piece of input: call the filter until the piece is used up, or the filter is
  done or fails. \<open>None\<close> is a filter that makes no progress.
\<close>

type_synonym 'p body_process = "'p \<Rightarrow> bytes option \<Rightarrow> ffhttp_e \<times> bytes \<times> bytes \<times> 'p"

definition after_out :: "bytes \<Rightarrow> ffhttp_e \<times> bytes \<times> bytes \<times> 'p \<Rightarrow> ffhttp_e \<times> bytes \<times> bytes \<times> 'p" where
  "after_out d = (\<lambda>(e, r, o', p). (e, r, d @ o', p))"

lemma after_out_again: "after_out d (after_out d' x) = after_out (d @ d') x"
  by (simp add: after_out_def split: prod.splits)

function filter_run :: "'p body_process \<Rightarrow> 'p \<Rightarrow> bytes \<Rightarrow> (ffhttp_e \<times> bytes \<times> bytes \<times> 'p) option" where
  "filter_run process p s =
     (if s = [] then Some (FFHTTP_OK, [], [], p)
      else case process p (Some s) of (e, r, d, q) \<Rightarrow>
        if e \<noteq> FFHTTP_OK then Some (e, r, d, q)
        else if length s \<le> length r then None
        else map_option (after_out d) (filter_run process q r))"
  by pat_completeness auto
termination by (relation "measure (\<lambda>(process, p, s). length s)") auto

declare filter_run.simps [simp del]

lemma filter_run_Nil [simp]: "filter_run process p [] = Some (FFHTTP_OK, [], [], p)"
  by (subst filter_run.simps) simp

fun filter_feed :: "'p body_process \<Rightarrow> 'p \<Rightarrow> bytes list \<Rightarrow> (ffhttp_e \<times> bytes \<times> bytes \<times> 'p) option" where
  "filter_feed process p [] = Some (FFHTTP_OK, [], [], p)"
| "filter_feed process p (s # ps) =
     (case filter_run process p s of
        None \<Rightarrow> None
      | Some (e, r, d, q) \<Rightarrow>
          if e \<noteq> FFHTTP_OK then Some (e, r @ concat ps, d, q) else map_option (after_out d) (filter_feed process q ps))"

text \<open>Further input after a result.\<close>

definition filter_continue :: "'p body_process \<Rightarrow> bytes \<Rightarrow> (ffhttp_e \<times> bytes \<times> bytes \<times> 'p) option \<Rightarrow> (ffhttp_e \<times> bytes \<times> bytes \<times> 'p) option" where
  "filter_continue process b x = (case x of None \<Rightarrow> None
     | Some (e, r, d, q) \<Rightarrow> if e \<noteq> FFHTTP_OK then Some (e, r @ b, d, q) else map_option (after_out d) (filter_run process q b))"

locale body_filter =
  fixes process :: "'p body_process"
  assumes progress: "s \<noteq> [] \<Longrightarrow> process p (Some s) = (FFHTTP_OK, r, d, q) \<Longrightarrow> length r < length s"
    and split: "a \<noteq> [] \<Longrightarrow> b \<noteq> [] \<Longrightarrow> process p (Some a) = (e, r, d, q) \<Longrightarrow>
      process p (Some (a @ b)) = (e, r @ b, d, q)
      \<or> e = FFHTTP_OK \<and> r = [] \<and> process p (Some (a @ b)) = after_out d (process q (Some b))"
begin

lemma run_step:
  "s \<noteq> [] \<Longrightarrow> process p (Some s) = (e, r, d, q) \<Longrightarrow>
    filter_run process p s = (if e \<noteq> FFHTTP_OK then Some (e, r, d, q) else map_option (after_out d) (filter_run process q r))"
  using progress [of s p r d q] by (subst filter_run.simps) auto

lemma run_returns: "\<exists>e r d q. filter_run process p s = Some (e, r, d, q) \<and> (e = FFHTTP_OK \<longrightarrow> r = [])"
proof (induction s arbitrary: p rule: measure_induct_rule [of length])
  case (less s)
  obtain e r d q where p: "process p (Some s) = (e, r, d, q)" by (metis prod_cases4)
  show ?case
  proof (cases "s = [] \<or> e \<noteq> FFHTTP_OK")
    case True
    then show ?thesis using run_step [OF _ p] by (cases "s = []") auto
  next
    case False
    then show ?thesis
      using run_step [OF _ p] less.IH [of r q] progress [of s p r d q] p by (auto simp: after_out_def)
  qed
qed

lemma continue_after: "filter_continue process b (map_option (after_out d) x) = map_option (after_out d) (filter_continue process b x)"
proof (cases x)
  case (Some y)
  obtain e r d' q where y: "y = (e, r, d', q)" by (metis prod_cases4)
  show ?thesis
    by (cases "filter_run process q b") (simp_all add: Some y filter_continue_def after_out_again, simp_all add: after_out_def)
qed (simp add: filter_continue_def)

text \<open>Input that is cut in two is processed as the whole.\<close>

lemma run_append: "filter_run process p (a @ b) = filter_continue process b (filter_run process p a)"
proof (induction a arbitrary: p rule: measure_induct_rule [of length])
  case (less a)
  obtain e r d q where p: "process p (Some a) = (e, r, d, q)" by (metis prod_cases4)
  have id: "map_option (after_out []) x = x" for x :: "(ffhttp_e \<times> bytes \<times> bytes \<times> 'p) option"
    by (cases x) (auto simp: after_out_def)
  consider "a = []" | "a \<noteq> []" "b = []" | "a \<noteq> []" "b \<noteq> []" by blast
  then show ?case
  proof cases
    case 1
    then show ?thesis by (simp add: filter_continue_def id)
  next
    case 2
    then show ?thesis using run_returns [of p a] by (auto simp: filter_continue_def after_out_def)
  next
    case 3
    from split [OF 3 p] show ?thesis
    proof (elim disjE conjE)
      assume w: "process p (Some (a @ b)) = (e, r @ b, d, q)"
      show ?thesis
      proof (cases "e = FFHTTP_OK")
        case True
        then have "filter_run process q (r @ b) = filter_continue process b (filter_run process q r)"
          using less progress [OF 3(1)] p by blast
        then show ?thesis using run_step [OF _ w] run_step [OF 3(1) p] 3 True by (simp add: continue_after)
      next
        case False
        then show ?thesis using run_step [OF _ w] run_step [OF 3(1) p] 3 by (simp add: filter_continue_def)
      qed
    next
      assume e: "e = FFHTTP_OK" "r = []" and w: "process p (Some (a @ b)) = after_out d (process q (Some b))"
      obtain e' r' d' q' where b: "process q (Some b) = (e', r', d', q')" by (metis prod_cases4)
      have "filter_run process p (a @ b) = map_option (after_out d) (filter_run process q b)"
        using run_step [of "a @ b" p e' r' "d @ d'" q'] run_step [OF 3(2) b] w b 3
        by (auto simp: after_out_def option.map_comp o_def intro: map_option_cong)
      then show ?thesis using run_step [OF 3(1) p] e by (simp add: filter_continue_def after_out_def)
    qed
  qed
qed

lemma feed_concat: "filter_feed process p ps = filter_run process p (concat ps)"
  by (induction ps arbitrary: p) (auto simp: run_append filter_continue_def split: option.splits)

end

section \<open>The filters meet the contract\<close>

lemma step_cases:
  assumes "ck_step c ch r = x"
  shows "(\<exists>c'. x = CkNext c') \<and> ck_step c ch (r @ b) = x
    \<or> x = CkAgain (c\<lparr>ck_state := ck_TrlStart\<rparr>) \<and> ck_state c = ck_Data \<and> ck_step c ch (r @ b) = x
    \<or> (\<exists>e n c'. x = CkEnd e n [] c' \<and> n \<le> 1 \<and> e \<noteq> FFHTTP_OK \<and> e \<noteq> FFHTTP_MORE) \<and> ck_step c ch (r @ b) = x
    \<or> ck_state c = ck_Data \<and> \<not> ck_last c \<and> ck_cursiz c \<noteq> 0"
  unfolding assms [symmetric]
  by (cases "ck_state c") (simp_all add: ck_step_def ck_afterdata_def ck_goto_def ck_fail_def chnk_size_def Let_def)

definition ck_take :: "ffhttp_chunked \<Rightarrow> bytes \<Rightarrow> ffhttp_e \<times> bytes \<times> bytes \<times> ffhttp_chunked" where
  "ck_take c s =
     (let sz = min (unat (ck_cursiz c)) (length s) in
      (FFHTTP_OK, drop sz s, take sz s, c\<lparr>ck_cursiz := ck_cursiz c - word_of_nat sz\<rparr>))"

lemma parse_data:
  "s \<noteq> [] \<Longrightarrow> ck_state c = ck_Data \<Longrightarrow> \<not> ck_last c \<Longrightarrow> ck_cursiz c \<noteq> 0 \<Longrightarrow> ffhttp_chunkparse c s = ck_take c s"
  by (cases s) (simp_all add: ffhttp_chunkparse.simps ck_step_def ck_take_def Let_def)

lemma take_append:
  assumes "ck_cursiz c \<noteq> 0" and "ck_state c = ck_Data" and "\<not> ck_last c" and "a \<noteq> []" and "ck_take c a = (e, r, d, q)"
  shows "length r < length a \<and> e = FFHTTP_OK \<and> (ck_take c (a @ b) = (e, r @ b, d, q)
    \<or> (r = [] \<and> ck_state q = ck_Data \<and> \<not> ck_last q \<and> ck_cursiz q \<noteq> 0 \<and> ck_take c (a @ b) = after_out d (ck_take q b)))"
proof -
  let ?n = "unat (ck_cursiz c)"
  have n: "0 < ?n" using assms(1) by (simp add: unat_gt_0)
  show ?thesis
  proof (cases "?n \<le> length a")
    case True
    then show ?thesis using assms(4,5) n by (auto simp: ck_take_def Let_def)
  next
    case False
    then have len: "length a < ?n" by simp
    then have sub: "unat (ck_cursiz c - word_of_nat (length a)) = ?n - length a"
      using unat_lt2p_64 [of "ck_cursiz c"] by (simp add: unat_sub word_le_nat_alt unat_of_nat)
    then have nz: "ck_cursiz c - word_of_nat (length a) \<noteq> 0" using len by auto
    have "min ?n (length a + length b) = length a + min (?n - length a) (length b)" using len by simp
    then show ?thesis using assms(2-5) len sub nz by (auto simp: ck_take_def Let_def after_out_def)
  qed
qed

lemma parse_append:
  assumes "a \<noteq> []" and "b \<noteq> []" and "ffhttp_chunkparse c a = (e, r, d, q)"
  shows "(e = FFHTTP_MORE \<and> r = [] \<and> d = [] \<and> ffhttp_chunkparse c (a @ b) = ffhttp_chunkparse q b)
    \<or> (e \<noteq> FFHTTP_MORE \<and> (e = FFHTTP_OK \<longrightarrow> length r < length a) \<and> ffhttp_chunkparse c (a @ b) = (e, r @ b, d, q))
    \<or> (e = FFHTTP_OK \<and> r = [] \<and> ck_state q = ck_Data \<and> \<not> ck_last q \<and> ck_cursiz q \<noteq> 0
       \<and> ffhttp_chunkparse c (a @ b) = after_out d (ck_take q b))"
  using assms
proof (induction c a rule: ffhttp_chunkparse.induct)
  case (2 c ch s)
  show ?case
  proof (cases "ck_state c = ck_Data \<and> \<not> ck_last c \<and> ck_cursiz c \<noteq> 0")
    case True
    then have "ck_take c (ch # s) = (e, r, d, q)" using 2 parse_data [of "ch # s" c] by simp
    from take_append [OF _ _ _ _ this, of b] True show ?thesis
      using parse_data [of "(ch # s) @ b" c] by auto
  next
    case False
    note st = step_cases [OF refl, of c ch s b]
    note unf = ffhttp_chunkparse.simps(2) [of c ch]
    from st False consider (go) c' where "ck_step c ch s = CkNext c'" "ck_step c ch (s @ b) = CkNext c'"
      | (again) c' where "ck_step c ch s = CkAgain c'" "ck_step c ch (s @ b) = CkAgain c'"
      | (fin) e' n c' where "ck_step c ch s = CkEnd e' n [] c'" "n \<le> 1" "e' \<noteq> FFHTTP_OK" "e' \<noteq> FFHTTP_MORE"
          "ck_step c ch (s @ b) = CkEnd e' n [] c'"
      by auto
    then show ?thesis
    proof cases
      case go
      then show ?thesis using 2 unf by (cases "s = []") auto
    next
      case again
      then show ?thesis using 2 unf by auto
    next
      case fin
      then show ?thesis using 2 unf by (auto simp: le_Suc_eq)
    qed
  qed
qed simp

definition ck_code :: "ffhttp_e \<times> bytes \<times> bytes \<times> ffhttp_chunked \<Rightarrow> ffhttp_e \<times> bytes \<times> bytes \<times> ffhttp_chunked" where
  "ck_code = (\<lambda>(r, s, out, c).
        if r = FFHTTP_OK then (FFHTTP_OK, s, out, c)
        else if r = FFHTTP_DONE then (FFHTTP_DONE, s, [], c)
        else if r = FFHTTP_MORE then (FFHTTP_OK, s, [], c)
        else (FFHTTP_ECHUNKED, s, out, c))"

lemma process_code: "http_chunked_process c (Some s) = ck_code (ffhttp_chunkparse c s)"
  by (simp add: http_chunked_process_def ck_code_def)

lemma code_after_take: "ck_code (after_out d (ck_take q b)) = after_out d (ck_code (ck_take q b))"
  by (simp add: ck_code_def ck_take_def after_out_def Let_def)

interpretation chunked: body_filter http_chunked_process
proof
  fix s p r d q
  assume s: "s \<noteq> []" and p: "http_chunked_process p (Some s) = (FFHTTP_OK, r, d, q)"
  obtain e r' d' q' where c: "ffhttp_chunkparse p s = (e, r', d', q')" by (metis prod_cases4)
  from parse_append [OF s _ c, of "[0]"] p s show "length r < length s"
    unfolding process_code c by (auto simp: ck_code_def split: if_splits)
next
  fix a b r d :: bytes and p e q
  assume ab: "a \<noteq> []" "b \<noteq> []" and p: "http_chunked_process p (Some a) = (e, r, d, q)"
  obtain e' r' d' q' where c: "ffhttp_chunkparse p a = (e', r', d', q')" by (metis prod_cases4)
  from parse_append [OF ab c] p
  show "http_chunked_process p (Some (a @ b)) = (e, r @ b, d, q)
      \<or> e = FFHTTP_OK \<and> r = [] \<and> http_chunked_process p (Some (a @ b)) = after_out d (http_chunked_process q (Some b))"
    unfolding process_code c
  proof (elim disjE conjE)
    assume "e' = FFHTTP_MORE" "ffhttp_chunkparse p (a @ b) = ffhttp_chunkparse q' b" "r' = []"
      and "ck_code (e', r', d', q') = (e, r, d, q)"
    then show "ck_code (ffhttp_chunkparse p (a @ b)) = (e, r @ b, d, q)
      \<or> e = FFHTTP_OK \<and> r = [] \<and> ck_code (ffhttp_chunkparse p (a @ b)) = after_out d (ck_code (ffhttp_chunkparse q b))"
      by (auto simp: ck_code_def after_out_def split: prod.splits)
  next
    assume "e' \<noteq> FFHTTP_MORE" "ffhttp_chunkparse p (a @ b) = (e', r' @ b, d', q')"
      and "ck_code (e', r', d', q') = (e, r, d, q)"
    then show "ck_code (ffhttp_chunkparse p (a @ b)) = (e, r @ b, d, q)
      \<or> e = FFHTTP_OK \<and> r = [] \<and> ck_code (ffhttp_chunkparse p (a @ b)) = after_out d (ck_code (ffhttp_chunkparse q b))"
      by (auto simp: ck_code_def split: if_splits)
  next
    assume *: "e' = FFHTTP_OK" "r' = []" "ck_state q' = ck_Data" "\<not> ck_last q'" "ck_cursiz q' \<noteq> 0"
        "ffhttp_chunkparse p (a @ b) = after_out d' (ck_take q' b)"
      and "ck_code (e', r', d', q') = (e, r, d, q)"
    then have "e = FFHTTP_OK" "r = []" "d' = d" "q' = q" by (simp_all add: ck_code_def)
    with * parse_data [OF ab(2), of q] show "ck_code (ffhttp_chunkparse p (a @ b)) = (e, r @ b, d, q)
      \<or> e = FFHTTP_OK \<and> r = [] \<and> ck_code (ffhttp_chunkparse p (a @ b)) = after_out d (ck_code (ffhttp_chunkparse q b))"
      by (simp add: code_after_take)
  qed
qed

lemma left_take: "n \<le> unat (left :: u64) \<Longrightarrow> unat (left - word_of_nat n) = unat left - n"
  using unat_lt2p_64 [of left] by (simp add: unat_sub word_le_nat_alt unat_of_nat)

lemma contlen_process:
  "http_contlen_process left (Some s) =
    (if unat left \<le> length s then (FFHTTP_DONE, drop (unat left) s, take (unat left) s, 0)
     else (FFHTTP_OK, [], s, left - word_of_nat (length s)))"
proof (cases "unat left \<le> length s")
  case False
  then have "unat (left - word_of_nat (length s)) \<noteq> 0" by (subst left_take) auto
  then have "left - word_of_nat (length s) \<noteq> 0" by (metis unat_0)
  with False show ?thesis by (simp add: http_contlen_process_def Let_def)
qed (simp add: http_contlen_process_def Let_def min_def)

interpretation contlen: body_filter http_contlen_process
proof
  fix a b r d :: bytes and p e q
  assume ab: "a \<noteq> []" "b \<noteq> []" and p: "http_contlen_process p (Some a) = (e, r, d, q)"
  show "http_contlen_process p (Some (a @ b)) = (e, r @ b, d, q)
      \<or> e = FFHTTP_OK \<and> r = [] \<and> http_contlen_process p (Some (a @ b)) = after_out d (http_contlen_process q (Some b))"
  proof (cases "unat p \<le> length a")
    case True
    then show ?thesis using p by (auto simp: contlen_process)
  next
    case False
    then have q: "q = p - word_of_nat (length a)" and e: "e = FFHTTP_OK" "r = []" "d = a"
      and u: "unat q = unat p - length a"
      using p by (auto simp: contlen_process left_take)
    have "unat p \<le> length (a @ b) \<longleftrightarrow> unat q \<le> length b" using u False by auto
    moreover have "p - word_of_nat (length (a @ b)) = q - word_of_nat (length b)" by (simp add: q)
    moreover have "unat p = length a + unat q" using u False by simp
    ultimately show ?thesis using e by (simp add: contlen_process after_out_def)
  qed
qed (auto simp: contlen_process split: if_splits)

interpretation connclose: body_filter http_connclose_process
  by unfold_locales (auto simp: http_connclose_process_def after_out_def)

section \<open>What the writer writes is read\<close>

text \<open>The line before a chunk, as it is written into a buffer of 32 bytes, and a whole body.\<close>

definition chunk_line :: "nat \<Rightarrow> bytes" where
  "chunk_line n = (case ffhttp_chunkbegin (replicate 32 0) (word_of_nat n) of None \<Rightarrow> [] | Some (buf, k) \<Rightarrow> take k buf)"

definition chunk_text :: "bytes list \<Rightarrow> bytes" where
  "chunk_text cs = concat (map (\<lambda>b. chunk_line (length b) @ b @ ffhttp_chunkfin FFHTTP_CHUNKFIN) cs) @ ffhttp_chunkfin FFHTTP_CHUNKZERO"

lemma chunk_line_eq:
  assumes "n < 2 ^ 64"
  shows "chunk_line n = map ((!) ffhex) (nat_digits 16 n) @ [13, 10]"
proof -
  let ?t = "map ((!) ffhex) (nat_digits 16 n)"
  have u: "unat (word_of_nat n :: u64) = n" using assms by (simp add: unat_of_nat)
  have len: "length (nat_digits 16 n) \<le> 16" using length_nat_digits [of 16 n 16] assms by simp
  have "ffs_fromint (word_of_nat n) (replicate 32 0) 2 = Some (put_at (replicate 32 0) 0 ?t, length ?t)"
    using len by (subst fromint_plain) (simp_all add: Let_def ffs_fromint_hex_def digits_loop_eq u)
  then show ?thesis using len by (simp add: chunk_line_def ffhttp_chunkbegin_def put_at_def)
qed

lemma foldl_digits_ge: "(v :: nat) \<le> foldl (\<lambda>a d. a * 16 + d) v ds"
proof (induction ds arbitrary: v)
  case (Cons d ds)
  have "v \<le> v * 16 + d" by simp
  also have "\<dots> \<le> foldl (\<lambda>a d. a * 16 + d) (v * 16 + d) ds" by (rule Cons)
  finally show ?case by simp
qed simp

lemma top_bit_clear: "v < 2 ^ 60 \<Longrightarrow> word_of_nat v AND (0x8000000000000000 :: u64) = 0"
proof (rule bit_eqI)
  fix n
  assume v: "v < 2 ^ 60"
  have h: "(0x8000000000000000 :: u64) = push_bit 63 1" by simp
  have b: "bit (0x8000000000000000 :: u64) n \<longleftrightarrow> n = 63" unfolding h by (auto simp: bit_simps simp del: push_bit_of_1)
  have "v div 2 ^ 63 = 0" using v by simp
  then have "\<not> bit (word_of_nat v :: u64) 63" by (simp add: bit_simps bit_iff_odd [of v])
  then show "bit (word_of_nat v AND (0x8000000000000000 :: u64)) n = bit (0 :: u64) n"
    unfolding bit_and_iff b by auto
qed

lemma parse_size:
  assumes "\<forall>d \<in> set ds. d < 16" and "ck_state c = ck_Size" and "ck_cursiz c = word_of_nat v"
    and "foldl (\<lambda>a d. a * 16 + d) v ds < 2 ^ 64"
  shows "ffhttp_chunkparse c (map ((!) ffhex) ds @ r)
    = ffhttp_chunkparse (c\<lparr>ck_cursiz := word_of_nat (foldl (\<lambda>a d. a * 16 + d) v ds)\<rparr>) r"
  using assms
proof (induction ds arbitrary: c v)
  case (Cons d ds)
  have "v * 16 + d < 2 ^ 64" using Cons.prems(4) foldl_digits_ge [of "v * 16 + d" ds] by simp
  then have "v < 2 ^ 60" by simp
  then have "ck_cursiz c AND 0x8000000000000000 = 0" using Cons.prems(3) top_bit_clear [of v] by simp
  then have step: "ck_step c (ffhex ! d) s = CkNext (c\<lparr>ck_cursiz := word_of_nat (v * 16 + d)\<rparr>)" for s
    using Cons.prems by (simp add: ck_step_def chnk_size_def hex_digit_back Let_def ac_simps)
  show ?case
    using Cons.IH [of "c\<lparr>ck_cursiz := word_of_nat (v * 16 + d)\<rparr>" "v * 16 + d"] Cons.prems
    by (simp add: ffhttp_chunkparse.simps(2) step del: of_nat_add of_nat_mult)
next
  case Nil
  then have "c\<lparr>ck_cursiz := word_of_nat v\<rparr> = c" by (cases c) simp
  then show ?case by simp
qed

lemma not_hex_cr: "ffchar_tohex 13 = -1" "ffchar_tohex (sint (13 :: u8)) = -1" by code_simp+

lemma parse_line:
  assumes "n < 2 ^ 64" and "ck_state c = ck_Start"
  shows "ffhttp_chunkparse c (chunk_line n @ r)
    = ffhttp_chunkparse (c\<lparr>ck_cursiz := word_of_nat n, ck_last := (n = 0), ck_state := ck_Data\<rparr>) r"
proof -
  obtain d ds where ds: "nat_digits 16 n = d # ds" by (cases "nat_digits 16 n") auto
  have lt: "\<forall>d \<in> set (d # ds). d < 16" using nat_digits_less [of 16 _ n] by (simp add: ds flip: ds)
  have v: "foldl (\<lambda>a d. a * 16 + d) d ds = n" using numval_nat_digits [of 16 n] by (simp add: numval_def ds)
  have nz: "(word_of_nat n :: u64) = 0 \<longleftrightarrow> n = 0" using assms(1) by (auto simp: word_of_nat_eq_0_iff dest: dvd_imp_le)
  show ?thesis
    using parse_size [of ds "c\<lparr>ck_cursiz := word_of_nat d, ck_last := False, ck_state := ck_Size\<rparr>" d "13 # 10 # r"]
      lt v assms nz
    by (cases c) (simp add: chunk_line_eq ds ffhttp_chunkparse.simps(2) ck_step_def hex_digit_back chnk_size_def not_hex_cr ck_goto_def Let_def)
qed

lemma run_parse:
  assumes "s \<noteq> []" and "t \<noteq> []" and "ffhttp_chunkparse c s = ffhttp_chunkparse c' t"
  shows "filter_run http_chunked_process c s = filter_run http_chunked_process c' t"
proof -
  obtain e r d q where p: "http_chunked_process c (Some s) = (e, r, d, q)" by (metis prod_cases4)
  then have "http_chunked_process c' (Some t) = (e, r, d, q)" using assms(3) by (simp add: process_code)
  from chunked.run_step [OF assms(1) p] chunked.run_step [OF assms(2) this] show ?thesis by simp
qed

lemma run_chunk:
  assumes "b \<noteq> []" and "length b < 2 ^ 64" and "ck_state c = ck_Start" and "t \<noteq> []"
  shows "\<exists>c'. ck_state c' = ck_Start \<and> filter_run http_chunked_process c (chunk_line (length b) @ b @ [13, 10] @ t)
    = map_option (after_out b) (filter_run http_chunked_process c' t)"
proof -
  let ?c = "c\<lparr>ck_cursiz := word_of_nat (length b), ck_last := False, ck_state := ck_Data\<rparr>"
  let ?q = "?c\<lparr>ck_cursiz := 0\<rparr>"
  have u: "unat (word_of_nat (length b) :: u64) = length b" using assms(2) by (simp add: unat_of_nat)
  then have nz: "(word_of_nat (length b) :: u64) \<noteq> 0" using assms(1) by (metis length_0_conv unat_0)
  have "ffhttp_chunkparse ?c (b @ [13, 10] @ t) = ck_take ?c (b @ [13, 10] @ t)"
    using nz by (intro parse_data) simp_all
  then have p: "http_chunked_process ?c (Some (b @ [13, 10] @ t)) = (FFHTTP_OK, [13, 10] @ t, b, ?q)"
    by (simp add: process_code ck_code_def ck_take_def Let_def u)
  have "filter_run http_chunked_process c (chunk_line (length b) @ b @ [13, 10] @ t)
      = filter_run http_chunked_process ?c (b @ [13, 10] @ t)"
    using assms by (intro run_parse) (simp_all add: parse_line)
  also have "\<dots> = map_option (after_out b) (filter_run http_chunked_process ?q ([13, 10] @ t))"
    using chunked.run_step [OF _ p] by simp
  also have "filter_run http_chunked_process ?q ([13, 10] @ t) = filter_run http_chunked_process (?q\<lparr>ck_state := ck_Start\<rparr>) t"
    using assms(4) by (intro run_parse)
      (simp_all add: ffhttp_chunkparse.simps(2) ck_step_def ck_afterdata_def ck_goto_def)
  finally show ?thesis by (intro exI [of _ "?q\<lparr>ck_state := ck_Start\<rparr>"]) simp
qed

lemma chunk_line_0: "chunk_line 0 = [48, 13, 10]"
  by (simp add: chunk_line_eq nat_digits.simps ffhex_def)

lemma run_body:
  assumes "\<forall>b \<in> set cs. b \<noteq> [] \<and> length b < 2 ^ 64" and "ck_state c = ck_Start"
  shows "\<exists>c'. filter_run http_chunked_process c (chunk_text cs @ rest) = Some (FFHTTP_DONE, rest, concat cs, c')"
  using assms
proof (induction cs arbitrary: c)
  case Nil
  have "http_chunked_process c (Some ((48 :: u8) # 13 # 10 # 13 # 10 # rest))
      = (FFHTTP_DONE, rest, [], c\<lparr>ck_cursiz := 0, ck_last := True, ck_state := ck_TrlLF\<rparr>)"
    using parse_line [of 0 c "13 # 10 # rest"] Nil.prems
    by (simp add: process_code chunk_line_0 ffhttp_chunkparse.simps(2) ck_step_def ck_goto_def ck_code_def)
  then show ?case using chunked.run_step [of "48 # 13 # 10 # 13 # 10 # rest" c] by (simp add: chunk_text_def)
next
  case (Cons b cs)
  have "chunk_text cs @ rest \<noteq> []" by (simp add: chunk_text_def)
  from run_chunk [OF _ _ Cons.prems(2) this, of b] Cons.prems obtain c' where c': "ck_state c' = ck_Start"
    "filter_run http_chunked_process c (chunk_line (length b) @ b @ [13, 10] @ chunk_text cs @ rest)
      = map_option (after_out b) (filter_run http_chunked_process c' (chunk_text cs @ rest))" by auto
  from Cons.IH [OF _ c'(1)] Cons.prems c'(2) show ?case
    by (auto simp: chunk_text_def after_out_def)
qed

text \<open>
  C26: However the bytes of a body arrive, each of the three filters returns for every piece, and gives the code, the rest of the
  input, the content and the final state that it gives for the whole body in one piece.
\<close>

theorem http_filters_pieces:
  "filter_feed http_chunked_process c ps = filter_run http_chunked_process c (concat ps)
    \<and> filter_feed http_contlen_process n ps = filter_run http_contlen_process n (concat ps)
    \<and> filter_feed http_connclose_process u ps = filter_run http_connclose_process u (concat ps)
    \<and> filter_run http_chunked_process c (concat ps) \<noteq> None
    \<and> filter_run http_contlen_process n (concat ps) \<noteq> None
    \<and> filter_run http_connclose_process u (concat ps) \<noteq> None"
  using chunked.run_returns [of c "concat ps"] contlen.run_returns [of n "concat ps"] connclose.run_returns [of u "concat ps"]
  by (auto simp: chunked.feed_concat contlen.feed_concat connclose.feed_concat)

text \<open>
  C25: A body written as chunks with \<open>ffhttp_chunkbegin\<close> and \<open>ffhttp_chunkfin\<close> and received in any pieces is read as the content that
  was written; the reader stops behind the end of the body and leaves what follows it.
\<close>

theorem ffhttp_chunked_roundtrip:
  assumes "\<forall>b \<in> set cs. b \<noteq> [] \<and> length b < 2 ^ 64" and "concat ps = chunk_text cs @ rest"
    and "http_chunked_open True True = F_OBJ c"
  shows "\<exists>c'. filter_feed http_chunked_process c ps = Some (FFHTTP_DONE, rest, concat cs, c')"
proof -
  have "ck_state c = ck_Start" using assms(3) by (auto simp: http_chunked_open_def ffhttp_chunkinit_def)
  from run_body [OF assms(1) this] show ?thesis by (simp add: chunked.feed_concat assms(2))
qed

lemma chunk_lines: "chunk_line (Suc 0) = [49, 13, 10]" "chunk_line (Suc (Suc 0)) = [50, 13, 10]"
  by (simp_all add: chunk_line_eq nat_digits.simps ffhex_def)

lemma ffhttp_chunked_roundtrip_witness:
  "\<exists>c'. filter_feed http_chunked_process \<lparr>ck_cursiz = 0, ck_state = ck_Start, ck_last = False\<rparr>
      [[50, 13], [10, 104, 105, 13, 10, 49], [13, 10, 33, 13, 10, 48, 13, 10, 13, 10, 71]]
    = Some (FFHTTP_DONE, [71], concat [[104, 105], [33]], c')"
proof (rule ffhttp_chunked_roundtrip)
  show "concat [[50, 13], [10, 104, 105, 13, 10, 49], [13, 10, 33, 13, 10, 48, 13, 10, 13, 10, 71]]
      = chunk_text [[104, 105], [33]] @ [71]"
    by (simp add: chunk_text_def chunk_lines)
qed (simp_all add: http_chunked_open_def ffhttp_chunkinit_def)

text \<open>The size of a chunk is reduced modulo \<open>2 ^ 64\<close>: a chunk of \<open>2 ^ 64\<close> bytes is taken for the last one.\<close>

lemma ffhttp_chunk_size_wraps:
  "fst (ffhttp_chunkparse \<lparr>ck_cursiz = 0, ck_state = ck_Start, ck_last = False\<rparr> (49 # replicate 16 48 @ [13, 10, 13, 10])) = FFHTTP_DONE"
  by code_simp

section \<open>Byte ranges, entity tags, cache control\<close>

text \<open>The offset (-1 is an error) and the size of the range of a text, for content of a given size.\<close>

definition ffhttp_range :: "bytes \<Rightarrow> u64 \<Rightarrow> int \<times> u64" where
  "ffhttp_range d sz =
     (let len = length d; dash = ffs_find d 45 in
      if len = 1 then (-1, sz)
      else if dash = len then (-1, sz)
      else
        case (if dash \<noteq> 0 then ffstr_toint (take dash d) 8 else Some 0) of
          None \<Rightarrow> (-1, sz)
        | Some off \<Rightarrow>
          if dash \<noteq> 0 \<and> sz \<le> off then (-1, sz)
          else if dash = len - 1 then (sint off, sz - off)
          else
            (case ffstr_toint (drop (dash + 1) d) 8 of
              None \<Rightarrow> (-1, sz)
            | Some n \<Rightarrow>
              if dash = 0 then
                (if n = 0 then (-1, sz)
                 else let n = (if sz < n then sz else n) in (sint (sz - n), n))
              else (sint off, if sz \<le> n + off then sz - off else n - off + 1)))"

definition ffstr_eq :: "bytes \<Rightarrow> bytes \<Rightarrow> bool" where
  "ffstr_eq s1 s2 \<longleftrightarrow> length s1 = length s2 \<and> ffs_cmp s1 s2 (length s2) = Some 0"

definition ffstr_ieq :: "bytes \<Rightarrow> bytes \<Rightarrow> bool" where
  "ffstr_ieq s1 s2 \<longleftrightarrow> length s1 = length s2 \<and> ffs_icmp s1 s2 (length s2) = Some 0"

lemma nextval_comma:
  "ffstr_nextval s 44 =
    (let b = ffs_skipof s [32]; t = drop b s; n = ffs_find t 44; v = take n t in
     if b = length s then ([], length s)
     else (take (ffs_rskipof v [32]) v,
       if b + n \<noteq> length s then (if b + n + 1 = length s \<and> n \<noteq> 0 then b + n else b + n + 1) else length s))"
  by (simp add: ffstr_nextval_def nv_space_def Let_def)

lemma nextval_comma_drop: "s \<noteq> [] \<Longrightarrow> (v, n) = ffstr_nextval s 44 \<Longrightarrow> length (drop n s) < length s"
  by (auto simp: nextval_comma Let_def split: if_splits)

function ffhttp_ifnonematch :: "bytes \<Rightarrow> bytes \<Rightarrow> bool" where
  "ffhttp_ifnonematch etag nmatch =
     (if nmatch = [] then True
      else
        let (v, n) = ffstr_nextval nmatch 44 in
        if ffstr_eq v etag then False else ffhttp_ifnonematch etag (drop n nmatch))"
  by pat_completeness auto
termination
  by (relation "measure (\<lambda>(etag, nmatch). length nmatch)") (auto dest: nextval_comma_drop)

declare ffhttp_ifnonematch.simps [simp del]

text \<open>\<open>scachctl\<close>: no-cache, no-store, private, must-revalidate, public, max-age, max-stale, min-fresh, s-max-age.\<close>

definition scachctl :: "bytes list" where
  "scachctl =
    [[110, 111, 45, 99, 97, 99, 104, 101], [110, 111, 45, 115, 116, 111, 114, 101], [112, 114, 105, 118, 97, 116, 101],
     [109, 117, 115, 116, 45, 114, 101, 118, 97, 108, 105, 100, 97, 116, 101], [112, 117, 98, 108, 105, 99],
     [109, 97, 120, 45, 97, 103, 101], [109, 97, 120, 45, 115, 116, 97, 108, 101],
     [109, 105, 110, 45, 102, 114, 101, 115, 104], [115, 45, 109, 97, 120, 45, 97, 103, 101]]"

definition MAXAGE_IDX :: nat where "MAXAGE_IDX = 5"

text \<open>
  One value: the index of the name it has in the table, and the number behind the name and \<open>=\<close>, where the table has
  one; \<open>None\<close> when the value sets nothing. The four numbers follow one another in memory and are a list here.
\<close>

definition cachctl_value :: "bytes \<Rightarrow> (nat \<times> u32 option) option" where
  "cachctl_value vv =
     (case find_loop (ffstr_ieq vv) (take MAXAGE_IDX scachctl) 0 of
        i \<Rightarrow> if i \<noteq> -1 then Some (nat i, None)
          else
            let j = find_loop (\<lambda>cc. length cc + 1 < length vv \<and> vv ! length cc = 61 \<and> ffs_icmp vv cc (length cc) = Some 0)
                  (drop MAXAGE_IDX scachctl) 0 in
            if j = -1 then None
            else
              let k = MAXAGE_IDX + nat j; s = drop (length (scachctl ! k) + 1) vv in
              map_option (\<lambda>n. (k, Some (ucast n))) (ffstr_toint s 4))"

function cachctl_loop :: "bytes \<Rightarrow> u32 list \<Rightarrow> u32 \<Rightarrow> u32 list \<times> u32" where
  "cachctl_loop hdr cctl rc =
     (if hdr = [] then (cctl, rc)
      else
        let (vv, n) = ffstr_nextval hdr 44 in
        case cachctl_value vv of
          None \<Rightarrow> cachctl_loop (drop n hdr) cctl rc
        | Some (i, num) \<Rightarrow>
            cachctl_loop (drop n hdr) (case num of None \<Rightarrow> cctl | Some x \<Rightarrow> cctl[i - MAXAGE_IDX := x]) (rc OR push_bit i 1))"
  by pat_completeness auto
termination
  by (relation "measure (\<lambda>(hdr, cctl, rc). length hdr)") (auto dest: nextval_comma_drop)

definition ffhttp_parsecachctl :: "u32 list \<Rightarrow> bytes \<Rightarrow> u32 list \<times> u32" where
  "ffhttp_parsecachctl cctl val = cachctl_loop val cctl 0"

text \<open>
  The range that the text asks for in content of \<open>sz\<close> bytes, by the meaning of the three forms.
\<close>

definition range_text :: "u64 option \<Rightarrow> u64 option \<Rightarrow> bytes" where
  "range_text b e = (case b of None \<Rightarrow> [] | Some b \<Rightarrow> ffs_fromint_dec b) @ [45] @ (case e of None \<Rightarrow> [] | Some e \<Rightarrow> ffs_fromint_dec e)"

lemma ffs_find_here [simp]: "ffs_find (c # r) c = 0" "ffs_find [] c = 0"
  by (simp_all add: ffs_find_def)

lemma dec_text_no_dash: "45 \<notin> set (ffs_fromint_dec v)"
proof -
  have eq: "ffs_fromint_dec v = map dg48 (nat_digits 10 (unat v))"
    using digits_loop_eq [of 10] by (simp add: fromint_dec_digits)
  have "list_all (\<lambda>d. dg48 d \<noteq> 45) [0..<10]" by code_simp
  then show ?thesis unfolding eq using nat_digits_less [of 10] by (fastforce simp: list_all_iff)
qed

lemma dec_text_toint [simp]: "ffstr_toint (ffs_fromint_dec v) 8 = Some v"
  using dec_read [of v] dec_text_not_Nil by (simp add: ffstr_toint_def)

lemma range_begin_end:
  "ffhttp_range (range_text (Some b) (Some e)) sz =
    (if sz \<le> b then (-1, sz) else (sint b, if sz \<le> e + b then sz - b else e - b + 1))"
  using dec_text_no_dash [of b] dec_text_not_Nil [of b] dec_text_not_Nil [of e]
  by (simp add: ffhttp_range_def range_text_def Let_def)

lemma range_begin:
  "ffhttp_range (range_text (Some b) None) sz = (if sz \<le> b then (-1, sz) else (sint b, sz - b))"
  using dec_text_no_dash [of b] dec_text_not_Nil [of b]
  by (simp add: ffhttp_range_def range_text_def Let_def)

lemma range_suffix:
  "ffhttp_range (range_text None (Some n)) sz =
    (if n = 0 then (-1, sz) else if sz < n then (0, sz) else (sint (sz - n), n))"
  using dec_text_not_Nil [of n]
  by (simp add: ffhttp_range_def range_text_def Let_def)

fun range_spec :: "u64 option \<Rightarrow> u64 option \<Rightarrow> nat \<Rightarrow> (nat \<times> nat) option" where
  "range_spec (Some b) (Some e) sz =
     (if unat b \<le> unat e \<and> unat b < sz then Some (unat b, min (unat e) (sz - 1) - unat b + 1) else None)"
| "range_spec (Some b) None sz = (if unat b < sz then Some (unat b, sz - unat b) else None)"
| "range_spec None (Some n) sz = (if n \<noteq> 0 then Some (sz - unat n, min (unat n) sz) else None)"
| "range_spec None None sz = None"

lemma sint_small: "unat (w :: u64) < 2 ^ 63 \<Longrightarrow> sint w = int (unat w)"
proof -
  assume w: "unat w < 2 ^ 63"
  define k where "k = unat w"
  have u: "uint w = int k" by (simp add: k_def)
  have k: "k < 2 ^ 63" using w by (simp add: k_def)
  have "sint w = signed_take_bit 63 (uint w)" unfolding sint_uint by simp
  also have "\<dots> = int k" unfolding u using k by (intro signed_take_bit_int_eq_self) simp_all
  finally show ?thesis by (simp add: k_def)
qed

text \<open>
  The ranges with both numbers that the code answers rightly: the begin is not in the content, or it is not behind the end and
  the sum is below the size, or the sum modulo \<open>2^64\<close> is not and the end is the last byte of the content or behind it.
\<close>

definition range_plain :: "nat \<Rightarrow> nat \<Rightarrow> nat \<Rightarrow> bool" where
  "range_plain x y sz \<longleftrightarrow> sz \<le> x \<or> x \<le> y \<and> (x + y < sz \<or> sz \<le> (x + y) mod 2 ^ 64 \<and> sz \<le> y + 1)"

definition range_answer :: "u64 option \<Rightarrow> u64 option \<Rightarrow> u64 \<Rightarrow> int \<times> u64" where
  "range_answer b e sz = (case range_spec b e (unat sz) of None \<Rightarrow> (-1, sz) | Some (off, n) \<Rightarrow> (int off, word_of_nat n))"

lemma range_both:
  fixes x y sz :: u64
  assumes sz: "unat sz < 2 ^ 63"
  shows "ffhttp_range (range_text (Some x) (Some y)) sz = range_answer (Some x) (Some y) sz
    \<longleftrightarrow> range_plain (unat x) (unat y) (unat sz)"
proof -
  define X where "X = unat x"
  define Y where "Y = unat y"
  define S where "S = unat sz"
  have lim: "X < 2 ^ 64" "Y < 2 ^ 64" "S < 2 ^ 63"
    using sz unsigned_less [of x, where 'a = nat] unsigned_less [of y, where 'a = nat] by (simp_all add: X_def Y_def S_def)
  have le: "sz \<le> x \<longleftrightarrow> S \<le> X" by (simp add: word_le_nat_alt S_def X_def)
  have "unat (y + x) = (X + Y) mod 2 ^ 64" unfolding X_def Y_def by (subst add.commute) (simp add: unat_word_ariths(1))
  then have sum: "sz \<le> y + x \<longleftrightarrow> S \<le> (X + Y) mod 2 ^ 64" by (simp only: word_le_nat_alt S_def)
  show ?thesis
  proof (cases "X < S \<and> X \<le> Y")
    case False
    show ?thesis
    proof (cases "S \<le> X")
      case True
      then show ?thesis by (simp add: range_begin_end range_answer_def range_plain_def le flip: S_def X_def Y_def)
    next
      case b: False
      then have "sint x = int X" using lim by (simp add: sint_small X_def)
      then show ?thesis using b False by (simp add: range_begin_end range_answer_def range_plain_def le flip: S_def X_def Y_def)
    qed
  next
    case True
    let ?n = "min Y (S - 1) - X + 1"
    have x: "sint x = int X" using True lim by (simp add: sint_small X_def)
    have words: "x = word_of_nat X" "y = word_of_nat Y" "sz = word_of_nat S" by (simp_all add: X_def Y_def S_def)
    have eq: "ffhttp_range (range_text (Some x) (Some y)) sz = range_answer (Some x) (Some y) sz
        \<longleftrightarrow> (if S \<le> (X + Y) mod 2 ^ 64 then sz - x else y - x + 1) = word_of_nat ?n"
      using True x by (simp add: range_begin_end range_answer_def le sum flip: X_def Y_def S_def)
    have sx: "sz - x = word_of_nat (S - X)" and yx: "y - x + 1 = word_of_nat (Y - X + 1)" using True by (simp_all add: words of_nat_diff)
    have inj: "word_of_nat a = (word_of_nat b :: u64) \<longleftrightarrow> a = b" if "a < 2 ^ 64" "b < 2 ^ 64" for a b
      using that by (simp add: word_unat_eq_iff unat_of_nat)
    have n: "?n < 2 ^ 64" "S - X < 2 ^ 64" using lim True by auto
    have "(if S \<le> (X + Y) mod 2 ^ 64 then sz - x else y - x + 1) = word_of_nat ?n \<longleftrightarrow> range_plain X Y S"
    proof (cases "S \<le> (X + Y) mod 2 ^ 64")
      case b: True
      have "sz - x = word_of_nat ?n \<longleftrightarrow> S - X = ?n" unfolding sx by (rule inj [OF n(2,1)])
      also have "\<dots> \<longleftrightarrow> S \<le> Y + 1" using True by (auto simp: min_def)
      also have "\<dots> \<longleftrightarrow> range_plain X Y S"
        using True b mod_less_eq_dividend [of "X + Y" "2 ^ 64"] by (auto simp: range_plain_def)
      finally show ?thesis using b by simp
    next
      case b: False
      have plain: "range_plain X Y S \<longleftrightarrow> X + Y < S" using True b by (auto simp: range_plain_def)
      have "y - x + 1 = word_of_nat ?n \<longleftrightarrow> X + Y < S"
      proof (cases "X + Y < 2 ^ 64")
        case c: True
        then have "X + Y < S" using b by simp
        moreover from this have "min Y (S - 1) = Y" by (intro min_absorb1) linarith
        ultimately show ?thesis unfolding yx by simp
      next
        case c: False
        then have "Y - X + 1 < 2 ^ 64" "Y - X + 1 \<noteq> ?n" using lim True c by (auto simp: min_def)
        then have "y - x + 1 \<noteq> word_of_nat ?n" unfolding yx using inj [OF _ n(1)] by blast
        moreover have "\<not> X + Y < S" using c lim by simp
        ultimately show ?thesis by blast
      qed
      then show ?thesis using b plain by simp
    qed
    then have "ffhttp_range (range_text (Some x) (Some y)) sz = range_answer (Some x) (Some y) sz \<longleftrightarrow> range_plain X Y S"
      unfolding eq .
    then show ?thesis by (simp add: X_def Y_def S_def)
  qed
qed

text \<open>
  C30: For content below 2^63 bytes, a range "begin-" or "-suffix" gives the offset and the size that its form means, or -1 where it means no
  range. A range "begin-end" does so exactly if the begin is not in the content, or if it is not behind the end and either the sum of
  both is below the content size, or the sum, which the code takes modulo 2^64, reaches the content size and the end is the last byte of
  the content or behind it.
\<close>

theorem ffhttp_range_correct:
  assumes "unat sz < 2 ^ 63" and "b \<noteq> None \<or> e \<noteq> None"
  shows "ffhttp_range (range_text b e) sz = range_answer b e sz
    \<longleftrightarrow> (\<forall>x y. b = Some x \<and> e = Some y \<longrightarrow> range_plain (unat x) (unat y) (unat sz))"
proof -
  have le: "x \<le> y \<longleftrightarrow> unat x \<le> unat y" for x y :: u64 by (simp add: word_le_nat_alt)
  have sub: "word_of_nat (unat y - unat x) = y - x" if "unat x \<le> unat y" for x y :: u64
    using that by (simp add: of_nat_diff)
  consider (both) x y where "b = Some x" "e = Some y" | (first) x where "b = Some x" "e = None"
    | (suffix) n where "b = None" "e = Some n"
    using assms(2) by (cases b; cases e; simp)
  then show ?thesis
  proof cases
    case both
    then show ?thesis using range_both [OF assms(1)] by simp
  next
    case first
    then show ?thesis using assms(1) by (auto simp: range_begin range_answer_def le sub sint_small)
  next
    case suffix
    show ?thesis
    proof (cases "unat sz < unat n")
      case True
      then show ?thesis using suffix by (auto simp: range_suffix range_answer_def word_less_nat_alt min_def)
    next
      case False
      then have "unat (sz - n) = unat sz - unat n" by (simp add: unat_sub le)
      then show ?thesis using suffix False assms(1) by (auto simp: range_suffix range_answer_def word_less_nat_alt min_def sint_small)
    qed
  qed
qed

lemma ffhttp_range_correct_witness:
  "ffhttp_range (range_text (Some 12) (Some 45)) 78 = (12, 34)
    \<and> ffhttp_range (range_text (Some 50) (Some 60)) 100 \<noteq> range_answer (Some 50) (Some 60) 100"
proof -
  have "range_plain 12 45 78" "\<not> range_plain 50 60 100" by (simp_all add: range_plain_def)
  then show ?thesis
    using ffhttp_range_correct [of 78 "Some 12" "Some 45"] ffhttp_range_correct [of 100 "Some 50" "Some 60"]
    by (simp add: range_answer_def)
qed

text \<open>
  Where the sum of the two numbers reaches the size, the end is ignored; where the end is before the begin, or so large
  that the sum wraps, the size that is returned is larger than the content.
\<close>

lemma ffhttp_range_wrong:
  "ffhttp_range (range_text (Some 50) (Some 60)) 100 = (50, 50)"
  "ffhttp_range (range_text (Some 5) (Some 3)) 100 = (5, 2 ^ 64 - 1)"
  "ffhttp_range (range_text (Some 1) (Some (2 ^ 64 - 1))) 100 = (1, 2 ^ 64 - 1)"
  by (simp_all add: range_begin_end word_le_nat_alt)

end
