(* ===== verification/FF_HttpHdr.thy ===== *)
theory FF_HttpHdr
  imports FF_HttpBody FF_Crc FF_Hashtab
begin

text \<open>
  HTTP headers: \<open>net/http.h\<close> and \<open>net/ffhttp.c\<close>. The table of known headers, and the parser of one header line, which keeps its
  state and may be called as the text arrives. The base pointer of the structures is the argument \<open>d\<close>, the text itself.
\<close>

unbundle bit_operations_syntax

section \<open>Known headers\<close>

text \<open>\<open>ffhttp_shdr\<close>: no name, Connection, Keep-Alive, Date and so on up to Status; \<open>hdrHashes\<close> are their hashes.\<close>

definition ffhttp_shdr :: "bytes list" where
  "ffhttp_shdr = [
     [], [67, 111, 110, 110, 101, 99, 116, 105, 111, 110], [75, 101, 101, 112, 45, 65, 108, 105, 118, 101],
     [68, 97, 116, 101], [84, 114, 97, 110, 115, 102, 101, 114, 45, 69, 110, 99, 111, 100, 105, 110, 103], [86, 105, 97],
     [67, 97, 99, 104, 101, 45, 67, 111, 110, 116, 114, 111, 108],
     [67, 111, 110, 116, 101, 110, 116, 45, 69, 110, 99, 111, 100, 105, 110, 103],
     [67, 111, 110, 116, 101, 110, 116, 45, 76, 101, 110, 103, 116, 104],
     [67, 111, 110, 116, 101, 110, 116, 45, 82, 97, 110, 103, 101],
     [67, 111, 110, 116, 101, 110, 116, 45, 84, 121, 112, 101], [72, 111, 115, 116], [82, 101, 102, 101, 114, 101, 114],
     [85, 115, 101, 114, 45, 65, 103, 101, 110, 116], [65, 99, 99, 101, 112, 116],
     [65, 99, 99, 101, 112, 116, 45, 69, 110, 99, 111, 100, 105, 110, 103], [84, 69], [73, 102, 45, 77, 97, 116, 99, 104],
     [73, 102, 45, 77, 111, 100, 105, 102, 105, 101, 100, 45, 83, 105, 110, 99, 101],
     [73, 102, 45, 78, 111, 110, 101, 45, 77, 97, 116, 99, 104], [73, 102, 45, 82, 97, 110, 103, 101],
     [73, 102, 45, 85, 110, 109, 111, 100, 105, 102, 105, 101, 100, 45, 83, 105, 110, 99, 101], [82, 97, 110, 103, 101],
     [65, 117, 116, 104, 111, 114, 105, 122, 97, 116, 105, 111, 110], [67, 111, 111, 107, 105, 101],
     [67, 111, 111, 107, 105, 101, 50],
     [80, 114, 111, 120, 121, 45, 65, 117, 116, 104, 111, 114, 105, 122, 97, 116, 105, 111, 110],
     [80, 114, 111, 120, 121, 45, 67, 111, 110, 110, 101, 99, 116, 105, 111, 110], [65, 103, 101],
     [83, 101, 114, 118, 101, 114], [76, 111, 99, 97, 116, 105, 111, 110], [69, 84, 97, 103],
     [69, 120, 112, 105, 114, 101, 115], [76, 97, 115, 116, 45, 77, 111, 100, 105, 102, 105, 101, 100],
     [65, 99, 99, 101, 112, 116, 45, 82, 97, 110, 103, 101, 115], [86, 97, 114, 121],
     [80, 114, 111, 120, 121, 45, 65, 117, 116, 104, 101, 110, 116, 105, 99, 97, 116, 101],
     [83, 101, 116, 45, 67, 111, 111, 107, 105, 101], [83, 101, 116, 45, 67, 111, 111, 107, 105, 101, 50],
     [87, 87, 87, 45, 65, 117, 116, 104, 101, 110, 116, 105, 99, 97, 116, 101], [85, 112, 103, 114, 97, 100, 101],
     [88, 45, 70, 111, 114, 119, 97, 114, 100, 101, 100, 45, 70, 111, 114], [83, 116, 97, 116, 117, 115]]"

definition hdrHashes :: "u32 list" where
  "hdrHashes = [
     0, 704082790, 3308361288, 2862495610, 1470906230, 565660880, 9184401, 3836410099, 314322716, 1051632209, 3266185539,
     3475444733, 1440495237, 2191772431, 3005279540, 2687938133, 928136154, 1168849366, 1848278858, 1529156225, 2893522586,
     462614015, 2475121225, 2053999599, 2329983590, 3197016794, 146921266, 2570020322, 2704281778, 1517147638, 1587448267,
     3514087100, 2593941644, 4183802465, 2930364553, 315970471, 2775274866, 1431457525, 3612863184, 1561078874, 3076944922,
     2397052407, 2063623452]"


definition FFHTTP_HLAST :: nat where "FFHTTP_HLAST = 43"

definition ht_knhdr_cmpkey :: "nat \<Rightarrow> bytes \<Rightarrow> unit \<Rightarrow> int" where
  "ht_knhdr_cmpkey i key param = (if ffstr_ieq (ffhttp_shdr ! i) key then 0 else -1)"

text \<open>The static table \<open>ht_known_hdrs\<close> is passed and returned; \<open>None\<close> is an insertion that does not return.\<close>

fun known_hdrs_loop :: "nat list \<Rightarrow> ffhstab \<Rightarrow> (int \<times> ffhstab) option" where
  "known_hdrs_loop [] ht = Some (0, ht)"
| "known_hdrs_loop (i # is) ht =
     (case ffhst_ins ht (hdrHashes ! i) i of
        None \<Rightarrow> None
      | Some (ht, r) \<Rightarrow> if r < 0 then Some (-1, ffhst_free ht) else known_hdrs_loop is ht)"

definition ffhttp_initheaders :: "(u64 \<Rightarrow> u64) \<Rightarrow> bool \<Rightarrow> ffhstab \<Rightarrow> (int \<times> ffhstab) option" where
  "ffhttp_initheaders align alloc_ok ht =
     (if nslots ht \<noteq> 0 then Some (0, ht)
      else case ffhst_init align alloc_ok (word_of_nat FFHTTP_HLAST) of
          None \<Rightarrow> Some (-1, ht)
        | Some ht \<Rightarrow> known_hdrs_loop [1..<FFHTTP_HLAST] ht)"

definition ffhttp_freeheaders :: "ffhstab \<Rightarrow> ffhstab" where
  "ffhttp_freeheaders ht = ffhst_free ht"

section \<open>One header line\<close>

record ffrange =
  r_len :: u16
  r_off :: u16

definition ffrang_get :: "ffrange \<Rightarrow> bytes \<Rightarrow> bytes" where
  "ffrang_get r base = part base (unat (r_off r)) (unat (r_len r))"

datatype hdr_state = iKey | iKeyData | iSpaceBeforeVal | iVal | iSpaceAfterVal | iLastLf

record ffhttp_hdr =
  h_len :: u16
  h_idx :: hdr_state
  h_ihdr :: nat
  h_crc :: u32
  h_key :: ffrange
  h_val :: ffrange

definition ffhttp_inithdr :: ffhttp_hdr where
  "ffhttp_inithdr = \<lparr>h_len = 0, h_idx = iKey, h_ihdr = 0, h_crc = ffcrc32_start,
     h_key = \<lparr>r_len = 0, r_off = 0\<rparr>, h_val = \<lparr>r_len = 0, r_off = 0\<rparr>\<rparr>"

text \<open>What a state does with a char: go on to the next one, look at it again, fail, or finish the line.\<close>

datatype hdr_act = HNext ffhttp_hdr | HAgain ffhttp_hdr | HFail ffhttp_e ffhttp_hdr | HDone ffhttp_hdr

definition set_vallen :: "nat \<Rightarrow> ffhttp_hdr \<Rightarrow> ffhttp_hdr" where
  "set_vallen i h = h\<lparr>h_val := (h_val h)\<lparr>r_len := word_of_nat i - r_off (h_val h)\<rparr>\<rparr>"

definition hdr_val :: "nat \<Rightarrow> u8 \<Rightarrow> ffhttp_hdr \<Rightarrow> hdr_act" where
  "hdr_val i ch h =
     (if ch = 32 then HNext ((set_vallen i h)\<lparr>h_idx := iSpaceAfterVal\<rparr>)
      else if ch = 13 then HNext ((set_vallen i h)\<lparr>h_idx := iLastLf\<rparr>)
      else if ch = 10 then HDone (set_vallen i h)
      else HNext h)"

definition hdr_step :: "nat \<Rightarrow> u8 \<Rightarrow> ffhttp_hdr \<Rightarrow> hdr_act" where
  "hdr_step i ch h =
     (case h_idx h of
        iKey \<Rightarrow>
          let h = h\<lparr>h_crc := ffcrc32_start, h_key := (h_key h)\<lparr>r_off := word_of_nat i\<rparr>\<rparr> in
          if ch = 13 then HNext (h\<lparr>h_key := (h_key h)\<lparr>r_len := 0\<rparr>, h_idx := iLastLf\<rparr>)
          else if ch = 10 then HDone (h\<lparr>h_key := (h_key h)\<lparr>r_len := 0\<rparr>\<rparr>)
          else if \<not> ffchar_isname ch then HFail FFHTTP_EHDRKEY h
          else HAgain (h\<lparr>h_idx := iKeyData\<rparr>)
      | iKeyData \<Rightarrow>
          if ch = 58 then HNext (h\<lparr>h_key := (h_key h)\<lparr>r_len := word_of_nat i - r_off (h_key h)\<rparr>, h_idx := iSpaceBeforeVal\<rparr>)
          else if ch = 13 \<or> ch = 10 then HFail FFHTTP_ENOVAL h
          else if \<not> (ffchar_isname ch \<or> ch = 45) then HFail FFHTTP_EHDRKEY h
          else HNext (h\<lparr>h_crc := ffcrc32_iupdate (h_crc h) (scast ch)\<rparr>)
      | iSpaceBeforeVal \<Rightarrow>
          if ch = 32 then HNext h
          else hdr_val i ch (h\<lparr>h_val := (h_val h)\<lparr>r_off := word_of_nat i\<rparr>, h_idx := iVal\<rparr>)
      | iVal \<Rightarrow> hdr_val i ch h
      | iSpaceAfterVal \<Rightarrow>
          if ch = 32 then HNext h
          else if ch = 13 then HNext (h\<lparr>h_idx := iLastLf\<rparr>)
          else if ch = 10 then HDone h
          else HNext (h\<lparr>h_val := (h_val h)\<lparr>r_len := word_of_nat i\<rparr>, h_idx := iVal\<rparr>)
      | iLastLf \<Rightarrow> if ch \<noteq> 10 then HFail FFHTTP_EEOL h else HDone h)"

function hdr_loop :: "bytes \<Rightarrow> nat \<Rightarrow> ffhttp_hdr \<Rightarrow> ffhttp_e \<times> ffhttp_hdr \<times> nat" where
  "hdr_loop d i h =
     (if length d \<le> i then (FFHTTP_MORE, h, i)
      else case hdr_step i (d ! i) h of
          HNext h \<Rightarrow> hdr_loop d (i + 1) h
        | HAgain h \<Rightarrow> hdr_loop d i h
        | HFail e h \<Rightarrow> (e, h, i)
        | HDone h \<Rightarrow> (FFHTTP_OK, h, i))"
  by pat_completeness auto
termination
  by (relation "measures [\<lambda>(d, i, h). length d - i, \<lambda>(d, i, h). of_bool (h_idx h = iKey)]")
    (auto simp: hdr_step_def hdr_val_def Let_def split: hdr_state.splits if_splits)

declare hdr_loop.simps [simp del]

text \<open>
  \<open>None\<close> is a start behind the end of the text, from where the code would read on outside of it, or a search in the table of known
  headers that does not return.
\<close>

definition ffhttp_nexthdr :: "ffhstab \<Rightarrow> ffhttp_hdr \<Rightarrow> bytes \<Rightarrow> (ffhttp_e \<times> ffhttp_hdr) option" where
  "ffhttp_nexthdr kt h d =
     (let (e, h', i) = hdr_loop (take 0xffff d) (unat (h_len h)) h in
      if length (take 0xffff d) < unat (h_len h) then None
      else let h = h' in
      if e = FFHTTP_MORE then Some (if i = 0xffff then FFHTTP_ETOOLARGE else FFHTTP_MORE, h\<lparr>h_len := word_of_nat i\<rparr>)
      else if e \<noteq> FFHTTP_OK then Some (e, h\<lparr>h_len := word_of_nat i\<rparr>)
      else
        let h = h\<lparr>h_crc := ffcrc32_finish (h_crc h), h_idx := iKey, h_len := word_of_nat i + 1\<rparr> in
        if r_len (h_key h) = 0 then Some (FFHTTP_DONE, h)
        else
          map_option (\<lambda>r. (FFHTTP_OK, h\<lparr>h_ihdr := (case r of None \<Rightarrow> 0 | Some k \<Rightarrow> k)\<rparr>))
            (ffhst_find ht_knhdr_cmpkey kt (h_crc h) (ffrang_get (h_key h) d) ()))"

section \<open>The table of known headers holds them\<close>

lemma ieq_fold: "ffstr_ieq s t \<longleftrightarrow> map fold_case s = map fold_case t"
proof (cases "length s = length t")
  case True
  then show ?thesis by (simp add: ffstr_ieq_def ffs_icmp_order ffint_cmp_def) 
next
  case False
  then show ?thesis by (auto simp: ffstr_ieq_def dest: map_eq_imp_length_eq)
qed

lemma iupdate_fold: "ffcrc32_iupdate crc (ucast c) = ffcrc32_update crc (ucast (fold_case c))"
proof -
  have "uint c < 2 ^ 8" using unsigned_less [of c, where ?'a = int] by simp
  then have u: "uint (ucast c :: u32) = uint c" by (simp add: unsigned_ucast_eq take_bit_int_eq_self)
  have "uint (fold_case c) = icase (uint c)" by (rule uint_fold_case)
  then have "(ucast (fold_case c) :: u32) = word_of_int (icase (uint c))" by (metis word_of_int_uint ucast_eq)
  then show ?thesis by (simp add: ffcrc32_iupdate_def u icase_def)
qed

lemma iget_fold: "ffcrc32_iget s = ffcrc32_get (map fold_case s)"
  unfolding ffcrc32_iget_def ffcrc32_get_def by (simp add: iupdate_fold foldl_map)

lemma hashes_1: "list_all (\<lambda>(s, h). ffcrc32_iget s = h) (zip (take 22 ffhttp_shdr) (take 22 hdrHashes))"
  by code_simp

lemma hashes_2: "list_all (\<lambda>(s, h). ffcrc32_iget s = h) (zip (drop 22 ffhttp_shdr) (drop 22 hdrHashes))"
  by code_simp

lemma hdr_tables: "length ffhttp_shdr = 43" "length hdrHashes = 43"
  by (simp_all add: ffhttp_shdr_def hdrHashes_def)

lemma hash_known: "i < 43 \<Longrightarrow> ffcrc32_iget (ffhttp_shdr ! i) = hdrHashes ! i"
proof -
  assume i: "i < 43"
  have "zip ffhttp_shdr hdrHashes = zip (take 22 ffhttp_shdr) (take 22 hdrHashes) @ zip (drop 22 ffhttp_shdr) (drop 22 hdrHashes)"
    by (simp add: hdr_tables flip: zip_append)
  then have "list_all (\<lambda>(s, h). ffcrc32_iget s = h) (zip ffhttp_shdr hdrHashes)"
    using hashes_1 hashes_2 by simp
  then have "(\<lambda>(s, h). ffcrc32_iget s = h) (zip ffhttp_shdr hdrHashes ! i)"
    using i by (simp add: list_all_length hdr_tables)
  then show ?thesis using i by (simp add: hdr_tables)
qed

lemma names_distinct: "distinct (map (map fold_case) ffhttp_shdr)"
  by code_simp

lemma name_unique:
  "i < 43 \<Longrightarrow> j < 43 \<Longrightarrow> map fold_case (ffhttp_shdr ! i) = map fold_case (ffhttp_shdr ! j) \<Longrightarrow> i = j"
  using nth_eq_iff_index_eq [OF names_distinct, of i j] by (simp add: hdr_tables)

lemma known_hdrs_loop_ok:
  assumes "hst_ok ht" and "unat (hlen ht) + length is < unat (nslots ht)" and "unat (hlen ht) + length is < 2 ^ 30"
  shows "\<exists>ht'. known_hdrs_loop is ht = Some (0, ht') \<and> hst_ok ht' \<and> nslots ht' = nslots ht
    \<and> hst_abs ht' = hst_abs ht + mset (map (\<lambda>i. (hdrHashes ! i, i)) is)"
  using assms
proof (induction "is" arbitrary: ht)
  case (Cons i "is")
  have "hlen ht < nslots ht" using Cons.prems(2) by (simp add: word_less_nat_alt)
  from ffhst_ins_count [OF Cons.prems(1) this] Cons.prems(3) obtain ht' r where ht':
    "ffhst_ins ht (hdrHashes ! i) i = Some (ht', r)" "0 < r" "hst_ok ht'" "nslots ht' = nslots ht" "unat (hlen ht') = unat (hlen ht) + 1"
    "hst_abs ht' = add_mset (hdrHashes ! i, i) (hst_abs ht)" by force
  from Cons.IH [OF ht'(3)] Cons.prems ht' show ?case by auto
qed simp

text \<open>The number of the known header of a name, by the list of names.\<close>

definition known_header :: "bytes \<Rightarrow> nat option" where
  "known_header name = find (\<lambda>i. ffstr_ieq (ffhttp_shdr ! i) name) [1..<FFHTTP_HLAST]"

lemma known_header_Some: "known_header name = Some i \<longleftrightarrow> 0 < i \<and> i < 43 \<and> ffstr_ieq (ffhttp_shdr ! i) name"
proof
  assume *: "0 < i \<and> i < 43 \<and> ffstr_ieq (ffhttp_shdr ! i) name"
  have "\<not> ffstr_ieq (ffhttp_shdr ! j) name" if "0 < j" "j < i" for j
    using * that name_unique [of i j] by (auto simp: ieq_fold)
  with * show "known_header name = Some i"
    unfolding known_header_def find_Some_iff FFHTTP_HLAST_def
    by (intro exI [of _ "i - 1"]) (auto simp: nth_append)
next
  assume "known_header name = Some i"
  then show "0 < i \<and> i < 43 \<and> ffstr_ieq (ffhttp_shdr ! i) name"
    by (auto simp: known_header_def find_Some_iff FFHTTP_HLAST_def)
qed

definition known_ok :: "ffhstab \<Rightarrow> bool" where
  "known_ok kt \<longleftrightarrow> (\<forall>name. ffhst_find ht_knhdr_cmpkey kt (ffcrc32_iget name) name () = Some (known_header name))"

lemma initheaders_ok:
  assumes "rounds_up align" and "nslots ht0 = 0"
  shows "\<exists>kt. ffhttp_initheaders align True ht0 = Some (0, kt) \<and> known_ok kt"
proof -
  have n43: "unat (word_of_nat FFHTTP_HLAST :: u64) = 43" by (simp add: FFHTTP_HLAST_def)
  then obtain ht where ht: "ffhst_init align True (word_of_nat FFHTTP_HLAST) = Some ht" "hst_ok ht" "hst_abs ht = {#}"
    "43 < unat (nslots ht)"
    using ffhst_init_ok [OF assms(1), of "word_of_nat FFHTTP_HLAST"] by auto
  have l0: "unat (hlen ht) = 0" using ht(2,3) by (simp add: hst_ok_def)
  obtain kt where kt: "known_hdrs_loop [1..<FFHTTP_HLAST] ht = Some (0, kt)" "hst_ok kt" "nslots kt = nslots ht"
    and bag: "hst_abs kt = mset (map (\<lambda>i. (hdrHashes ! i, i)) [1..<43])"
    using known_hdrs_loop_ok [OF ht(2), of "[1..<FFHTTP_HLAST]"] ht(3,4) l0 by (auto simp: FFHTTP_HLAST_def)
  have room: "size (hst_abs kt) < unat (nslots kt)" using ht(4) by (simp add: bag kt(3))
  have bag_iff: "(x, v) \<in># hst_abs kt \<longleftrightarrow> 0 < v \<and> v < 43 \<and> x = hdrHashes ! v" for x v
    by (auto simp: bag)
  have "ffhst_find ht_knhdr_cmpkey kt (ffcrc32_iget name) name () = Some (known_header name)" for name
  proof -
    obtain res where res: "ffhst_find ht_knhdr_cmpkey kt (ffcrc32_iget name) name () = Some res"
      "case res of Some v \<Rightarrow> (ffcrc32_iget name, v) \<in># hst_abs kt \<and> ht_knhdr_cmpkey v name () = 0
        | None \<Rightarrow> \<forall>v. (ffcrc32_iget name, v) \<in># hst_abs kt \<longrightarrow> ht_knhdr_cmpkey v name () \<noteq> 0"
      using hst.find_law [OF kt(2) room, of ht_knhdr_cmpkey "ffcrc32_iget name" name "()"] by auto
    have "res = known_header name"
    proof (cases res)
      case (Some v)
      then have "known_header name = Some v"
        using res(2) by (auto simp: known_header_Some bag_iff ht_knhdr_cmpkey_def split: if_splits)
      with Some show ?thesis by simp
    next
      case None
      have "known_header name \<noteq> Some v" for v
      proof
        assume v: "known_header name = Some v"
        then have "0 < v" "v < 43" "map fold_case (ffhttp_shdr ! v) = map fold_case name"
          by (auto simp: known_header_Some ieq_fold)
        then have "(ffcrc32_iget name, v) \<in># hst_abs kt"
          using hash_known [of v] by (simp add: bag_iff iget_fold)
        with None res(2) v show False by (auto simp: ht_knhdr_cmpkey_def known_header_Some)
      qed
      with None show ?thesis by (cases "known_header name") auto
    qed
    with res(1) show ?thesis by simp
  qed
  with kt ht(1) assms(2) show ?thesis by (simp add: ffhttp_initheaders_def known_ok_def)
qed

section \<open>Reading a header line\<close>

definition key_char :: "u8 \<Rightarrow> bool" where
  "key_char c \<longleftrightarrow> ffchar_isname c \<or> c = 45"

lemma key_char_ascii: "key_char c \<Longrightarrow> (scast c :: u32) = ucast c"
proof -
  have "list_all (\<lambda>n. key_char (word_of_nat n) \<longrightarrow> (scast (word_of_nat n :: u8) :: u32) = ucast (word_of_nat n :: u8)) [0..<256]"
    by code_simp
  moreover have "unat c \<in> set [0..<256]" using unsigned_less [of c, where 'a = nat] by simp
  ultimately have "key_char (word_of_nat (unat c)) \<longrightarrow>
      (scast (word_of_nat (unat c) :: u8) :: u32) = ucast (word_of_nat (unat c) :: u8)"
    unfolding list_all_iff by (rule bspec)
  moreover assume "key_char c"
  ultimately show ?thesis by simp
qed

lemma key_char_special: "\<not> key_char 58" "\<not> key_char 13" "\<not> key_char 10" "\<not> ffchar_isname 13" "\<not> ffchar_isname 10" 
  by code_simp+

lemma hdr_loop_next:
  assumes "hdr_step (length pre) c h = HNext h'"
  shows "hdr_loop (pre @ c # post) (length pre) h = hdr_loop (pre @ c # post) (length (pre @ [c])) h'"
  using assms by (subst hdr_loop.simps) simp

lemma hdr_loop_again:
  assumes "hdr_step (length pre) c h = HAgain h'"
  shows "hdr_loop (pre @ c # post) (length pre) h = hdr_loop (pre @ c # post) (length pre) h'"
  using assms by (subst hdr_loop.simps) simp

lemma hdr_loop_done:
  assumes "hdr_step (length pre) c h = HDone h'"
  shows "hdr_loop (pre @ c # post) (length pre) h = (FFHTTP_OK, h', length pre)"
  using assms by (subst hdr_loop.simps) simp

lemma key_run:
  assumes "\<forall>c \<in> set xs. key_char c" and "h_idx h = iKeyData"
  shows "hdr_loop (pre @ xs @ post) (length pre) h
    = hdr_loop (pre @ xs @ post) (length (pre @ xs))
        (h\<lparr>h_crc := foldl (\<lambda>crc c. ffcrc32_iupdate crc (ucast c)) (h_crc h) xs\<rparr>)"
  using assms
proof (induction xs arbitrary: pre h)
  case (Cons c xs)
  let ?h = "h\<lparr>h_crc := ffcrc32_iupdate (h_crc h) (ucast c)\<rparr>"
  have c: "key_char c" using Cons.prems by simp
  then have "c \<noteq> 58" "c \<noteq> 13" "c \<noteq> 10" using key_char_special by auto
  then have "hdr_step (length pre) c h = HNext ?h"
    using Cons.prems c by (auto simp: hdr_step_def key_char_ascii key_char_def)
  then have "hdr_loop (pre @ c # xs @ post) (length pre) h = hdr_loop (pre @ c # xs @ post) (length (pre @ [c])) ?h"
    by (rule hdr_loop_next)
  also have "\<dots> = hdr_loop (pre @ c # xs @ post) (length (pre @ c # xs))
        (?h\<lparr>h_crc := foldl (\<lambda>crc c. ffcrc32_iupdate crc (ucast c)) (h_crc ?h) xs\<rparr>)"
    using Cons.IH [of ?h "pre @ [c]"] Cons.prems by simp
  finally show ?case by simp
qed simp

lemma space_run:
  assumes "h_idx h = iSpaceBeforeVal \<or> h_idx h = iSpaceAfterVal"
  shows "hdr_loop (pre @ replicate n 32 @ post) (length pre) h = hdr_loop (pre @ replicate n 32 @ post) (length pre + n) h"
proof (induction n arbitrary: pre)
  case (Suc n)
  have "hdr_step (length pre) 32 h = HNext h" using assms by (auto simp: hdr_step_def)
  then have "hdr_loop (pre @ 32 # replicate n 32 @ post) (length pre) h
      = hdr_loop (pre @ 32 # replicate n 32 @ post) (length (pre @ [32])) h"
    by (rule hdr_loop_next)
  also have "\<dots> = hdr_loop (pre @ 32 # replicate n 32 @ post) (length (pre @ [32]) + n) h"
    using Suc.IH [of "pre @ [32]"] by simp
  finally show ?case by simp
qed simp

lemma val_run:
  assumes "\<forall>c \<in> set xs. c \<noteq> 10 \<and> c \<noteq> 13" and "h_idx h = iVal \<or> h_idx h = iSpaceAfterVal"
  shows "\<exists>l. hdr_loop (pre @ xs @ post) (length pre) h
    = hdr_loop (pre @ xs @ post) (length (pre @ xs))
        (h\<lparr>h_val := (h_val h)\<lparr>r_len := l\<rparr>,
           h_idx := (if xs = [] then h_idx h else if last xs = 32 then iSpaceAfterVal else iVal)\<rparr>)"
  using assms
proof (induction xs arbitrary: pre h)
  case Nil
  have "h\<lparr>h_val := (h_val h)\<lparr>r_len := r_len (h_val h)\<rparr>, h_idx := h_idx h\<rparr> = h" by simp
  then show ?case by (intro exI [of _ "r_len (h_val h)"]) simp
next
  case (Cons c xs)
  obtain l0 where "hdr_step (length pre) c h
      = HNext (h\<lparr>h_val := (h_val h)\<lparr>r_len := l0\<rparr>, h_idx := (if c = 32 then iSpaceAfterVal else iVal)\<rparr>)" (is "_ = HNext ?h")
  proof -
    have id: "h_idx h = st \<Longrightarrow> h\<lparr>h_val := (h_val h)\<lparr>r_len := r_len (h_val h)\<rparr>, h_idx := st\<rparr> = h" for st by auto
    have c: "c \<noteq> 10" "c \<noteq> 13" using Cons.prems by simp_all
    from Cons.prems(2) consider "h_idx h = iVal" "c = 32" | "h_idx h = iVal" "c \<noteq> 32"
      | "h_idx h = iSpaceAfterVal" "c = 32" | "h_idx h = iSpaceAfterVal" "c \<noteq> 32" by blast
    then show ?thesis
    proof cases
      case 1
      then show ?thesis by (intro that [of "word_of_nat (length pre) - r_off (h_val h)"]) (simp add: hdr_step_def hdr_val_def set_vallen_def)
    next
      case 2
      then show ?thesis using c id [of iVal] by (intro that [of "r_len (h_val h)"]) (simp add: hdr_step_def hdr_val_def)
    next
      case 3
      then show ?thesis using id [of iSpaceAfterVal] by (intro that [of "r_len (h_val h)"]) (simp add: hdr_step_def)
    next
      case 4
      then show ?thesis using c by (intro that [of "word_of_nat (length pre)"]) (simp add: hdr_step_def)
    qed
  qed
  then have "hdr_loop (pre @ c # xs @ post) (length pre) h = hdr_loop (pre @ c # xs @ post) (length (pre @ [c])) ?h"
    by (rule hdr_loop_next)
  moreover
  have ix: "h_idx ?h = iVal \<or> h_idx ?h = iSpaceAfterVal" by simp
  from Cons.IH [OF _ ix, of "pre @ [c]"] Cons.prems(1)
  obtain l where "hdr_loop ((pre @ [c]) @ xs @ post) (length (pre @ [c])) ?h
      = hdr_loop ((pre @ [c]) @ xs @ post) (length ((pre @ [c]) @ xs))
          (?h\<lparr>h_val := (h_val ?h)\<lparr>r_len := l\<rparr>,
            h_idx := (if xs = [] then h_idx ?h else if last xs = 32 then iSpaceAfterVal else iVal)\<rparr>)"
    by (elim meta_impE exE) simp_all
  ultimately show ?case by (intro exI [of _ l]) simp
qed

text \<open>A header line: the name, the value and the spaces around it, with or without a carriage return at the end.\<close>

definition hdr_name_ok :: "bytes \<Rightarrow> bool" where
  "hdr_name_ok name \<longleftrightarrow> name \<noteq> [] \<and> ffchar_isname (hd name) \<and> (\<forall>c \<in> set name. key_char c)"

definition hdr_val_ok :: "bytes \<Rightarrow> bool" where
  "hdr_val_ok v \<longleftrightarrow> (\<forall>c \<in> set v. c \<noteq> 10 \<and> c \<noteq> 13) \<and> (v \<noteq> [] \<longrightarrow> hd v \<noteq> 32 \<and> last v \<noteq> 32)"

definition eol :: "bool \<Rightarrow> bytes" where
  "eol cr = (if cr then [13, 10] else [10])"

definition hdr_line :: "bytes \<Rightarrow> nat \<Rightarrow> bytes \<Rightarrow> nat \<Rightarrow> bool \<Rightarrow> bytes" where
  "hdr_line name sp v sp2 cr = name @ [58] @ replicate sp 32 @ v @ replicate sp2 32 @ eol cr"

text \<open>The end of the line, after the value.\<close>

lemma eol_run:
  assumes "h_idx h = iSpaceAfterVal"
  shows "\<exists>st. hdr_loop (pre @ eol cr @ post) (length pre) h
    = (FFHTTP_OK, h\<lparr>h_idx := st\<rparr>, length (pre @ eol cr) - 1)"
proof (cases cr)
  case True
  let ?h = "h\<lparr>h_idx := iLastLf\<rparr>"
  have "hdr_step (length pre) 13 h = HNext ?h" using assms by (simp add: hdr_step_def)
  moreover have "hdr_step (length (pre @ [13])) 10 ?h = HDone ?h" by (simp add: hdr_step_def)
  ultimately show ?thesis
    using True hdr_loop_next [of pre 13 h ?h "10 # post"] hdr_loop_done [of "pre @ [13]" 10 ?h ?h post]
    by (intro exI [of _ iLastLf]) (simp add: eol_def)
next
  case False
  have "hdr_step (length pre) 10 h = HDone h" using assms by (simp add: hdr_step_def)
  moreover have "h\<lparr>h_idx := iSpaceAfterVal\<rparr> = h" using assms by simp
  ultimately show ?thesis
    using False hdr_loop_done [of pre 10 h h post] by (intro exI [of _ iSpaceAfterVal]) (simp add: eol_def)
qed

lemma val_end:
  assumes "h_idx h = iVal"
  shows "\<exists>st. hdr_loop (pre @ replicate n 32 @ eol cr @ post) (length pre) h
    = (FFHTTP_OK, (set_vallen (length pre) h)\<lparr>h_idx := st\<rparr>, length (pre @ replicate n 32 @ eol cr) - 1)"
proof (cases n)
  case 0
  let ?v = "set_vallen (length pre) h" let ?h = "?v\<lparr>h_idx := iLastLf\<rparr>"
  show ?thesis
  proof (cases cr)
    case True
    have "hdr_step (length pre) 13 h = HNext ?h" using assms by (simp add: hdr_step_def hdr_val_def)
    moreover have "hdr_step (length (pre @ [13])) 10 ?h = HDone ?h" by (simp add: hdr_step_def)
    ultimately show ?thesis
      using True 0 hdr_loop_next [of pre 13 h ?h "10 # post"] hdr_loop_done [of "pre @ [13]" 10 ?h ?h post]
      by (intro exI [of _ iLastLf]) (simp add: eol_def)
  next
    case False
    have "hdr_step (length pre) 10 h = HDone ?v" using assms by (simp add: hdr_step_def hdr_val_def)
    moreover have "?v\<lparr>h_idx := iVal\<rparr> = ?v" using assms by (simp add: set_vallen_def)
    ultimately show ?thesis
      using False 0 hdr_loop_done [of pre 10 h ?v post] by (intro exI [of _ iVal]) (simp add: eol_def)
  qed
next
  case (Suc k)
  let ?h = "(set_vallen (length pre) h)\<lparr>h_idx := iSpaceAfterVal\<rparr>"
  have "hdr_step (length pre) 32 h = HNext ?h" using assms by (simp add: hdr_step_def hdr_val_def)
  then have "hdr_loop (pre @ 32 # replicate k 32 @ eol cr @ post) (length pre) h
      = hdr_loop (pre @ 32 # replicate k 32 @ eol cr @ post) (length (pre @ [32])) ?h"
    by (rule hdr_loop_next)
  also have "\<dots> = hdr_loop (pre @ 32 # replicate k 32 @ eol cr @ post) (length (pre @ 32 # replicate k 32)) ?h"
    using space_run [of ?h "pre @ [32]" k "eol cr @ post"] by simp
  finally show ?thesis
    using Suc eol_run [of ?h "pre @ 32 # replicate k 32" cr post] by (auto simp: add.commute)
qed

lemma before_val:
  assumes "c \<noteq> 32" and "h_idx h = iSpaceBeforeVal"
  shows "hdr_loop (pre @ c # post) (length pre) h
    = hdr_loop (pre @ c # post) (length pre) (h\<lparr>h_val := (h_val h)\<lparr>r_off := word_of_nat (length pre)\<rparr>, h_idx := iVal\<rparr>)"
  using assms by (subst (1 2) hdr_loop.simps) (simp add: hdr_step_def)

text \<open>From the colon to the end of the line.\<close>

lemma rest_run:
  assumes v: "hdr_val_ok v" and st: "h_idx h = iSpaceBeforeVal"
  shows "\<exists>h' p. hdr_loop (pre @ replicate sp 32 @ v @ replicate sp2 32 @ eol cr @ post) (length pre) h
      = (FFHTTP_OK, h', length (pre @ replicate sp 32 @ v @ replicate sp2 32 @ eol cr) - 1)
    \<and> h_crc h' = h_crc h \<and> h_key h' = h_key h
    \<and> r_off (h_val h') = word_of_nat p \<and> r_len (h_val h') = word_of_nat (length v)
    \<and> (v \<noteq> [] \<longrightarrow> p = length pre + sp) \<and> p \<le> length (pre @ replicate sp 32 @ v @ replicate sp2 32)"
proof (cases "v = []")
  case True
  let ?pre = "pre @ replicate (sp + sp2) 32"
  let ?h = "h\<lparr>h_val := (h_val h)\<lparr>r_off := word_of_nat (length ?pre)\<rparr>, h_idx := iVal\<rparr>"
  have "hdr_loop (pre @ replicate (sp + sp2) 32 @ eol cr @ post) (length pre) h
      = hdr_loop (?pre @ eol cr @ post) (length ?pre) h"
    using space_run [of h pre "sp + sp2" "eol cr @ post"] st by simp
  also have "\<dots> = hdr_loop (?pre @ eol cr @ post) (length ?pre) ?h"
    using before_val [of "hd (eol cr)" h ?pre "tl (eol cr) @ post"] st by (cases cr) (simp_all add: eol_def)
  finally obtain st where "hdr_loop (pre @ replicate (sp + sp2) 32 @ eol cr @ post) (length pre) h
      = (FFHTTP_OK, (set_vallen (length ?pre) ?h)\<lparr>h_idx := st\<rparr>, length (?pre @ eol cr) - 1)"
    using val_end [of ?h ?pre 0 cr post] by auto
  then show ?thesis using True
    by (intro exI [of _ "(set_vallen (length ?pre) ?h)\<lparr>h_idx := st\<rparr>"] exI [of _ "length ?pre"])
      (simp add: set_vallen_def replicate_add add.assoc)
next
  case False
  let ?pre = "pre @ replicate sp 32"
  let ?h = "h\<lparr>h_val := (h_val h)\<lparr>r_off := word_of_nat (length ?pre)\<rparr>, h_idx := iVal\<rparr>"
  let ?r = "replicate sp2 32 @ eol cr @ post"
  obtain c v' where c: "v = c # v'" using False by (cases v) auto
  have "hdr_loop (pre @ replicate sp 32 @ v @ ?r) (length pre) h = hdr_loop (?pre @ v @ ?r) (length ?pre) h"
    using space_run [of h pre sp "v @ ?r"] st by simp
  also have "\<dots> = hdr_loop (?pre @ v @ ?r) (length ?pre) ?h"
    using before_val [of c h ?pre "v' @ ?r"] st v by (simp add: c hdr_val_ok_def)
  finally have *: "hdr_loop (pre @ replicate sp 32 @ v @ ?r) (length pre) h = hdr_loop (?pre @ v @ ?r) (length ?pre) ?h" .
  have vs: "\<forall>c \<in> set v. c \<noteq> 10 \<and> c \<noteq> 13" and lst: "last v \<noteq> 32" using v False by (auto simp: hdr_val_ok_def)
  from val_run [OF vs, of ?h ?pre ?r] False lst obtain l where
    l: "hdr_loop (?pre @ v @ ?r) (length ?pre) ?h
      = hdr_loop (?pre @ v @ ?r) (length (?pre @ v)) (?h\<lparr>h_val := (h_val ?h)\<lparr>r_len := l\<rparr>, h_idx := iVal\<rparr>)"
    by auto
  let ?g = "?h\<lparr>h_val := (h_val ?h)\<lparr>r_len := l\<rparr>, h_idx := iVal\<rparr>"
  from val_end [of ?g "?pre @ v" sp2 cr post] obtain st where
    "hdr_loop ((?pre @ v) @ ?r) (length (?pre @ v)) ?g
      = (FFHTTP_OK, (set_vallen (length (?pre @ v)) ?g)\<lparr>h_idx := st\<rparr>, length ((?pre @ v) @ replicate sp2 32 @ eol cr) - 1)" by auto
  with * l show ?thesis using False
    by (intro exI [of _ "(set_vallen (length (?pre @ v)) ?g)\<lparr>h_idx := st\<rparr>"] exI [of _ "length ?pre"])
      (simp add: set_vallen_def add.assoc)
qed

lemma line_run:
  assumes n: "hdr_name_ok name" and v: "hdr_val_ok v" and st: "h_idx h = iKey"
  shows "\<exists>h' p. hdr_loop (pre @ hdr_line name sp v sp2 cr @ post) (length pre) h
      = (FFHTTP_OK, h', length (pre @ hdr_line name sp v sp2 cr) - 1)
    \<and> ffcrc32_finish (h_crc h') = ffcrc32_iget name
    \<and> h_key h' = \<lparr>r_len = word_of_nat (length name), r_off = word_of_nat (length pre)\<rparr>
    \<and> r_off (h_val h') = word_of_nat p \<and> r_len (h_val h') = word_of_nat (length v)
    \<and> (v \<noteq> [] \<longrightarrow> p = length pre + length name + 1 + sp)
    \<and> p < length (pre @ hdr_line name sp v sp2 cr)"
proof -
  let ?rest = "replicate sp 32 @ v @ replicate sp2 32 @ eol cr @ post"
  obtain c ns where c: "name = c # ns" "ffchar_isname c" using n by (cases name) (auto simp: hdr_name_ok_def)
  then have c': "c \<noteq> 13" "c \<noteq> 10" using key_char_special by auto
  let ?h1 = "h\<lparr>h_crc := ffcrc32_start, h_key := (h_key h)\<lparr>r_off := word_of_nat (length pre)\<rparr>, h_idx := iKeyData\<rparr>"
  let ?h2 = "?h1\<lparr>h_crc := foldl (\<lambda>crc c. ffcrc32_iupdate crc (ucast c)) ffcrc32_start name\<rparr>"
  let ?h3 = "?h2\<lparr>h_key := \<lparr>r_len = word_of_nat (length name), r_off = word_of_nat (length pre)\<rparr>, h_idx := iSpaceBeforeVal\<rparr>"
  have "hdr_step (length pre) c h = HAgain ?h1" using st c(2) c' by (simp add: hdr_step_def)
  then have "hdr_loop (pre @ name @ 58 # ?rest) (length pre) h = hdr_loop (pre @ name @ 58 # ?rest) (length pre) ?h1"
    using hdr_loop_again [of pre c h ?h1 "ns @ 58 # ?rest"] by (simp add: c(1))
  also have "\<dots> = hdr_loop ((pre @ name) @ 58 # ?rest) (length (pre @ name)) ?h2"
    using key_run [of name ?h1 pre "58 # ?rest"] n by (simp add: hdr_name_ok_def)
  also have "\<dots> = hdr_loop ((pre @ name) @ 58 # ?rest) (length ((pre @ name) @ [58])) ?h3"
  proof (rule hdr_loop_next)
    have "word_of_nat (length (pre @ name)) - word_of_nat (length pre) = (word_of_nat (length name) :: u16)" by simp
    then show "hdr_step (length (pre @ name)) 58 ?h2 = HNext ?h3" by (cases "h_key h") (simp add: hdr_step_def)
  qed
  finally have run: "hdr_loop (pre @ hdr_line name sp v sp2 cr @ post) (length pre) h
      = hdr_loop ((pre @ name @ [58]) @ ?rest) (length (pre @ name @ [58])) ?h3"
    by (simp add: hdr_line_def)
  have crc: "ffcrc32_finish (h_crc ?h3) = ffcrc32_iget name" by (simp add: ffcrc32_iget_def)
  from rest_run [OF v, of ?h3 "pre @ name @ [58]" sp sp2 cr post] obtain h' p where
    "hdr_loop ((pre @ name @ [58]) @ ?rest) (length (pre @ name @ [58])) ?h3
      = (FFHTTP_OK, h', length ((pre @ name @ [58]) @ replicate sp 32 @ v @ replicate sp2 32 @ eol cr) - 1)"
    "h_crc h' = h_crc ?h3" "h_key h' = h_key ?h3" "r_off (h_val h') = word_of_nat p" "r_len (h_val h') = word_of_nat (length v)"
    "v \<noteq> [] \<longrightarrow> p = length (pre @ name @ [58]) + sp"
    "p \<le> length ((pre @ name @ [58]) @ replicate sp 32 @ v @ replicate sp2 32)" by auto
  moreover have "length (eol cr) = (if cr then 2 else 1)" by (simp add: eol_def)
  ultimately show ?thesis using run crc
    by (intro exI [of _ h'] exI [of _ p]) (cases cr; simp add: hdr_line_def)
qed

text \<open>The blank line that ends the headers.\<close>

lemma blank_run:
  assumes "h_idx h = iKey"
  shows "\<exists>h'. hdr_loop (pre @ eol cr @ post) (length pre) h = (FFHTTP_OK, h', length (pre @ eol cr) - 1)
    \<and> r_len (h_key h') = 0"
proof -
  let ?k = "h\<lparr>h_crc := ffcrc32_start, h_key := (h_key h)\<lparr>r_off := word_of_nat (length pre), r_len := 0\<rparr>\<rparr>"
  let ?h = "?k\<lparr>h_idx := iLastLf\<rparr>"
  show ?thesis
  proof (cases cr)
    case True
    have "hdr_step (length pre) 13 h = HNext ?h" using assms by (simp add: hdr_step_def)
    moreover have "hdr_step (length (pre @ [13])) 10 ?h = HDone ?h" by (simp add: hdr_step_def)
    ultimately show ?thesis
      using True hdr_loop_next [of pre 13 h ?h "10 # post"] hdr_loop_done [of "pre @ [13]" 10 ?h ?h post]
      by (intro exI [of _ ?h]) (simp add: eol_def)
  next
    case False
    have "hdr_step (length pre) 10 h = HDone ?k" using assms by (simp add: hdr_step_def)
    then show ?thesis using False hdr_loop_done [of pre 10 h ?k post] by (intro exI [of _ ?k]) (simp add: eol_def)
  qed
qed

text \<open>One call, on a text that holds the line at the place where the parser stands.\<close>

definition hdr_number :: "bytes \<Rightarrow> nat" where
  "hdr_number name = (case known_header name of None \<Rightarrow> 0 | Some k \<Rightarrow> k)"

lemma nexthdr_line:
  assumes kt: "known_ok kt" and n: "hdr_name_ok name" and v: "hdr_val_ok v"
    and d: "d = pre @ hdr_line name sp v sp2 cr @ post" and len: "length (pre @ hdr_line name sp v sp2 cr) < 65536"
    and h: "h_idx h = iKey" "unat (h_len h) = length pre"
  shows "\<exists>h'. ffhttp_nexthdr kt h d = Some (FFHTTP_OK, h') \<and> h_idx h' = iKey
    \<and> unat (h_len h') = length (pre @ hdr_line name sp v sp2 cr)
    \<and> h_crc h' = ffcrc32_iget name \<and> h_ihdr h' = hdr_number name
    \<and> ffrang_get (h_key h') d = name \<and> ffrang_get (h_val h') d = v"
proof -
  let ?line = "hdr_line name sp v sp2 cr"
  have tk: "take 0xffff d = pre @ ?line @ take (0xffff - length (pre @ ?line)) post" (is "_ = pre @ ?line @ ?post")
    using len unfolding d by simp
  have inb: "\<not> length (take 0xffff d) < unat (h_len h)" unfolding tk h(2) by simp
  from line_run [OF n v h(1), of pre sp sp2 cr ?post] obtain h1 p where
    run: "hdr_loop (take 0xffff d) (unat (h_len h)) h = (FFHTTP_OK, h1, length (pre @ ?line) - 1)"
    and h1: "ffcrc32_finish (h_crc h1) = ffcrc32_iget name"
      "h_key h1 = \<lparr>r_len = word_of_nat (length name), r_off = word_of_nat (length pre)\<rparr>"
      "r_off (h_val h1) = word_of_nat p" "r_len (h_val h1) = word_of_nat (length v)"
      "v \<noteq> [] \<longrightarrow> p = length pre + length name + 1 + sp" "p < length (pre @ ?line)"
    unfolding tk h(2) by blast
  have sz: "length pre < 65536" "length name < 65536" "length v < 65536" "p < 65536"
    using len h1(6) by (simp_all add: hdr_line_def)
  have key: "ffrang_get (h_key h1) d = name"
    using sz by (simp add: ffrang_get_def part_def h1(2) unat16 d hdr_line_def)
  have val: "ffrang_get (h_val h1) d = v"
  proof -
    have u: "unat (r_off (h_val h1)) = p" "unat (r_len (h_val h1)) = length v"
      unfolding h1(3,4) using sz by (simp_all only: unat16)
    show ?thesis
    proof (cases "v = []")
      case False
      then have "p = length (pre @ name @ [58] @ replicate sp 32)" using h1(5) by simp
      moreover have "d = (pre @ name @ [58] @ replicate sp 32) @ v @ replicate sp2 32 @ eol cr @ post"
        by (simp add: d hdr_line_def)
      ultimately show ?thesis unfolding ffrang_get_def u part_def by simp
    qed (simp add: ffrang_get_def u part_def)
  qed
  have "name \<noteq> []" using n by (simp add: hdr_name_ok_def)
  then have "unat (r_len (h_key h1)) \<noteq> 0" using sz by (simp add: h1(2) unat16)
  then have nz: "r_len (h_key h1) \<noteq> 0" by auto
  have pos: "0 < length (pre @ ?line)" by (simp add: hdr_line_def)
  then have l: "word_of_nat (length (pre @ ?line) - 1) + 1 = (word_of_nat (length (pre @ ?line)) :: u16)"
    by (simp add: of_nat_diff Suc_le_eq)
  let ?h2 = "h1\<lparr>h_crc := ffcrc32_iget name, h_idx := iKey, h_len := word_of_nat (length (pre @ ?line))\<rparr>"
  have "ffhst_find ht_knhdr_cmpkey kt (ffcrc32_iget name) name () = Some (known_header name)"
    using kt by (simp add: known_ok_def)
  then have "ffhttp_nexthdr kt h d = Some (FFHTTP_OK, ?h2\<lparr>h_ihdr := hdr_number name\<rparr>)"
    unfolding ffhttp_nexthdr_def run Let_def prod.case l h1(1) using nz key inb by (simp add: hdr_number_def)
  then show ?thesis using key val unat16 [OF len] by simp
qed

lemma nexthdr_blank:
  assumes d: "d = pre @ eol cr @ post" and len: "length (pre @ eol cr) < 65536"
    and h: "h_idx h = iKey" "unat (h_len h) = length pre"
  shows "\<exists>h'. ffhttp_nexthdr kt h d = Some (FFHTTP_DONE, h') \<and> h_idx h' = iKey \<and> unat (h_len h') = length (pre @ eol cr)"
proof -
  have tk: "take 0xffff d = pre @ eol cr @ take (0xffff - length (pre @ eol cr)) post" (is "_ = pre @ eol cr @ ?post")
    using len unfolding d by simp
  have inb: "\<not> length (take 0xffff d) < unat (h_len h)" unfolding tk h(2) by simp
  from blank_run [OF h(1), of pre cr ?post] obtain h1 where
    run: "hdr_loop (take 0xffff d) (unat (h_len h)) h = (FFHTTP_OK, h1, length (pre @ eol cr) - 1)" "r_len (h_key h1) = 0"
    unfolding tk h(2) by blast
  have pos: "0 < length (pre @ eol cr)" by (simp add: eol_def)
  then have l: "word_of_nat (length (pre @ eol cr) - 1) + 1 = (word_of_nat (length (pre @ eol cr)) :: u16)"
    by (simp add: of_nat_diff Suc_le_eq)
  show ?thesis
    unfolding ffhttp_nexthdr_def run Let_def prod.case l using run(2) inb unat16 [OF len] by simp
qed

section \<open>Text that arrives in pieces\<close>

definition with_len :: "u16 \<Rightarrow> ffhttp_hdr \<Rightarrow> ffhttp_hdr" where
  "with_len n h = h\<lparr>h_len := n\<rparr>"

fun act_map :: "(ffhttp_hdr \<Rightarrow> ffhttp_hdr) \<Rightarrow> hdr_act \<Rightarrow> hdr_act" where
  "act_map f (HNext h) = HNext (f h)"
| "act_map f (HAgain h) = HAgain (f h)"
| "act_map f (HFail e h) = HFail e (f h)"
| "act_map f (HDone h) = HDone (f h)"

lemma step_with_len: "hdr_step i c (with_len n h) = act_map (with_len n) (hdr_step i c h)"
  by (cases "h_idx h") (simp_all add: hdr_step_def hdr_val_def set_vallen_def with_len_def Let_def)

lemma loop_with_len: "hdr_loop d i (with_len n h) = (case hdr_loop d i h of (e, h', j) \<Rightarrow> (e, with_len n h', j))"
proof (induction d i h rule: hdr_loop.induct)
  case (1 d i h)
  show ?case
  proof (cases "length d \<le> i")
    case True
    then show ?thesis by (simp add: hdr_loop.simps)
  next
    case False
    then show ?thesis
      using 1 by (cases "hdr_step i (d ! i) h")
        (simp_all add: step_with_len hdr_loop.simps [of d i h] hdr_loop.simps [of d i "with_len n h"])
  qed
qed

lemma loop_more:
  "hdr_loop a i h = (FFHTTP_MORE, h', j) \<Longrightarrow> i \<le> length a \<Longrightarrow>
    j = length a \<and> hdr_loop (a @ b) i h = hdr_loop (a @ b) (length a) h'"
proof (induction a i h rule: hdr_loop.induct)
  case (1 a i h)
  show ?case
  proof (cases "length a \<le> i")
    case True
    then show ?thesis using 1 by (simp add: hdr_loop.simps [of a i h])
  next
    case False
    then have c: "(a @ b) ! i = a ! i" by (simp add: nth_append)
    have nm: "hdr_step i (a ! i) h \<noteq> HFail FFHTTP_MORE x" for x
      by (cases "h_idx h") (simp_all add: hdr_step_def hdr_val_def Let_def)
    show ?thesis
      using 1 False c nm by (cases "hdr_step i (a ! i) h")
        (auto simp: hdr_loop.simps [of a i h] hdr_loop.simps [of "a @ b" i h])
  qed
qed

section \<open>Properties\<close>

text \<open>
  C21: After ffhttp_initheaders, a search with the hash of a name finds the known header that the name spells, in any mix of upper
  and lower case, and nothing for any other name; so the 42 hashes that the code has as constants are right.
\<close>

theorem ffhttp_known_headers:
  assumes "rounds_up align" and "nslots ht0 = 0"
  shows "\<exists>kt. ffhttp_initheaders align True ht0 = Some (0, kt)
    \<and> (\<forall>name. ffhst_find ht_knhdr_cmpkey kt (ffcrc32_iget name) name () = Some (known_header name))"
  using initheaders_ok [OF assms] by (simp add: known_ok_def)

lemma known_header_host: "known_header [72, 79, 115, 84] = Some 11"
proof -
  have "ffstr_ieq (ffhttp_shdr ! 11) [72, 79, 115, 84]" by code_simp
  then show ?thesis by (simp add: known_header_Some)
qed

lemma ffhttp_known_headers_witness:
  "\<exists>kt. ffhttp_initheaders (align_from 56 1) True (ex_table 0) = Some (0, kt)
    \<and> ffhst_find ht_knhdr_cmpkey kt (ffcrc32_iget [72, 79, 115, 84]) [72, 79, 115, 84] () = Some (Some 11)"
  using ffhttp_known_headers [OF rounds_up_example, of "ex_table 0"] known_header_host by auto

text \<open>
  C22: Standing at the begin of a line, with the known headers initialised: if it is a header line, whatever comes behind it, ffhttp_nexthdr returns
  with the name, the value without the spaces around it, the hash of the name and the number of the known header, and stands
  behind the line, at the begin of the next one; if it is a blank line, it reports the end of the headers and stands behind it. The line ends within the
  first 65535 bytes of the text.
\<close>

theorem ffhttp_nexthdr_reads_line:
  assumes "rounds_up align" and "nslots ht0 = 0" and "ffhttp_initheaders align True ht0 = Some (0, kt)"
    and "h_idx h = iKey" and "unat (h_len h) = length pre" and "length (pre @ line) < 65536"
  shows "(\<forall>name sp v sp2 cr. hdr_name_ok name \<and> hdr_val_ok v \<and> line = hdr_line name sp v sp2 cr \<longrightarrow>
      (\<exists>h1. ffhttp_nexthdr kt h (pre @ line @ post) = Some (FFHTTP_OK, h1)
        \<and> ffrang_get (h_key h1) (pre @ line @ post) = name \<and> ffrang_get (h_val h1) (pre @ line @ post) = v
        \<and> h_crc h1 = ffcrc32_iget name \<and> h_ihdr h1 = hdr_number name
        \<and> h_idx h1 = iKey \<and> unat (h_len h1) = length (pre @ line)))
    \<and> (\<forall>cr. line = eol cr \<longrightarrow>
      (\<exists>h1. ffhttp_nexthdr kt h (pre @ line @ post) = Some (FFHTTP_DONE, h1)
        \<and> h_idx h1 = iKey \<and> unat (h_len h1) = length (pre @ line)))"
proof -
  have kt: "known_ok kt" using initheaders_ok [OF assms(1,2)] assms(3) by auto
  have "\<exists>h1. ffhttp_nexthdr kt h (pre @ line @ post) = Some (FFHTTP_OK, h1)
        \<and> ffrang_get (h_key h1) (pre @ line @ post) = name \<and> ffrang_get (h_val h1) (pre @ line @ post) = v
        \<and> h_crc h1 = ffcrc32_iget name \<and> h_ihdr h1 = hdr_number name
        \<and> h_idx h1 = iKey \<and> unat (h_len h1) = length (pre @ line)"
    if "hdr_name_ok name \<and> hdr_val_ok v \<and> line = hdr_line name sp v sp2 cr" for name sp v sp2 cr
  proof -
    from that have ok: "hdr_name_ok name" "hdr_val_ok v" and line: "line = hdr_line name sp v sp2 cr" by simp_all
    have "pre @ line @ post = pre @ hdr_line name sp v sp2 cr @ post" using line by simp
    from nexthdr_line [OF kt ok this assms(6) [unfolded line] assms(4,5)] show ?thesis unfolding line [symmetric] by metis
  qed
  moreover have "\<exists>h1. ffhttp_nexthdr kt h (pre @ line @ post) = Some (FFHTTP_DONE, h1) \<and> h_idx h1 = iKey \<and> unat (h_len h1) = length (pre @ line)"
    if "line = eol cr" for cr
    using nexthdr_blank [of "pre @ line @ post" pre cr post h kt] assms(4-6) by (simp add: that)
  ultimately show ?thesis by blast
qed

lemma ffhttp_nexthdr_reads_line_witness:
  "\<exists>kt h1 h2. ffhttp_nexthdr kt ffhttp_inithdr [72, 79, 115, 84, 58, 32, 97, 13, 10, 13, 10] = Some (FFHTTP_OK, h1)
    \<and> ffrang_get (h_key h1) [72, 79, 115, 84, 58, 32, 97, 13, 10, 13, 10] = [72, 79, 115, 84]
    \<and> ffrang_get (h_val h1) [72, 79, 115, 84, 58, 32, 97, 13, 10, 13, 10] = [97]
    \<and> h_crc h1 = ffcrc32_iget [72, 79, 115, 84] \<and> h_ihdr h1 = 11
    \<and> ffhttp_nexthdr kt h1 [72, 79, 115, 84, 58, 32, 97, 13, 10, 13, 10] = Some (FFHTTP_DONE, h2) \<and> unat (h_len h2) = 11"
proof -
  let ?line = "[72, 79, 115, 84, 58, 32, 97, 13, 10] :: bytes"
  obtain kt where kt: "ffhttp_initheaders (align_from 56 1) True (ex_table 0) = Some (0, kt)"
    using initheaders_ok [OF rounds_up_example, of "ex_table 0"] by auto
  have ok: "hdr_name_ok [72, 79, 115, 84]" "hdr_val_ok [97]" by code_simp+
  have line: "?line = hdr_line [72, 79, 115, 84] 1 [97] 0 True" by (simp add: hdr_line_def eol_def)
  have n: "hdr_number [72, 79, 115, 84] = 11" by (simp add: hdr_number_def known_header_host)
  have init: "h_idx ffhttp_inithdr = iKey" "unat (h_len ffhttp_inithdr) = length []" by (simp_all add: ffhttp_inithdr_def)
  have z: "nslots (ex_table 0) = 0" by simp
  note rd = ffhttp_nexthdr_reads_line [OF rounds_up_example z kt]
  have l1: "length ([] @ ?line) < 65536" by simp
  obtain h1 where h1: "ffhttp_nexthdr kt ffhttp_inithdr ([] @ ?line @ [13, 10]) = Some (FFHTTP_OK, h1)"
    "ffrang_get (h_key h1) ([] @ ?line @ [13, 10]) = [72, 79, 115, 84]" "ffrang_get (h_val h1) ([] @ ?line @ [13, 10]) = [97]"
    "h_crc h1 = ffcrc32_iget [72, 79, 115, 84]" "h_ihdr h1 = hdr_number [72, 79, 115, 84]" "h_idx h1 = iKey"
    "unat (h_len h1) = length ([] @ ?line)"
    using rd [OF init l1, THEN conjunct1, rule_format, OF conjI [OF ok(1) conjI [OF ok(2) line]]] by blast
  have e: "[13, 10] = eol True" by (simp add: eol_def)
  have l2: "length (([] @ ?line) @ [13, 10]) < 65536" by simp
  obtain h2 where "ffhttp_nexthdr kt h1 (([] @ ?line) @ [13, 10] @ []) = Some (FFHTTP_DONE, h2)"
    "unat (h_len h2) = length (([] @ ?line) @ [13, 10])"
    using rd [OF h1(6,7) l2, THEN conjunct2, rule_format, OF e] by blast
  with h1 n show ?thesis by (intro exI [of _ kt] exI [of _ h1] exI [of _ h2]) simp
qed

text \<open>
  C23: A header may be parsed as its text arrives: after a call on a prefix that asked for more data, the call on the whole text
  gives what one call on the whole text gives.
\<close>

theorem ffhttp_nexthdr_incremental:
  assumes "ffhttp_nexthdr kt h a = Some (FFHTTP_MORE, h1)" and "unat (h_len h) \<le> length a"
  shows "ffhttp_nexthdr kt h1 (a @ b) = ffhttp_nexthdr kt h (a @ b)"
proof -
  obtain e h' j where run: "hdr_loop (take 0xffff a) (unat (h_len h)) h = (e, h', j)" by (metis prod_cases3)
  have "e = FFHTTP_MORE \<and> j \<noteq> 0xffff \<and> h1 = h'\<lparr>h_len := word_of_nat j\<rparr>"
    using assms(1) by (auto simp: ffhttp_nexthdr_def run Let_def split: if_splits)
  then have e: "e = FFHTTP_MORE" "j \<noteq> 0xffff" "h1 = with_len (word_of_nat j) h'" by (simp_all add: with_len_def)
  have "unat (h_len h) < 65536" using unsigned_less [of "h_len h", where 'a = nat] by simp
  then have "unat (h_len h) \<le> length (take 0xffff a)" using assms(2) by simp
  from loop_more [OF run [unfolded e(1)] this] have j: "j = length (take 0xffff a)"
    and whole: "\<And>b. hdr_loop (take 0xffff a @ b) (unat (h_len h)) h = hdr_loop (take 0xffff a @ b) (length (take 0xffff a)) h'"
    by blast+
  have la: "length a < 0xffff" "j = length a" using j e(2) by (simp_all add: min_def split: if_splits)
  have "take 0xffff (a @ b) = a @ take (0xffff - length a) b" using la by simp
  moreover have "take 0xffff a = a" using la by simp
  ultimately have "hdr_loop (take 0xffff (a @ b)) (unat (h_len h)) h = hdr_loop (take 0xffff (a @ b)) (length a) h'"
    using whole by simp
  moreover have "unat (h_len h1) = length a" using la e(3) by (simp add: with_len_def unat16)
  moreover obtain e2 h2 k where "hdr_loop (take 0xffff (a @ b)) (length a) h' = (e2, h2, k)" by (metis prod_cases3)
  ultimately show ?thesis
    using loop_with_len [of "take 0xffff (a @ b)" "length a" "word_of_nat j" h'] e(3) assms(2) la(1)
    by (simp add: ffhttp_nexthdr_def Let_def with_len_def)
qed

lemma ffhttp_nexthdr_incremental_witness:
  "ffhttp_nexthdr (ex_table 0) (snd (the (ffhttp_nexthdr (ex_table 0) ffhttp_inithdr [72, 111]))) ([72, 111] @ [115, 116, 13, 10])
    = ffhttp_nexthdr (ex_table 0) ffhttp_inithdr ([72, 111] @ [115, 116, 13, 10])"
proof (rule ffhttp_nexthdr_incremental)
  obtain e h' j where run: "hdr_loop [72, 111] 0 ffhttp_inithdr = (e, h', j)" by (metis prod_cases3)
  have "fst (hdr_loop [72, 111] 0 ffhttp_inithdr) = FFHTTP_MORE \<and> snd (snd (hdr_loop [72, 111] 0 ffhttp_inithdr)) = 2" by code_simp
  then show "ffhttp_nexthdr (ex_table 0) ffhttp_inithdr [72, 111]
      = Some (FFHTTP_MORE, snd (the (ffhttp_nexthdr (ex_table 0) ffhttp_inithdr [72, 111])))"
    using run by (simp add: ffhttp_nexthdr_def) (simp add: ffhttp_inithdr_def)
qed (simp add: ffhttp_inithdr_def)

end
