(* ===== verification/FF_Http.thy ===== *)
theory FF_Http
  imports FF_HttpHdr
begin

text \<open>
  HTTP messages: \<open>net/http.h\<close> and \<open>net/ffhttp.c\<close>. The effect of the headers on the message, the index of the headers by name,
  and the first lines of requests and responses.
\<close>

unbundle bit_operations_syntax

section \<open>Headers of a message\<close>

record headr =
  hr_hash :: u32
  hr_key :: ffrange
  hr_val :: ffrange

text \<open>
  The value that \<open>htheaders\<close> holds for a header, a pointer into the array \<open>hidx\<close>, is its index there. \<open>hs_cont_len\<close>
  is the bit pattern of an \<open>int64\<close>.
\<close>

record ffhttp_headers =
  hs_len :: u16
  hs_ver :: u16
  hs_firstline_len :: u16
  hs_http11 :: bool
  hs_firstcrlf :: nat
  hs_conn_close :: bool
  hs_has_body :: bool
  hs_chunked :: bool
  hs_body_conn_close :: bool
  hs_index_headers :: bool
  hs_ce_gzip :: bool
  hs_ce_identity :: bool
  hs_cont_len :: u64
  hs_htheaders :: ffhstab
  hs_hidx :: "headr list"
  hs_hdr :: ffhttp_hdr

definition ffhttp_init :: ffhttp_headers where
  "ffhttp_init =
     \<lparr>hs_len = 0, hs_ver = 0, hs_firstline_len = 0, hs_http11 = False, hs_firstcrlf = 0, hs_conn_close = False,
      hs_has_body = False, hs_chunked = False, hs_body_conn_close = False, hs_index_headers = True,
      hs_ce_gzip = False, hs_ce_identity = True, hs_cont_len = -1,
      hs_htheaders = \<lparr>hlen = 0, nslots = 0, slot_mask = 0, hslots = []\<rparr>, hs_hidx = [], hs_hdr = ffhttp_inithdr\<rparr>"

definition ffhttp_fin :: "ffhttp_headers \<Rightarrow> ffhttp_headers" where
  "ffhttp_fin h = h\<lparr>hs_htheaders := ffhst_free (hs_htheaders h), hs_hidx := []\<rparr>"

definition FFHTTP_CONNECTION :: nat where "FFHTTP_CONNECTION = 1"
definition FFHTTP_TRANSFER_ENCODING :: nat where "FFHTTP_TRANSFER_ENCODING = 4"
definition FFHTTP_CONTENT_ENCODING :: nat where "FFHTTP_CONTENT_ENCODING = 7"
definition FFHTTP_CONTENT_LENGTH :: nat where "FFHTTP_CONTENT_LENGTH = 8"

definition s_close :: bytes where "s_close = [99, 108, 111, 115, 101]"
definition s_keep_alive :: bytes where "s_keep_alive = [107, 101, 101, 112, 45, 97, 108, 105, 118, 101]"
definition s_gzip :: bytes where "s_gzip = [103, 122, 105, 112]"
definition s_identity :: bytes where "s_identity = [105, 100, 101, 110, 116, 105, 116, 121]"
definition s_chunked :: bytes where "s_chunked = [99, 104, 117, 110, 107, 101, 100]"

text \<open>"Connection: Keep-Alive, TE".\<close>

function hdr_connection :: "ffhttp_headers \<Rightarrow> bytes \<Rightarrow> ffhttp_headers" where
  "hdr_connection h val =
     (if val = [] then h
      else
        let (v, by) = ffstr_nextval val 44 in
        if hs_http11 h then
          (if ffstr_ieq v s_close then h\<lparr>hs_conn_close := True\<rparr> else hdr_connection h (drop by val))
        else if ffstr_ieq v s_keep_alive then h\<lparr>hs_conn_close := False\<rparr>
        else hdr_connection h (drop by val))"
  by pat_completeness auto
termination
  by (relation "measure (\<lambda>(h, val). length val)") (auto dest: nextval_comma_drop)

declare hdr_connection.simps [simp del]

text \<open>
  \<open>ffs_toint\<close> stores the number before the caller compares the number of processed bytes; it stores nothing and
  returns 0 when it fails.
\<close>

definition hdr_content_length :: "ffhttp_headers \<Rightarrow> bytes \<Rightarrow> ffhttp_e \<times> ffhttp_headers" where
  "hdr_content_length h val =
     (if hs_cont_len h \<noteq> -1 then (FFHTTP_EDUPHDR, h)
      else if hs_has_body h then (FFHTTP_OK, h)
      else
        let (n, h) = (case ffs_toint val 8 of TI_ok k r \<Rightarrow> (k, h\<lparr>hs_cont_len := r\<rparr>) | _ \<Rightarrow> (0, h)) in
        if length val \<noteq> n then (FFHTTP_EHDRVAL, h)
        else (FFHTTP_OK, if hs_cont_len h \<noteq> 0 then h\<lparr>hs_has_body := True\<rparr> else h))"

definition hdr_effect :: "ffhttp_headers \<Rightarrow> nat \<Rightarrow> bytes \<Rightarrow> ffhttp_e \<times> ffhttp_headers" where
  "hdr_effect h ihdr val =
     (if ihdr = FFHTTP_CONNECTION then (FFHTTP_OK, hdr_connection h val)
      else if ihdr = FFHTTP_CONTENT_LENGTH then hdr_content_length h val
      else if ihdr = FFHTTP_CONTENT_ENCODING then
        (FFHTTP_OK,
         if ffstr_ieq val s_gzip then h\<lparr>hs_ce_gzip := True, hs_ce_identity := False\<rparr>
         else h\<lparr>hs_ce_gzip := False, hs_ce_identity := ffstr_ieq val s_identity\<rparr>)
      else if ihdr = FFHTTP_TRANSFER_ENCODING then
        (FFHTTP_OK,
         h\<lparr>hs_chunked := (hs_chunked h \<or> ffs_imatch val s_chunked), hs_has_body := True, hs_cont_len := -1\<rparr>)
      else (FFHTTP_OK, h))"

section \<open>The index of the headers\<close>

fun headr_fill_loop :: "(nat \<times> headr) list \<Rightarrow> ffhstab \<Rightarrow> (int \<times> ffhstab) option" where
  "headr_fill_loop [] ht = Some (0, ht)"
| "headr_fill_loop ((i, hh) # hs) ht =
     (case ffhst_ins ht (hr_hash hh) i of
        None \<Rightarrow> None
      | Some (ht, r) \<Rightarrow> if r < 0 then Some (-1, ht) else headr_fill_loop hs ht)"

definition ht_headr_fill :: "(u64 \<Rightarrow> u64) \<Rightarrow> bool \<Rightarrow> ffhttp_headers \<Rightarrow> (int \<times> ffhttp_headers) option" where
  "ht_headr_fill align alloc_ok h =
     (case ffhst_init align alloc_ok (word_of_nat (length (hs_hidx h))) of
        None \<Rightarrow> Some (-1, h)
      | Some ht \<Rightarrow> map_option (\<lambda>(r, ht). (r, h\<lparr>hs_htheaders := ht\<rparr>)) (headr_fill_loop (enumerate 0 (hs_hidx h)) ht))"

definition ht_headr_cmpkey :: "nat \<Rightarrow> bytes \<Rightarrow> ffhttp_headers \<times> bytes \<Rightarrow> int" where
  "ht_headr_cmpkey i key param =
     (let (h, base) = param in if ffstr_ieq (ffrang_get (hr_key (hs_hidx h ! i)) base) key then 0 else -1)"

text \<open>The number of a header of the message with the name, if there is one; \<open>None\<close> is a search that does not return.\<close>

definition ffhttp_findhdr :: "ffhttp_headers \<Rightarrow> bytes \<Rightarrow> bytes \<Rightarrow> bytes option option" where
  "ffhttp_findhdr h base name =
     map_option (map_option (\<lambda>i. ffrang_get (hr_val (hs_hidx h ! i)) base))
       (ffhst_find ht_headr_cmpkey (hs_htheaders h) (ffcrc32_iget name) name (h, base))"

text \<open>\<open>Inl\<close> is \<open>FFHTTP_DONE\<close>; \<open>key\<close> is taken to be given (the code passes it to the search even if it is \<open>NULL\<close>).\<close>

definition ffhttp_gethdr :: "ffhstab \<Rightarrow> ffhttp_headers \<Rightarrow> bytes \<Rightarrow> nat \<Rightarrow> (ffhttp_e + nat \<times> bytes \<times> bytes) option" where
  "ffhttp_gethdr kt h base idx =
     (if length (hs_hidx h) \<le> idx then Some (Inl FFHTTP_DONE)
      else
        let hh = hs_hidx h ! idx; key = ffrang_get (hr_key hh) base in
        map_option (\<lambda>r. Inr (case r of None \<Rightarrow> 0 | Some k \<Rightarrow> k, key, ffrang_get (hr_val hh) base))
          (ffhst_find ht_knhdr_cmpkey kt (hr_hash hh) key ()))"

section \<open>One header of a message\<close>

definition ffhttp_parsehdr ::
    "(u64 \<Rightarrow> u64) \<Rightarrow> bool \<Rightarrow> ffhstab \<Rightarrow> ffhttp_headers \<Rightarrow> bytes \<Rightarrow> (ffhttp_e \<times> ffhttp_headers) option" where
  "ffhttp_parsehdr align alloc_ok kt h data =
     (case ffhttp_nexthdr kt (hs_hdr h) data of
        None \<Rightarrow> None
      | Some (e, x) \<Rightarrow>
        let h = h\<lparr>hs_hdr := x, hs_len := h_len x\<rparr> in
        if e = FFHTTP_DONE then
          (if hs_hidx h = [] then Some (FFHTTP_DONE, h)
           else map_option (\<lambda>(r, h). (if r \<noteq> 0 then FFHTTP_ESYS else FFHTTP_DONE, h)) (ht_headr_fill align alloc_ok h))
        else if e \<noteq> FFHTTP_OK then Some (e, h)
        else if hs_index_headers h \<and> \<not> alloc_ok then Some (FFHTTP_ESYS, h)
        else
          let h = (if hs_index_headers h
                then h\<lparr>hs_hidx := hs_hidx h @ [\<lparr>hr_hash = h_crc x, hr_key = h_key x, hr_val = h_val x\<rparr>]\<rparr> else h)
          in Some (hdr_effect h (h_ihdr x) (ffrang_get (h_val x) data)))"

text \<open>The loop of the callers over all headers.\<close>

partial_function (option) parse_all :: "('h \<Rightarrow> (ffhttp_e \<times> 'h) option) \<Rightarrow> 'h \<Rightarrow> (ffhttp_e \<times> 'h) option" where
  "parse_all parse h =
     (case parse h of None \<Rightarrow> None | Some (e, h) \<Rightarrow> if e = FFHTTP_OK then parse_all parse h else Some (e, h))"

section \<open>Headers are found by name\<close>

text \<open>A value that Content-Length may have: a decimal number of at most 20 digits.\<close>

definition is_number :: "bytes \<Rightarrow> bool" where
  "is_number v \<longleftrightarrow> (\<exists>ds. ds \<noteq> [] \<and> (\<forall>d \<in> set ds. d < 10) \<and> length ds \<le> 20 \<and> v = map dg48 ds)"

lemma number_read:
  assumes "ds \<noteq> []" and "\<forall>d \<in> set ds. d < 10" and "length ds \<le> 20"
  shows "ffs_toint (map dg48 ds) 8 = TI_ok (length ds) (of_nat (numval 10 ds))"
proof -
  have "numval 10 ds mod 2 ^ 64 < 2 ^ (8 * 8)" by simp
  then show ?thesis
    using toint_end_unsigned [of 8 "length ds" "length ds" "numval 10 ds"] assms dec.read_digits [OF assms(2), of "[]" 0]
      toint_dec [of 8 "map dg48 ds"] by simp
qed

lemma content_length_number:
  assumes "fst (hdr_content_length h v) = FFHTTP_EHDRVAL"
  shows "\<not> is_number v"
proof
  assume "is_number v"
  then obtain ds where "ds \<noteq> []" "\<forall>d \<in> set ds. d < 10" "length ds \<le> 20" "v = map dg48 ds" by (auto simp: is_number_def)
  with number_read [of ds] assms show False by (auto simp: hdr_content_length_def split: if_splits)
qed

lemma effect_frame:
  assumes "hdr_effect h k v = (e, h')"
  shows "hs_hidx h' = hs_hidx h \<and> hs_hdr h' = hs_hdr h \<and> hs_index_headers h' = hs_index_headers h \<and> hs_ver h' = hs_ver h"
    and "e \<noteq> FFHTTP_OK \<Longrightarrow> k = FFHTTP_CONTENT_LENGTH
      \<and> (e = FFHTTP_EDUPHDR \<and> hs_cont_len h \<noteq> -1 \<or> e = FFHTTP_EHDRVAL \<and> \<not> is_number v)"
    and "hs_cont_len h' \<noteq> -1 \<Longrightarrow> hs_cont_len h \<noteq> -1 \<or> k = FFHTTP_CONTENT_LENGTH"
proof -
  have conn: "hs_hidx (hdr_connection h v) = hs_hidx h \<and> hs_hdr (hdr_connection h v) = hs_hdr h
      \<and> hs_index_headers (hdr_connection h v) = hs_index_headers h \<and> hs_ver (hdr_connection h v) = hs_ver h
      \<and> hs_cont_len (hdr_connection h v) = hs_cont_len h" for h v
  proof (induction h v rule: hdr_connection.induct)
    case (1 h v)
    then show ?case by (subst (1 2 3 4 5) hdr_connection.simps) (auto split: prod.splits)
  qed
  have cl: "fst (hdr_content_length h v) \<in> {FFHTTP_OK, FFHTTP_EDUPHDR, FFHTTP_EHDRVAL}"
    "fst (hdr_content_length h v) = FFHTTP_EDUPHDR \<Longrightarrow> hs_cont_len h \<noteq> -1"
    by (auto simp: hdr_content_length_def Let_def split: toint_res.splits if_splits)
  show "hs_hidx h' = hs_hidx h \<and> hs_hdr h' = hs_hdr h \<and> hs_index_headers h' = hs_index_headers h \<and> hs_ver h' = hs_ver h"
    using assms conn by (auto simp: hdr_effect_def hdr_content_length_def split: if_splits toint_res.splits)
  show "e \<noteq> FFHTTP_OK \<Longrightarrow> k = FFHTTP_CONTENT_LENGTH
      \<and> (e = FFHTTP_EDUPHDR \<and> hs_cont_len h \<noteq> -1 \<or> e = FFHTTP_EHDRVAL \<and> \<not> is_number v)"
    using assms cl content_length_number [of h v] by (auto simp: hdr_effect_def split: if_splits)
  show "hs_cont_len h' \<noteq> -1 \<Longrightarrow> hs_cont_len h \<noteq> -1 \<or> k = FFHTTP_CONTENT_LENGTH"
    using assms conn by (auto simp: hdr_effect_def split: if_splits)
qed

lemma headr_fill_ok:
  assumes "hst_ok ht" and "unat (hlen ht) + length hs < unat (nslots ht)" and "unat (hlen ht) + length hs < 2 ^ 30"
  shows "\<exists>ht'. headr_fill_loop hs ht = Some (0, ht') \<and> hst_ok ht' \<and> nslots ht' = nslots ht
    \<and> hst_abs ht' = hst_abs ht + mset (map (\<lambda>(i, hh). (hr_hash hh, i)) hs)"
  using assms
proof (induction hs arbitrary: ht)
  case (Cons x hs)
  obtain i hh where x: "x = (i, hh)" by fastforce
  have "hlen ht < nslots ht" using Cons.prems(2) by (simp add: word_less_nat_alt)
  from ffhst_ins_count [OF Cons.prems(1) this] Cons.prems(3) obtain ht' r where ht':
    "ffhst_ins ht (hr_hash hh) i = Some (ht', r)" "0 < r" "hst_ok ht'" "nslots ht' = nslots ht" "unat (hlen ht') = unat (hlen ht) + 1"
    "hst_abs ht' = add_mset (hr_hash hh, i) (hst_abs ht)" by force
  from Cons.IH [OF ht'(3)] Cons.prems ht' show ?case by (auto simp: x)
qed simp

text \<open>A header of the text: the name, spaces, the value, spaces, and whether the line ends with a carriage return.\<close>

type_synonym line = "bytes \<times> nat \<times> bytes \<times> nat \<times> bool"

definition line_name :: "line \<Rightarrow> bytes" where "line_name l = fst l"
definition line_val :: "line \<Rightarrow> bytes" where "line_val l = fst (snd (snd l))"

definition line_text :: "line \<Rightarrow> bytes" where
  "line_text = (\<lambda>(name, sp, v, sp2, cr). hdr_line name sp v sp2 cr)"

definition line_ok :: "line \<Rightarrow> bool" where
  "line_ok l \<longleftrightarrow> hdr_name_ok (line_name l) \<and> hdr_val_ok (line_val l)"

definition idx_ok :: "bytes \<Rightarrow> headr list \<Rightarrow> line list \<Rightarrow> bool" where
  "idx_ok d = list_all2 (\<lambda>hh l. hr_hash hh = ffcrc32_iget (line_name l)
     \<and> ffrang_get (hr_key hh) d = line_name l \<and> ffrang_get (hr_val hh) d = line_val l)"

text \<open>A Content-Length, and the messages whose Content-Length is wrong or repeated, with the error that they give.\<close>

definition is_length :: "line \<Rightarrow> bool" where
  "is_length l \<longleftrightarrow> hdr_number (line_name l) = FFHTTP_CONTENT_LENGTH"

definition length_error :: "line list \<Rightarrow> ffhttp_e \<Rightarrow> bool" where
  "length_error ls e \<longleftrightarrow> e = FFHTTP_EDUPHDR \<and> 2 \<le> length (filter is_length ls)
     \<or> e = FFHTTP_EHDRVAL \<and> (\<exists>l \<in> set ls. is_length l \<and> \<not> is_number (line_val l))"

definition index_bag :: "headr list \<Rightarrow> (u32 \<times> nat) multiset" where
  "index_bag hs = mset (map (\<lambda>(i, hh). (hr_hash hh, i)) (enumerate 0 hs))"

text \<open>The table of a message holds its headers.\<close>

definition indexed :: "line list \<Rightarrow> bytes \<Rightarrow> ffhttp_headers \<Rightarrow> bool" where
  "indexed ls d h \<longleftrightarrow> idx_ok d (hs_hidx h) ls \<and> hst_ok (hs_htheaders h)
     \<and> hst_abs (hs_htheaders h) = index_bag (hs_hidx h) \<and> length ls < unat (nslots (hs_htheaders h))"

definition found_in :: "line list \<Rightarrow> bytes \<Rightarrow> ffhttp_headers \<Rightarrow> bytes \<Rightarrow> bool" where
  "found_in ls d h name \<longleftrightarrow>
     (case ffhttp_findhdr h d name of
        None \<Rightarrow> False
      | Some None \<Rightarrow> \<forall>l \<in> set ls. map fold_case (line_name l) \<noteq> map fold_case name
      | Some (Some v) \<Rightarrow> \<exists>l \<in> set ls. map fold_case (line_name l) = map fold_case name \<and> v = line_val l)"

lemma fill_indexed:
  assumes al: "rounds_up align" and ix: "idx_ok d (hs_hidx h) ls" and n: "length ls < 2 ^ 30"
  shows "\<exists>h'. ht_headr_fill align True h = Some (0, h') \<and> hs_hdr h' = hs_hdr h \<and> hs_ver h' = hs_ver h \<and> indexed ls d h'"
proof -
  let ?n = "word_of_nat (length (hs_hidx h)) :: u64"
  have len: "length (hs_hidx h) = length ls" using ix by (simp add: idx_ok_def list_all2_lengthD)
  have u: "unat ?n = length ls" using n by (simp add: len unat_of_nat)
  then obtain ht where ht: "ffhst_init align True ?n = Some ht" "hst_ok ht" "hst_abs ht = {#}" "length ls < unat (nslots ht)"
    using ffhst_init_ok [OF al, of ?n] n by auto
  have l0: "unat (hlen ht) = 0" using ht(2,3) by (simp add: hst_ok_def)
  obtain kt where "headr_fill_loop (enumerate 0 (hs_hidx h)) ht = Some (0, kt)" "hst_ok kt" "nslots kt = nslots ht"
    "hst_abs kt = index_bag (hs_hidx h)"
    using headr_fill_ok [OF ht(2), of "enumerate 0 (hs_hidx h)"] ht(3,4) l0 n len by (auto simp: index_bag_def)
  then show ?thesis using ht ix by (simp add: ht_headr_fill_def indexed_def)
qed

lemma indexed_found:
  assumes "indexed ls d h"
  shows "found_in ls d h name"
proof -
  let ?kt = "hs_htheaders h"
  have ix: "idx_ok d (hs_hidx h) ls" and kt: "hst_ok ?kt" "hst_abs ?kt = index_bag (hs_hidx h)" "length ls < unat (nslots ?kt)"
    using assms by (simp_all add: indexed_def)
  have len: "length (hs_hidx h) = length ls" using ix by (simp add: idx_ok_def list_all2_lengthD)
  have room: "size (hst_abs ?kt) < unat (nslots ?kt)" using kt(3) by (simp add: kt(2) index_bag_def len)
  have bag_iff: "(x, i) \<in># hst_abs ?kt \<longleftrightarrow> i < length ls \<and> x = hr_hash (hs_hidx h ! i)" for x i
    by (auto simp: kt(2) index_bag_def in_set_enumerate_eq len)
  have nth: "i < length ls \<Longrightarrow> hr_hash (hs_hidx h ! i) = ffcrc32_iget (line_name (ls ! i))
     \<and> ffrang_get (hr_key (hs_hidx h ! i)) d = line_name (ls ! i) \<and> ffrang_get (hr_val (hs_hidx h ! i)) d = line_val (ls ! i)" for i
    using ix by (simp add: idx_ok_def list_all2_conv_all_nth)
  have cmp: "i < length ls \<Longrightarrow> ht_headr_cmpkey i name (h, d) = 0 \<longleftrightarrow> map fold_case (line_name (ls ! i)) = map fold_case name" for i
    using nth [of i] by (simp add: ht_headr_cmpkey_def ieq_fold)
  obtain res where res: "ffhst_find ht_headr_cmpkey ?kt (ffcrc32_iget name) name (h, d) = Some res"
    "case res of Some i \<Rightarrow> (ffcrc32_iget name, i) \<in># hst_abs ?kt \<and> ht_headr_cmpkey i name (h, d) = 0
      | None \<Rightarrow> \<forall>i. (ffcrc32_iget name, i) \<in># hst_abs ?kt \<longrightarrow> ht_headr_cmpkey i name (h, d) \<noteq> 0"
    using hst.find_law [OF kt(1) room, of ht_headr_cmpkey "ffcrc32_iget name" name "(h, d)"] by auto
  have find: "ffhttp_findhdr h d name = Some (map_option (\<lambda>i. ffrang_get (hr_val (hs_hidx h ! i)) d) res)"
    by (simp add: ffhttp_findhdr_def res(1))
  show ?thesis
  proof (cases res)
    case (Some i)
    then have "i < length ls" "map fold_case (line_name (ls ! i)) = map fold_case name" using res(2) cmp [of i] by (auto simp: bag_iff)
    then show ?thesis using Some nth [of i] by (auto simp: found_in_def find intro: bexI [of _ "ls ! i"])
  next
    case None
    have "map fold_case (line_name (ls ! i)) \<noteq> map fold_case name" if i: "i < length ls" for i
    proof
      assume eq: "map fold_case (line_name (ls ! i)) = map fold_case name"
      then have "(ffcrc32_iget name, i) \<in># hst_abs ?kt" using i nth [of i] by (simp add: bag_iff iget_fold)
      with None res(2) cmp [OF i] eq show False by auto
    qed
    then show ?thesis using None by (simp add: found_in_def find) (metis in_set_conv_nth)
  qed
qed

lemma lines_length: "length ls \<le> length (concat (map line_text ls))"
proof (induction ls)
  case (Cons l ls)
  have "length (line_text l) = Suc (length (line_text l) - 1)" by (cases l) (simp add: line_text_def hdr_line_def)
  with Cons show ?case by simp
qed simp

lemma parse_lines:
  assumes al: "rounds_up align" and kt: "known_ok kt"
  shows "\<forall>l \<in> set ls. line_ok l \<Longrightarrow> d = pre @ concat (map line_text ls) @ eol cr @ post \<Longrightarrow>
    length (pre @ concat (map line_text ls) @ eol cr) < 65536 \<Longrightarrow>
    h_idx (hs_hdr h) = iKey \<Longrightarrow> unat (h_len (hs_hdr h)) = length pre \<Longrightarrow> hs_index_headers h \<Longrightarrow>
    idx_ok d (hs_hidx h) seen \<Longrightarrow> length (seen @ ls) < 2 ^ 30 \<Longrightarrow> seen @ ls \<noteq> [] \<Longrightarrow>
    hs_cont_len h = -1 \<or> (\<exists>l \<in> set seen. is_length l) \<Longrightarrow>
    \<exists>e h'. parse_all (\<lambda>h. ffhttp_parsehdr align True kt h d) h = Some (e, h') \<and> hs_ver h' = hs_ver h
      \<and> (e = FFHTTP_DONE \<and> unat (h_len (hs_hdr h')) = length (pre @ concat (map line_text ls) @ eol cr)
          \<and> indexed (seen @ ls) d h'
        \<or> length_error (seen @ ls) e)"
proof (induction ls arbitrary: pre h seen)
  case Nil
  from nexthdr_blank [of d pre cr post "hs_hdr h" kt] Nil.prems obtain x where x:
    "ffhttp_nexthdr kt (hs_hdr h) d = Some (FFHTTP_DONE, x)" "unat (h_len x) = length (pre @ eol cr)" by auto
  let ?h = "h\<lparr>hs_hdr := x, hs_len := h_len x\<rparr>"
  have "hs_hidx h \<noteq> []" using Nil.prems(7,9) by (auto simp: idx_ok_def)
  moreover obtain h' where h': "ht_headr_fill align True ?h = Some (0, h')" "hs_hdr h' = x" "hs_ver h' = hs_ver h" "indexed seen d h'"
    using fill_indexed [OF al, of d ?h seen] Nil.prems(7,8) by auto
  ultimately have "ffhttp_parsehdr align True kt h d = Some (FFHTTP_DONE, h')"
    by (simp add: ffhttp_parsehdr_def x(1))
  then show ?case using h' x(2) by (subst parse_all.simps) simp
next
  case (Cons l ls)
  obtain name sp v sp2 cr1 where l: "l = (name, sp, v, sp2, cr1)" by (cases l) auto
  have ltx: "line_text l = hdr_line name sp v sp2 cr1" by (simp add: l line_text_def)
  have ok: "hdr_name_ok name" "hdr_val_ok v" using Cons.prems(1) by (simp_all add: l line_ok_def line_name_def line_val_def)
  have "d = pre @ hdr_line name sp v sp2 cr1 @ (concat (map line_text ls) @ eol cr @ post)"
    using Cons.prems(2) by (simp add: ltx)
  from nexthdr_line [OF kt ok this, of "hs_hdr h"] Cons.prems(3-5) obtain x where x:
    "ffhttp_nexthdr kt (hs_hdr h) d = Some (FFHTTP_OK, x)" "h_idx x = iKey" "unat (h_len x) = length (pre @ line_text l)"
    "h_crc x = ffcrc32_iget name" "ffrang_get (h_key x) d = name" "ffrang_get (h_val x) d = v" "h_ihdr x = hdr_number name"
    by (auto simp: ltx)
  let ?h = "h\<lparr>hs_hdr := x, hs_len := h_len x, hs_hidx := hs_hidx h @ [\<lparr>hr_hash = h_crc x, hr_key = h_key x, hr_val = h_val x\<rparr>]\<rparr>"
  obtain e h1 where eff: "hdr_effect ?h (h_ihdr x) v = (e, h1)" by fastforce
  then have p: "ffhttp_parsehdr align True kt h d = Some (e, h1)"
    using x Cons.prems(6) by (simp add: ffhttp_parsehdr_def Let_def)
  note fr = effect_frame [OF eff]
  have num: "h_ihdr x = FFHTTP_CONTENT_LENGTH \<longleftrightarrow> is_length l" using x(7) by (simp add: is_length_def l line_name_def)
  show ?case
  proof (cases "e = FFHTTP_OK")
    case False
    have "length_error (seen @ l # ls) e"
    proof -
      have "hs_cont_len h \<noteq> -1 \<Longrightarrow> filter is_length seen \<noteq> []" using Cons.prems(10) by (auto simp: filter_empty_conv)
      then have "hs_cont_len h \<noteq> -1 \<Longrightarrow> 1 \<le> length (filter is_length seen)" by (simp add: Suc_le_eq)
      then show ?thesis using fr(2) [OF False] num by (auto simp: length_error_def l line_val_def)
    qed
    then show ?thesis using fr(1) p False by (subst parse_all.simps) auto
  next
    case True
    have ix: "idx_ok d (hs_hidx h1) (seen @ [l])"
      using fr(1) Cons.prems(7) x by (simp add: idx_ok_def list_all2_appendI l line_name_def line_val_def)
    have cl: "hs_cont_len h1 = -1 \<or> (\<exists>l \<in> set (seen @ [l]). is_length l)"
      using fr(3) num Cons.prems(10) by auto
    obtain e' h' where
      "parse_all (\<lambda>h. ffhttp_parsehdr align True kt h d) h1 = Some (e', h')" "hs_ver h' = hs_ver h1"
      "e' = FFHTTP_DONE \<and> unat (h_len (hs_hdr h')) = length (pre @ concat (map line_text (l # ls)) @ eol cr)
          \<and> indexed (seen @ l # ls) d h' \<or> length_error (seen @ l # ls) e'"
      using Cons.IH [OF _ _ _ _ _ _ ix _ _ cl, of "pre @ line_text l"] Cons.prems fr(1) x(2,3) by auto
    then show ?thesis using p True fr(1) by (subst parse_all.simps) auto
  qed
qed

text \<open>
  C24: Parsing the headers of a message, at least one and all well-formed, returns; memory is there. It ends with an error only for a Content-Length: as repeated if
  there are at least two, or as wrong if there is one that is not a decimal number of at most 20 digits. Otherwise it ends behind the
  headers, and from then on a search by name, in any spelling, returns the value of a header of the message with that name,
  and reports that there is none exactly if the message has none.
\<close>

theorem ffhttp_findhdr_correct:
  assumes "rounds_up align" and "nslots ht0 = 0" and "ffhttp_initheaders align True ht0 = Some (0, kt)"
    and "ls \<noteq> []" and "\<forall>l \<in> set ls. line_ok l" and "d = pre @ concat (map line_text ls) @ eol cr @ post"
    and "length (pre @ concat (map line_text ls) @ eol cr) < 65536"
    and "h = ffhttp_init\<lparr>hs_hdr := ffhttp_inithdr\<lparr>h_len := word_of_nat (length pre)\<rparr>\<rparr>"
  shows "\<exists>e h'. parse_all (\<lambda>h. ffhttp_parsehdr align True kt h d) h = Some (e, h')
    \<and> (if e = FFHTTP_DONE then unat (h_len (hs_hdr h')) = length (pre @ concat (map line_text ls) @ eol cr)
          \<and> (\<forall>name. found_in ls d h' name)
       else length_error ls e)"
proof -
  have kt: "known_ok kt" using initheaders_ok [OF assms(1,2)] assms(3) by auto
  have "length ls \<le> length (concat (map line_text ls))" by (rule lines_length)
  then have "length ls < 2 ^ 30" using assms(7) by simp
  moreover have "h_idx (hs_hdr h) = iKey" "unat (h_len (hs_hdr h)) = length pre" "hs_index_headers h" "idx_ok d (hs_hidx h) []"
    using assms(7) by (simp_all add: assms(8) ffhttp_init_def ffhttp_inithdr_def idx_ok_def unat16)
  moreover have cl: "hs_cont_len h = -1" by (simp add: assms(8) ffhttp_init_def)
  ultimately show ?thesis
    using parse_lines [OF assms(1) kt assms(5,6,7), of h "[]"] assms(4) indexed_found cl by (auto simp: length_error_def)
qed

lemma ffhttp_findhdr_correct_witness:
  "\<exists>kt e h'. parse_all (\<lambda>h. ffhttp_parsehdr (align_from 56 1) True kt h [72, 79, 83, 84, 58, 32, 97, 13, 10, 84, 69, 58, 98, 10, 13, 10])
      (ffhttp_init\<lparr>hs_hdr := ffhttp_inithdr\<lparr>h_len := word_of_nat (length [])\<rparr>\<rparr>) = Some (e, h')
    \<and> e = FFHTTP_DONE \<and> unat (h_len (hs_hdr h')) = 16
    \<and> (\<forall>name. found_in [([72, 79, 83, 84], 1, [97], 0, True), ([84, 69], 0, [98], 0, False)]
          [72, 79, 83, 84, 58, 32, 97, 13, 10, 84, 69, 58, 98, 10, 13, 10] h' name)"
proof -
  let ?ls = "[([72, 79, 83, 84], 1, [97], 0, True), ([84, 69], 0, [98], 0, False)] :: line list"
  let ?d = "[72, 79, 83, 84, 58, 32, 97, 13, 10, 84, 69, 58, 98, 10, 13, 10] :: bytes"
  obtain kt where kt: "ffhttp_initheaders (align_from 56 1) True (ex_table 0) = Some (0, kt)"
    using initheaders_ok [OF rounds_up_example, of "ex_table 0"] by auto
  have ok: "\<forall>l \<in> set ?ls. line_ok l"
  proof -
    have "hdr_name_ok [72, 79, 83, 84]" "hdr_val_ok [97]" "hdr_name_ok [84, 69]" "hdr_val_ok [98]" by code_simp+
    then show ?thesis by (simp add: line_ok_def line_name_def line_val_def)
  qed
  have d: "?d = [] @ concat (map line_text ?ls) @ eol True @ []"
    by (simp add: line_text_def hdr_line_def eol_def)
  have l: "length ([] @ concat (map line_text ?ls) @ eol True) = 16"
    by (simp add: line_text_def hdr_line_def eol_def)
  have n: "hdr_number [72, 79, 83, 84] \<noteq> 8" "hdr_number [84, 69] \<noteq> 8"
  proof -
    have "\<not> ffstr_ieq (ffhttp_shdr ! 8) [72, 79, 83, 84]" "\<not> ffstr_ieq (ffhttp_shdr ! 8) [84, 69]" by code_simp+
    then show "hdr_number [72, 79, 83, 84] \<noteq> 8" "hdr_number [84, 69] \<noteq> 8"
      using known_header_Some by (fastforce simp: hdr_number_def split: option.splits)+
  qed
  from ffhttp_findhdr_correct [OF rounds_up_example _ kt _ ok d, unfolded l] n show ?thesis
    by (auto simp: line_name_def FFHTTP_CONTENT_LENGTH_def is_length_def length_error_def split: if_splits)
qed

text \<open>An empty Content-Length is not an error: the message is taken to have a body, of no known length.\<close>

lemma content_length_empty:
  "hdr_content_length ffhttp_init [] = (FFHTTP_OK, ffhttp_init\<lparr>hs_has_body := True\<rparr>)"
proof -
  have "ffs_toint [] 8 = TI_fail" by code_simp
  then show ?thesis by (simp add: hdr_content_length_def ffhttp_init_def)
qed

end
