(* ===== verification/FF_HttpLine.thy ===== *)
theory FF_HttpLine
  imports FF_Http FF_Url
begin

text \<open>
  HTTP responses: the first line, what a response adds to the end of the headers, and a whole response (\<open>net/http.h\<close>,
  \<open>net/ffhttp.c\<close>). The state of the first line, which the code keeps in \<open>h.hdr.idx\<close> until it is read, is a field of its own here; in
  both the value 0 is the begin.
\<close>

unbundle bit_operations_syntax

section \<open>The version\<close>

datatype line_state = iRespStart | iCode | iStatusStr | iLineLf
  | iH | iHT | iHTT | iHTTP | iHttpMajVer | iHttpMinVerFirst | iHttpMinVer | iAnyProto | iSpaceAfterHttpVer

definition ver_fail :: "line_state \<Rightarrow> u16 \<Rightarrow> ffhttp_e \<times> line_state \<times> u16" where
  "ver_fail idx ver = (FFHTTP_EVERSION, idx, ver)"

definition parseVer :: "u8 \<Rightarrow> line_state \<Rightarrow> u16 \<Rightarrow> ffhttp_e \<times> line_state \<times> u16" where
  "parseVer ch idx ver =
     (let digit = ffchar_isdigit (sint ch); d = unat ch - 48 in
      case idx of
        iH \<Rightarrow> if ch \<noteq> 84 then ver_fail idx ver else (FFHTTP_MORE, iHT, ver)
      | iHT \<Rightarrow> if ch \<noteq> 84 then ver_fail idx ver else (FFHTTP_MORE, iHTT, ver)
      | iHTT \<Rightarrow> if ch \<noteq> 80 then ver_fail idx ver else (FFHTTP_MORE, iHTTP, ver)
      | iHTTP \<Rightarrow> if ch \<noteq> 47 then ver_fail idx ver else (FFHTTP_MORE, iHttpMajVer, ver)
      | iHttpMajVer \<Rightarrow>
          if \<not> digit then (if ch = 46 then (FFHTTP_MORE, iHttpMinVerFirst, ver) else ver_fail idx ver)
          else
            let mv = unat (drop_bit 8 ver) * 10 + d in
            if 0xff < mv then ver_fail idx ver
            else (FFHTTP_MORE, idx, (ver AND 0x00ff) OR push_bit 8 (word_of_nat mv))
      | iHttpMinVerFirst \<Rightarrow>
          if \<not> digit then ver_fail idx ver
          else
            let mv = unat (ver AND 0xff) * 10 + d in
            if 0xff < mv then ver_fail idx ver else (FFHTTP_MORE, iHttpMinVer, (ver AND 0xff00) OR word_of_nat mv)
      | iHttpMinVer \<Rightarrow>
          if \<not> digit then (FFHTTP_OK, idx, ver)
          else
            let mv = unat (ver AND 0xff) * 10 + d in
            if 0xff < mv then ver_fail idx ver else (FFHTTP_MORE, idx, (ver AND 0xff00) OR word_of_nat mv)
      | _ \<Rightarrow> (FFHTTP_EVERSION, idx, ver))"

section \<open>The first line of a response\<close>

record ffhttp_response =
  rs_h :: ffhttp_headers
  rs_idx :: line_state
  rs_ver_len :: u8
  rs_code :: u16
  rs_status_text_off :: u16
  rs_status :: ffrange

definition ffhttp_resp_init :: ffhttp_response where
  "ffhttp_resp_init = \<lparr>rs_h = ffhttp_init, rs_idx = iRespStart, rs_ver_len = 0, rs_code = 0, rs_status_text_off = 0,
     rs_status = \<lparr>r_len = 0, r_off = 0\<rparr>\<rparr>"

text \<open>
  What a state does with a char: the next char, the same char again, a failure at a place, or the end of the line.
\<close>

datatype line_act = LNext line_state ffhttp_response | LAgain line_state ffhttp_response
  | LFail ffhttp_e ffhttp_response nat | LDone ffhttp_response

definition ver_known :: "ffhttp_headers \<Rightarrow> ffhttp_headers" where
  "ver_known h = (if 0x0101 \<le> hs_ver h then h\<lparr>hs_http11 := True\<rparr> else h\<lparr>hs_conn_close := True\<rparr>)"

definition resp_code :: "nat \<Rightarrow> u8 \<Rightarrow> line_state \<Rightarrow> ffhttp_response \<Rightarrow> line_act" where
  "resp_code i ch idx r =
     (if ffchar_isdigit (sint ch) then
        (let t = unat (rs_code r) * 10 + (unat ch - 48) in
         if 999 < t then LFail FFHTTP_ESTATUS r i else LNext idx (r\<lparr>rs_code := word_of_nat t\<rparr>))
      else if ch = 32 then
        (if rs_code r < 100 then LFail FFHTTP_ESTATUS r i
         else LNext iStatusStr (r\<lparr>rs_status_text_off := word_of_nat (i + 1)\<rparr>))
      else LFail FFHTTP_ESTATUS r i)"

definition resp_after_ver :: "nat \<Rightarrow> u8 \<Rightarrow> line_state \<Rightarrow> ffhttp_response \<Rightarrow> line_act" where
  "resp_after_ver i ch idx r =
     (if ch = 32 then LNext idx r
      else resp_code i ch iCode (r\<lparr>rs_status := (rs_status r)\<lparr>r_off := word_of_nat i\<rparr>\<rparr>))"

definition set_statuslen :: "nat \<Rightarrow> nat \<Rightarrow> ffhttp_response \<Rightarrow> ffhttp_response" where
  "set_statuslen i crlf r =
     r\<lparr>rs_status := (rs_status r)\<lparr>r_len := word_of_nat i - r_off (rs_status r)\<rparr>, rs_h := (rs_h r)\<lparr>hs_firstcrlf := crlf\<rparr>\<rparr>"

definition close_conn :: "ffhttp_response \<Rightarrow> ffhttp_response" where
  "close_conn r = r\<lparr>rs_h := (rs_h r)\<lparr>hs_conn_close := True\<rparr>\<rparr>"

definition resp_step :: "bool \<Rightarrow> nat \<Rightarrow> u8 \<Rightarrow> line_state \<Rightarrow> ffhttp_response \<Rightarrow> line_act" where
  "resp_step ign_proto i ch idx r =
     (case idx of
        iRespStart \<Rightarrow>
          if ch \<noteq> 72 then
            (if ign_proto then LNext iAnyProto (close_conn r) else LFail FFHTTP_EVERSION r i)
          else LNext iH r
      | iAnyProto \<Rightarrow> if ch \<noteq> 32 then LNext idx r else resp_after_ver i ch iSpaceAfterHttpVer r
      | iSpaceAfterHttpVer \<Rightarrow> resp_after_ver i ch idx r
      | iCode \<Rightarrow> resp_code i ch idx r
      | iStatusStr \<Rightarrow>
          if ch = 13 then LNext iLineLf (set_statuslen i 2 r)
          else if ch = 10 then LDone (set_statuslen i 1 r)
          else LNext idx r
      | iLineLf \<Rightarrow> if ch \<noteq> 10 then LFail FFHTTP_EEOL r i else LDone r
      | _ \<Rightarrow>
          let (rc, idx, ver) = parseVer ch idx (hs_ver (rs_h r)); r = r\<lparr>rs_h := (rs_h r)\<lparr>hs_ver := ver\<rparr>\<rparr> in
          if rc = FFHTTP_OK then LAgain iSpaceAfterHttpVer (r\<lparr>rs_ver_len := word_of_nat i, rs_h := ver_known (rs_h r)\<rparr>)
          else if rc \<noteq> FFHTTP_MORE then
            (if ign_proto then LAgain iAnyProto (close_conn r) else LFail rc r i)
          else LNext idx r)"

text \<open>
  The check behind the switch: a line feed that has not ended the line is an error, found at the place before it when
  the char was to be looked at again.
\<close>

definition resp_check :: "nat \<Rightarrow> u8 \<Rightarrow> line_act \<Rightarrow> line_act" where
  "resp_check i ch act =
     (case act of
        LNext idx r \<Rightarrow> if ch = 10 then LFail FFHTTP_ESTATUS r i else act
      | LAgain idx r \<Rightarrow> if ch = 10 then LFail FFHTTP_ESTATUS r (i - 1) else act
      | _ \<Rightarrow> act)"

definition state_rank :: "line_state \<Rightarrow> nat" where
  "state_rank idx = (case idx of iSpaceAfterHttpVer \<Rightarrow> 0 | iAnyProto \<Rightarrow> 0 | _ \<Rightarrow> 1)"

lemma resp_again:
  assumes "resp_check i ch (resp_step ign i ch idx r) = LAgain idx' r'"
  shows "state_rank idx' < state_rank idx"
proof -
  have no: "resp_code i ch st r \<noteq> LAgain idx' r'" "resp_after_ver i ch st r \<noteq> LAgain idx' r'" for i ch st r
    by (simp_all add: resp_after_ver_def resp_code_def Let_def)
  have "resp_step ign i ch idx r = LAgain idx' r'"
    using assms by (auto simp: resp_check_def split: line_act.splits if_splits)
  then show ?thesis
    by (cases idx) (simp_all add: resp_step_def no state_rank_def Let_def split: prod.splits if_splits)
qed

function resp_loop :: "bool \<Rightarrow> bytes \<Rightarrow> nat \<Rightarrow> line_state \<Rightarrow> ffhttp_response \<Rightarrow> ffhttp_e \<times> line_state \<times> ffhttp_response \<times> nat" where
  "resp_loop ign d i idx r =
     (if length d \<le> i then (FFHTTP_MORE, idx, r, i)
      else case resp_check i (d ! i) (resp_step ign i (d ! i) idx r) of
          LNext idx r \<Rightarrow> resp_loop ign d (i + 1) idx r
        | LAgain idx r \<Rightarrow> resp_loop ign d i idx r
        | LFail e r j \<Rightarrow> (e, idx, r, j)
        | LDone r \<Rightarrow> (FFHTTP_OK, idx, r, i))"
  by pat_completeness auto
termination
  by (relation "measures [\<lambda>(ign, d, i, idx, r). length d - i, \<lambda>(ign, d, i, idx, r). state_rank idx]")
    (auto dest: resp_again)

declare resp_loop.simps [simp del]

definition line_len :: "u16 \<Rightarrow> ffhttp_headers \<Rightarrow> ffhttp_headers" where
  "line_len n h = h\<lparr>hs_len := n, hs_hdr := (hs_hdr h)\<lparr>h_len := n\<rparr>\<rparr>"

definition first_len :: "bytes \<Rightarrow> nat \<Rightarrow> u16" where
  "first_len d i = word_of_nat (i + ffs_findof (drop i d) [13, 10])"

definition ffhttp_resp_line :: "ffhttp_response \<Rightarrow> bytes \<Rightarrow> bool \<Rightarrow> ffhttp_e \<times> ffhttp_response" where
  "ffhttp_resp_line r d ign_proto =
     (let d = take 0xffff d;
          (e, idx, r', i) = resp_loop ign_proto d (unat (h_len (hs_hdr (rs_h r)))) (rs_idx r) r in
      if e = FFHTTP_OK then
        (e, r'\<lparr>rs_idx := iRespStart, rs_h := (line_len (word_of_nat (i + 1)) (rs_h r'))\<lparr>hs_firstline_len := word_of_nat (i + 1)\<rparr>\<rparr>)
      else if e = FFHTTP_MORE \<and> i \<noteq> 0xffff then (e, r'\<lparr>rs_idx := idx, rs_h := line_len (word_of_nat i) (rs_h r')\<rparr>)
      else (if e = FFHTTP_MORE then FFHTTP_ETOOLARGE else e,
        r'\<lparr>rs_h := (line_len (word_of_nat i) (rs_h r'))\<lparr>hs_firstline_len := first_len d i\<rparr>\<rparr>))"

definition ffhttp_resp_nobody :: "u16 \<Rightarrow> bool" where
  "ffhttp_resp_nobody code \<longleftrightarrow> code = 204 \<or> code = 304 \<or> code < 200"

definition ffhttp_respparsehdr ::
    "(u64 \<Rightarrow> u64) \<Rightarrow> bool \<Rightarrow> ffhstab \<Rightarrow> ffhttp_response \<Rightarrow> bytes \<Rightarrow> (ffhttp_e \<times> ffhttp_response) option" where
  "ffhttp_respparsehdr align alloc_ok kt r data =
     map_option (\<lambda>(rc, h).
         let h = (if rc \<noteq> FFHTTP_DONE then h
             else if ffhttp_resp_nobody (rs_code r) then h\<lparr>hs_has_body := False\<rparr>
             else if \<not> hs_has_body h \<and> hs_cont_len h = -1 then h\<lparr>hs_has_body := True, hs_body_conn_close := True\<rparr>
             else h)
         in (rc, r\<lparr>rs_h := h\<rparr>))
       (ffhttp_parsehdr align alloc_ok kt (rs_h r) data)"

definition ffhttp_resp ::
    "(u64 \<Rightarrow> u64) \<Rightarrow> bool \<Rightarrow> ffhstab \<Rightarrow> ffhttp_response \<Rightarrow> bytes \<Rightarrow> bool \<Rightarrow> (ffhttp_e \<times> ffhttp_response) option" where
  "ffhttp_resp align alloc_ok kt r data ign_proto =
     (let (e, r) = (if hs_firstcrlf (rs_h r) = 0 then ffhttp_resp_line r data ign_proto else (FFHTTP_OK, r)) in
      if e \<noteq> FFHTTP_OK then Some (e, r)
      else parse_all (\<lambda>r. ffhttp_respparsehdr align alloc_ok kt r data) r)"


section \<open>Versions are read\<close>

definition mkver :: "nat \<Rightarrow> nat \<Rightarrow> u16" where
  "mkver a b = word_of_nat (a * 256 + b)"

lemma byte_bits: "b < 256 \<Longrightarrow> 8 \<le> n \<Longrightarrow> \<not> bit (word_of_nat b :: u16) n"
proof -
  assume "b < 256" "8 \<le> n"
  moreover have "(256 :: nat) \<le> 2 ^ n" using power_increasing [OF \<open>8 \<le> n\<close>, of "2 :: nat"] by simp
  ultimately have "\<not> bit b n" by (simp add: bit_iff_odd)
  then show ?thesis by (simp add: bit_simps)
qed

lemma mkver_parts:
  assumes "a < 256" and "b < 256"
  shows "unat (drop_bit 8 (mkver a b)) = a" and "unat (mkver a b AND 0xff) = b"
    and "(mkver a b AND 0x00ff) OR push_bit 8 (word_of_nat c) = (mkver c b :: u16)"
    and "c < 256 \<Longrightarrow> (mkver a b AND 0xff00) OR word_of_nat c = mkver a c"
proof -
  have u: "unat (mkver a b) = a * 256 + b" unfolding mkver_def using assms by (intro unat16) simp
  show "unat (drop_bit 8 (mkver a b)) = a" using assms by (subst unat_drop_bit_eq) (simp add: u drop_bit_eq_div [where 'a = nat])
  have m: "mkver a b AND 0xff = word_of_nat b"
  proof -
    have "mkver a b AND 0xff = mkver a b AND mask 8" by (simp add: mask_eq_exp_minus_1)
    also have "\<dots> = take_bit 8 (mkver a b)" by (simp add: take_bit_eq_mask)
    also have "\<dots> = word_of_nat b"
      using assms by (subst word_unat_eq_iff, subst unsigned_take_bit_eq) (simp add: u take_bit_eq_mod [where 'a = nat] unat_of_nat)
    finally show ?thesis .
  qed
  then show "unat (mkver a b AND 0xff) = b" using assms by (simp add: unat_of_nat)
  note b8 = byte_bits [OF assms(2)]
  show "(mkver a b AND 0x00ff) OR push_bit 8 (word_of_nat c) = (mkver c b :: u16)"
  proof -
    have "word_of_nat b OR push_bit 8 (word_of_nat c) = (word_of_nat b + push_bit 8 (word_of_nat c) :: u16)"
      using b8 by (intro disjunctive_add [symmetric]) (auto simp: bit_simps)
    then show ?thesis unfolding m by (simp add: mkver_def push_bit_eq_mult)
  qed
  show "c < 256 \<Longrightarrow> (mkver a b AND 0xff00) OR word_of_nat c = mkver a c"
  proof -
    assume c: "c < 256"
    have "word_of_nat b OR push_bit 8 (word_of_nat a) = (word_of_nat b + push_bit 8 (word_of_nat a) :: u16)"
      using b8 by (intro disjunctive_add [symmetric]) (auto simp: bit_simps)
    then have "mkver a b = word_of_nat b OR push_bit 8 (word_of_nat a)"
      by (simp add: mkver_def push_bit_eq_mult)
    moreover have k: "(0xff00 :: u16) = push_bit 8 (mask 8)" by (simp add: push_bit_eq_mult mask_eq_exp_minus_1)
    ultimately have "mkver a b AND 0xff00 = push_bit 8 (word_of_nat a)"
      using b8 unfolding k by (intro bit_word_eqI) (auto simp: bit_simps)
    moreover have "push_bit 8 (word_of_nat a) OR word_of_nat c = (push_bit 8 (word_of_nat a) + word_of_nat c :: u16)"
      using byte_bits [OF c] by (intro disjunctive_add [symmetric]) (auto simp: bit_simps)
    ultimately show ?thesis by (simp add: mkver_def push_bit_eq_mult)
  qed
qed

text \<open>The states and versions that the version parser goes through while it asks for more.\<close>

fun ver_run :: "bytes \<Rightarrow> line_state \<times> u16 \<Rightarrow> (line_state \<times> u16) option" where
  "ver_run [] st = Some st"
| "ver_run (c # cs) (idx, ver) =
     (case parseVer c idx ver of (e, st) \<Rightarrow> if e = FFHTTP_MORE then ver_run cs st else None)"

lemma ver_run_append: "ver_run (xs @ ys) st = Option.bind (ver_run xs st) (ver_run ys)"
  by (induction xs st rule: ver_run.induct) (auto split: prod.splits)

definition digits :: "bytes \<Rightarrow> bool" where
  "digits ds \<longleftrightarrow> ds \<noteq> [] \<and> (\<forall>c \<in> set ds. ffchar_isdigit (sint c))"

lemma digit_value: "ffchar_isdigit (sint c) \<Longrightarrow> p * 10 + (unat c - 48) = dec_step p c"
proof -
  assume dg: "ffchar_isdigit (sint c)"
  define k where "k = nat (sint c)"
  have k: "sint c = int k" "k < 58" using dg by (auto simp: k_def ffchar_isdigit_def)
  have "c = word_of_int (sint c)" by simp
  then have "c = word_of_nat k" using k(1) by simp
  then have "unat c = k" using k(2) by (simp add: unat_of_nat)
  then show ?thesis by (simp add: dec_step_def k(1))
qed

lemma major_run:
  "\<forall>c \<in> set ds. ffchar_isdigit (sint c) \<Longrightarrow> foldl dec_step a ds < 256 \<Longrightarrow> b < 256 \<Longrightarrow>
    ver_run ds (iHttpMajVer, mkver a b) = Some (iHttpMajVer, mkver (foldl dec_step a ds) b)"
proof (induction ds arbitrary: a)
  case (Cons c ds)
  then have "dec_step a c < 256" "a < 256" using dec_step_grows [of "dec_step a c" ds] dec_step_grows [of a "c # ds"] by auto
  with Cons show ?case by (simp add: parseVer_def Let_def mkver_parts digit_value)
qed simp

lemma minor_run:
  "\<forall>c \<in> set ds. ffchar_isdigit (sint c) \<Longrightarrow> foldl dec_step b ds < 256 \<Longrightarrow> a < 256 \<Longrightarrow>
    ver_run ds (iHttpMinVer, mkver a b) = Some (iHttpMinVer, mkver a (foldl dec_step b ds))"
proof (induction ds arbitrary: b)
  case (Cons c ds)
  then have "dec_step b c < 256" "b < 256" using dec_step_grows [of "dec_step b c" ds] dec_step_grows [of b "c # ds"] by auto
  with Cons show ?case by (simp add: parseVer_def Let_def mkver_parts digit_value)
qed simp

definition http_ver :: "bytes \<Rightarrow> bytes \<Rightarrow> bytes" where
  "http_ver ma mi = [72, 84, 84, 80, 47] @ ma @ [46] @ mi"

definition ver_ok :: "bytes \<Rightarrow> bytes \<Rightarrow> bool" where
  "ver_ok ma mi \<longleftrightarrow> digits ma \<and> digits mi \<and> foldl dec_step 0 ma < 256 \<and> foldl dec_step 0 mi < 256"

lemma version_run:
  assumes "ver_ok ma mi"
  shows "ver_run (tl (http_ver ma mi)) (iH, 0) =
    Some (iHttpMinVer, mkver (foldl dec_step 0 ma) (foldl dec_step 0 mi))"
proof -
  obtain m ms where mi: "mi = m # ms" using assms by (cases mi) (auto simp: ver_ok_def digits_def)
  let ?a = "foldl dec_step 0 ma"
  have 0: "ver_run [84, 84, 80, 47] (iH, 0) = Some (iHttpMajVer, mkver 0 0)"
    by (simp add: parseVer_def Let_def mkver_def)
  have 1: "ver_run ma (iHttpMajVer, mkver 0 0) = Some (iHttpMajVer, mkver ?a 0)"
    using assms by (intro major_run) (auto simp: ver_ok_def digits_def)
  have "\<not> ffchar_isdigit 46" by code_simp
  then have dot: "parseVer 46 iHttpMajVer v = (FFHTTP_MORE, iHttpMinVerFirst, v)" for v by (simp add: parseVer_def)
  have "dec_step 0 m < 256" using assms dec_step_grows [of "dec_step 0 m" ms] by (auto simp: ver_ok_def mi)
  then have "parseVer m iHttpMinVerFirst (mkver ?a 0) = (FFHTTP_MORE, iHttpMinVer, mkver ?a (dec_step 0 m))"
    using assms digit_value [of m 0] mkver_parts [of ?a 0]
    by (auto simp: parseVer_def Let_def ver_ok_def digits_def mi)
  then have 2: "ver_run mi (iHttpMinVerFirst, mkver ?a 0) = Some (iHttpMinVer, mkver ?a (foldl dec_step 0 mi))"
    using assms minor_run [of ms "dec_step 0 m" ?a] by (simp add: mi ver_ok_def digits_def)
  have "tl (http_ver ma mi) = [84, 84, 80, 47] @ ma @ [46] @ mi" by (simp add: http_ver_def)
  then show ?thesis by (simp only: ver_run_append 0 1 Option.bind.simps) (simp add: dot 2)
qed


section \<open>The line of a response is read\<close>

lemma resp_next:
  assumes "resp_step ign i (d ! i) idx r = LNext idx' r'" and "i < length d" and "d ! i \<noteq> 10"
  shows "resp_loop ign d i idx r = resp_loop ign d (i + 1) idx' r'"
  using assms by (subst resp_loop.simps) (simp add: resp_check_def)

lemma version_states: "parseVer c idx ver = (FFHTTP_MORE, st) \<Longrightarrow>
   idx \<in> {iH, iHT, iHTT, iHTTP, iHttpMajVer, iHttpMinVerFirst, iHttpMinVer} \<and> c \<noteq> 10"
  by (cases idx) (auto simp: parseVer_def ver_fail_def Let_def ffchar_isdigit_def split: if_splits)

lemma resp_version_run:
  "ver_run vs (idx, hs_ver (rs_h r)) = Some (idx', ver') \<Longrightarrow>
    resp_loop ign (pre @ vs @ post) (length pre) idx r =
    resp_loop ign (pre @ vs @ post) (length (pre @ vs)) idx' (r\<lparr>rs_h := (rs_h r)\<lparr>hs_ver := ver'\<rparr>\<rparr>)"
proof (induction vs arbitrary: pre idx r)
  case (Cons c vs)
  then obtain i1 v1 where p: "parseVer c idx (hs_ver (rs_h r)) = (FFHTTP_MORE, i1, v1)"
    "ver_run vs (i1, v1) = Some (idx', ver')" by (auto split: prod.splits if_splits)
  let ?r = "r\<lparr>rs_h := (rs_h r)\<lparr>hs_ver := v1\<rparr>\<rparr>"
  note st = version_states [OF p(1)]
  then have "resp_step ign (length pre) c idx r = LNext i1 ?r"
    using p(1) by (auto simp: resp_step_def)
  then have "resp_loop ign (pre @ (c # vs) @ post) (length pre) idx r =
      resp_loop ign (pre @ (c # vs) @ post) (length pre + 1) i1 ?r"
    using st by (intro resp_next) (auto simp: nth_append)
  then show ?case using Cons.IH [of i1 ?r "pre @ [c]"] p(2) by simp
next
  case Nil
  then have "idx' = idx" "ver' = hs_ver (rs_h r)" by simp_all
  then show ?case by simp
qed

lemma resp_code_run:
  "\<forall>c \<in> set ds. ffchar_isdigit (sint c) \<Longrightarrow> foldl dec_step (unat (rs_code r)) ds \<le> 999 \<Longrightarrow>
    resp_loop ign (pre @ ds @ post) (length pre) iCode r =
    resp_loop ign (pre @ ds @ post) (length (pre @ ds)) iCode (r\<lparr>rs_code := word_of_nat (foldl dec_step (unat (rs_code r)) ds)\<rparr>)"
proof (induction ds arbitrary: pre r)
  case (Cons c ds)
  let ?n = "dec_step (unat (rs_code r)) c"
  let ?r = "r\<lparr>rs_code := word_of_nat ?n\<rparr>"
  have n: "?n \<le> 999" using Cons.prems(2) dec_step_grows [of ?n ds] by simp
  have c: "c \<noteq> 10" using Cons.prems(1) by (auto simp: ffchar_isdigit_def)
  have "resp_step ign (length pre) c iCode r = LNext iCode ?r"
    using Cons.prems(1) n by (simp add: resp_step_def resp_code_def digit_value Let_def)
  then have "resp_loop ign (pre @ (c # ds) @ post) (length pre) iCode r =
      resp_loop ign (pre @ (c # ds) @ post) (length pre + 1) iCode ?r"
    using c by (intro resp_next) (auto simp: nth_append)
  then show ?case using Cons.IH [of ?r "pre @ [c]"] Cons.prems n by (simp add: unat16)
qed simp

lemma resp_text_run:
  "\<forall>c \<in> set ts. c \<noteq> 10 \<and> c \<noteq> 13 \<Longrightarrow>
    resp_loop ign (pre @ ts @ post) (length pre) iStatusStr r =
    resp_loop ign (pre @ ts @ post) (length (pre @ ts)) iStatusStr r"
proof (induction ts arbitrary: pre)
  case (Cons c ts)
  then have "resp_loop ign (pre @ (c # ts) @ post) (length pre) iStatusStr r =
      resp_loop ign (pre @ (c # ts) @ post) (length pre + 1) iStatusStr r"
    by (intro resp_next ) (auto simp: resp_step_def)
  then show ?case using Cons.IH [of "pre @ [c]"] Cons.prems by simp
qed simp


text \<open>A status line, and the fields that describe it.\<close>

definition status_line :: "bytes \<Rightarrow> bytes \<Rightarrow> nat \<Rightarrow> bytes \<Rightarrow> bytes \<Rightarrow> bytes" where
  "status_line ma mi sp code msg = http_ver ma mi @ replicate (Suc sp) 32 @ code @ [32] @ msg"

definition status_ok :: "bytes \<Rightarrow> bytes \<Rightarrow> bytes \<Rightarrow> bytes \<Rightarrow> bool" where
  "status_ok ma mi code msg \<longleftrightarrow> ver_ok ma mi \<and> digits code \<and> foldl dec_step 0 code \<in> {100..999}
     \<and> (\<forall>c \<in> set msg. c \<noteq> 10 \<and> c \<noteq> 13)"

lemma resp_spaces_run:
  "resp_loop ign (pre @ replicate n 32 @ post) (length pre) iSpaceAfterHttpVer r =
   resp_loop ign (pre @ replicate n 32 @ post) (length pre + n) iSpaceAfterHttpVer r"
proof (induction n arbitrary: pre)
  case (Suc n)
  have "resp_loop ign (pre @ replicate (Suc n) 32 @ post) (length pre) iSpaceAfterHttpVer r =
      resp_loop ign (pre @ replicate (Suc n) 32 @ post) (length pre + 1) iSpaceAfterHttpVer r"
    by (intro resp_next ) (auto simp: resp_step_def resp_after_ver_def nth_append)
  then show ?case using Suc.IH [of "pre @ [32]"] by simp
qed simp

lemma resp_code_start:
  assumes "i < length d" and "ffchar_isdigit (sint (d ! i))" and "dec_step (unat (rs_code r)) (d ! i) \<le> 999"
  shows "resp_loop ign d i iSpaceAfterHttpVer r = resp_loop ign d i iCode (r\<lparr>rs_status := (rs_status r)\<lparr>r_off := word_of_nat i\<rparr>\<rparr>)"
proof -
  have "d ! i \<noteq> 32" "d ! i \<noteq> 10" using assms(2) by (auto simp: ffchar_isdigit_def)
  then show ?thesis using assms
    by (subst (1 2) resp_loop.simps)
      (simp add: resp_step_def resp_after_ver_def resp_code_def resp_check_def digit_value Let_def split: line_act.split)
qed

lemma resp_eol:
  "\<exists>idx. resp_loop ign (pre @ eol cr @ post) (length pre) iStatusStr r =
    (FFHTTP_OK, idx, set_statuslen (length pre) (if cr then 2 else 1) r, length (pre @ eol cr) - 1)"
proof (cases cr)
  case True
  have "resp_loop ign (pre @ eol cr @ post) (length pre) iStatusStr r =
      resp_loop ign (pre @ eol cr @ post) (length pre + 1) iLineLf (set_statuslen (length pre) 2 r)"
    by (intro resp_next) (simp_all add: resp_step_def eol_def True)
  then show ?thesis using True
    by (simp add: eol_def, subst resp_loop.simps) (simp add: resp_step_def resp_check_def nth_append)
next
  case False
  then show ?thesis
    by (simp add: eol_def, subst resp_loop.simps) (simp add: resp_step_def resp_check_def)
qed

lemma resp_version_all:
  assumes "ver_ok ma mi" and d: "d = http_ver ma mi @ [32] @ post"
    and r: "r = ffhttp_resp_init\<lparr>rs_h := ffhttp_init\<lparr>hs_ver := mkver (foldl dec_step 0 ma) (foldl dec_step 0 mi)\<rparr>\<rparr>"
  shows "resp_loop ign d 0 iRespStart ffhttp_resp_init =
    resp_loop ign d (length (http_ver ma mi)) iSpaceAfterHttpVer
      (r\<lparr>rs_ver_len := word_of_nat (length (http_ver ma mi)), rs_h := ver_known (rs_h r)\<rparr>)"
proof -
  have v: "[72] @ tl (http_ver ma mi) = http_ver ma mi" by (simp add: http_ver_def)
  have "resp_loop ign d 0 iRespStart ffhttp_resp_init = resp_loop ign d (0 + 1) iH ffhttp_resp_init"
    by (intro resp_next) (simp_all add: resp_step_def d http_ver_def)
  also have "\<dots> = resp_loop ign d (length (http_ver ma mi)) iHttpMinVer r"
  proof -
    have "d = [72] @ tl (http_ver ma mi) @ [32] @ post" using v by (simp add: d)
    moreover have "length ([72] @ tl (http_ver ma mi)) = length (http_ver ma mi)" by (simp only: v)
    moreover have "hs_ver (rs_h ffhttp_resp_init) = 0" "rs_h ffhttp_resp_init = ffhttp_init"
      by (simp_all add: ffhttp_resp_init_def ffhttp_init_def)
    ultimately show ?thesis
      using resp_version_run [of "tl (http_ver ma mi)" iH ffhttp_resp_init _ _ ign "[72]" "[32] @ post"] version_run [OF assms(1)]
      by (simp add: r)
  qed
  also have "\<dots> = resp_loop ign d (length (http_ver ma mi)) iSpaceAfterHttpVer
      (r\<lparr>rs_ver_len := word_of_nat (length (http_ver ma mi)), rs_h := ver_known (rs_h r)\<rparr>)"
  proof -
    have "\<not> ffchar_isdigit 32" by code_simp
    then have "resp_step ign i 32 iHttpMinVer r = LAgain iSpaceAfterHttpVer (r\<lparr>rs_ver_len := word_of_nat i, rs_h := ver_known (rs_h r)\<rparr>)" for i
      by (simp add: resp_step_def parseVer_def Let_def)
    then show ?thesis by (subst resp_loop.simps) (simp add: resp_check_def d)
  qed
  finally show ?thesis .
qed

lemma resp_line_run:
  assumes ok: "status_ok ma mi code msg" and d: "d = status_line ma mi sp code msg @ eol cr @ post"
    and len: "length (status_line ma mi sp code msg) < 65536"
  shows "\<exists>idx r. resp_loop ign d 0 iRespStart ffhttp_resp_init = (FFHTTP_OK, idx, r, length (status_line ma mi sp code msg @ eol cr) - 1)
    \<and> unat (rs_code r) = foldl dec_step 0 code
    \<and> unat (r_off (rs_status r)) = length (http_ver ma mi) + Suc sp \<and> unat (r_len (rs_status r)) = length (code @ [32] @ msg)
    \<and> rs_h r = (ver_known (ffhttp_init\<lparr>hs_ver := mkver (foldl dec_step 0 ma) (foldl dec_step 0 mi)\<rparr>))\<lparr>hs_firstcrlf := if cr then 2 else 1\<rparr>"
proof -
  let ?v = "http_ver ma mi" and ?sp = "replicate (Suc sp) 32 :: bytes"
  obtain c cs where code: "code = c # cs" using ok by (cases code) (auto simp: status_ok_def digits_def)
  have dg: "\<forall>c \<in> set code. ffchar_isdigit (sint c)" using ok by (auto simp: status_ok_def digits_def)
  define n where "n = foldl dec_step 0 code"
  have n: "100 \<le> n" "n \<le> 999" using ok by (simp_all add: n_def status_ok_def)
  define r1 where "r1 = ffhttp_resp_init\<lparr>rs_ver_len := word_of_nat (length ?v),
    rs_h := ver_known (ffhttp_init\<lparr>hs_ver := mkver (foldl dec_step 0 ma) (foldl dec_step 0 mi)\<rparr>)\<rparr>"
  have first: "ffchar_isdigit (sint c)" "dec_step (unat (rs_code r1)) c \<le> 999"
    using dg n dec_step_grows [of "dec_step 0 c" cs] by (auto simp: code n_def r1_def ffhttp_resp_init_def)
  define off where "off = (word_of_nat (length (?v @ ?sp)) :: u16)"
  define r2 where "r2 = r1\<lparr>rs_status := (rs_status r1)\<lparr>r_off := off\<rparr>\<rparr>"
  define r3 where "r3 = r2\<lparr>rs_code := word_of_nat n\<rparr>"
  define r4 where "r4 = r3\<lparr>rs_status_text_off := word_of_nat (length (?v @ ?sp @ code) + 1)\<rparr>"
  have "resp_loop ign d 0 iRespStart ffhttp_resp_init = resp_loop ign d (length ?v) iSpaceAfterHttpVer r1"
    using ok resp_version_all [of ma mi d "replicate sp 32 @ code @ [32] @ msg @ eol cr @ post"]
    by (simp add: d status_line_def status_ok_def r1_def)
  also have "\<dots> = resp_loop ign d (length (?v @ ?sp)) iSpaceAfterHttpVer r1"
    using resp_spaces_run [of ign ?v "Suc sp" "code @ [32] @ msg @ eol cr @ post" r1] by (simp add: d status_line_def)
  also have "\<dots> = resp_loop ign d (length (?v @ ?sp)) iCode r2"
    using resp_code_start [of "length (?v @ ?sp)" d r1 ign] first
    by (simp add: d status_line_def nth_append code r2_def off_def)
  also have "\<dots> = resp_loop ign d (length (?v @ ?sp @ code)) iCode r3"
    using resp_code_run [OF dg, of r2 ign "?v @ ?sp" "[32] @ msg @ eol cr @ post"] n
    by (simp add: d status_line_def n_def r3_def r2_def r1_def ffhttp_resp_init_def)
  also have "\<dots> = resp_loop ign d (length (?v @ ?sp @ code @ [32])) iStatusStr r4"
  proof -
    have "\<not> ffchar_isdigit 32" by code_simp
    then have "resp_step ign i 32 iCode r3 = LNext iStatusStr (r3\<lparr>rs_status_text_off := word_of_nat (i + 1)\<rparr>)" for i
      using n by (simp add: resp_step_def resp_code_def r3_def word_less_nat_alt unat_of_nat)
    from resp_next [where d = d and i = "length (?v @ ?sp @ code)" and idx = iCode, OF _ _ _] this [of "length (?v @ ?sp @ code)"]
    show ?thesis by (simp add: d status_line_def nth_append r4_def)
  qed
  also have "\<dots> = resp_loop ign d (length (?v @ ?sp @ code @ [32] @ msg)) iStatusStr r4"
    using ok resp_text_run [of msg ign "?v @ ?sp @ code @ [32]" "eol cr @ post" r4]
    by (simp add: d status_line_def status_ok_def)
  finally have "resp_loop ign d 0 iRespStart ffhttp_resp_init =
      resp_loop ign d (length (status_line ma mi sp code msg)) iStatusStr r4" by (simp add: status_line_def)
  moreover obtain idx where "resp_loop ign d (length (status_line ma mi sp code msg)) iStatusStr r4 =
      (FFHTTP_OK, idx, set_statuslen (length (status_line ma mi sp code msg)) (if cr then 2 else 1) r4,
       length (status_line ma mi sp code msg @ eol cr) - 1)"
    using resp_eol [of ign "status_line ma mi sp code msg" cr post r4] by (auto simp: d)
  moreover have "unat off = length ?v + Suc sp" "unat (word_of_nat (length (status_line ma mi sp code msg)) - off) = length (code @ [32] @ msg)"
  proof -
    have l: "length ?v + Suc sp \<le> length (status_line ma mi sp code msg)" by (simp add: status_line_def)
    with len show "unat off = length ?v + Suc sp" unfolding off_def by (subst unat16) simp_all
    have "word_of_nat (length (status_line ma mi sp code msg)) - off = word_of_nat (length (status_line ma mi sp code msg) - (length ?v + Suc sp))"
      using l by (simp only: off_def of_nat_diff length_append length_replicate)
    moreover have "length (status_line ma mi sp code msg) - (length ?v + Suc sp) = length (code @ [32] @ msg)"
      by (simp add: status_line_def)
    ultimately show "unat (word_of_nat (length (status_line ma mi sp code msg)) - off) = length (code @ [32] @ msg)"
      using len by (simp only: unat16)
  qed
  ultimately show ?thesis using n
    by (auto simp: set_statuslen_def r4_def r3_def r2_def r1_def n_def unat16)
qed


lemma resp_line_all:
  assumes ok: "status_ok ma mi code msg" and d: "d = status_line ma mi sp code msg @ eol cr @ post"
    and len: "length (status_line ma mi sp code msg @ eol cr) < 65536"
  shows "\<exists>r n. ffhttp_resp_line ffhttp_resp_init d ign = (FFHTTP_OK, r)
    \<and> unat (rs_code r) = foldl dec_step 0 code \<and> ffrang_get (rs_status r) d = code @ [32] @ msg
    \<and> unat n = length (status_line ma mi sp code msg @ eol cr)
    \<and> rs_h r = (line_len n (ver_known (ffhttp_init\<lparr>hs_ver := mkver (foldl dec_step 0 ma) (foldl dec_step 0 mi)\<rparr>)))
         \<lparr>hs_firstcrlf := if cr then 2 else 1, hs_firstline_len := n\<rparr>"
proof -
  let ?l = "status_line ma mi sp code msg" and ?v = "http_ver ma mi"
  define k where "k = 0xffff - length (?l @ eol cr)"
  have d': "take 0xffff d = ?l @ eol cr @ take k post" using len by (simp add: d k_def)
  have "length ?l < 65536" using len by simp
  from resp_line_run [OF ok d' this, of ign] obtain idx r where r:
    "resp_loop ign (take 0xffff d) 0 iRespStart ffhttp_resp_init = (FFHTTP_OK, idx, r, length (?l @ eol cr) - 1)"
    "unat (rs_code r) = foldl dec_step 0 code" "unat (r_off (rs_status r)) = length ?v + Suc sp"
    "unat (r_len (rs_status r)) = length (code @ [32] @ msg)"
    "rs_h r = (ver_known (ffhttp_init\<lparr>hs_ver := mkver (foldl dec_step 0 ma) (foldl dec_step 0 mi)\<rparr>))\<lparr>hs_firstcrlf := if cr then 2 else 1\<rparr>"
    by blast
  define n where "n = (word_of_nat (length (?l @ eol cr)) :: u16)"
  have un: "unat n = length (?l @ eol cr)" unfolding n_def by (rule unat16 [OF len])
  have "length (?l @ eol cr) - 1 + 1 = length (?l @ eol cr)" by (simp add: eol_def)
  then have "ffhttp_resp_line ffhttp_resp_init d ign =
      (FFHTTP_OK, r\<lparr>rs_idx := iRespStart, rs_h := (line_len n (rs_h r))\<lparr>hs_firstline_len := n\<rparr>\<rparr>)"
    using r(1) unfolding ffhttp_resp_line_def
    by (simp add: n_def ffhttp_resp_init_def ffhttp_init_def ffhttp_inithdr_def)
  moreover have "ffrang_get (rs_status r) d = code @ [32] @ msg"
    using r(3,4) by (simp add: ffrang_get_def part_def d status_line_def)
  ultimately show ?thesis using r(2,5) un
    by (intro exI [of _ "r\<lparr>rs_idx := iRespStart, rs_h := (line_len n (rs_h r))\<lparr>hs_firstline_len := n\<rparr>\<rparr>"] exI [of _ n])
      (simp add: line_len_def ver_known_def)
qed

section \<open>A whole response\<close>

definition resp_headers_done :: "u16 \<Rightarrow> ffhttp_e \<Rightarrow> ffhttp_headers \<Rightarrow> ffhttp_headers" where
  "resp_headers_done code e h =
     (if e \<noteq> FFHTTP_DONE then h
      else if ffhttp_resp_nobody code then h\<lparr>hs_has_body := False\<rparr>
      else if \<not> hs_has_body h \<and> hs_cont_len h = -1 then h\<lparr>hs_has_body := True, hs_body_conn_close := True\<rparr>
      else h)"

lemma respparse_step:
  "ffhttp_respparsehdr align alloc_ok kt (r\<lparr>rs_h := h\<rparr>) d =
    map_option (\<lambda>(e, h). (e, r\<lparr>rs_h := resp_headers_done (rs_code r) e h\<rparr>)) (ffhttp_parsehdr align alloc_ok kt h d)"
  by (simp add: ffhttp_respparsehdr_def resp_headers_done_def Let_def case_prod_unfold cong: if_cong)

lemma respparse_all:
  assumes "parse_all (\<lambda>h. ffhttp_parsehdr align alloc_ok kt h d) h = Some y"
  shows "parse_all (\<lambda>r. ffhttp_respparsehdr align alloc_ok kt r d) (r\<lparr>rs_h := h\<rparr>) =
    Some (fst y, r\<lparr>rs_h := resp_headers_done (rs_code r) (fst y) (snd y)\<rparr>)"
proof -
  let ?f = "\<lambda>h. ffhttp_parsehdr align alloc_ok kt h d" and ?g = "\<lambda>r. ffhttp_respparsehdr align alloc_ok kt r d"
  define P where "P p h y \<longleftrightarrow> (p = ?f \<longrightarrow> (\<forall>r. parse_all ?g (r\<lparr>rs_h := h\<rparr>) =
      Some (fst y, r\<lparr>rs_h := resp_headers_done (rs_code r) (fst y) (snd y)\<rparr>)))" for p h y
  have "P ?f h y"
  proof (rule parse_all.raw_induct [OF _ assms])
    fix loop p h y
    assume IH: "\<And>p h y. loop p h = Some y \<Longrightarrow> P p h y"
      and st: "(case p h of None \<Rightarrow> None | Some (e, h) \<Rightarrow> if e = FFHTTP_OK then loop p h else Some (e, h)) = Some y"
    show "P p h y"
      unfolding P_def
    proof (intro impI allI)
      fix r :: ffhttp_response
      assume p: "p = ?f"
      obtain e h1 where e: "?f h = Some (e, h1)" using st by (auto simp: p split: option.splits)
      show "parse_all ?g (r\<lparr>rs_h := h\<rparr>) = Some (fst y, r\<lparr>rs_h := resp_headers_done (rs_code r) (fst y) (snd y)\<rparr>)"
      proof (cases "e = FFHTTP_OK")
        case True
        then have "loop p h1 = Some y" using st e by (simp add: p)
        then have "parse_all ?g (r\<lparr>rs_h := h1\<rparr>) = Some (fst y, r\<lparr>rs_h := resp_headers_done (rs_code r) (fst y) (snd y)\<rparr>)"
          using IH p by (auto simp: P_def)
        then show ?thesis using True e by (subst parse_all.simps) (simp add: respparse_step resp_headers_done_def)
      next
        case False
        then have "y = (e, h1)" using st e by (simp add: p)
        then show ?thesis using False e by (subst parse_all.simps) (simp add: respparse_step)
      qed
    qed
  qed
  then show ?thesis by (simp add: P_def)
qed

text \<open>
  A response that begins with a correct status line and goes on with headers is parsed whole, whatever the platform and whether or not other
  protocols are let through: with an error only for a Content-Length that is wrong or repeated; otherwise the version, the code, the status text and
  the end of the headers are those of the text, every header is found by its name, a message whose code allows no
  body has none, and another one without a body has a Content-Length.
\<close>

theorem ffhttp_resp_correct:
  assumes "rounds_up align" and "nslots ht0 = 0" and "ffhttp_initheaders align True ht0 = Some (0, kt)"
    and "status_ok ma mi code msg" and "ls \<noteq> []" and "\<forall>l \<in> set ls. line_ok l"
    and "d = status_line ma mi sp code msg @ eol cr @ concat (map line_text ls) @ eol cr2 @ post"
    and "length (status_line ma mi sp code msg @ eol cr @ concat (map line_text ls) @ eol cr2) < 65536"
  shows "\<exists>e r. ffhttp_resp align True kt ffhttp_resp_init d ign = Some (e, r)
    \<and> hs_ver (rs_h r) = mkver (foldl dec_step 0 ma) (foldl dec_step 0 mi)
    \<and> unat (rs_code r) = foldl dec_step 0 code \<and> ffrang_get (rs_status r) d = code @ [32] @ msg
    \<and> (if e = FFHTTP_DONE
       then unat (h_len (hs_hdr (rs_h r))) = length d - length post
          \<and> (\<forall>name. found_in ls d (rs_h r) name)
          \<and> (if foldl dec_step 0 code \<in> {204, 304} \<or> foldl dec_step 0 code < 200 then \<not> hs_has_body (rs_h r)
             else hs_has_body (rs_h r) \<or> hs_cont_len (rs_h r) \<noteq> -1)
       else length_error ls e)"
proof -
  have kt: "known_ok kt" using initheaders_ok [OF assms(1,2)] assms(3) by auto
  let ?l = "status_line ma mi sp code msg @ eol cr" and ?tx = "concat (map line_text ls)"
  let ?v = "mkver (foldl dec_step 0 ma) (foldl dec_step 0 mi)"
  have "length ?l < 65536" using assms(8) by simp
  from resp_line_all [OF assms(4) _ this, of d "?tx @ eol cr2 @ post" ign] assms(7) obtain r n where
    r: "ffhttp_resp_line ffhttp_resp_init d ign = (FFHTTP_OK, r)" "unat (rs_code r) = foldl dec_step 0 code"
      "ffrang_get (rs_status r) d = code @ [32] @ msg" "unat n = length ?l"
      "rs_h r = (line_len n (ver_known (ffhttp_init\<lparr>hs_ver := ?v\<rparr>)))\<lparr>hs_firstcrlf := if cr then 2 else 1, hs_firstline_len := n\<rparr>" by auto
  have h: "h_idx (hs_hdr (rs_h r)) = iKey" "unat (h_len (hs_hdr (rs_h r))) = length ?l" "hs_index_headers (rs_h r)"
    "idx_ok d (hs_hidx (rs_h r)) []" "hs_cont_len (rs_h r) = -1" "hs_ver (rs_h r) = ?v"
    using r(4) by (simp_all add: r(5) line_len_def ver_known_def ffhttp_init_def ffhttp_inithdr_def idx_ok_def)
  have "length ls \<le> length ?tx" by (rule lines_length)
  then have "length ls < 2 ^ 30" using assms(8) by simp
  then obtain e h' where p: "parse_all (\<lambda>h. ffhttp_parsehdr align True kt h d) (rs_h r) = Some (e, h')" and v: "hs_ver h' = ?v"
    and res: "e = FFHTTP_DONE \<and> unat (h_len (hs_hdr h')) = length (?l @ ?tx @ eol cr2) \<and> indexed ls d h' \<or> length_error ls e"
    using parse_lines [OF assms(1) kt assms(6), of d ?l cr2 post "rs_h r" "[]"] assms(5,7,8) h by auto
  let ?h = "resp_headers_done (rs_code r) e h'"
  have all: "ffhttp_resp align True kt ffhttp_resp_init d ign = Some (e, r\<lparr>rs_h := ?h\<rparr>)"
  proof -
    have "hs_firstcrlf (rs_h ffhttp_resp_init) = 0" by (simp add: ffhttp_resp_init_def ffhttp_init_def)
    moreover have "r\<lparr>rs_h := rs_h r\<rparr> = r" by simp
    ultimately show ?thesis using respparse_all [OF p, of r] by (simp add: ffhttp_resp_def r(1))
  qed
  have found: "indexed ls d h' \<Longrightarrow> found_in ls d ?h name" for name
    by (intro indexed_found) (simp add: indexed_def resp_headers_done_def)
  have same: "hs_hdr ?h = hs_hdr h'" "hs_ver ?h = ?v" by (simp_all add: resp_headers_done_def v)
  have nobody: "ffhttp_resp_nobody (rs_code r) \<longleftrightarrow> foldl dec_step 0 code \<in> {204, 304} \<or> foldl dec_step 0 code < 200"
    unfolding ffhttp_resp_nobody_def word_unat_eq_iff word_less_nat_alt r(2) by simp
  have body: "if foldl dec_step 0 code \<in> {204, 304} \<or> foldl dec_step 0 code < 200 then \<not> hs_has_body ?h
      else hs_has_body ?h \<or> hs_cont_len ?h \<noteq> -1" if "e = FFHTTP_DONE"
    using that by (auto simp: resp_headers_done_def nobody)
  have len: "length (?l @ ?tx @ eol cr2) = length d - length post" by (simp add: assms(7))
  show ?thesis
  proof (intro exI conjI)
    show "ffhttp_resp align True kt ffhttp_resp_init d ign = Some (e, r\<lparr>rs_h := ?h\<rparr>)" by (rule all)
    show "if e = FFHTTP_DONE
       then unat (h_len (hs_hdr (rs_h (r\<lparr>rs_h := ?h\<rparr>)))) = length d - length post
          \<and> (\<forall>name. found_in ls d (rs_h (r\<lparr>rs_h := ?h\<rparr>)) name)
          \<and> (if foldl dec_step 0 code \<in> {204, 304} \<or> foldl dec_step 0 code < 200 then \<not> hs_has_body (rs_h (r\<lparr>rs_h := ?h\<rparr>))
             else hs_has_body (rs_h (r\<lparr>rs_h := ?h\<rparr>)) \<or> hs_cont_len (rs_h (r\<lparr>rs_h := ?h\<rparr>)) \<noteq> -1)
       else length_error ls e"
      using res found body len same(1) by (auto simp: length_error_def)
  qed (simp_all add: r(2,3) same(2))
qed

text \<open>The response \<open>HTTP/1.1 200 OK\<close> with the header \<open>TE: b\<close>.\<close>

lemma ffhttp_resp_example:
  "\<exists>kt r. ffhttp_resp (align_from 56 1) True kt ffhttp_resp_init
        [72, 84, 84, 80, 47, 49, 46, 49, 32, 50, 48, 48, 32, 79, 75, 13, 10, 84, 69, 58, 98, 10, 13, 10] False = Some (FFHTTP_DONE, r)
    \<and> unat (rs_code r) = 200 \<and> hs_ver (rs_h r) = 0x0101 \<and> (hs_has_body (rs_h r) \<or> hs_cont_len (rs_h r) \<noteq> -1)"
proof -
  let ?ls = "[([84, 69], 0, [98], 0, False)] :: line list"
  let ?d = "[72, 84, 84, 80, 47, 49, 46, 49, 32, 50, 48, 48, 32, 79, 75, 13, 10, 84, 69, 58, 98, 10, 13, 10] :: bytes"
  obtain kt where kt: "ffhttp_initheaders (align_from 56 1) True (ex_table 0) = Some (0, kt)"
    using initheaders_ok [OF rounds_up_example, of "ex_table 0"] by auto
  have z: "nslots (ex_table 0) = 0" by simp
  have num: "foldl dec_step 0 [49] = 1" "foldl dec_step 0 [50, 48, 48] = 200" by code_simp+
  have "digits [49]" "digits [50, 48, 48]" by code_simp+
  then have st: "status_ok [49] [49] [50, 48, 48] [79, 75]" by (simp add: status_ok_def ver_ok_def num del: foldl_Cons foldl_Nil)
  have "hdr_name_ok [84, 69]" "hdr_val_ok [98]" by code_simp+
  then have ok: "\<forall>l \<in> set ?ls. line_ok l" by (simp add: line_ok_def line_name_def line_val_def)
  have d: "?d = status_line [49] [49] 0 [50, 48, 48] [79, 75] @ eol True @ concat (map line_text ?ls) @ eol True @ []"
    by (simp add: status_line_def http_ver_def line_text_def hdr_line_def eol_def)
  have len: "length (status_line [49] [49] 0 [50, 48, 48] [79, 75] @ eol True @ concat (map line_text ?ls) @ eol True) < 65536"
    by (simp add: status_line_def http_ver_def line_text_def hdr_line_def eol_def)
  have "\<not> ffstr_ieq (ffhttp_shdr ! 8) [84, 69]" by code_simp
  then have "hdr_number [84, 69] \<noteq> 8" using known_header_Some by (fastforce simp: hdr_number_def split: option.splits)
  then have "\<not> length_error ?ls e" for e
    by (simp add: length_error_def is_length_def line_name_def FFHTTP_CONTENT_LENGTH_def)
  moreover have "mkver 1 1 = 0x0101" by (simp add: mkver_def)
  ultimately show ?thesis
    using ffhttp_resp_correct [OF rounds_up_example z kt st _ ok d len, of False] num
    by (auto simp del: foldl_Cons foldl_Nil split: if_splits)
qed

end
