(* ===== verification/Spec2Isabelle.thy ===== *)
theory Spec2Isabelle
  imports FF_Prelude FF_Bits FF_Number FF_Sort FF_Ring FF_RingMT FF_Hashtab FF_Chain FF_Array FF_Gather
    FF_Crc FF_Path FF_Proto FF_RBTree FF_RBRep FF_RBInsert FF_RBRemove FF_RBSpec FF_Url FF_Dns FF_Websocket
    FF_Str FF_StrEdit FF_StrNum FF_Codec FF_Utf8 FF_Time FF_Http FF_HttpLine FF_HttpBody
begin

text \<open>
  Verification development of the FF library.

  \<^bold>\<open>The program.\<close> FF is a C library of containers, string and number functions, parsers of network and
  file formats, and wrappers of system and third-party libraries. It stands on a platform layer (FFOS:
  memory, files, sockets, time, CPU operations) that is not part of the repository. This
  development models the part of the library that is computation of its own: the base (\<open>FF/*.h\<close>,
  \<open>FF/*.c\<close>), the text encodings of \<open>FF/data\<close>, and the network formats of \<open>FF/net\<close> that need no socket.

  \<^bold>\<open>How C is modelled.\<close> The target is a little-endian LP64 machine. Integers of the code are words of
  their width (\<open>u8\<close>, \<open>u16\<close>, \<open>u32\<close>, \<open>u64\<close>), so that they wrap as in C; lengths of buffers that the code never
  lets wrap are natural numbers; a signed reading of a word is \<open>sint\<close>. Text and memory blocks are lists of
  bytes and a pointer into one is an offset, \<open>NULL\<close> is \<open>None\<close> or \<open>0\<close>. Linked structures live in an explicit store from
  addresses to nodes (\<open>FF_Chain\<close>, \<open>FF_RBTree\<close>), so that sharing and overwriting of links is what it is in the code.
  A function that may read or write outside its buffers, or that may not return, yields an option, and \<open>None\<close>
  is undefined behaviour or an endless loop; error codes of the code are values of an error type or the
  integers the code returns. Conditions that the code only checks by \<open>FF_ASSERT\<close> or states in a comment
  are hypotheses. Functions of the platform layer are arguments of the definitions that call them, and what
  is assumed of them is a named hypothesis (\<open>realloc_ok\<close> for the allocator, \<open>adds_carry\<close> for the addition
  with carry) with a concrete instance (\<open>ex_realloc\<close>, \<open>ex_addcarry\<close>) on which the witnesses rest.

  \<^bold>\<open>Base.\<close>
  \<^item> \<open>FF_Prelude\<close>: integer types, shifts, memory copies at an offset, lemmas on lists and words for all theories.
  \<^item> \<open>FF_Bits\<close> (\<open>bitops.h\<close>, \<open>bitops-vc.h\<close>): one-bit operations under the contract \<open>bit_cell\<close>, which the 32-bit and the
    64-bit versions satisfy; bit arrays change one bit only; fields read back what was written; scans and counts agree with
    their bitwise meaning.
  \<^item> \<open>FF_Number\<close> (\<open>number.h\<close>, \<open>ffnumber.c\<close>): cyclic increments, 24-bit integers in both byte orders (\<open>int_codec\<close>), saturation
    (\<open>saturation\<close>), linear and binary searches (\<open>index_search\<close>, which both implement). The binary search of 32-bit values
    is the linear one on every sorted array.
  \<^item> \<open>FF_Sort\<close> (\<open>ffnumber.c\<close>): the merge sort that hands small blocks to insertion sort. For element sizes 4 and 8
    the result is a stable sort of the input by any comparison that is a preorder (\<open>sort_order\<close>); for
    other sizes the insertion sort of the code is wrong, which a lemma shows.
  \<^item> \<open>FF_Array\<close>, \<open>FF_Gather\<close> (\<open>array.h\<close>, \<open>ffarray.c\<close>): the growable array refines a list of elements under the contract
    \<open>byte_vector\<close>, also when the array refers to memory it does not own and copies it on the first growth; buffered output loses
    nothing; and the state machine \<open>ffbuf_gather\<close> finds the first contiguous match in data spread over buffers, when each buffer is as long
    as the match.
  \<^item> \<open>FF_Chain\<close> (\<open>chain.h\<close>, \<open>list.h\<close>, \<open>fflist.c\<close>): circular lists on a store, with the contract \<open>intrusive_list\<close>:
    every operation does to the list of items what its name says, and a walk returns exactly the items.
  \<^item> \<open>FF_Hashtab\<close> (\<open>hashtab.h\<close>, \<open>ffhashtab.c\<close>): open addressing. The table refines a multiset of (hash, value)
    pairs (\<open>hash_bag\<close>); insertion always ends because a free slot is left, and a search finds an item exactly if there is one.
  \<^item> \<open>FF_RBTree\<close>, \<open>FF_RBRep\<close>, \<open>FF_RBInsert\<close>, \<open>FF_RBRemove\<close>, \<open>FF_RBSpec\<close> (\<open>rbtree.h\<close>, \<open>ffrbtree.c\<close>): the first holds the code on
    a store with parent pointers and a sentinel. The second relates a store to a tree and to a context of a subtree; the next two show
    that insertion, removal, search and walk do on the tree what they do on the store and keep the colour and height
    invariants, so that the loops end; the last states the contract \<open>ordered_store\<close> and the
    logarithmic height bound.
  \<^item> \<open>FF_Ring\<close> (\<open>ring.h\<close>, \<open>ffring.c\<close>): the byte ring buffer refines a bounded queue (\<open>byte_fifo\<close>) for any sequence
    of reads and writes, and in the overwriting mode keeps the latest bytes.
  \<^item> \<open>FF_RingMT\<close> (\<open>ring.h\<close>, \<open>ffring.c\<close>): the lock-free ring of pointers as a transition system: threads are program counters,
    each step is one access of the shared ring, and \<open>reach\<close> holds the states that any interleaving leads to. With one producer and
    one consumer nothing is lost, repeated or reordered, and a write returns in six steps; with two producers
    an interleaving overfills the ring.
  \<^item> \<open>FF_Crc\<close> (\<open>crc.h\<close>, \<open>ffcrc.c\<close>): the table-driven checksum is the polynomial division, and it detects every burst of at most 32 bits.

  \<^bold>\<open>Text.\<close>
  \<^item> \<open>FF_Str\<close>, \<open>FF_StrEdit\<close>, \<open>FF_StrNum\<close> (\<open>string.h\<close>, \<open>ffstring.c\<close>): comparison is the lexicographic order (\<open>key_compare\<close>, for bytes
    and for case-folded bytes); all scans share the contracts \<open>left_scan\<close> and \<open>right_scan\<close>; substring search finds the first
    occurrence; wildcard matching ends and never matches wrongly, and it finds every match of a pattern that has no star or ends with one
    (\<open>ffs_wildcard_misses\<close> shows a match that the code misses for another pattern); escaping and XOR masking are undone by their
    inverses; integers are read in three radixes under one contract (\<open>radix_text\<close>), modulo \<open>2 ^ 64\<close> as the code takes them.
  \<^item> \<open>FF_Codec\<close>, \<open>FF_Utf8\<close> (\<open>data/utf8.h\<close>, \<open>data/ffutf8.c\<close>): a contract for encodings that follow one another in a stream; UTF-8
    as the library writes it (up to six bytes) satisfies it, and UTF-16 text survives the conversion to UTF-8 and back.
  \<^item> \<open>FF_Path\<close> (\<open>path.h\<close>, \<open>ffpath.c\<close>): normalisation resolves \<open>.\<close> and \<open>..\<close> as walking the components does.
  \<^item> \<open>FF_Time\<close> (\<open>time.h\<close>, \<open>fftime.c\<close>): the calendar conversion in 32-bit arithmetic against the count of days by months and leap years;
    arithmetic of time values against nanoseconds.

  \<^bold>\<open>Network formats.\<close>
  \<^item> \<open>FF_Proto\<close> (\<open>net/proto.h\<close>, \<open>net/ffproto.c\<close>): addresses, header fields, and the Internet checksum.
  \<^item> \<open>FF_Url\<close> (\<open>net/url.h\<close>, \<open>net/ffurl.c\<close>), over \<open>FF_Path\<close> and \<open>FF_Proto\<close>: the URL parser as a step function on the state it saves in
    the structure, so that feeding the text in pieces is the same as feeding it at once.
  \<^item> \<open>FF_Dns\<close> (\<open>net/dns.h\<close>, \<open>net/ffdns.c\<close>): names with compression pointers: reading ends on every message, and for well-formed
    ones yields the labels of the inductive definition \<open>dns_labels\<close>; a query that is built is read back.
  \<^item> \<open>FF_Websocket\<close> (\<open>net/websocket.h\<close>, \<open>net/ffwebskt.c\<close>), over \<open>FF_Dns\<close> for big-endian fields: the reader as a state machine with the
    invariant \<open>ws_ok\<close>; it always returns; a call that asks for more can be continued with any next piece; a frame that stands whole in
    the input is read back. A masked body that arrives in pieces is decoded wrongly by the code (\<open>ffwebskt_body_key_restarts\<close>).
  \<^item> \<open>FF_HttpHdr\<close> (\<open>net/http.h\<close>, \<open>net/ffhttp.c\<close>), over \<open>FF_Crc\<close> and \<open>FF_Hashtab\<close>: the parser of header lines. The 42 hashes
    that the code has as constants are those of the names, and the table that is built of them finds every known header in any spelling.
  \<^item> \<open>FF_Http\<close> (\<open>net/http.h\<close>, \<open>net/ffhttp.c\<close>), over \<open>FF_HttpHdr\<close>: what each header changes in the message, and the index by name:
    after parsing, a search finds a header of the message in any spelling, and only those; only a Content-Length can fail.
  \<^item> \<open>FF_HttpLine\<close> (\<open>net/http.h\<close>, \<open>net/ffhttp.c\<close>), over \<open>FF_Http\<close>: the version parser, the status line and the whole response:
    version, code, status text and headers of a correct response are those of its text (\<open>ffhttp_resp_correct\<close>).
  \<^item> \<open>FF_HttpBody\<close> (\<open>net/http.h\<close>, \<open>net/ffhttp.c\<close>): the filters for chunked bodies, bodies of a known length and bodies that end with
    the connection, under the contract \<open>body_filter\<close>, from which it follows that the content does not depend on how the bytes arrive;
    chunks that are written are read back; byte ranges, with the exact condition under which the code answers them rightly.

  \<^bold>\<open>Loops and bounds.\<close> Loops whose end is a property of the data (\<open>chain_walk\<close>, \<open>hst_ins_loop\<close>, \<open>hst_find_loop\<close>, the loops of the
  red-black tree, \<open>wc_loop\<close>, \<open>ffwebskt_parse\<close>) are partial functions into an option, and the theorems
  state that they yield \<open>Some\<close>. All other loops of the code are total functions with a measure. Fuel is
  used for loops of callers only, which the code leaves to its users: the calls of \<open>ffbuf_gather\<close> on one input buffer (\<open>gather_loop\<close>, 4 calls, of
  which \<open>gather_finds_first\<close> shows that they are enough) and of \<open>ffbuf_contig\<close> (\<open>contig_input\<close>, 20 calls, in examples only), the calls that read a stream of encodings
  (\<open>decode_list\<close>, one per byte) and the calls that hand out a body (\<open>ws_read\<close>, one per byte and one for the end).
  Size limits that appear as hypotheses are those of the integer types: arrays below \<open>2 ^ 64\<close> bytes, hash tables below
  \<open>2 ^ 63\<close> slots, URL texts below \<open>2 ^ 16\<close> bytes, whose length the structure stores in 16 bits.

  \<^bold>\<open>Not modelled.\<close> Wrappers whose behaviour is that of an external system: the GUI layers, audio devices and codecs, databases, TLS,
  DPDK, the HTTP and DNS clients (sockets, kernel queues), file and directory utilities. HTTP request lines and the writer of messages. Formatted output (\<open>ffs_fmt\<close> and what
  uses it for printing), floating-point conversions, and the wide-character variants of the Windows build. The
  per-format readers and writers of audio files, containers, tags, archives and pictures, and the descriptor-driven parsers of JSON
  and configuration files, which store through field offsets of C structures. Memory fences are taken to give the order of stores that the code
  asks for; weaker memory models are not considered.
\<close>

end
